(* ===== verification/Prelude.thy ===== *)
theory Prelude
  imports Main "HOL-Library.Word"
begin

text \<open>
  What every component of the model shares: the names of the C integer types, C strings
  (a \<open>char *\<close> is the list of the characters before and after the terminator, read up to
  the first NUL), the little-endian byte images of integers, the value of an assertion
  failure, and the generic list lemmas the component proofs use.

  C's \<open>int\<close>, \<open>int32\<close> and \<open>int64\<close> are HOL integers; where a width matters the range is
  a predicate (\<open>int32_range\<close>) or the wrap-around is written out. Hash values and raw bytes
  are machine words.
\<close>

type_synonym uint8 = "8 word"
type_synonym uint16 = "16 word"
type_synonym uint32 = "32 word"
type_synonym uint64 = "64 word"

text \<open>An address returned by the allocator. Address 0 is \<open>NULL\<close>.\<close>

type_synonym addr = nat

named_theorems le_simps \<open>reading back what was written little-endian\<close>
named_theorems vec_simps \<open>what a vector operation does to the sequence the vector holds\<close>
named_theorems inv_intros \<open>preservation of component invariants\<close>

subsection \<open>Failures\<close>

text \<open>
  What can go wrong in the C code where it does not return an error code: an \<open>assert\<close> that
  fails (the build is a debug build, so it aborts), a null pointer that is dereferenced, a read
  behind the end of an array or string, or a recursion that exhausts the stack. A call of \<open>exit\<close>
  ends the program too.
\<close>

datatype fault = Assert_Failed | Null_Deref | Out_Of_Bounds | Stack_Overflow | Exited

type_synonym 'a run = "fault + 'a"

definition bind_run :: "'a run \<Rightarrow> ('a \<Rightarrow> 'b run) \<Rightarrow> 'b run" where
  "bind_run m f = (case m of Inl e \<Rightarrow> Inl e | Inr x \<Rightarrow> f x)"

lemma bind_run_simps [simp]:
  "bind_run (Inl e) f = Inl e"
  "bind_run (Inr x) f = f x"
  by (simp_all add: bind_run_def)

lemma bind_run_eq_Inr_iff [simp]:
  "bind_run m f = Inr y \<longleftrightarrow> (\<exists>x. m = Inr x \<and> f x = Inr y)"
  by (cases m) auto

definition assert_run :: "bool \<Rightarrow> unit run" where
  "assert_run b = (if b then Inr () else Inl Assert_Failed)"

lemma assert_run_simps [simp]:
  "assert_run True = Inr ()"
  "assert_run False = Inl Assert_Failed"
  "assert_run b = Inr u \<longleftrightarrow> b"
  by (simp_all add: assert_run_def)

text \<open>Sequencing where a loop may not end and the program may stop.\<close>

definition then_do :: "'a run option \<Rightarrow> ('a \<Rightarrow> 'b run option) \<Rightarrow> 'b run option" where
  "then_do m f = (case m of None \<Rightarrow> None | Some (Inl e) \<Rightarrow> Some (Inl e) | Some (Inr x) \<Rightarrow> f x)"

lemma then_do_simps [simp]:
  "then_do None f = None" "then_do (Some (Inl e)) f = Some (Inl e)" "then_do (Some (Inr x)) f = f x"
  by (simp_all add: then_do_def)

subsection \<open>C strings\<close>

abbreviation NUL :: char where "NUL \<equiv> CHR 0x00"

text \<open>What the string functions of the C library see of a character array.\<close>

definition cstr :: "string \<Rightarrow> string" where
  "cstr s = takeWhile (\<lambda>c. c \<noteq> NUL) s"

definition strlen :: "string \<Rightarrow> int" where
  "strlen s = int (length (cstr s))"

text \<open>\<open>strcmp(s1, s2) == 0\<close>\<close>

definition str_eq :: "string \<Rightarrow> string \<Rightarrow> bool" where
  "str_eq s1 s2 \<longleftrightarrow> cstr s1 = cstr s2"

definition no_nul :: "string \<Rightarrow> bool" where
  "no_nul s \<longleftrightarrow> NUL \<notin> set s"

lemma no_nul_simps [simp]:
  "no_nul []"
  "no_nul (c # s) \<longleftrightarrow> c \<noteq> NUL \<and> no_nul s"
  "no_nul (s @ t) \<longleftrightarrow> no_nul s \<and> no_nul t"
  "no_nul (rev s) \<longleftrightarrow> no_nul s"
  by (auto simp: no_nul_def)

lemma no_nul_cstr [simp]: "no_nul (cstr s)"
  by (auto simp: no_nul_def cstr_def dest: set_takeWhileD)

lemma cstr_id [simp]: "no_nul s \<Longrightarrow> cstr s = s"
  by (auto simp: cstr_def no_nul_def takeWhile_eq_all_conv)

lemma cstr_idem: "cstr (cstr s) = cstr s"
  by simp

lemma cstr_Nil [simp]: "cstr [] = []"
  by (simp add: cstr_def)

lemma cstr_Cons: "cstr (c # s) = (if c = NUL then [] else c # cstr s)"
  by (simp add: cstr_def)

lemma cstr_append: "no_nul s \<Longrightarrow> cstr (s @ t) = s @ cstr t"
  by (induction s) (auto simp: cstr_Cons)

lemma cstr_append_NUL: "cstr (s @ NUL # t) = cstr s"
  by (induction s) (auto simp: cstr_Cons)

lemma cstr_replicate_NUL [simp]: "cstr (replicate n NUL) = []"
  by (cases n) (auto simp: cstr_Cons)

lemma length_cstr_le: "length (cstr s) \<le> length s"
  by (simp add: cstr_def length_takeWhile_le)

lemma str_eq_refl [simp]: "str_eq s s"
  by (simp add: str_eq_def)

lemma str_eq_no_nul: "no_nul s \<Longrightarrow> no_nul t \<Longrightarrow> str_eq s t \<longleftrightarrow> s = t"
  by (simp add: str_eq_def)

subsection \<open>Characters and bytes\<close>

definition byte_of_char :: "char \<Rightarrow> uint8" where
  "byte_of_char c = word_of_nat (of_char c)"

definition char_of_byte :: "uint8 \<Rightarrow> char" where
  "char_of_byte b = char_of (unat b)"

lemma char_of_byte_of_char [simp]: "char_of_byte (byte_of_char c) = c"
proof -
  have "(of_char c :: nat) < 2 ^ 8" by simp
  then have "unat (word_of_nat (of_char c) :: uint8) = of_char c"
    by (simp add: unat_of_nat take_bit_nat_eq_self)
  then show ?thesis by (simp add: byte_of_char_def char_of_byte_def)
qed

subsection \<open>Little-endian integers\<close>

text \<open>The bytes an integer of \<open>n\<close> bytes has in memory, and the unsigned value they spell.\<close>

fun le_bytes :: "nat \<Rightarrow> int \<Rightarrow> uint8 list" where
  "le_bytes 0 x = []"
| "le_bytes (Suc n) x = word_of_int x # le_bytes n (x div 256)"

fun le_uint :: "uint8 list \<Rightarrow> int" where
  "le_uint [] = 0"
| "le_uint (b # bs) = uint b + 256 * le_uint bs"

text \<open>The same bytes read as a two's complement integer.\<close>

definition le_sint :: "uint8 list \<Rightarrow> int" where
  "le_sint bs = (let u = le_uint bs in
     if 2 * u < 256 ^ length bs then u else u - 256 ^ length bs)"

definition int32_range :: "int \<Rightarrow> bool" where
  "int32_range x \<longleftrightarrow> - 2147483648 \<le> x \<and> x < 2147483648"

definition int64_range :: "int \<Rightarrow> bool" where
  "int64_range x \<longleftrightarrow> - 9223372036854775808 \<le> x \<and> x < 9223372036854775808"

definition uint32_range :: "int \<Rightarrow> bool" where
  "uint32_range x \<longleftrightarrow> 0 \<le> x \<and> x < 4294967296"

definition uint16_range :: "int \<Rightarrow> bool" where
  "uint16_range x \<longleftrightarrow> 0 \<le> x \<and> x < 65536"

lemma length_le_bytes [simp]: "length (le_bytes n x) = n"
  by (induction n arbitrary: x) auto

lemma le_uint_le_bytes: "le_uint (le_bytes n x) = x mod 256 ^ n"
proof (induction n arbitrary: x)
  case 0
  then show ?case by simp
next
  case (Suc n)
  have "le_uint (le_bytes (Suc n) x) = x mod 256 + 256 * (x div 256 mod 256 ^ n)"
    using Suc by (simp add: unsigned_of_int take_bit_eq_mod)
  also have "\<dots> = x mod (256 * 256 ^ n)"
    by (simp add: zmod_zmult2_eq)
  finally show ?case by simp
qed

lemma le_uint_le_bytes_id [le_simps]:
  "0 \<le> x \<Longrightarrow> x < 256 ^ n \<Longrightarrow> le_uint (le_bytes n x) = x"
  by (simp add: le_uint_le_bytes)

lemma le_sint_le_bytes:
  assumes "- (256 ^ n) \<le> 2 * x" "2 * x < 256 ^ n"
  shows "le_sint (le_bytes n x) = x"
proof (cases "0 \<le> x")
  case True
  with assms have "x mod 256 ^ n = x" by simp
  with True assms show ?thesis by (simp add: le_sint_def le_uint_le_bytes)
next
  case False
  have "(x + 256 ^ n) mod 256 ^ n = x + 256 ^ n"
    using assms False by (intro mod_pos_pos_trivial) auto
  then have "x mod 256 ^ n = x + 256 ^ n" by simp
  with False assms show ?thesis by (simp add: le_sint_def le_uint_le_bytes)
qed

lemma le_sint4 [le_simps]: "int32_range x \<Longrightarrow> le_sint (le_bytes 4 x) = x"
  by (rule le_sint_le_bytes) (auto simp: int32_range_def)

lemma le_sint8 [le_simps]: "int64_range x \<Longrightarrow> le_sint (le_bytes 8 x) = x"
  by (rule le_sint_le_bytes) (auto simp: int64_range_def)

lemma le_uint4 [le_simps]: "uint32_range x \<Longrightarrow> le_uint (le_bytes 4 x) = x"
  by (rule le_uint_le_bytes_id) (auto simp: uint32_range_def)

lemma le_uint2 [le_simps]: "uint16_range x \<Longrightarrow> le_uint (le_bytes 2 x) = x"
  by (rule le_uint_le_bytes_id) (auto simp: uint16_range_def)

subsection \<open>Lists\<close>

lemma list_update_append_index:
  "k < length xs \<Longrightarrow> xs[k := f (xs ! k)] = take k xs @ f (xs ! k) # drop (Suc k) xs"
  by (simp add: upd_conv_take_nth_drop)

lemma take_list_update_last:
  "n < length xs \<Longrightarrow> take (Suc n) (xs[n := x]) = take n xs @ [x]"
  by (simp add: take_Suc_conv_app_nth)

lemma concat_update_mset:
  "k < length xss \<Longrightarrow> set (concat (xss[k := ys])) \<subseteq> set ys \<union> set (concat xss)"
  using set_update_subset_insert [of xss k ys] by auto

end
