(* ===== verification/HashFunc.thy ===== *)
theory HashFunc
  imports Prelude
begin

text \<open>
  \<open>src/hashfunc.c\<close>: the integer hashes, which are multiplications by an odd constant, and the
  BKDR string hash. \<open>char\<close> is signed on the target, so a character is sign-extended before it
  is added.
\<close>

unbundle bit_operations_syntax

definition hash_uint64 :: "uint64 \<Rightarrow> nat \<Rightarrow> uint64" where
  "hash_uint64 v bits = (
     let hash = v;
         n = hash;
         n = push_bit 18 n; hash = hash - n;
         n = push_bit 33 n; hash = hash - n;
         n = push_bit 3 n;  hash = hash + n;
         n = push_bit 3 n;  hash = hash - n;
         n = push_bit 4 n;  hash = hash + n;
         n = push_bit 2 n;  hash = hash + n
     in drop_bit (64 - bits) hash)"

definition GOLDEN_RATIO_PRIME_32 :: uint64 where
  "GOLDEN_RATIO_PRIME_32 = 0x9e370001"

definition GOLDEN_RATIO_PRIME_64 :: uint64 where
  "GOLDEN_RATIO_PRIME_64 = 0x9e37fffffffc0001"

text \<open>The constant is an \<open>unsigned long\<close>: the product is taken in 64 bits, then truncated.\<close>

definition hash_uint32 :: "uint32 \<Rightarrow> nat \<Rightarrow> uint32" where
  "hash_uint32 v bits = (
     let hash = (ucast (ucast v * GOLDEN_RATIO_PRIME_32) :: uint32)
     in drop_bit (32 - bits) hash)"

definition schar :: "char \<Rightarrow> uint32" where
  "schar c = scast (byte_of_char c)"

fun hash_string_loop :: "uint32 \<Rightarrow> string \<Rightarrow> uint32" where
  "hash_string_loop v [] = v"
| "hash_string_loop v (c # s) =
     (if c = NUL then v else hash_string_loop (v * 131 + schar c) s)"

definition hash_string :: "string \<Rightarrow> uint32" where
  "hash_string s = hash_string_loop 0 s"

fun hash_nstring_loop :: "uint32 \<Rightarrow> string \<Rightarrow> int \<Rightarrow> uint32" where
  "hash_nstring_loop v [] len = v"
| "hash_nstring_loop v (c # s) len =
     (if c = NUL \<or> len = 0 then v else hash_nstring_loop (v * 131 + schar c) s (len - 1))"

definition hash_nstring :: "string \<Rightarrow> int \<Rightarrow> uint32" where
  "hash_nstring s len = hash_nstring_loop 0 s len"

subsection \<open>The shifts of \<open>hash_uint64\<close> are the multiplication its constant announces\<close>

lemma push_bit_word_mult: "push_bit n (x :: 'a :: len word) = x * 2 ^ n"
  by (simp add: push_bit_eq_mult)

text \<open>
  The sequence of shifts, additions and subtractions in \<open>hash_uint64\<close> multiplies by the
  64-bit golden-ratio prime (modulo \<open>2 ^ 64\<close>), and the result is the top \<open>bits\<close> bits of the
  product.
\<close>

theorem hash_uint64_is_golden_mult:
  "hash_uint64 v bits = drop_bit (64 - bits) (v * GOLDEN_RATIO_PRIME_64)"
proof -
  have "v - v * 2 ^ 18 - v * 2 ^ 18 * 2 ^ 33 + v * 2 ^ 18 * 2 ^ 33 * 2 ^ 3
      - v * 2 ^ 18 * 2 ^ 33 * 2 ^ 3 * 2 ^ 3 + v * 2 ^ 18 * 2 ^ 33 * 2 ^ 3 * 2 ^ 3 * 2 ^ 4
      + v * 2 ^ 18 * 2 ^ 33 * 2 ^ 3 * 2 ^ 3 * 2 ^ 4 * 2 ^ 2
      = v * (1 - 2 ^ 18 - 2 ^ 51 + 2 ^ 54 - 2 ^ 57 + 2 ^ 61 + 2 ^ 63)"
    by (simp add: algebra_simps)
  also have "(1 - 2 ^ 18 - 2 ^ 51 + 2 ^ 54 - 2 ^ 57 + 2 ^ 61 + 2 ^ 63 :: uint64)
      = GOLDEN_RATIO_PRIME_64"
    by (simp add: GOLDEN_RATIO_PRIME_64_def)
  finally show ?thesis
    by (simp add: hash_uint64_def push_bit_word_mult Let_def)
qed

lemma mod_mult_truncate: "m dvd n \<Longrightarrow> v mod m * k mod m = v * (k mod n) mod (m :: int)"
  by (metis mod_mod_cancel mod_mult_left_eq mod_mult_right_eq)

lemma ucast_mult_truncate: "ucast (ucast v * (k :: uint64)) = (v :: uint32) * ucast k"
  by transfer (simp add: take_bit_eq_mod mod_mult_eq mod_mod_cancel mod_mult_truncate [symmetric])

lemma hash_uint32_full: "hash_uint32 v 32 = v * 0x9e370001"
  by (simp add: hash_uint32_def GOLDEN_RATIO_PRIME_32_def ucast_mult_truncate)

text \<open>
  Over the full 32 bits, as the constant pool and the object hashes call it,
  \<open>hash_uint32\<close> is a bijection of the 32-bit values: two hashes are equal exactly when the
  hashed values are.
\<close>

theorem hash_uint32_full_inj: "hash_uint32 v 32 = hash_uint32 w 32 \<longleftrightarrow> v = w"
proof
  assume "hash_uint32 v 32 = hash_uint32 w 32"
  then have "v * 0x9e370001 * 1640562689 = w * 0x9e370001 * 1640562689"
    by (simp only: hash_uint32_full)
  moreover have "(0x9e370001 :: uint32) * 1640562689 = 1"
    by simp
  ultimately show "v = w"
    by (simp only: mult.assoc mult_1_right)
qed simp

lemma hash_string_loop_cstr: "hash_string_loop v s = hash_string_loop v (cstr s)"
  by (induction s arbitrary: v) (auto simp: cstr_Cons)

lemma hash_string_cstr: "hash_string (cstr s) = hash_string s"
  unfolding hash_string_def by (rule hash_string_loop_cstr [symmetric])

lemma hash_string_str_eq: "str_eq s t \<Longrightarrow> hash_string s = hash_string t"
  using hash_string_cstr [of s] hash_string_cstr [of t] by (simp add: str_eq_def)

lemma hash_nstring_loop_take:
  "0 \<le> len \<Longrightarrow> hash_nstring_loop v s len = hash_string_loop v (take (nat len) s)"
proof (induction s arbitrary: v len)
  case Nil
  then show ?case by simp
next
  case (Cons c s)
  show ?case
  proof (cases "len = 0")
    case True
    then show ?thesis by simp
  next
    case False
    with Cons.prems have "nat len = Suc (nat (len - 1))" by simp
    with Cons False show ?thesis by simp
  qed
qed

text \<open>
  \<open>hash_nstring\<close> of a length that is not negative is \<open>hash_string\<close> of the prefix of that
  length: looking a name up by pointer and length finds the bucket the same name was stored in
  as a C string.
\<close>

theorem hash_nstring_is_prefix_hash:
  "0 \<le> len \<Longrightarrow> hash_nstring s len = hash_string (take (nat len) s)"
  unfolding hash_nstring_def hash_string_def by (rule hash_nstring_loop_take)

theorem hash_nstring_is_prefix_hash_witness:
  "hash_nstring ''lang/io'' 4 = hash_string ''lang''"
  using hash_nstring_is_prefix_hash [of 4 "''lang/io''"] by simp

end
