(* ===== verification/CList.thy ===== *)
theory CList
  imports Prelude
begin

text \<open>
  \<open>include/list.h\<close>: the intrusive lists every container of the program is built on, on an
  explicit store, so that the pointer writes can be checked one by one.

  A \<open>list_head\<close> is a pair of pointers kept in a store \<open>addr \<Rightarrow> list_head\<close>; \<open>dlist h head xs\<close> says
  that the circular list of \<open>head\<close> holds the nodes \<open>xs\<close>, in this order, each distinct. A
  \<open>hlist\<close> is singly linked with a back pointer to the pointer that refers to the node: the head's
  \<open>first\<close> field or the \<open>next\<close> field of another node. The lemmas show that each operation is the
  list operation its name announces and leaves every other node alone; the rest of the model
  works with the lists these stores represent.

  The interface \<open>fifo\<close> is the contract of the queues: push at the tail, pop at the head.
\<close>

subsection \<open>Circular doubly linked lists\<close>

record list_head =
  lh_next :: addr
  lh_prev :: addr

type_synonym list_store = "addr \<Rightarrow> list_head"

definition set_next :: "addr \<Rightarrow> addr \<Rightarrow> list_store \<Rightarrow> list_store" where
  "set_next a v h = h(a := (h a)\<lparr>lh_next := v\<rparr>)"

definition set_prev :: "addr \<Rightarrow> addr \<Rightarrow> list_store \<Rightarrow> list_store" where
  "set_prev a v h = h(a := (h a)\<lparr>lh_prev := v\<rparr>)"

definition init_list_head :: "addr \<Rightarrow> list_store \<Rightarrow> list_store" where
  "init_list_head lst h = set_prev lst lst (set_next lst lst h)"

definition list_unlinked :: "list_store \<Rightarrow> addr \<Rightarrow> bool" where
  "list_unlinked h node \<longleftrightarrow> lh_next (h node) = node \<and> lh_prev (h node) = node"

text \<open>The four writes of \<open>__list_add\<close>, in the order of the source.\<close>

definition link_between :: "addr \<Rightarrow> addr \<Rightarrow> addr \<Rightarrow> list_store \<Rightarrow> list_store" where
  "link_between entry p n h =
     set_prev n entry (set_next p entry (set_prev entry p (set_next entry n h)))"

definition list_add :: "addr \<Rightarrow> addr \<Rightarrow> list_store \<Rightarrow> list_store" where
  "list_add entry head h = link_between entry head (lh_next (h head)) h"

definition list_add_tail :: "addr \<Rightarrow> addr \<Rightarrow> list_store \<Rightarrow> list_store" where
  "list_add_tail entry head h = link_between entry (lh_prev (h head)) head h"

definition unlink_between :: "addr \<Rightarrow> addr \<Rightarrow> list_store \<Rightarrow> list_store" where
  "unlink_between p n h = set_next p n (set_prev n p h)"

definition list_del :: "addr \<Rightarrow> list_store \<Rightarrow> list_store" where
  "list_del entry h =
     init_list_head entry (unlink_between (lh_prev (h entry)) (lh_next (h entry)) h)"

definition list_empty :: "list_store \<Rightarrow> addr \<Rightarrow> bool" where
  "list_empty h head \<longleftrightarrow> lh_next (h head) = head"

definition list_first :: "list_store \<Rightarrow> addr \<Rightarrow> addr option" where
  "list_first h head = (if list_empty h head then None else Some (lh_next (h head)))"

definition list_last :: "list_store \<Rightarrow> addr \<Rightarrow> addr option" where
  "list_last h head = (if list_empty h head then None else Some (lh_prev (h head)))"

text \<open>
  \<open>list_for_each\<close> as the list of the positions it visits; the fuel bounds the walk, and
  \<open>list_for_each_dlist\<close> shows that the length of the list is enough.
\<close>

fun walk :: "nat \<Rightarrow> list_store \<Rightarrow> addr \<Rightarrow> addr \<Rightarrow> addr list option" where
  "walk 0 h head pos = (if pos = head then Some [] else None)"
| "walk (Suc n) h head pos =
     (if pos = head then Some [] else map_option ((#) pos) (walk n h head (lh_next (h pos))))"

definition list_for_each :: "nat \<Rightarrow> list_store \<Rightarrow> addr \<Rightarrow> addr list option" where
  "list_for_each fuel h head = walk fuel h head (lh_next (h head))"

subsection \<open>The lists a store represents\<close>

fun linked :: "list_store \<Rightarrow> addr \<Rightarrow> addr list \<Rightarrow> addr \<Rightarrow> bool" where
  "linked h a [] b \<longleftrightarrow> lh_next (h a) = b \<and> lh_prev (h b) = a"
| "linked h a (x # xs) b \<longleftrightarrow> lh_next (h a) = x \<and> lh_prev (h x) = a \<and> linked h x xs b"

definition dlist :: "list_store \<Rightarrow> addr \<Rightarrow> addr list \<Rightarrow> bool" where
  "dlist h head xs \<longleftrightarrow> distinct (head # xs) \<and> linked h head xs head"

lemma linked_append:
  "linked h a (xs @ y # ys) b \<longleftrightarrow> linked h a xs y \<and> linked h y ys b"
  by (induction xs arbitrary: a) auto

lemma linked_frame:
  assumes "\<And>x. x \<in> insert a (set xs) \<Longrightarrow> lh_next (h' x) = lh_next (h x)"
    and "\<And>x. x \<in> insert b (set xs) \<Longrightarrow> lh_prev (h' x) = lh_prev (h x)"
  shows "linked h' a xs b \<longleftrightarrow> linked h a xs b"
  using assms by (induction xs arbitrary: a) auto

lemma linked_last: "linked h a xs b \<Longrightarrow> lh_prev (h b) = last (a # xs)"
  by (induction xs arbitrary: a) auto

lemma linked_first: "linked h a xs b \<Longrightarrow> lh_next (h a) = hd (xs @ [b])"
  by (cases xs) auto

lemma dlist_ends:
  assumes "dlist h head xs"
  shows "lh_next (h head) = hd (xs @ [head])" "lh_prev (h head) = last (head # xs)"
  using assms by (auto simp: dlist_def dest: linked_first linked_last)

lemma dlist_empty_iff: "dlist h head xs \<Longrightarrow> list_empty h head \<longleftrightarrow> xs = []"
  by (cases xs) (auto simp: list_empty_def dlist_def)

lemma list_first_dlist:
  "dlist h head xs \<Longrightarrow> list_first h head = (if xs = [] then None else Some (hd xs))"
  using dlist_ends(1) [of h head xs] by (auto simp: list_first_def dlist_empty_iff)

lemma list_last_dlist:
  "dlist h head xs \<Longrightarrow> list_last h head = (if xs = [] then None else Some (last xs))"
  using dlist_ends(2) [of h head xs] by (auto simp: list_last_def dlist_empty_iff)

lemma dlist_init: "dlist (init_list_head head h) head []"
  by (simp add: dlist_def init_list_head_def set_next_def set_prev_def)

lemma init_list_head_other [simp]: "a \<noteq> l \<Longrightarrow> init_list_head l h a = h a"
  by (simp add: init_list_head_def set_next_def set_prev_def)

lemma unlinked_init: "list_unlinked (init_list_head l h) l"
  by (simp add: list_unlinked_def init_list_head_def set_next_def set_prev_def)

text \<open>Insertion between two neighbours.\<close>

lemma link_between_next:
  "p \<noteq> e \<Longrightarrow> lh_next (link_between e p n h x) = (if x = p then e else if x = e then n else lh_next (h x))"
  by (simp add: link_between_def set_next_def set_prev_def)

lemma link_between_prev:
  "n \<noteq> e \<Longrightarrow> lh_prev (link_between e p n h x) = (if x = n then e else if x = e then p else lh_prev (h x))"
  by (simp add: link_between_def set_next_def set_prev_def)

lemma linked_insert:
  assumes "linked h a (xs @ ys) b" "e \<notin> insert a (insert b (set (xs @ ys)))"
    "distinct (a # xs @ ys)" "b \<notin> set (xs @ ys)"
  shows "linked (link_between e (last (a # xs)) (hd (ys @ [b])) h) a (xs @ e # ys) b"
  using assms
proof (induction xs arbitrary: a)
  case Nil
  show ?case
  proof (cases ys)
    case Nil
    with \<open>linked h a ([] @ ys) b\<close> Nil.prems show ?thesis
      by (auto simp: link_between_next link_between_prev)
  next
    case (Cons y zs)
    have "linked (link_between e a y h) y zs b = linked h y zs b"
      using Nil.prems Cons
      by (intro linked_frame) (auto simp: link_between_next link_between_prev)
    with Cons Nil.prems show ?thesis
      by (auto simp: link_between_next link_between_prev)
  qed
next
  case (Cons x xs)
  define p where "p = last (x # xs)"
  define n where "n = hd (ys @ [b])"
  have "p \<in> set (x # xs)" unfolding p_def by (rule last_in_set) simp
  moreover have "n \<in> insert b (set ys)" unfolding n_def by (cases ys) auto
  ultimately have ne: "p \<noteq> e" "p \<noteq> a" "n \<noteq> e" "n \<noteq> x" using Cons.prems by auto
  have "linked (link_between e p n h) x (xs @ e # ys) b"
    unfolding p_def n_def by (rule Cons.IH) (use Cons.prems in auto)
  moreover have "lh_next (link_between e p n h a) = x" "lh_prev (link_between e p n h x) = a"
    using ne Cons.prems by (auto simp: link_between_next link_between_prev)
  moreover have "last (a # x # xs) = p" by (simp add: p_def)
  ultimately show ?case by (simp add: n_def)
qed

lemma dlist_add_tail:
  assumes "dlist h head xs" "e \<notin> set (head # xs)"
  shows "dlist (list_add_tail e head h) head (xs @ [e])"
  using assms linked_insert [of h head xs "[]" head e] dlist_ends(2) [OF assms(1)]
  by (auto simp: dlist_def list_add_tail_def)

lemma dlist_add_head:
  assumes "dlist h head xs" "e \<notin> set (head # xs)"
  shows "dlist (list_add e head h) head (e # xs)"
  using assms linked_insert [of h head "[]" xs head e] dlist_ends(1) [OF assms(1)]
  by (auto simp: dlist_def list_add_def)

text \<open>Removal.\<close>

lemma unlink_next:
  "lh_next (unlink_between p n h x) = (if x = p then n else lh_next (h x))"
  by (simp add: unlink_between_def set_next_def set_prev_def)

lemma unlink_prev:
  "lh_prev (unlink_between p n h x) = (if x = n then p else lh_prev (h x))"
  by (simp add: unlink_between_def set_next_def set_prev_def)

lemma linked_remove:
  assumes "linked h a (xs @ e # ys) b" "distinct (a # xs @ e # ys)"
    "b \<notin> set (xs @ e # ys)"
  shows "linked (unlink_between (lh_prev (h e)) (lh_next (h e)) h) a (xs @ ys) b"
proof -
  have ex: "linked h a xs e" "linked h e ys b"
    using assms(1) by (simp_all add: linked_append)
  have p: "lh_prev (h e) = last (a # xs)" and n: "lh_next (h e) = hd (ys @ [b])"
    using linked_last [OF ex(1)] linked_first [OF ex(2)] by simp_all
  show ?thesis
    unfolding p n using assms
  proof (induction xs arbitrary: a)
    case Nil
    show ?case
    proof (cases ys)
      case Nil
      with Nil.prems show ?thesis by (simp add: unlink_next unlink_prev)
    next
      case (Cons y zs)
      have "linked (unlink_between a y h) y zs b = linked h y zs b"
        using Nil.prems Cons by (intro linked_frame) (auto simp: unlink_next unlink_prev)
      with Cons Nil.prems show ?thesis by (simp add: unlink_next unlink_prev)
    qed
  next
    case (Cons x xs)
    define p where "p = last (x # xs)"
    define n where "n = hd (ys @ [b])"
    have "p \<in> set (x # xs)" unfolding p_def by (rule last_in_set) simp
    moreover have "n \<in> insert b (set ys)" unfolding n_def by (cases ys) auto
    ultimately have ne: "p \<noteq> a" "n \<noteq> x" using Cons.prems by auto
    have "linked (unlink_between p n h) x (xs @ ys) b"
      unfolding p_def n_def by (rule Cons.IH) (use Cons.prems in auto)
    moreover have "lh_next (unlink_between p n h a) = x" "lh_prev (unlink_between p n h x) = a"
      using ne Cons.prems by (auto simp: unlink_next unlink_prev)
    moreover have "last (a # x # xs) = p" by (simp add: p_def)
    ultimately show ?case by (simp add: n_def)
  qed
qed

lemma dlist_del:
  assumes "dlist h head xs" "e \<in> set xs"
  shows "dlist (list_del e h) head (remove1 e xs)" "list_unlinked (list_del e h) e"
proof -
  obtain ys zs where xs: "xs = ys @ e # zs" and "e \<notin> set ys"
    using split_list_first [OF assms(2)] by blast
  have d: "distinct (head # ys @ e # zs)" "linked h head (ys @ e # zs) head"
    using assms(1) xs by (simp_all add: dlist_def)
  have "linked (unlink_between (lh_prev (h e)) (lh_next (h e)) h) head (ys @ zs) head"
    using linked_remove [OF d(2,1)] d(1) by auto
  moreover have "linked (list_del e h) head (ys @ zs) head =
      linked (unlink_between (lh_prev (h e)) (lh_next (h e)) h) head (ys @ zs) head"
    using d(1) by (intro linked_frame; subst list_del_def; subst init_list_head_other) auto
  ultimately show "dlist (list_del e h) head (remove1 e xs)"
    using d(1) \<open>e \<notin> set ys\<close> by (simp add: dlist_def xs remove1_append)
  show "list_unlinked (list_del e h) e"
    by (simp add: list_del_def unlinked_init)
qed

text \<open>A list that shares no node with the one that is changed is not touched.\<close>

lemma dlist_frame_add_tail:
  assumes "dlist h head xs" "dlist h head2 ys" "e \<notin> set (head2 # ys)"
    "set (head # xs) \<inter> set (head2 # ys) = {}"
  shows "dlist (list_add_tail e head h) head2 ys"
proof -
  have "last (head # xs) \<in> set (head # xs)" by (rule last_in_set) simp
  then have "list_add_tail e head h x = h x" if "x \<in> set (head2 # ys)" for x
    using that assms dlist_ends(2) [OF assms(1)]
    by (auto simp: list_add_tail_def link_between_def set_next_def set_prev_def)
  then have "linked (list_add_tail e head h) head2 ys head2 = linked h head2 ys head2"
    by (intro linked_frame) auto
  with assms(2) show ?thesis by (simp add: dlist_def)
qed

lemma walk_linked:
  "linked h a xs head \<Longrightarrow> head \<notin> set xs \<Longrightarrow> length xs \<le> n \<Longrightarrow>
   walk n h head (lh_next (h a)) = Some xs"
proof (induction xs arbitrary: a n)
  case Nil
  then show ?case by (cases n) auto
next
  case (Cons x xs)
  then obtain m where "n = Suc m" by (cases n) auto
  with Cons.prems Cons.IH [of x m] show ?case by auto
qed

lemma list_for_each_dlist:
  "dlist h head xs \<Longrightarrow> length xs \<le> n \<Longrightarrow> list_for_each n h head = Some xs"
  by (simp add: list_for_each_def dlist_def walk_linked)

subsection \<open>Hash chains\<close>

text \<open>
  \<open>pprev\<close> points to the pointer that refers to the node: null, the \<open>first\<close> field of a head, or
  the \<open>next\<close> field of a node.
\<close>

datatype pointer_to = PNull | First addr | Next addr

record hlist_store =
  hl_first :: "addr \<Rightarrow> addr"
  hl_next :: "addr \<Rightarrow> addr"
  hl_pprev :: "addr \<Rightarrow> pointer_to"

definition deref :: "hlist_store \<Rightarrow> pointer_to \<Rightarrow> addr" where
  "deref s p = (case p of PNull \<Rightarrow> 0 | First h \<Rightarrow> hl_first s h | Next n \<Rightarrow> hl_next s n)"

definition assign :: "pointer_to \<Rightarrow> addr \<Rightarrow> hlist_store \<Rightarrow> hlist_store" where
  "assign p v s = (case p of PNull \<Rightarrow> s
     | First h \<Rightarrow> s\<lparr>hl_first := (hl_first s)(h := v)\<rparr>
     | Next n \<Rightarrow> s\<lparr>hl_next := (hl_next s)(n := v)\<rparr>)"

definition set_pprev :: "addr \<Rightarrow> pointer_to \<Rightarrow> hlist_store \<Rightarrow> hlist_store" where
  "set_pprev a p s = s\<lparr>hl_pprev := (hl_pprev s)(a := p)\<rparr>"

definition init_hlist_head :: "addr \<Rightarrow> hlist_store \<Rightarrow> hlist_store" where
  "init_hlist_head h s = assign (First h) 0 s"

definition init_hlist_node :: "addr \<Rightarrow> hlist_store \<Rightarrow> hlist_store" where
  "init_hlist_node n s = set_pprev n PNull (assign (Next n) 0 s)"

definition hlist_unhashed :: "hlist_store \<Rightarrow> addr \<Rightarrow> bool" where
  "hlist_unhashed s node \<longleftrightarrow> hl_pprev s node = PNull"

definition hlist_empty :: "hlist_store \<Rightarrow> addr \<Rightarrow> bool" where
  "hlist_empty s head \<longleftrightarrow> hl_first s head = 0"

definition hlist_del :: "addr \<Rightarrow> hlist_store \<Rightarrow> hlist_store" where
  "hlist_del n s = (
     if hlist_unhashed s n then s
     else
       let nxt = hl_next s n; pp = hl_pprev s n;
           s1 = assign pp nxt s;
           s2 = (if nxt \<noteq> 0 then set_pprev nxt pp s1 else s1)
       in init_hlist_node n s2)"

definition hlist_add :: "addr \<Rightarrow> addr \<Rightarrow> hlist_store \<Rightarrow> hlist_store" where
  "hlist_add n h s = (
     let first = hl_first s h;
         s1 = assign (Next n) first s;
         s2 = (if first \<noteq> 0 then set_pprev first (Next n) s1 else s1);
         s3 = assign (First h) n s2
     in set_pprev n (First h) s3)"

text \<open>\<open>chain s p xs\<close>: starting from the pointer \<open>p\<close> the chain holds the nodes \<open>xs\<close>.\<close>

fun chain :: "hlist_store \<Rightarrow> pointer_to \<Rightarrow> addr list \<Rightarrow> bool" where
  "chain s p [] \<longleftrightarrow> deref s p = 0"
| "chain s p (x # xs) \<longleftrightarrow> deref s p = x \<and> x \<noteq> 0 \<and> hl_pprev s x = p \<and> chain s (Next x) xs"

definition hlist :: "hlist_store \<Rightarrow> addr \<Rightarrow> addr list \<Rightarrow> bool" where
  "hlist s h xs \<longleftrightarrow> distinct xs \<and> chain s (First h) xs"

lemmas hl_defs = deref_def assign_def set_pprev_def init_hlist_node_def

lemma chain_frame:
  assumes "deref s' p = deref s p"
    and "\<And>x. x \<in> set xs \<Longrightarrow> hl_next s' x = hl_next s x \<and> hl_pprev s' x = hl_pprev s x"
  shows "chain s' p xs \<longleftrightarrow> chain s p xs"
  using assms by (induction xs arbitrary: p) (auto simp: deref_def)

lemma hlist_add_correct:
  assumes "hlist s h xs" "n \<notin> set xs" "n \<noteq> 0"
  shows "hlist (hlist_add n h s) h (n # xs)" "\<not> hlist_unhashed (hlist_add n h s) n"
proof -
  show "\<not> hlist_unhashed (hlist_add n h s) n"
    by (simp add: hlist_unhashed_def hlist_add_def hl_defs Let_def)
  show "hlist (hlist_add n h s) h (n # xs)"
  proof (cases xs)
    case Nil
    with assms show ?thesis
      by (auto simp: hlist_def hlist_add_def hl_defs Let_def)
  next
    case (Cons x ys)
    with assms have x: "hl_first s h = x" "x \<noteq> 0" "chain s (Next x) ys" "x \<notin> set ys" "n \<noteq> x"
      by (auto simp: hlist_def deref_def)
    have "chain (hlist_add n h s) (Next x) ys = chain s (Next x) ys"
      using x assms(2) Cons
      by (intro chain_frame) (auto simp: hlist_add_def hl_defs Let_def)
    with assms Cons x show ?thesis
      by (simp add: hlist_def hlist_add_def hl_defs Let_def)
  qed
qed

lemma chain_del:
  assumes "chain s p (xs @ n # ys)" "distinct (xs @ n # ys)"
    "\<forall>x \<in> set (xs @ n # ys). p \<noteq> Next x" "p \<noteq> PNull"
  shows "chain (hlist_del n s) p (xs @ ys) \<and> hlist_unhashed (hlist_del n s) n"
  using assms
proof (induction xs arbitrary: p)
  case Nil
  then have n: "hl_pprev s n = p" "deref s p = n" "chain s (Next n) ys" by auto
  then have hashed: "\<not> hlist_unhashed s n" using Nil.prems by (simp add: hlist_unhashed_def)
  show ?case
  proof (cases ys)
    case Nil
    with n hashed Nil.prems show ?thesis
      by (cases p) (auto simp: hlist_del_def hl_defs Let_def hlist_unhashed_def)
  next
    case (Cons y zs)
    with n Nil.prems have y: "hl_next s n = y" "y \<noteq> 0" "y \<notin> set zs" "n \<noteq> y" "n \<notin> set zs"
      "chain s (Next y) zs"
      by (auto simp: deref_def)
    have "chain (hlist_del n s) (Next y) zs = chain s (Next y) zs"
      using n y hashed Cons Nil.prems
      by (intro chain_frame; cases p) (auto simp: hlist_del_def hl_defs Let_def hlist_unhashed_def)
    with n y hashed Cons Nil.prems show ?thesis
      by (cases p) (auto simp: hlist_del_def hl_defs Let_def hlist_unhashed_def)
  qed
next
  case (Cons x xs)
  have IH: "chain (hlist_del n s) (Next x) (xs @ ys) \<and> hlist_unhashed (hlist_del n s) n"
    by (rule Cons.IH) (use Cons.prems in auto)
  have px: "hl_pprev s x = p" "deref s p = x" "x \<noteq> 0" "x \<noteq> n" using Cons.prems by auto
  have np: "hl_pprev s n \<noteq> p" "hl_next s n \<noteq> x"
  proof -
    have "chain s (Next x) (xs @ n # ys)" using Cons.prems by simp
    have pn: "\<exists>z \<in> set (x # xs). hl_pprev s n = Next z"
      using \<open>chain s (Next x) (xs @ n # ys)\<close>
      by (induction xs arbitrary: x) auto
    with Cons.prems show "hl_pprev s n \<noteq> p" by auto
    from \<open>chain s (Next x) (xs @ n # ys)\<close> have "chain s (Next n) ys"
      by (induction xs arbitrary: x) auto
    then have "hl_next s n \<in> insert 0 (set ys)" by (cases ys) (auto simp: deref_def)
    with px Cons.prems show "hl_next s n \<noteq> x" by auto
  qed
  have "deref (hlist_del n s) p = x \<and> hl_pprev (hlist_del n s) x = p"
    using np px Cons.prems(3)
    by (cases p; cases "hl_pprev s n") (auto simp: hlist_del_def hl_defs Let_def hlist_unhashed_def)
  with IH px show ?case by simp
qed

lemma hlist_del_correct:
  assumes "hlist s h xs" "n \<in> set xs"
  shows "hlist (hlist_del n s) h (remove1 n xs)" "hlist_unhashed (hlist_del n s) n"
proof -
  obtain ys zs where xs: "xs = ys @ n # zs" and "n \<notin> set ys"
    using split_list_first [OF assms(2)] by blast
  with assms chain_del [of s "First h" ys n zs]
  show "hlist (hlist_del n s) h (remove1 n xs)" "hlist_unhashed (hlist_del n s) n"
    by (auto simp: hlist_def remove1_append)
qed

lemma hlist_del_unhashed: "hlist_unhashed s n \<Longrightarrow> hlist_del n s = s"
  by (simp add: hlist_del_def)

subsection \<open>Queues\<close>

locale fifo =
  fixes push :: "'x \<Rightarrow> 's \<Rightarrow> 's"
    and pop :: "'s \<Rightarrow> 'x option \<times> 's"
    and contents :: "'s \<Rightarrow> 'x list \<Rightarrow> bool"
    and fresh :: "'x \<Rightarrow> 'x list \<Rightarrow> bool"
  assumes push_contents: "contents s xs \<Longrightarrow> fresh x xs \<Longrightarrow> contents (push x s) (xs @ [x])"
    and pop_empty: "contents s [] \<Longrightarrow> fst (pop s) = None \<and> contents (snd (pop s)) []"
    and pop_contents: "contents s (x # xs) \<Longrightarrow> fst (pop s) = Some x \<and> contents (snd (pop s)) xs"
begin

text \<open>A run of pushes (\<open>Some x\<close>) and pops (\<open>None\<close>), with the list of what the pops returned.\<close>

fun run :: "'x option list \<Rightarrow> 's \<Rightarrow> 'x option list \<times> 's" where
  "run [] s = ([], s)"
| "run (Some x # ops) s = run ops (push x s)"
| "run (None # ops) s = (case pop s of (r, s1) \<Rightarrow> case run ops s1 of (rs, s2) \<Rightarrow> (r # rs, s2))"

fun spec :: "'x option list \<Rightarrow> 'x list \<Rightarrow> 'x option list \<times> 'x list" where
  "spec [] xs = ([], xs)"
| "spec (Some x # ops) xs = spec ops (xs @ [x])"
| "spec (None # ops) [] = (case spec ops [] of (rs, ys) \<Rightarrow> (None # rs, ys))"
| "spec (None # ops) (x # xs) = (case spec ops xs of (rs, ys) \<Rightarrow> (Some x # rs, ys))"

fun fresh_run :: "'x option list \<Rightarrow> 'x list \<Rightarrow> bool" where
  "fresh_run [] xs = True"
| "fresh_run (Some x # ops) xs = (fresh x xs \<and> fresh_run ops (xs @ [x]))"
| "fresh_run (None # ops) xs = fresh_run ops (tl xs)"

lemma run_refines_spec:
  "contents s xs \<Longrightarrow> fresh_run ops xs \<Longrightarrow>
   fst (run ops s) = fst (spec ops xs) \<and> contents (snd (run ops s)) (snd (spec ops xs))"
proof (induction ops arbitrary: s xs)
  case Nil
  then show ?case by simp
next
  case (Cons p ops)
  show ?case
  proof (cases p)
    case (Some x)
    with Cons show ?thesis by (simp add: push_contents)
  next
    case None
    show ?thesis
    proof (cases xs)
      case Nil
      with Cons.IH [of "snd (pop s)" "[]"] Cons.prems None pop_empty [of s]
      show ?thesis by (auto split: prod.splits)
    next
      case (Cons y ys)
      with Cons.IH [of "snd (pop s)" ys] Cons.prems None pop_contents [of s y ys]
      show ?thesis by (auto split: prod.splits)
    qed
  qed
qed

text \<open>Nothing is lost, duplicated or reordered.\<close>

lemma spec_order:
  "\<exists>rs. map Some rs = filter (\<lambda>r. r \<noteq> None) (fst (spec ops xs)) \<and>
     rs @ snd (spec ops xs) = xs @ map the (filter (\<lambda>p. p \<noteq> None) ops)"
proof (induction ops xs rule: spec.induct)
  case (3 ops)
  then show ?case by (auto split: prod.splits)
next
  case (4 ops x xs)
  then obtain rs where "map Some rs = filter (\<lambda>r. r \<noteq> None) (fst (spec ops xs))"
    "rs @ snd (spec ops xs) = xs @ map the (filter (\<lambda>p. p \<noteq> None) ops)" by blast
  then show ?case by (intro exI [of _ "x # rs"]) (auto split: prod.splits)
qed auto

end

text \<open>
  The list of \<open>list.h\<close> used as a queue, as \<open>Cache\<close>, \<open>Buffer\<close> and the code blocks use it: add at the
  tail, take the first and unlink it.
\<close>

definition list_pop :: "addr \<Rightarrow> list_store \<Rightarrow> addr option \<times> list_store" where
  "list_pop head h = (case list_first h head of None \<Rightarrow> (None, h)
     | Some e \<Rightarrow> (Some e, list_del e h))"

interpretation dl: fifo "\<lambda>e. list_add_tail e head" "list_pop head" "\<lambda>h xs. dlist h head xs"
    "\<lambda>e xs. e \<noteq> head \<and> e \<notin> set xs" for head
proof unfold_locales
  fix s xs x
  assume "dlist s head xs" "x \<noteq> head \<and> x \<notin> set xs"
  then show "dlist (list_add_tail x head s) head (xs @ [x])" by (simp add: dlist_add_tail)
next
  fix s
  assume "dlist s head []"
  then show "fst (list_pop head s) = None \<and> dlist (snd (list_pop head s)) head []"
    by (simp add: list_pop_def list_first_dlist)
next
  fix s x xs
  assume "dlist s head (x # xs)"
  then show "fst (list_pop head s) = Some x \<and> dlist (snd (list_pop head s)) head xs"
    using dlist_del(1) [of s head "x # xs" x] by (simp add: list_pop_def list_first_dlist)
qed

subsection \<open>Properties\<close>

text \<open>
  C36: \<open>list_add_tail\<close> appends a node that is in neither list to the list of \<open>head\<close>, and a second
  list in the same store that shares no node with it stays as it was.
\<close>

theorem list_add_tail_refines_append:
  assumes "dlist h head xs" "dlist h head2 ys"
    and "set (head # xs) \<inter> set (head2 # ys) = {}" and "e \<notin> set (head # xs) \<union> set (head2 # ys)"
  shows "dlist (list_add_tail e head h) head (xs @ [e]) \<and> dlist (list_add_tail e head h) head2 ys"
  using assms dlist_add_tail [of h head xs e] dlist_frame_add_tail [of h head xs head2 ys e]
  by auto

definition two_lists :: list_store where
  "two_lists = list_add_tail 3 1 (init_list_head 1 (init_list_head 2 (\<lambda>_. \<lparr>lh_next = 0, lh_prev = 0\<rparr>)))"

lemma two_lists: "dlist two_lists 1 [3]" "dlist two_lists 2 []"
  by (simp_all add: two_lists_def dlist_def list_add_tail_def link_between_def init_list_head_def
      set_next_def set_prev_def)

theorem list_add_tail_refines_append_witness:
  "dlist (list_add_tail 4 1 two_lists) 1 [3, 4] \<and> dlist (list_add_tail 4 1 two_lists) 2 []"
  using list_add_tail_refines_append [OF two_lists, of 4] by simp

text \<open>
  C37: \<open>list_del\<close> takes exactly the given node out of the list it is in, keeps the order of the
  others, and leaves the node pointing to itself, so that it can be linked again.
\<close>

theorem list_del_refines_remove:
  assumes "dlist h head xs" "e \<in> set xs"
  shows "dlist (list_del e h) head (remove1 e xs) \<and> list_unlinked (list_del e h) e"
  using dlist_del [OF assms] by simp

theorem list_del_refines_remove_witness:
  "dlist (list_del 3 two_lists) 1 [] \<and> list_unlinked (list_del 3 two_lists) 3"
  using list_del_refines_remove [OF two_lists(1), of 3] by simp

text \<open>
  C35: on hash chains \<open>hlist_add\<close> puts an unhashed node at the front and \<open>hlist_del\<close> takes a node
  out of the middle of its chain without knowing the head, through the back pointer alone; the
  deleted node is unhashed again, so deleting it twice changes nothing.
\<close>

theorem hlist_add_del_correct:
  assumes "hlist s h xs" "n \<noteq> 0"
  shows "(n \<notin> set xs \<longrightarrow> hlist (hlist_add n h s) h (n # xs)) \<and>
    (n \<in> set xs \<longrightarrow> hlist (hlist_del n s) h (remove1 n xs) \<and>
       hlist_unhashed (hlist_del n s) n \<and> hlist_del n (hlist_del n s) = hlist_del n s)"
  using assms hlist_add_correct(1) [of s h xs n] hlist_del_correct [of s h xs n]
    hlist_del_unhashed [of "hlist_del n s" n]
  by auto

definition one_chain :: hlist_store where
  "one_chain = hlist_add 5 1 (hlist_add 6 1 \<lparr>hl_first = \<lambda>_. 0, hl_next = \<lambda>_. 0, hl_pprev = \<lambda>_. PNull\<rparr>)"

lemma one_chain: "hlist one_chain 1 [5, 6]"
  by (simp add: one_chain_def hlist_def hlist_add_def hl_defs Let_def)

theorem hlist_add_del_correct_witness:
  "hlist (hlist_add 7 1 one_chain) 1 [7, 5, 6] \<and> hlist (hlist_del 6 one_chain) 1 [5]"
  using hlist_add_del_correct [OF one_chain, of 7] hlist_add_del_correct [OF one_chain, of 6]
  by simp

end
