(* ===== verification/HashTable.thy ===== *)
theory HashTable
  imports CList HashFunc "HOL-Library.Multiset"
begin

text \<open>
  \<open>src/hashtable.c\<close>, \<open>include/hashtable.h\<close>: the chained hash table with a second list of its nodes
  in insertion order. The chains and the list are the HOL lists that \<open>CList\<close> shows the pointer
  structures represent; a node keeps its address, since removal compares pointers, and whether
  it is linked (\<open>pprev\<close> not null), since insertion and removal test that.

  The hash and equality functions are fields of the table, as in C. What the table promises
  depends on the client keeping the contract between the two, which is the interface
  \<open>hash_contract\<close>: every client theory interprets it for its own keys.
\<close>

subsection \<open>Data\<close>

definition good_primes :: "nat list" where
  "good_primes = [19, 31, 53, 97, 193, 389, 769, 1543, 3079, 6151, 12289, 24593, 49157, 98317,
     196613, 393241, 786433, 1572869, 3145739, 6291469, 12582917, 25165843, 50331653, 100663319,
     201326611, 402653189, 805306457, 1610612741]"

definition DEFAULT_PRIME_INDEX :: nat where
  "DEFAULT_PRIME_INDEX = 0"

definition get_prime :: "nat \<Rightarrow> nat" where
  "get_prime idx = good_primes ! idx"

record 'k HashNode =
  hn_addr :: addr
  hn_linked :: bool
  hn_hash :: uint32
  hn_key :: 'k

record 'k HashTable =
  prime_index :: nat
  nr_nodes :: int
  ht_hash :: "'k \<Rightarrow> uint32"
  ht_equal :: "'k \<Rightarrow> 'k \<Rightarrow> bool"
  entries :: "'k HashNode list list"
  ht_head :: "'k HashNode list"

definition Init_HashNode :: "addr \<Rightarrow> 'k \<Rightarrow> 'k HashNode" where
  "Init_HashNode a k = \<lparr>hn_addr = a, hn_linked = False, hn_hash = 0, hn_key = k\<rparr>"

definition get_entries_size :: "'k HashTable \<Rightarrow> nat" where
  "get_entries_size t = get_prime (prime_index t)"

text \<open>
  \<open>n < p * 0.65\<close>. The C code compares in \<open>double\<close>; no prime of the table is a multiple of 20, so
  \<open>13 p / 20\<close> is at least \<open>1/20\<close> away from every integer, far more than the rounding error, and
  the comparison is the exact one.
\<close>

definition below_load :: "int \<Rightarrow> nat \<Rightarrow> bool" where
  "below_load n p \<longleftrightarrow> 20 * n < 13 * int p"

subsection \<open>Operations\<close>

function prime_loop :: "int \<Rightarrow> nat \<Rightarrow> nat" where
  "prime_loop n idx =
     (if idx < length good_primes then
        if below_load n (get_prime idx) then idx else prime_loop n (Suc idx)
      else idx)"
  by pat_completeness auto
termination by (relation "measure (\<lambda>(n, idx). length good_primes - idx)") auto

declare prime_loop.simps [simp del]

definition get_proper_prime_index :: "'k HashTable \<Rightarrow> nat" where
  "get_proper_prime_index t = (
     let new_prime_index = prime_loop (nr_nodes t) (prime_index t)
     in if new_prime_index \<ge> length good_primes then length good_primes - 1 else new_prime_index)"

definition new_entries :: "bool \<Rightarrow> nat \<Rightarrow> 'k HashNode list list option" where
  "new_entries ok nr_entries = (if \<not> ok then None else Some (replicate nr_entries []))"

definition HashTable_Init ::
  "bool \<Rightarrow> ('k \<Rightarrow> uint32) \<Rightarrow> ('k \<Rightarrow> 'k \<Rightarrow> bool) \<Rightarrow> 'k HashTable option" where
  "HashTable_Init ok hash equal = (case new_entries ok (get_prime DEFAULT_PRIME_INDEX) of
     None \<Rightarrow> None
   | Some es \<Rightarrow> Some \<lparr>prime_index = DEFAULT_PRIME_INDEX, nr_nodes = 0, ht_hash = hash,
       ht_equal = equal, entries = es, ht_head = []\<rparr>)"

text \<open>\<open>HashTable_New\<close> makes two allocations, of the table and of the chains.\<close>

definition HashTable_New ::
  "bool \<Rightarrow> bool \<Rightarrow> ('k \<Rightarrow> uint32) \<Rightarrow> ('k \<Rightarrow> 'k \<Rightarrow> bool) \<Rightarrow> 'k HashTable option" where
  "HashTable_New ok1 ok2 hash equal = (if \<not> ok1 then None else HashTable_Init ok2 hash equal)"

definition HashTable_Find_hash :: "'k HashTable \<Rightarrow> uint32 \<Rightarrow> 'k \<Rightarrow> 'k HashNode option" where
  "HashTable_Find_hash t hash key = (
     let idx = unat hash mod get_entries_size t
     in find (\<lambda>hnode. ht_equal t (hn_key hnode) key) (entries t ! idx))"

definition HashTable_Find :: "'k HashTable \<Rightarrow> 'k \<Rightarrow> 'k HashNode option" where
  "HashTable_Find t key = HashTable_Find_hash t (ht_hash t key) key"

text \<open>\<open>hlist_del\<close> and \<open>list_del\<close> of one node of a list with distinct nodes.\<close>

definition unlink_node :: "addr \<Rightarrow> 'k HashNode list \<Rightarrow> 'k HashNode list" where
  "unlink_node a ns = filter (\<lambda>n. hn_addr n \<noteq> a) ns"

definition HashTable_Remove :: "'k HashTable \<Rightarrow> 'k HashNode \<Rightarrow> int \<times> 'k HashTable \<times> 'k HashNode" where
  "HashTable_Remove t hnode = (
     if \<not> hn_linked hnode then (-1, t, hnode)
     else
       case HashTable_Find_hash t (hn_hash hnode) (hn_key hnode) of
         None \<Rightarrow> (-1, t, hnode)
       | Some temp \<Rightarrow>
           if hn_addr temp \<noteq> hn_addr hnode then (-1, t, hnode)
           else
             let idx = unat (hn_hash hnode) mod get_entries_size t in
             (0, t\<lparr>entries := (entries t)[idx := unlink_node (hn_addr hnode) (entries t ! idx)],
                   ht_head := unlink_node (hn_addr hnode) (ht_head t),
                   nr_nodes := nr_nodes t - 1\<rparr>,
              hnode\<lparr>hn_linked := False\<rparr>))"

text \<open>The inner and the outer loop of \<open>htable_expand\<close>: every node goes to the front of its new chain.\<close>

fun move_chain :: "nat \<Rightarrow> 'k HashNode list \<Rightarrow> 'k HashNode list list \<Rightarrow> 'k HashNode list list" where
  "move_chain m [] es = es"
| "move_chain m (n # ns) es =
     (let index = unat (hn_hash n) mod m in move_chain m ns (es[index := n # es ! index]))"

fun move_all :: "nat \<Rightarrow> 'k HashNode list list \<Rightarrow> 'k HashNode list list \<Rightarrow> 'k HashNode list list" where
  "move_all m [] es = es"
| "move_all m (c # cs) es = move_all m cs (move_chain m c es)"

definition htable_expand :: "bool \<Rightarrow> 'k HashTable \<Rightarrow> nat \<Rightarrow> 'k HashTable" where
  "htable_expand ok t new_prime_index = (
     let new_nr_entries = get_prime new_prime_index in
     case new_entries ok new_nr_entries of
       None \<Rightarrow> t
     | Some es \<Rightarrow> t\<lparr>prime_index := new_prime_index,
                    entries := move_all new_nr_entries (entries t) es\<rparr>)"

definition htable_maybe_expand :: "bool \<Rightarrow> 'k HashTable \<Rightarrow> 'k HashTable" where
  "htable_maybe_expand ok t = (
     if prime_index t \<ge> length good_primes then t
     else if below_load (nr_nodes t) (get_entries_size t) then t
     else
       let new_prime_index = get_proper_prime_index t in
       if new_prime_index \<le> prime_index t then t else htable_expand ok t new_prime_index)"

definition HashTable_Insert ::
  "bool \<Rightarrow> 'k HashTable \<Rightarrow> 'k HashNode \<Rightarrow> int \<times> 'k HashTable \<times> 'k HashNode" where
  "HashTable_Insert ok t hnode = (
     if hn_linked hnode then (-1, t, hnode)
     else
       let hash = ht_hash t (hn_key hnode);
           hnode1 = hnode\<lparr>hn_hash := hash\<rparr> in
       case HashTable_Find_hash t hash (hn_key hnode) of
         Some _ \<Rightarrow> (-1, t, hnode1)
       | None \<Rightarrow>
           let t1 = htable_maybe_expand ok t;
               index = unat hash mod get_entries_size t1;
               hnode2 = hnode1\<lparr>hn_linked := True\<rparr> in
           (0, t1\<lparr>entries := (entries t1)[index := hnode2 # entries t1 ! index],
                  ht_head := ht_head t1 @ [hnode2],
                  nr_nodes := nr_nodes t1 + 1\<rparr>,
            hnode2))"

text \<open>The nodes a visit calls back on, in order; a null table has none.\<close>

definition HashTable_Visit :: "'k HashTable option \<Rightarrow> 'k HashNode list" where
  "HashTable_Visit t = (case t of None \<Rightarrow> [] | Some tb \<Rightarrow> ht_head tb)"

definition HashTable_Count_Nodes :: "'k HashTable option \<Rightarrow> int" where
  "HashTable_Count_Nodes t = (case t of None \<Rightarrow> 0 | Some tb \<Rightarrow> nr_nodes tb)"

text \<open>\<open>HashTable_Fini\<close>: the nodes in the order they are unlinked and visited, and the emptied table.\<close>

definition HashTable_Fini :: "bool \<Rightarrow> 'k HashTable \<Rightarrow> 'k HashNode list \<times> 'k HashTable" where
  "HashTable_Fini has_visit t =
     (if has_visit then map (\<lambda>n. n\<lparr>hn_linked := False\<rparr>) (ht_head t) else [],
      t\<lparr>prime_index := 0, nr_nodes := 0, entries := [], ht_head := []\<rparr>)"

subsection \<open>Representation invariant\<close>

text \<open>
  Holds for any hash and equality: the number of chains is the prime, each node is in the chain
  of its hash, the chains and the ordered list hold the same nodes, each linked and with its
  hash stored, no node twice, and the counter is their number.
\<close>

definition placed :: "nat \<Rightarrow> 'k HashNode list list \<Rightarrow> bool" where
  "placed m es \<longleftrightarrow> (\<forall>i < length es. \<forall>n \<in> set (es ! i). unat (hn_hash n) mod m = i)"

definition ht_inv :: "'k HashTable \<Rightarrow> bool" where
  "ht_inv t \<longleftrightarrow>
     prime_index t < length good_primes \<and>
     length (entries t) = get_entries_size t \<and>
     placed (get_entries_size t) (entries t) \<and>
     mset (concat (entries t)) = mset (ht_head t) \<and>
     distinct (map hn_addr (ht_head t)) \<and>
     (\<forall>n \<in> set (ht_head t). hn_linked n \<and> hn_hash n = ht_hash t (hn_key n)) \<and>
     nr_nodes t = int (length (ht_head t))"

lemma get_prime_pos: "i < length good_primes \<Longrightarrow> 0 < get_prime i"
  unfolding get_prime_def by (auto simp: good_primes_def less_Suc_eq nth_Cons')

lemma ht_inv_size_pos: "ht_inv t \<Longrightarrow> 0 < get_entries_size t"
  by (simp add: ht_inv_def get_entries_size_def get_prime_pos)

lemma ht_inv_Init [inv_intros]: "HashTable_Init ok h e = Some t \<Longrightarrow> ht_inv t"
  by (auto simp: HashTable_Init_def new_entries_def ht_inv_def DEFAULT_PRIME_INDEX_def placed_def
      get_entries_size_def concat_replicate_trivial good_primes_def split: if_splits)

lemma ht_Init_fields:
  "HashTable_Init ok h e = Some t \<Longrightarrow> ht_hash t = h \<and> ht_equal t = e \<and> ht_head t = [] \<and> nr_nodes t = 0"
  by (auto simp: HashTable_Init_def new_entries_def split: if_splits)

text \<open>Pushing a node on one chain.\<close>

lemma mset_concat_push:
  "i < length es \<Longrightarrow> mset (concat (es[i := n # es ! i])) = add_mset n (mset (concat es))"
proof (induction es arbitrary: i)
  case Nil
  then show ?case by simp
next
  case (Cons e es)
  then show ?case by (cases i) auto
qed

lemma placed_push:
  assumes "placed m es" "unat (hn_hash n) mod m = i"
  shows "placed m (es[i := n # es ! i])"
  unfolding placed_def
proof (intro allI impI ballI)
  fix j x assume "j < length (es[i := n # es ! i])" "x \<in> set (es[i := n # es ! i] ! j)"
  with assms show "unat (hn_hash x) mod m = j"
    by (cases "j = i") (auto simp: placed_def)
qed

lemma placed_replicate [simp]: "placed m (replicate k [])"
  by (simp add: placed_def)

lemma move_chain_spec:
  assumes "placed m es" "length es = m" "0 < m"
  shows "placed m (move_chain m ns es) \<and> length (move_chain m ns es) = m \<and>
    mset (concat (move_chain m ns es)) = mset ns + mset (concat es)"
  using assms
proof (induction ns arbitrary: es)
  case Nil
  then show ?case by simp
next
  case (Cons n ns)
  let ?i = "unat (hn_hash n) mod m"
  have "placed m (es[?i := n # es ! ?i])" using Cons.prems by (simp add: placed_push)
  moreover have "mset (concat (es[?i := n # es ! ?i])) = add_mset n (mset (concat es))"
    using Cons.prems by (intro mset_concat_push) simp
  ultimately show ?case using Cons.IH [of "es[?i := n # es ! ?i]"] Cons.prems
    by (simp add: Let_def)
qed

lemma move_all_spec:
  assumes "placed m es" "length es = m" "0 < m"
  shows "placed m (move_all m cs es) \<and> length (move_all m cs es) = m \<and>
    mset (concat (move_all m cs es)) = mset (concat cs) + mset (concat es)"
  using assms
proof (induction cs arbitrary: es)
  case Nil
  then show ?case by simp
next
  case (Cons c ds)
  with move_chain_spec [of m es c] Cons.IH [of "move_chain m c es"] show ?case by auto
qed

lemma htable_expand_inv:
  assumes "ht_inv t" "idx < length good_primes"
  shows "ht_inv (htable_expand ok t idx)"
proof (cases ok)
  case True
  have "placed (get_prime idx) (replicate (get_prime idx) [])" by (rule placed_replicate)
  with move_all_spec [of "get_prime idx" "replicate (get_prime idx) []" "entries t"]
    get_prime_pos [OF assms(2)] assms True
  show ?thesis
    by (simp add: htable_expand_def new_entries_def ht_inv_def get_entries_size_def Let_def
        concat_replicate_trivial)
next
  case False
  with assms show ?thesis by (simp add: htable_expand_def new_entries_def)
qed

lemma htable_expand_same [simp]:
  "ht_head (htable_expand ok t idx) = ht_head t" "nr_nodes (htable_expand ok t idx) = nr_nodes t"
  "ht_hash (htable_expand ok t idx) = ht_hash t" "ht_equal (htable_expand ok t idx) = ht_equal t"
  by (simp_all add: htable_expand_def Let_def split: option.split)

lemma get_proper_prime_index_bound: "get_proper_prime_index t < length good_primes"
  by (auto simp: get_proper_prime_index_def Let_def good_primes_def)

lemma htable_maybe_expand_inv: "ht_inv t \<Longrightarrow> ht_inv (htable_maybe_expand ok t)"
  by (auto simp: htable_maybe_expand_def Let_def htable_expand_inv get_proper_prime_index_bound)

lemma htable_maybe_expand_same [simp]:
  "ht_head (htable_maybe_expand ok t) = ht_head t"
  "nr_nodes (htable_maybe_expand ok t) = nr_nodes t"
  "ht_hash (htable_maybe_expand ok t) = ht_hash t"
  "ht_equal (htable_maybe_expand ok t) = ht_equal t"
  by (simp_all add: htable_maybe_expand_def Let_def)

lemma ht_inv_push:
  assumes "ht_inv t" "hn_linked n" "hn_hash n = ht_hash t (hn_key n)"
    and "hn_addr n \<notin> hn_addr ` set (ht_head t)" and "i = unat (hn_hash n) mod get_entries_size t"
  shows "ht_inv (t\<lparr>entries := (entries t)[i := n # entries t ! i], ht_head := ht_head t @ [n],
                   nr_nodes := nr_nodes t + 1\<rparr>)"
proof -
  have "i < length (entries t)"
    using assms(1,5) ht_inv_size_pos [OF assms(1)] by (simp add: ht_inv_def)
  then show ?thesis
    using assms mset_concat_push [of i "entries t" n]
    by (auto simp: ht_inv_def get_entries_size_def placed_push)
qed

lemma HashTable_Insert_inv:
  assumes "ht_inv t" "HashTable_Insert ok t n = (res, t', n')"
    and "\<not> hn_linked n \<longrightarrow> hn_addr n \<notin> hn_addr ` set (ht_head t)"
  shows "ht_inv t'"
proof (cases "hn_linked n \<or> HashTable_Find_hash t (ht_hash t (hn_key n)) (hn_key n) \<noteq> None")
  case True
  with assms show ?thesis by (auto simp: HashTable_Insert_def Let_def split: if_splits)
next
  case False
  let ?n = "n\<lparr>hn_hash := ht_hash t (hn_key n), hn_linked := True\<rparr>"
  from False have "hn_addr ?n \<notin> hn_addr ` set (ht_head (htable_maybe_expand ok t))"
    using assms(3) by simp
  from ht_inv_push [OF htable_maybe_expand_inv [OF assms(1)] _ _ this refl] False assms(2)
  show ?thesis by (auto simp: HashTable_Insert_def Let_def)
qed

text \<open>Insertion, whatever the hash and equality are.\<close>

lemma HashTable_Insert_result:
  assumes "\<not> hn_linked n"
  shows "HashTable_Find t (hn_key n) = None \<Longrightarrow>
      fst (HashTable_Insert ok t n) = 0 \<and>
      ht_head (fst (snd (HashTable_Insert ok t n))) =
        ht_head t @ [n\<lparr>hn_hash := ht_hash t (hn_key n), hn_linked := True\<rparr>]"
    and "HashTable_Find t (hn_key n) \<noteq> None \<Longrightarrow>
      fst (HashTable_Insert ok t n) = -1 \<and> fst (snd (HashTable_Insert ok t n)) = t"
  using assms by (auto simp: HashTable_Insert_def HashTable_Find_def Let_def)

lemma HashTable_Insert_same [simp]:
  "ht_hash (fst (snd (HashTable_Insert ok t n))) = ht_hash t"
  "ht_equal (fst (snd (HashTable_Insert ok t n))) = ht_equal t"
  by (simp_all add: HashTable_Insert_def Let_def split: option.split)

text \<open>Removal.\<close>

lemma concat_update_filter:
  assumes "i < length es" "\<And>j n. j < length es \<Longrightarrow> j \<noteq> i \<Longrightarrow> n \<in> set (es ! j) \<Longrightarrow> P n"
  shows "concat (es[i := filter P (es ! i)]) = filter P (concat es)"
  using assms
proof (induction es arbitrary: i)
  case Nil
  then show ?case by simp
next
  case (Cons e es)
  show ?case
  proof (cases i)
    case 0
    have "filter P (concat es) = concat es"
      using Cons.prems(2) [of "Suc _"] 0 by (fastforce simp: filter_id_conv in_set_conv_nth [of _ es])
    with 0 show ?thesis by simp
  next
    case (Suc k)
    have "concat (es[k := filter P (es ! k)]) = filter P (concat es)"
      using Suc Cons.prems(1) Cons.prems(2) [of "Suc _"] by (intro Cons.IH) auto
    moreover have "filter P e = e"
      using Cons.prems(2) [of 0] Suc by (auto simp: filter_id_conv)
    ultimately show ?thesis using Suc by simp
  qed
qed

lemma ht_inv_unlink:
  assumes "ht_inv t" "n \<in> set (ht_head t)" "i = unat (hn_hash n) mod get_entries_size t"
  shows "ht_inv (t\<lparr>entries := (entries t)[i := unlink_node (hn_addr n) (entries t ! i)],
      ht_head := unlink_node (hn_addr n) (ht_head t), nr_nodes := nr_nodes t - 1\<rparr>)"
proof -
  let ?P = "\<lambda>m. hn_addr m \<noteq> hn_addr n"
  have inv: "length (entries t) = get_entries_size t" "placed (get_entries_size t) (entries t)"
    "mset (concat (entries t)) = mset (ht_head t)" "distinct (map hn_addr (ht_head t))"
    using assms(1) by (simp_all add: ht_inv_def placed_def)
  have i: "i < length (entries t)"
    using assms(3) inv(1) ht_inv_size_pos [OF assms(1)] by simp
  have same: "m = n" if "m \<in> set (ht_head t)" "hn_addr m = hn_addr n" for m
    using that inv(4) assms(2) by (auto simp: distinct_map inj_on_def)
  have "?P m" if "j < length (entries t)" "j \<noteq> i" "m \<in> set (entries t ! j)" for j m
  proof
    assume "hn_addr m = hn_addr n"
    moreover have "m \<in> set (ht_head t)"
      using that mset_eq_setD [OF inv(3)] by (metis (no_types, lifting) UN_I nth_mem set_concat)
    ultimately have "m = n" by (rule same [rotated])
    with that inv(2) assms(3) show False by (auto simp: placed_def)
  qed
  then have cf: "concat ((entries t)[i := unlink_node (hn_addr n) (entries t ! i)])
      = filter ?P (concat (entries t))"
    unfolding unlink_node_def using i by (intro concat_update_filter) auto
  have "filter ?P (ht_head t) = remove1 n (ht_head t)"
  proof -
    have "distinct (ht_head t)" using inv(4) by (simp add: distinct_map)
    then have "remove1 n (ht_head t) = filter (\<lambda>m. m \<noteq> n) (ht_head t)"
      by (simp add: distinct_remove1_removeAll removeAll_filter_not_eq) (metis (mono_tags))
    also have "\<dots> = filter ?P (ht_head t)"
      by (rule filter_cong) (use same in auto)
    finally show ?thesis by simp
  qed
  then have len: "length (filter ?P (ht_head t)) = length (ht_head t) - 1" "ht_head t \<noteq> []"
    using assms(2) by (auto simp: length_remove1)
  then have "int (length (filter ?P (ht_head t))) = nr_nodes t - 1"
    using assms(1) by (cases "ht_head t") (auto simp: ht_inv_def)
  moreover have "mset (filter ?P (concat (entries t))) = mset (filter ?P (ht_head t))"
    by (simp only: mset_filter inv(3))
  moreover have "placed (get_entries_size t) ((entries t)[i := unlink_node (hn_addr n) (entries t ! i)])"
    using inv(2) i by (auto simp: placed_def nth_list_update unlink_node_def)
  moreover have "distinct (map hn_addr (filter ?P (ht_head t)))"
    using inv(4) by (rule distinct_map_filter)
  ultimately show ?thesis
    using assms(1) cf inv(1)
    by (auto simp: ht_inv_def placed_def get_entries_size_def unlink_node_def)
qed

lemma HashTable_Find_hash_SomeD:
  assumes "ht_inv t" "HashTable_Find_hash t h k = Some n"
  shows "n \<in> set (ht_head t)" "ht_equal t (hn_key n) k"
proof -
  have "unat h mod get_entries_size t < length (entries t)"
    using assms(1) ht_inv_size_pos [OF assms(1)] by (simp add: ht_inv_def)
  moreover have *: "n \<in> set (entries t ! (unat h mod get_entries_size t)) \<and> ht_equal t (hn_key n) k"
    using assms(2) by (auto simp: HashTable_Find_hash_def Let_def find_Some_iff)
  ultimately have "n \<in> set (concat (entries t))" by auto
  moreover have "set (concat (entries t)) = set (ht_head t)"
    using assms(1) by (intro mset_eq_setD) (simp add: ht_inv_def)
  ultimately show "n \<in> set (ht_head t)" by blast
  from * show "ht_equal t (hn_key n) k" by simp
qed

lemma HashTable_Remove_inv:
  assumes "ht_inv t" "HashTable_Remove t n = (res, t', n')"
    and "hn_linked n \<Longrightarrow> \<forall>m \<in> set (ht_head t). hn_addr m = hn_addr n \<longrightarrow> m = n"
  shows "ht_inv t'"
proof (cases "hn_linked n \<and> map_option hn_addr (HashTable_Find_hash t (hn_hash n) (hn_key n)) = Some (hn_addr n)")
  case True
  then obtain m where m: "HashTable_Find_hash t (hn_hash n) (hn_key n) = Some m" "hn_addr m = hn_addr n"
    by auto
  with HashTable_Find_hash_SomeD(1) [OF assms(1)] assms(3) True have "n \<in> set (ht_head t)" by blast
  from ht_inv_unlink [OF assms(1) this refl] assms(2) m True
  show ?thesis by (auto simp: HashTable_Remove_def Let_def)
next
  case False
  with assms(1,2) show ?thesis by (auto simp: HashTable_Remove_def Let_def split: if_splits option.splits)
qed

subsection \<open>The contract between hash and equality\<close>

definition ht_ok ::
  "('k \<Rightarrow> uint32) \<Rightarrow> ('k \<Rightarrow> 'k \<Rightarrow> bool) \<Rightarrow> ('k \<Rightarrow> bool) \<Rightarrow> 'k HashTable \<Rightarrow> bool" where
  "ht_ok hash equal keydom t \<longleftrightarrow>
     ht_inv t \<and> ht_hash t = hash \<and> ht_equal t = equal \<and>
     (\<forall>n \<in> set (ht_head t). keydom (hn_key n)) \<and>
     (\<forall>n \<in> set (ht_head t). \<forall>m \<in> set (ht_head t). equal (hn_key n) (hn_key m) \<longrightarrow> n = m)"

lemma find_unique:
  assumes "set ys \<subseteq> set xs" "\<And>x. x \<in> set xs \<Longrightarrow> P x \<Longrightarrow> x \<in> set ys"
    and "\<And>x y. x \<in> set xs \<Longrightarrow> y \<in> set xs \<Longrightarrow> P x \<Longrightarrow> P y \<Longrightarrow> x = y"
  shows "find P ys = find P xs"
proof (cases "find P xs")
  case None
  with assms(1) have "find P ys = None" by (auto simp: find_None_iff)
  with None show ?thesis by simp
next
  case (Some x)
  then have x: "x \<in> set xs" "P x" by (auto simp: find_Some_iff)
  with assms(2) have "find P ys \<noteq> None" by (auto simp: find_None_iff)
  then obtain y where y: "find P ys = Some y" by auto
  then have "y \<in> set ys" "P y" by (auto simp: find_Some_iff)
  with assms x have "y = x" by blast
  with Some y show ?thesis by simp
qed

locale hash_contract =
  fixes hash :: "'k \<Rightarrow> uint32"
    and equal :: "'k \<Rightarrow> 'k \<Rightarrow> bool"
    and keydom :: "'k \<Rightarrow> bool"
  assumes equal_refl: "keydom a \<Longrightarrow> equal a a"
    and equal_sym: "keydom a \<Longrightarrow> keydom b \<Longrightarrow> equal a b \<Longrightarrow> equal b a"
    and equal_trans: "keydom a \<Longrightarrow> keydom b \<Longrightarrow> keydom c \<Longrightarrow> equal a b \<Longrightarrow> equal b c \<Longrightarrow> equal a c"
    and equal_hash: "keydom a \<Longrightarrow> keydom b \<Longrightarrow> equal a b \<Longrightarrow> hash a = hash b"
begin

abbreviation good :: "'k HashTable \<Rightarrow> bool" where
  "good \<equiv> ht_ok hash equal keydom"

lemma good_Init: "HashTable_Init ok hash equal = Some t \<Longrightarrow> good t"
  using ht_inv_Init [of ok hash equal t] ht_Init_fields [of ok hash equal t]
  by (auto simp: ht_ok_def)

text \<open>A lookup searches one chain; under the contract it sees what a search of the whole table sees.\<close>

lemma Find_spec:
  assumes "good t" "keydom k"
  shows "HashTable_Find t k = find (\<lambda>n. equal (hn_key n) k) (ht_head t)"
proof -
  have inv: "ht_inv t" "ht_hash t = hash" "ht_equal t = equal" using assms(1) by (simp_all add: ht_ok_def)
  let ?i = "unat (hash k) mod get_entries_size t"
  have i: "?i < length (entries t)"
    using inv(1) ht_inv_size_pos [OF inv(1)] by (simp add: ht_inv_def)
  have sets: "set (concat (entries t)) = set (ht_head t)"
    using inv(1) by (intro mset_eq_setD) (simp add: ht_inv_def)
  have "find (\<lambda>n. equal (hn_key n) k) (entries t ! ?i) = find (\<lambda>n. equal (hn_key n) k) (ht_head t)"
  proof (rule find_unique)
    show "set (entries t ! ?i) \<subseteq> set (ht_head t)" using sets i by auto
  next
    fix n assume n: "n \<in> set (ht_head t)" "equal (hn_key n) k"
    then have "hn_hash n = hash k"
      using assms inv equal_hash [of "hn_key n" k] by (auto simp: ht_ok_def ht_inv_def)
    moreover obtain j where j: "j < length (entries t)" "n \<in> set (entries t ! j)"
      using n(1) unfolding sets [symmetric] by (auto simp: in_set_conv_nth [of _ "entries t"])
    then have "unat (hn_hash n) mod get_entries_size t = j"
      using inv(1) by (simp add: ht_inv_def placed_def)
    ultimately show "n \<in> set (entries t ! ?i)" using j(2) by simp
  next
    fix n m assume "n \<in> set (ht_head t)" "m \<in> set (ht_head t)" "equal (hn_key n) k" "equal (hn_key m) k"
    with assms show "n = m"
      using equal_trans [of "hn_key n" k "hn_key m"] equal_sym [of "hn_key m" k]
      by (auto simp: ht_ok_def)
  qed
  with inv show ?thesis by (simp add: HashTable_Find_def HashTable_Find_hash_def Let_def)
qed

lemma Find_None_iff:
  "good t \<Longrightarrow> keydom k \<Longrightarrow>
   HashTable_Find t k = None \<longleftrightarrow> (\<forall>n \<in> set (ht_head t). \<not> equal (hn_key n) k)"
  by (auto simp: Find_spec find_None_iff)

lemma Find_Some_iff:
  assumes "good t" "keydom k"
  shows "HashTable_Find t k = Some n \<longleftrightarrow> n \<in> set (ht_head t) \<and> equal (hn_key n) k"
proof
  assume "HashTable_Find t k = Some n"
  with assms show "n \<in> set (ht_head t) \<and> equal (hn_key n) k" by (auto simp: Find_spec find_Some_iff)
next
  assume n: "n \<in> set (ht_head t) \<and> equal (hn_key n) k"
  with assms obtain m where m: "HashTable_Find t k = Some m"
    using Find_None_iff by (cases "HashTable_Find t k") auto
  then have "m \<in> set (ht_head t)" "equal (hn_key m) k" using assms by (auto simp: Find_spec find_Some_iff)
  with n assms have "m = n"
    using equal_trans [of "hn_key m" k "hn_key n"] equal_sym [of "hn_key n" k]
    by (auto simp: ht_ok_def)
  with m show "HashTable_Find t k = Some n" by simp
qed

lemma Insert_spec:
  assumes "good t" "\<not> hn_linked n" "keydom (hn_key n)" "hn_addr n \<notin> hn_addr ` set (ht_head t)"
    and "HashTable_Insert ok t n = (res, t', n')"
  shows "good t'"
    and "res = (if HashTable_Find t (hn_key n) = None then 0 else -1)"
    and "ht_head t' = (if HashTable_Find t (hn_key n) = None
      then ht_head t @ [n\<lparr>hn_hash := hash (hn_key n), hn_linked := True\<rparr>] else ht_head t)"
    and "\<not> res = 0 \<Longrightarrow> t' = t"
proof -
  have inv: "ht_inv t'" using HashTable_Insert_inv [OF _ assms(5)] assms by (simp add: ht_ok_def)
  have flds: "ht_hash t' = hash" "ht_equal t' = equal"
    using HashTable_Insert_same [of ok t n] assms by (auto simp: ht_ok_def)
  note r = HashTable_Insert_result [OF assms(2), of t ok]
  show res: "res = (if HashTable_Find t (hn_key n) = None then 0 else -1)" using r assms(5) by auto
  show head: "ht_head t' = (if HashTable_Find t (hn_key n) = None
      then ht_head t @ [n\<lparr>hn_hash := hash (hn_key n), hn_linked := True\<rparr>] else ht_head t)"
    using r assms(1,5) by (auto simp: ht_ok_def)
  show same: "t' = t" if "\<not> res = 0" using that res r assms(5) by (auto split: if_splits)
  show "good t'"
  proof (cases "HashTable_Find t (hn_key n) = None")
    case True
    then have ne: "\<not> equal (hn_key m) (hn_key n)" if "m \<in> set (ht_head t)" for m
      using that Find_None_iff assms by simp
    then have "\<not> equal (hn_key n) (hn_key m)" if "m \<in> set (ht_head t)" for m
      using that equal_sym [of "hn_key n" "hn_key m"] assms(1,3) by (auto simp: ht_ok_def)
    with ne assms(1,3) True inv flds head show ?thesis by (auto simp: ht_ok_def)
  next
    case False
    with res same assms(1) show ?thesis by simp
  qed
qed

lemma Find_after_Insert:
  assumes "good t" "\<not> hn_linked n" "keydom (hn_key n)" "hn_addr n \<notin> hn_addr ` set (ht_head t)"
    and "HashTable_Insert ok t n = (0, t', n')" "keydom k"
  shows "HashTable_Find t' k =
    (if equal (hn_key n) k then Some (n\<lparr>hn_hash := hash (hn_key n), hn_linked := True\<rparr>)
     else HashTable_Find t k)"
proof -
  let ?n = "n\<lparr>hn_hash := hash (hn_key n), hn_linked := True\<rparr>"
  have h: "ht_head t' = ht_head t @ [?n]" and none: "HashTable_Find t (hn_key n) = None"
    and g: "good t'"
    using Insert_spec [OF assms(1-5)] by (auto split: if_splits)
  have app: "find P (xs @ [x]) = (case find P xs of Some y \<Rightarrow> Some y | None \<Rightarrow> if P x then Some x else None)"
    for P :: "'k HashNode \<Rightarrow> bool" and xs x by (induction xs) auto
  show ?thesis
  proof (cases "equal (hn_key n) k")
    case True
    then show ?thesis using Find_Some_iff [OF g assms(6)] h by simp
  next
    case False
    then show ?thesis
      using Find_spec [OF g assms(6)] Find_spec [OF assms(1,6)] h by (simp add: app split: option.split)
  qed
qed

lemma Remove_spec:
  assumes "good t" "n \<in> set (ht_head t)"
  shows "\<exists>t'. HashTable_Remove t n = (0, t', n\<lparr>hn_linked := False\<rparr>) \<and> good t' \<and>
    ht_head t' = remove1 n (ht_head t)"
proof -
  have inv: "ht_inv t" "hn_linked n" "hn_hash n = hash (hn_key n)" "keydom (hn_key n)"
      "ht_hash t = hash" "distinct (map hn_addr (ht_head t))"
    using assms by (auto simp: ht_ok_def ht_inv_def)
  have "HashTable_Find t (hn_key n) = Some n"
    using assms inv equal_refl by (simp add: Find_Some_iff)
  then have f: "HashTable_Find_hash t (hn_hash n) (hn_key n) = Some n"
    using inv by (simp add: HashTable_Find_def)
  obtain res t' n' where e: "HashTable_Remove t n = (res, t', n')" by (metis prod_cases3)
  have uniq: "\<forall>m \<in> set (ht_head t). hn_addr m = hn_addr n \<longrightarrow> m = n"
    using inv(6) assms(2) by (auto simp: distinct_map inj_on_def)
  have inv': "ht_inv t'" by (rule HashTable_Remove_inv [OF inv(1) e uniq])
  have r: "res = 0" "n' = n\<lparr>hn_linked := False\<rparr>" "ht_head t' = unlink_node (hn_addr n) (ht_head t)"
      "ht_hash t' = ht_hash t" "ht_equal t' = ht_equal t"
    using e f inv(2) by (auto simp: HashTable_Remove_def Let_def)
  have "unlink_node (hn_addr n) (ht_head t) = filter (\<lambda>m. m \<noteq> n) (ht_head t)"
    unfolding unlink_node_def using uniq by (intro filter_cong) auto
  also have "\<dots> = remove1 n (ht_head t)"
    using inv(6) by (simp add: distinct_map distinct_remove1_removeAll removeAll_filter_not_eq)
      (metis (mono_tags))
  finally have "ht_head t' = remove1 n (ht_head t)" using r(3) by simp
  moreover from this have "good t'"
    using inv' r(4,5) assms(1) by (auto simp: ht_ok_def dest: notin_set_remove1)
  ultimately show ?thesis using e r(1,2) by blast
qed

end

text \<open>Most tables of the program are keyed by C strings, hashed by content and compared with \<open>strcmp\<close>.\<close>

interpretation string_keys: hash_contract hash_string str_eq "\<lambda>_. True"
  by unfold_locales (auto simp: str_eq_def intro: hash_string_str_eq)

subsection \<open>Growing\<close>

lemma prime_loop_result:
  "prime_loop n idx \<ge> idx \<and>
   (prime_loop n idx < length good_primes \<longrightarrow> below_load n (get_prime (prime_loop n idx)))"
proof (induction n idx rule: prime_loop.induct)
  case (1 n idx)
  then show ?case by (subst (1 2 3) prime_loop.simps) (auto dest: Suc_leD)
qed

lemma get_proper_prime_index_load:
  "below_load (nr_nodes t) (get_prime (get_proper_prime_index t)) \<or>
   get_proper_prime_index t = length good_primes - 1"
  using prime_loop_result [of "prime_index t" "nr_nodes t"]
  by (auto simp: get_proper_prime_index_def Let_def)

lemma get_proper_prime_index_ge:
  "prime_index t < length good_primes \<Longrightarrow> prime_index t \<le> get_proper_prime_index t"
  using prime_loop_result [of "prime_index t" "nr_nodes t"]
  by (auto simp: get_proper_prime_index_def Let_def)

subsection \<open>Properties\<close>

text \<open>
  C31: whatever the hash and equality functions, \<open>HashTable_Insert\<close> keeps the representation
  invariant, on every branch and whether or not the growing of the table finds memory. The new
  node must not be in the table under another guise.
\<close>

theorem HashTable_Insert_keeps_invariant:
  assumes "ht_inv t" "\<not> hn_linked n \<longrightarrow> hn_addr n \<notin> hn_addr ` set (ht_head t)"
  shows "ht_inv (fst (snd (HashTable_Insert ok t n)))"
  using HashTable_Insert_inv [OF assms(1) _ assms(2)] by (metis prod.collapse)

definition sample_table :: "string HashTable" where
  "sample_table = the (HashTable_Init True hash_string str_eq)"

lemma sample_table_ok: "ht_ok hash_string str_eq (\<lambda>_. True) sample_table" "ht_head sample_table = []"
proof -
  have "HashTable_Init True hash_string str_eq = Some sample_table"
    by (simp add: sample_table_def HashTable_Init_def new_entries_def)
  then show "ht_ok hash_string str_eq (\<lambda>_. True) sample_table" "ht_head sample_table = []"
    using string_keys.good_Init ht_Init_fields by blast+
qed

theorem HashTable_Insert_keeps_invariant_witness:
  "ht_inv (fst (snd (HashTable_Insert True sample_table (Init_HashNode 8 ''lang''))))"
  by (rule HashTable_Insert_keeps_invariant)
    (use sample_table_ok in \<open>simp_all add: ht_ok_def Init_HashNode_def\<close>)

text \<open>
  C16: a table keyed by strings is an insertion-ordered association list. Inserting a node whose
  key is absent succeeds, appends it to the order, and from then on finds it under every equal
  key, all other lookups being as before; a node with a present key is refused and nothing
  changes. This holds although the insertion may move every node to a new chain.
\<close>

theorem string_table_insert_find:
  assumes "ht_ok hash_string str_eq (\<lambda>_. True) t" "\<not> hn_linked n"
    and "hn_addr n \<notin> hn_addr ` set (ht_head t)"
  shows "case HashTable_Insert ok t n of (res, t', n') \<Rightarrow>
    ht_ok hash_string str_eq (\<lambda>_. True) t' \<and>
    (if HashTable_Find t (hn_key n) = None
     then res = 0 \<and> ht_head t' = ht_head t @ [n'] \<and> hn_key n' = hn_key n \<and>
       (\<forall>k. HashTable_Find t' k = (if str_eq (hn_key n) k then Some n' else HashTable_Find t k))
     else res = -1 \<and> t' = t)"
proof -
  obtain res t' n' where e: "HashTable_Insert ok t n = (res, t', n')" by (metis prod_cases3)
  note spec = string_keys.Insert_spec [OF assms(1,2) TrueI assms(3) e]
  have n': "n' = n\<lparr>hn_hash := hash_string (hn_key n), hn_linked := True\<rparr>"
    if "HashTable_Find t (hn_key n) = None"
    using that e assms(1,2) by (auto simp: HashTable_Insert_def HashTable_Find_def ht_ok_def Let_def)
  show ?thesis
    using spec n' e string_keys.Find_after_Insert [OF assms(1,2) TrueI assms(3) _ TrueI, of ok t' n']
    by auto
qed

theorem string_table_insert_find_witness:
  "HashTable_Find (fst (snd (HashTable_Insert True sample_table (Init_HashNode 8 ''lang'')))) ''lang'' \<noteq> None"
  using string_table_insert_find [OF sample_table_ok(1), of "Init_HashNode 8 ''lang''" True]
    string_keys.Find_None_iff [OF sample_table_ok(1), of "''lang''"]
  by (auto simp: Init_HashNode_def sample_table_ok(2) split: prod.splits)

text \<open>
  Removing a node of a string table succeeds, unlinks exactly this node from its chain and
  from the order, and keeps the invariant; removing it again is refused.
\<close>

theorem string_table_remove:
  assumes "ht_ok hash_string str_eq (\<lambda>_. True) t" "n \<in> set (ht_head t)"
  shows "case HashTable_Remove t n of (res, t', n') \<Rightarrow>
    res = 0 \<and> ht_ok hash_string str_eq (\<lambda>_. True) t' \<and> ht_head t' = remove1 n (ht_head t) \<and>
    HashTable_Find t' (hn_key n) = None \<and> HashTable_Remove t' n' = (-1, t', n')"
proof -
  obtain t' where t': "HashTable_Remove t n = (0, t', n\<lparr>hn_linked := False\<rparr>)"
      "ht_ok hash_string str_eq (\<lambda>_. True) t'" "ht_head t' = remove1 n (ht_head t)"
    using string_keys.Remove_spec [OF assms] by auto
  have "distinct (ht_head t)" using assms(1) by (simp add: ht_ok_def ht_inv_def distinct_map)
  then have "m = n \<longrightarrow> m \<notin> set (ht_head t')" "m \<in> set (ht_head t') \<Longrightarrow> m \<in> set (ht_head t)" for m
    by (auto simp: t'(3) dest: notin_set_remove1)
  moreover have "str_eq (hn_key m) (hn_key n) \<longrightarrow> m = n" if "m \<in> set (ht_head t)" for m
    using that assms by (auto simp: ht_ok_def)
  ultimately have "HashTable_Find t' (hn_key n) = None"
    by (auto simp: string_keys.Find_None_iff [OF t'(2) TrueI])
  with t' show ?thesis by (simp add: HashTable_Remove_def)
qed

theorem string_table_remove_witness:
  "\<exists>n. ht_head (fst (snd (HashTable_Remove
     (fst (snd (HashTable_Insert True sample_table (Init_HashNode 8 ''lang'')))) n))) = []"
proof -
  obtain res t' n' where e: "HashTable_Insert True sample_table (Init_HashNode 8 ''lang'') = (res, t', n')"
    by (metis prod_cases3)
  have l: "\<not> hn_linked (Init_HashNode 8 ''lang'')" by (simp add: Init_HashNode_def)
  note spec = string_keys.Insert_spec [OF sample_table_ok(1) l TrueI _ e, unfolded sample_table_ok(2)]
  from spec string_keys.Find_None_iff [OF sample_table_ok(1) TrueI]
  obtain m where "ht_head t' = [m]" "ht_ok hash_string str_eq (\<lambda>_. True) t'"
    by (auto simp: sample_table_ok(2))
  with string_table_remove [of t' m] show ?thesis
    unfolding e by (intro exI [of _ m]) (auto split: prod.splits)
qed

text \<open>
  The load factor. When the allocation succeeds, the number of nodes found by a successful
  insertion was below 0.65 of the number of chains it inserts into, or the table is at its
  largest size; the number of chains never shrinks.
\<close>

theorem HashTable_Insert_load:
  assumes "ht_inv t" "HashTable_Insert True t n = (0, t', n')"
  shows "(below_load (nr_nodes t' - 1) (get_entries_size t') \<or> prime_index t' = length good_primes - 1) \<and>
    prime_index t \<le> prime_index t'"
proof -
  have "t' = htable_maybe_expand True t\<lparr>entries := entries t', ht_head := ht_head t', nr_nodes := nr_nodes t + 1\<rparr>"
    using assms(2) by (auto simp: HashTable_Insert_def Let_def split: if_splits option.splits)
  then have t': "prime_index t' = prime_index (htable_maybe_expand True t)" "nr_nodes t' = nr_nodes t + 1"
    by (metis HashTable.select_convs(1,2) HashTable.surjective HashTable.update_convs)+
  show ?thesis
    using assms(1) get_proper_prime_index_load [of t] get_proper_prime_index_ge [of t]
    by (auto simp: t' htable_maybe_expand_def htable_expand_def new_entries_def get_entries_size_def
        Let_def ht_inv_def)
qed

theorem HashTable_Insert_load_witness:
  "\<exists>t' n'. HashTable_Insert True sample_table (Init_HashNode 8 ''lang'') = (0, t', n') \<and>
     (below_load (nr_nodes t' - 1) (get_entries_size t') \<or> prime_index t' = length good_primes - 1)"
proof -
  obtain res t' n' where e: "HashTable_Insert True sample_table (Init_HashNode 8 ''lang'') = (res, t', n')"
    by (metis prod_cases3)
  have l: "\<not> hn_linked (Init_HashNode 8 ''lang'')" by (simp add: Init_HashNode_def)
  have "res = 0"
    using string_keys.Insert_spec(2) [OF sample_table_ok(1) l TrueI _ e]
      string_keys.Find_None_iff [OF sample_table_ok(1) TrueI] by (auto simp: sample_table_ok(2))
  with HashTable_Insert_load [of sample_table "Init_HashNode 8 ''lang''" t' n'] e sample_table_ok(1)
  show ?thesis by (auto simp: ht_ok_def)
qed

end
