(* ===== verification/StringEx.thy ===== *)
theory StringEx
  imports Prelude "HOL-Library.Char_ord"
begin

text \<open>
  \<open>src/stringex.c\<close>: trimming, duplicating and number parsing. A string is the list of its
  characters up to the terminator; \<open>string_trim\<close> returns the part of the buffer it points to.
\<close>

subsection \<open>Operations\<close>

text \<open>\<open>isspace\<close> in the C locale.\<close>

definition isspace :: "char \<Rightarrow> bool" where
  "isspace c \<longleftrightarrow> c \<in> {CHR '' '', CHR 0x09, CHR 0x0A, CHR 0x0B, CHR 0x0C, CHR 0x0D}"

fun skip_leading :: "string \<Rightarrow> string" where
  "skip_leading [] = []"
| "skip_leading (c # s) = (if isspace c then skip_leading s else c # s)"

text \<open>
  The trailing loop: \<open>n\<close> is \<open>end - str\<close>, the value is where \<open>end\<close> stops.
\<close>

fun trim_end :: "string \<Rightarrow> nat \<Rightarrow> nat" where
  "trim_end s 0 = 0"
| "trim_end s (Suc n) = (if isspace (s ! Suc n) then trim_end s n else Suc n)"

definition string_trim :: "string \<Rightarrow> string" where
  "string_trim str = (
     let s = skip_leading (cstr str) in
     if s = [] then [] else take (trim_end s (length s - 1) + 1) s)"

definition string_dup :: "string \<Rightarrow> string" where
  "string_dup str = cstr str"

text \<open>\<open>strncpy\<close> stops at the terminator of \<open>str\<close>; the rest of the copy is zero.\<close>

definition string_ndup :: "string \<Rightarrow> nat \<Rightarrow> string" where
  "string_ndup str len = take len (cstr str)"

text \<open>
  Characters are compared as unsigned codes; for the range tests below this gives the same
  answer as C's signed \<open>char\<close>.
\<close>

definition digit_value :: "char \<Rightarrow> int" where
  "digit_value c =
     (let n = int (of_char c) in
      if CHR ''0'' \<le> c \<and> c \<le> CHR ''9'' then n - 48
      else if CHR ''a'' \<le> c \<and> c \<le> CHR ''z'' then n - 87
      else if CHR ''A'' \<le> c \<and> c \<le> CHR ''Z'' then n - 55
      else 99)"

definition INT64_MAX :: int where
  "INT64_MAX = 9223372036854775807"

fun digits_value :: "int \<Rightarrow> int \<Rightarrow> string \<Rightarrow> int" where
  "digits_value base acc [] = acc"
| "digits_value base acc (c # s) =
     (if digit_value c < base then digits_value base (base * acc + digit_value c) s else acc)"

text \<open>
  \<open>strtoll\<close> of the C library on an unsigned numeral: the digits of the base, after \<open>0x\<close> in base
  16, saturating at the largest \<open>int64\<close>.
\<close>

definition strtoll :: "string \<Rightarrow> int \<Rightarrow> int" where
  "strtoll s base =
     (let digits = (if base = 16 \<and> take 1 s = ''0'' \<and> (take 1 (drop 1 s) = ''x'' \<or> take 1 (drop 1 s) = ''X'')
                    then drop 2 s else s)
      in min INT64_MAX (digits_value base 0 digits))"

fun all_hex :: "string \<Rightarrow> bool" where
  "all_hex [] = True"
| "all_hex (ch # s) =
     (if \<not> ((ch \<ge> CHR ''0'' \<and> ch \<le> CHR ''9'') \<or> (ch \<ge> CHR ''a'' \<and> ch \<le> CHR ''f'') \<or>
            (ch \<ge> CHR ''A'' \<and> ch < CHR ''F'')) then False else all_hex s)"

fun all_oct :: "string \<Rightarrow> bool" where
  "all_oct [] = True"
| "all_oct (ch # s) = (if \<not> (ch \<ge> CHR ''0'' \<and> ch \<le> CHR ''7'') then False else all_oct s)"

fun all_dec :: "string \<Rightarrow> bool" where
  "all_dec [] = True"
| "all_dec (ch # s) = (if \<not> (ch \<ge> CHR ''0'' \<and> ch \<le> CHR ''9'') then False else all_dec s)"

text \<open>
  \<open>None\<close> is the result -1, which leaves \<open>rval\<close> alone. For a string of spaces \<open>str[1]\<close> lies behind
  the copied string, but its value is not used.
\<close>

definition string_to_int64 :: "string \<Rightarrow> int option" where
  "string_to_int64 str0 = (
     let str = string_trim (string_dup str0);
         ch = (case str of [] \<Rightarrow> NUL | c # _ \<Rightarrow> c);
         ch1 = (case str of c # d # _ \<Rightarrow> d | _ \<Rightarrow> NUL) in
     if ch = CHR ''0'' \<and> (ch1 = CHR ''x'' \<or> ch1 = CHR ''X'') then
       (if \<not> all_hex (drop 2 str) then None else Some (strtoll str 16))
     else if ch = CHR ''0'' then
       (if \<not> all_oct (drop 1 str) then None else Some (strtoll str 8))
     else
       (if \<not> all_dec str then None else Some (strtoll str 10)))"

subsection \<open>Trimming\<close>

lemma skip_leading_split:
  "\<exists>a. s = a @ skip_leading s \<and> (\<forall>c \<in> set a. isspace c) \<and>
     (skip_leading s \<noteq> [] \<longrightarrow> \<not> isspace (hd (skip_leading s)))"
proof (induction s)
  case Nil
  then show ?case by simp
next
  case (Cons c s)
  then obtain a where a: "s = a @ skip_leading s" "\<forall>c \<in> set a. isspace c"
    "skip_leading s \<noteq> [] \<longrightarrow> \<not> isspace (hd (skip_leading s))" by auto
  show ?case
  proof (cases "isspace c")
    case True
    with a show ?thesis by (intro exI [of _ "c # a"]) auto
  next
    case False
    then show ?thesis by (intro exI [of _ "[]"]) simp
  qed
qed

lemma trim_end_spec:
  "\<not> isspace (s ! 0) \<Longrightarrow> trim_end s n \<le> n \<and> \<not> isspace (s ! trim_end s n) \<and>
     (\<forall>i. trim_end s n < i \<and> i \<le> n \<longrightarrow> isspace (s ! i))"
  by (induction n) (auto simp: le_Suc_eq)

lemma string_trim_split:
  "\<exists>a b. cstr s = a @ string_trim s @ b \<and> (\<forall>c \<in> set (a @ b). isspace c) \<and>
     (string_trim s \<noteq> [] \<longrightarrow> \<not> isspace (hd (string_trim s)) \<and> \<not> isspace (last (string_trim s)))"
proof -
  let ?t = "skip_leading (cstr s)"
  obtain a where a: "cstr s = a @ ?t" "\<forall>c \<in> set a. isspace c" "?t \<noteq> [] \<longrightarrow> \<not> isspace (hd ?t)"
    using skip_leading_split by blast
  show ?thesis
  proof (cases "?t = []")
    case True
    with a show ?thesis by (intro exI [of _ a] exI [of _ "[]"]) (simp add: string_trim_def)
  next
    case False
    let ?k = "trim_end ?t (length ?t - 1)"
    have h: "\<not> isspace (?t ! 0)" using False a(3) by (simp add: hd_conv_nth)
    note k = trim_end_spec [OF h, of "length ?t - 1"]
    have kl: "?k < length ?t" using k False by (metis Suc_pred' le_imp_less_Suc length_greater_0_conv)
    have tr: "string_trim s = take (Suc ?k) ?t" using False by (simp add: string_trim_def Let_def)
    have "\<forall>c \<in> set (drop (Suc ?k) ?t). isspace c"
      using k by (auto simp: in_set_conv_nth)
    moreover have "string_trim s \<noteq> []" "hd (string_trim s) = hd ?t" using False by (simp_all add: tr hd_take)
    moreover have "last (string_trim s) = ?t ! ?k" using kl by (simp add: tr take_Suc_conv_app_nth)
    moreover have "?t = string_trim s @ drop (Suc ?k) ?t" by (simp add: tr)
    ultimately show ?thesis
      using a k h False by (intro exI [of _ a] exI [of _ "drop (Suc ?k) ?t"]) (auto simp: hd_conv_nth)
  qed
qed

lemma dropWhile_surrounded:
  "\<forall>c \<in> set a. P c \<Longrightarrow> t = [] \<or> \<not> P (hd t) \<Longrightarrow> \<forall>c \<in> set b. P c \<Longrightarrow>
   dropWhile P (a @ t @ b) = (if t = [] then [] else t @ b)"
  by (induction a) (auto simp: dropWhile_eq_Nil_conv neq_Nil_conv dest: set_dropWhileD)

lemma string_trim_surrounded:
  assumes "no_nul (a @ t @ b)" "\<forall>c \<in> set (a @ b). isspace c"
    and "t = [] \<or> \<not> isspace (hd t) \<and> \<not> isspace (last t)"
  shows "string_trim (a @ t @ b) = t"
proof -
  let ?strip = "\<lambda>s. rev (dropWhile isspace (rev (dropWhile isspace s)))"
  have strip: "?strip (a @ t @ b) = t"
    if "\<forall>c \<in> set (a @ b). isspace c" "t = [] \<or> \<not> isspace (hd t) \<and> \<not> isspace (last t)" for a t b
  proof (cases "t = []")
    case True
    have "dropWhile isspace (a @ b) = []" using that(1) by (simp only: dropWhile_eq_Nil_conv)
    with True show ?thesis by (simp only: append_Nil rev.simps dropWhile.simps)
  next
    case False
    with that dropWhile_surrounded [of a isspace t b] dropWhile_surrounded [of "rev b" isspace "rev t" "[]"]
    show ?thesis by (auto simp: hd_rev)
  qed
  obtain a' b' where ab: "a @ t @ b = a' @ string_trim (a @ t @ b) @ b'" "\<forall>c \<in> set (a' @ b'). isspace c"
    "string_trim (a @ t @ b) = [] \<or> \<not> isspace (hd (string_trim (a @ t @ b))) \<and> \<not> isspace (last (string_trim (a @ t @ b)))"
    using string_trim_split [of "a @ t @ b"] assms(1) by auto
  from strip [OF ab(2,3)] strip [OF assms(2,3)] ab(1) show ?thesis by metis
qed

subsection \<open>Numbers\<close>

text \<open>The decimal numeral of a natural number.\<close>

fun numeral_of :: "nat \<Rightarrow> string" where
  "numeral_of n = (if n < 10 then [char_of (48 + n)] else numeral_of (n div 10) @ [char_of (48 + n mod 10)])"

declare numeral_of.simps [simp del]

lemma dec_digits:
  "\<forall>n \<in> set [0 ..< 10]. all_dec [char_of (48 + n)] \<and> digit_value (char_of (48 + n)) = int n \<and>
     \<not> isspace (char_of (48 + n)) \<and> char_of (48 + n) \<noteq> NUL \<and> (char_of (48 + n) = CHR ''0'' \<longleftrightarrow> n = 0)"
  by code_simp

lemma dec_digit:
  assumes "n < 10"
  shows "all_dec [char_of (48 + n)]" "digit_value (char_of (48 + n)) = int n"
    "\<not> isspace (char_of (48 + n))" "char_of (48 + n) \<noteq> NUL" "char_of (48 + n) = CHR ''0'' \<longleftrightarrow> n = 0"
proof -
  have "n \<in> set [0 ..< 10]" using assms by simp
  with dec_digits show "all_dec [char_of (48 + n)]" "digit_value (char_of (48 + n)) = int n"
    "\<not> isspace (char_of (48 + n))" "char_of (48 + n) \<noteq> NUL" "char_of (48 + n) = CHR ''0'' \<longleftrightarrow> n = 0"
    by blast+
qed

lemma all_dec_append [simp]: "all_dec (s @ t) \<longleftrightarrow> all_dec s \<and> all_dec t"
  by (induction s) auto

lemma digits_value_append:
  "\<forall>c \<in> set s. digit_value c < base \<Longrightarrow> digits_value base acc (s @ t) = digits_value base (digits_value base acc s) t"
  by (induction s arbitrary: acc) auto

lemma numeral_of_spec:
  "all_dec (numeral_of n) \<and> (\<forall>c \<in> set (numeral_of n). digit_value c < 10 \<and> \<not> isspace c \<and> c \<noteq> NUL) \<and>
   digits_value 10 0 (numeral_of n) = int n \<and> numeral_of n \<noteq> [] \<and>
   (hd (numeral_of n) = CHR ''0'' \<longleftrightarrow> n = 0)"
proof (induction n rule: numeral_of.induct)
  case (1 n)
  show ?case
  proof (cases "n < 10")
    case True
    then show ?thesis using dec_digit [of n] by (subst (1 2 3 4 5) numeral_of.simps) auto
  next
    case False
    have e: "numeral_of n = numeral_of (n div 10) @ [char_of (48 + n mod 10)]"
      using False by (subst numeral_of.simps) simp
    have d: "n mod 10 < 10" by simp
    note IH = 1 [OF False]
    have "digits_value 10 0 (numeral_of n) = int n"
      using IH dec_digit [OF d] by (simp add: e digits_value_append) presburger
    moreover have "n div 10 \<noteq> 0" using False by simp
    ultimately show ?thesis using IH dec_digit [OF d] False by (auto simp: e simp del: all_dec.simps)
  qed
qed

subsection \<open>Properties\<close>

text \<open>
  \<open>string_trim\<close> answers the part of the string between its leading and trailing spaces: only
  spaces are cut off, and what is left neither begins nor ends with one.
\<close>

theorem string_trim_correct:
  "\<exists>a b. cstr s = a @ string_trim s @ b \<and> (\<forall>c \<in> set (a @ b). isspace c) \<and>
     (string_trim s = [] \<or> \<not> isspace (hd (string_trim s)) \<and> \<not> isspace (last (string_trim s)))"
  using string_trim_split [of s] by auto

theorem string_trim_correct_witness: "string_trim ''  a b  '' = ''a b''"
proof -
  have "\<exists>a b. cstr ''  a b  '' = a @ string_trim ''  a b  '' @ b"
    using string_trim_correct [of "''  a b  ''"] by blast
  moreover have "string_trim ''  a b  '' = ''a b''" by code_simp
  ultimately show ?thesis by simp
qed

text \<open>
  Every \<open>int64\<close> that is not negative is read back from its decimal numeral, with any spaces
  around it, and larger numerals saturate at the largest \<open>int64\<close>.
\<close>

theorem string_to_int64_numeral:
  assumes "\<forall>c \<in> set a. isspace c" "\<forall>c \<in> set b. isspace c"
  shows "string_to_int64 (a @ numeral_of n @ b) = Some (min INT64_MAX (int n))"
proof -
  note n = numeral_of_spec [of n]
  have "\<not> isspace NUL" by (simp add: isspace_def)
  with n assms have nn: "no_nul (a @ numeral_of n @ b)" unfolding no_nul_def set_append by blast
  have "string_trim (a @ numeral_of n @ b) = numeral_of n"
    using n assms by (intro string_trim_surrounded [OF nn]) (simp_all add: ball_Un)
  with nn have tr: "string_trim (string_dup (a @ numeral_of n @ b)) = numeral_of n"
    by (simp add: string_dup_def del: no_nul_simps)
  show ?thesis
  proof (cases "n = 0")
    case True
    have "numeral_of 0 = ''0''" "digit_value CHR ''0'' = 0" by code_simp+
    with True have "numeral_of n = ''0''" by simp
    with tr True show ?thesis
      using \<open>digit_value CHR ''0'' = 0\<close> by (simp add: string_to_int64_def strtoll_def INT64_MAX_def)
  next
    case False
    with n obtain c s where cs: "numeral_of n = c # s" "c \<noteq> CHR ''0''" by (cases "numeral_of n") auto
    with n tr show ?thesis by (simp add: string_to_int64_def strtoll_def del: all_dec.simps digits_value.simps)
  qed
qed

theorem string_to_int64_numeral_witness:
  "string_to_int64 ('' '' @ numeral_of 2026 @ '' '') = Some 2026"
  using string_to_int64_numeral [of "'' ''" "'' ''" 2026] by (simp add: isspace_def INT64_MAX_def)

text \<open>
  The test for hexadecimal digits is not the one \<open>strtoll\<close> uses: it leaves out the upper-case
  \<open>F\<close>, so that every numeral with that digit is refused.
\<close>

theorem string_to_int64_upper_F:
  assumes "no_nul s" "\<forall>c \<in> set s. \<not> isspace c" "CHR ''F'' \<in> set s"
  shows "string_to_int64 (''0x'' @ s) = None"
proof -
  have "\<not> all_hex s" using assms(3) by (induction s) auto
  moreover have "string_trim (string_dup (''0x'' @ s)) = ''0x'' @ s"
    using string_trim_surrounded [of "[]" "''0x'' @ s" "[]"] assms(1,2)
    by (auto simp: string_dup_def isspace_def)
  ultimately show ?thesis by (simp add: string_to_int64_def)
qed

theorem string_to_int64_upper_F_witness: "string_to_int64 ''0xFF'' = None \<and> string_to_int64 ''0xff'' = Some 255"
proof -
  have "string_to_int64 ''0xff'' = Some 255" by code_simp
  with string_to_int64_upper_F [of "''FF''"] show ?thesis by (simp add: isspace_def)
qed

end
