(* ===== verification/AtomString.thy ===== *)
theory AtomString
  imports HashTable StringEx
begin

text \<open>
  \<open>src/atomstring.c\<close>, \<open>include/atomstring.h\<close>: the string pool. A \<open>String\<close> is the pointer to the
  characters an entry of the pool holds, here with the characters it points to. The pool is the
  hash table of the entries, with the entry as its own key; the address of a new entry is an
  argument, the value the allocator returns.
\<close>

subsection \<open>Data\<close>

record String =
  str_ptr :: addr
  str_chars :: string

record StringEntry =
  se_val :: String
  se_size :: int

type_synonym StringPool = "StringEntry HashTable"

text \<open>The characters follow the header of the entry: \<open>e->val.str = e->data\<close>.\<close>

definition entry_data :: "addr \<Rightarrow> addr" where
  "entry_data a = a + 68"

definition strentry_new :: "addr \<Rightarrow> string \<Rightarrow> StringEntry HashNode" where
  "strentry_new a str = (
     let len = strlen str in
     Init_HashNode a \<lparr>se_val = \<lparr>str_ptr = entry_data a, str_chars = take (nat len) str\<rparr>,
                      se_size = len + 1\<rparr>)"

definition string_entry_hash :: "StringEntry \<Rightarrow> uint32" where
  "string_entry_hash e = hash_string (str_chars (se_val e))"

definition string_entry_equal :: "StringEntry \<Rightarrow> StringEntry \<Rightarrow> bool" where
  "string_entry_equal e1 e2 \<longleftrightarrow> str_eq (str_chars (se_val e1)) (str_chars (se_val e2))"

subsection \<open>Operations\<close>

definition AtomString_Init :: "bool \<Rightarrow> StringPool option" where
  "AtomString_Init ok = HashTable_Init ok string_entry_hash string_entry_equal"

text \<open>The entry on the stack that a lookup uses as its key: only \<open>val\<close> is set.\<close>

definition search_key :: "string \<Rightarrow> StringEntry" where
  "search_key str = \<lparr>se_val = \<lparr>str_ptr = 0, str_chars = str\<rparr>, se_size = 0\<rparr>"

definition AtomString_Find :: "StringPool \<Rightarrow> string \<Rightarrow> String option" where
  "AtomString_Find pool str =
     map_option (\<lambda>hnode. se_val (hn_key hnode)) (HashTable_Find pool (search_key str))"

definition AtomString_New :: "bool \<Rightarrow> addr \<Rightarrow> StringPool \<Rightarrow> string \<Rightarrow> String \<times> StringPool" where
  "AtomString_New ok a pool str = (case AtomString_Find pool str of
     Some s \<Rightarrow> (s, pool)
   | None \<Rightarrow>
       let e = strentry_new a str in
       (case HashTable_Insert ok pool e of (_, pool', _) \<Rightarrow> (se_val (hn_key e), pool')))"

definition AtomString_New_NStr ::
  "bool \<Rightarrow> addr \<Rightarrow> StringPool \<Rightarrow> string \<Rightarrow> nat \<Rightarrow> String \<times> StringPool" where
  "AtomString_New_NStr ok a pool str len = (let zstr = string_ndup str len in AtomString_New ok a pool zstr)"

text \<open>The functions on a \<open>String\<close>; \<open>None\<close> is the null pointer.\<close>

definition AtomString_Hash :: "String option \<Rightarrow> uint32" where
  "AtomString_Hash s = (case s of None \<Rightarrow> 0 | Some x \<Rightarrow> hash_string (str_chars x))"

definition AtomString_Equal :: "String option \<Rightarrow> String option \<Rightarrow> bool" where
  "AtomString_Equal s1 s2 = (case (s1, s2) of
     (Some x, Some y) \<Rightarrow> if str_ptr x = str_ptr y then True else str_eq (str_chars x) (str_chars y)
   | _ \<Rightarrow> False)"

definition AtomString_Fini :: "StringPool \<Rightarrow> StringEntry HashNode list \<times> StringPool" where
  "AtomString_Fini pool = HashTable_Fini True pool"

subsection \<open>The pool is a table of distinct strings\<close>

interpretation pool: hash_contract string_entry_hash string_entry_equal "\<lambda>_. True"
  by unfold_locales
    (auto simp: string_entry_hash_def string_entry_equal_def str_eq_def intro: hash_string_str_eq)

definition pool_inv :: "StringPool \<Rightarrow> bool" where
  "pool_inv pool \<longleftrightarrow> ht_ok string_entry_hash string_entry_equal (\<lambda>_. True) pool \<and>
     (\<forall>n \<in> set (ht_head pool). str_ptr (se_val (hn_key n)) = entry_data (hn_addr n) \<and>
        no_nul (str_chars (se_val (hn_key n))))"

definition pool_addrs :: "StringPool \<Rightarrow> addr set" where
  "pool_addrs pool = hn_addr ` set (ht_head pool)"

lemma pool_inv_Init [inv_intros]: "AtomString_Init ok = Some pool \<Longrightarrow> pool_inv pool"
  unfolding AtomString_Init_def using pool.good_Init [of ok pool]
  by (auto simp: pool_inv_def dest: ht_Init_fields)

lemma pool_inv_ht [simp]: "pool_inv pool \<Longrightarrow> ht_ok string_entry_hash string_entry_equal (\<lambda>_. True) pool"
  by (simp add: pool_inv_def)

lemma AtomString_Find_Some:
  assumes "pool_inv pool"
  shows "AtomString_Find pool str = Some s \<longleftrightarrow>
    (\<exists>n \<in> set (ht_head pool). se_val (hn_key n) = s \<and> str_chars s = cstr str)"
proof -
  have eq: "string_entry_equal (hn_key n) (search_key str) \<longleftrightarrow> str_chars (se_val (hn_key n)) = cstr str"
    if "n \<in> set (ht_head pool)" for n
    using that assms by (simp add: pool_inv_def string_entry_equal_def str_eq_def search_key_def)
  have "AtomString_Find pool str = Some s \<longleftrightarrow>
      (\<exists>n. n \<in> set (ht_head pool) \<and> string_entry_equal (hn_key n) (search_key str) \<and> se_val (hn_key n) = s)"
    by (simp add: AtomString_Find_def pool.Find_Some_iff [OF pool_inv_ht [OF assms] TrueI])
  also have "\<dots> \<longleftrightarrow> (\<exists>n \<in> set (ht_head pool). se_val (hn_key n) = s \<and> str_chars s = cstr str)"
    using eq by (intro iffI; elim exE bexE conjE; hypsubst; simp; metis)
  finally show ?thesis .
qed

lemma strentry_new_simps [simp]:
  "hn_addr (strentry_new a str) = a" "\<not> hn_linked (strentry_new a str)"
  "se_val (hn_key (strentry_new a str)) = \<lparr>str_ptr = entry_data a, str_chars = cstr str\<rparr>"
  by (simp_all add: strentry_new_def Init_HashNode_def Let_def strlen_def cstr_def
      takeWhile_eq_take [symmetric])

lemma string_entry_equal_new:
  "string_entry_equal k (hn_key (strentry_new a str)) \<longleftrightarrow> string_entry_equal k (search_key str)"
  by (simp add: string_entry_equal_def search_key_def str_eq_def)

text \<open>Looking up a string before and after it is added.\<close>

lemma AtomString_New_spec:
  assumes "pool_inv pool" "a \<notin> pool_addrs pool" "AtomString_New ok a pool str = (s, pool')"
  shows "pool_inv pool'" "str_chars s = cstr str"
    "AtomString_Find pool' str2 =
      (if str_eq str str2 then Some s else AtomString_Find pool str2)"
    "pool_addrs pool' \<subseteq> insert a (pool_addrs pool)"
    "AtomString_Find pool str = None \<Longrightarrow> str_ptr s = entry_data a"
proof -
  have *: "pool_inv pool' \<and> str_chars s = cstr str \<and>
    AtomString_Find pool' str2 = (if str_eq str str2 then Some s else AtomString_Find pool str2) \<and>
    pool_addrs pool' \<subseteq> insert a (pool_addrs pool) \<and>
    (AtomString_Find pool str = None \<longrightarrow> str_ptr s = entry_data a)"
  proof (cases "AtomString_Find pool str")
    case (Some s')
    have "AtomString_Find pool str2 = AtomString_Find pool str" if "str_eq str str2"
    proof -
      have "AtomString_Find pool str2 = Some s'"
        using Some that unfolding AtomString_Find_Some [OF assms(1)] str_eq_def by simp
      with Some show ?thesis by simp
    qed
    with Some assms AtomString_Find_Some [OF assms(1), of str s'] show ?thesis
      by (auto simp: AtomString_New_def)
  next
    case None
    let ?e = "strentry_new a str"
    obtain res n' where e: "HashTable_Insert ok pool ?e = (res, pool', n')" and s: "s = se_val (hn_key ?e)"
      using assms(3) None by (auto simp: AtomString_New_def Let_def split: prod.splits)
    have "hn_addr ?e \<notin> hn_addr ` set (ht_head pool)" using assms(2) by (simp add: pool_addrs_def)
    note prem = pool_inv_ht [OF assms(1)] strentry_new_simps(2) TrueI this
    note ins = pool.Insert_spec [OF prem e]
    have "string_entry_equal (hn_key n) (hn_key ?e) \<longleftrightarrow> string_entry_equal (hn_key n) (search_key str)" for n
      by (rule string_entry_equal_new)
    then have "HashTable_Find pool (hn_key ?e) = None"
      using None pool.Find_None_iff [OF pool_inv_ht [OF assms(1)] TrueI]
      by (auto simp: AtomString_Find_def)
    with ins have head: "res = 0"
      "ht_head pool' = ht_head pool @ [?e\<lparr>hn_hash := string_entry_hash (hn_key ?e), hn_linked := True\<rparr>]"
      by auto
    have inv: "pool_inv pool'"
      using ins(1) assms(1) by (auto simp: pool_inv_def head)
    have "string_entry_equal (hn_key ?e) (search_key str2) \<longleftrightarrow> str_eq str str2"
      by (simp add: string_entry_equal_def search_key_def str_eq_def)
    with pool.Find_after_Insert [OF prem e [unfolded head(1)] TrueI, of "search_key str2"]
    have "AtomString_Find pool' str2 = (if str_eq str str2 then Some s else AtomString_Find pool str2)"
      by (simp add: AtomString_Find_def s)
    with inv show ?thesis by (auto simp: s pool_addrs_def head)
  qed
  then show "pool_inv pool'" "str_chars s = cstr str"
    "AtomString_Find pool' str2 = (if str_eq str str2 then Some s else AtomString_Find pool str2)"
    "pool_addrs pool' \<subseteq> insert a (pool_addrs pool)"
    "AtomString_Find pool str = None \<Longrightarrow> str_ptr s = entry_data a" by auto
qed

lemma AtomString_Find_ptr:
  "pool_inv pool \<Longrightarrow> AtomString_Find pool str = Some s \<Longrightarrow> \<exists>b \<in> pool_addrs pool. str_ptr s = entry_data b"
  unfolding AtomString_Find_Some by (auto simp: pool_inv_def pool_addrs_def)

subsection \<open>Properties\<close>

text \<open>
  C30: interning. Two strings made one after the other by \<open>AtomString_New\<close> are the same pointer
  exactly when \<open>strcmp\<close> calls them equal, and each points to the characters it was made from; so
  comparing pointers is comparing names.
\<close>

theorem AtomString_New_interns:
  assumes "pool_inv pool" "a1 \<notin> pool_addrs pool" "a2 \<notin> pool_addrs pool" "a1 \<noteq> a2"
  shows "case AtomString_New ok1 a1 pool str1 of (s1, pool1) \<Rightarrow>
    case AtomString_New ok2 a2 pool1 str2 of (s2, pool2) \<Rightarrow>
      pool_inv pool2 \<and> str_chars s1 = cstr str1 \<and> str_chars s2 = cstr str2 \<and>
      (str_ptr s1 = str_ptr s2 \<longleftrightarrow> str_eq str1 str2)"
proof -
  obtain s1 pool1 where e1: "AtomString_New ok1 a1 pool str1 = (s1, pool1)" by fastforce
  obtain s2 pool2 where e2: "AtomString_New ok2 a2 pool1 str2 = (s2, pool2)" by fastforce
  note n1 = AtomString_New_spec [OF assms(1,2) e1]
  have a2: "a2 \<notin> pool_addrs pool1" using n1(4) assms(3,4) by auto
  note n2 = AtomString_New_spec [OF n1(1) a2 e2]
  have f1: "AtomString_Find pool2 str1 = Some s1"
    using n2(3) [of str1] n1(3) [of str1] n1(3) [of str2] e2
    by (cases "str_eq str1 str2")
      (auto simp: AtomString_New_def str_eq_def)
  have f2: "AtomString_Find pool2 str2 = Some s2" using n2(3) [of str2] by simp
  obtain m1 where m1: "m1 \<in> set (ht_head pool2)" "se_val (hn_key m1) = s1" "str_chars s1 = cstr str1"
    using f1 unfolding AtomString_Find_Some [OF n2(1)] by blast
  obtain m2 where m2: "m2 \<in> set (ht_head pool2)" "se_val (hn_key m2) = s2" "str_chars s2 = cstr str2"
    using f2 unfolding AtomString_Find_Some [OF n2(1)] by blast
  have "str_ptr s1 = str_ptr s2 \<longleftrightarrow> str_eq str1 str2"
  proof
    assume "str_ptr s1 = str_ptr s2"
    with m1 m2 n2(1) have "hn_addr m1 = hn_addr m2" by (auto simp: pool_inv_def entry_data_def)
    with m1 m2 n2(1) have "m1 = m2"
      by (auto simp: pool_inv_def ht_ok_def ht_inv_def distinct_map inj_on_def)
    with m1 m2 show "str_eq str1 str2" by (simp add: str_eq_def)
  next
    assume "str_eq str1 str2"
    then have "AtomString_Find pool2 str1 = AtomString_Find pool2 str2"
      using n2(3) [of str1] n2(3) [of str2] by (auto simp: str_eq_def split: if_splits)
    with f1 f2 show "str_ptr s1 = str_ptr s2" by simp
  qed
  with e1 e2 n1(2) n2(1,2) show ?thesis by simp
qed

definition sample_pool :: StringPool where
  "sample_pool = the (AtomString_Init True)"

lemma sample_pool_ok: "pool_inv sample_pool" "pool_addrs sample_pool = {}"
proof -
  have "AtomString_Init True = Some sample_pool"
    by (simp add: sample_pool_def AtomString_Init_def HashTable_Init_def new_entries_def)
  then show "pool_inv sample_pool" "pool_addrs sample_pool = {}"
    using pool_inv_Init by (auto simp: AtomString_Init_def pool_addrs_def dest: ht_Init_fields)
qed

theorem AtomString_New_interns_witness:
  "case AtomString_New True 8 sample_pool ''int'' of (s1, pool1) \<Rightarrow>
    case AtomString_New True 200 pool1 ''int'' of (s2, pool2) \<Rightarrow> str_ptr s1 = str_ptr s2"
  using AtomString_New_interns [OF sample_pool_ok(1), where ?a1.0 = 8 and ?a2.0 = 200
    and ?ok1.0 = True and ?ok2.0 = True and ?str1.0 = "''int''" and ?str2.0 = "''int''"]
  by (auto simp: sample_pool_ok(2) split: prod.splits)

text \<open>
  The pool only grows. Making a string keeps the invariant, is found from then on, and does
  not change what any other string is interned to.
\<close>

theorem AtomString_New_keeps_others:
  assumes "pool_inv pool" "a \<notin> pool_addrs pool"
  shows "case AtomString_New ok a pool str of (s, pool') \<Rightarrow>
    pool_inv pool' \<and> AtomString_Find pool' str = Some s \<and>
    (\<forall>str2 s2. AtomString_Find pool str2 = Some s2 \<longrightarrow> AtomString_Find pool' str2 = Some s2)"
proof -
  obtain s pool' where e: "AtomString_New ok a pool str = (s, pool')" by fastforce
  note n = AtomString_New_spec [OF assms e]
  have "AtomString_Find pool' str2 = Some s2" if f: "AtomString_Find pool str2 = Some s2" for str2 s2
  proof (cases "str_eq str str2")
    case True
    have "AtomString_Find pool str = Some s2"
      using f True unfolding AtomString_Find_Some [OF assms(1)] by (simp add: str_eq_def)
    then have "s = s2" using e by (simp add: AtomString_New_def)
    with True n(3) show ?thesis by simp
  next
    case False
    with n(3) f show ?thesis by simp
  qed
  with e n(1) n(3) [of str] show ?thesis by simp
qed

theorem AtomString_New_keeps_others_witness:
  "pool_inv (snd (AtomString_New True 8 sample_pool ''lang''))"
  using AtomString_New_keeps_others [OF sample_pool_ok(1), where a = 8 and ok = True and str = "''lang''"]
  by (simp add: sample_pool_ok(2) split: prod.splits)

end
