(* ===== verification/Buffer.thy ===== *)
theory Buffer
  imports Prelude
begin

text \<open>
  \<open>src/buffer.c\<close>, \<open>include/buffer.h\<close>: the byte buffer code is generated into, a list of blocks of
  the same size. \<open>Buffer_Write\<close> is the loop of the source, which never ends when the block size is
  not positive: it is a partial function whose value is \<open>None\<close> when the loop does not end, and the
  theorems show that it ends for every positive block size.
\<close>

subsection \<open>Data\<close>

record Block =
  bk_used :: int
  bk_data :: "uint8 list"

record Buffer =
  bf_size :: int
  bf_blocks :: int
  bf_bsize :: int
  bf_head :: "Block list"

subsection \<open>Operations\<close>

definition block_new :: "int \<Rightarrow> Block" where
  "block_new bsize = \<lparr>bk_used = 0, bk_data = replicate (nat bsize) 0\<rparr>"

definition Buffer_Init :: "int \<Rightarrow> Buffer" where
  "Buffer_Init bsize = \<lparr>bf_size = 0, bf_blocks = 0, bf_bsize = bsize, bf_head = []\<rparr>"

fun Buffer_Fini_loop :: "Block list \<Rightarrow> Block list" where
  "Buffer_Fini_loop [] = []"
| "Buffer_Fini_loop (b # bs) = Buffer_Fini_loop bs"

definition Buffer_Fini :: "Buffer \<Rightarrow> Buffer" where
  "Buffer_Fini buf = (let rest = Buffer_Fini_loop (bf_head buf) in (Buffer_Init 0)\<lparr>bf_head := rest\<rparr>)"

text \<open>\<open>memcpy(dest + off, data, sz)\<close>\<close>

definition memcpy_at :: "uint8 list \<Rightarrow> nat \<Rightarrow> uint8 list \<Rightarrow> nat \<Rightarrow> uint8 list" where
  "memcpy_at dest off data sz = take off dest @ take sz data @ drop (off + sz) dest"

definition copy_into_last :: "Buffer \<Rightarrow> Block \<Rightarrow> uint8 list \<Rightarrow> int \<Rightarrow> Buffer" where
  "copy_into_last buf block data sz = (
     let block' = block\<lparr>bk_data := memcpy_at (bk_data block) (nat (bk_used block)) data (nat sz),
                        bk_used := bk_used block + sz\<rparr> in
     buf\<lparr>bf_head := butlast (bf_head buf) @ [block'], bf_size := bf_size buf + sz\<rparr>)"

definition left_of_last :: "Buffer \<Rightarrow> int" where
  "left_of_last buf = (if bf_head buf = [] then 0 else bf_bsize buf - bk_used (last (bf_head buf)))"

definition add_block :: "Buffer \<Rightarrow> Buffer" where
  "add_block buf = buf\<lparr>bf_head := bf_head buf @ [block_new (bf_bsize buf)], bf_blocks := bf_blocks buf + 1\<rparr>"

partial_function (option) Buffer_Write :: "Buffer \<Rightarrow> uint8 list \<Rightarrow> int \<Rightarrow> Buffer run option" where
  "Buffer_Write buf data sz =
     (if \<not> sz > 0 then Some (Inr buf)
      else if bf_head buf \<noteq> [] \<and> \<not> left_of_last buf \<ge> 0 then Some (Inl Assert_Failed)
      else if left_of_last buf \<le> 0 then Buffer_Write (add_block buf) data sz
      else
        let n = min (left_of_last buf) sz in
        if \<not> sz - n \<ge> 0 then Some (Inl Assert_Failed)
        else Buffer_Write (copy_into_last buf (last (bf_head buf)) data n) (drop (nat n) data) (sz - n))"

definition ALIGN :: "int \<Rightarrow> int \<Rightarrow> int" where
  "ALIGN x n = (x + n - 1) div n * n"

fun raw_loop :: "uint8 list \<Rightarrow> int \<Rightarrow> Block list \<Rightarrow> uint8 list" where
  "raw_loop data sz [] = data"
| "raw_loop data sz (b # bs) =
     raw_loop (memcpy_at data (nat sz) (bk_data b) (nat (bk_used b))) (sz + bk_used b) bs"

definition Buffer_RawData :: "Buffer \<Rightarrow> uint8 list" where
  "Buffer_RawData buf = raw_loop (replicate (nat (ALIGN (bf_size buf) 4)) 0) 0 (bf_head buf)"

definition Buffer_Size :: "Buffer \<Rightarrow> int" where
  "Buffer_Size buf = bf_size buf"

definition Buffer_Write_Byte :: "Buffer \<Rightarrow> int \<Rightarrow> Buffer run option" where
  "Buffer_Write_Byte buf x = Buffer_Write buf (le_bytes 1 x) 1"

definition Buffer_Write_2Bytes :: "Buffer \<Rightarrow> int \<Rightarrow> Buffer run option" where
  "Buffer_Write_2Bytes buf x = Buffer_Write buf (le_bytes 2 x) 2"

definition Buffer_Write_4Bytes :: "Buffer \<Rightarrow> int \<Rightarrow> Buffer run option" where
  "Buffer_Write_4Bytes buf x = Buffer_Write buf (le_bytes 4 x) 4"

subsection \<open>Invariant and content\<close>

definition block_bytes :: "Block \<Rightarrow> uint8 list" where
  "block_bytes b = take (nat (bk_used b)) (bk_data b)"

definition buf_bytes :: "Buffer \<Rightarrow> uint8 list" where
  "buf_bytes buf = concat (map block_bytes (bf_head buf))"

definition block_ok :: "int \<Rightarrow> Block \<Rightarrow> bool" where
  "block_ok bsize b \<longleftrightarrow> 0 \<le> bk_used b \<and> bk_used b \<le> bsize \<and> int (length (bk_data b)) = bsize"

definition buf_inv :: "Buffer \<Rightarrow> bool" where
  "buf_inv buf \<longleftrightarrow> (\<forall>b \<in> set (bf_head buf). block_ok (bf_bsize buf) b) \<and>
     (\<forall>b \<in> set (butlast (bf_head buf)). bk_used b = bf_bsize buf) \<and>
     bf_size buf = int (length (buf_bytes buf)) \<and> bf_blocks buf = int (length (bf_head buf))"

lemma buf_inv_Init [inv_intros]: "buf_inv (Buffer_Init n)"
  by (simp add: buf_inv_def Buffer_Init_def buf_bytes_def)

lemma buf_bytes_Init [simp]: "buf_bytes (Buffer_Init n) = []"
  by (simp add: Buffer_Init_def buf_bytes_def)

lemma left_nonneg: "buf_inv buf \<Longrightarrow> bf_head buf \<noteq> [] \<Longrightarrow> 0 \<le> left_of_last buf"
  by (auto simp: buf_inv_def left_of_last_def block_ok_def)

lemma add_block_ok:
  assumes "buf_inv buf" "0 < bf_bsize buf" "left_of_last buf \<le> 0"
  shows "buf_inv (add_block buf)" "buf_bytes (add_block buf) = buf_bytes buf"
    "bf_bsize (add_block buf) = bf_bsize buf" "left_of_last (add_block buf) = bf_bsize buf"
proof -
  have full: "bk_used (last (bf_head buf)) = bf_bsize buf" if "bf_head buf \<noteq> []"
    using that left_nonneg [OF assms(1) that] assms(3) by (simp add: left_of_last_def)
  have "bk_used b = bf_bsize buf" if "b \<in> set (bf_head buf)" for b
  proof -
    from that have "bf_head buf \<noteq> []" by auto
    then have "set (bf_head buf) = insert (last (bf_head buf)) (set (butlast (bf_head buf)))"
      by (metis append_butlast_last_id list.simps(15) rotate1.simps(2) set_rotate1)
    with that full [OF \<open>bf_head buf \<noteq> []\<close>] assms(1) show ?thesis by (auto simp: buf_inv_def)
  qed
  moreover show b: "buf_bytes (add_block buf) = buf_bytes buf"
    by (simp add: buf_bytes_def add_block_def block_bytes_def block_new_def)
  ultimately show "buf_inv (add_block buf)"
    using assms(1,2) by (auto simp: buf_inv_def b) (auto simp: add_block_def block_new_def block_ok_def)
  show "bf_bsize (add_block buf) = bf_bsize buf" "left_of_last (add_block buf) = bf_bsize buf"
    by (simp_all add: add_block_def left_of_last_def block_new_def)
qed

lemma copy_into_last_ok:
  assumes "buf_inv buf" "bf_head buf \<noteq> []" "0 < n" "n \<le> left_of_last buf" "n \<le> int (length data)"
    and "buf' = copy_into_last buf (last (bf_head buf)) data n"
  shows "buf_inv buf'" "buf_bytes buf' = buf_bytes buf @ take (nat n) data"
    "bf_bsize buf' = bf_bsize buf" "left_of_last buf' = left_of_last buf - n"
proof -
  obtain bs b where h: "bf_head buf = bs @ [b]" using assms(2) by (cases "bf_head buf" rule: rev_cases) auto
  let ?u = "nat (bk_used b)"
  let ?b = "b\<lparr>bk_data := memcpy_at (bk_data b) ?u data (nat n), bk_used := bk_used b + n\<rparr>"
  have b: "block_ok (bf_bsize buf) b" using assms(1) h by (simp add: buf_inv_def)
  have le: "bk_used b + n \<le> bf_bsize buf" using assms(4) h by (simp add: left_of_last_def)
  have u: "?u + nat n \<le> length (bk_data b)" "nat (bk_used b + n) = ?u + nat n"
    using b le assms(3) by (auto simp: block_ok_def)
  have h': "bf_head buf' = bs @ [?b]" by (simp add: assms(6) copy_into_last_def h)
  have bytes: "block_bytes ?b = block_bytes b @ take (nat n) data"
    using u assms(5) by (simp add: block_bytes_def memcpy_at_def)
  show bb: "buf_bytes buf' = buf_bytes buf @ take (nat n) data"
    by (simp add: buf_bytes_def h h' bytes)
  have ok: "block_ok (bf_bsize buf) ?b"
    using b le assms(3,5) u by (auto simp: block_ok_def memcpy_at_def)
  show bs: "bf_bsize buf' = bf_bsize buf" by (simp add: assms(6) copy_into_last_def)
  have "bf_size buf' = bf_size buf + n" "bf_blocks buf' = bf_blocks buf"
    by (simp_all add: assms(6) copy_into_last_def)
  with assms(1,3,5) ok show "buf_inv buf'"
    by (auto simp: buf_inv_def bb bs h h')
  show "left_of_last buf' = left_of_last buf - n"
    by (simp add: left_of_last_def h h' bs)
qed

subsection \<open>Writing\<close>

lemma Buffer_Write_spec:
  assumes "buf_inv buf" "0 < bf_bsize buf" "sz \<le> int (length data)"
  shows "\<exists>buf'. Buffer_Write buf data sz = Some (Inr buf') \<and> buf_inv buf' \<and>
    bf_bsize buf' = bf_bsize buf \<and> buf_bytes buf' = buf_bytes buf @ take (nat sz) data"
  using assms
proof (induction "nat sz" arbitrary: buf data sz rule: less_induct)
  case less
  have step: "\<exists>buf'. Buffer_Write b data sz = Some (Inr buf') \<and> buf_inv buf' \<and>
      bf_bsize buf' = bf_bsize b \<and> buf_bytes buf' = buf_bytes b @ take (nat sz) data"
    if b: "buf_inv b" "0 < bf_bsize b" "0 < left_of_last b" and sz: "0 < sz" for b
  proof -
    let ?n = "min (left_of_last b) sz"
    let ?c = "copy_into_last b (last (bf_head b)) data ?n"
    have ne: "bf_head b \<noteq> []" using b(3) by (auto simp: left_of_last_def)
    note c = copy_into_last_ok [OF b(1) ne _ _ _ refl, of ?n data]
    have n: "0 < ?n" "?n \<le> left_of_last b" "?n \<le> int (length data)" "?n \<le> sz" using b(3) sz less.prems(3) by auto
    note c = c [OF n(1-3)]
    have "\<exists>buf'. Buffer_Write ?c (drop (nat ?n) data) (sz - ?n) = Some (Inr buf') \<and> buf_inv buf' \<and>
      bf_bsize buf' = bf_bsize ?c \<and> buf_bytes buf' = buf_bytes ?c @ take (nat (sz - ?n)) (drop (nat ?n) data)"
      by (rule less.hyps) (use n sz c b(2) less.prems(3) in auto)
    moreover have "take (nat ?n) data @ take (nat (sz - ?n)) (drop (nat ?n) data) = take (nat sz) data"
      using n by (simp add: take_add [symmetric] nat_diff_distrib)
    moreover have "Buffer_Write b data sz = Buffer_Write ?c (drop (nat ?n) data) (sz - ?n)"
      using sz b(3) n(4) by (subst Buffer_Write.simps) (simp add: Let_def)
    ultimately show ?thesis using c(2,3) by auto
  qed
  show ?case
  proof (cases "sz > 0")
    case False
    with less.prems show ?thesis by (subst Buffer_Write.simps) simp
  next
    case True
    show ?thesis
    proof (cases "left_of_last buf \<le> 0")
      case True
      note a = add_block_ok [OF less.prems(1,2) True]
      have "Buffer_Write buf data sz = Buffer_Write (add_block buf) data sz"
        using True \<open>sz > 0\<close> left_nonneg [OF less.prems(1)] by (subst Buffer_Write.simps) auto
      with step [of "add_block buf"] a less.prems(2) \<open>sz > 0\<close> show ?thesis by simp
    next
      case False
      with step [of buf] less.prems \<open>sz > 0\<close> show ?thesis by simp
    qed
  qed
qed

lemma Buffer_Write_all:
  assumes "buf_inv buf" "0 < bf_bsize buf"
  shows "\<exists>buf'. Buffer_Write buf data (int (length data)) = Some (Inr buf') \<and> buf_inv buf' \<and>
    bf_bsize buf' = bf_bsize buf \<and> buf_bytes buf' = buf_bytes buf @ data"
  using Buffer_Write_spec [OF assms, of "int (length data)" data] by simp

subsection \<open>Reading back\<close>

lemma raw_loop_spec:
  assumes "\<forall>b \<in> set bs. block_ok bsize b" "sz = int (length pre)"
    and "length data = length pre + length (concat (map block_bytes bs)) + k"
    and "take (length pre) data = pre" "drop (length pre) data = replicate (length data - length pre) 0"
  shows "raw_loop data sz bs = pre @ concat (map block_bytes bs) @ replicate k 0"
  using assms
proof (induction bs arbitrary: data sz pre)
  case Nil
  then have "length data = length pre + k" by simp
  with Nil have "data = pre @ replicate k 0" by (metis append_take_drop_id add_diff_cancel_left')
  then show ?case by simp
next
  case (Cons b bs)
  let ?d = "memcpy_at data (nat sz) (bk_data b) (nat (bk_used b))"
  have len: "length (block_bytes b) = nat (bk_used b)" "bk_used b \<ge> 0"
    using Cons.prems(1) by (auto simp: block_ok_def block_bytes_def)
  have d: "?d = pre @ block_bytes b @ replicate (length (concat (map block_bytes bs)) + k) 0"
  proof -
    have "drop (length pre + nat (bk_used b)) data = drop (nat (bk_used b)) (drop (length pre) data)"
      by (simp add: add.commute)
    also have "\<dots> = replicate (length (concat (map block_bytes bs)) + k) 0"
      using Cons.prems(3) len by (subst Cons.prems(5)) simp
    finally show ?thesis using Cons.prems(2,4) by (simp add: memcpy_at_def block_bytes_def)
  qed
  have "raw_loop ?d (sz + bk_used b) bs = (pre @ block_bytes b) @ concat (map block_bytes bs) @ replicate k 0"
  proof (rule Cons.IH)
    show "sz + bk_used b = int (length (pre @ block_bytes b))" using Cons.prems(2) len by simp
  qed (use Cons.prems(1) in \<open>simp_all add: d\<close>)
  then show ?case by simp
qed

lemma Buffer_RawData_spec:
  assumes "buf_inv buf"
  shows "Buffer_RawData buf = buf_bytes buf @ replicate (nat (ALIGN (bf_size buf) 4 - bf_size buf)) 0"
proof -
  have "bf_size buf \<le> ALIGN (bf_size buf) 4" "0 \<le> bf_size buf"
    using assms by (auto simp: ALIGN_def buf_inv_def)
  moreover from this have "nat (ALIGN (bf_size buf) 4) =
      length (concat (map block_bytes (bf_head buf))) + nat (ALIGN (bf_size buf) 4 - bf_size buf)"
    using assms by (simp add: buf_inv_def buf_bytes_def nat_diff_distrib)
  ultimately show ?thesis
    using assms raw_loop_spec [of "bf_head buf" "bf_bsize buf" 0 "[]"
      "replicate (nat (ALIGN (bf_size buf) 4)) 0" "nat (ALIGN (bf_size buf) 4 - bf_size buf)"]
    by (simp add: Buffer_RawData_def buf_inv_def buf_bytes_def)
qed

subsection \<open>Properties\<close>



end
