(* ===== verification/Cache.thy ===== *)
theory Cache
  imports Prelude
begin

text \<open>
  \<open>src/cache.c\<close>, \<open>include/cache.h\<close>: the object cache. Nodes are kept on a free list (the circular
  list of \<open>CList\<close>, here as the list it represents) and handed out again in the order they came
  back. A node is the address of its header; the object is \<open>sizeof(CacheNode)\<close> further.
\<close>

subsection \<open>Data and operations\<close>

record Cache =
  ca_objsize :: int
  ca_total :: int
  ca_used :: int
  free_list :: "addr list"

definition CACHE_NODE_SIZE :: nat where
  "CACHE_NODE_SIZE = 16"

definition Init_Cache :: "int \<Rightarrow> Cache" where
  "Init_Cache objsize = \<lparr>ca_objsize = objsize, ca_total = 0, ca_used = 0, free_list = []\<rparr>"

text \<open>\<open>a\<close> is the address the allocator returns if a new node is needed.\<close>

definition Cache_Take :: "addr \<Rightarrow> Cache \<Rightarrow> addr \<times> Cache" where
  "Cache_Take a cache = (
     case free_list cache of
       first # rest \<Rightarrow>
         (first + CACHE_NODE_SIZE, cache\<lparr>free_list := rest, ca_used := ca_used cache + 1\<rparr>)
     | [] \<Rightarrow>
         (a + CACHE_NODE_SIZE, cache\<lparr>ca_total := ca_total cache + 1, ca_used := ca_used cache + 1\<rparr>))"

definition Cache_Restore :: "Cache \<Rightarrow> addr \<Rightarrow> Cache run" where
  "Cache_Restore cache obj = (
     let node = obj - CACHE_NODE_SIZE in
     if node \<in> set (free_list cache) then Inl Assert_Failed
     else
       let cache1 = cache\<lparr>free_list := free_list cache @ [node], ca_used := ca_used cache - 1\<rparr> in
       if ca_used cache1 \<ge> 0 then Inr cache1 else Inl Assert_Failed)"

text \<open>The objects handed to the callback, in order; the freed cache is left as it is in C.\<close>

definition Fini_Cache :: "Cache \<Rightarrow> addr list run" where
  "Fini_Cache cache = (
     if ca_used cache > 0 then Inl Assert_Failed
     else
       let visited = map (\<lambda>p. p + CACHE_NODE_SIZE) (free_list cache);
           count = int (length (free_list cache)) in
       if count = ca_total cache then Inr visited else Inl Assert_Failed)"

subsection \<open>The client's view\<close>

text \<open>
  \<open>out\<close> are the objects taken and not yet restored. Together with the free list they are all the
  nodes ever allocated, each once.
\<close>

definition cache_inv :: "addr list \<Rightarrow> Cache \<Rightarrow> bool" where
  "cache_inv out cache \<longleftrightarrow>
     distinct (map (\<lambda>p. p + CACHE_NODE_SIZE) (free_list cache) @ out) \<and>
     (\<forall>obj \<in> set out. CACHE_NODE_SIZE \<le> obj) \<and>
     ca_used cache = int (length out) \<and>
     ca_total cache = int (length (free_list cache) + length out)"

lemma cache_inv_Init [inv_intros]: "cache_inv [] (Init_Cache n)"
  by (simp add: cache_inv_def Init_Cache_def)

lemma Cache_Take_inv:
  assumes "cache_inv out cache" "a + CACHE_NODE_SIZE \<notin> set out" "a \<notin> set (free_list cache)"
  shows "cache_inv (fst (Cache_Take a cache) # out) (snd (Cache_Take a cache))"
proof (cases "free_list cache")
  case Nil
  with assms show ?thesis by (simp add: cache_inv_def Cache_Take_def)
next
  case (Cons x xs)
  with assms show ?thesis by (simp add: cache_inv_def Cache_Take_def)
qed

lemma Cache_Restore_inv:
  assumes "cache_inv out cache" "obj \<in> set out"
  shows "\<exists>cache'. Cache_Restore cache obj = Inr cache' \<and> cache_inv (remove1 obj out) cache' \<and>
    free_list cache' = free_list cache @ [obj - CACHE_NODE_SIZE]"
proof -
  have n: "obj = (obj - CACHE_NODE_SIZE) + CACHE_NODE_SIZE" using assms by (simp add: cache_inv_def)
  have nf: "obj - CACHE_NODE_SIZE \<notin> set (free_list cache)"
  proof
    assume "obj - CACHE_NODE_SIZE \<in> set (free_list cache)"
    then have "obj \<in> set (map (\<lambda>p. p + CACHE_NODE_SIZE) (free_list cache))"
      using n by (metis image_eqI list.set_map)
    with assms show False by (auto simp: cache_inv_def)
  qed
  have "length out > 0" using assms(2) by (cases out) auto
  then have "int (length (remove1 obj out)) = int (length out) - 1"
    using assms(2) by (simp add: length_remove1 Suc_le_eq of_nat_diff)
  then show ?thesis
    using assms n nf
    by (auto simp: Cache_Restore_def cache_inv_def Let_def dest: notin_set_remove1)
qed

text \<open>A sequence of requests, and the objects out after it.\<close>

datatype cache_op = Take addr | Restore addr

fun run_cache :: "cache_op list \<Rightarrow> addr list \<Rightarrow> Cache \<Rightarrow> (addr list \<times> Cache) run" where
  "run_cache [] out cache = Inr (out, cache)"
| "run_cache (Take a # ops) out cache =
     (case Cache_Take a cache of (obj, cache') \<Rightarrow> run_cache ops (obj # out) cache')"
| "run_cache (Restore obj # ops) out cache =
     bind_run (Cache_Restore cache obj) (run_cache ops (remove1 obj out))"

text \<open>The client restores only what it holds, and the allocator answers a fresh address.\<close>

fun fair_client :: "cache_op list \<Rightarrow> addr list \<Rightarrow> Cache \<Rightarrow> bool" where
  "fair_client [] out cache = True"
| "fair_client (Take a # ops) out cache =
     (a + CACHE_NODE_SIZE \<notin> set out \<and> a \<notin> set (free_list cache) \<and>
      (case Cache_Take a cache of (obj, cache') \<Rightarrow> fair_client ops (obj # out) cache'))"
| "fair_client (Restore obj # ops) out cache =
     (obj \<in> set out \<and>
      (case Cache_Restore cache obj of Inl _ \<Rightarrow> True
       | Inr cache' \<Rightarrow> fair_client ops (remove1 obj out) cache'))"

lemma run_cache_ok:
  "cache_inv out cache \<Longrightarrow> fair_client ops out cache \<Longrightarrow>
   \<exists>out' cache'. run_cache ops out cache = Inr (out', cache') \<and> cache_inv out' cache'"
proof (induction ops arbitrary: out cache)
  case Nil
  then show ?case by simp
next
  case (Cons op ops)
  show ?case
  proof (cases op)
    case (Take a)
    obtain obj c where t: "Cache_Take a cache = (obj, c)" by fastforce
    with Cons.prems Take Cache_Take_inv [of out cache a] Cons.IH [of "obj # out" c]
    show ?thesis by auto
  next
    case (Restore obj)
    with Cons.prems obtain c where c: "Cache_Restore cache obj = Inr c" "cache_inv (remove1 obj out) c"
      using Cache_Restore_inv [of out cache obj] by auto
    with Cons Restore show ?thesis by auto
  qed
qed

subsection \<open>Properties\<close>

text \<open>
  C34: for a client that restores only objects it has taken, no request of any length makes an
  assertion fail, no object is handed out twice at the same time, and the cache can be finished
  exactly when every object is back; finishing then visits every object once.
\<close>

theorem Cache_never_shares:
  assumes "fair_client ops [] (Init_Cache n)"
  shows "\<exists>out cache. run_cache ops [] (Init_Cache n) = Inr (out, cache) \<and> distinct out \<and>
    ca_used cache = int (length out) \<and>
    (case Fini_Cache cache of Inl _ \<Rightarrow> out \<noteq> []
     | Inr visited \<Rightarrow> out = [] \<and> distinct visited \<and> int (length visited) = ca_total cache)"
proof -
  obtain out cache where r: "run_cache ops [] (Init_Cache n) = Inr (out, cache)" "cache_inv out cache"
    using run_cache_ok [OF cache_inv_Init assms] by blast
  then show ?thesis
    by (cases out) (auto simp: cache_inv_def Fini_Cache_def Let_def)
qed

theorem Cache_never_shares_witness:
  "\<exists>out cache. run_cache [Take 100, Take 200, Restore 116, Take 300] [] (Init_Cache 8) = Inr (out, cache) \<and>
     distinct out \<and> ca_used cache = 2"
proof -
  have "fair_client [Take 100, Take 200, Restore 116, Take 300] [] (Init_Cache 8)"
    "case run_cache [Take 100, Take 200, Restore 116, Take 300] [] (Init_Cache 8) of
       Inl _ \<Rightarrow> False | Inr (out, c) \<Rightarrow> length out = 2" by code_simp+
  with Cache_never_shares [of "[Take 100, Take 200, Restore 116, Take 300]" 8] show ?thesis by auto
qed

end
