(* ===== verification/Vector.thy ===== *)
theory Vector
  imports Prelude
begin

text \<open>
  \<open>src/vector.c\<close>, \<open>include/vector.h\<close>: the growable pointer array. A slot is \<open>None\<close> for a null
  pointer; \<open>items\<close> is \<open>None\<close> for the null array of a fresh vector. Where the C code checks the
  result of \<open>Malloc\<close>, the operation takes a flag \<open>ok\<close> that says whether the allocation it may
  make succeeds. \<open>Malloc\<close> is \<open>calloc\<close>, so fresh slots are null.

  The interface \<open>sequence\<close> is what the clients of a vector rely on: an append puts its value at
  the index it reports and moves nothing else.
\<close>

definition DEFAULT_CAPACITY :: int where
  "DEFAULT_CAPACITY = 8"

record 'a Vector =
  vec_size :: int
  capacity :: int
  items :: "'a option list option"

definition Vector_Init :: "'a Vector" where
  "Vector_Init = \<lparr>vec_size = 0, capacity = 0, items = None\<rparr>"

definition Vector_New :: "bool \<Rightarrow> 'a Vector option" where
  "Vector_New ok = (if \<not> ok then None else Some \<lparr>vec_size = 0, capacity = 0, items = None\<rparr>)"

text \<open>The macro \<open>Vector_Size\<close> accepts a null vector.\<close>

definition Vector_Size :: "'a Vector option \<Rightarrow> int" where
  "Vector_Size vec = (case vec of None \<Rightarrow> 0 | Some v \<Rightarrow> vec_size v)"

definition vector_expand :: "bool \<Rightarrow> 'a Vector \<Rightarrow> int \<Rightarrow> int \<times> 'a Vector" where
  "vector_expand ok vec newsize = (
     if newsize \<le> capacity vec then (0, vec)
     else
       let new_allocated = (if capacity vec = 0 then DEFAULT_CAPACITY else capacity vec * 2) in
       if \<not> ok then (-1, vec)
       else
         let fresh = replicate (nat new_allocated) None;
             n = nat (vec_size vec);
             filled = (case items vec of None \<Rightarrow> fresh
                       | Some its \<Rightarrow> take n its @ drop n fresh)
         in (0, vec\<lparr>capacity := new_allocated, items := Some filled\<rparr>))"

definition Vector_Set :: "bool \<Rightarrow> 'a Vector \<Rightarrow> int \<Rightarrow> 'a option \<Rightarrow> int \<times> 'a Vector" where
  "Vector_Set ok vec index item = (
     if index < 0 \<or> index > Vector_Size (Some vec) then (-1, vec)
     else
       case vector_expand ok vec (index + 1) of (res, vec1) \<Rightarrow>
       if res < 0 then (-1, vec1)
       else
         let vec2 = vec1\<lparr>items := map_option (\<lambda>its. its[nat index := item]) (items vec1)\<rparr>;
             vec3 = (if index \<ge> vec_size vec2 then vec2\<lparr>vec_size := index + 1\<rparr> else vec2)
         in (0, vec3))"

definition Vector_Get :: "'a Vector \<Rightarrow> int \<Rightarrow> 'a option" where
  "Vector_Get vec index = (case items vec of None \<Rightarrow> None
     | Some its \<Rightarrow> if index < 0 \<or> index \<ge> vec_size vec then None else its ! nat index)"

definition Vector_Get_Last :: "'a Vector \<Rightarrow> 'a option" where
  "Vector_Get_Last vec = Vector_Get vec (Vector_Size (Some vec) - 1)"

definition Vector_Append :: "bool \<Rightarrow> 'a Vector \<Rightarrow> 'a option \<Rightarrow> int \<times> 'a Vector" where
  "Vector_Append ok vec item = Vector_Set ok vec (vec_size vec) item"

text \<open>The sequence \<open>Vector_ForEach\<close> walks.\<close>

definition vec_list :: "'a Vector \<Rightarrow> 'a option list" where
  "vec_list vec = (case items vec of None \<Rightarrow> [] | Some its \<Rightarrow> take (nat (vec_size vec)) its)"

text \<open>
  \<open>Vector_Fini\<close> hands every item to the callback, in order, when there is one, and empties the
  vector; the first component is the list of the calls made.
\<close>

definition Vector_Fini :: "bool \<Rightarrow> 'a Vector option \<Rightarrow> 'a option list \<times> 'a Vector option" where
  "Vector_Fini has_fini vec = (case vec of None \<Rightarrow> ([], None)
     | Some v \<Rightarrow> (case items v of None \<Rightarrow> ([], Some v)
       | Some _ \<Rightarrow> (if has_fini then vec_list v else [],
                    Some \<lparr>vec_size = 0, capacity = 0, items = None\<rparr>)))"

text \<open>
  \<open>Vector_Concat\<close> appends item by item and ignores the return codes; \<open>ok n\<close> says whether the
  allocation made at size \<open>n\<close> succeeds.
\<close>

fun concat_loop :: "(int \<Rightarrow> bool) \<Rightarrow> 'a Vector \<Rightarrow> 'a option list \<Rightarrow> 'a Vector" where
  "concat_loop ok dest [] = dest"
| "concat_loop ok dest (x # xs) = concat_loop ok (snd (Vector_Append (ok (vec_size dest)) dest x)) xs"

definition Vector_Concat :: "(int \<Rightarrow> bool) \<Rightarrow> 'a Vector \<Rightarrow> 'a Vector option \<Rightarrow> 'a Vector" where
  "Vector_Concat ok dest src = (case src of None \<Rightarrow> dest | Some s \<Rightarrow> concat_loop ok dest (vec_list s))"

subsection \<open>Invariant\<close>

definition vec_inv :: "'a Vector \<Rightarrow> bool" where
  "vec_inv vec \<longleftrightarrow> 0 \<le> vec_size vec \<and> vec_size vec \<le> capacity vec \<and>
     (case items vec of None \<Rightarrow> capacity vec = 0
      | Some its \<Rightarrow> capacity vec \<ge> DEFAULT_CAPACITY \<and> int (length its) = capacity vec)"

lemma vec_inv_Init [inv_intros]: "vec_inv Vector_Init"
  by (simp add: vec_inv_def Vector_Init_def)

lemma vec_list_Init [simp]: "vec_list Vector_Init = []"
  by (simp add: vec_list_def Vector_Init_def)

lemma length_vec_list [simp]: "vec_inv vec \<Longrightarrow> length (vec_list vec) = nat (vec_size vec)"
  by (auto simp: vec_inv_def vec_list_def split: option.splits)

lemma vec_size_eq: "vec_inv vec \<Longrightarrow> vec_size vec = int (length (vec_list vec))"
  by (simp add: vec_inv_def)

lemma Vector_Get_nth [vec_simps]:
  "vec_inv vec \<Longrightarrow> Vector_Get vec i =
     (if 0 \<le> i \<and> i < int (length (vec_list vec)) then vec_list vec ! nat i else None)"
  by (cases "items vec") (auto simp: Vector_Get_def vec_list_def vec_inv_def min_def DEFAULT_CAPACITY_def)

subsection \<open>Growing\<close>

text \<open>
  A request beyond the capacity doubles it once; that is enough, since every caller asks for one
  slot more than the size at most.
\<close>

lemma vector_expand_ok:
  assumes "vec_inv vec" "newsize \<le> vec_size vec + 1" "vector_expand ok vec newsize = (0, vec1)"
  shows "vec_inv vec1" "newsize \<le> capacity vec1" "vec_size vec1 = vec_size vec"
    "vec_list vec1 = vec_list vec" "newsize \<ge> 1 \<longrightarrow> items vec1 \<noteq> None"
  using assms
  by (auto simp: vector_expand_def vec_inv_def vec_list_def DEFAULT_CAPACITY_def Let_def
      split: if_splits option.splits)

lemma vector_expand_code: "fst (vector_expand ok vec n) = 0 \<or> fst (vector_expand ok vec n) = -1"
  by (simp add: vector_expand_def Let_def)

lemma vector_expand_fail: "fst (vector_expand ok vec n) < 0 \<Longrightarrow> snd (vector_expand ok vec n) = vec"
  by (auto simp: vector_expand_def Let_def split: if_splits)

lemma vector_expand_True: "fst (vector_expand True vec n) = 0"
  by (simp add: vector_expand_def Let_def)

text \<open>The result of a store, on every branch.\<close>

lemma Vector_Set_spec:
  assumes "vec_inv vec" "Vector_Set ok vec i x = (res, vec')"
  shows "(res = 0 \<and> 0 \<le> i \<and> i \<le> vec_size vec \<and> vec_inv vec' \<and>
          vec_list vec' = (if i = vec_size vec then vec_list vec @ [x] else (vec_list vec)[nat i := x]))
       \<or> (res = -1 \<and> vec' = vec)"
proof (cases "i < 0 \<or> i > vec_size vec")
  case True
  with assms show ?thesis by (simp add: Vector_Set_def Vector_Size_def)
next
  case False
  obtain r v1 where e: "vector_expand ok vec (i + 1) = (r, v1)" by fastforce
  show ?thesis
  proof (cases "r = 0")
    case True
    note v1 = vector_expand_ok [OF assms(1) _ e [unfolded True]]
    from v1(5) False True obtain its where its: "items v1 = Some its" by fastforce
    have len: "i + 1 \<le> int (length its)" "vec_size v1 = vec_size vec" "vec_inv v1"
      using v1(1,2,3) its False by (auto simp: vec_inv_def)
    have vl: "vec_list vec = take (nat (vec_size vec)) its"
      using v1(3,4) its False by (simp add: vec_list_def)
    have "res = 0" and
      v': "vec' = v1\<lparr>items := Some (its[nat i := x]), vec_size := max (vec_size vec) (i + 1)\<rparr>"
      using assms(2) e True its False len
      by (auto simp: Vector_Set_def Vector_Size_def Let_def max_def)
    moreover have "vec_inv vec'"
      using len its False by (auto simp: v' vec_inv_def)
    moreover have "vec_list vec' =
      (if i = vec_size vec then vec_list vec @ [x] else (vec_list vec)[nat i := x])"
    proof (cases "i = vec_size vec")
      case True
      with len False have "nat (i + 1) = Suc (nat i)" "nat i < length its" by auto
      then have "vec_list vec' = take (nat (vec_size vec)) its @ [x]"
        using True by (simp add: v' vec_list_def max_def take_list_update_last)
      with True vl show ?thesis by simp
    next
      case False
      with \<open>\<not> (i < 0 \<or> i > vec_size vec)\<close> have "max (vec_size vec) (i + 1) = vec_size vec"
        by auto
      then have "vec_list vec' = (take (nat (vec_size vec)) its)[nat i := x]"
        by (simp add: v' vec_list_def take_update_swap)
      with False vl show ?thesis by simp
    qed
    ultimately show ?thesis using False by simp
  next
    case False
    with vector_expand_code [of ok vec "i + 1"] vector_expand_fail [of ok vec "i + 1"] e
    have "r < 0" "v1 = vec" by auto
    with assms(2) e \<open>\<not> (i < 0 \<or> i > vec_size vec)\<close> show ?thesis
      by (simp add: Vector_Set_def Vector_Size_def)
  qed
qed

lemma Vector_Set_True:
  assumes "0 \<le> i" "i \<le> vec_size vec"
  shows "fst (Vector_Set True vec i x) = 0"
  using assms vector_expand_True [of vec "i + 1"]
  by (auto simp: Vector_Set_def Vector_Size_def Let_def split: prod.splits)

definition vec_push :: "'a Vector \<Rightarrow> 'a option \<Rightarrow> 'a Vector" where
  "vec_push vec x = snd (Vector_Append True vec x)"

lemma vec_push_spec:
  assumes "vec_inv vec"
  shows "vec_inv (vec_push vec x)" "vec_list (vec_push vec x) = vec_list vec @ [x]"
    "vec_size (vec_push vec x) = vec_size vec + 1"
proof -
  obtain r v' where e: "Vector_Set True vec (vec_size vec) x = (r, v')" by fastforce
  have "r = 0"
    using Vector_Set_True [of "vec_size vec" vec x] e assms by (auto simp: vec_inv_def)
  with Vector_Set_spec [OF assms e] have *: "vec_inv v'" "vec_list v' = vec_list vec @ [x]" by auto
  then show "vec_inv (vec_push vec x)" "vec_list (vec_push vec x) = vec_list vec @ [x]"
    by (simp_all add: vec_push_def Vector_Append_def e)
  from * vec_size_eq [OF assms] vec_size_eq [of v']
  show "vec_size (vec_push vec x) = vec_size vec + 1"
    unfolding vec_push_def Vector_Append_def e by simp
qed

subsection \<open>What clients rely on\<close>

locale sequence =
  fixes empty :: 's
    and push :: "'s \<Rightarrow> 'x \<Rightarrow> 's"
    and get :: "'s \<Rightarrow> int \<Rightarrow> 'x option"
    and size_of :: "'s \<Rightarrow> int"
    and elems :: "'s \<Rightarrow> 'x list"
    and invar :: "'s \<Rightarrow> bool"
  assumes invar_empty: "invar empty"
    and elems_empty: "elems empty = []"
    and invar_push: "invar s \<Longrightarrow> invar (push s x)"
    and elems_push: "invar s \<Longrightarrow> elems (push s x) = elems s @ [x]"
    and size_elems: "invar s \<Longrightarrow> size_of s = int (length (elems s))"
    and get_elems: "invar s \<Longrightarrow> get s i =
      (if 0 \<le> i \<and> i < int (length (elems s)) then Some (elems s ! nat i) else None)"
begin

text \<open>The index of a pushed value is the size before the push, and older indices are stable.\<close>

lemma get_push:
  "invar s \<Longrightarrow> get (push s x) i = (if i = size_of s then Some x else get s i)"
  by (auto simp: get_elems elems_push invar_push size_elems nth_append)

lemma size_push: "invar s \<Longrightarrow> size_of (push s x) = size_of s + 1"
  by (simp add: size_elems invar_push elems_push)

lemma invar_foldl: "invar s \<Longrightarrow> invar (foldl push s xs)"
  by (induction xs arbitrary: s) (auto simp: invar_push)

lemma elems_foldl: "invar s \<Longrightarrow> elems (foldl push s xs) = elems s @ xs"
  by (induction xs arbitrary: s) (auto simp: invar_push elems_push)

lemma get_foldl_old:
  "invar s \<Longrightarrow> i < size_of s \<Longrightarrow> get (foldl push s xs) i = get s i"
  by (auto simp: get_elems invar_foldl elems_foldl size_elems nth_append)

lemma build: "elems (foldl push empty xs) = xs" "invar (foldl push empty xs)"
  by (simp_all add: elems_foldl invar_foldl invar_empty elems_empty)

end

text \<open>
  The vectors of the program that are read back by index hold no null pointers; on those
  \<open>Vector_Get\<close> answers null exactly outside the bounds.
\<close>

definition vec_vals :: "'a Vector \<Rightarrow> 'a list" where
  "vec_vals vec = map the (vec_list vec)"

definition vec_full :: "'a Vector \<Rightarrow> bool" where
  "vec_full vec \<longleftrightarrow> vec_inv vec \<and> None \<notin> set (vec_list vec)"

lemma vec_full_list: "vec_full vec \<Longrightarrow> vec_list vec = map Some (vec_vals vec)"
  unfolding vec_full_def vec_vals_def
  by (auto intro!: map_idI [symmetric]) (metis option.collapse)

interpretation vec: sequence Vector_Init "\<lambda>v x. vec_push v (Some x)" Vector_Get vec_size vec_vals vec_full
proof unfold_locales
  show "vec_full Vector_Init" by (simp add: vec_full_def vec_inv_Init)
  show "vec_vals Vector_Init = []" by (simp add: vec_vals_def)
next
  fix s :: "'a Vector" and x :: 'a and i :: int
  assume s: "vec_full s"
  then have inv: "vec_inv s" by (simp add: vec_full_def)
  show "vec_full (vec_push s (Some x))"
    using s vec_push_spec [OF inv] by (simp add: vec_full_def)
  show "vec_vals (vec_push s (Some x)) = vec_vals s @ [x]"
    using vec_push_spec [OF inv] by (simp add: vec_vals_def)
  show "vec_size s = int (length (vec_vals s))"
    using vec_size_eq [OF inv] by (simp add: vec_vals_def)
  show "Vector_Get s i =
      (if 0 \<le> i \<and> i < int (length (vec_vals s)) then Some (vec_vals s ! nat i) else None)"
    using Vector_Get_nth [OF inv, of i] vec_full_list [OF s] by (auto simp: nth_map)
qed

subsection \<open>Properties\<close>

lemma Vector_Set_code:
  assumes "vec_inv vec"
  shows "fst (Vector_Set ok vec i x) =
    (if 0 \<le> i \<and> i \<le> vec_size vec \<and> (ok \<or> i < capacity vec) then 0 else -1)"
  using assms
  by (auto simp: Vector_Set_def Vector_Size_def vector_expand_def Let_def vec_inv_def)

text \<open>
  \<open>Vector_Set\<close> on every branch. It succeeds exactly for an index from 0 up to the size, with
  room or a working allocator; then the element is replaced, or appended when the index is the
  size. On failure the vector is unchanged. The representation invariant is kept either way.
\<close>

theorem Vector_Set_correct:
  assumes "vec_inv vec"
  shows "case Vector_Set ok vec i x of (res, vec') \<Rightarrow>
     vec_inv vec' \<and>
     (if 0 \<le> i \<and> i \<le> vec_size vec \<and> (ok \<or> i < capacity vec)
      then res = 0 \<and> vec_list vec' =
        (if i = vec_size vec then vec_list vec @ [x] else (vec_list vec)[nat i := x])
      else res = -1 \<and> vec' = vec)"
proof -
  obtain res vec' where e: "Vector_Set ok vec i x = (res, vec')" by fastforce
  from Vector_Set_spec [OF assms e] Vector_Set_code [OF assms, of ok i x] assms e
  show ?thesis by (auto split: if_splits)
qed

definition sample_vec :: "int Vector" where
  "sample_vec = foldl (\<lambda>v n. snd (Vector_Append True v (Some n))) Vector_Init [10, 20, 30]"

lemma vec_inv_sample: "vec_inv sample_vec"
  by (simp add: sample_vec_def vec_push_def [symmetric] vec_push_spec vec_inv_Init)

theorem Vector_Set_correct_witness:
  "vec_list (snd (Vector_Set True sample_vec 3 (Some 40))) = map Some [10, 20, 30, 40]"
proof -
  have "vec_size sample_vec = 3" "vec_list sample_vec = map Some [10, 20, 30]"
    by code_simp+
  then show ?thesis
    using Vector_Set_correct [OF vec_inv_sample, where ok = True and i = 3 and x = "Some 40"]
    by (simp split: prod.splits)
qed

lemma concat_loop_spec:
  assumes "vec_inv dest" "\<forall>n. ok n"
  shows "vec_inv (concat_loop ok dest xs)" "vec_list (concat_loop ok dest xs) = vec_list dest @ xs"
  using assms
  by (induction xs arbitrary: dest) (simp_all add: vec_push_def [symmetric] vec_push_spec)

text \<open>
  With a working allocator \<open>Vector_Concat\<close> appends the items of the source in order, a null
  source standing for an empty one, and keeps the invariant of the destination.
\<close>

theorem Vector_Concat_correct:
  assumes "vec_inv dest" "\<forall>n. ok n"
  shows "vec_inv (Vector_Concat ok dest src) \<and>
    vec_list (Vector_Concat ok dest src) =
      vec_list dest @ (case src of None \<Rightarrow> [] | Some s \<Rightarrow> vec_list s)"
proof (cases src)
  case None
  with assms(1) show ?thesis by (simp add: Vector_Concat_def)
next
  case (Some v)
  with concat_loop_spec [OF assms, of "vec_list v"] show ?thesis
    unfolding Vector_Concat_def by (simp only: option.case)
qed

theorem Vector_Concat_correct_witness:
  "vec_list (Vector_Concat (\<lambda>_. True) sample_vec (Some sample_vec)) =
     map Some [10, 20, 30, 10, 20, 30]"
proof -
  have "vec_list sample_vec = map Some [10, 20, 30]" by code_simp
  then show ?thesis
    using Vector_Concat_correct [OF vec_inv_sample, of "\<lambda>_. True" "Some sample_vec"] by simp
qed

end
