(* ===== verification/Properties.thy ===== *)
theory Properties
  imports HashTable Vector
begin

text \<open>
  \<open>src/properties.c\<close>, \<open>include/properties.h\<close>: named lists of strings. An entry is hashed and
  compared by its key, so the table is one of the string tables of \<open>HashTable\<close>; the vector of an
  entry is found by the entry's address. The strings stored are atom strings, here the characters
  they point to.
\<close>

subsection \<open>Data and operations\<close>

record Properties =
  pr_table :: "string HashTable"
  pr_vecs :: "addr \<Rightarrow> string Vector"

definition Properties_Init :: Properties where
  "Properties_Init = \<lparr>pr_table = the (HashTable_Init True hash_string str_eq), pr_vecs = (\<lambda>_. Vector_Init)\<rparr>"

definition propentry_new :: "addr \<Rightarrow> string \<Rightarrow> string HashNode" where
  "propentry_new a key = Init_HashNode a (cstr key)"

text \<open>The address of the entry of a key.\<close>

definition find_entry :: "Properties \<Rightarrow> string \<Rightarrow> addr option" where
  "find_entry prop key = map_option hn_addr (HashTable_Find (pr_table prop) key)"

definition Properties_Put :: "addr \<Rightarrow> Properties \<Rightarrow> string \<Rightarrow> string \<Rightarrow> Properties" where
  "Properties_Put a prop key val = (
     let (entry, prop1) =
       (case find_entry prop key of
          Some e \<Rightarrow> (e, prop)
        | None \<Rightarrow>
            (case HashTable_Insert True (pr_table prop) (propentry_new a key) of
               (_, t, _) \<Rightarrow> (a, prop\<lparr>pr_table := t, pr_vecs := (pr_vecs prop)(a := Vector_Init)\<rparr>))) in
     prop1\<lparr>pr_vecs := (pr_vecs prop1)(entry := snd (Vector_Append True (pr_vecs prop1 entry) (Some (cstr val))))\<rparr>)"

definition Properties_Get :: "Properties \<Rightarrow> string \<Rightarrow> string Vector option" where
  "Properties_Get prop key = map_option (pr_vecs prop) (find_entry prop key)"

definition Properties_GetOne :: "Properties \<Rightarrow> string \<Rightarrow> string option" where
  "Properties_GetOne prop key = (case find_entry prop key of None \<Rightarrow> None
     | Some e \<Rightarrow> Vector_Get (pr_vecs prop e) 0)"

definition Properties_Fini :: "Properties \<Rightarrow> string HashNode list \<times> Properties" where
  "Properties_Fini prop = (case HashTable_Fini True (pr_table prop) of
     (visited, t) \<Rightarrow>
       (visited, prop\<lparr>pr_table := t,
          pr_vecs := fold (\<lambda>n vs. vs(hn_addr n := Vector_Init)) visited (pr_vecs prop)\<rparr>))"

subsection \<open>The multimap the properties implement\<close>

definition prop_inv :: "Properties \<Rightarrow> bool" where
  "prop_inv prop \<longleftrightarrow> ht_ok hash_string str_eq (\<lambda>_. True) (pr_table prop) \<and>
     (\<forall>n \<in> set (ht_head (pr_table prop)). vec_full (pr_vecs prop (hn_addr n)) \<and>
        vec_vals (pr_vecs prop (hn_addr n)) \<noteq> [])"

definition prop_addrs :: "Properties \<Rightarrow> addr set" where
  "prop_addrs prop = hn_addr ` set (ht_head (pr_table prop))"

text \<open>The values of a key, in the order they were put.\<close>

definition prop_values :: "Properties \<Rightarrow> string \<Rightarrow> string list" where
  "prop_values prop key = (case Properties_Get prop key of None \<Rightarrow> [] | Some v \<Rightarrow> vec_vals v)"

lemma prop_inv_Init [inv_intros]: "prop_inv Properties_Init"
  and prop_values_Init: "prop_values Properties_Init key = []"
  and prop_addrs_Init: "prop_addrs Properties_Init = {}"
proof -
  have t: "HashTable_Init True hash_string str_eq = Some (pr_table Properties_Init)"
    by (simp add: Properties_Init_def HashTable_Init_def new_entries_def)
  note g = string_keys.good_Init [OF t] and h = ht_Init_fields [OF t]
  from g h show "prop_inv Properties_Init" "prop_addrs Properties_Init = {}"
    by (simp_all add: prop_inv_def prop_addrs_def)
  have "HashTable_Find (pr_table Properties_Init) key = None"
    using h by (simp add: string_keys.Find_None_iff [OF g TrueI])
  then show "prop_values Properties_Init key = []"
    by (simp add: prop_values_def Properties_Get_def find_entry_def)
qed

lemma find_entry_Some:
  assumes "prop_inv prop"
  shows "find_entry prop key = Some e \<longleftrightarrow>
    (\<exists>n \<in> set (ht_head (pr_table prop)). hn_addr n = e \<and> str_eq (hn_key n) key)"
proof -
  have g: "ht_ok hash_string str_eq (\<lambda>_. True) (pr_table prop)" using assms by (simp add: prop_inv_def)
  show ?thesis
    by (auto simp: find_entry_def string_keys.Find_Some_iff [OF g TrueI])
qed

lemma same_entry:
  assumes "prop_inv prop" "find_entry prop k1 = Some e" "find_entry prop k2 = Some e"
  shows "str_eq k1 k2"
proof -
  obtain n m where "n \<in> set (ht_head (pr_table prop))" "m \<in> set (ht_head (pr_table prop))"
    "hn_addr n = hn_addr m" "str_eq (hn_key n) k1" "str_eq (hn_key m) k2"
    using assms(2,3) unfolding find_entry_Some [OF assms(1)] by auto
  moreover from this have "n = m"
    using assms(1) by (auto simp: prop_inv_def ht_ok_def ht_inv_def distinct_map inj_on_def)
  ultimately show ?thesis by (simp add: str_eq_def)
qed

text \<open>Pushing on the vector of an entry.\<close>

lemma push_entry:
  assumes "ht_ok hash_string str_eq (\<lambda>_. True) (pr_table prop)"
    and "\<forall>n \<in> set (ht_head (pr_table prop)). vec_full (pr_vecs prop (hn_addr n)) \<and>
        (hn_addr n \<noteq> e \<longrightarrow> vec_vals (pr_vecs prop (hn_addr n)) \<noteq> [])"
    and "find_entry prop key = Some e" "vec_full (pr_vecs prop e)"
    and "prop' = prop\<lparr>pr_vecs := (pr_vecs prop)(e := vec_push (pr_vecs prop e) (Some v))\<rparr>"
  shows "prop_inv prop'"
    "prop_values prop' k = (if str_eq key k then vec_vals (pr_vecs prop e) @ [v] else prop_values prop k)"
proof -
  show inv: "prop_inv prop'"
    using assms(1,2,4) vec.invar_push [OF assms(4)] vec.elems_push [OF assms(4)]
    by (auto simp: prop_inv_def assms(5))
  have f: "find_entry prop' k = find_entry prop k" for k by (simp add: assms(5) find_entry_def)
  have "find_entry prop k = Some e \<longleftrightarrow> str_eq key k"
  proof
    assume "find_entry prop k = Some e"
    with same_entry [OF inv, of key e k] assms(3) f show "str_eq key k" by simp
  next
    assume "str_eq key k"
    with assms(3) show "find_entry prop k = Some e"
      unfolding f [symmetric] find_entry_Some [OF inv] by (simp add: str_eq_def)
  qed
  then show "prop_values prop' k =
      (if str_eq key k then vec_vals (pr_vecs prop e) @ [v] else prop_values prop k)"
    using vec.elems_push [OF assms(4)] f
    by (auto simp: prop_values_def Properties_Get_def assms(5) split: option.split)
qed

lemma Properties_Put_spec:
  assumes "prop_inv prop" "a \<notin> prop_addrs prop"
  shows "prop_inv (Properties_Put a prop key v) \<and>
    prop_values (Properties_Put a prop key v) k =
      (if str_eq key k then prop_values prop key @ [cstr v] else prop_values prop k) \<and>
    prop_addrs (Properties_Put a prop key v) \<subseteq> insert a (prop_addrs prop)"
proof (cases "find_entry prop key")
  case (Some e)
  have full: "vec_full (pr_vecs prop e)"
    using Some assms(1) unfolding find_entry_Some [OF assms(1)] by (auto simp: prop_inv_def)
  have "Properties_Put a prop key v =
      prop\<lparr>pr_vecs := (pr_vecs prop)(e := vec_push (pr_vecs prop e) (Some (cstr v)))\<rparr>"
    using Some by (simp add: Properties_Put_def vec_push_def)
  from push_entry [OF _ _ Some full this] assms(1) Some this show ?thesis
    by (auto simp: prop_inv_def prop_values_def Properties_Get_def prop_addrs_def)
next
  case None
  let ?n = "propentry_new a key"
  obtain res t n' where ins: "HashTable_Insert True (pr_table prop) ?n = (res, t, n')" by (metis prod_cases3)
  have n: "hn_addr ?n = a" "\<not> hn_linked ?n" "hn_key ?n = cstr key"
    by (simp_all add: propentry_new_def Init_HashNode_def)
  have g: "ht_ok hash_string str_eq (\<lambda>_. True) (pr_table prop)" using assms(1) by (simp add: prop_inv_def)
  have fr: "hn_addr ?n \<notin> hn_addr ` set (ht_head (pr_table prop))" using assms(2) n by (simp add: prop_addrs_def)
  note spec = string_keys.Insert_spec [OF g n(2) TrueI fr ins]
  have "HashTable_Find (pr_table prop) (hn_key ?n) = None"
    using None n(3) unfolding find_entry_def
    by (simp add: string_keys.Find_None_iff [OF g TrueI]) (simp add: str_eq_def)
  with spec have r: "res = 0"
    "ht_head t = ht_head (pr_table prop) @ [?n\<lparr>hn_hash := hash_string (hn_key ?n), hn_linked := True\<rparr>]"
    by auto
  let ?p = "prop\<lparr>pr_table := t, pr_vecs := (pr_vecs prop)(a := Vector_Init)\<rparr>"
  have fe: "find_entry ?p k = (if str_eq key k then Some a else find_entry prop k)" for k
    using string_keys.Find_after_Insert [OF g n(2) TrueI fr ins [unfolded r(1)] TrueI, of k] n
    by (simp add: find_entry_def str_eq_def)
  then have f: "find_entry ?p key = Some a" by simp
  have old: "hn_addr m \<noteq> a" if "m \<in> set (ht_head (pr_table prop))" for m
    using that assms(2) by (auto simp: prop_addrs_def)
  have put: "Properties_Put a prop key v =
      ?p\<lparr>pr_vecs := (pr_vecs ?p)(a := vec_push (pr_vecs ?p a) (Some (cstr v)))\<rparr>"
    using None ins by (simp add: Properties_Put_def vec_push_def)
  have vf: "vec_full (pr_vecs ?p a)" by (simp add: vec.invar_empty)
  have ok: "\<forall>m \<in> set (ht_head (pr_table ?p)). vec_full (pr_vecs ?p (hn_addr m)) \<and>
        (hn_addr m \<noteq> a \<longrightarrow> vec_vals (pr_vecs ?p (hn_addr m)) \<noteq> [])"
    using assms(1) old n(1) by (auto simp: r(2) vec.invar_empty prop_inv_def)
  have ht: "ht_ok hash_string str_eq (\<lambda>_. True) (pr_table ?p)" using spec(1) by simp
  note p = push_entry(1) [OF ht ok f vf put] push_entry(2) [OF ht ok f vf put, of k]
  have "prop_values ?p k = prop_values prop k" if "\<not> str_eq key k"
    using that fe [of k] assms(2) find_entry_Some [OF assms(1), of k a]
    by (auto simp: prop_values_def Properties_Get_def prop_addrs_def split: option.split)
  moreover have "prop_values prop key = []" using None by (simp add: prop_values_def Properties_Get_def)
  moreover have "prop_addrs (Properties_Put a prop key v) \<subseteq> insert a (prop_addrs prop)"
    unfolding put using n(1) by (auto simp: prop_addrs_def r(2))
  ultimately show ?thesis using p by (auto simp: vec.elems_empty)
qed

lemma Properties_GetOne_values:
  assumes "prop_inv prop"
  shows "Properties_GetOne prop key = (case prop_values prop key of [] \<Rightarrow> None | v # _ \<Rightarrow> Some v)"
proof (cases "find_entry prop key")
  case None
  then show ?thesis by (simp add: Properties_GetOne_def prop_values_def Properties_Get_def)
next
  case (Some e)
  then have full: "vec_full (pr_vecs prop e)"
    using assms unfolding find_entry_Some [OF assms] by (auto simp: prop_inv_def)
  from Some show ?thesis
    unfolding Properties_GetOne_def prop_values_def Properties_Get_def
    by (simp add: vec.get_elems [OF full] split: list.split)
qed

subsection \<open>Properties\<close>

text \<open>
  The properties are a multimap in insertion order. Putting a value appends it to the values of
  its key and leaves every other key alone; reading one value answers the first that was put.
\<close>

theorem Properties_Put_appends:
  assumes "prop_inv prop" "a \<notin> prop_addrs prop"
  shows "prop_inv (Properties_Put a prop key v) \<and>
    (\<forall>k. prop_values (Properties_Put a prop key v) k =
      (if str_eq key k then prop_values prop key @ [cstr v] else prop_values prop k)) \<and>
    Properties_GetOne (Properties_Put a prop key v) key =
      Some (case prop_values prop key of [] \<Rightarrow> cstr v | first # _ \<Rightarrow> first)"
proof -
  note put = Properties_Put_spec [OF assms, of key v]
  with Properties_GetOne_values [of "Properties_Put a prop key v" key]
  show ?thesis by (auto split: list.split)
qed

theorem Properties_Put_appends_witness:
  "Properties_GetOne (Properties_Put 8 Properties_Init ''path'' ''/usr/lib'') ''path'' = Some ''/usr/lib''"
  using Properties_Put_appends [OF prop_inv_Init, of 8 "''path''" "''/usr/lib''"]
  by (simp add: prop_addrs_Init prop_values_Init)

end
