(* ===== verification/StringBuf.thy ===== *)
theory StringBuf
  imports Prelude
begin

text \<open>
  \<open>src/stringbuf.c\<close>, \<open>include/stringbuf.h\<close>: the growing text buffer that type descriptors and
  atom strings are formatted with. The buffer is modelled as the C code keeps it: the character
  array of \<open>size\<close> bytes, zeroed when allocated, and the length written so far.

  \<open>available\<close> answers the room left after the text, and the append functions give up when it is
  not positive; so a text that would fill the last byte before the terminator is dropped. The
  theorems say exactly when: \<open>keeps_text\<close>.
\<close>

subsection \<open>Data and operations\<close>

definition EXPAND_SIZE :: int where
  "EXPAND_SIZE = 32"

record StringBuf =
  sb_length :: int
  sb_size :: int
  sb_data :: "string option"

definition DeclareStringBuf :: StringBuf where
  "DeclareStringBuf = \<lparr>sb_length = 0, sb_size = 0, sb_data = None\<rparr>"

definition FiniStringBuf :: "StringBuf \<Rightarrow> StringBuf" where
  "FiniStringBuf buf = \<lparr>sb_length = 0, sb_size = 0, sb_data = None\<rparr>"

function grow_size :: "int \<Rightarrow> int \<Rightarrow> int" where
  "grow_size newsize bufsize =
     (if newsize > bufsize then grow_size newsize (bufsize + EXPAND_SIZE) else bufsize)"
  by pat_completeness auto
termination by (relation "measure (\<lambda>(newsize, bufsize). nat (newsize - bufsize))") (auto simp: EXPAND_SIZE_def)

declare grow_size.simps [simp del]

text \<open>\<open>strcpy\<close> into a fresh array and \<open>strcat\<close> behind the text an array holds.\<close>

definition strcpy_into :: "string \<Rightarrow> string \<Rightarrow> string" where
  "strcpy_into d s = cstr s @ NUL # drop (length (cstr s) + 1) d"

definition strcat_into :: "string \<Rightarrow> string \<Rightarrow> string" where
  "strcat_into d s = cstr d @ cstr s @ NUL # drop (length (cstr d) + length (cstr s) + 1) d"

text \<open>\<open>ok n\<close> says whether \<open>Malloc(n)\<close> succeeds.\<close>

definition expand :: "(int \<Rightarrow> bool) \<Rightarrow> StringBuf \<Rightarrow> int \<Rightarrow> int \<times> StringBuf" where
  "expand ok buf mn = (
     let newsize = sb_length buf + mn + 1;
         bufsize = grow_size newsize (sb_size buf) in
     if \<not> ok bufsize then (-1, buf)
     else
       let data = replicate (nat bufsize) NUL;
           data1 = (case sb_data buf of None \<Rightarrow> data | Some old \<Rightarrow> strcpy_into data old) in
       (0, buf\<lparr>sb_data := Some data1, sb_size := bufsize\<rparr>))"

definition available :: "(int \<Rightarrow> bool) \<Rightarrow> StringBuf \<Rightarrow> int \<Rightarrow> int \<times> StringBuf" where
  "available ok buf mn = (
     let left = sb_size buf - sb_length buf - 1 in
     if left < mn then
       (case expand ok buf mn of (result, buf1) \<Rightarrow>
          if result \<noteq> 0 then (-1, buf1) else (sb_size buf1 - sb_length buf1 - 1 - mn, buf1))
     else (sb_size buf - sb_length buf - 1 - mn, buf))"

definition AtomString_Length :: "string option \<Rightarrow> int" where
  "AtomString_Length s = (case s of None \<Rightarrow> 0 | Some str \<Rightarrow> strlen str)"

definition StringBuf_Append :: "(int \<Rightarrow> bool) \<Rightarrow> StringBuf \<Rightarrow> string option \<Rightarrow> StringBuf" where
  "StringBuf_Append ok buf s = (
     let len = AtomString_Length s in
     if len \<le> 0 then buf
     else
       case available ok buf len of (room, buf1) \<Rightarrow>
         if room \<le> 0 then buf1
         else buf1\<lparr>sb_data := map_option (\<lambda>d. strcat_into d (the s)) (sb_data buf1),
                   sb_length := sb_length buf1 + len\<rparr>)"

definition StringBuf_Append_CStr :: "(int \<Rightarrow> bool) \<Rightarrow> StringBuf \<Rightarrow> string option \<Rightarrow> StringBuf" where
  "StringBuf_Append_CStr ok buf s = StringBuf_Append ok buf s"

definition StringBuf_Append_Char :: "(int \<Rightarrow> bool) \<Rightarrow> StringBuf \<Rightarrow> char \<Rightarrow> StringBuf" where
  "StringBuf_Append_Char ok buf ch = (
     case available ok buf 1 of (room, buf1) \<Rightarrow>
       if room \<le> 0 then buf1
       else buf1\<lparr>sb_data := map_option (\<lambda>d. d[nat (sb_length buf1) := ch]) (sb_data buf1),
                 sb_length := sb_length buf1 + 1\<rparr>)"

text \<open>
  The loop over the format. A missing argument is undefined behaviour of \<open>va_arg\<close>: the value is
  \<open>None\<close>. Arguments not used are ignored.
\<close>

fun StringBuf_Format ::
  "(int \<Rightarrow> bool) \<Rightarrow> StringBuf \<Rightarrow> string \<Rightarrow> string option list \<Rightarrow> StringBuf option" where
  "StringBuf_Format ok buf [] args = Some buf"
| "StringBuf_Format ok buf (ch # fmt) args =
     (if ch = NUL then Some buf
      else if ch = CHR ''#'' then
        (case args of [] \<Rightarrow> None
         | s # rest \<Rightarrow> StringBuf_Format ok (StringBuf_Append ok buf s) fmt rest)
      else StringBuf_Format ok (StringBuf_Append_Char ok buf ch) fmt args)"

subsection \<open>Invariant\<close>

definition sb_text :: "StringBuf \<Rightarrow> string" where
  "sb_text buf = (case sb_data buf of None \<Rightarrow> [] | Some d \<Rightarrow> cstr d)"

definition sb_inv :: "StringBuf \<Rightarrow> bool" where
  "sb_inv buf \<longleftrightarrow> EXPAND_SIZE dvd sb_size buf \<and>
     (case sb_data buf of None \<Rightarrow> sb_length buf = 0 \<and> sb_size buf = 0
      | Some d \<Rightarrow> int (length d) = sb_size buf \<and> sb_length buf < sb_size buf \<and>
          sb_length buf = int (length (cstr d)) \<and>
          d = cstr d @ replicate (length d - length (cstr d)) NUL)"

lemma sb_inv_Declare [inv_intros]: "sb_inv DeclareStringBuf"
  by (simp add: sb_inv_def DeclareStringBuf_def)

lemma sb_text_Declare [simp]: "sb_text DeclareStringBuf = []" "sb_size DeclareStringBuf = 0"
  by (simp_all add: sb_text_def DeclareStringBuf_def)

lemma sb_length_text: "sb_inv buf \<Longrightarrow> sb_length buf = int (length (sb_text buf))"
  by (auto simp: sb_inv_def sb_text_def split: option.splits)

lemma no_nul_text [simp]: "no_nul (sb_text buf)"
  by (auto simp: sb_text_def split: option.splits)

text \<open>A buffer whose array is the text and zeros behind it.\<close>

lemma cstr_padded: "no_nul t \<Longrightarrow> cstr (t @ replicate k NUL) = t"
  by (simp add: cstr_append)

lemma sb_inv_padded:
  assumes "no_nul t" "int (length t) < newsize" "EXPAND_SIZE dvd newsize"
  shows "sb_inv \<lparr>sb_length = int (length t), sb_size = newsize,
      sb_data = Some (t @ replicate (nat newsize - length t) NUL)\<rparr>"
  using assms by (simp add: sb_inv_def cstr_padded)

lemma sb_inv_Some:
  assumes "sb_inv buf" "sb_data buf = Some d"
  shows "d = sb_text buf @ replicate (nat (sb_size buf) - length (sb_text buf)) NUL"
      "length (sb_text buf) < nat (sb_size buf)" "length d = nat (sb_size buf)"
proof -
  have i: "int (length d) = sb_size buf" "sb_length buf < sb_size buf"
    "sb_length buf = int (length (cstr d))" "d = cstr d @ replicate (length d - length (cstr d)) NUL"
    using assms by (auto simp: sb_inv_def)
  then have "nat (sb_size buf) = length d" by linarith
  with i show "d = sb_text buf @ replicate (nat (sb_size buf) - length (sb_text buf)) NUL"
    "length (sb_text buf) < nat (sb_size buf)" "length d = nat (sb_size buf)"
    by (simp_all add: sb_text_def assms(2))
qed

lemma grow_size_spec:
  "EXPAND_SIZE dvd bufsize \<Longrightarrow>
   grow_size newsize bufsize \<ge> newsize \<and> grow_size newsize bufsize \<ge> bufsize \<and>
   EXPAND_SIZE dvd grow_size newsize bufsize \<and>
   (grow_size newsize bufsize < newsize + EXPAND_SIZE \<or> grow_size newsize bufsize = bufsize)"
proof (induction newsize bufsize rule: grow_size.induct)
  case (1 newsize bufsize)
  show ?case
  proof (cases "newsize > bufsize")
    case True
    from 1 True have IH: "grow_size newsize (bufsize + EXPAND_SIZE) \<ge> newsize \<and>
        grow_size newsize (bufsize + EXPAND_SIZE) \<ge> bufsize + EXPAND_SIZE \<and>
        EXPAND_SIZE dvd grow_size newsize (bufsize + EXPAND_SIZE) \<and>
        (grow_size newsize (bufsize + EXPAND_SIZE) < newsize + EXPAND_SIZE \<or>
         grow_size newsize (bufsize + EXPAND_SIZE) = bufsize + EXPAND_SIZE)"
      by simp
    moreover have "grow_size newsize bufsize = grow_size newsize (bufsize + EXPAND_SIZE)"
      using True by (subst grow_size.simps) simp
    moreover have "EXPAND_SIZE > 0" by (simp add: EXPAND_SIZE_def)
    ultimately show ?thesis using True by (elim conjE disjE) simp_all
  next
    case False
    then have "grow_size newsize bufsize = bufsize" by (subst grow_size.simps) simp
    with False 1(2) show ?thesis by simp
  qed
qed

text \<open>What \<open>available\<close> leaves: the same text, an array, and the room it reports.\<close>

lemma available_ok:
  assumes "sb_inv buf" "\<forall>n. ok n" "0 < mn" "available ok buf mn = (room, buf1)"
  shows "sb_inv buf1" "sb_text buf1 = sb_text buf" "sb_data buf1 \<noteq> None"
    "room = sb_size buf1 - int (length (sb_text buf)) - 1 - mn"
    "0 \<le> room" "room = 0 \<longleftrightarrow> EXPAND_SIZE dvd int (length (sb_text buf)) + mn + 1 \<and>
      sb_size buf \<le> int (length (sb_text buf)) + mn + 1"
proof -
  have len: "sb_length buf = int (length (sb_text buf))" by (rule sb_length_text [OF assms(1)])
  have dvd: "EXPAND_SIZE dvd sb_size buf" using assms(1) by (simp add: sb_inv_def)
  let ?need = "int (length (sb_text buf)) + mn + 1"
  have *: "sb_inv buf1 \<and> sb_text buf1 = sb_text buf \<and> sb_data buf1 \<noteq> None \<and>
    room = sb_size buf1 - ?need \<and> 0 \<le> room \<and> (room < EXPAND_SIZE \<or> sb_size buf1 = sb_size buf) \<and>
    sb_size buf \<le> sb_size buf1"
  proof (cases "sb_size buf - sb_length buf - 1 < mn")
    case True
    let ?n = "grow_size ?need (sb_size buf)"
    have g: "?n \<ge> ?need" "?n \<ge> sb_size buf" "EXPAND_SIZE dvd ?n"
      "?n < ?need + EXPAND_SIZE \<or> ?n = sb_size buf"
      using grow_size_spec [OF dvd, of ?need] by auto
    have nn: "length (sb_text buf) < nat ?n" using g(1) assms(3) by linarith
    have data: "(case sb_data buf of None \<Rightarrow> replicate (nat ?n) NUL
        | Some old \<Rightarrow> strcpy_into (replicate (nat ?n) NUL) old)
      = sb_text buf @ replicate (nat ?n - length (sb_text buf)) NUL"
    proof (cases "sb_data buf")
      case None
      then show ?thesis by (simp add: sb_text_def)
    next
      case (Some d)
      then have "cstr d = sb_text buf" by (simp add: sb_text_def)
      moreover have "nat ?n - length (sb_text buf) = Suc (nat ?n - (length (sb_text buf) + 1))"
        using nn by simp
      ultimately show ?thesis using Some by (simp add: strcpy_into_def del: replicate_Suc add: replicate_Suc [symmetric])
    qed
    let ?b = "\<lparr>sb_length = int (length (sb_text buf)), sb_size = ?n,
        sb_data = Some (sb_text buf @ replicate (nat ?n - length (sb_text buf)) NUL)\<rparr>"
    have "buf1 = ?b \<and> room = ?n - ?need"
      using assms(2,4) True data len
      by (cases buf) (auto simp: available_def expand_def Let_def split: option.splits)
    moreover have "sb_inv ?b" using g(1,3) assms(3) by (intro sb_inv_padded) auto
    moreover have "sb_text ?b = sb_text buf" by (simp add: sb_text_def cstr_padded del: no_nul_text add: no_nul_text [unfolded sb_text_def])
    ultimately show ?thesis using g by auto
  next
    case False
    then have "buf1 = buf" "room = sb_size buf - ?need"
      using assms(4) len by (auto simp: available_def Let_def)
    moreover have "sb_data buf \<noteq> None"
      using False assms(1,3) by (auto simp: sb_inv_def split: option.splits)
    ultimately show ?thesis using False assms(1) len by simp
  qed
  then show "sb_inv buf1" "sb_text buf1 = sb_text buf" "sb_data buf1 \<noteq> None"
    "room = sb_size buf1 - int (length (sb_text buf)) - 1 - mn" "0 \<le> room" by auto
  have d1: "EXPAND_SIZE dvd sb_size buf1" using * by (simp add: sb_inv_def)
  show "room = 0 \<longleftrightarrow> EXPAND_SIZE dvd ?need \<and> sb_size buf \<le> ?need"
  proof
    assume "room = 0"
    with * d1 show "EXPAND_SIZE dvd ?need \<and> sb_size buf \<le> ?need" by simp
  next
    assume a: "EXPAND_SIZE dvd ?need \<and> sb_size buf \<le> ?need"
    have "EXPAND_SIZE dvd room" using * a d1 by simp
    then have "room < EXPAND_SIZE \<Longrightarrow> room = 0" using * zdvd_imp_le [of EXPAND_SIZE room] by linarith
    with * a show "room = 0" by linarith
  qed
qed

subsection \<open>What the append operations do to the text\<close>

text \<open>
  Text of \<open>n\<close> characters is kept unless it would fill the array to the last byte before the
  terminator.
\<close>

definition keeps_text :: "StringBuf \<Rightarrow> int \<Rightarrow> bool" where
  "keeps_text buf n \<longleftrightarrow>
     \<not> (EXPAND_SIZE dvd int (length (sb_text buf)) + n + 1 \<and>
        sb_size buf \<le> int (length (sb_text buf)) + n + 1)"

lemma sb_padded_update:
  assumes "sb_inv buf" "sb_data buf = Some d" "no_nul s"
    and "int (length (sb_text buf)) + int (length s) + 1 < sb_size buf"
    and "d' = sb_text buf @ s @ replicate (nat (sb_size buf) - length (sb_text buf @ s)) NUL"
    and "buf' = buf\<lparr>sb_data := Some d', sb_length := sb_length buf + int (length s)\<rparr>"
  shows "sb_inv buf' \<and> sb_text buf' = sb_text buf @ s"
proof -
  let ?t = "sb_text buf @ s"
  have nn: "no_nul ?t" using assms(3) by simp
  have b: "buf' = \<lparr>sb_length = int (length ?t), sb_size = sb_size buf,
      sb_data = Some (?t @ replicate (nat (sb_size buf) - length ?t) NUL)\<rparr>"
    using assms(5,6) sb_length_text [OF assms(1)] by (cases buf) simp
  have "sb_inv buf'"
    unfolding b by (rule sb_inv_padded [OF nn]) (use assms(1,4) in \<open>simp_all add: sb_inv_def\<close>)
  moreover have "sb_text buf' = ?t" unfolding b using cstr_padded [OF nn] by (simp add: sb_text_def)
  ultimately show ?thesis by simp
qed

lemma StringBuf_Append_spec:
  assumes "sb_inv buf" "\<forall>n. ok n"
  shows "sb_inv (StringBuf_Append ok buf s) \<and>
    sb_text (StringBuf_Append ok buf s) =
      (case s of None \<Rightarrow> sb_text buf
       | Some str \<Rightarrow> if keeps_text buf (strlen str) then sb_text buf @ cstr str else sb_text buf)"
proof (cases "AtomString_Length s \<le> 0")
  case True
  then show ?thesis
    using assms(1) by (auto simp: StringBuf_Append_def AtomString_Length_def strlen_def split: option.splits)
next
  case False
  then obtain str where s: "s = Some str" "strlen str > 0"
    by (auto simp: AtomString_Length_def split: option.splits)
  obtain room buf1 where av: "available ok buf (strlen str) = (room, buf1)" by fastforce
  note a = available_ok [OF assms s(2) av]
  show ?thesis
  proof (cases "room \<le> 0")
    case True
    then have "StringBuf_Append ok buf s = buf1" "\<not> keeps_text buf (strlen str)"
      using a s av by (auto simp: StringBuf_Append_def AtomString_Length_def keeps_text_def)
    with a s show ?thesis by simp
  next
    case False
    from a(3) obtain d where d: "sb_data buf1 = Some d" by auto
    note dd = sb_inv_Some [OF a(1) d]
    let ?d = "strcat_into d str"
    have r: "StringBuf_Append ok buf s =
        buf1\<lparr>sb_data := Some ?d, sb_length := sb_length buf1 + int (length (cstr str))\<rparr>"
      using False s av d by (simp add: StringBuf_Append_def AtomString_Length_def strlen_def)
    have lt: "int (length (sb_text buf1)) + int (length (cstr str)) + 1 < sb_size buf1"
      using False a(2,4) by (simp add: strlen_def)
    have "cstr d = sb_text buf1" using d by (simp add: sb_text_def)
    moreover have "NUL # drop (length (sb_text buf1) + length (cstr str) + 1) d =
        replicate (nat (sb_size buf1) - length (sb_text buf1 @ cstr str)) NUL"
    proof -
      have "drop (length (sb_text buf1) + length (cstr str) + 1) d =
          replicate (nat (sb_size buf1) - length (sb_text buf1) - (length (cstr str) + 1)) NUL"
        using dd(1) by (simp add: drop_append)
      moreover have "nat (sb_size buf1) - length (sb_text buf1 @ cstr str) =
          Suc (nat (sb_size buf1) - length (sb_text buf1) - (length (cstr str) + 1))"
        using lt by simp
      ultimately show ?thesis by simp
    qed
    ultimately have "?d = sb_text buf1 @ cstr str @
        replicate (nat (sb_size buf1) - length (sb_text buf1 @ cstr str)) NUL"
      by (simp add: strcat_into_def)
    from sb_padded_update [OF a(1) d no_nul_cstr lt this r]
    have "sb_inv (StringBuf_Append ok buf s) \<and>
        sb_text (StringBuf_Append ok buf s) = sb_text buf1 @ cstr str" .
    moreover have "keeps_text buf (strlen str)" using False a(5,6) by (auto simp: keeps_text_def)
    ultimately show ?thesis using a(2) s by simp
  qed
qed

lemma StringBuf_Append_Char_spec:
  assumes "sb_inv buf" "\<forall>n. ok n" "ch \<noteq> NUL"
  shows "sb_inv (StringBuf_Append_Char ok buf ch) \<and>
    sb_text (StringBuf_Append_Char ok buf ch) =
      (if keeps_text buf 1 then sb_text buf @ [ch] else sb_text buf)"
proof -
  obtain room buf1 where av: "available ok buf 1 = (room, buf1)" by fastforce
  note a = available_ok [OF assms(1,2) _ av, simplified]
  show ?thesis
  proof (cases "room \<le> 0")
    case True
    then have "StringBuf_Append_Char ok buf ch = buf1" "\<not> keeps_text buf 1"
      using a av by (auto simp: StringBuf_Append_Char_def keeps_text_def)
    with a show ?thesis by simp
  next
    case False
    from a(3) obtain d where d: "sb_data buf1 = Some d" by auto
    note dd = sb_inv_Some [OF a(1) d]
    let ?n = "nat (sb_size buf1) - length (sb_text buf1)"
    have lt: "int (length (sb_text buf1)) + int (length [ch]) + 1 < sb_size buf1"
      using False a(2,4) by simp
    have n: "nat (sb_length buf1) = length (sb_text buf1)" using sb_length_text [OF a(1)] by simp
    have r: "StringBuf_Append_Char ok buf ch =
        buf1\<lparr>sb_data := Some (d[length (sb_text buf1) := ch]), sb_length := sb_length buf1 + int (length [ch])\<rparr>"
      using False av d n by (simp add: StringBuf_Append_Char_def)
    have "?n = Suc (nat (sb_size buf1) - length (sb_text buf1 @ [ch]))" using lt by simp
    then have "d[length (sb_text buf1) := ch] = sb_text buf1 @ [ch] @
        replicate (nat (sb_size buf1) - length (sb_text buf1 @ [ch])) NUL"
      by (subst dd(1)) (simp add: list_update_append)
    from sb_padded_update [OF a(1) d _ lt this r] assms(3)
    have "sb_inv (StringBuf_Append_Char ok buf ch) \<and>
        sb_text (StringBuf_Append_Char ok buf ch) = sb_text buf1 @ [ch]" by simp
    moreover have "keeps_text buf 1" using False a(5,6) by (auto simp: keeps_text_def)
    ultimately show ?thesis using a(2) by simp
  qed
qed

subsection \<open>Formatting\<close>

text \<open>What a format means: literal characters, and the arguments in place of the \<open>#\<close>.\<close>

fun format_text :: "string \<Rightarrow> string option list \<Rightarrow> string option" where
  "format_text [] args = Some []"
| "format_text (ch # fmt) args =
     (if ch = NUL then Some []
      else if ch = CHR ''#'' then
        (case args of [] \<Rightarrow> None
         | s # rest \<Rightarrow> map_option ((@) (case s of None \<Rightarrow> [] | Some str \<Rightarrow> cstr str)) (format_text fmt rest))
      else map_option ((#) ch) (format_text fmt args))"

lemma keeps_text_short:
  assumes "int (length (sb_text buf)) + n + 1 < EXPAND_SIZE" "0 \<le> n"
  shows "keeps_text buf n"
  using assms zdvd_imp_le [of EXPAND_SIZE "int (length (sb_text buf)) + n + 1"]
  by (auto simp: keeps_text_def)

lemma StringBuf_Format_spec:
  assumes "sb_inv buf" "\<forall>n. ok n" "format_text fmt args = Some t"
    and "int (length (sb_text buf @ t)) + 1 < EXPAND_SIZE"
  shows "\<exists>buf'. StringBuf_Format ok buf fmt args = Some buf' \<and> sb_inv buf' \<and> sb_text buf' = sb_text buf @ t"
  using assms(1,3,4)
proof (induction fmt arbitrary: buf args t)
  case Nil
  then show ?case by simp
next
  case (Cons ch fmt)
  consider "ch = NUL" | "ch = CHR ''#''" | "ch \<noteq> NUL" "ch \<noteq> CHR ''#''" by blast
  then show ?case
  proof cases
    case 1
    with Cons.prems show ?thesis by simp
  next
    case 2
    with Cons.prems(2) obtain s rest u where u: "args = s # rest" "format_text fmt rest = Some u"
      "t = (case s of None \<Rightarrow> [] | Some str \<Rightarrow> cstr str) @ u"
      by (cases args) auto
    let ?b = "StringBuf_Append ok buf s"
    have "sb_inv ?b" "sb_text ?b = sb_text buf @ (case s of None \<Rightarrow> [] | Some str \<Rightarrow> cstr str)"
      using StringBuf_Append_spec [OF Cons.prems(1) assms(2), of s] u Cons.prems(3)
        keeps_text_short [of buf] by (auto simp: strlen_def split: option.splits)
    with Cons.IH [of ?b rest u] u Cons.prems(3) 2 show ?thesis by auto
  next
    case 3
    with Cons.prems(2) obtain u where u: "format_text fmt args = Some u" "t = ch # u" by auto
    let ?b = "StringBuf_Append_Char ok buf ch"
    have "sb_inv ?b" "sb_text ?b = sb_text buf @ [ch]"
      using StringBuf_Append_Char_spec [OF Cons.prems(1) assms(2) 3(1)] u Cons.prems(3)
        keeps_text_short [of buf 1] by auto
    with Cons.IH [of ?b args u] u Cons.prems(3) 3 show ?thesis by auto
  qed
qed

subsection \<open>Properties\<close>

text \<open>
  Appending a string to a text buffer, on every branch. The invariant is kept; the text grows
  by exactly the string, except that a string which fills the array to its last byte before the
  terminator (the length with the terminator is a multiple of 32 that the array does not exceed)
  is silently dropped.
\<close>

theorem StringBuf_Append_exact:
  assumes "sb_inv buf" "\<forall>n. ok n"
  shows "sb_inv (StringBuf_Append ok buf (Some str)) \<and>
    sb_text (StringBuf_Append ok buf (Some str)) =
      (if EXPAND_SIZE dvd int (length (sb_text buf @ cstr str)) + 1 \<and>
          sb_size buf \<le> int (length (sb_text buf @ cstr str)) + 1
       then sb_text buf else sb_text buf @ cstr str)"
  using StringBuf_Append_spec [OF assms, of "Some str"]
  by (simp add: keeps_text_def strlen_def)

text \<open>The witness is the loss: 31 characters do not enter a fresh buffer.\<close>

theorem StringBuf_Append_exact_witness:
  "sb_text (StringBuf_Append (\<lambda>_. True) DeclareStringBuf (Some (replicate 31 CHR ''x''))) = []"
proof -
  have "no_nul (replicate 31 CHR ''x'')" by (simp add: no_nul_def)
  then show ?thesis
    using StringBuf_Append_exact [OF sb_inv_Declare, of "\<lambda>_. True" "replicate 31 CHR ''x''"]
    by (simp add: EXPAND_SIZE_def)
qed

text \<open>
  Formatting into a fresh buffer gives the expanded format as long as it has at most 30
  characters, whatever its pieces are.
\<close>

theorem StringBuf_Format_short:
  assumes "\<forall>n. ok n" "format_text fmt args = Some t" "length t \<le> 30"
  shows "map_option sb_text (StringBuf_Format ok DeclareStringBuf fmt args) = Some t"
  using StringBuf_Format_spec [OF sb_inv_Declare assms(1,2)] assms(3)
  by (auto simp: EXPAND_SIZE_def)

theorem StringBuf_Format_short_witness:
  "map_option sb_text (StringBuf_Format (\<lambda>_. True) DeclareStringBuf ''L#.#;'' [Some ''lang'', Some ''String''])
     = Some ''Llang.String;''"
  by (rule StringBuf_Format_short) simp_all

end
