(* ===== verification/TypeDesc.thy ===== *)
theory TypeDesc
  imports StringBuf
begin

text \<open>
  \<open>src/typedesc.c\<close>, \<open>include/typedesc.h\<close>: type descriptors. A descriptor is the tree the C structs
  form; a null vector of types and an empty one are not told apart by any function of the file
  (each reads a vector through \<open>Vector_Size\<close>), so both are the empty list.

  Every descriptor carries a text, written into a \<open>StringBuf\<close>, by which it is interned: \<open>td_desc\<close>
  is that text as the code produces it, with what the text buffer drops, and \<open>descriptor\<close> is the
  text the grammar in \<open>typedesc.h\<close> announces. The table of the interned descriptors is a map from
  texts to descriptors. Reference counts are not modelled.
\<close>

subsection \<open>Data\<close>

datatype TypeDesc =
    TD_Base char
  | TD_Klass "string option" string
  | TD_Proto "TypeDesc list" "TypeDesc list"
  | TD_Array int TypeDesc
  | TD_Map TypeDesc TypeDesc
  | TD_Set TypeDesc
  | TD_Varg TypeDesc

definition TYPE_BASE :: int where "TYPE_BASE = 1"
definition TYPE_KLASS :: int where "TYPE_KLASS = 2"
definition TYPE_PROTO :: int where "TYPE_PROTO = 3"
definition TYPE_ARRAY :: int where "TYPE_ARRAY = 4"
definition TYPE_MAP :: int where "TYPE_MAP = 5"
definition TYPE_SET :: int where "TYPE_SET = 6"
definition TYPE_VARG :: int where "TYPE_VARG = 7"

lemmas type_kinds = TYPE_BASE_def TYPE_KLASS_def TYPE_PROTO_def TYPE_ARRAY_def TYPE_MAP_def
  TYPE_SET_def TYPE_VARG_def

fun td_kind :: "TypeDesc \<Rightarrow> int" where
  "td_kind (TD_Base c) = TYPE_BASE"
| "td_kind (TD_Klass p t) = TYPE_KLASS"
| "td_kind (TD_Proto as rs) = TYPE_PROTO"
| "td_kind (TD_Array n b) = TYPE_ARRAY"
| "td_kind (TD_Map k v) = TYPE_MAP"
| "td_kind (TD_Set b) = TYPE_SET"
| "td_kind (TD_Varg b) = TYPE_VARG"

text \<open>\<open>basic_types\<close>: kind, readable name, package path and type name.\<close>

definition basic_types :: "(char \<times> string \<times> string \<times> string) list" where
  "basic_types =
     [(CHR ''b'', ''byte'', ''lang'', ''Byte''),
      (CHR ''c'', ''char'', ''lang'', ''Char''),
      (CHR ''i'', ''int'', ''lang'', ''Integer''),
      (CHR ''f'', ''float'', ''lang'', ''Float''),
      (CHR ''z'', ''bool'', ''lang'', ''Bool''),
      (CHR ''s'', ''string'', ''lang'', ''String''),
      (CHR ''e'', ''error'', ''lang'', ''Error''),
      (CHR ''A'', ''any'', ''lang'', ''Any'')]"

definition get_basic :: "char \<Rightarrow> (char \<times> string \<times> string \<times> string) option" where
  "get_basic kind = find (\<lambda>p. kind = fst p) basic_types"

definition BASE_ANY :: char where "BASE_ANY = CHR ''A''"

definition TypeDesc_Get_Base :: "char \<Rightarrow> TypeDesc run" where
  "TypeDesc_Get_Base base = (case get_basic base of None \<Rightarrow> Inl Null_Deref | Some p \<Rightarrow> Inr (TD_Base (fst p)))"

subsection \<open>The texts the constructors write\<close>

abbreviation mem_ok :: "int \<Rightarrow> bool" where "mem_ok \<equiv> \<lambda>_. True"

abbreviation formatted :: "string \<Rightarrow> string option list \<Rightarrow> string" where
  "formatted fmt args \<equiv> sb_text (the (StringBuf_Format mem_ok DeclareStringBuf fmt args))"

definition klass_text :: "string option \<Rightarrow> string \<Rightarrow> string" where
  "klass_text path type = formatted ''L#.#;'' [path, Some type]"

definition proto_text :: "string option \<Rightarrow> string option \<Rightarrow> string" where
  "proto_text sArg sRet = formatted ''P#:#;'' [sArg, sRet]"

fun brackets :: "nat \<Rightarrow> StringBuf \<Rightarrow> StringBuf" where
  "brackets 0 buf = buf"
| "brackets (Suc n) buf = brackets n (StringBuf_Append_Char mem_ok buf CHR ''['')"

definition array_text :: "int \<Rightarrow> string \<Rightarrow> string" where
  "array_text dims base =
     sb_text (StringBuf_Append mem_ok (brackets (nat dims) DeclareStringBuf) (Some base))"

definition map_text :: "string \<Rightarrow> string \<Rightarrow> string" where
  "map_text key val = formatted ''M#:#'' [Some key, Some val]"

definition set_text :: "string \<Rightarrow> string" where
  "set_text base = formatted ''S#'' [Some base]"

definition varg_text :: "string \<Rightarrow> string" where
  "varg_text base = formatted ''...#'' [Some base]"

definition list_text :: "string list \<Rightarrow> string option" where
  "list_text descs = (if descs = [] then None
     else Some (sb_text (foldl (\<lambda>buf d. StringBuf_Append mem_ok buf (Some d)) DeclareStringBuf descs)))"

text \<open>\<open>desc->desc\<close> of each kind of descriptor.\<close>

fun td_desc :: "TypeDesc \<Rightarrow> string" where
  "td_desc (TD_Base c) = [c]"
| "td_desc (TD_Klass path type) = klass_text path type"
| "td_desc (TD_Proto arg ret) = proto_text (list_text (map td_desc arg)) (list_text (map td_desc ret))"
| "td_desc (TD_Array dims base) = array_text dims (td_desc base)"
| "td_desc (TD_Map key val) = map_text (td_desc key) (td_desc val)"
| "td_desc (TD_Set base) = set_text (td_desc base)"
| "td_desc (TD_Varg base) = varg_text (td_desc base)"

definition TypeList_ToString :: "TypeDesc list \<Rightarrow> string option" where
  "TypeList_ToString vec = list_text (map td_desc vec)"

text \<open>\<open>TypeDesc_Equal\<close>; null descriptors are \<open>None\<close>. Interning makes equal texts equal pointers.\<close>

definition TypeDesc_Equal :: "TypeDesc option \<Rightarrow> TypeDesc option \<Rightarrow> bool" where
  "TypeDesc_Equal desc1 desc2 = (case (desc1, desc2) of
     (Some d1, Some d2) \<Rightarrow>
       if d1 = d2 then True
       else if td_kind d1 \<noteq> td_kind d2 then False
       else if d1 = TD_Base BASE_ANY \<or> d2 = TD_Base BASE_ANY then True
       else str_eq (td_desc d1) (td_desc d2)
   | _ \<Rightarrow> False)"

subsection \<open>Readable names\<close>

fun join_names :: "string list \<Rightarrow> string" where
  "join_names [] = []"
| "join_names [x] = x"
| "join_names (x # y # ys) = x @ '', '' @ join_names (y # ys)"

fun TypeDesc_ToString :: "TypeDesc \<Rightarrow> string" where
  "TypeDesc_ToString (TD_Base c) = (case get_basic c of None \<Rightarrow> [] | Some p \<Rightarrow> fst (snd p))"
| "TypeDesc_ToString (TD_Klass path type) =
     (if AtomString_Length path > 0 then the path @ ''.'' @ type else type)"
| "TypeDesc_ToString (TD_Proto arg ret) =
     ''func('' @ join_names (map TypeDesc_ToString arg) @ '') '' @
     (if length ret > 1 then ''('' else []) @ join_names (map TypeDesc_ToString ret) @
     (if length ret > 1 then '')'' else [])"
| "TypeDesc_ToString (TD_Array dims base) =
     ''[]'' @ concat (replicate (nat (dims - 1)) ''[]'') @ TypeDesc_ToString base"
| "TypeDesc_ToString (TD_Map key val) = ''map['' @ TypeDesc_ToString key @ '']'' @ TypeDesc_ToString val"
| "TypeDesc_ToString (TD_Set base) = ''set['' @ TypeDesc_ToString base @ '']''"
| "TypeDesc_ToString (TD_Varg base) = ''...'' @ TypeDesc_ToString base"

definition ProtoVec_ToString :: "TypeDesc list \<Rightarrow> string" where
  "ProtoVec_ToString vec = join_names (map TypeDesc_ToString vec)"

subsection \<open>Interning\<close>

type_synonym DescTable = "string \<rightharpoonup> TypeDesc"

definition FindTypeDesc :: "DescTable \<Rightarrow> string \<Rightarrow> TypeDesc option" where
  "FindTypeDesc tbl desc = tbl desc"

text \<open>The search, and the new descriptor put under its text: what the constructors share.\<close>

definition intern :: "string \<Rightarrow> TypeDesc \<Rightarrow> DescTable \<Rightarrow> TypeDesc \<times> DescTable" where
  "intern desc new tbl = (case FindTypeDesc tbl desc of
     Some exist \<Rightarrow> (exist, tbl)
   | None \<Rightarrow> (new, tbl(desc \<mapsto> new)))"

definition Init_TypeDesc :: DescTable where
  "Init_TypeDesc = foldl (\<lambda>tbl p. tbl([fst p] \<mapsto> TD_Base (fst p))) (\<lambda>_. None) basic_types"

definition TypeDesc_Get_Klass :: "string option \<Rightarrow> string \<Rightarrow> DescTable \<Rightarrow> TypeDesc \<times> DescTable" where
  "TypeDesc_Get_Klass path type tbl = intern (klass_text path type) (TD_Klass path type) tbl"

definition TypeDesc_Get_Proto :: "TypeDesc list \<Rightarrow> TypeDesc list \<Rightarrow> DescTable \<Rightarrow> TypeDesc \<times> DescTable" where
  "TypeDesc_Get_Proto arg ret tbl =
     intern (proto_text (TypeList_ToString arg) (TypeList_ToString ret)) (TD_Proto arg ret) tbl"

definition TypeDesc_Get_Array :: "int \<Rightarrow> TypeDesc \<Rightarrow> DescTable \<Rightarrow> TypeDesc \<times> DescTable" where
  "TypeDesc_Get_Array dims base tbl = intern (array_text dims (td_desc base)) (TD_Array dims base) tbl"

definition TypeDesc_Get_Map :: "TypeDesc \<Rightarrow> TypeDesc \<Rightarrow> DescTable \<Rightarrow> TypeDesc \<times> DescTable" where
  "TypeDesc_Get_Map key val tbl = intern (map_text (td_desc key) (td_desc val)) (TD_Map key val) tbl"

definition TypeDesc_Get_Set :: "TypeDesc \<Rightarrow> DescTable \<Rightarrow> TypeDesc \<times> DescTable" where
  "TypeDesc_Get_Set base tbl = intern (set_text (td_desc base)) (TD_Set base) tbl"

definition TypeDesc_Get_Varg :: "TypeDesc option \<Rightarrow> DescTable \<Rightarrow> TypeDesc \<times> DescTable" where
  "TypeDesc_Get_Varg base tbl = (
     let b = (case base of None \<Rightarrow> TD_Base BASE_ANY | Some d \<Rightarrow> d) in
     intern (varg_text (td_desc b)) (TD_Varg b) tbl)"

text \<open>Every descriptor is in the table under its own text.\<close>

definition desc_ok :: "DescTable \<Rightarrow> bool" where
  "desc_ok tbl \<longleftrightarrow> (\<forall>s d. tbl s = Some d \<longrightarrow> td_desc d = s)"

lemma intern_ok:
  assumes "desc_ok tbl" "td_desc new = s"
  shows "td_desc (fst (intern s new tbl)) = s \<and> desc_ok (snd (intern s new tbl)) \<and>
    snd (intern s new tbl) s = Some (fst (intern s new tbl)) \<and> tbl \<subseteq>\<^sub>m snd (intern s new tbl)"
  using assms
  by (auto simp: intern_def FindTypeDesc_def desc_ok_def map_le_def split: option.splits)

lemma desc_ok_bases:
  "desc_ok tbl \<Longrightarrow> desc_ok (foldl (\<lambda>tbl p. tbl([fst p] \<mapsto> TD_Base (fst p))) tbl ps)"
proof (induction ps arbitrary: tbl)
  case Nil
  then show ?case by simp
next
  case (Cons p ps)
  have "desc_ok (tbl([fst p] \<mapsto> TD_Base (fst p)))" using Cons.prems by (simp add: desc_ok_def)
  from Cons.IH [OF this] show ?case by (simp only: foldl_Cons)
qed

lemma desc_ok_Init [inv_intros]: "desc_ok Init_TypeDesc"
  unfolding Init_TypeDesc_def by (rule desc_ok_bases) (simp add: desc_ok_def)

text \<open>Each constructor answers a descriptor with the text asked for.\<close>

lemma Get_specs:
  assumes "desc_ok tbl"
  shows "td_desc (fst (TypeDesc_Get_Klass p t tbl)) = klass_text p t \<and> desc_ok (snd (TypeDesc_Get_Klass p t tbl))"
    and "td_desc (fst (TypeDesc_Get_Proto as rs tbl)) = td_desc (TD_Proto as rs) \<and>
      desc_ok (snd (TypeDesc_Get_Proto as rs tbl))"
    and "td_desc (fst (TypeDesc_Get_Array n b tbl)) = array_text n (td_desc b) \<and>
      desc_ok (snd (TypeDesc_Get_Array n b tbl))"
    and "td_desc (fst (TypeDesc_Get_Map b d tbl)) = map_text (td_desc b) (td_desc d) \<and>
      desc_ok (snd (TypeDesc_Get_Map b d tbl))"
    and "td_desc (fst (TypeDesc_Get_Set b tbl)) = set_text (td_desc b) \<and> desc_ok (snd (TypeDesc_Get_Set b tbl))"
    and "td_desc (fst (TypeDesc_Get_Varg (Some b) tbl)) = varg_text (td_desc b) \<and>
      desc_ok (snd (TypeDesc_Get_Varg (Some b) tbl))"
  by (simp_all add: intern_ok [OF assms] TypeDesc_Get_Klass_def TypeDesc_Get_Proto_def TypeDesc_Get_Array_def
      TypeDesc_Get_Map_def TypeDesc_Get_Set_def TypeDesc_Get_Varg_def TypeList_ToString_def)

subsection \<open>Parsing\<close>

text \<open>
  \<open>string_to_klass\<close>: the search for the dot runs to the end of the string, not to the semicolon.
  When there is no dot before the semicolon the lengths computed are not lengths (a null pointer
  is subtracted, or the difference is negative), and the copy leaves the string.
\<close>

definition string_to_klass :: "DescTable \<Rightarrow> string \<Rightarrow> nat \<Rightarrow> (TypeDesc \<times> DescTable) run" where
  "string_to_klass tbl s len = (
     let dot = length (takeWhile (\<lambda>c. c \<noteq> CHR ''.'') s) in
     if dot \<ge> length s then Inl Out_Of_Bounds
     else if dot \<ge> len then Inl Out_Of_Bounds
     else
       let path = take dot s; type = take (len - dot - 1) (drop (dot + 1) s) in
       Inr (TypeDesc_Get_Klass (Some path) type tbl))"

definition char_at :: "string \<Rightarrow> nat \<Rightarrow> char" where
  "char_at s i = (if i < length s then s ! i else NUL)"

text \<open>
  The recursion, with the rest of the string and the table threaded through. The fuel bounds the
  depth of the recursion; \<open>parse_fuel\<close> shows that twice the length of the string is enough.
  \<open>parse_until\<close> is the loop over the types of a prototype, up to the character \<open>stop\<close>.
\<close>

fun String_To_TypeDesc ::
    "nat \<Rightarrow> DescTable \<Rightarrow> string \<Rightarrow> int \<Rightarrow> int \<Rightarrow> (TypeDesc \<times> string \<times> DescTable) run"
  and parse_until :: "nat \<Rightarrow> DescTable \<Rightarrow> string \<Rightarrow> char \<Rightarrow> (TypeDesc list \<times> string \<times> DescTable) run" where
  "String_To_TypeDesc 0 tbl s dims varg = Inl Stack_Overflow"
| "String_To_TypeDesc (Suc n) tbl s dims varg = (
     let ch = char_at s 0 in
     if ch = CHR ''L'' then
       (let k = drop 1 s; len = length (takeWhile (\<lambda>c. c \<noteq> CHR '';'') k) in
        if len \<ge> length k then Inl Out_Of_Bounds
        else bind_run (string_to_klass tbl k len) (\<lambda>(desc, tbl1). Inr (desc, drop (len + 1) k, tbl1)))
     else if ch = CHR ''['' then
       (if \<not> (dims = 0 \<and> varg = 0) then Inl Assert_Failed
        else
          let d = length (takeWhile (\<lambda>c. c = CHR ''['') s) in
          bind_run (String_To_TypeDesc n tbl (drop d s) (int d) 0) (\<lambda>(base, s1, tbl1).
            let r = TypeDesc_Get_Array (int d) base tbl1 in Inr (fst r, s1, snd r)))
     else if ch = CHR ''M'' then
       bind_run (String_To_TypeDesc n tbl (drop 1 s) 0 0) (\<lambda>(key, s1, tbl1).
       bind_run (String_To_TypeDesc n tbl1 s1 0 0) (\<lambda>(val, s2, tbl2).
         let r = TypeDesc_Get_Map key val tbl2 in Inr (fst r, s2, snd r)))
     else if ch = CHR ''S'' then
       bind_run (String_To_TypeDesc n tbl (drop 1 s) 0 0) (\<lambda>(base, s1, tbl1).
         let r = TypeDesc_Get_Set base tbl1 in Inr (fst r, s1, snd r))
     else if ch = CHR ''P'' then
       bind_run (parse_until n tbl (drop 1 s) CHR '':'') (\<lambda>(args, s1, tbl1).
       bind_run (parse_until n tbl1 (drop 1 s1) CHR '';'') (\<lambda>(rets, s2, tbl2).
         let r = TypeDesc_Get_Proto args rets tbl2 in Inr (fst r, drop 1 s2, snd r)))
     else if ch = CHR ''.'' then
       (if \<not> (dims = 0 \<and> varg = 0) then Inl Assert_Failed
        else if \<not> (char_at s 1 = CHR ''.'' \<and> char_at s 2 = CHR ''.'') then Inl Assert_Failed
        else if char_at s 3 = CHR ''A'' then
          (let r = TypeDesc_Get_Varg (Some (TD_Base BASE_ANY)) tbl in Inr (fst r, drop 4 s, snd r))
        else
          bind_run (String_To_TypeDesc n tbl (drop 3 s) 0 1) (\<lambda>(base, s1, tbl1).
            let r = TypeDesc_Get_Varg (Some base) tbl1 in Inr (fst r, s1, snd r)))
     else
       (case get_basic ch of
          None \<Rightarrow> Inl Assert_Failed
        | Some p \<Rightarrow> if dims > 0 \<and> varg > 0 then Inl Assert_Failed
            else Inr (TD_Base (fst p), drop 1 s, tbl)))"
| "parse_until 0 tbl s stop = Inl Stack_Overflow"
| "parse_until (Suc n) tbl s stop =
     (if char_at s 0 = stop then Inr ([], s, tbl)
      else
        bind_run (String_To_TypeDesc n tbl s 0 0) (\<lambda>(base, s1, tbl1).
        bind_run (parse_until n tbl1 s1 stop) (\<lambda>(rest, s2, tbl2). Inr (base # rest, s2, tbl2))))"

fun parse_all :: "nat \<Rightarrow> DescTable \<Rightarrow> string \<Rightarrow> (TypeDesc list \<times> DescTable) run" where
  "parse_all 0 tbl s = Inl Stack_Overflow"
| "parse_all (Suc n) tbl s =
     (if char_at s 0 = NUL then Inr ([], tbl)
      else
        bind_run (String_To_TypeDesc (Suc n) tbl s 0 0) (\<lambda>(desc, s1, tbl1).
        bind_run (parse_all n tbl1 s1) (\<lambda>(rest, tbl2). Inr (desc # rest, tbl2))))"

definition String_ToTypeList :: "DescTable \<Rightarrow> string option \<Rightarrow> (TypeDesc list \<times> DescTable) run option" where
  "String_ToTypeList tbl s = (case s of None \<Rightarrow> None
     | Some str \<Rightarrow> Some (parse_all (2 * length (cstr str) + 2) tbl (cstr str)))"

subsection \<open>The parser ends\<close>

lemma char_at_nonempty: "char_at s i \<noteq> NUL \<Longrightarrow> i < length s"
  by (simp add: char_at_def split: if_splits)

lemma get_basic_NUL: "get_basic NUL = None"
  by (simp add: get_basic_def basic_types_def)

lemma String_To_TypeDesc_base:
  assumes "get_basic ch = Some p" "char_at s 0 = ch"
  shows "String_To_TypeDesc (Suc n) tbl s dims varg =
    (if dims > 0 \<and> varg > 0 then Inl Assert_Failed else Inr (TD_Base ch, drop 1 s, tbl))"
proof -
  have "ch \<in> {CHR ''b'', CHR ''c'', CHR ''i'', CHR ''f'', CHR ''z'', CHR ''s'', CHR ''e'', CHR ''A''} \<and> fst p = ch"
    using assms(1) by (auto simp: get_basic_def basic_types_def split: if_splits)
  with assms show ?thesis by (elim conjE insertE emptyE) (simp_all add: Let_def)
qed

lemma parse_shorter_aux:
  "(\<forall>tbl s dims varg d s' tbl'. String_To_TypeDesc n tbl s dims varg = Inr (d, s', tbl') \<longrightarrow> length s' < length s) \<and>
   (\<forall>tbl s stop ds s' tbl'. parse_until n tbl s stop = Inr (ds, s', tbl') \<longrightarrow> length s' \<le> length s)"
proof (induction n)
  case 0
  then show ?case by simp
next
  case (Suc n)
  then have S: "\<And>tbl s dims varg d s' tbl'. String_To_TypeDesc n tbl s dims varg = Inr (d, s', tbl') \<Longrightarrow> length s' < length s"
    and U: "\<And>tbl s stop ds s' tbl'. parse_until n tbl s stop = Inr (ds, s', tbl') \<Longrightarrow> length s' \<le> length s"
    by blast+
  have "length s' \<le> length s" if "parse_until (Suc n) tbl s stop = Inr (ds, s', tbl')" for tbl s stop ds s' tbl'
    using that by (auto split: if_splits dest!: S U)
  moreover have "length s' < length s" if p: "String_To_TypeDesc (Suc n) tbl s dims varg = Inr (d, s', tbl')"
    for tbl s dims varg d s' tbl'
  proof -
    from p have "char_at s 0 \<noteq> NUL" by (auto simp: get_basic_NUL)
    then obtain c cs where s: "s = c # cs" by (cases s) (auto simp: char_at_def)
    then have "char_at s 0 = c" by (simp add: char_at_def)
    with p s show ?thesis
      unfolding String_To_TypeDesc.simps(2) Let_def
      by (auto split: if_splits option.splits dest!: S U)
  qed
  ultimately show ?case by blast
qed
lemma parse_fuel_aux:
  "(\<forall>tbl s dims varg. 2 * length s + 1 \<le> n \<longrightarrow> String_To_TypeDesc n tbl s dims varg \<noteq> Inl Stack_Overflow) \<and>
   (\<forall>tbl s stop. 2 * length s + 2 \<le> n \<longrightarrow> parse_until n tbl s stop \<noteq> Inl Stack_Overflow)"
proof (induction n)
  case 0
  then show ?case by simp
next
  case (Suc n)
  then have S: "\<And>tbl s dims varg. 2 * length s + 1 \<le> n \<Longrightarrow> String_To_TypeDesc n tbl s dims varg \<noteq> Inl Stack_Overflow"
    and U: "\<And>tbl s stop. 2 * length s + 2 \<le> n \<Longrightarrow> parse_until n tbl s stop \<noteq> Inl Stack_Overflow"
    by blast+
  have bindI: "bind_run m f \<noteq> Inl Stack_Overflow"
    if "m \<noteq> Inl Stack_Overflow" "\<And>x. m = Inr x \<Longrightarrow> f x \<noteq> Inl Stack_Overflow"
    for m :: "'x run" and f :: "'x \<Rightarrow> 'y run" using that by (cases m) auto
  have bind: "bind_run m f = Inl Stack_Overflow \<longleftrightarrow> m = Inl Stack_Overflow \<or> (\<exists>x. m = Inr x \<and> f x = Inl Stack_Overflow)"
    for m :: "'x run" and f :: "'x \<Rightarrow> 'y run" by (cases m) auto
  note sh = parse_shorter_aux [THEN conjunct1, rule_format, of n] parse_shorter_aux [THEN conjunct2, rule_format, of n]
  have "parse_until (Suc n) tbl s stop \<noteq> Inl Stack_Overflow" if p: "2 * length s + 2 \<le> Suc n" for tbl s stop
  proof -
    have "parse_until n t x stop \<noteq> Inl Stack_Overflow" if "length x < length s" for t x
      by (rule U) (use p that in auto)
    then show ?thesis
      using S [of s tbl 0 0] p by (auto simp: bind dest: sh(1))
  qed
  moreover have "String_To_TypeDesc (Suc n) tbl s dims varg \<noteq> Inl Stack_Overflow" if p: "2 * length s + 1 \<le> Suc n"
    for tbl s dims varg
  proof (cases s)
    case Nil
    then show ?thesis by (simp add: char_at_def get_basic_NUL)
  next
    case (Cons c cs)
    have ss: "\<And>k tbl dims varg. String_To_TypeDesc n tbl (drop k cs) dims varg \<noteq> Inl Stack_Overflow"
      by (rule S) (use p Cons in auto)
    have uu: "\<And>tbl stop. parse_until n tbl cs stop \<noteq> Inl Stack_Overflow"
      by (rule U) (use p Cons in auto)
    have s2: "String_To_TypeDesc n t x 0 0 \<noteq> Inl Stack_Overflow" if "length x < length cs" for t x
      by (rule S) (use p Cons that in auto)
    have u2: "parse_until n t (drop 1 x) st \<noteq> Inl Stack_Overflow" if "length x \<le> length cs" for t x st
      by (rule U) (use p Cons that in auto)
    have c: "char_at s 0 = c" using Cons by (simp add: char_at_def)
    consider "c = CHR ''L''" | "c = CHR ''[''" | "c = CHR ''M''" | "c = CHR ''S''" | "c = CHR ''P''" | "c = CHR ''.''"
      | "c \<noteq> CHR ''L''" "c \<noteq> CHR ''[''" "c \<noteq> CHR ''M''" "c \<noteq> CHR ''S''" "c \<noteq> CHR ''P''" "c \<noteq> CHR ''.''" by blast
    then show ?thesis
    proof cases
      case 1
      with c show ?thesis by (auto simp: Let_def string_to_klass_def intro!: bindI split: prod.splits)
    next
      case 2
      with c Cons ss [of tbl "length (takeWhile (\<lambda>c. c = CHR ''['') cs)"] show ?thesis
        by (auto simp: Let_def bind)
    next
      case 3
      with c Cons show ?thesis using ss [of _ 0] by (auto simp: Let_def bind s2 dest: sh(1))
    next
      case 4
      with c Cons show ?thesis using ss [of _ 0] by (auto simp: Let_def bind)
    next
      case 5
      with c Cons show ?thesis using u2 by (auto simp: Let_def bind uu dest!: sh(2))
    next
      case 6
      with c Cons show ?thesis using ss [of _ 2] by (auto simp: Let_def bind)
    next
      case 7
      with c show ?thesis by (auto simp: Let_def split: option.split)
    qed
  qed
  ultimately show ?case by blast
qed

lemma parse_fuel:
  "2 * length s + 1 \<le> n \<Longrightarrow> String_To_TypeDesc n tbl s dims varg \<noteq> Inl Stack_Overflow"
  using parse_fuel_aux [of n] by blast

lemma parse_result:
  assumes "2 * length s + 1 \<le> n"
  shows "case String_To_TypeDesc n tbl s dims varg of
     Inl e \<Rightarrow> e \<noteq> Stack_Overflow
   | Inr (d, rest, tbl') \<Rightarrow> length rest < length s"
proof (cases "String_To_TypeDesc n tbl s dims varg")
  case (Inl e)
  with parse_fuel [OF assms, of tbl dims varg] show ?thesis by simp
next
  case (Inr r)
  obtain d rest tbl' where "r = (d, rest, tbl')" by (metis prod_cases3)
  with Inr parse_shorter_aux [THEN conjunct1, rule_format, of n tbl s dims varg d rest tbl']
  show ?thesis by simp
qed

lemma parse_map:
  "String_To_TypeDesc (Suc n) tbl (CHR ''M'' # s) dims varg =
     bind_run (String_To_TypeDesc n tbl s 0 0) (\<lambda>(key, s1, tbl1).
     bind_run (String_To_TypeDesc n tbl1 s1 0 0) (\<lambda>(val, s2, tbl2).
       let r = TypeDesc_Get_Map key val tbl2 in Inr (fst r, s2, snd r)))"
  by (simp add: char_at_def Let_def)

lemma parse_colon: "String_To_TypeDesc (Suc n) tbl (CHR '':'' # s) dims varg = Inl Assert_Failed"
  by (simp add: char_at_def get_basic_def basic_types_def)

subsection \<open>The announced grammar\<close>

text \<open>The text of a descriptor as the comment in \<open>typedesc.h\<close> gives it.\<close>

fun descriptor :: "TypeDesc \<Rightarrow> string" where
  "descriptor (TD_Base c) = [c]"
| "descriptor (TD_Klass path type) = ''L'' @ (case path of None \<Rightarrow> [] | Some p \<Rightarrow> p) @ ''.'' @ type @ '';''"
| "descriptor (TD_Proto arg ret) =
     ''P'' @ concat (map descriptor arg) @ '':'' @ concat (map descriptor ret) @ '';''"
| "descriptor (TD_Array dims base) = replicate (nat dims) CHR ''['' @ descriptor base"
| "descriptor (TD_Map key val) = ''M'' @ descriptor key @ descriptor val"
| "descriptor (TD_Set base) = ''S'' @ descriptor base"
| "descriptor (TD_Varg base) = ''...'' @ descriptor base"

definition nested_base :: "TypeDesc \<Rightarrow> bool" where
  "nested_base d \<longleftrightarrow> (case d of TD_Array _ _ \<Rightarrow> False | TD_Varg _ \<Rightarrow> False | _ \<Rightarrow> True)"

text \<open>
  The descriptors the parser is meant for: known base types, names without the separators, no
  array or varg directly under an array or varg, and no maps.
\<close>

fun parsable :: "TypeDesc \<Rightarrow> bool" where
  "parsable (TD_Base c) = (get_basic c \<noteq> None)"
| "parsable (TD_Klass path type) =
     ((case path of None \<Rightarrow> True | Some p \<Rightarrow> no_nul p \<and> CHR ''.'' \<notin> set p \<and> CHR '';'' \<notin> set p) \<and>
      no_nul type \<and> CHR '';'' \<notin> set type)"
| "parsable (TD_Proto arg ret) = (list_all parsable arg \<and> list_all parsable ret)"
| "parsable (TD_Array dims base) = (dims \<ge> 1 \<and> nested_base base \<and> parsable base)"
| "parsable (TD_Map key val) = False"
| "parsable (TD_Set base) = parsable base"
| "parsable (TD_Varg base) = (nested_base base \<and> parsable base)"

lemma parsable_base:
  "parsable (TD_Base c) \<longleftrightarrow> c \<in> {CHR ''b'', CHR ''c'', CHR ''i'', CHR ''f'', CHR ''z'', CHR ''s'', CHR ''e'', CHR ''A''}"
  by (auto simp: get_basic_def basic_types_def)

lemma no_nul_descriptor: "parsable d \<Longrightarrow> no_nul (descriptor d)"
  by (induction d) (auto simp: parsable_base no_nul_def list_all_iff simp del: parsable.simps(1) split: option.splits)

lemma descriptor_head:
  "parsable d \<Longrightarrow> \<exists>c cs. descriptor d = c # cs \<and> c \<noteq> CHR '':'' \<and> c \<noteq> CHR '';'' \<and> c \<noteq> NUL \<and>
     (nested_base d \<longrightarrow> c \<noteq> CHR ''['' \<and> c \<noteq> CHR ''.'') \<and> (c = CHR ''A'' \<longrightarrow> d = TD_Base CHR ''A'')"
proof (cases d)
  case (TD_Array n b)
  assume "parsable d"
  then obtain k where "nat n = Suc k" using TD_Array by (cases "nat n") auto
  then show ?thesis using TD_Array by (auto simp: nested_base_def)
qed (auto simp: nested_base_def parsable_base simp del: parsable.simps(1))

text \<open>Short descriptors are written without loss.\<close>

lemma formatted_short:
  assumes "format_text fmt args = Some t" "length t \<le> 30"
  shows "formatted fmt args = t"
  using StringBuf_Format_spec [OF sb_inv_Declare _ assms(1), of mem_ok] assms(2)
  by (auto simp: EXPAND_SIZE_def)

lemma append_short:
  assumes "sb_inv buf" "no_nul t" "length (sb_text buf @ t) \<le> 30"
  shows "sb_inv (StringBuf_Append mem_ok buf (Some t)) \<and> sb_text (StringBuf_Append mem_ok buf (Some t)) = sb_text buf @ t"
  using StringBuf_Append_spec [OF assms(1), of mem_ok "Some t"] assms(2,3) keeps_text_short [of buf "strlen t"]
  by (auto simp: strlen_def EXPAND_SIZE_def)

lemma appends_short:
  assumes "sb_inv buf" "\<forall>t \<in> set ts. no_nul t" "length (sb_text buf @ concat ts) \<le> 30"
  shows "sb_inv (foldl (\<lambda>buf d. StringBuf_Append mem_ok buf (Some d)) buf ts) \<and>
    sb_text (foldl (\<lambda>buf d. StringBuf_Append mem_ok buf (Some d)) buf ts) = sb_text buf @ concat ts"
  using assms
proof (induction ts arbitrary: buf)
  case Nil
  then show ?case by simp
next
  case (Cons t ts)
  with append_short [of buf t] show ?case by auto
qed

lemma list_text_short:
  "\<forall>t \<in> set ts. no_nul t \<Longrightarrow> length (concat ts) \<le> 30 \<Longrightarrow>
   list_text ts = (if ts = [] then None else Some (concat ts))"
  using appends_short [OF sb_inv_Declare, of ts] by (simp add: list_text_def)

lemma brackets_short:
  "sb_inv buf \<Longrightarrow> length (sb_text buf) + n \<le> 30 \<Longrightarrow>
   sb_inv (brackets n buf) \<and> sb_text (brackets n buf) = sb_text buf @ replicate n CHR ''[''"
proof (induction n arbitrary: buf)
  case 0
  then show ?case by simp
next
  case (Suc n)
  have "sb_inv (StringBuf_Append_Char mem_ok buf CHR ''['') \<and>
      sb_text (StringBuf_Append_Char mem_ok buf CHR ''['') = sb_text buf @ ''[''"
    using StringBuf_Append_Char_spec [OF Suc.prems(1), of mem_ok "CHR ''[''"] keeps_text_short [of buf 1] Suc.prems(2)
    by (auto simp: EXPAND_SIZE_def)
  with Suc show ?case by (auto simp: replicate_append_same)
qed

lemma td_desc_short:
  assumes "parsable d" "length (descriptor d) \<le> 30"
  shows "td_desc d = descriptor d"
  using assms
proof (induction d)
  case (TD_Klass p t)
  then show ?case
    unfolding td_desc.simps klass_text_def by (intro formatted_short) (auto split: option.splits)
next
  case (TD_Proto as rs)
  have l: "length (descriptor d) \<le> length (concat (map descriptor ds))" if "d \<in> set ds" for d ds
    using that by (induction ds) auto
  have M: "map td_desc ds = map descriptor ds" if "ds = as \<or> ds = rs" for ds
    using that TD_Proto l [of _ ds] by (fastforce simp: list_all_iff)
  have T: "list_text (map descriptor ds) = (if ds = [] then None else Some (concat (map descriptor ds)))"
    if "ds = as \<or> ds = rs" for ds
    using that TD_Proto.prems list_text_short [of "map descriptor ds"]
    by (auto simp: list_all_iff no_nul_descriptor)
  have N: "no_nul (concat (map descriptor ds))" if "ds = as \<or> ds = rs" for ds
    using that TD_Proto.prems no_nul_descriptor by (fastforce simp: list_all_iff no_nul_def)
  have "proto_text (list_text (map descriptor as)) (list_text (map descriptor rs)) = descriptor (TD_Proto as rs)"
    unfolding proto_text_def
    by (intro formatted_short) (use TD_Proto.prems(2) T [of as] T [of rs] N [of as] N [of rs] in auto)
  then show ?case using M [of as] M [of rs] by (simp only: td_desc.simps simp_thms)
next
  case (TD_Array n b)
  then have b: "td_desc b = descriptor b" "no_nul (descriptor b)" by (auto simp: no_nul_descriptor)
  have "sb_inv (brackets (nat n) DeclareStringBuf) \<and>
      sb_text (brackets (nat n) DeclareStringBuf) = replicate (nat n) CHR ''[''"
    using brackets_short [OF sb_inv_Declare, of "nat n"] TD_Array.prems(2) by simp
  with append_short [of "brackets (nat n) DeclareStringBuf" "descriptor b"] b TD_Array.prems(2)
  show ?case by (simp add: array_text_def)
next
  case (TD_Set b)
  then show ?case
    unfolding td_desc.simps set_text_def by (intro formatted_short) (auto simp: no_nul_descriptor)
next
  case (TD_Varg b)
  then show ?case
    unfolding td_desc.simps varg_text_def by (intro formatted_short) (auto simp: no_nul_descriptor)
qed auto

lemma take_while_stop:
  "stop \<notin> set xs \<Longrightarrow> length (takeWhile (\<lambda>c. c \<noteq> stop) (xs @ stop # ys)) = length xs"
  by (induction xs) auto

lemma takeWhile_brackets:
  "c \<noteq> b \<Longrightarrow> takeWhile (\<lambda>x. x = b) (replicate n b @ c # ys) = replicate n b"
  by (induction n) auto

definition parses :: "TypeDesc \<Rightarrow> bool" where
  "parses d \<longleftrightarrow> (\<forall>n tbl rest dims varg. desc_ok tbl \<longrightarrow> 2 * length (descriptor d @ rest) + 1 \<le> n \<longrightarrow>
     (dims = 0 \<and> varg = 0 \<or> \<not> (dims > 0 \<and> varg > (0::int)) \<and> nested_base d) \<longrightarrow>
     (\<exists>d' tbl'. String_To_TypeDesc n tbl (descriptor d @ rest) dims varg = Inr (d', rest, tbl') \<and>
        td_desc d' = descriptor d \<and> desc_ok tbl'))"

lemma parsesD:
  assumes "parses d" "desc_ok tbl" "2 * length (descriptor d @ rest) + 1 \<le> n"
    "dims = 0 \<and> varg = 0 \<or> \<not> (dims > 0 \<and> varg > 0) \<and> nested_base d"
  obtains d' tbl' where "String_To_TypeDesc n tbl (descriptor d @ rest) dims varg = Inr (d', rest, tbl')"
    "td_desc d' = descriptor d" "desc_ok tbl'"
  using assms unfolding parses_def by blast

lemma parse_until_spec:
  assumes "\<forall>d \<in> set ds. parses d \<and> parsable d" "desc_ok tbl" "stop = CHR '':'' \<or> stop = CHR '';''"
    "2 * length (concat (map descriptor ds) @ stop # rest) + 2 \<le> n"
  shows "\<exists>ds' tbl'. parse_until n tbl (concat (map descriptor ds) @ stop # rest) stop = Inr (ds', stop # rest, tbl') \<and>
     map td_desc ds' = map descriptor ds \<and> desc_ok tbl'"
  using assms
proof (induction ds arbitrary: tbl n)
  case Nil
  then obtain m where "n = Suc m" by (cases n) auto
  with Nil show ?case by (simp add: char_at_def)
next
  case (Cons d ds)
  then obtain m where m: "n = Suc m" by (cases n) auto
  let ?rest = "concat (map descriptor ds) @ stop # rest"
  obtain c cs where c: "descriptor d = c # cs" "c \<noteq> stop" using Cons.prems descriptor_head [of d] by auto
  have "parses d" "2 * length (descriptor d @ ?rest) + 1 \<le> m" using Cons.prems m by auto
  from parsesD [OF this(1) Cons.prems(2) this(2), of 0 0] obtain d' tbl1 where
    d': "String_To_TypeDesc m tbl (descriptor d @ ?rest) 0 0 = Inr (d', ?rest, tbl1)" "td_desc d' = descriptor d" "desc_ok tbl1"
    by auto
  have "2 * length ?rest + 2 \<le> m" using Cons.prems(4) m c by simp
  with Cons.IH [OF _ d'(3) Cons.prems(3), of m] Cons.prems(1) obtain ds' tbl2 where
    ds': "parse_until m tbl1 ?rest stop = Inr (ds', stop # rest, tbl2)" "map td_desc ds' = map descriptor ds" "desc_ok tbl2"
    by (metis list.set_intros(2))
  have "char_at (concat (map descriptor (d # ds)) @ stop # rest) 0 \<noteq> stop" using c by (simp add: char_at_def)
  with d' ds' m show ?case by auto
qed

lemma parses_all:
  assumes "parsable d" "length (descriptor d) \<le> 30"
  shows "parses d"
  using assms
proof (induction d)
  case (TD_Base c)
  show ?case unfolding parses_def
  proof (intro allI impI)
    fix n tbl rest and dims varg :: int
    assume a: "desc_ok (tbl :: DescTable)" "2 * length (descriptor (TD_Base c) @ rest) + 1 \<le> n"
      "dims = 0 \<and> varg = 0 \<or> \<not> (dims > 0 \<and> varg > (0::int)) \<and> nested_base (TD_Base c)"
    then obtain m where "n = Suc m" by (cases n) auto
    moreover obtain p where "get_basic c = Some p" using TD_Base.prems by auto
    ultimately show "\<exists>d' tbl'. String_To_TypeDesc n tbl (descriptor (TD_Base c) @ rest) dims varg = Inr (d', rest, tbl') \<and>
        td_desc d' = descriptor (TD_Base c) \<and> desc_ok tbl'"
      using a String_To_TypeDesc_base [of c p "c # rest" m tbl dims varg] by (auto simp: char_at_def)
  qed
next
  case (TD_Klass p t)
  let ?p = "case p of None \<Rightarrow> [] | Some x \<Rightarrow> x"
  have k: "klass_text (Some ?p) t = descriptor (TD_Klass p t)"
    using TD_Klass.prems unfolding klass_text_def by (intro formatted_short) (auto split: option.splits)
  show ?case unfolding parses_def
  proof (intro allI impI)
    fix n tbl rest and dims varg :: int
    assume a: "desc_ok (tbl :: DescTable)" "2 * length (descriptor (TD_Klass p t) @ rest) + 1 \<le> n"
    then obtain m where m: "n = Suc m" by (cases n) auto
    let ?k = "?p @ CHR ''.'' # t @ CHR '';'' # rest"
    have "length (takeWhile (\<lambda>c. c \<noteq> CHR '';'') ?k) = length ?p + 1 + length t"
      using TD_Klass.prems take_while_stop [of "CHR '';''" "?p @ CHR ''.'' # t" rest] by (auto split: option.splits)
    moreover have "length (takeWhile (\<lambda>c. c \<noteq> CHR ''.'') ?k) = length ?p"
      using TD_Klass.prems by (intro take_while_stop) (auto split: option.splits)
    ultimately have "String_To_TypeDesc n tbl (CHR ''L'' # ?k) dims varg =
        (case TypeDesc_Get_Klass (Some ?p) t tbl of (d, tbl1) \<Rightarrow> Inr (d, rest, tbl1))"
      by (simp add: m char_at_def Let_def string_to_klass_def split: prod.split)
    then show "\<exists>d' tbl'. String_To_TypeDesc n tbl (descriptor (TD_Klass p t) @ rest) dims varg = Inr (d', rest, tbl') \<and>
        td_desc d' = descriptor (TD_Klass p t) \<and> desc_ok tbl'"
      using Get_specs(1) [OF a(1), of "Some ?p" t] k by (auto split: prod.splits)
  qed
next
  case (TD_Proto as rs)
  have l: "length (descriptor d) \<le> length (concat (map descriptor ds))" if "d \<in> set ds" for d ds
    using that by (induction ds) auto
  have ok: "\<forall>d \<in> set as. parses d \<and> parsable d" "\<forall>d \<in> set rs. parses d \<and> parsable d"
    using TD_Proto l [of _ as] l [of _ rs] by (fastforce simp: list_all_iff)+
  show ?case unfolding parses_def
  proof (intro allI impI)
    fix n tbl rest and dims varg :: int
    assume a: "desc_ok (tbl :: DescTable)" "2 * length (descriptor (TD_Proto as rs) @ rest) + 1 \<le> n"
    then obtain m where m: "n = Suc m" by (cases n) auto
    let ?r2 = "concat (map descriptor rs) @ CHR '';'' # rest"
    have "2 * length (concat (map descriptor as) @ CHR '':'' # ?r2) + 2 \<le> m" using a(2) m by simp
    from parse_until_spec [OF ok(1) a(1) _ this] obtain as' t1 where
      1: "parse_until m tbl (concat (map descriptor as) @ CHR '':'' # ?r2) CHR '':'' = Inr (as', CHR '':'' # ?r2, t1)"
      "map td_desc as' = map descriptor as" "desc_ok t1" by auto
    have "2 * length ?r2 + 2 \<le> m" using a(2) m by simp
    from parse_until_spec [OF ok(2) 1(3) _ this] obtain rs' t2 where
      2: "parse_until m t1 ?r2 CHR '';'' = Inr (rs', CHR '';'' # rest, t2)"
      "map td_desc rs' = map descriptor rs" "desc_ok t2" by auto
    have M: "map td_desc ds = map descriptor ds" if "ds = as \<or> ds = rs" for ds
      using that TD_Proto.prems l [of _ ds] by (fastforce simp: list_all_iff intro: td_desc_short)
    have "td_desc (TD_Proto as' rs') = td_desc (TD_Proto as rs)"
      using 1(2) 2(2) M [of as] M [of rs] by (simp only: td_desc.simps simp_thms)
    also have "\<dots> = descriptor (TD_Proto as rs)" by (rule td_desc_short) (rule TD_Proto.prems)+
    finally show "\<exists>d' tbl'. String_To_TypeDesc n tbl (descriptor (TD_Proto as rs) @ rest) dims varg = Inr (d', rest, tbl') \<and>
        td_desc d' = descriptor (TD_Proto as rs) \<and> desc_ok tbl'"
      using 1 2 m Get_specs(2) [OF 2(3), of as' rs'] by (simp add: char_at_def Let_def)
  qed
next
  case (TD_Array k b)
  have b: "parses b" using TD_Array by simp
  have tb: "td_desc b = descriptor b" using TD_Array.prems by (intro td_desc_short) auto
  have ta: "array_text k (descriptor b) = descriptor (TD_Array k b)"
    using td_desc_short [OF TD_Array.prems] tb by simp
  obtain c cs where c: "descriptor b = c # cs" "c \<noteq> CHR ''[''"
    using TD_Array.prems descriptor_head [of b] by auto
  show ?case unfolding parses_def
  proof (intro allI impI)
    fix n tbl rest and dims varg :: int
    assume a: "desc_ok (tbl :: DescTable)" "2 * length (descriptor (TD_Array k b) @ rest) + 1 \<le> n"
      "dims = 0 \<and> varg = 0 \<or> \<not> (dims > 0 \<and> varg > (0::int)) \<and> nested_base (TD_Array k b)"
    then obtain m where m: "n = Suc m" by (cases n) auto
    obtain j where j: "nat k = Suc j" using TD_Array.prems by (cases "nat k") auto
    have tw: "takeWhile (\<lambda>c. c = CHR ''['') (descriptor (TD_Array k b) @ rest) = replicate (nat k) CHR ''[''"
      using takeWhile_brackets [of c "CHR ''[''" "nat k" "cs @ rest"] c by simp
    from parsesD [OF b a(1), of rest m "int (nat k)" 0] obtain b' t1 where
      1: "String_To_TypeDesc m tbl (descriptor b @ rest) (int (nat k)) 0 = Inr (b', rest, t1)" "td_desc b' = descriptor b" "desc_ok t1"
      using a(2) m j TD_Array.prems by auto
    have "char_at (descriptor (TD_Array k b) @ rest) 0 = CHR ''[''" by (simp add: char_at_def j)
    moreover have "drop (nat k) (descriptor (TD_Array k b) @ rest) = descriptor b @ rest" by simp
    ultimately show "\<exists>d' tbl'. String_To_TypeDesc n tbl (descriptor (TD_Array k b) @ rest) dims varg = Inr (d', rest, tbl') \<and>
        td_desc d' = descriptor (TD_Array k b) \<and> desc_ok tbl'"
      using 1 a(3) m tw ta TD_Array.prems Get_specs(3) [OF 1(3), of "int (nat k)" b']
      by (simp add: Let_def nested_base_def del: descriptor.simps)
  qed
next
  case (TD_Map k v)
  then show ?case by simp
next
  case (TD_Set b)
  have b: "parses b" using TD_Set by simp
  have ts: "set_text (descriptor b) = descriptor (TD_Set b)"
    using td_desc_short [OF TD_Set.prems] td_desc_short [of b] TD_Set.prems by simp
  show ?case unfolding parses_def
  proof (intro allI impI)
    fix n tbl rest and dims varg :: int
    assume a: "desc_ok (tbl :: DescTable)" "2 * length (descriptor (TD_Set b) @ rest) + 1 \<le> n"
    then obtain m where m: "n = Suc m" by (cases n) auto
    from parsesD [OF b a(1), of rest m 0 0] obtain b' t1 where
      1: "String_To_TypeDesc m tbl (descriptor b @ rest) 0 0 = Inr (b', rest, t1)" "td_desc b' = descriptor b" "desc_ok t1"
      using a(2) m by auto
    with m ts Get_specs(5) [OF 1(3), of b']
    show "\<exists>d' tbl'. String_To_TypeDesc n tbl (descriptor (TD_Set b) @ rest) dims varg = Inr (d', rest, tbl') \<and>
        td_desc d' = descriptor (TD_Set b) \<and> desc_ok tbl'"
      by (simp add: char_at_def Let_def)
  qed
next
  case (TD_Varg b)
  have b: "parses b" using TD_Varg by simp
  have tb: "td_desc b = descriptor b" using TD_Varg.prems by (intro td_desc_short) auto
  have ts: "varg_text (descriptor b) = descriptor (TD_Varg b)"
    using td_desc_short [OF TD_Varg.prems] tb by simp
  obtain c cs where c: "descriptor b = c # cs" "c = CHR ''A'' \<longrightarrow> b = TD_Base CHR ''A''"
    using TD_Varg.prems descriptor_head [of b] by auto
  show ?case unfolding parses_def
  proof (intro allI impI)
    fix n tbl rest and dims varg :: int
    assume a: "desc_ok (tbl :: DescTable)" "2 * length (descriptor (TD_Varg b) @ rest) + 1 \<le> n"
      "dims = 0 \<and> varg = 0 \<or> \<not> (dims > 0 \<and> varg > (0::int)) \<and> nested_base (TD_Varg b)"
    then obtain m where m: "n = Suc m" by (cases n) auto
    from parsesD [OF b a(1), of rest m 0 1] obtain b' t1 where
      1: "String_To_TypeDesc m tbl (descriptor b @ rest) 0 1 = Inr (b', rest, t1)" "td_desc b' = descriptor b" "desc_ok t1"
      using a(2) m TD_Varg.prems by auto
    show "\<exists>d' tbl'. String_To_TypeDesc n tbl (descriptor (TD_Varg b) @ rest) dims varg = Inr (d', rest, tbl') \<and>
        td_desc d' = descriptor (TD_Varg b) \<and> desc_ok tbl'"
    proof (cases "c = CHR ''A''")
      case True
      with c have "b = TD_Base BASE_ANY" by (simp add: BASE_ANY_def)
      with a(1,3) m ts Get_specs(6) [OF a(1), of "TD_Base BASE_ANY"] show ?thesis
        by (simp add: char_at_def Let_def nested_base_def BASE_ANY_def)
    next
      case False
      with 1 a(3) m ts c(1) Get_specs(6) [OF 1(3), of b'] show ?thesis
        by (simp add: char_at_def Let_def nested_base_def)
    qed
  qed
qed

subsection \<open>Properties\<close>

text \<open>
  C32: the parser always ends: fuel of twice the length of the string and one is never used up,
  whatever the string is, so a string makes it answer a type or stop at an assertion or behind
  the end of the string.
\<close>

theorem String_To_TypeDesc_terminates:
  "case String_To_TypeDesc (2 * length s + 1) tbl s dims varg of
     Inl e \<Rightarrow> e \<noteq> Stack_Overflow
   | Inr (d, rest, tbl') \<Rightarrow> length rest < length s"
  by (rule parse_result) simp

text \<open>
  C1: a descriptor's text is read back. For every descriptor the grammar covers whose text has at
  most 30 characters, the text stored with it is the one the grammar announces, and parsing that
  text, with anything behind it, answers a descriptor with the same text and leaves the rest.
\<close>

theorem TypeDesc_parse_roundtrip:
  assumes "parsable d" "length (descriptor d) \<le> 30" "desc_ok tbl"
    and "2 * length (td_desc d @ rest) + 1 \<le> n"
  shows "td_desc d = descriptor d \<and>
    (\<exists>d' tbl'. String_To_TypeDesc n tbl (td_desc d @ rest) 0 0 = Inr (d', rest, tbl') \<and>
       td_desc d' = td_desc d \<and> desc_ok tbl')"
proof -
  have "td_desc d = descriptor d" by (rule td_desc_short [OF assms(1,2)])
  moreover have "\<exists>d' tbl'. String_To_TypeDesc n tbl (descriptor d @ rest) 0 0 = Inr (d', rest, tbl') \<and>
       td_desc d' = descriptor d \<and> desc_ok tbl'"
    using parsesD [OF parses_all [OF assms(1,2)] assms(3), of rest n 0 0] assms(4) calculation by metis
  ultimately show ?thesis by simp
qed

theorem TypeDesc_parse_roundtrip_witness:
  "\<exists>d' tbl'. String_To_TypeDesc 40 Init_TypeDesc ''Pi[s:Lio.File;;z'' 0 0 = Inr (d', ''z'', tbl')"
proof -
  let ?d = "TD_Proto [TD_Base CHR ''i'', TD_Array 1 (TD_Base CHR ''s'')] [TD_Klass (Some ''io'') ''File'']"
  have d: "parsable ?d" "length (descriptor ?d) \<le> 30" "descriptor ?d = ''Pi[s:Lio.File;;''" by code_simp+
  then have t: "td_desc ?d = ''Pi[s:Lio.File;;''" using td_desc_short [of ?d] by metis
  from TypeDesc_parse_roundtrip [OF d(1,2) desc_ok_Init, of "''z''" 40] show ?thesis unfolding t by auto
qed

text \<open>
  Interning. Asking for two class types one after the other answers the same descriptor
  exactly when their texts are the same, and the table keeps every descriptor under its own text.
\<close>

theorem TypeDesc_Get_Klass_interns:
  assumes "desc_ok tbl"
  shows "case TypeDesc_Get_Klass p1 c1 tbl of (d1, tbl1) \<Rightarrow>
    case TypeDesc_Get_Klass p2 c2 tbl1 of (d2, tbl2) \<Rightarrow>
      desc_ok tbl2 \<and> td_desc d1 = klass_text p1 c1 \<and> td_desc d2 = klass_text p2 c2 \<and>
      (d1 = d2 \<longleftrightarrow> klass_text p1 c1 = klass_text p2 c2)"
proof -
  obtain d1 tbl1 where 1: "TypeDesc_Get_Klass p1 c1 tbl = (d1, tbl1)" by fastforce
  obtain d2 tbl2 where 2: "TypeDesc_Get_Klass p2 c2 tbl1 = (d2, tbl2)" by fastforce
  have a: "td_desc d1 = klass_text p1 c1" "desc_ok tbl1" "tbl1 (klass_text p1 c1) = Some d1"
    using intern_ok [OF assms, of "TD_Klass p1 c1" "klass_text p1 c1"] 1 by (auto simp: TypeDesc_Get_Klass_def)
  have b: "td_desc d2 = klass_text p2 c2" "desc_ok tbl2"
    using Get_specs(1) [OF a(2), of p2 c2] 2 by auto
  have "d1 = d2" if "klass_text p1 c1 = klass_text p2 c2"
    using 2 a(3) that by (auto simp: TypeDesc_Get_Klass_def intern_def FindTypeDesc_def split: option.splits)
  with a b 1 2 show ?thesis by auto
qed

theorem TypeDesc_Get_Klass_interns_witness:
  "fst (TypeDesc_Get_Klass (Some ''lang'') ''Tuple'' (snd (TypeDesc_Get_Klass (Some ''lang'') ''Tuple'' Init_TypeDesc)))
     = fst (TypeDesc_Get_Klass (Some ''lang'') ''Tuple'' Init_TypeDesc)"
  using TypeDesc_Get_Klass_interns [OF desc_ok_Init, where ?p1.0 = "Some ''lang''" and ?c1.0 = "''Tuple''"
      and ?p2.0 = "Some ''lang''" and ?c2.0 = "''Tuple''"]
  by (auto split: prod.splits)

text \<open>
  The text of a map type is not the announced one: it has a colon between the key and the
  value, and the parser, which follows the announced grammar, stops at an assertion on it.
\<close>

theorem map_text_not_parsed:
  assumes "parsable k" "parsable v" "length (descriptor (TD_Map k v)) \<le> 29" "desc_ok tbl"
    and "2 * length (td_desc (TD_Map k v) @ rest) + 1 \<le> n"
  shows "td_desc (TD_Map k v) = ''M'' @ descriptor k @ '':'' @ descriptor v \<and>
    String_To_TypeDesc n tbl (td_desc (TD_Map k v) @ rest) 0 0 = Inl Assert_Failed"
proof -
  have kv: "td_desc k = descriptor k" "td_desc v = descriptor v"
    using assms by (auto intro: td_desc_short)
  have t: "td_desc (TD_Map k v) = ''M'' @ descriptor k @ '':'' @ descriptor v"
    unfolding td_desc.simps map_text_def kv
    by (intro formatted_short) (use assms in \<open>auto simp: no_nul_descriptor\<close>)
  obtain q where q: "n = Suc q" using assms(5) by (cases n) auto
  let ?r = "CHR '':'' # descriptor v @ rest"
  have f: "2 * length (descriptor k @ ?r) + 1 \<le> q" using assms(5) unfolding t q by simp
  then obtain m where m: "q = Suc m" by (cases q) auto
  have "parses k" using assms by (intro parses_all) auto
  then obtain k' t1 where "String_To_TypeDesc q tbl (descriptor k @ ?r) 0 0 = Inr (k', ?r, t1)"
    using parsesD [OF _ assms(4) f, of 0 0] by metis
  moreover have "String_To_TypeDesc q t1 ?r 0 0 = Inl Assert_Failed" unfolding m by (rule parse_colon)
  ultimately have "String_To_TypeDesc n tbl (CHR ''M'' # descriptor k @ ?r) 0 0 = Inl Assert_Failed"
    unfolding q parse_map by simp
  with t show ?thesis by simp
qed

theorem map_text_not_parsed_witness:
  "td_desc (TD_Map (TD_Base CHR ''s'') (TD_Base CHR ''i'')) = ''Ms:i'' \<and>
   String_To_TypeDesc 20 Init_TypeDesc ''Ms:i'' 0 0 = Inl Assert_Failed"
proof -
  let ?k = "TD_Base CHR ''s''" and ?v = "TD_Base CHR ''i''"
  have "parsable ?k" "parsable ?v" "length (descriptor (TD_Map ?k ?v)) \<le> 29" by code_simp+
  note * = map_text_not_parsed [OF this desc_ok_Init, of "[]" 20]
  have "td_desc (TD_Map ?k ?v) = ''Ms:i''"
    using formatted_short [of "''M#:#''" "[Some ''s'', Some ''i'']" "''Ms:i''"] by (simp add: map_text_def)
  with * show ?thesis by simp
qed

text \<open>
  What \<open>TypeDesc_Equal\<close> decides. Different kinds are never equal; two types of the same kind
  are equal when their texts are, and \<open>any\<close> is equal to every base type, but to nothing else.
\<close>

theorem TypeDesc_Equal_correct:
  "TypeDesc_Equal (Some d1) (Some d2) \<longleftrightarrow>
     td_kind d1 = td_kind d2 \<and>
     (d1 = TD_Base BASE_ANY \<or> d2 = TD_Base BASE_ANY \<or> str_eq (td_desc d1) (td_desc d2))"
  by (auto simp: TypeDesc_Equal_def)

end
