(* ===== verification/ImageItem.thy ===== *)
theory ImageItem
  imports HashFunc TypeDesc
begin

text \<open>
  \<open>include/image.h\<close> and the item functions of \<open>src/image.c\<close>: the items an image file is made of,
  their constructors, their size and bytes in a file, and the hash and equality by which unique
  items are shared.

  The bytes are those of the structs on the little-endian machine the program is built for. The
  interface \<open>codec\<close> is what the file reader relies on: what is written is read back, with the rest
  of the file left over; \<open>fixed_codec\<close> gives it for the structs of a fixed size, and every item type
  is an interpretation.
\<close>

subsection \<open>Item types\<close>

definition ITEM_MAP :: nat where "ITEM_MAP = 0"
definition ITEM_STRING :: nat where "ITEM_STRING = 1"
definition ITEM_TYPE :: nat where "ITEM_TYPE = 2"
definition ITEM_TYPELIST :: nat where "ITEM_TYPELIST = 3"
definition ITEM_PROTO :: nat where "ITEM_PROTO = 4"
definition ITEM_CONST :: nat where "ITEM_CONST = 5"
definition ITEM_LOCVAR :: nat where "ITEM_LOCVAR = 6"
definition ITEM_VAR :: nat where "ITEM_VAR = 7"
definition ITEM_FUNC :: nat where "ITEM_FUNC = 8"
definition ITEM_CODE :: nat where "ITEM_CODE = 9"
definition ITEM_CLASS :: nat where "ITEM_CLASS = 10"
definition ITEM_FIELD :: nat where "ITEM_FIELD = 11"
definition ITEM_METHOD :: nat where "ITEM_METHOD = 12"
definition ITEM_TRAIT :: nat where "ITEM_TRAIT = 13"
definition ITEM_NFUNC :: nat where "ITEM_NFUNC = 14"
definition ITEM_IMETH :: nat where "ITEM_IMETH = 15"
definition ITEM_MAX :: nat where "ITEM_MAX = 16"

lemmas item_types = ITEM_MAP_def ITEM_STRING_def ITEM_TYPE_def ITEM_TYPELIST_def ITEM_PROTO_def
  ITEM_CONST_def ITEM_LOCVAR_def ITEM_VAR_def ITEM_FUNC_def ITEM_CODE_def ITEM_CLASS_def
  ITEM_FIELD_def ITEM_METHOD_def ITEM_TRAIT_def ITEM_NFUNC_def ITEM_IMETH_def ITEM_MAX_def

subsection \<open>The structs\<close>

record MapItem =
  mi_type :: int
  mi_unused :: int
  mi_offset :: int
  mi_size :: int

text \<open>\<open>data\<close> is the characters with their terminator.\<close>

record StringItem =
  si_length :: int
  si_data :: string

text \<open>
  The union of \<open>TypeItem\<close> is two 32-bit words. The first is \<open>pathindex\<close>, \<open>protoindex\<close>, \<open>dims\<close>,
  \<open>varg.typeindex\<close> or, in its low byte, \<open>primitive\<close>; the second is \<open>typeindex\<close> or \<open>array.typeindex\<close>.
\<close>

record TypeItem =
  ti_kind :: int
  ti_word1 :: int
  ti_word2 :: int

definition ti_primitive :: "TypeItem \<Rightarrow> char" where
  "ti_primitive t = char_of (nat (ti_word1 t mod 256))"

abbreviation ti_pathindex :: "TypeItem \<Rightarrow> int" where "ti_pathindex \<equiv> ti_word1"
abbreviation ti_typeindex :: "TypeItem \<Rightarrow> int" where "ti_typeindex \<equiv> ti_word2"
abbreviation ti_protoindex :: "TypeItem \<Rightarrow> int" where "ti_protoindex \<equiv> ti_word1"
abbreviation ti_dims :: "TypeItem \<Rightarrow> int" where "ti_dims \<equiv> ti_word1"
abbreviation ti_array_typeindex :: "TypeItem \<Rightarrow> int" where "ti_array_typeindex \<equiv> ti_word2"
abbreviation ti_varg_typeindex :: "TypeItem \<Rightarrow> int" where "ti_varg_typeindex \<equiv> ti_word1"

record TypeListItem =
  tl_size :: int
  tl_index :: "int list"

text \<open>
  A constant: its type, the eight bytes of the union, and the address the item is at, which the
  hash of floats and booleans reads.
\<close>

record ConstItem =
  ci_type :: int
  ci_raw :: uint64
  ci_addr :: addr

definition CONST_INT :: int where "CONST_INT = 1"
definition CONST_FLOAT :: int where "CONST_FLOAT = 2"
definition CONST_BOOL :: int where "CONST_BOOL = 3"
definition CONST_STRING :: int where "CONST_STRING = 4"
definition CONST_UCHAR :: int where "CONST_UCHAR = 5"

lemmas const_types = CONST_INT_def CONST_FLOAT_def CONST_BOOL_def CONST_STRING_def CONST_UCHAR_def

definition ci_ival :: "ConstItem \<Rightarrow> int" where "ci_ival c = sint (ci_raw c)"
definition ci_index :: "ConstItem \<Rightarrow> int" where "ci_index c = sint (ucast (ci_raw c) :: uint32)"
definition ci_bval :: "ConstItem \<Rightarrow> int" where "ci_bval c = sint (ucast (ci_raw c) :: uint32)"
definition ci_uch :: "ConstItem \<Rightarrow> uint32" where "ci_uch c = ucast (ci_raw c)"

record CodeItem =
  co_size :: int
  co_codes :: "uint8 list"

record ProtoItem =
  pi_rindex :: int
  pi_pindex :: int

record LocVarItem =
  lv_nameindex :: int
  lv_typeindex :: int
  lv_pos :: int
  lv_index :: int

record VarItem =
  va_nameindex :: int
  va_typeindex :: int
  va_konst :: int

record FuncItem =
  fu_nameindex :: int
  fu_protoindex :: int
  fu_codeindex :: int

record ClassItem =
  cl_classindex :: int
  cl_superindex :: int

record FieldItem =
  fi_classindex :: int
  fi_nameindex :: int
  fi_typeindex :: int

record MethodItem =
  me_classindex :: int
  me_nameindex :: int
  me_protoindex :: int
  me_codeindex :: int

record TraitItem =
  tr_classindex :: int
  tr_traitsindex :: int

record NFuncItem =
  nf_classindex :: int
  nf_nameindex :: int
  nf_protoindex :: int

record IMethItem =
  im_classindex :: int
  im_nameindex :: int
  im_protoindex :: int

subsection \<open>Constructors\<close>

definition MapItem_New :: "int \<Rightarrow> int \<Rightarrow> int \<Rightarrow> MapItem" where
  "MapItem_New type offset sz = \<lparr>mi_type = type, mi_unused = 0, mi_offset = offset, mi_size = sz\<rparr>"

definition StringItem_New :: "string \<Rightarrow> StringItem" where
  "StringItem_New name = \<lparr>si_length = strlen name + 1, si_data = cstr name @ [NUL]\<rparr>"

definition TypeItem_Primitive_New :: "char \<Rightarrow> TypeItem" where
  "TypeItem_Primitive_New primitive = \<lparr>ti_kind = TYPE_BASE, ti_word1 = of_char primitive, ti_word2 = 0\<rparr>"

definition TypeItem_Klass_New :: "int \<Rightarrow> int \<Rightarrow> TypeItem" where
  "TypeItem_Klass_New pathindex typeindex =
     \<lparr>ti_kind = TYPE_KLASS, ti_word1 = pathindex, ti_word2 = typeindex\<rparr>"

definition TypeItem_Proto_New :: "int \<Rightarrow> TypeItem" where
  "TypeItem_Proto_New protoindex = \<lparr>ti_kind = TYPE_PROTO, ti_word1 = protoindex, ti_word2 = 0\<rparr>"

definition TypeItem_Array_New :: "int \<Rightarrow> int \<Rightarrow> TypeItem" where
  "TypeItem_Array_New dims typeindex = \<lparr>ti_kind = TYPE_ARRAY, ti_word1 = dims, ti_word2 = typeindex\<rparr>"

definition TypeItem_Varg_New :: "int \<Rightarrow> TypeItem" where
  "TypeItem_Varg_New typeindex = \<lparr>ti_kind = TYPE_VARG, ti_word1 = typeindex, ti_word2 = 0\<rparr>"

definition TypeListItem_New :: "int list \<Rightarrow> TypeListItem" where
  "TypeListItem_New index = \<lparr>tl_size = int (length index), tl_index = index\<rparr>"

definition ConstItem_New :: "int \<Rightarrow> uint64 \<Rightarrow> ConstItem" where
  "ConstItem_New type raw = \<lparr>ci_type = type, ci_raw = raw, ci_addr = 0\<rparr>"

definition ConstItem_Int_New :: "int \<Rightarrow> ConstItem" where
  "ConstItem_Int_New val = ConstItem_New CONST_INT (word_of_int val)"

definition ConstItem_Float_New :: "uint64 \<Rightarrow> ConstItem" where
  "ConstItem_Float_New val = ConstItem_New CONST_FLOAT val"

text \<open>The 32-bit members fill the low half of the union of a zeroed item.\<close>

definition ConstItem_Bool_New :: "int \<Rightarrow> ConstItem" where
  "ConstItem_Bool_New val = ConstItem_New CONST_BOOL (ucast (word_of_int val :: uint32))"

definition ConstItem_String_New :: "int \<Rightarrow> ConstItem" where
  "ConstItem_String_New val = ConstItem_New CONST_STRING (ucast (word_of_int val :: uint32))"

definition ConstItem_UChar_New :: "uint32 \<Rightarrow> ConstItem" where
  "ConstItem_UChar_New val = ConstItem_New CONST_UCHAR (ucast val)"

definition CodeItem_New :: "uint8 list \<Rightarrow> int \<Rightarrow> CodeItem" where
  "CodeItem_New codes sz = \<lparr>co_size = sz, co_codes = take (nat sz) codes\<rparr>"

definition ProtoItem_New :: "int \<Rightarrow> int \<Rightarrow> ProtoItem" where
  "ProtoItem_New rindex pindex = \<lparr>pi_rindex = rindex, pi_pindex = pindex\<rparr>"

definition LocVarItem_New :: "int \<Rightarrow> int \<Rightarrow> int \<Rightarrow> int \<Rightarrow> LocVarItem" where
  "LocVarItem_New nameindex typeindex pos index = \<lparr>lv_nameindex = nameindex, lv_typeindex = typeindex, lv_pos = pos, lv_index = index\<rparr>"

definition VarItem_New :: "int \<Rightarrow> int \<Rightarrow> int \<Rightarrow> VarItem" where
  "VarItem_New nameindex typeindex konst = \<lparr>va_nameindex = nameindex, va_typeindex = typeindex, va_konst = konst\<rparr>"

definition FuncItem_New :: "int \<Rightarrow> int \<Rightarrow> int \<Rightarrow> FuncItem" where
  "FuncItem_New nameindex protoindex codeindex = \<lparr>fu_nameindex = nameindex, fu_protoindex = protoindex, fu_codeindex = codeindex\<rparr>"

definition ClassItem_New :: "int \<Rightarrow> int \<Rightarrow> ClassItem" where
  "ClassItem_New classindex superindex = \<lparr>cl_classindex = classindex, cl_superindex = superindex\<rparr>"

definition FieldItem_New :: "int \<Rightarrow> int \<Rightarrow> int \<Rightarrow> FieldItem" where
  "FieldItem_New classindex nameindex typeindex = \<lparr>fi_classindex = classindex, fi_nameindex = nameindex, fi_typeindex = typeindex\<rparr>"

definition MethodItem_New :: "int \<Rightarrow> int \<Rightarrow> int \<Rightarrow> int \<Rightarrow> MethodItem" where
  "MethodItem_New classindex nameindex protoindex codeindex = \<lparr>me_classindex = classindex, me_nameindex = nameindex, me_protoindex = protoindex, me_codeindex = codeindex\<rparr>"

definition TraitItem_New :: "int \<Rightarrow> int \<Rightarrow> TraitItem" where
  "TraitItem_New classindex traitsindex = \<lparr>tr_classindex = classindex, tr_traitsindex = traitsindex\<rparr>"

definition NFuncItem_New :: "int \<Rightarrow> int \<Rightarrow> int \<Rightarrow> NFuncItem" where
  "NFuncItem_New classindex nameindex protoindex = \<lparr>nf_classindex = classindex, nf_nameindex = nameindex, nf_protoindex = protoindex\<rparr>"

definition IMethItem_New :: "int \<Rightarrow> int \<Rightarrow> int \<Rightarrow> IMethItem" where
  "IMethItem_New classindex nameindex protoindex = \<lparr>im_classindex = classindex, im_nameindex = nameindex, im_protoindex = protoindex\<rparr>"

subsection \<open>Bytes in the file\<close>

definition int32_at :: "nat \<Rightarrow> uint8 list \<Rightarrow> int" where
  "int32_at i bs = le_sint (take 4 (drop (4 * i) bs))"

lemma int32_at_first: "int32_at 0 (le_bytes 4 x @ r) = le_sint (le_bytes 4 x)"
  by (simp add: int32_at_def)

lemma int32_at_next: "int32_at (Suc i) (le_bytes 4 x @ r) = int32_at i r"
  by (simp add: int32_at_def add.commute)

lemmas codec_simps = int32_at_first int32_at_next int32_at_next [of 0, simplified]
  int32_at_next [of 1, simplified Suc_1] int32_at_next [of 2, unfolded Suc_numeral, simplified]
  int32_at_first [where r = "[]", unfolded append_Nil2] le_sint4

text \<open>\<open>fread\<close> of one struct of \<open>sz\<close> bytes; the callers assert that it was there.\<close>

definition read_fixed :: "nat \<Rightarrow> (uint8 list \<Rightarrow> 'a) \<Rightarrow> uint8 list \<Rightarrow> ('a \<times> uint8 list) run" where
  "read_fixed sz dec bs = (if length bs < sz then Inl Assert_Failed else Inr (dec (take sz bs), drop sz bs))"

fun read_many :: "(uint8 list \<Rightarrow> ('a \<times> uint8 list) run) \<Rightarrow> nat \<Rightarrow> uint8 list \<Rightarrow> ('a list \<times> uint8 list) run" where
  "read_many rd 0 bs = Inr ([], bs)"
| "read_many rd (Suc n) bs =
     bind_run (rd bs) (\<lambda>(x, bs1). bind_run (read_many rd n bs1) (\<lambda>(xs, bs2). Inr (x # xs, bs2)))"

locale codec =
  fixes wr :: "'a \<Rightarrow> uint8 list"
    and rd :: "uint8 list \<Rightarrow> ('a \<times> uint8 list) run"
    and ok :: "'a \<Rightarrow> bool"
  assumes rd_wr: "ok x \<Longrightarrow> rd (wr x @ rest) = Inr (x, rest)"
begin

lemma read_many_wr:
  "list_all ok xs \<Longrightarrow> read_many rd (length xs) (concat (map wr xs) @ rest) = Inr (xs, rest)"
  by (induction xs) (auto simp: rd_wr)

end

locale fixed_codec =
  fixes enc :: "'a \<Rightarrow> uint8 list"
    and dec :: "uint8 list \<Rightarrow> 'a"
    and sz :: nat
    and okf :: "'a \<Rightarrow> bool"
  assumes dec_enc: "okf x \<Longrightarrow> dec (enc x) = x"
    and length_enc: "length (enc x) = sz"

sublocale fixed_codec \<subseteq> codec enc "read_fixed sz dec" okf
  by unfold_locales (simp add: read_fixed_def length_enc dec_enc)

definition mapitem_write :: "MapItem \<Rightarrow> uint8 list" where
  "mapitem_write it = le_bytes 2 (mi_type it) @ le_bytes 2 (mi_unused it) @ le_bytes 4 (mi_offset it) @ le_bytes 4 (mi_size it)"

definition read_mapitem :: "uint8 list \<Rightarrow> MapItem" where
  "read_mapitem bs = \<lparr>mi_type = le_uint (take 2 bs), mi_unused = le_uint (take 2 (drop 2 bs)),
     mi_offset = le_uint (take 4 (drop 4 bs)), mi_size = int32_at 2 bs\<rparr>"

definition mapitem_ok :: "MapItem \<Rightarrow> bool" where
  "mapitem_ok it \<longleftrightarrow> uint16_range (mi_type it) \<and> uint16_range (mi_unused it) \<and>
     uint32_range (mi_offset it) \<and> int32_range (mi_size it)"

definition mapitem_length :: "MapItem \<Rightarrow> int" where
  "mapitem_length it = 12"

definition typeitem_write :: "TypeItem \<Rightarrow> uint8 list" where
  "typeitem_write it = le_bytes 4 (ti_kind it) @ le_bytes 4 (ti_word1 it) @ le_bytes 4 (ti_word2 it)"

definition read_typeitem :: "uint8 list \<Rightarrow> TypeItem" where
  "read_typeitem bs = \<lparr>ti_kind = int32_at 0 bs, ti_word1 = int32_at 1 bs, ti_word2 = int32_at 2 bs\<rparr>"

definition typeitem_ok :: "TypeItem \<Rightarrow> bool" where
  "typeitem_ok it \<longleftrightarrow> int32_range (ti_kind it) \<and> int32_range (ti_word1 it) \<and> int32_range (ti_word2 it)"

definition typeitem_length :: "TypeItem \<Rightarrow> int" where
  "typeitem_length it = 12"

text \<open>The union is aligned to eight bytes, behind four bytes of padding of a zeroed struct.\<close>

definition constitem_write :: "ConstItem \<Rightarrow> uint8 list" where
  "constitem_write it = le_bytes 4 (ci_type it) @ le_bytes 4 0 @ le_bytes 8 (uint (ci_raw it))"

definition read_constitem :: "uint8 list \<Rightarrow> ConstItem" where
  "read_constitem bs = \<lparr>ci_type = int32_at 0 bs, ci_raw = word_of_int (le_uint (take 8 (drop 8 bs))), ci_addr = 0\<rparr>"

definition constitem_ok :: "ConstItem \<Rightarrow> bool" where
  "constitem_ok it \<longleftrightarrow> int32_range (ci_type it) \<and> ci_addr it = 0"

definition constitem_length :: "ConstItem \<Rightarrow> int" where
  "constitem_length it = 16"

definition protoitem_write :: "ProtoItem \<Rightarrow> uint8 list" where
  "protoitem_write it = le_bytes 4 (pi_rindex it) @ le_bytes 4 (pi_pindex it)"

definition read_protoitem :: "uint8 list \<Rightarrow> ProtoItem" where
  "read_protoitem bs = \<lparr>pi_rindex = int32_at 0 bs, pi_pindex = int32_at 1 bs\<rparr>"

definition protoitem_ok :: "ProtoItem \<Rightarrow> bool" where
  "protoitem_ok it \<longleftrightarrow> int32_range (pi_rindex it) \<and> int32_range (pi_pindex it)"

definition protoitem_length :: "ProtoItem \<Rightarrow> int" where
  "protoitem_length it = 8"

definition locvaritem_write :: "LocVarItem \<Rightarrow> uint8 list" where
  "locvaritem_write it = le_bytes 4 (lv_nameindex it) @ le_bytes 4 (lv_typeindex it) @ le_bytes 4 (lv_pos it) @ le_bytes 4 (lv_index it)"

definition read_locvaritem :: "uint8 list \<Rightarrow> LocVarItem" where
  "read_locvaritem bs = \<lparr>lv_nameindex = int32_at 0 bs, lv_typeindex = int32_at 1 bs, lv_pos = int32_at 2 bs, lv_index = int32_at 3 bs\<rparr>"

definition locvaritem_ok :: "LocVarItem \<Rightarrow> bool" where
  "locvaritem_ok it \<longleftrightarrow> int32_range (lv_nameindex it) \<and> int32_range (lv_typeindex it) \<and> int32_range (lv_pos it) \<and> int32_range (lv_index it)"

definition locvaritem_length :: "LocVarItem \<Rightarrow> int" where
  "locvaritem_length it = 16"

definition varitem_write :: "VarItem \<Rightarrow> uint8 list" where
  "varitem_write it = le_bytes 4 (va_nameindex it) @ le_bytes 4 (va_typeindex it) @ le_bytes 4 (va_konst it)"

definition read_varitem :: "uint8 list \<Rightarrow> VarItem" where
  "read_varitem bs = \<lparr>va_nameindex = int32_at 0 bs, va_typeindex = int32_at 1 bs, va_konst = int32_at 2 bs\<rparr>"

definition varitem_ok :: "VarItem \<Rightarrow> bool" where
  "varitem_ok it \<longleftrightarrow> int32_range (va_nameindex it) \<and> int32_range (va_typeindex it) \<and> int32_range (va_konst it)"

definition varitem_length :: "VarItem \<Rightarrow> int" where
  "varitem_length it = 12"

definition funcitem_write :: "FuncItem \<Rightarrow> uint8 list" where
  "funcitem_write it = le_bytes 4 (fu_nameindex it) @ le_bytes 4 (fu_protoindex it) @ le_bytes 4 (fu_codeindex it)"

definition read_funcitem :: "uint8 list \<Rightarrow> FuncItem" where
  "read_funcitem bs = \<lparr>fu_nameindex = int32_at 0 bs, fu_protoindex = int32_at 1 bs, fu_codeindex = int32_at 2 bs\<rparr>"

definition funcitem_ok :: "FuncItem \<Rightarrow> bool" where
  "funcitem_ok it \<longleftrightarrow> int32_range (fu_nameindex it) \<and> int32_range (fu_protoindex it) \<and> int32_range (fu_codeindex it)"

definition funcitem_length :: "FuncItem \<Rightarrow> int" where
  "funcitem_length it = 12"

definition classitem_write :: "ClassItem \<Rightarrow> uint8 list" where
  "classitem_write it = le_bytes 4 (cl_classindex it) @ le_bytes 4 (cl_superindex it)"

definition read_classitem :: "uint8 list \<Rightarrow> ClassItem" where
  "read_classitem bs = \<lparr>cl_classindex = int32_at 0 bs, cl_superindex = int32_at 1 bs\<rparr>"

definition classitem_ok :: "ClassItem \<Rightarrow> bool" where
  "classitem_ok it \<longleftrightarrow> int32_range (cl_classindex it) \<and> int32_range (cl_superindex it)"

definition classitem_length :: "ClassItem \<Rightarrow> int" where
  "classitem_length it = 8"

definition fielditem_write :: "FieldItem \<Rightarrow> uint8 list" where
  "fielditem_write it = le_bytes 4 (fi_classindex it) @ le_bytes 4 (fi_nameindex it) @ le_bytes 4 (fi_typeindex it)"

definition read_fielditem :: "uint8 list \<Rightarrow> FieldItem" where
  "read_fielditem bs = \<lparr>fi_classindex = int32_at 0 bs, fi_nameindex = int32_at 1 bs, fi_typeindex = int32_at 2 bs\<rparr>"

definition fielditem_ok :: "FieldItem \<Rightarrow> bool" where
  "fielditem_ok it \<longleftrightarrow> int32_range (fi_classindex it) \<and> int32_range (fi_nameindex it) \<and> int32_range (fi_typeindex it)"

definition fielditem_length :: "FieldItem \<Rightarrow> int" where
  "fielditem_length it = 12"

definition methoditem_write :: "MethodItem \<Rightarrow> uint8 list" where
  "methoditem_write it = le_bytes 4 (me_classindex it) @ le_bytes 4 (me_nameindex it) @ le_bytes 4 (me_protoindex it) @ le_bytes 4 (me_codeindex it)"

definition read_methoditem :: "uint8 list \<Rightarrow> MethodItem" where
  "read_methoditem bs = \<lparr>me_classindex = int32_at 0 bs, me_nameindex = int32_at 1 bs, me_protoindex = int32_at 2 bs, me_codeindex = int32_at 3 bs\<rparr>"

definition methoditem_ok :: "MethodItem \<Rightarrow> bool" where
  "methoditem_ok it \<longleftrightarrow> int32_range (me_classindex it) \<and> int32_range (me_nameindex it) \<and> int32_range (me_protoindex it) \<and> int32_range (me_codeindex it)"

definition methoditem_length :: "MethodItem \<Rightarrow> int" where
  "methoditem_length it = 16"

definition traititem_write :: "TraitItem \<Rightarrow> uint8 list" where
  "traititem_write it = le_bytes 4 (tr_classindex it) @ le_bytes 4 (tr_traitsindex it)"

definition read_traititem :: "uint8 list \<Rightarrow> TraitItem" where
  "read_traititem bs = \<lparr>tr_classindex = int32_at 0 bs, tr_traitsindex = int32_at 1 bs\<rparr>"

definition traititem_ok :: "TraitItem \<Rightarrow> bool" where
  "traititem_ok it \<longleftrightarrow> int32_range (tr_classindex it) \<and> int32_range (tr_traitsindex it)"

definition traititem_length :: "TraitItem \<Rightarrow> int" where
  "traititem_length it = 8"

definition nfuncitem_write :: "NFuncItem \<Rightarrow> uint8 list" where
  "nfuncitem_write it = le_bytes 4 (nf_classindex it) @ le_bytes 4 (nf_nameindex it) @ le_bytes 4 (nf_protoindex it)"

definition read_nfuncitem :: "uint8 list \<Rightarrow> NFuncItem" where
  "read_nfuncitem bs = \<lparr>nf_classindex = int32_at 0 bs, nf_nameindex = int32_at 1 bs, nf_protoindex = int32_at 2 bs\<rparr>"

definition nfuncitem_ok :: "NFuncItem \<Rightarrow> bool" where
  "nfuncitem_ok it \<longleftrightarrow> int32_range (nf_classindex it) \<and> int32_range (nf_nameindex it) \<and> int32_range (nf_protoindex it)"

definition nfuncitem_length :: "NFuncItem \<Rightarrow> int" where
  "nfuncitem_length it = 12"

definition imethitem_write :: "IMethItem \<Rightarrow> uint8 list" where
  "imethitem_write it = le_bytes 4 (im_classindex it) @ le_bytes 4 (im_nameindex it) @ le_bytes 4 (im_protoindex it)"

definition read_imethitem :: "uint8 list \<Rightarrow> IMethItem" where
  "read_imethitem bs = \<lparr>im_classindex = int32_at 0 bs, im_nameindex = int32_at 1 bs, im_protoindex = int32_at 2 bs\<rparr>"

definition imethitem_ok :: "IMethItem \<Rightarrow> bool" where
  "imethitem_ok it \<longleftrightarrow> int32_range (im_classindex it) \<and> int32_range (im_nameindex it) \<and> int32_range (im_protoindex it)"

definition imethitem_length :: "IMethItem \<Rightarrow> int" where
  "imethitem_length it = 12"

lemma le_uint8_uint: "word_of_int (le_uint (le_bytes 8 (uint w))) = (w :: uint64)"
proof -
  have "uint w < 256 ^ 8" using uint_lt2p [of w] by simp
  then have "le_uint (le_bytes 8 (uint w)) = uint w" by (intro le_uint_le_bytes_id) simp_all
  then show ?thesis by simp
qed

interpretation map_codec: fixed_codec mapitem_write read_mapitem 12 mapitem_ok
  by unfold_locales
    (auto simp: mapitem_write_def read_mapitem_def mapitem_ok_def int32_at_def le_simps)

interpretation type_codec: fixed_codec typeitem_write read_typeitem 12 typeitem_ok
  by unfold_locales (auto simp: typeitem_write_def read_typeitem_def typeitem_ok_def codec_simps)

interpretation const_codec: fixed_codec constitem_write read_constitem 16 constitem_ok
  by unfold_locales
    (auto simp: constitem_write_def read_constitem_def constitem_ok_def codec_simps le_uint8_uint)

interpretation proto_codec: fixed_codec protoitem_write read_protoitem 8 protoitem_ok
  by unfold_locales (auto simp: protoitem_write_def read_protoitem_def protoitem_ok_def codec_simps)

interpretation locvar_codec: fixed_codec locvaritem_write read_locvaritem 16 locvaritem_ok
  by unfold_locales (auto simp: locvaritem_write_def read_locvaritem_def locvaritem_ok_def codec_simps)

interpretation var_codec: fixed_codec varitem_write read_varitem 12 varitem_ok
  by unfold_locales (auto simp: varitem_write_def read_varitem_def varitem_ok_def codec_simps)

interpretation func_codec: fixed_codec funcitem_write read_funcitem 12 funcitem_ok
  by unfold_locales (auto simp: funcitem_write_def read_funcitem_def funcitem_ok_def codec_simps)

interpretation class_codec: fixed_codec classitem_write read_classitem 8 classitem_ok
  by unfold_locales (auto simp: classitem_write_def read_classitem_def classitem_ok_def codec_simps)

interpretation field_codec: fixed_codec fielditem_write read_fielditem 12 fielditem_ok
  by unfold_locales (auto simp: fielditem_write_def read_fielditem_def fielditem_ok_def codec_simps)

interpretation method_codec: fixed_codec methoditem_write read_methoditem 16 methoditem_ok
  by unfold_locales (auto simp: methoditem_write_def read_methoditem_def methoditem_ok_def codec_simps)

interpretation trait_codec: fixed_codec traititem_write read_traititem 8 traititem_ok
  by unfold_locales (auto simp: traititem_write_def read_traititem_def traititem_ok_def codec_simps)

interpretation nfunc_codec: fixed_codec nfuncitem_write read_nfuncitem 12 nfuncitem_ok
  by unfold_locales (auto simp: nfuncitem_write_def read_nfuncitem_def nfuncitem_ok_def codec_simps)

interpretation imeth_codec: fixed_codec imethitem_write read_imethitem 12 imethitem_ok
  by unfold_locales (auto simp: imethitem_write_def read_imethitem_def imethitem_ok_def codec_simps)

subsection \<open>Items of variable length\<close>

text \<open>\<open>int32 data[0] = len\<close> of a \<open>uint32\<close>.\<close>

definition int_of_uint32 :: "int \<Rightarrow> int" where
  "int_of_uint32 u = (if u < 2147483648 then u else u - 4294967296)"

text \<open>
  A length of four bytes and as many elements of \<open>esz\<close> bytes. Reading elements of total size zero
  makes \<open>fread\<close> answer 0, which the assertion behind it does not accept.
\<close>

definition read_va :: "nat \<Rightarrow> uint8 list \<Rightarrow> ((int \<times> uint8 list) \<times> uint8 list) run" where
  "read_va esz bs = (
     if length bs < 4 then Inl Assert_Failed
     else
       let len = le_uint (take 4 bs); n = nat len * esz; rest = drop 4 bs in
       if n = 0 \<or> length rest < n then Inl Assert_Failed
       else Inr ((int_of_uint32 len, take n rest), drop n rest))"

lemma read_va_write:
  assumes "0 < len" "int32_range len" "length body = nat len * esz" "0 < esz"
  shows "read_va esz (le_bytes 4 len @ body @ rest) = Inr ((len, body), rest)"
  using assms by (simp add: read_va_def Let_def int_of_uint32_def int32_range_def le_uint_le_bytes)

definition stringitem_write :: "StringItem \<Rightarrow> uint8 list" where
  "stringitem_write it = le_bytes 4 (si_length it) @ map byte_of_char (take (nat (si_length it)) (si_data it))"

definition read_stringitem :: "uint8 list \<Rightarrow> (StringItem \<times> uint8 list) run" where
  "read_stringitem bs = bind_run (read_va 1 bs)
     (\<lambda>((len, body), rest). Inr (\<lparr>si_length = len, si_data = map char_of_byte body\<rparr>, rest))"

definition stringitem_ok :: "StringItem \<Rightarrow> bool" where
  "stringitem_ok it \<longleftrightarrow> 0 < si_length it \<and> int32_range (si_length it) \<and> si_length it = int (length (si_data it))"

definition stringitem_length :: "StringItem \<Rightarrow> int" where
  "stringitem_length it = 4 + si_length it"

definition typelistitem_write :: "TypeListItem \<Rightarrow> uint8 list" where
  "typelistitem_write it = le_bytes 4 (tl_size it) @ concat (map (le_bytes 4) (take (nat (tl_size it)) (tl_index it)))"

definition read_typelistitem :: "uint8 list \<Rightarrow> (TypeListItem \<times> uint8 list) run" where
  "read_typelistitem bs = bind_run (read_va 4 bs)
     (\<lambda>((len, body), rest).
        Inr (\<lparr>tl_size = len, tl_index = map (\<lambda>i. int32_at i body) [0 ..< length body div 4]\<rparr>, rest))"

definition typelistitem_ok :: "TypeListItem \<Rightarrow> bool" where
  "typelistitem_ok it \<longleftrightarrow> 0 < tl_size it \<and> int32_range (tl_size it) \<and>
     tl_size it = int (length (tl_index it)) \<and> list_all int32_range (tl_index it)"

definition typelistitem_length :: "TypeListItem \<Rightarrow> int" where
  "typelistitem_length it = 4 + tl_size it * 4"

definition codeitem_write :: "CodeItem \<Rightarrow> uint8 list" where
  "codeitem_write it = le_bytes 4 (co_size it) @ take (nat (co_size it)) (co_codes it)"

definition read_codeitem :: "uint8 list \<Rightarrow> (CodeItem \<times> uint8 list) run" where
  "read_codeitem bs = bind_run (read_va 1 bs)
     (\<lambda>((len, body), rest). Inr (\<lparr>co_size = len, co_codes = body\<rparr>, rest))"

definition codeitem_ok :: "CodeItem \<Rightarrow> bool" where
  "codeitem_ok it \<longleftrightarrow> 0 < co_size it \<and> int32_range (co_size it) \<and> co_size it = int (length (co_codes it))"

definition codeitem_length :: "CodeItem \<Rightarrow> int" where
  "codeitem_length it = 4 + co_size it"

lemma int32s_write:
  "list_all int32_range xs \<Longrightarrow>
   map (\<lambda>i. int32_at i (concat (map (le_bytes 4) xs))) [0 ..< length xs] = xs"
proof (induction xs)
  case Nil
  then show ?case by simp
next
  case (Cons x xs)
  have "map (\<lambda>i. int32_at i (le_bytes 4 x @ concat (map (le_bytes 4) xs))) [0 ..< Suc (length xs)]
      = int32_at 0 (le_bytes 4 x @ concat (map (le_bytes 4) xs)) #
        map (\<lambda>i. int32_at i (concat (map (le_bytes 4) xs))) [0 ..< length xs]"
    by (simp add: upt_conv_Cons map_Suc_upt [symmetric] int32_at_next del: upt_Suc)
  with Cons show ?case by (simp add: int32_at_first le_sint4 del: upt_Suc)
qed

lemma length_int32s: "length (concat (map (le_bytes 4) xs)) = length xs * 4"
  by (induction xs) auto

interpretation string_codec: codec stringitem_write read_stringitem stringitem_ok
proof
  fix x rest assume ok: "stringitem_ok x"
  let ?b = "map byte_of_char (si_data x)"
  have "stringitem_write x @ rest = le_bytes 4 (si_length x) @ ?b @ rest"
    using ok by (simp add: stringitem_write_def stringitem_ok_def)
  moreover have "read_va 1 (le_bytes 4 (si_length x) @ ?b @ rest) = Inr ((si_length x, ?b), rest)"
    using ok by (intro read_va_write) (auto simp: stringitem_ok_def)
  ultimately show "read_stringitem (stringitem_write x @ rest) = Inr (x, rest)"
    by (simp add: read_stringitem_def o_def)
qed

interpretation typelist_codec: codec typelistitem_write read_typelistitem typelistitem_ok
proof
  fix x rest assume ok: "typelistitem_ok x"
  let ?b = "concat (map (le_bytes 4) (tl_index x))"
  have w: "typelistitem_write x @ rest = le_bytes 4 (tl_size x) @ ?b @ rest"
    using ok by (simp add: typelistitem_write_def typelistitem_ok_def)
  have "nat (tl_size x) = length (tl_index x)" using ok by (simp add: typelistitem_ok_def)
  then have "read_va 4 (le_bytes 4 (tl_size x) @ ?b @ rest) = Inr ((tl_size x, ?b), rest)"
    using ok length_int32s [of "tl_index x"] by (intro read_va_write) (auto simp: typelistitem_ok_def)
  moreover have "map (\<lambda>i. int32_at i ?b) [0 ..< length ?b div 4] = tl_index x"
    using ok int32s_write [of "tl_index x"] length_int32s [of "tl_index x"] by (simp add: typelistitem_ok_def)
  ultimately show "read_typelistitem (typelistitem_write x @ rest) = Inr (x, rest)"
    unfolding w by (simp add: read_typelistitem_def)
qed

interpretation code_codec: codec codeitem_write read_codeitem codeitem_ok
proof
  fix x rest assume ok: "codeitem_ok x"
  have "codeitem_write x @ rest = le_bytes 4 (co_size x) @ co_codes x @ rest"
    using ok by (simp add: codeitem_write_def codeitem_ok_def)
  moreover have "read_va 1 (le_bytes 4 (co_size x) @ co_codes x @ rest) = Inr ((co_size x, co_codes x), rest)"
    using ok by (intro read_va_write) (auto simp: codeitem_ok_def)
  ultimately show "read_codeitem (codeitem_write x @ rest) = Inr (x, rest)"
    by (simp add: read_codeitem_def)
qed

subsection \<open>Items\<close>

text \<open>The \<open>void *\<close> of the item table, with the struct it points to; the constructor is the type.\<close>

datatype Item =
    MapI MapItem
  | StringI StringItem
  | TypeI TypeItem
  | TypeListI TypeListItem
  | ProtoI ProtoItem
  | ConstI ConstItem
  | LocVarI LocVarItem
  | VarI VarItem
  | FuncI FuncItem
  | CodeI CodeItem
  | ClassI ClassItem
  | FieldI FieldItem
  | MethodI MethodItem
  | TraitI TraitItem
  | NFuncI NFuncItem
  | IMethI IMethItem

fun item_type :: "Item \<Rightarrow> nat" where
  "item_type (MapI it) = ITEM_MAP"
| "item_type (StringI it) = ITEM_STRING"
| "item_type (TypeI it) = ITEM_TYPE"
| "item_type (TypeListI it) = ITEM_TYPELIST"
| "item_type (ProtoI it) = ITEM_PROTO"
| "item_type (ConstI it) = ITEM_CONST"
| "item_type (LocVarI it) = ITEM_LOCVAR"
| "item_type (VarI it) = ITEM_VAR"
| "item_type (FuncI it) = ITEM_FUNC"
| "item_type (CodeI it) = ITEM_CODE"
| "item_type (ClassI it) = ITEM_CLASS"
| "item_type (FieldI it) = ITEM_FIELD"
| "item_type (MethodI it) = ITEM_METHOD"
| "item_type (TraitI it) = ITEM_TRAIT"
| "item_type (NFuncI it) = ITEM_NFUNC"
| "item_type (IMethI it) = ITEM_IMETH"

text \<open>The table \<open>item_func\<close>: length and write.\<close>

fun item_length :: "Item \<Rightarrow> int" where
  "item_length (MapI it) = mapitem_length it"
| "item_length (StringI it) = stringitem_length it"
| "item_length (TypeI it) = typeitem_length it"
| "item_length (TypeListI it) = typelistitem_length it"
| "item_length (ProtoI it) = protoitem_length it"
| "item_length (ConstI it) = constitem_length it"
| "item_length (LocVarI it) = locvaritem_length it"
| "item_length (VarI it) = varitem_length it"
| "item_length (FuncI it) = funcitem_length it"
| "item_length (CodeI it) = codeitem_length it"
| "item_length (ClassI it) = classitem_length it"
| "item_length (FieldI it) = fielditem_length it"
| "item_length (MethodI it) = methoditem_length it"
| "item_length (TraitI it) = traititem_length it"
| "item_length (NFuncI it) = nfuncitem_length it"
| "item_length (IMethI it) = imethitem_length it"

fun item_write :: "Item \<Rightarrow> uint8 list" where
  "item_write (MapI it) = mapitem_write it"
| "item_write (StringI it) = stringitem_write it"
| "item_write (TypeI it) = typeitem_write it"
| "item_write (TypeListI it) = typelistitem_write it"
| "item_write (ProtoI it) = protoitem_write it"
| "item_write (ConstI it) = constitem_write it"
| "item_write (LocVarI it) = locvaritem_write it"
| "item_write (VarI it) = varitem_write it"
| "item_write (FuncI it) = funcitem_write it"
| "item_write (CodeI it) = codeitem_write it"
| "item_write (ClassI it) = classitem_write it"
| "item_write (FieldI it) = fielditem_write it"
| "item_write (MethodI it) = methoditem_write it"
| "item_write (TraitI it) = traititem_write it"
| "item_write (NFuncI it) = nfuncitem_write it"
| "item_write (IMethI it) = imethitem_write it"

fun item_ok :: "Item \<Rightarrow> bool" where
  "item_ok (MapI it) = mapitem_ok it"
| "item_ok (StringI it) = stringitem_ok it"
| "item_ok (TypeI it) = typeitem_ok it"
| "item_ok (TypeListI it) = typelistitem_ok it"
| "item_ok (ProtoI it) = protoitem_ok it"
| "item_ok (LocVarI it) = locvaritem_ok it"
| "item_ok (VarI it) = varitem_ok it"
| "item_ok (FuncI it) = funcitem_ok it"
| "item_ok (CodeI it) = codeitem_ok it"
| "item_ok (ClassI it) = classitem_ok it"
| "item_ok (FieldI it) = fielditem_ok it"
| "item_ok (MethodI it) = methoditem_ok it"
| "item_ok (TraitI it) = traititem_ok it"
| "item_ok (NFuncI it) = nfuncitem_ok it"
| "item_ok (IMethI it) = imethitem_ok it"
| "item_ok (ConstI it) = constitem_ok (it\<lparr>ci_addr := 0\<rparr>)"

text \<open>The struct without the address it is at.\<close>

fun item_value :: "Item \<Rightarrow> Item" where
  "item_value (ConstI it) = ConstI (it\<lparr>ci_addr := 0\<rparr>)"
| "item_value it = it"

definition map_fst_run :: "('a \<Rightarrow> 'b) \<Rightarrow> ('a \<times> 'c) run \<Rightarrow> ('b \<times> 'c) run" where
  "map_fst_run f r = bind_run r (\<lambda>(x, rest). Inr (f x, rest))"

lemma map_fst_run_simps [simp]:
  "map_fst_run f (Inr (x, rest)) = Inr (f x, rest)" "map_fst_run f (Inl e) = Inl e"
  by (simp_all add: map_fst_run_def)

text \<open>One item of the switch in \<open>KImage_Read_File\<close>; a map entry of the type of maps is not expected.\<close>

definition item_read :: "nat \<Rightarrow> uint8 list \<Rightarrow> (Item \<times> uint8 list) run" where
  "item_read type bs = (
     if type = ITEM_STRING then map_fst_run StringI (read_stringitem bs)
     else if type = ITEM_TYPE then map_fst_run TypeI (read_fixed 12 read_typeitem bs)
     else if type = ITEM_TYPELIST then map_fst_run TypeListI (read_typelistitem bs)
     else if type = ITEM_PROTO then map_fst_run ProtoI (read_fixed 8 read_protoitem bs)
     else if type = ITEM_CONST then map_fst_run ConstI (read_fixed 16 read_constitem bs)
     else if type = ITEM_LOCVAR then map_fst_run LocVarI (read_fixed 16 read_locvaritem bs)
     else if type = ITEM_VAR then map_fst_run VarI (read_fixed 12 read_varitem bs)
     else if type = ITEM_FUNC then map_fst_run FuncI (read_fixed 12 read_funcitem bs)
     else if type = ITEM_CODE then map_fst_run CodeI (read_codeitem bs)
     else if type = ITEM_CLASS then map_fst_run ClassI (read_fixed 8 read_classitem bs)
     else if type = ITEM_FIELD then map_fst_run FieldI (read_fixed 12 read_fielditem bs)
     else if type = ITEM_METHOD then map_fst_run MethodI (read_fixed 16 read_methoditem bs)
     else if type = ITEM_TRAIT then map_fst_run TraitI (read_fixed 8 read_traititem bs)
     else if type = ITEM_NFUNC then map_fst_run NFuncI (read_fixed 12 read_nfuncitem bs)
     else if type = ITEM_IMETH then map_fst_run IMethI (read_fixed 12 read_imethitem bs)
     else Inl Assert_Failed)"

lemma item_read_write:
  assumes "item_ok it" "item_type it \<noteq> ITEM_MAP"
  shows "item_read (item_type it) (item_write it @ rest) = Inr (item_value it, rest)"
proof (cases it)
  case (ConstI c)
  have "constitem_write c = constitem_write (c\<lparr>ci_addr := 0\<rparr>)" by (simp add: constitem_write_def)
  with ConstI assms const_codec.rd_wr [of "c\<lparr>ci_addr := 0\<rparr>" rest] show ?thesis
    by (simp add: item_read_def item_types)
qed (use assms in \<open>simp_all add: item_read_def item_types string_codec.rd_wr type_codec.rd_wr
    typelist_codec.rd_wr proto_codec.rd_wr locvar_codec.rd_wr var_codec.rd_wr func_codec.rd_wr
    code_codec.rd_wr class_codec.rd_wr field_codec.rd_wr method_codec.rd_wr trait_codec.rd_wr
    nfunc_codec.rd_wr imeth_codec.rd_wr\<close>)

lemma item_length_write: "item_ok it \<Longrightarrow> item_length it = int (length (item_write it))"
  by (cases it)
    (simp_all add: map_codec.length_enc type_codec.length_enc proto_codec.length_enc const_codec.length_enc
      locvar_codec.length_enc var_codec.length_enc func_codec.length_enc class_codec.length_enc
      field_codec.length_enc method_codec.length_enc trait_codec.length_enc nfunc_codec.length_enc
      imeth_codec.length_enc mapitem_length_def typeitem_length_def protoitem_length_def
      constitem_length_def locvaritem_length_def varitem_length_def funcitem_length_def
      classitem_length_def fielditem_length_def methoditem_length_def traititem_length_def
      nfuncitem_length_def imethitem_length_def,
     auto simp: stringitem_length_def stringitem_write_def stringitem_ok_def typelistitem_length_def
      typelistitem_write_def typelistitem_ok_def codeitem_length_def codeitem_write_def codeitem_ok_def
      length_int32s)

end
