(* ===== verification/AtomTable.thy ===== *)
theory AtomTable
  imports HashTable Vector
begin

text \<open>
  \<open>src/atomtable.c\<close>, \<open>include/atomtable.h\<close>: the item store of an image file. For every item type
  there is a vector of items, and one hash table of entries (type, index, data) over all types
  through which unique items are found again.

  The client gives the hash and equality on entries. The interface \<open>atom_client\<close> extends
  \<open>hash_contract\<close> by the two facts every client keeps: the functions read the type and the data of
  an entry and not its index, and entries of different types are different.
\<close>

subsection \<open>Data and operations\<close>

record 'd AtomEntry =
  ae_type :: nat
  ae_index :: int
  ae_data :: 'd

record 'd AtomTable =
  at_table :: "'d AtomEntry HashTable"
  at_size :: nat
  at_items :: "'d Vector list"

definition AtomTable_New ::
  "nat \<Rightarrow> ('d AtomEntry \<Rightarrow> uint32) \<Rightarrow> ('d AtomEntry \<Rightarrow> 'd AtomEntry \<Rightarrow> bool) \<Rightarrow> 'd AtomTable" where
  "AtomTable_New n hash equal =
     \<lparr>at_table = the (HashTable_Init True hash equal), at_size = n, at_items = replicate n Vector_Init\<rparr>"

definition atomentry_new :: "addr \<Rightarrow> nat \<Rightarrow> int \<Rightarrow> 'd \<Rightarrow> 'd AtomEntry HashNode" where
  "atomentry_new a type index data = Init_HashNode a \<lparr>ae_type = type, ae_index = index, ae_data = data\<rparr>"

text \<open>
  \<open>a\<close> is the address of the new entry. The vector's result code is ignored in C, and the memory is
  assumed to be there.
\<close>

definition AtomTable_Append ::
  "addr \<Rightarrow> 'd AtomTable \<Rightarrow> nat \<Rightarrow> 'd \<Rightarrow> bool \<Rightarrow> (int \<times> 'd AtomTable) run" where
  "AtomTable_Append a table type data unique = (
     let vec = snd (Vector_Append True (at_items table ! type) (Some data));
         table1 = table\<lparr>at_items := (at_items table)[type := vec]\<rparr>;
         index = Vector_Size (Some vec) - 1 in
     if \<not> index \<ge> 0 then Inl Assert_Failed
     else if unique then
       (case HashTable_Insert True (at_table table1) (atomentry_new a type index data) of
          (res, ht, _) \<Rightarrow> if res \<noteq> 0 then Inl Assert_Failed else Inr (index, table1\<lparr>at_table := ht\<rparr>))
     else Inr (index, table1))"

definition AtomTable_Index :: "'d AtomTable \<Rightarrow> nat \<Rightarrow> 'd \<Rightarrow> int" where
  "AtomTable_Index table type data =
     (case HashTable_Find (at_table table) \<lparr>ae_type = type, ae_index = 0, ae_data = data\<rparr> of
        None \<Rightarrow> -1
      | Some hnode \<Rightarrow> ae_index (hn_key hnode))"

definition AtomTable_Get :: "'d AtomTable \<Rightarrow> nat \<Rightarrow> int \<Rightarrow> 'd option run" where
  "AtomTable_Get table type index =
     (if type < at_size table then Inr (Vector_Get (at_items table ! type) index) else Inl Assert_Failed)"

definition AtomTable_Size :: "'d AtomTable \<Rightarrow> nat \<Rightarrow> int run" where
  "AtomTable_Size table type =
     (if type < at_size table then Inr (Vector_Size (Some (at_items table ! type))) else Inl Assert_Failed)"

text \<open>The calls the visitor gets, in order: type and item.\<close>

definition AtomTable_Free :: "'d AtomTable option \<Rightarrow> (nat \<times> 'd option) list" where
  "AtomTable_Free table = (case table of None \<Rightarrow> []
     | Some t \<Rightarrow> concat (map (\<lambda>i. map (Pair i) (fst (Vector_Fini True (Some (at_items t ! i))))) [0 ..< at_size t]))"

subsection \<open>Invariant\<close>

definition items_of :: "'d AtomTable \<Rightarrow> nat \<Rightarrow> 'd list" where
  "items_of table type = vec_vals (at_items table ! type)"

definition at_inv ::
  "('d AtomEntry \<Rightarrow> uint32) \<Rightarrow> ('d AtomEntry \<Rightarrow> 'd AtomEntry \<Rightarrow> bool) \<Rightarrow>
   ('d AtomEntry \<Rightarrow> bool) \<Rightarrow> 'd AtomTable \<Rightarrow> bool" where
  "at_inv hash equal keydom table \<longleftrightarrow>
     ht_ok hash equal keydom (at_table table) \<and>
     length (at_items table) = at_size table \<and>
     (\<forall>v \<in> set (at_items table). vec_full v) \<and>
     (\<forall>n \<in> set (ht_head (at_table table)). case hn_key n of e \<Rightarrow>
        ae_type e < at_size table \<and> 0 \<le> ae_index e \<and>
        ae_index e < int (length (items_of table (ae_type e))) \<and>
        items_of table (ae_type e) ! nat (ae_index e) = ae_data e)"

definition at_addrs :: "'d AtomTable \<Rightarrow> addr set" where
  "at_addrs table = hn_addr ` set (ht_head (at_table table))"

lemma length_items_of: "at_inv h e d t \<Longrightarrow> type < at_size t \<Longrightarrow> vec_full (at_items t ! type)"
  by (auto simp: at_inv_def)

lemma AtomTable_Size_spec:
  "at_inv h e d t \<Longrightarrow> type < at_size t \<Longrightarrow> AtomTable_Size t type = Inr (int (length (items_of t type)))"
  using vec.size_elems [OF length_items_of, of h e d t type] by (simp add: AtomTable_Size_def items_of_def Vector_Size_def)

lemma AtomTable_Get_spec:
  "at_inv h e d t \<Longrightarrow> type < at_size t \<Longrightarrow> AtomTable_Get t type i =
     Inr (if 0 \<le> i \<and> i < int (length (items_of t type)) then Some (items_of t type ! nat i) else None)"
  using vec.get_elems [OF length_items_of, of h e d t type i] by (simp add: AtomTable_Get_def items_of_def)

text \<open>The vectors after an append, whether unique or not.\<close>

lemma AtomTable_Append_items:
  assumes "at_inv h e d t" "type < at_size t" "AtomTable_Append a t type data unique = Inr (i, t')"
  shows "at_size t' = at_size t" "i = int (length (items_of t type))"
    "items_of t' ty = (if ty = type then items_of t type @ [data] else items_of t ty)"
    "length (at_items t') = at_size t" "\<forall>v \<in> set (at_items t'). vec_full v"
proof -
  let ?v = "vec_push (at_items t ! type) (Some data)"
  have full: "vec_full (at_items t ! type)" by (rule length_items_of [OF assms(1,2)])
  have len: "length (at_items t) = at_size t" "\<forall>v \<in> set (at_items t). vec_full v"
    using assms(1) by (simp_all add: at_inv_def)
  have items: "at_items t' = (at_items t)[type := ?v]" "at_size t' = at_size t" "i = vec_size ?v - 1"
    using assms(3)
    by (auto simp: AtomTable_Append_def vec_push_def Vector_Size_def Let_def split: if_splits prod.splits)
  show "at_size t' = at_size t" by (fact items)
  show "i = int (length (items_of t type))"
    using items vec.size_push [OF full] vec.size_elems [OF full] by (simp add: items_of_def)
  show "items_of t' ty = (if ty = type then items_of t type @ [data] else items_of t ty)"
    using items assms(2) len vec.elems_push [OF full] by (simp add: items_of_def)
  show "length (at_items t') = at_size t" using items len by simp
  show "\<forall>v \<in> set (at_items t'). vec_full v"
    using items(1) len(2) vec.invar_push [OF full] set_update_subset_insert [of "at_items t" type ?v] by auto
qed

lemma entries_stable:
  assumes "at_inv h e d t" "n \<in> set (ht_head (at_table t))"
    and "\<And>ty. items_of t' ty = (if ty = type then items_of t type @ [data] else items_of t ty)"
    and "at_size t' = at_size t"
  shows "case hn_key n of e \<Rightarrow>
        ae_type e < at_size t' \<and> 0 \<le> ae_index e \<and>
        ae_index e < int (length (items_of t' (ae_type e))) \<and>
        items_of t' (ae_type e) ! nat (ae_index e) = ae_data e"
  using assms by (auto simp: at_inv_def nth_append)

text \<open>The entry a lookup builds on the stack.\<close>

definition key_of :: "nat \<Rightarrow> 'd \<Rightarrow> 'd AtomEntry" where
  "key_of type data = \<lparr>ae_type = type, ae_index = 0, ae_data = data\<rparr>"

subsection \<open>What clients rely on\<close>

locale atom_client = hash_contract hash equal keydom
  for hash :: "'d AtomEntry \<Rightarrow> uint32"
    and equal :: "'d AtomEntry \<Rightarrow> 'd AtomEntry \<Rightarrow> bool"
    and keydom :: "'d AtomEntry \<Rightarrow> bool" +
  assumes equal_index: "equal (x\<lparr>ae_index := i\<rparr>) (y\<lparr>ae_index := j\<rparr>) = equal x y"
    and hash_index: "hash (x\<lparr>ae_index := i\<rparr>) = hash x"
    and keydom_index: "keydom (x\<lparr>ae_index := i\<rparr>) = keydom x"
    and equal_type: "equal x y \<Longrightarrow> ae_type x = ae_type y"
begin

abbreviation at_ok :: "'d AtomTable \<Rightarrow> bool" where
  "at_ok \<equiv> at_inv hash equal keydom"

lemma at_ok_New: "at_ok (AtomTable_New n hash equal)" "items_of (AtomTable_New n hash equal) ty =
    (if ty < n then [] else items_of (AtomTable_New n hash equal) ty)"
proof -
  obtain t where t: "HashTable_Init True hash equal = Some t"
    by (auto simp: HashTable_Init_def new_entries_def)
  then show "at_ok (AtomTable_New n hash equal)"
    using good_Init [OF t] ht_Init_fields [OF t]
    by (simp add: at_inv_def AtomTable_New_def vec.invar_empty)
  show "items_of (AtomTable_New n hash equal) ty =
    (if ty < n then [] else items_of (AtomTable_New n hash equal) ty)"
    by (simp add: items_of_def AtomTable_New_def vec.elems_empty)
qed

lemma key_index: "\<lparr>ae_type = type, ae_index = i, ae_data = data\<rparr> = (key_of type data)\<lparr>ae_index := i\<rparr>"
  by (simp add: key_of_def)

lemma equal_key:
  "equal x \<lparr>ae_type = type, ae_index = i, ae_data = data\<rparr> = equal x (key_of type data)"
  using equal_index [where x = x and i = "ae_index x" and y = "key_of type data" and j = i] equal_index [where x = x and i = "ae_index x" and y = "key_of type data" and j = 0]
  by (simp add: key_of_def)

text \<open>An index that is found points at an equal item; nothing is found only when no unique item is equal.\<close>

lemma Index_found:
  assumes "at_ok t" "keydom (key_of type data)" "AtomTable_Index t type data = i" "i \<noteq> -1"
  shows "type < at_size t" "0 \<le> i" "i < int (length (items_of t type))"
    "equal (key_of type (items_of t type ! nat i)) (key_of type data)"
proof -
  have good: "good (at_table t)" using assms(1) by (simp add: at_inv_def)
  obtain n where n: "HashTable_Find (at_table t) (key_of type data) = Some n" "i = ae_index (hn_key n)"
    using assms(3,4) by (auto simp: AtomTable_Index_def key_of_def split: option.splits)
  then have m: "n \<in> set (ht_head (at_table t))" "equal (hn_key n) (key_of type data)"
    using Find_Some_iff [OF good assms(2)] by auto
  have ty: "ae_type (hn_key n) = type" using equal_type [OF m(2)] by (simp add: key_of_def)
  have *: "ae_type (hn_key n) < at_size t" "0 \<le> ae_index (hn_key n)"
    "ae_index (hn_key n) < int (length (items_of t (ae_type (hn_key n))))"
    "items_of t (ae_type (hn_key n)) ! nat (ae_index (hn_key n)) = ae_data (hn_key n)"
    using assms(1) m(1) by (auto simp: at_inv_def)
  then show "type < at_size t" "0 \<le> i" "i < int (length (items_of t type))" using n ty by auto
  have "(key_of type (ae_data (hn_key n)))\<lparr>ae_index := ae_index (hn_key n)\<rparr> = hn_key n"
    using ty by (simp add: key_of_def)
  then have "equal (key_of type (ae_data (hn_key n))) (key_of type data) = equal (hn_key n) (key_of type data)"
    using equal_index [where x = "key_of type (ae_data (hn_key n))" and i = "ae_index (hn_key n)" and y = "key_of type data" and j = 0]
    by (simp add: key_of_def)
  with m(2) * n ty show "equal (key_of type (items_of t type ! nat i)) (key_of type data)" by simp
qed

lemma Index_none_Find:
  assumes "at_ok t"
  shows "AtomTable_Index t type data = -1 \<longleftrightarrow> HashTable_Find (at_table t) (key_of type data) = None"
proof (cases "HashTable_Find (at_table t) (key_of type data)")
  case None
  then show ?thesis by (simp add: AtomTable_Index_def key_of_def)
next
  case (Some n)
  have n: "n \<in> set (ht_head (at_table t))"
    using Some HashTable_Find_hash_SomeD(1) [of "at_table t"] assms
    by (auto simp: HashTable_Find_def at_inv_def ht_ok_def)
  then have "0 \<le> ae_index (hn_key n)" using assms by (auto simp: at_inv_def)
  with Some show ?thesis by (auto simp: AtomTable_Index_def key_of_def)
qed

text \<open>Equal items are looked up with the same answer.\<close>

lemma Index_cong:
  assumes "at_ok t" "keydom (key_of a x)" "keydom (key_of b y)" "equal (key_of a x) (key_of b y)"
  shows "AtomTable_Index t a x = AtomTable_Index t b y"
proof -
  have good: "good (at_table t)" using assms(1) by (simp add: at_inv_def)
  have "HashTable_Find (at_table t) (key_of a x) = Some n \<longleftrightarrow> HashTable_Find (at_table t) (key_of b y) = Some n" for n
  proof -
    have "equal (hn_key n) (key_of a x) = equal (hn_key n) (key_of b y)" if "keydom (hn_key n)"
      using that assms(2-4) equal_trans equal_sym by metis
    moreover have "n \<in> set (ht_head (at_table t)) \<Longrightarrow> keydom (hn_key n)"
      using good by (auto simp: ht_ok_def)
    ultimately show ?thesis
      unfolding Find_Some_iff [OF good assms(2)] Find_Some_iff [OF good assms(3)] by blast
  qed
  then have "HashTable_Find (at_table t) (key_of a x) = HashTable_Find (at_table t) (key_of b y)"
    by (metis not_None_eq)
  then show ?thesis by (simp add: AtomTable_Index_def key_of_def)
qed

text \<open>Appending an item that is not unique.\<close>

lemma Append_plain:
  assumes "at_ok t" "type < at_size t"
  shows "\<exists>t'. AtomTable_Append a t type data False = Inr (int (length (items_of t type)), t') \<and> at_ok t' \<and>
    at_table t' = at_table t"
proof -
  have full: "vec_full (at_items t ! type)" by (rule length_items_of [OF assms])
  obtain t' where t': "AtomTable_Append a t type data False = Inr (int (length (items_of t type)), t')"
    "at_table t' = at_table t"
    using vec.size_push [OF full, of data] vec.size_elems [OF full]
    by (simp add: AtomTable_Append_def vec_push_def [symmetric] Vector_Size_def items_of_def Let_def)
  note it = AtomTable_Append_items [OF assms t'(1)]
  have "at_ok t'"
    using assms(1) it t'(2) entries_stable [OF assms(1) _ it(3) it(1)] by (auto simp: at_inv_def)
  with t' show ?thesis by blast
qed

text \<open>Appending a unique item that is not there yet.\<close>

lemma Append_unique:
  assumes "at_ok t" "type < at_size t" "keydom (key_of type data)" "a \<notin> at_addrs t"
    and "AtomTable_Index t type data = -1"
  shows "\<exists>t'. AtomTable_Append a t type data True = Inr (int (length (items_of t type)), t') \<and> at_ok t' \<and>
    at_addrs t' \<subseteq> insert a (at_addrs t) \<and>
    (\<forall>ty d. keydom (key_of ty d) \<longrightarrow> AtomTable_Index t' ty d =
       (if equal (key_of type data) (key_of ty d) then int (length (items_of t type))
        else AtomTable_Index t ty d))"
proof -
  let ?i = "int (length (items_of t type))"
  let ?n = "atomentry_new a type ?i data"
  have full: "vec_full (at_items t ! type)" by (rule length_items_of [OF assms(1,2)])
  have good: "good (at_table t)" using assms(1) by (simp add: at_inv_def)
  have key: "hn_key ?n = (key_of type data)\<lparr>ae_index := ?i\<rparr>" "hn_addr ?n = a" "\<not> hn_linked ?n"
    by (simp_all add: atomentry_new_def Init_HashNode_def key_of_def)
  have kd: "keydom (hn_key ?n)" using assms(3) by (simp only: key(1) keydom_index)
  have fr: "hn_addr ?n \<notin> hn_addr ` set (ht_head (at_table t))" using assms(4) key(2) by (simp add: at_addrs_def)
  obtain res ht n' where ins: "HashTable_Insert True (at_table t) ?n = (res, ht, n')" by (metis prod_cases3)
  note spec = Insert_spec [OF good key(3) kd fr ins]
  have eqk: "equal x (hn_key ?n) = equal x (key_of type data)" for x
    unfolding key(1) using equal_index [where x = x and i = "ae_index x" and y = "key_of type data" and j = ?i]
      equal_index [where x = x and i = "ae_index x" and y = "key_of type data" and j = 0] by (simp add: key_of_def)
  have "HashTable_Find (at_table t) (key_of type data) = None"
    using assms(5) Index_none_Find [OF assms(1)] by simp
  then have none: "HashTable_Find (at_table t) (hn_key ?n) = None"
    unfolding Find_None_iff [OF good kd] Find_None_iff [OF good assms(3)] eqk .
  with spec have res: "res = 0"
    and head: "ht_head ht = ht_head (at_table t) @ [?n\<lparr>hn_hash := hash (hn_key ?n), hn_linked := True\<rparr>]" by auto
  let ?t = "t\<lparr>at_items := (at_items t)[type := vec_push (at_items t ! type) (Some data)], at_table := ht\<rparr>"
  have app: "AtomTable_Append a t type data True = Inr (?i, ?t)"
    using vec.size_push [OF full, of data] vec.size_elems [OF full] ins res
    by (simp add: AtomTable_Append_def vec_push_def [symmetric] Vector_Size_def items_of_def Let_def)
  note it = AtomTable_Append_items [OF assms(1,2) app]
  have new: "ae_type (hn_key ?n) = type" "ae_index (hn_key ?n) = ?i" "ae_data (hn_key ?n) = data"
    by (simp_all add: key(1) key_of_def)
  have "at_ok ?t"
    using spec(1) it assms(2) entries_stable [OF assms(1) _ it(3) it(1)] new
    unfolding at_inv_def by (auto simp: head)
  moreover have "at_addrs ?t \<subseteq> insert a (at_addrs t)" using key(2) by (auto simp: at_addrs_def head)
  moreover have "AtomTable_Index ?t ty d =
      (if equal (key_of type data) (key_of ty d) then ?i else AtomTable_Index t ty d)"
    if kd2: "keydom (key_of ty d)" for ty d
  proof -
    have "equal (hn_key ?n) (key_of ty d) = equal (key_of type data) (key_of ty d)"
      unfolding key(1) using equal_index [where x = "key_of type data" and i = ?i and y = "key_of ty d" and j = 0] by (simp add: key_of_def)
    then show ?thesis
      using Find_after_Insert [OF good key(3) kd fr ins [unfolded res] kd2] new
      by (simp add: AtomTable_Index_def key_of_def)
  qed
  ultimately show ?thesis using app by blast
qed

end

end
