(* ===== verification/ImageTable.thy ===== *)
theory ImageTable
  imports ImageItem AtomTable
begin

unbundle bit_operations_syntax

text \<open>
  The item table of an image (\<open>src/image.c\<close>): the hash and equality of unique items, which make the
  table an \<open>atom_client\<close>, and the functions that find or add strings, types, lists of types,
  prototypes and constants.

  The store is the table with the next free address: every item and every table entry that is
  allocated takes the next one. Any allocator that answers unused addresses gives the same indexes.
\<close>

subsection \<open>Hash and equality of items\<close>

definition stringitem_hash :: "StringItem \<Rightarrow> uint32" where
  "stringitem_hash it = hash_string (si_data it)"

definition stringitem_equal :: "StringItem \<Rightarrow> StringItem \<Rightarrow> bool" where
  "stringitem_equal it1 it2 \<longleftrightarrow> str_eq (si_data it1) (si_data it2)"

definition typeitem_hash :: "TypeItem \<Rightarrow> uint32" where
  "typeitem_hash it = hash_uint32 (word_of_int (ti_pathindex it + ti_typeindex it)) 32"

definition typeitem_equal :: "TypeItem \<Rightarrow> TypeItem \<Rightarrow> bool" where
  "typeitem_equal it1 it2 = (
     if ti_kind it1 \<noteq> ti_kind it2 then False
     else if ti_pathindex it1 \<noteq> ti_pathindex it2 then False
     else if ti_typeindex it1 \<noteq> ti_typeindex it2 then False
     else True)"

definition typelistitem_hash :: "TypeListItem \<Rightarrow> uint32" where
  "typelistitem_hash it = (
     let total = foldl (\<lambda>total i. total + word_of_int i) 0 (take (nat (tl_size it)) (tl_index it))
     in hash_uint32 total 32)"

definition typelistitem_equal :: "TypeListItem \<Rightarrow> TypeListItem \<Rightarrow> bool" where
  "typelistitem_equal it1 it2 = (
     if tl_size it1 \<noteq> tl_size it2 then False
     else take (nat (tl_size it1)) (tl_index it1) = take (nat (tl_size it1)) (tl_index it2))"

definition protoitem_hash :: "ProtoItem \<Rightarrow> uint32" where
  "protoitem_hash it = (let total = word_of_int (pi_rindex it + pi_pindex it) in hash_uint32 total 32)"

definition protoitem_equal :: "ProtoItem \<Rightarrow> ProtoItem \<Rightarrow> bool" where
  "protoitem_equal it1 it2 \<longleftrightarrow> pi_rindex it1 = pi_rindex it2 \<and> pi_pindex it1 = pi_pindex it2"

text \<open>Floats and booleans are hashed by the address of the item; unknown types stop at an assertion.\<close>

definition constitem_hash :: "ConstItem \<Rightarrow> uint32 run" where
  "constitem_hash it = (
     if ci_type it = CONST_INT then Inr (hash_uint32 (ucast (ci_raw it)) 32)
     else if ci_type it = CONST_FLOAT then Inr (hash_uint32 (word_of_nat (ci_addr it)) 32)
     else if ci_type it = CONST_BOOL then Inr (hash_uint32 (word_of_nat (ci_addr it)) 32)
     else if ci_type it = CONST_STRING then Inr (hash_uint32 (word_of_int (ci_index it)) 32)
     else if ci_type it = CONST_UCHAR then Inr (hash_uint32 (ci_uch it) 32)
     else Inl Assert_Failed)"

text \<open>
  \<open>==\<close> on doubles by their bit patterns: not a number is unequal to everything, and the two zeros
  are equal.
\<close>

definition is_nan :: "uint64 \<Rightarrow> bool" where
  "is_nan w \<longleftrightarrow> w AND 0x7FF0000000000000 = 0x7FF0000000000000 \<and> w AND 0x000FFFFFFFFFFFFF \<noteq> 0"

definition float_eq :: "uint64 \<Rightarrow> uint64 \<Rightarrow> bool" where
  "float_eq v w \<longleftrightarrow> \<not> is_nan v \<and> \<not> is_nan w \<and> (v = w \<or> (v OR w) AND 0x7FFFFFFFFFFFFFFF = 0)"

definition constitem_equal :: "ConstItem \<Rightarrow> ConstItem \<Rightarrow> bool run" where
  "constitem_equal it1 it2 = (
     if ci_type it1 \<noteq> ci_type it2 then Inr False
     else if ci_type it1 = CONST_INT then Inr (ci_ival it1 = ci_ival it2)
     else if ci_type it1 = CONST_FLOAT then Inr (float_eq (ci_raw it1) (ci_raw it2))
     else if ci_type it1 = CONST_BOOL then Inr (ci_addr it1 = ci_addr it2)
     else if ci_type it1 = CONST_STRING then Inr (ci_index it1 = ci_index it2)
     else if ci_type it1 = CONST_UCHAR then Inr (ci_uch it1 = ci_uch it2)
     else Inl Assert_Failed)"

text \<open>
  The functions the table calls. Where the source asserts (no hash function for the type, an unknown
  constant) the value here is 0 or false; \<open>item_key\<close> below excludes these entries, and only such
  entries are stored.
\<close>

definition Item_Hash :: "Item AtomEntry \<Rightarrow> uint32" where
  "Item_Hash e = (case ae_data e of
     StringI it \<Rightarrow> stringitem_hash it
   | TypeI it \<Rightarrow> typeitem_hash it
   | TypeListI it \<Rightarrow> typelistitem_hash it
   | ProtoI it \<Rightarrow> protoitem_hash it
   | ConstI it \<Rightarrow> (case constitem_hash it of Inl _ \<Rightarrow> 0 | Inr h \<Rightarrow> h)
   | _ \<Rightarrow> 0)"

definition Item_Equal :: "Item AtomEntry \<Rightarrow> Item AtomEntry \<Rightarrow> bool" where
  "Item_Equal e1 e2 = (
     if ae_type e1 \<noteq> ae_type e2 then False
     else (case (ae_data e1, ae_data e2) of
       (StringI it1, StringI it2) \<Rightarrow> stringitem_equal it1 it2
     | (TypeI it1, TypeI it2) \<Rightarrow> typeitem_equal it1 it2
     | (TypeListI it1, TypeListI it2) \<Rightarrow> typelistitem_equal it1 it2
     | (ProtoI it1, ProtoI it2) \<Rightarrow> protoitem_equal it1 it2
     | (ConstI it1, ConstI it2) \<Rightarrow> constitem_equal it1 it2 = Inr True
     | _ \<Rightarrow> False))"

text \<open>
  The entries for which hash and equality agree: items of the type they are filed under, and no
  floats, whose equality compares values while their hash reads addresses.
\<close>

definition hashable_const :: "ConstItem \<Rightarrow> bool" where
  "hashable_const c \<longleftrightarrow> ci_type c \<in> {CONST_INT, CONST_BOOL, CONST_STRING, CONST_UCHAR}"

definition item_key :: "Item AtomEntry \<Rightarrow> bool" where
  "item_key e \<longleftrightarrow> ae_type e = item_type (ae_data e) \<and>
     (case ae_data e of StringI _ \<Rightarrow> True | TypeI _ \<Rightarrow> True | TypeListI _ \<Rightarrow> True | ProtoI _ \<Rightarrow> True
      | ConstI c \<Rightarrow> hashable_const c | _ \<Rightarrow> False)"

lemma Item_Equal_cases:
  assumes "Item_Equal a b"
  obtains (String) x y where "ae_data a = StringI x" "ae_data b = StringI y" "stringitem_equal x y"
  | (Type) x y where "ae_data a = TypeI x" "ae_data b = TypeI y" "typeitem_equal x y"
  | (TypeList) x y where "ae_data a = TypeListI x" "ae_data b = TypeListI y" "typelistitem_equal x y"
  | (Proto) x y where "ae_data a = ProtoI x" "ae_data b = ProtoI y" "protoitem_equal x y"
  | (Const) x y where "ae_data a = ConstI x" "ae_data b = ConstI y" "constitem_equal x y = Inr True"
  using assms by (cases "ae_data a"; cases "ae_data b") (auto simp: Item_Equal_def split: if_splits)

lemmas item_equal_defs = stringitem_equal_def typeitem_equal_def typelistitem_equal_def
  protoitem_equal_def constitem_equal_def

lemmas item_hash_defs = stringitem_hash_def typeitem_hash_def typelistitem_hash_def
  protoitem_hash_def constitem_hash_def

interpretation items: atom_client Item_Hash Item_Equal item_key
proof
  fix a b c :: "Item AtomEntry"
  show "item_key a \<Longrightarrow> Item_Equal a a"
    by (cases "ae_data a")
      (auto simp: item_key_def Item_Equal_def item_equal_defs hashable_const_def const_types)
  show "Item_Equal b a" if "item_key a" "item_key b" "Item_Equal a b"
    using that(3)
    by (cases rule: Item_Equal_cases)
      (use that in \<open>auto simp: Item_Equal_def item_equal_defs str_eq_def item_key_def hashable_const_def const_types split: if_splits\<close>)
  show "Item_Equal a c" if k: "item_key a" "item_key b" "item_key c" and ab: "Item_Equal a b" and bc: "Item_Equal b c"
  proof -
    have ty: "ae_type a = ae_type c" using ab bc by (simp add: Item_Equal_def split: if_splits)
    show ?thesis
      by (rule Item_Equal_cases [OF ab]; rule Item_Equal_cases [OF bc])
        (use k ty in \<open>auto simp: Item_Equal_def item_equal_defs str_eq_def item_key_def hashable_const_def
          const_types split: if_splits\<close>)
  qed
  show "Item_Hash a = Item_Hash b" if "item_key a" "item_key b" "Item_Equal a b"
    using that(3)
    by (cases rule: Item_Equal_cases)
      (use that in \<open>auto simp: Item_Hash_def item_hash_defs item_equal_defs const_types
        item_key_def hashable_const_def ci_ival_def dest!: signed_word_eqI intro: hash_string_str_eq split: if_splits\<close>)
next
  fix x y :: "Item AtomEntry" and i j
  show "Item_Equal (x\<lparr>ae_index := i\<rparr>) (y\<lparr>ae_index := j\<rparr>) = Item_Equal x y" by (simp add: Item_Equal_def)
  show "Item_Hash (x\<lparr>ae_index := i\<rparr>) = Item_Hash x" by (simp add: Item_Hash_def)
  show "item_key (x\<lparr>ae_index := i\<rparr>) = item_key x" by (simp add: item_key_def)
  show "Item_Equal x y \<Longrightarrow> ae_type x = ae_type y" by (simp add: Item_Equal_def split: if_splits)
qed

subsection \<open>The store\<close>

record ItemStore =
  is_table :: "Item AtomTable"
  is_brk :: addr

definition ItemStore_New :: ItemStore where
  "ItemStore_New = \<lparr>is_table = AtomTable_New ITEM_MAX Item_Hash Item_Equal, is_brk = 1\<rparr>"

text \<open>A new item gets the next address, its table entry the one after it.\<close>

fun at_address :: "addr \<Rightarrow> Item \<Rightarrow> Item" where
  "at_address a (ConstI c) = ConstI (c\<lparr>ci_addr := a\<rparr>)"
| "at_address a it = it"

definition append_item :: "ItemStore \<Rightarrow> nat \<Rightarrow> Item \<Rightarrow> bool \<Rightarrow> (int \<times> ItemStore) run" where
  "append_item st type it unique =
     bind_run (AtomTable_Append (is_brk st + 1) (is_table st) type (at_address (is_brk st) it) unique)
       (\<lambda>(index, table). Inr (index, \<lparr>is_table = table, is_brk = is_brk st + 2\<rparr>))"

subsection \<open>Strings\<close>

definition StringItem_Get :: "Item AtomTable \<Rightarrow> string \<Rightarrow> int" where
  "StringItem_Get table str = AtomTable_Index table ITEM_STRING (StringI (StringItem_New str))"

definition StringItem_Set :: "ItemStore \<Rightarrow> string \<Rightarrow> (int \<times> ItemStore) run" where
  "StringItem_Set st str = (
     let index = StringItem_Get (is_table st) str in
     if index < 0 then append_item st ITEM_STRING (StringI (StringItem_New str)) True
     else Inr (index, st))"

subsection \<open>Types\<close>

definition ProtoItem_Get :: "Item AtomTable \<Rightarrow> int \<Rightarrow> int \<Rightarrow> int" where
  "ProtoItem_Get table rindex pindex = AtomTable_Index table ITEM_PROTO (ProtoI (ProtoItem_New rindex pindex))"

text \<open>\<open>TypeListItem_Get\<close> after its loop over the types: \<open>None\<close> when one of them was not found.\<close>

definition typelist_get :: "Item AtomTable \<Rightarrow> TypeDesc list \<Rightarrow> int list option run \<Rightarrow> int run" where
  "typelist_get table desc indexes = (
     if desc = [] then Inr (-1)
     else bind_run indexes (\<lambda>r. Inr (case r of None \<Rightarrow> -1
       | Some is \<Rightarrow> AtomTable_Index table ITEM_TYPELIST (TypeListI (TypeListItem_New is)))))"

fun TypeItem_Get :: "Item AtomTable \<Rightarrow> TypeDesc \<Rightarrow> int run"
  and get_indexes :: "Item AtomTable \<Rightarrow> TypeDesc list \<Rightarrow> int list option run" where
  "TypeItem_Get table (TD_Base c) =
     Inr (AtomTable_Index table ITEM_TYPE (TypeI (TypeItem_Primitive_New c)))"
| "TypeItem_Get table (TD_Klass path type) = (
     let pathindex = (case path of None \<Rightarrow> -1 | Some p \<Rightarrow> StringItem_Get table p) in
     if path \<noteq> None \<and> pathindex < 0 then Inr pathindex
     else
       let typeindex = StringItem_Get table type in
       if typeindex < 0 then Inr typeindex
       else Inr (AtomTable_Index table ITEM_TYPE (TypeI (TypeItem_Klass_New pathindex typeindex))))"
| "TypeItem_Get table (TD_Proto arg ret) =
     bind_run (typelist_get table ret (get_indexes table ret)) (\<lambda>rindex.
     bind_run (typelist_get table arg (get_indexes table arg)) (\<lambda>pindex.
       Inr (AtomTable_Index table ITEM_TYPE
         (TypeI (TypeItem_Proto_New (ProtoItem_Get table rindex pindex))))))"
| "TypeItem_Get table (TD_Array dims base) =
     bind_run (TypeItem_Get table base) (\<lambda>typeindex.
       Inr (AtomTable_Index table ITEM_TYPE (TypeI (TypeItem_Array_New dims typeindex))))"
| "TypeItem_Get table (TD_Varg base) =
     bind_run (TypeItem_Get table base) (\<lambda>typeindex.
       Inr (AtomTable_Index table ITEM_TYPE (TypeI (TypeItem_Varg_New typeindex))))"
| "TypeItem_Get table (TD_Map key val) = Inl Assert_Failed"
| "TypeItem_Get table (TD_Set base) = Inl Assert_Failed"
| "get_indexes table [] = Inr (Some [])"
| "get_indexes table (d # ds) =
     bind_run (TypeItem_Get table d) (\<lambda>index.
       if index < 0 then Inr None
       else bind_run (get_indexes table ds) (\<lambda>r. Inr (map_option ((#) index) r)))"

definition TypeListItem_Get :: "Item AtomTable \<Rightarrow> TypeDesc list \<Rightarrow> int run" where
  "TypeListItem_Get table desc = typelist_get table desc (get_indexes table desc)"

text \<open>\<open>TypeListItem_Set\<close>, given its loop, and \<open>ProtoItem_Set\<close>, given the two lists.\<close>

definition typelist_set ::
  "ItemStore \<Rightarrow> TypeDesc list \<Rightarrow> (int list \<times> ItemStore) run \<Rightarrow> (int \<times> ItemStore) run" where
  "typelist_set st desc indexes = (
     if desc = [] then Inr (-1, st)
     else bind_run (TypeListItem_Get (is_table st) desc) (\<lambda>index.
       if index < 0 then
         bind_run indexes (\<lambda>(is, st1). append_item st1 ITEM_TYPELIST (TypeListI (TypeListItem_New is)) True)
       else Inr (index, st)))"

definition protoitem_set :: "ItemStore \<Rightarrow> int \<Rightarrow> int \<Rightarrow> (int \<times> ItemStore) run" where
  "protoitem_set st rindex pindex = (
     let index = ProtoItem_Get (is_table st) rindex pindex in
     if index < 0 then append_item st ITEM_PROTO (ProtoI (ProtoItem_New rindex pindex)) True
     else Inr (index, st))"

fun TypeItem_Set :: "ItemStore \<Rightarrow> TypeDesc \<Rightarrow> (int \<times> ItemStore) run"
  and set_indexes :: "ItemStore \<Rightarrow> TypeDesc list \<Rightarrow> (int list \<times> ItemStore) run" where
  "TypeItem_Set st (TD_Base c) =
     bind_run (TypeItem_Get (is_table st) (TD_Base c)) (\<lambda>index.
       if \<not> index < 0 then Inr (index, st)
       else append_item st ITEM_TYPE (TypeI (TypeItem_Primitive_New c)) True)"
| "TypeItem_Set st (TD_Klass path type) =
     bind_run (TypeItem_Get (is_table st) (TD_Klass path type)) (\<lambda>index.
       if \<not> index < 0 then Inr (index, st)
       else
         bind_run (case path of None \<Rightarrow> Inr (-1, st)
             | Some p \<Rightarrow> bind_run (StringItem_Set st p) (\<lambda>(pathindex, st1).
                 if pathindex \<ge> 0 then Inr (pathindex, st1) else Inl Assert_Failed)) (\<lambda>(pathindex, st1).
         bind_run (StringItem_Set st1 type) (\<lambda>(typeindex, st2).
           if \<not> typeindex \<ge> 0 then Inl Assert_Failed
           else append_item st2 ITEM_TYPE (TypeI (TypeItem_Klass_New pathindex typeindex)) True)))"
| "TypeItem_Set st (TD_Proto arg ret) =
     bind_run (TypeItem_Get (is_table st) (TD_Proto arg ret)) (\<lambda>index.
       if \<not> index < 0 then Inr (index, st)
       else
         bind_run (typelist_set st ret (set_indexes st ret)) (\<lambda>(rindex, st1).
         bind_run (typelist_set st1 arg (set_indexes st1 arg)) (\<lambda>(pindex, st2).
         bind_run (protoitem_set st2 rindex pindex) (\<lambda>(protoindex, st3).
           append_item st3 ITEM_TYPE (TypeI (TypeItem_Proto_New protoindex)) True))))"
| "TypeItem_Set st (TD_Array dims base) =
     bind_run (TypeItem_Get (is_table st) (TD_Array dims base)) (\<lambda>index.
       if \<not> index < 0 then Inr (index, st)
       else
         bind_run (TypeItem_Set st base) (\<lambda>(typeindex, st1).
           append_item st1 ITEM_TYPE (TypeI (TypeItem_Array_New dims typeindex)) True))"
| "TypeItem_Set st (TD_Varg base) =
     bind_run (TypeItem_Get (is_table st) (TD_Varg base)) (\<lambda>index.
       if \<not> index < 0 then Inr (index, st)
       else
         bind_run (TypeItem_Set st base) (\<lambda>(typeindex, st1).
           append_item st1 ITEM_TYPE (TypeI (TypeItem_Varg_New typeindex)) True))"
| "TypeItem_Set st (TD_Map key val) = Inl Assert_Failed"
| "TypeItem_Set st (TD_Set base) = Inl Assert_Failed"
| "set_indexes st [] = Inr ([], st)"
| "set_indexes st (d # ds) =
     bind_run (TypeItem_Set st d) (\<lambda>(index, st1).
       if index < 0 then Inl Assert_Failed
       else bind_run (set_indexes st1 ds) (\<lambda>(is, st2). Inr (index # is, st2)))"

definition TypeListItem_Set :: "ItemStore \<Rightarrow> TypeDesc list \<Rightarrow> (int \<times> ItemStore) run" where
  "TypeListItem_Set st desc = typelist_set st desc (set_indexes st desc)"

text \<open>The prototype of a function, given by its arguments and results.\<close>

definition ProtoItem_Set :: "ItemStore \<Rightarrow> TypeDesc list \<Rightarrow> TypeDesc list \<Rightarrow> (int \<times> ItemStore) run" where
  "ProtoItem_Set st arg ret =
     bind_run (TypeListItem_Set st ret) (\<lambda>(rindex, st1).
     bind_run (TypeListItem_Set st1 arg) (\<lambda>(pindex, st2). protoitem_set st2 rindex pindex))"

subsection \<open>Constants and code\<close>

definition ConstItem_Get :: "Item AtomTable \<Rightarrow> ConstItem \<Rightarrow> int" where
  "ConstItem_Get table it = AtomTable_Index table ITEM_CONST (ConstI it)"

text \<open>
  What the \<open>KImage_Add\<close> functions of constants do: look the constant up with a key on the stack,
  at address \<open>k\<close>, and append a new item if there is none.
\<close>

definition const_set :: "addr \<Rightarrow> ItemStore \<Rightarrow> ConstItem \<Rightarrow> (int \<times> ItemStore) run" where
  "const_set k st it = (
     let index = ConstItem_Get (is_table st) (it\<lparr>ci_addr := k\<rparr>) in
     if index < 0 then append_item st ITEM_CONST (ConstI it) True else Inr (index, st))"

definition codeitem_set :: "ItemStore \<Rightarrow> uint8 list \<Rightarrow> int \<Rightarrow> (int \<times> ItemStore) run" where
  "codeitem_set st codes sz = append_item st ITEM_CODE (CodeI (CodeItem_New codes sz)) False"

end
