(* ===== verification/ImageStore.thy ===== *)
theory ImageStore
  imports ImageTable
begin

text \<open>
  What the shared item pools of a compilation image promise (\<^verbatim>\<open>src/src/image.c\<close>): the invariant of
  the store, and what adding a string or a type does.  The operations themselves are in
  \<^verbatim>\<open>ImageTable\<close>.
\<close>

subsection \<open>Invariant of the store\<close>

abbreviation its :: "ItemStore \<Rightarrow> nat \<Rightarrow> Item list" where
  "its st ty \<equiv> items_of (is_table st) ty"

text \<open>
  The table is well formed, holds each item under its own type, and its entries lie below the next
  free address. The items of the pools that share are hashable, and looking one up answers the index
  it is at: in particular no pool holds two equal items.
\<close>

definition shared_types :: "nat set" where
  "shared_types = {ITEM_STRING, ITEM_TYPE, ITEM_TYPELIST, ITEM_PROTO, ITEM_CONST}"

definition indexed :: "ItemStore \<Rightarrow> bool" where
  "indexed st \<longleftrightarrow> (\<forall>ty \<in> shared_types. \<forall>i < length (its st ty).
     item_key (key_of ty (its st ty ! i)) \<and>
     AtomTable_Index (is_table st) ty (its st ty ! i) = int i)"

definition base_ok :: "ItemStore \<Rightarrow> bool" where
  "base_ok st \<longleftrightarrow> at_inv Item_Hash Item_Equal item_key (is_table st) \<and>
     at_size (is_table st) = ITEM_MAX \<and>
     (\<forall>a \<in> at_addrs (is_table st). a < is_brk st) \<and>
     (\<forall>ty < ITEM_MAX. \<forall>it \<in> set (its st ty). item_type it = ty) \<and>
     (\<forall>c. ConstI c \<in> set (its st ITEM_CONST) \<longrightarrow> ci_addr c < is_brk st) \<and>
     indexed st"

text \<open>What a type item at position \<open>k\<close> refers to is there already: strings, and types before it.\<close>

definition type_refs_ok :: "ItemStore \<Rightarrow> nat \<Rightarrow> TypeItem \<Rightarrow> bool" where
  "type_refs_ok st k t \<longleftrightarrow>
     (ti_kind t = TYPE_KLASS \<longrightarrow>
        (ti_pathindex t = -1 \<or> 0 \<le> ti_pathindex t \<and> ti_pathindex t < int (length (its st ITEM_STRING))) \<and>
        0 \<le> ti_typeindex t \<and> ti_typeindex t < int (length (its st ITEM_STRING))) \<and>
     (ti_kind t = TYPE_ARRAY \<longrightarrow> 0 \<le> ti_array_typeindex t \<and> ti_array_typeindex t < int k) \<and>
     (ti_kind t = TYPE_VARG \<longrightarrow> 0 \<le> ti_varg_typeindex t \<and> ti_varg_typeindex t < int k)"

definition refs_ok :: "ItemStore \<Rightarrow> bool" where
  "refs_ok st \<longleftrightarrow>
     (\<forall>k t. k < length (its st ITEM_TYPE) \<longrightarrow> its st ITEM_TYPE ! k = TypeI t \<longrightarrow> type_refs_ok st k t) \<and>
     (\<forall>l. TypeListI l \<in> set (its st ITEM_TYPELIST) \<longrightarrow>
        tl_size l = int (length (tl_index l)) \<and>
        (\<forall>i \<in> set (tl_index l). 0 \<le> i \<and> i < int (length (its st ITEM_TYPE))))"

definition store_ok :: "ItemStore \<Rightarrow> bool" where
  "store_ok st \<longleftrightarrow> base_ok st \<and> refs_ok st"

definition extends :: "ItemStore \<Rightarrow> ItemStore \<Rightarrow> bool" where
  "extends st st' \<longleftrightarrow> (\<forall>ty < ITEM_MAX. \<exists>xs. its st' ty = its st ty @ xs)"

lemma extends_refl [simp]: "extends st st"
  by (simp add: extends_def)

lemma extends_trans: "extends st1 st2 \<Longrightarrow> extends st2 st3 \<Longrightarrow> extends st1 st3"
  unfolding extends_def by (metis append_assoc)

lemma extends_nth:
  assumes "extends st st'" "ty < ITEM_MAX" "k < length (its st ty)"
  shows "k < length (its st' ty) \<and> its st' ty ! k = its st ty ! k"
proof -
  obtain xs where "its st' ty = its st ty @ xs" using assms by (auto simp: extends_def)
  with assms(3) show ?thesis by (simp add: nth_append)
qed

lemma extendsE:
  assumes "extends st st'" "ty < ITEM_MAX"
  obtains xs where "its st' ty = its st ty @ xs"
  using assms unfolding extends_def by blast

lemma item_lt_max [simp]: "ITEM_STRING < ITEM_MAX" "ITEM_TYPE < ITEM_MAX" "ITEM_TYPELIST < ITEM_MAX"
  "ITEM_PROTO < ITEM_MAX" "ITEM_CONST < ITEM_MAX"
  by (simp_all add: item_types)

lemma base_ok_inv [simp]: "base_ok st \<Longrightarrow> at_inv Item_Hash Item_Equal item_key (is_table st)"
  by (simp add: base_ok_def)

lemma store_ok_base [simp]: "store_ok st \<Longrightarrow> base_ok st"
  by (simp add: store_ok_def)

lemma items_New: "ty < ITEM_MAX \<Longrightarrow> its ItemStore_New ty = []"
  by (simp add: ItemStore_New_def items_of_def AtomTable_New_def vec.elems_empty)

lemma store_ok_New [inv_intros]: "store_ok ItemStore_New"
proof -
  have t: "HashTable_Init True Item_Hash Item_Equal = Some (at_table (is_table ItemStore_New))"
    by (simp add: ItemStore_New_def AtomTable_New_def HashTable_Init_def new_entries_def)
  have "at_addrs (is_table ItemStore_New) = {}"
    using ht_Init_fields [OF t] by (simp add: at_addrs_def)
  moreover have "at_inv Item_Hash Item_Equal item_key (is_table ItemStore_New)"
    using items.at_ok_New(1) [of ITEM_MAX] by (simp add: ItemStore_New_def)
  moreover have "at_size (is_table ItemStore_New) = ITEM_MAX"
    by (simp add: ItemStore_New_def AtomTable_New_def)
  ultimately show ?thesis
    by (simp add: store_ok_def base_ok_def refs_ok_def items_New item_types indexed_def shared_types_def)
qed

subsection \<open>Appending an item\<close>

definition item_kind_ok :: "nat \<Rightarrow> Item \<Rightarrow> bool" where
  "item_kind_ok ty it \<longleftrightarrow> ty < ITEM_MAX \<and> item_type it = ty"

lemma item_type_at_address [simp]: "item_type (at_address a it) = item_type it"
  by (cases it) auto

lemma base_ok_append:
  assumes "base_ok st" "item_kind_ok ty it" "at_inv Item_Hash Item_Equal item_key t'"
    and "at_size t' = at_size (is_table st)"
    and "\<And>ty'. items_of t' ty' = (if ty' = ty then its st ty @ [it] else its st ty')"
    and "at_addrs t' \<subseteq> insert (is_brk st + 1) (at_addrs (is_table st))"
    and "it = at_address (is_brk st) it'" "indexed \<lparr>is_table = t', is_brk = is_brk st + 2\<rparr>"
  shows "base_ok \<lparr>is_table = t', is_brk = is_brk st + 2\<rparr>"
proof -
  have "a < is_brk st + 2" if "a \<in> at_addrs t'" for a
  proof -
    from that assms(6) have "a = is_brk st + 1 \<or> a \<in> at_addrs (is_table st)" by blast
    with assms(1) show ?thesis by (auto simp: base_ok_def)
  qed
  moreover have "ci_addr c < is_brk st + 2" if "ConstI c \<in> set (items_of t' ITEM_CONST)" for c
  proof -
    have "ConstI c \<in> set (its st ITEM_CONST) \<or> ConstI c = at_address (is_brk st) it'"
      using that assms(5,7) by (auto split: if_splits)
    then show ?thesis
    proof
      assume "ConstI c = at_address (is_brk st) it'"
      then show ?thesis by (cases it') auto
    qed (use assms(1) in \<open>auto simp: base_ok_def\<close>)
  qed
  ultimately show ?thesis using assms(1-5,8) by (auto simp: base_ok_def item_kind_ok_def)
qed

lemma indexedD:
  "base_ok st \<Longrightarrow> ty \<in> shared_types \<Longrightarrow> i < length (its st ty) \<Longrightarrow>
   item_key (key_of ty (its st ty ! i)) \<and> AtomTable_Index (is_table st) ty (its st ty ! i) = int i"
  by (simp add: base_ok_def indexed_def)

lemma indexed_plain:
  assumes "base_ok st" "ty \<notin> shared_types" "at_table t' = at_table (is_table st)"
    and "\<And>ty'. items_of t' ty' = (if ty' = ty then its st ty @ [it] else its st ty')"
  shows "indexed \<lparr>is_table = t', is_brk = b\<rparr>"
proof -
  have "AtomTable_Index t' ty' d = AtomTable_Index (is_table st) ty' d" for ty' d
    using assms(3) by (simp add: AtomTable_Index_def)
  with indexedD [OF assms(1)] assms(2,4) show ?thesis by (auto simp: indexed_def)
qed

lemma indexed_unique:
  assumes "base_ok st" "item_key (key_of ty it)" "AtomTable_Index (is_table st) ty it = -1"
    and "\<And>ty'. items_of t' ty' = (if ty' = ty then its st ty @ [it] else its st ty')"
    and "\<And>ty' d. item_key (key_of ty' d) \<Longrightarrow> AtomTable_Index t' ty' d =
       (if Item_Equal (key_of ty it) (key_of ty' d) then int (length (its st ty))
        else AtomTable_Index (is_table st) ty' d)"
  shows "indexed \<lparr>is_table = t', is_brk = b\<rparr>"
  unfolding indexed_def
proof (intro ballI allI impI)
  fix ty' i assume ty': "ty' \<in> shared_types" and i: "i < length (its \<lparr>is_table = t', is_brk = b\<rparr> ty')"
  let ?P = "\<lambda>x. item_key (key_of ty' x) \<and> AtomTable_Index t' ty' x = int i"
  have new: "?P (its \<lparr>is_table = t', is_brk = b\<rparr> ty' ! i)"
  proof (cases "ty' = ty \<and> i = length (its st ty)")
    case True
    then have "its \<lparr>is_table = t', is_brk = b\<rparr> ty' ! i = it" by (simp add: assms(4))
    with True assms(2,5) show ?thesis by (simp add: items.equal_refl)
  next
    case False
    with i have l: "i < length (its st ty')" "its \<lparr>is_table = t', is_brk = b\<rparr> ty' ! i = its st ty' ! i"
      by (auto simp: assms(4) nth_append split: if_splits)
    note k = indexedD [OF assms(1) ty' l(1)]
    have "\<not> Item_Equal (key_of ty it) (key_of ty' (its st ty' ! i))"
    proof
      assume e: "Item_Equal (key_of ty it) (key_of ty' (its st ty' ! i))"
      have "AtomTable_Index (is_table st) ty it = AtomTable_Index (is_table st) ty' (its st ty' ! i)"
        by (rule items.Index_cong [OF _ assms(2) conjunct1 [OF k] e]) (use assms(1) in \<open>simp add: base_ok_def\<close>)
      with assms(3) k show False by simp
    qed
    with k l assms(5) show ?thesis by simp
  qed
  then show "item_key (key_of ty' (its \<lparr>is_table = t', is_brk = b\<rparr> ty' ! i)) \<and>
      AtomTable_Index (is_table \<lparr>is_table = t', is_brk = b\<rparr>) ty' (its \<lparr>is_table = t', is_brk = b\<rparr> ty' ! i) = int i"
    by simp
qed

lemma append_plain:
  assumes "base_ok st" "item_kind_ok ty it" "ty \<notin> shared_types"
  shows "\<exists>st'. append_item st ty it False = Inr (int (length (its st ty)), st') \<and> base_ok st' \<and>
    (\<forall>ty'. its st' ty' = (if ty' = ty then its st ty @ [at_address (is_brk st) it] else its st ty'))"
proof -
  let ?it = "at_address (is_brk st) it"
  have ty: "ty < at_size (is_table st)" using assms by (simp add: base_ok_def item_kind_ok_def)
  obtain t' where t': "AtomTable_Append (is_brk st + 1) (is_table st) ty ?it False = Inr (int (length (its st ty)), t')"
    "at_inv Item_Hash Item_Equal item_key t'" "at_table t' = at_table (is_table st)"
    using items.Append_plain [OF base_ok_inv [OF assms(1)] ty, of "is_brk st + 1" ?it] by blast
  note it = AtomTable_Append_items [OF base_ok_inv [OF assms(1)] ty t'(1)]
  have "base_ok \<lparr>is_table = t', is_brk = is_brk st + 2\<rparr>"
    by (rule base_ok_append [OF assms(1) _ t'(2) it(1) it(3) _ refl indexed_plain [OF assms(1,3) t'(3) it(3)]])
      (use assms(2) t'(3) in \<open>auto simp: item_kind_ok_def at_addrs_def\<close>)
  with t'(1) it(3) show ?thesis by (simp add: append_item_def)
qed

lemma append_unique:
  assumes "base_ok st" "item_kind_ok ty it" "item_key (key_of ty (at_address (is_brk st) it))"
    and "AtomTable_Index (is_table st) ty (at_address (is_brk st) it) = -1"
  shows "\<exists>st'. append_item st ty it True = Inr (int (length (its st ty)), st') \<and> base_ok st' \<and>
    (\<forall>ty'. its st' ty' = (if ty' = ty then its st ty @ [at_address (is_brk st) it] else its st ty')) \<and>
    (\<forall>ty' d. item_key (key_of ty' d) \<longrightarrow> AtomTable_Index (is_table st') ty' d =
       (if Item_Equal (key_of ty (at_address (is_brk st) it)) (key_of ty' d) then int (length (its st ty))
        else AtomTable_Index (is_table st) ty' d))"
proof -
  let ?it = "at_address (is_brk st) it"
  have ty: "ty < at_size (is_table st)" using assms by (simp add: base_ok_def item_kind_ok_def)
  have fr: "is_brk st + 1 \<notin> at_addrs (is_table st)" using assms(1) by (auto simp: base_ok_def)
  obtain t' where t': "AtomTable_Append (is_brk st + 1) (is_table st) ty ?it True = Inr (int (length (its st ty)), t')"
    "at_inv Item_Hash Item_Equal item_key t'" "at_addrs t' \<subseteq> insert (is_brk st + 1) (at_addrs (is_table st))"
    "\<forall>ty' d. item_key (key_of ty' d) \<longrightarrow> AtomTable_Index t' ty' d =
       (if Item_Equal (key_of ty ?it) (key_of ty' d) then int (length (its st ty))
        else AtomTable_Index (is_table st) ty' d)"
    using items.Append_unique [OF base_ok_inv [OF assms(1)] ty assms(3) fr assms(4)] by blast
  note it = AtomTable_Append_items [OF base_ok_inv [OF assms(1)] ty t'(1)]
  have "base_ok \<lparr>is_table = t', is_brk = is_brk st + 2\<rparr>"
    by (rule base_ok_append [OF assms(1) _ t'(2) it(1) it(3) t'(3) refl indexed_unique [OF assms(1,3,4) it(3)]])
      (use assms(2) t'(4) in \<open>auto simp: item_kind_ok_def\<close>)
  with t'(1,4) it(3) show ?thesis by (simp add: append_item_def)
qed

lemma Index_lt:
  assumes "base_ok st" "item_key (key_of ty d)" "AtomTable_Index (is_table st) ty d \<noteq> -1"
  shows "0 \<le> AtomTable_Index (is_table st) ty d"
    "AtomTable_Index (is_table st) ty d < int (length (its st ty))"
    "Item_Equal (key_of ty (its st ty ! nat (AtomTable_Index (is_table st) ty d))) (key_of ty d)"
  using items.Index_found [OF base_ok_inv [OF assms(1)] assms(2) refl assms(3)] by auto

lemma Index_neg:
  "base_ok st \<Longrightarrow> item_key (key_of ty d) \<Longrightarrow> AtomTable_Index (is_table st) ty d < 0 \<longleftrightarrow>
   AtomTable_Index (is_table st) ty d = -1"
  using Index_lt(1) [of st ty d] by fastforce

lemma Item_Equal_key [simp]:
  "Item_Equal (key_of a (StringI x)) (key_of b (StringI y)) \<longleftrightarrow> a = b \<and> stringitem_equal x y"
  "Item_Equal (key_of a (TypeI t)) (key_of b (TypeI u)) \<longleftrightarrow> a = b \<and> typeitem_equal t u"
  "Item_Equal (key_of a (TypeListI l)) (key_of b (TypeListI m)) \<longleftrightarrow> a = b \<and> typelistitem_equal l m"
  "Item_Equal (key_of a (ProtoI p)) (key_of b (ProtoI q)) \<longleftrightarrow> a = b \<and> protoitem_equal p q"
  "Item_Equal (key_of a (ConstI c)) (key_of b (ConstI d)) \<longleftrightarrow> a = b \<and> constitem_equal c d = Inr True"
  by (simp_all add: Item_Equal_def key_of_def)

lemma Item_Equal_type: "Item_Equal (key_of a x) (key_of b y) \<Longrightarrow> a = b"
  by (simp add: Item_Equal_def key_of_def split: if_splits)

lemma ae_data_key [simp]: "ae_data (key_of ty x) = x"
  by (simp add: key_of_def)

subsection \<open>Strings\<close>

definition string_at :: "ItemStore \<Rightarrow> int \<Rightarrow> string \<Rightarrow> bool" where
  "string_at st i s \<longleftrightarrow> 0 \<le> i \<and> i < int (length (its st ITEM_STRING)) \<and>
     (\<exists>it. its st ITEM_STRING ! nat i = StringI it \<and> cstr (si_data it) = cstr s)"

lemma string_at_extends:
  assumes "string_at st i s" "extends st st'"
  shows "string_at st' i s"
proof -
  have "nat i < length (its st ITEM_STRING)" "ITEM_STRING < ITEM_MAX" "0 \<le> i"
    using assms(1) by (auto simp: string_at_def item_types)
  with extends_nth [OF assms(2), of ITEM_STRING "nat i"] assms(1) show ?thesis
    by (auto simp: string_at_def)
qed

lemma string_key [simp]: "item_key (key_of ITEM_STRING (StringI x))"
  by (simp add: item_key_def key_of_def)

lemma cstr_StringItem_New [simp]: "cstr (si_data (StringItem_New s)) = cstr s"
  by (simp add: StringItem_New_def cstr_append cstr_Cons)

lemma StringItem_Get_found:
  assumes "base_ok st" "StringItem_Get (is_table st) s \<noteq> -1"
  shows "string_at st (StringItem_Get (is_table st) s) s"
proof -
  note f = Index_lt [OF assms(1) string_key assms(2) [unfolded StringItem_Get_def]]
  from f(3) show ?thesis
    by (cases rule: Item_Equal_cases)
      (use f(1,2) in \<open>auto simp: string_at_def StringItem_Get_def stringitem_equal_def str_eq_def\<close>)
qed

lemma StringItem_Set_spec:
  assumes "base_ok st"
  shows "\<exists>i st'. StringItem_Set st s = Inr (i, st') \<and> base_ok st' \<and> extends st st' \<and> string_at st' i s \<and>
    (\<forall>ty. ty \<noteq> ITEM_STRING \<longrightarrow> its st' ty = its st ty) \<and>
    (if StringItem_Get (is_table st) s = -1
     then i = int (length (its st ITEM_STRING)) \<and>
       (\<exists>it. its st' ITEM_STRING = its st ITEM_STRING @ [StringI it])
     else st' = st \<and> i = StringItem_Get (is_table st) s) \<and>
    StringItem_Get (is_table st') s = i \<and>
    (\<forall>ty d. item_key (key_of ty d) \<longrightarrow> ty \<noteq> ITEM_STRING \<longrightarrow>
       AtomTable_Index (is_table st') ty d = AtomTable_Index (is_table st) ty d)"
proof (cases "StringItem_Get (is_table st) s = -1")
  case False
  have "\<not> StringItem_Get (is_table st) s < 0"
    using False Index_neg [OF assms string_key] by (simp add: StringItem_Get_def)
  with False StringItem_Get_found [OF assms False] assms show ?thesis
    by (simp add: StringItem_Set_def)
next
  case True
  let ?n = "StringI (StringItem_New s)"
  have k: "item_kind_ok ITEM_STRING ?n" by (simp add: item_kind_ok_def item_types)
  obtain st' where st': "append_item st ITEM_STRING ?n True = Inr (int (length (its st ITEM_STRING)), st')"
    "base_ok st'" "\<forall>ty'. its st' ty' = (if ty' = ITEM_STRING then its st ITEM_STRING @ [?n] else its st ty')"
    "\<forall>ty' d. item_key (key_of ty' d) \<longrightarrow> AtomTable_Index (is_table st') ty' d =
       (if Item_Equal (key_of ITEM_STRING ?n) (key_of ty' d) then int (length (its st ITEM_STRING))
        else AtomTable_Index (is_table st) ty' d)"
    using append_unique [OF assms k] True by (auto simp: StringItem_Get_def)
  have "StringItem_Get (is_table st') s = int (length (its st ITEM_STRING))"
    using st'(4) by (simp add: StringItem_Get_def stringitem_equal_def)
  moreover have "\<not> Item_Equal (key_of ITEM_STRING ?n) (key_of ty d)" if "ty \<noteq> ITEM_STRING" for ty d
    using that Item_Equal_type by blast
  ultimately show ?thesis
    using True st' by (auto simp: StringItem_Set_def extends_def string_at_def)
qed

subsection \<open>Types\<close>

definition item_at :: "ItemStore \<Rightarrow> int \<Rightarrow> TypeItem \<Rightarrow> bool" where
  "item_at st i t \<longleftrightarrow> 0 \<le> i \<and> i < int (length (its st ITEM_TYPE)) \<and> its st ITEM_TYPE ! nat i = TypeI t"

text \<open>The item at an index is the descriptor, through the items it refers to.\<close>

fun type_at :: "ItemStore \<Rightarrow> int \<Rightarrow> TypeDesc \<Rightarrow> bool" where
  "type_at st i (TD_Base c) \<longleftrightarrow> item_at st i (TypeItem_Primitive_New c)"
| "type_at st i (TD_Klass path type) \<longleftrightarrow>
     (\<exists>pathindex typeindex. item_at st i (TypeItem_Klass_New pathindex typeindex) \<and>
        (case path of None \<Rightarrow> pathindex = -1 | Some p \<Rightarrow> string_at st pathindex p) \<and>
        string_at st typeindex type)"
| "type_at st i (TD_Array dims base) \<longleftrightarrow>
     (\<exists>typeindex. item_at st i (TypeItem_Array_New dims typeindex) \<and> type_at st typeindex base)"
| "type_at st i (TD_Varg base) \<longleftrightarrow>
     (\<exists>typeindex. item_at st i (TypeItem_Varg_New typeindex) \<and> type_at st typeindex base)"
| "type_at st i (TD_Proto arg ret) \<longleftrightarrow> False"
| "type_at st i (TD_Map key val) \<longleftrightarrow> False"
| "type_at st i (TD_Set base) \<longleftrightarrow> False"

text \<open>Descriptors without prototypes, maps and sets.\<close>

fun plain_type :: "TypeDesc \<Rightarrow> bool" where
  "plain_type (TD_Base c) = True"
| "plain_type (TD_Klass path type) = True"
| "plain_type (TD_Array dims base) = plain_type base"
| "plain_type (TD_Varg base) = plain_type base"
| "plain_type (TD_Proto arg ret) = False"
| "plain_type (TD_Map key val) = False"
| "plain_type (TD_Set base) = False"

lemma type_key [simp]: "item_key (key_of ITEM_TYPE (TypeI x))"
  by (simp add: item_key_def key_of_def)

lemma typeitem_equal_eq: "typeitem_equal t u \<longleftrightarrow> t = u"
  by (cases t; cases u) (auto simp: typeitem_equal_def)

lemma item_at_extends:
  assumes "item_at st i t" "extends st st'"
  shows "item_at st' i t"
proof -
  have "nat i < length (its st ITEM_TYPE)" "0 \<le> i" using assms(1) by (auto simp: item_at_def)
  with extends_nth [OF assms(2), of ITEM_TYPE "nat i"] assms(1) show ?thesis by (auto simp: item_at_def)
qed

lemma type_at_extends: "type_at st i d \<Longrightarrow> extends st st' \<Longrightarrow> type_at st' i d"
proof (induction d arbitrary: i)
  case (TD_Klass p t)
  then obtain pi ti where "item_at st i (TypeItem_Klass_New pi ti)" "string_at st ti t"
    "case p of None \<Rightarrow> pi = -1 | Some x \<Rightarrow> string_at st pi x" by auto
  with TD_Klass.prems(2) have "item_at st' i (TypeItem_Klass_New pi ti)" "string_at st' ti t"
    "case p of None \<Rightarrow> pi = -1 | Some x \<Rightarrow> string_at st' pi x"
    by (auto split: option.splits intro: item_at_extends string_at_extends)
  then show ?case by auto
qed (auto intro: item_at_extends)

lemma type_at_range: "type_at st i d \<Longrightarrow> 0 \<le> i \<and> i < int (length (its st ITEM_TYPE))"
  by (cases d) (auto simp: item_at_def)

lemma TypeIndex_found:
  assumes "base_ok st" "AtomTable_Index (is_table st) ITEM_TYPE (TypeI t) \<noteq> -1"
  shows "item_at st (AtomTable_Index (is_table st) ITEM_TYPE (TypeI t)) t"
proof -
  note f = Index_lt [OF assms(1) type_key assms(2)]
  from f(3) show ?thesis
    by (cases rule: Item_Equal_cases) (use f(1,2) in \<open>auto simp: item_at_def typeitem_equal_eq\<close>)
qed

lemma TypeIndex_none:
  assumes "base_ok st" "\<And>i. \<not> item_at st i t"
  shows "AtomTable_Index (is_table st) ITEM_TYPE (TypeI t) = -1"
  using TypeIndex_found [OF assms(1)] assms(2) by blast

lemma refs_ok_item:
  "store_ok st \<Longrightarrow> item_at st i t \<Longrightarrow> type_refs_ok st (nat i) t"
  by (auto simp: store_ok_def refs_ok_def item_at_def)

text \<open>References stay in range when the store grows.\<close>

lemma type_refs_ok_extends:
  assumes "type_refs_ok st k t" "extends st st'"
  shows "type_refs_ok st' k t"
proof -
  obtain xs where "its st' ITEM_STRING = its st ITEM_STRING @ xs"
    using extendsE [OF assms(2), of ITEM_STRING] by auto
  with assms(1) show ?thesis by (auto simp: type_refs_ok_def)
qed

lemma store_ok_strings:
  assumes "store_ok st" "base_ok st'" "extends st st'" "\<forall>ty. ty \<noteq> ITEM_STRING \<longrightarrow> its st' ty = its st ty"
  shows "store_ok st'"
proof -
  have "its st' ITEM_TYPE = its st ITEM_TYPE" "its st' ITEM_TYPELIST = its st ITEM_TYPELIST"
    using assms(4) by (simp_all add: item_types)
  with assms(1-3) show ?thesis
    by (auto simp: store_ok_def refs_ok_def intro: type_refs_ok_extends)
qed

text \<open>A type item that is not there yet.\<close>

lemma append_type:
  assumes "store_ok st" "AtomTable_Index (is_table st) ITEM_TYPE (TypeI t) = -1"
    and "type_refs_ok st (length (its st ITEM_TYPE)) t"
  shows "\<exists>st'. append_item st ITEM_TYPE (TypeI t) True = Inr (int (length (its st ITEM_TYPE)), st') \<and>
    store_ok st' \<and> extends st st' \<and> item_at st' (int (length (its st ITEM_TYPE))) t \<and>
    its st' ITEM_TYPE = its st ITEM_TYPE @ [TypeI t] \<and>
    (\<forall>ty. ty \<noteq> ITEM_TYPE \<longrightarrow> its st' ty = its st ty)"
proof -
  have k: "item_kind_ok ITEM_TYPE (TypeI t)" by (simp add: item_kind_ok_def item_types)
  obtain st' where st': "append_item st ITEM_TYPE (TypeI t) True = Inr (int (length (its st ITEM_TYPE)), st')"
    "base_ok st'" "\<forall>ty'. its st' ty' = (if ty' = ITEM_TYPE then its st ITEM_TYPE @ [TypeI t] else its st ty')"
    using append_unique [OF store_ok_base [OF assms(1)] k] assms(2) by auto
  have ex: "extends st st'" using st'(3) by (auto simp: extends_def)
  have s: "its st' ITEM_TYPELIST = its st ITEM_TYPELIST" "its st' ITEM_TYPE = its st ITEM_TYPE @ [TypeI t]"
    using st'(3) by (auto simp: item_types)
  have "refs_ok st'"
    unfolding refs_ok_def
  proof (intro conjI allI impI)
    fix k u assume "k < length (its st' ITEM_TYPE)" "its st' ITEM_TYPE ! k = TypeI u"
    with s(2) assms(1,3) have "type_refs_ok st k u"
      by (cases "k < length (its st ITEM_TYPE)")
        (auto simp: store_ok_def refs_ok_def nth_append less_Suc_eq)
    then show "type_refs_ok st' k u" using ex by (rule type_refs_ok_extends)
  next
    fix l assume "TypeListI l \<in> set (its st' ITEM_TYPELIST)"
    then show "tl_size l = int (length (tl_index l))"
      and "\<forall>i \<in> set (tl_index l). 0 \<le> i \<and> i < int (length (its st' ITEM_TYPE))"
      using assms(1) s by (fastforce simp: store_ok_def refs_ok_def)+
  qed
  with st' ex s show ?thesis by (simp add: store_ok_def item_at_def nth_append)
qed

lemma TypeItem_Get_spec:
  assumes "plain_type d" "store_ok st"
  shows "\<exists>i. TypeItem_Get (is_table st) d = Inr i \<and> (i = -1 \<or> type_at st i d)"
  using assms
proof (induction d)
  case (TD_Base c)
  then show ?case using TypeIndex_found [OF store_ok_base] by auto
next
  case (TD_Klass p t)
  have neg: "StringItem_Get (is_table st) s < 0 \<longleftrightarrow> StringItem_Get (is_table st) s = -1" for s
    using Index_neg [OF store_ok_base [OF TD_Klass.prems(2)] string_key] by (simp add: StringItem_Get_def)
  note found = StringItem_Get_found [OF store_ok_base [OF TD_Klass.prems(2)]]
  note tfound = TypeIndex_found [OF store_ok_base [OF TD_Klass.prems(2)]]
  let ?pi = "case p of None \<Rightarrow> -1 | Some x \<Rightarrow> StringItem_Get (is_table st) x"
  let ?ti = "StringItem_Get (is_table st) t"
  let ?i = "AtomTable_Index (is_table st) ITEM_TYPE (TypeI (TypeItem_Klass_New ?pi ?ti))"
  consider "p \<noteq> None \<and> ?pi = -1" | "\<not> (p \<noteq> None \<and> ?pi = -1)" "?ti = -1"
    | "\<not> (p \<noteq> None \<and> ?pi = -1)" "?ti \<noteq> -1" by blast
  then show ?case
  proof cases
    case 1
    then show ?thesis by (auto simp: Let_def)
  next
    case 2
    with neg show ?thesis by (cases p) (simp_all add: Let_def)
  next
    case 3
    then have "TypeItem_Get (is_table st) (TD_Klass p t) = Inr ?i"
      using neg by (cases p) (simp_all add: Let_def)
    moreover have "type_at st ?i (TD_Klass p t)" if "?i \<noteq> -1"
    proof -
      have "case p of None \<Rightarrow> ?pi = -1 | Some x \<Rightarrow> string_at st ?pi x"
        using 3 found by (auto split: option.splits)
      with tfound [OF that] found [OF 3(2)] show ?thesis unfolding type_at.simps by blast
    qed
    ultimately show ?thesis by blast
  qed
next
  case (TD_Array n b)
  then obtain j where j: "TypeItem_Get (is_table st) b = Inr j" "j = -1 \<or> type_at st j b" by auto
  have "\<not> item_at st i (TypeItem_Array_New n (-1))" for i
    using refs_ok_item [OF TD_Array.prems(2), of i "TypeItem_Array_New n (-1)"]
    by (auto simp: type_refs_ok_def TypeItem_Array_New_def type_kinds)
  with j TypeIndex_found [OF store_ok_base [OF TD_Array.prems(2)]] show ?case by fastforce
next
  case (TD_Varg b)
  then obtain j where j: "TypeItem_Get (is_table st) b = Inr j" "j = -1 \<or> type_at st j b" by auto
  have "\<not> item_at st i (TypeItem_Varg_New (-1))" for i
    using refs_ok_item [OF TD_Varg.prems(2), of i "TypeItem_Varg_New (-1)"]
    by (auto simp: type_refs_ok_def TypeItem_Varg_New_def type_kinds)
  with j TypeIndex_found [OF store_ok_base [OF TD_Varg.prems(2)]] show ?case by fastforce
qed simp_all

text \<open>What adding a type does: found, or appended last.\<close>

definition type_added :: "ItemStore \<Rightarrow> TypeDesc \<Rightarrow> int \<Rightarrow> ItemStore \<Rightarrow> bool" where
  "type_added st d i st' \<longleftrightarrow> store_ok st' \<and> extends st st' \<and> type_at st' i d \<and>
     (\<forall>ty. ty \<noteq> ITEM_STRING \<longrightarrow> ty \<noteq> ITEM_TYPE \<longrightarrow> its st' ty = its st ty) \<and>
     (if TypeItem_Get (is_table st) d = Inr (-1)
      then int (length (its st ITEM_TYPE)) \<le> i \<and> int (length (its st' ITEM_TYPE)) = i + 1
      else TypeItem_Get (is_table st) d = Inr i \<and> st' = st)"

lemma type_added_append:
  assumes "store_ok st" "store_ok st1" "extends st st1" "TypeItem_Get (is_table st) d = Inr (-1)"
    and "\<forall>ty. ty \<noteq> ITEM_STRING \<longrightarrow> ty \<noteq> ITEM_TYPE \<longrightarrow> its st1 ty = its st ty"
    and "AtomTable_Index (is_table st1) ITEM_TYPE (TypeI t) = -1"
    and "type_refs_ok st1 (length (its st1 ITEM_TYPE)) t"
    and "\<And>st' i. extends st1 st' \<Longrightarrow> item_at st' i t \<Longrightarrow> type_at st' i d"
  shows "\<exists>i st'. append_item st1 ITEM_TYPE (TypeI t) True = Inr (i, st') \<and> type_added st d i st'"
proof -
  obtain st' where st': "append_item st1 ITEM_TYPE (TypeI t) True = Inr (int (length (its st1 ITEM_TYPE)), st')"
    "store_ok st'" "extends st1 st'" "item_at st' (int (length (its st1 ITEM_TYPE))) t"
    "its st' ITEM_TYPE = its st1 ITEM_TYPE @ [TypeI t]" "\<forall>ty. ty \<noteq> ITEM_TYPE \<longrightarrow> its st' ty = its st1 ty"
    using append_type [OF assms(2,6,7)] by blast
  obtain xs where "its st1 ITEM_TYPE = its st ITEM_TYPE @ xs"
    using extendsE [OF assms(3), of ITEM_TYPE] by auto
  with st' assms show ?thesis
    by (auto simp: type_added_def intro: extends_trans)
qed

lemma type_added_found:
  assumes "store_ok st" "TypeItem_Get (is_table st) d = Inr i" "type_at st i d"
  shows "type_added st d i st"
  using assms type_at_range [OF assms(3)] by (simp add: type_added_def)

lemma TypeItem_Set_klass:
  assumes "store_ok st"
  shows "\<exists>i st'. TypeItem_Set st (TD_Klass p t) = Inr (i, st') \<and> type_added st (TD_Klass p t) i st'"
proof -
  obtain i where i: "TypeItem_Get (is_table st) (TD_Klass p t) = Inr i" "i = -1 \<or> type_at st i (TD_Klass p t)"
    using TypeItem_Get_spec [of "TD_Klass p t", OF _ assms] by auto
  show ?thesis
  proof (cases "i = -1")
    case False
    with i have "type_at st i (TD_Klass p t)" "\<not> i < 0" using type_at_range [of st i "TD_Klass p t"] by auto
    with i(1) assms show ?thesis
      by (simp add: type_added_found del: TypeItem_Get.simps type_at.simps)
  next
    case True
    let ?g = "StringItem_Get (is_table st)"
    let ?n = "int (length (its st ITEM_STRING))"
    obtain pi st1 where 1: "(case p of None \<Rightarrow> Inr (-1, st)
             | Some p \<Rightarrow> bind_run (StringItem_Set st p) (\<lambda>(pathindex, st1).
                 if pathindex \<ge> 0 then Inr (pathindex, st1) else Inl Assert_Failed)) = Inr (pi, st1)"
      "base_ok st1" "extends st st1" "\<forall>ty. ty \<noteq> ITEM_STRING \<longrightarrow> its st1 ty = its st ty"
      "case p of None \<Rightarrow> pi = -1 | Some x \<Rightarrow> string_at st1 pi x"
      "case p of None \<Rightarrow> st1 = st | Some x \<Rightarrow> if ?g x = -1 then pi = ?n else st1 = st \<and> pi = ?g x"
    proof (cases p)
      case None
      with assms that [of "-1" st] show ?thesis by simp
    next
      case (Some x)
      obtain k st1 where k: "StringItem_Set st x = Inr (k, st1)" "base_ok st1" "extends st st1" "string_at st1 k x"
        "\<forall>ty. ty \<noteq> ITEM_STRING \<longrightarrow> its st1 ty = its st ty" "if ?g x = -1 then k = ?n else st1 = st \<and> k = ?g x"
        using StringItem_Set_spec [OF store_ok_base [OF assms], of x] by auto
      then have "0 \<le> k" by (simp add: string_at_def)
      with k Some that [of k st1] show ?thesis by simp
    qed
    obtain ti st2 where 2: "StringItem_Set st1 t = Inr (ti, st2)" "base_ok st2" "extends st1 st2" "string_at st2 ti t"
      "\<forall>ty. ty \<noteq> ITEM_STRING \<longrightarrow> its st2 ty = its st1 ty"
      "if StringItem_Get (is_table st1) t = -1 then ti = int (length (its st1 ITEM_STRING))
       else st2 = st1 \<and> ti = StringItem_Get (is_table st1) t"
      using StringItem_Set_spec [OF 1(2), of t] by auto
    have "0 \<le> ti" using 2(4) by (simp add: string_at_def)
    have ex: "extends st st2" using 1(3) 2(3) by (rule extends_trans)
    have same: "\<forall>ty. ty \<noteq> ITEM_STRING \<longrightarrow> its st2 ty = its st ty" using 1(4) 2(5) by simp
    have st2: "store_ok st2" by (rule store_ok_strings [OF assms 2(2) ex same])
    let ?t = "TypeItem_Klass_New pi ti"
    have P2: "case p of None \<Rightarrow> pi = -1 | Some x \<Rightarrow> string_at st2 pi x"
      using 1(5) string_at_extends [OF _ 2(3)] by (auto split: option.splits)
    have no: "AtomTable_Index (is_table st2) ITEM_TYPE (TypeI ?t) = -1"
    proof (cases "(p = None \<or> ?g (the p) \<noteq> -1) \<and> ?g t \<noteq> -1")
      case found: True
      then have s1: "st1 = st" using 1(6) by (auto split: option.splits)
      with 2(6) found have s2: "st2 = st" "ti = ?g t" by auto
      have "\<not> ?g s < 0 \<longleftrightarrow> ?g s \<noteq> -1" for s
        using Index_neg [OF store_ok_base [OF assms] string_key] by (simp add: StringItem_Get_def)
      with i(1) True found 1(5,6) s2 show ?thesis
        by (cases p) (auto simp: Let_def)
    next
      case False
      show ?thesis
      proof (rule TypeIndex_none [OF 2(2)])
        fix k
        show "\<not> item_at st2 k ?t"
        proof
          assume "item_at st2 k ?t"
          with same have "item_at st k ?t" by (simp add: item_at_def item_types)
          from refs_ok_item [OF assms this]
          have r: "(pi = -1 \<or> pi < ?n) \<and> ti < ?n"
            by (auto simp: type_refs_ok_def TypeItem_Klass_New_def)
          from False show False
          proof (cases "p = None \<or> ?g (the p) \<noteq> -1")
            case True
            then have "st1 = st" using 1(6) by (auto split: option.splits)
            with True False 2(6) r show False by auto
          next
            case False
            with 1(6) r show False by auto
          qed
        qed
      qed
    qed
    have r: "type_refs_ok st2 (length (its st2 ITEM_TYPE)) ?t"
      using P2 2(4) by (auto simp: type_refs_ok_def TypeItem_Klass_New_def type_kinds string_at_def split: option.splits)
    have "\<exists>i st'. append_item st2 ITEM_TYPE (TypeI ?t) True = Inr (i, st') \<and> type_added st (TD_Klass p t) i st'"
    proof (rule type_added_append [OF assms st2 ex _ _ no r])
      show "TypeItem_Get (is_table st) (TD_Klass p t) = Inr (-1)" using i(1) True by simp
      show "\<forall>ty. ty \<noteq> ITEM_STRING \<longrightarrow> ty \<noteq> ITEM_TYPE \<longrightarrow> its st2 ty = its st ty" using same by simp
      fix st' i assume e: "extends st2 st'" "item_at st' i ?t"
      have "case p of None \<Rightarrow> pi = -1 | Some x \<Rightarrow> string_at st' pi x"
        using P2 string_at_extends [OF _ e(1)] by (auto split: option.splits)
      with e(2) string_at_extends [OF 2(4) e(1)] show "type_at st' i (TD_Klass p t)" by auto
    qed
    then show ?thesis
      using i(1) True 1(1) 2(1) \<open>0 \<le> ti\<close> by (simp del: TypeItem_Get.simps)
  qed
qed

text \<open>A type item that refers to the base type just added is not there yet.\<close>

lemma type_not_there:
  assumes "type_added st b j st1" "TypeItem_Get (is_table st) b = Inr (-1)"
    and "\<And>k. type_refs_ok st1 k t \<Longrightarrow> j < int k"
  shows "AtomTable_Index (is_table st1) ITEM_TYPE (TypeI t) = -1"
proof -
  have "store_ok st1" "int (length (its st1 ITEM_TYPE)) = j + 1"
    using assms(1,2) by (simp_all add: type_added_def)
  with refs_ok_item [of st1 _ t] assms(3) show ?thesis
    by (intro TypeIndex_none) (fastforce simp: item_at_def)+
qed

lemma TypeItem_Set_spec:
  assumes "plain_type d" "store_ok st"
  shows "\<exists>i st'. TypeItem_Set st d = Inr (i, st') \<and> type_added st d i st'"
  using assms
proof (induction d arbitrary: st)
  case (TD_Base c)
  let ?t = "TypeItem_Primitive_New c"
  let ?i = "AtomTable_Index (is_table st) ITEM_TYPE (TypeI ?t)"
  have neg: "?i < 0 \<longleftrightarrow> ?i = -1" by (rule Index_neg [OF store_ok_base [OF TD_Base(2)] type_key])
  show ?case
  proof (cases "?i = -1")
    case True
    have "type_refs_ok st (length (its st ITEM_TYPE)) ?t"
      by (simp add: type_refs_ok_def TypeItem_Primitive_New_def type_kinds)
    from type_added_append [OF TD_Base(2) TD_Base(2) extends_refl _ _ True this, of "TD_Base c"] True
    show ?thesis by simp
  next
    case False
    with neg TypeIndex_found [OF store_ok_base [OF TD_Base(2)] False] TD_Base(2) show ?thesis
      by (simp add: type_added_found)
  qed
next
  case (TD_Klass p t)
  from TD_Klass(2) show ?case by (rule TypeItem_Set_klass)
next
  case (TD_Array n b)
  obtain i where i: "TypeItem_Get (is_table st) (TD_Array n b) = Inr i" "i = -1 \<or> type_at st i (TD_Array n b)"
    using TypeItem_Get_spec [OF TD_Array.prems] by blast
  show ?case
  proof (cases "i = -1")
    case False
    with i have "type_at st i (TD_Array n b)" "\<not> i < 0" using type_at_range [of st i "TD_Array n b"] by auto
    with i(1) TD_Array.prems(2) show ?thesis
      by (simp add: type_added_found del: TypeItem_Get.simps type_at.simps)
  next
    case True
    obtain j st1 where j: "TypeItem_Set st b = Inr (j, st1)" "type_added st b j st1"
      using TD_Array.IH [of st] TD_Array.prems by auto
    let ?t = "TypeItem_Array_New n j"
    have s1: "store_ok st1" "extends st st1" "type_at st1 j b"
      "\<forall>ty. ty \<noteq> ITEM_STRING \<longrightarrow> ty \<noteq> ITEM_TYPE \<longrightarrow> its st1 ty = its st ty"
      using j(2) by (auto simp: type_added_def)
    have no: "AtomTable_Index (is_table st1) ITEM_TYPE (TypeI ?t) = -1"
    proof (cases "TypeItem_Get (is_table st) b = Inr (-1)")
      case True
      with j(2) show ?thesis
        by (rule type_not_there) (auto simp: type_refs_ok_def TypeItem_Array_New_def)
    next
      case False
      then have "TypeItem_Get (is_table st) b = Inr j" "st1 = st" using j(2) by (simp_all add: type_added_def)
      with i(1) True show ?thesis by simp
    qed
    have r: "type_refs_ok st1 (length (its st1 ITEM_TYPE)) ?t"
      using type_at_range [OF s1(3)] by (simp add: type_refs_ok_def TypeItem_Array_New_def type_kinds)
    have "\<exists>i st'. append_item st1 ITEM_TYPE (TypeI ?t) True = Inr (i, st') \<and> type_added st (TD_Array n b) i st'"
      by (rule type_added_append [OF TD_Array.prems(2) s1(1,2) _ s1(4) no r])
        (use i(1) True s1(3) type_at_extends in auto)
    then show ?thesis using i(1) True j(1) by (simp del: TypeItem_Get.simps)
  qed
next
  case (TD_Varg b)
  obtain i where i: "TypeItem_Get (is_table st) (TD_Varg b) = Inr i" "i = -1 \<or> type_at st i (TD_Varg b)"
    using TypeItem_Get_spec [OF TD_Varg.prems] by blast
  show ?case
  proof (cases "i = -1")
    case False
    with i have "type_at st i (TD_Varg b)" "\<not> i < 0" using type_at_range [of st i "TD_Varg b"] by auto
    with i(1) TD_Varg.prems(2) show ?thesis
      by (simp add: type_added_found del: TypeItem_Get.simps type_at.simps)
  next
    case True
    obtain j st1 where j: "TypeItem_Set st b = Inr (j, st1)" "type_added st b j st1"
      using TD_Varg.IH [of st] TD_Varg.prems by auto
    let ?t = "TypeItem_Varg_New j"
    have s1: "store_ok st1" "extends st st1" "type_at st1 j b"
      "\<forall>ty. ty \<noteq> ITEM_STRING \<longrightarrow> ty \<noteq> ITEM_TYPE \<longrightarrow> its st1 ty = its st ty"
      using j(2) by (auto simp: type_added_def)
    have no: "AtomTable_Index (is_table st1) ITEM_TYPE (TypeI ?t) = -1"
    proof (cases "TypeItem_Get (is_table st) b = Inr (-1)")
      case True
      with j(2) show ?thesis
        by (rule type_not_there) (auto simp: type_refs_ok_def TypeItem_Varg_New_def)
    next
      case False
      then have "TypeItem_Get (is_table st) b = Inr j" "st1 = st" using j(2) by (simp_all add: type_added_def)
      with i(1) True show ?thesis by simp
    qed
    have r: "type_refs_ok st1 (length (its st1 ITEM_TYPE)) ?t"
      using type_at_range [OF s1(3)] by (simp add: type_refs_ok_def TypeItem_Varg_New_def type_kinds)
    have "\<exists>i st'. append_item st1 ITEM_TYPE (TypeI ?t) True = Inr (i, st') \<and> type_added st (TD_Varg b) i st'"
      by (rule type_added_append [OF TD_Varg.prems(2) s1(1,2) _ s1(4) no r])
        (use i(1) True s1(3) type_at_extends in auto)
    then show ?thesis using i(1) True j(1) by (simp del: TypeItem_Get.simps)
  qed
qed simp_all

end
