(* ===== verification/ImageSet.thy ===== *)
theory ImageSet
  imports ImageStore
begin

text \<open>
  What adding to the shared pools of an image means for later lookups (\<^verbatim>\<open>src/src/image.c\<close>): an index
  that was answered for a string, a type, a list of types, a prototype or a constant stays valid and is
  answered again, however much the image has grown in between.
\<close>

subsection \<open>Looking up is being there\<close>

lemma Index_iff:
  assumes "base_ok st" "ty \<in> shared_types" "item_key (key_of ty x)" "i < length (its st ty)"
  shows "AtomTable_Index (is_table st) ty x = int i \<longleftrightarrow> Item_Equal (key_of ty (its st ty ! i)) (key_of ty x)"
proof
  assume i: "AtomTable_Index (is_table st) ty x = int i"
  then show "Item_Equal (key_of ty (its st ty ! i)) (key_of ty x)"
    using Index_lt(3) [OF assms(1,3)] by simp
next
  assume e: "Item_Equal (key_of ty (its st ty ! i)) (key_of ty x)"
  note k = indexedD [OF assms(1,2,4)]
  from items.Index_cong [OF base_ok_inv [OF assms(1)] conjunct1 [OF k] assms(3) e] k
  show "AtomTable_Index (is_table st) ty x = int i" by simp
qed

lemma string_at_Get:
  assumes "base_ok st" "string_at st i s"
  shows "StringItem_Get (is_table st) s = i"
proof -
  obtain it where it: "nat i < length (its st ITEM_STRING)" "its st ITEM_STRING ! nat i = StringI it"
    "cstr (si_data it) = cstr s" "0 \<le> i" using assms(2) by (auto simp: string_at_def)
  have "ITEM_STRING \<in> shared_types" by (simp add: shared_types_def)
  from Index_iff [OF assms(1) this string_key it(1), of "StringItem_New s"] it
  show ?thesis by (simp add: StringItem_Get_def stringitem_equal_def str_eq_def)
qed

lemma item_at_Index:
  assumes "base_ok st" "item_at st i t"
  shows "AtomTable_Index (is_table st) ITEM_TYPE (TypeI t) = i"
proof -
  have it: "nat i < length (its st ITEM_TYPE)" "its st ITEM_TYPE ! nat i = TypeI t" "0 \<le> i"
    using assms(2) by (auto simp: item_at_def)
  have "ITEM_TYPE \<in> shared_types" by (simp add: shared_types_def)
  from Index_iff [OF assms(1) this type_key it(1), of t] it show ?thesis by (simp add: typeitem_equal_eq)
qed

lemma type_at_Get: "store_ok st \<Longrightarrow> type_at st i d \<Longrightarrow> TypeItem_Get (is_table st) d = Inr i"
proof (induction d arbitrary: i)
  case (TD_Klass p t)
  then obtain pi ti where k: "item_at st i (TypeItem_Klass_New pi ti)" "string_at st ti t"
    "case p of None \<Rightarrow> pi = -1 | Some x \<Rightarrow> string_at st pi x" by auto
  have "0 \<le> ti" "p \<noteq> None \<longrightarrow> 0 \<le> pi"
    using k(2,3) by (auto simp: string_at_def split: option.splits)
  with k TD_Klass.prems(1) show ?case
    by (auto simp: string_at_Get item_at_Index split: option.splits)
qed (auto simp: item_at_Index)

subsection \<open>Types\<close>

text \<open>
  The index of a type, once answered, is answered by every later lookup and every later request, and
  a request for a type that is there changes nothing.
\<close>

lemma type_at_Set:
  assumes "store_ok st" "plain_type d" "type_at st i d"
  shows "TypeItem_Set st d = Inr (i, st)"
proof -
  obtain j st' where j: "TypeItem_Set st d = Inr (j, st')" "type_added st d j st'"
    using TypeItem_Set_spec [OF assms(2,1)] by blast
  have "TypeItem_Get (is_table st) d = Inr i" "i \<noteq> -1"
    using type_at_Get [OF assms(1,3)] type_at_range [OF assms(3)] by auto
  with j show ?thesis by (simp add: type_added_def)
qed

lemma type_at_unique: "store_ok st \<Longrightarrow> type_at st i d \<Longrightarrow> type_at st j d \<Longrightarrow> i = j"
  using type_at_Get [of st i d] type_at_Get [of st j d] by simp

subsection \<open>Lists of types\<close>

definition types_at :: "ItemStore \<Rightarrow> int list \<Rightarrow> TypeDesc list \<Rightarrow> bool" where
  "types_at st is ds \<longleftrightarrow> list_all2 (type_at st) is ds"

lemma types_at_simps [simp]:
  "types_at st [] []" "types_at st (i # is) (d # ds) \<longleftrightarrow> type_at st i d \<and> types_at st is ds"
  by (simp_all add: types_at_def)

lemma types_at_extends: "types_at st is ds \<Longrightarrow> extends st st' \<Longrightarrow> types_at st' is ds"
  unfolding types_at_def by (erule list_all2_mono) (rule type_at_extends)

lemma types_at_range: "types_at st is ds \<Longrightarrow> i \<in> set is \<Longrightarrow> 0 \<le> i \<and> i < int (length (its st ITEM_TYPE))"
  unfolding types_at_def by (induction rule: list_all2_induct) (auto dest: type_at_range)

lemma types_at_Get: "store_ok st \<Longrightarrow> types_at st is ds \<Longrightarrow> get_indexes (is_table st) ds = Inr (Some is)"
proof (induction ds arbitrary: "is")
  case (Cons d ds)
  then obtain i js where "is = i # js" "type_at st i d" "types_at st js ds"
    by (auto simp: types_at_def list_all2_Cons2)
  with Cons type_at_Get [OF Cons.prems(1)] type_at_range show ?case by fastforce
qed (simp add: types_at_def)

text \<open>The loop that adds the types of a list: what it finds, or that some type is new.\<close>

definition only_types :: "ItemStore \<Rightarrow> ItemStore \<Rightarrow> bool" where
  "only_types st st' \<longleftrightarrow> (\<forall>ty. ty \<noteq> ITEM_STRING \<longrightarrow> ty \<noteq> ITEM_TYPE \<longrightarrow> its st' ty = its st ty)"

lemma set_indexes_spec:
  assumes "\<forall>d \<in> set ds. plain_type d" "store_ok st"
  shows "\<exists>is st' r. set_indexes st ds = Inr (is, st') \<and> store_ok st' \<and> extends st st' \<and> types_at st' is ds \<and>
    only_types st st' \<and> get_indexes (is_table st) ds = Inr r \<and>
    (case r of Some js \<Rightarrow> st' = st \<and> js = is | None \<Rightarrow> \<exists>i \<in> set is. int (length (its st ITEM_TYPE)) \<le> i)"
  using assms
proof (induction ds arbitrary: st)
  case Nil
  then show ?case by (simp add: only_types_def)
next
  case (Cons d ds)
  obtain i st1 where i: "TypeItem_Set st d = Inr (i, st1)" "type_added st d i st1"
    using TypeItem_Set_spec [of d st] Cons.prems by auto
  then have 1: "store_ok st1" "extends st st1" "type_at st1 i d" "only_types st st1"
    by (simp_all add: type_added_def only_types_def)
  obtain "is" st2 r where 2: "set_indexes st1 ds = Inr (is, st2)" "store_ok st2" "extends st1 st2" "types_at st2 is ds"
    "only_types st1 st2" "get_indexes (is_table st1) ds = Inr r"
    "case r of Some js \<Rightarrow> st2 = st1 \<and> js = is | None \<Rightarrow> \<exists>i \<in> set is. int (length (its st1 ITEM_TYPE)) \<le> i"
    using Cons.IH [of st1] Cons.prems 1(1) by auto
  have len: "length (its st ITEM_TYPE) \<le> length (its st1 ITEM_TYPE)"
    using extendsE [OF 1(2), of ITEM_TYPE] by (metis item_lt_max(2) length_append le_add1)
  have ex: "extends st st2" by (rule extends_trans [OF 1(2) 2(3)])
  have all: "types_at st2 (i # is) (d # ds)" "\<not> i < 0"
    using 2(4) type_at_extends [OF 1(3) 2(3)] type_at_range [OF 1(3)] by auto
  have only: "only_types st st2" using 1(4) 2(5) by (simp add: only_types_def)
  have set: "set_indexes st (d # ds) = Inr (i # is, st2)" using i(1) 2(1) all(2) by simp
  show ?case
  proof (cases "TypeItem_Get (is_table st) d = Inr (-1)")
    case True
    then have "get_indexes (is_table st) (d # ds) = Inr None" "int (length (its st ITEM_TYPE)) \<le> i"
      using i(2) by (simp_all add: type_added_def)
    with set 2(2) ex all only show ?thesis
      by (intro exI [of _ "i # is"] exI [of _ st2] exI [of _ None])
        (simp del: set_indexes.simps get_indexes.simps types_at_simps)
  next
    case False
    then have g: "TypeItem_Get (is_table st) d = Inr i" "st1 = st" using i(2) by (simp_all add: type_added_def)
    with 2(6) all(2) have "get_indexes (is_table st) (d # ds) = Inr (map_option ((#) i) r)" by simp
    with set 2(2,7) ex all only g(2) show ?thesis
      by (intro exI [of _ "i # is"] exI [of _ st2] exI [of _ "map_option ((#) i) r"], cases r)
        (simp_all del: set_indexes.simps get_indexes.simps types_at_simps)
  qed
qed

text \<open>The list at an index; the empty list has no item, its index is -1.\<close>

definition typelist_at :: "ItemStore \<Rightarrow> int \<Rightarrow> TypeDesc list \<Rightarrow> bool" where
  "typelist_at st i ds \<longleftrightarrow> (if ds = [] then i = -1
     else 0 \<le> i \<and> i < int (length (its st ITEM_TYPELIST)) \<and>
       (\<exists>is. its st ITEM_TYPELIST ! nat i = TypeListI (TypeListItem_New is) \<and> types_at st is ds))"

lemma typelist_at_extends:
  assumes "typelist_at st i ds" "extends st st'"
  shows "typelist_at st' i ds"
proof (cases "ds = []")
  case False
  then have "nat i < length (its st ITEM_TYPELIST)" using assms(1) by (auto simp: typelist_at_def)
  with extends_nth [OF assms(2), of ITEM_TYPELIST "nat i"] assms False types_at_extends show ?thesis
    by (fastforce simp: typelist_at_def)
qed (use assms in \<open>simp add: typelist_at_def\<close>)

lemma typelist_key [simp]: "item_key (key_of ITEM_TYPELIST (TypeListI l))"
  by (simp add: item_key_def key_of_def)

lemma typelistitem_equal_New:
  assumes "tl_size l = int (length (tl_index l))"
  shows "typelistitem_equal l (TypeListItem_New is) \<longleftrightarrow> l = TypeListItem_New is"
  using assms by (cases l) (auto simp: typelistitem_equal_def TypeListItem_New_def)

lemma typelistitem_equal_refl [simp]: "typelistitem_equal (TypeListItem_New is) (TypeListItem_New is)"
  by (subst typelistitem_equal_New) (simp_all add: TypeListItem_New_def)

lemma typelist_Index:
  assumes "store_ok st"
  shows "AtomTable_Index (is_table st) ITEM_TYPELIST (TypeListI (TypeListItem_New is)) = i \<longleftrightarrow>
    (if i = -1 then TypeListI (TypeListItem_New is) \<notin> set (its st ITEM_TYPELIST)
     else 0 \<le> i \<and> i < int (length (its st ITEM_TYPELIST)) \<and>
       its st ITEM_TYPELIST ! nat i = TypeListI (TypeListItem_New is))"
    (is "?I = i \<longleftrightarrow> _")
proof -
  have base: "base_ok st" using assms by simp
  have sh: "ITEM_TYPELIST \<in> shared_types" by (simp add: shared_types_def)
  have eq: "Item_Equal (key_of ITEM_TYPELIST (its st ITEM_TYPELIST ! k)) (key_of ITEM_TYPELIST (TypeListI (TypeListItem_New is)))
      \<longleftrightarrow> its st ITEM_TYPELIST ! k = TypeListI (TypeListItem_New is)" if "k < length (its st ITEM_TYPELIST)" for k
  proof -
    have "item_type (its st ITEM_TYPELIST ! k) = ITEM_TYPELIST"
      using base that by (simp add: base_ok_def item_types)
    then obtain l where l: "its st ITEM_TYPELIST ! k = TypeListI l"
      by (cases "its st ITEM_TYPELIST ! k") (auto simp: item_types)
    then have "TypeListI l \<in> set (its st ITEM_TYPELIST)" using that nth_mem by metis
    then have "tl_size l = int (length (tl_index l))"
      using assms by (auto simp: store_ok_def refs_ok_def)
    with l show ?thesis by (simp add: typelistitem_equal_New)
  qed
  note iff = Index_iff [OF base sh typelist_key]
  have found: "0 \<le> ?I \<and> ?I < int (length (its st ITEM_TYPELIST)) \<and>
      its st ITEM_TYPELIST ! nat ?I = TypeListI (TypeListItem_New is)" if "?I \<noteq> -1"
  proof -
    note f = Index_lt [OF base typelist_key that]
    from f(1,2) have "nat ?I < length (its st ITEM_TYPELIST)" by linarith
    from eq [OF this] f show ?thesis by simp
  qed
  show ?thesis
  proof (cases "i = -1")
    case True
    have "?I \<noteq> -1" if "TypeListI (TypeListItem_New is) \<in> set (its st ITEM_TYPELIST)"
    proof -
      from that obtain k where k: "k < length (its st ITEM_TYPELIST)" "its st ITEM_TYPELIST ! k = TypeListI (TypeListItem_New is)"
        by (auto simp: in_set_conv_nth)
      with iff [OF k(1), of "TypeListItem_New is"] eq show ?thesis by simp
    qed
    moreover have "TypeListI (TypeListItem_New is) \<in> set (its st ITEM_TYPELIST)" if "?I \<noteq> -1"
      using found [OF that] nth_mem [of "nat ?I" "its st ITEM_TYPELIST"] by auto
    ultimately show ?thesis using True by auto
  next
    case False
    have "?I = i" if "0 \<le> i" "i < int (length (its st ITEM_TYPELIST))"
      "its st ITEM_TYPELIST ! nat i = TypeListI (TypeListItem_New is)"
      using that iff [of "nat i" "TypeListItem_New is"] eq [of "nat i"] by auto
    with False found show ?thesis by auto
  qed
qed


text \<open>\<open>TypeListItem_Get\<close> answers the index of a list that is there.\<close>

lemma typelist_at_Get:
  assumes "store_ok st" "typelist_at st i ds"
  shows "TypeListItem_Get (is_table st) ds = Inr i"
proof (cases "ds = []")
  case True
  with assms(2) show ?thesis by (simp add: typelist_at_def TypeListItem_Get_def typelist_get_def)
next
  case False
  then obtain js where js: "0 \<le> i" "i < int (length (its st ITEM_TYPELIST))"
    "its st ITEM_TYPELIST ! nat i = TypeListI (TypeListItem_New js)" "types_at st js ds"
    using assms(2) by (auto simp: typelist_at_def)
  then have "AtomTable_Index (is_table st) ITEM_TYPELIST (TypeListI (TypeListItem_New js)) = i"
    by (subst typelist_Index [OF assms(1)]) simp
  with False types_at_Get [OF assms(1) js(4)] show ?thesis
    by (simp add: TypeListItem_Get_def typelist_get_def)
qed

definition only_lists :: "ItemStore \<Rightarrow> ItemStore \<Rightarrow> bool" where
  "only_lists st st' \<longleftrightarrow> (\<forall>ty. ty \<noteq> ITEM_STRING \<longrightarrow> ty \<noteq> ITEM_TYPE \<longrightarrow> ty \<noteq> ITEM_TYPELIST \<longrightarrow> its st' ty = its st ty)"

lemma append_typelist:
  assumes "store_ok st" "types_at st is ds" "ds \<noteq> []"
    and "TypeListI (TypeListItem_New is) \<notin> set (its st ITEM_TYPELIST)"
  shows "\<exists>i st'. append_item st ITEM_TYPELIST (TypeListI (TypeListItem_New is)) True = Inr (i, st') \<and>
    store_ok st' \<and> extends st st' \<and> typelist_at st' i ds \<and> only_lists st st'"
proof -
  let ?l = "TypeListI (TypeListItem_New is)"
  have k: "item_kind_ok ITEM_TYPELIST ?l" by (simp add: item_kind_ok_def item_types)
  have no: "AtomTable_Index (is_table st) ITEM_TYPELIST ?l = -1"
    using assms(4) by (subst typelist_Index [OF assms(1)]) simp
  obtain st' where st': "append_item st ITEM_TYPELIST ?l True = Inr (int (length (its st ITEM_TYPELIST)), st')"
    "base_ok st'" "\<forall>ty'. its st' ty' = (if ty' = ITEM_TYPELIST then its st ITEM_TYPELIST @ [?l] else its st ty')"
    using append_unique [OF store_ok_base [OF assms(1)] k] no by auto
  have ex: "extends st st'" using st'(3) by (auto simp: extends_def)
  have s: "its st' ITEM_TYPE = its st ITEM_TYPE" "its st' ITEM_TYPELIST = its st ITEM_TYPELIST @ [?l]"
    "its st' ITEM_STRING = its st ITEM_STRING"
    using st'(3) by (auto simp: item_types)
  have "refs_ok st'"
    unfolding refs_ok_def
  proof (intro conjI allI impI)
    fix k t assume "k < length (its st' ITEM_TYPE)" "its st' ITEM_TYPE ! k = TypeI t"
    with s(1) assms(1) have "type_refs_ok st k t" by (simp add: store_ok_def refs_ok_def)
    then show "type_refs_ok st' k t" using ex by (rule type_refs_ok_extends)
  next
    fix l assume "TypeListI l \<in> set (its st' ITEM_TYPELIST)"
    then have "TypeListI l \<in> set (its st ITEM_TYPELIST) \<or> l = TypeListItem_New is" using s(2) by auto
    then have "tl_size l = int (length (tl_index l)) \<and>
        (\<forall>i \<in> set (tl_index l). 0 \<le> i \<and> i < int (length (its st ITEM_TYPE)))"
      using assms(1) types_at_range [OF assms(2)]
      by (auto simp: store_ok_def refs_ok_def TypeListItem_New_def)
    then show "tl_size l = int (length (tl_index l))"
      and "\<forall>i \<in> set (tl_index l). 0 \<le> i \<and> i < int (length (its st' ITEM_TYPE))"
      using s(1) by simp_all
  qed
  with st'(1,2) have ok: "store_ok st'"
    "append_item st ITEM_TYPELIST ?l True = Inr (int (length (its st ITEM_TYPELIST)), st')"
    by (simp_all add: store_ok_def)
  have at: "typelist_at st' (int (length (its st ITEM_TYPELIST))) ds"
    using assms(2,3) s(2) types_at_extends [OF assms(2) ex] by (auto simp: typelist_at_def)
  have only: "only_lists st st'" using st'(3) by (simp add: only_lists_def)
  from ok ex at only show ?thesis by blast
qed

lemma TypeListItem_Set_spec:
  assumes "\<forall>d \<in> set ds. plain_type d" "store_ok st"
  shows "\<exists>i st'. TypeListItem_Set st ds = Inr (i, st') \<and> store_ok st' \<and> extends st st' \<and>
    typelist_at st' i ds \<and> only_lists st st'"
proof (cases "ds = []")
  case True
  with assms show ?thesis
    by (simp add: TypeListItem_Set_def typelist_set_def typelist_at_def only_lists_def)
next
  case False
  obtain "is" st1 r where 1: "set_indexes st ds = Inr (is, st1)" "store_ok st1" "extends st st1" "types_at st1 is ds"
    "only_types st st1" "get_indexes (is_table st) ds = Inr r"
    "case r of Some js \<Rightarrow> st1 = st \<and> js = is | None \<Rightarrow> \<exists>i \<in> set is. int (length (its st ITEM_TYPE)) \<le> i"
    using set_indexes_spec [OF assms] by blast
  have lists: "its st1 ITEM_TYPELIST = its st ITEM_TYPELIST"
    using 1(5) by (simp add: only_types_def item_types)
  have get: "TypeListItem_Get (is_table st) ds = Inr (case r of None \<Rightarrow> -1
      | Some js \<Rightarrow> AtomTable_Index (is_table st) ITEM_TYPELIST (TypeListI (TypeListItem_New js)))"
    using False 1(6) by (simp add: TypeListItem_Get_def typelist_get_def)
  note ix = typelist_Index [OF assms(2)]
  show ?thesis
  proof (cases "TypeListI (TypeListItem_New is) \<in> set (its st ITEM_TYPELIST)")
    case True
    have "r \<noteq> None"
    proof
      assume "r = None"
      then obtain i where "i \<in> set is" "int (length (its st ITEM_TYPE)) \<le> i" using 1(7) by auto
      moreover have "\<forall>i \<in> set (tl_index (TypeListItem_New is)). i < int (length (its st ITEM_TYPE))"
        using True assms(2) unfolding store_ok_def refs_ok_def by blast
      ultimately show False by (auto simp: TypeListItem_New_def)
    qed
    with 1(7) have r: "r = Some is" "st1 = st" by auto
    let ?i = "AtomTable_Index (is_table st) ITEM_TYPELIST (TypeListI (TypeListItem_New is))"
    have "?i \<noteq> -1" using True ix [of "is" "-1"] by auto
    then have i: "0 \<le> ?i" "?i < int (length (its st ITEM_TYPELIST))"
      "its st ITEM_TYPELIST ! nat ?i = TypeListI (TypeListItem_New is)"
      using ix [of "is" ?i] by auto
    then have "typelist_at st ?i ds" using False 1(4) r(2) by (auto simp: typelist_at_def)
    with i(1) False get r 1(1) assms(2) show ?thesis
      by (simp add: TypeListItem_Set_def typelist_set_def only_lists_def)
  next
    case none: False
    have "AtomTable_Index (is_table st) ITEM_TYPELIST (TypeListI (TypeListItem_New is)) = -1"
      using none by (subst ix) simp
    then have "TypeListItem_Get (is_table st) ds = Inr (-1)" using get 1(7) by (auto split: option.splits)
    moreover obtain i st' where "append_item st1 ITEM_TYPELIST (TypeListI (TypeListItem_New is)) True = Inr (i, st')"
      "store_ok st'" "extends st1 st'" "typelist_at st' i ds" "only_lists st1 st'"
      using append_typelist [OF 1(2,4) False] none lists by auto
    ultimately show ?thesis
      using False 1(1,5) extends_trans [OF 1(3)]
      by (auto simp: TypeListItem_Set_def typelist_set_def only_lists_def only_types_def)
  qed
qed


subsection \<open>Prototypes\<close>

definition proto_at :: "ItemStore \<Rightarrow> int \<Rightarrow> TypeDesc list \<Rightarrow> TypeDesc list \<Rightarrow> bool" where
  "proto_at st i arg ret \<longleftrightarrow> 0 \<le> i \<and> i < int (length (its st ITEM_PROTO)) \<and>
     (\<exists>r p. its st ITEM_PROTO ! nat i = ProtoI (ProtoItem_New r p) \<and> typelist_at st r ret \<and> typelist_at st p arg)"

lemma proto_at_extends:
  assumes "proto_at st i arg ret" "extends st st'"
  shows "proto_at st' i arg ret"
proof -
  have "nat i < length (its st ITEM_PROTO)" using assms(1) by (auto simp: proto_at_def)
  with extends_nth [OF assms(2), of ITEM_PROTO "nat i"] assms show ?thesis
    by (auto simp: proto_at_def intro: typelist_at_extends)
qed

lemma proto_key [simp]: "item_key (key_of ITEM_PROTO (ProtoI l))"
  by (simp add: item_key_def key_of_def)

lemma protoitem_equal_eq: "protoitem_equal p q \<longleftrightarrow> p = q"
  by (cases p; cases q) (auto simp: protoitem_equal_def)

lemma proto_Index_found:
  assumes "base_ok st" "AtomTable_Index (is_table st) ITEM_PROTO (ProtoI p) \<noteq> -1"
  shows "its st ITEM_PROTO ! nat (AtomTable_Index (is_table st) ITEM_PROTO (ProtoI p)) = ProtoI p"
proof -
  note f = Index_lt [OF assms(1) proto_key assms(2)]
  from f(3) show ?thesis
    by (cases rule: Item_Equal_cases) (auto simp: protoitem_equal_eq)
qed

lemma refs_ok_same:
  assumes "store_ok st" "base_ok st'" "extends st st'" "\<forall>ty \<in> {ITEM_STRING, ITEM_TYPE, ITEM_TYPELIST}. its st' ty = its st ty"
  shows "store_ok st'"
  using assms by (simp add: store_ok_def refs_ok_def type_refs_ok_def)

lemma protoitem_set_spec:
  assumes "store_ok st" "typelist_at st r ret" "typelist_at st p arg"
  shows "\<exists>i st'. protoitem_set st r p = Inr (i, st') \<and> store_ok st' \<and> extends st st' \<and> proto_at st' i arg ret \<and>
    (\<forall>ty. ty \<noteq> ITEM_PROTO \<longrightarrow> its st' ty = its st ty)"
proof (cases "ProtoItem_Get (is_table st) r p = -1")
  case True
  let ?p = "ProtoI (ProtoItem_New r p)"
  have k: "item_kind_ok ITEM_PROTO ?p" by (simp add: item_kind_ok_def item_types)
  obtain st' where st': "append_item st ITEM_PROTO ?p True = Inr (int (length (its st ITEM_PROTO)), st')"
    "base_ok st'" "\<forall>ty'. its st' ty' = (if ty' = ITEM_PROTO then its st ITEM_PROTO @ [?p] else its st ty')"
    using append_unique [OF store_ok_base [OF assms(1)] k] True by (auto simp: ProtoItem_Get_def)
  have ex: "extends st st'" using st'(3) by (auto simp: extends_def)
  have ok: "store_ok st'"
    by (rule refs_ok_same [OF assms(1) st'(2) ex]) (use st'(3) in \<open>simp add: item_types\<close>)
  have "proto_at st' (int (length (its st ITEM_PROTO))) arg ret"
    using st'(3) typelist_at_extends [OF assms(2) ex] typelist_at_extends [OF assms(3) ex]
    by (auto simp: proto_at_def)
  with True st'(1,3) ok ex show ?thesis by (simp add: protoitem_set_def)
next
  case False
  note found = False [unfolded ProtoItem_Get_def]
  have base: "base_ok st" using assms(1) by simp
  have "proto_at st (ProtoItem_Get (is_table st) r p) arg ret"
    using Index_lt(1,2) [OF base proto_key found] proto_Index_found [OF base found] assms(2,3)
    unfolding proto_at_def ProtoItem_Get_def by blast
  with False assms(1) show ?thesis by (simp add: protoitem_set_def proto_at_def)
qed

lemma ProtoItem_Set_spec:
  assumes "\<forall>d \<in> set arg \<union> set ret. plain_type d" "store_ok st"
  shows "\<exists>i st'. ProtoItem_Set st arg ret = Inr (i, st') \<and> store_ok st' \<and> extends st st' \<and> proto_at st' i arg ret \<and>
    (\<forall>ty. ty \<notin> {ITEM_STRING, ITEM_TYPE, ITEM_TYPELIST, ITEM_PROTO} \<longrightarrow> its st' ty = its st ty)"
proof -
  obtain r st1 where 1: "TypeListItem_Set st ret = Inr (r, st1)" "store_ok st1" "extends st st1" "typelist_at st1 r ret"
    "only_lists st st1"
    using TypeListItem_Set_spec [of ret st] assms by auto
  obtain p st2 where 2: "TypeListItem_Set st1 arg = Inr (p, st2)" "store_ok st2" "extends st1 st2" "typelist_at st2 p arg"
    "only_lists st1 st2"
    using TypeListItem_Set_spec [of arg st1] assms(1) 1(2) by auto
  obtain i st3 where 3: "protoitem_set st2 r p = Inr (i, st3)" "store_ok st3" "extends st2 st3" "proto_at st3 i arg ret"
    "\<forall>ty. ty \<noteq> ITEM_PROTO \<longrightarrow> its st3 ty = its st2 ty"
    using protoitem_set_spec [OF 2(2) typelist_at_extends [OF 1(4) 2(3)] 2(4)] by blast
  show ?thesis
    using 1(1,5) 2(1,5) 3 extends_trans [OF extends_trans [OF 1(3) 2(3)] 3(3)]
    by (auto simp: ProtoItem_Set_def only_lists_def)
qed

text \<open>A prototype that is there is answered again.\<close>

lemma proto_at_Get:
  assumes "base_ok st" "nat i < length (its st ITEM_PROTO)" "0 \<le> i" "its st ITEM_PROTO ! nat i = ProtoI (ProtoItem_New r p)"
  shows "ProtoItem_Get (is_table st) r p = i"
proof -
  have "ITEM_PROTO \<in> shared_types" by (simp add: shared_types_def)
  from Index_iff [OF assms(1) this proto_key assms(2), of "ProtoItem_New r p"] assms(3,4)
  show ?thesis by (simp add: ProtoItem_Get_def protoitem_equal_eq)
qed

lemma typelist_at_Set:
  assumes "store_ok st" "typelist_at st i ds"
  shows "TypeListItem_Set st ds = Inr (i, st)"
proof -
  have "ds = [] \<or> 0 \<le> i" using assms(2) by (auto simp: typelist_at_def split: if_splits)
  with typelist_at_Get [OF assms] assms(2) show ?thesis
    by (auto simp: TypeListItem_Set_def typelist_set_def typelist_at_def)
qed

lemma proto_at_Set:
  assumes "store_ok st" "proto_at st i arg ret"
  shows "ProtoItem_Set st arg ret = Inr (i, st)"
proof -
  obtain r p where k: "0 \<le> i" "nat i < length (its st ITEM_PROTO)" "its st ITEM_PROTO ! nat i = ProtoI (ProtoItem_New r p)"
    "typelist_at st r ret" "typelist_at st p arg"
    using assms(2) by (auto simp: proto_at_def)
  from proto_at_Get [OF store_ok_base [OF assms(1)] k(2,1,3)] k(1)
    typelist_at_Set [OF assms(1) k(4)] typelist_at_Set [OF assms(1) k(5)]
  show ?thesis by (simp add: ProtoItem_Set_def protoitem_set_def)
qed

subsection \<open>Constants\<close>

definition const_at :: "ItemStore \<Rightarrow> int \<Rightarrow> ConstItem \<Rightarrow> bool" where
  "const_at st i c \<longleftrightarrow> 0 \<le> i \<and> i < int (length (its st ITEM_CONST)) \<and>
     (\<exists>b. its st ITEM_CONST ! nat i = ConstI b \<and> constitem_equal b c = Inr True)"

text \<open>Constants whose hash and equality look at the same value: integers, strings and characters.\<close>

definition pooled_const :: "ConstItem \<Rightarrow> bool" where
  "pooled_const c \<longleftrightarrow> ci_type c \<in> {CONST_INT, CONST_STRING, CONST_UCHAR}"

lemma pooled_addr [simp]:
  "pooled_const (c\<lparr>ci_addr := a\<rparr>) = pooled_const c"
  "pooled_const c \<Longrightarrow> constitem_equal b (c\<lparr>ci_addr := a\<rparr>) = constitem_equal b c"
  "pooled_const c \<Longrightarrow> constitem_equal (c\<lparr>ci_addr := a\<rparr>) b = constitem_equal c b"
  "pooled_const c \<Longrightarrow> constitem_equal c c = Inr True"
  by (auto simp: pooled_const_def constitem_equal_def const_types ci_ival_def ci_index_def ci_uch_def)

lemma pooled_key [simp]: "pooled_const c \<Longrightarrow> item_key (key_of ITEM_CONST (ConstI c))"
  by (auto simp: item_key_def key_of_def pooled_const_def hashable_const_def)

lemma const_at_Get:
  assumes "base_ok st" "pooled_const c" "const_at st i c"
  shows "ConstItem_Get (is_table st) c = i"
proof -
  obtain b where k: "nat i < length (its st ITEM_CONST)" "0 \<le> i" "its st ITEM_CONST ! nat i = ConstI b"
    "constitem_equal b c = Inr True" using assms(3) by (auto simp: const_at_def)
  have "ITEM_CONST \<in> shared_types" by (simp add: shared_types_def)
  from Index_iff [OF assms(1) this pooled_key [OF assms(2)] k(1)] k show ?thesis by (simp add: ConstItem_Get_def)
qed

lemma const_set_spec:
  assumes "store_ok st" "pooled_const c"
  shows "\<exists>i st'. const_set k st c = Inr (i, st') \<and> store_ok st' \<and> extends st st' \<and> const_at st' i c \<and>
    (\<forall>ty. ty \<noteq> ITEM_CONST \<longrightarrow> its st' ty = its st ty) \<and>
    (if \<exists>j. const_at st j c then st' = st else length (its st' ITEM_CONST) = Suc (length (its st ITEM_CONST)))"
proof -
  have base: "base_ok st" using assms(1) by simp
  let ?k = "c\<lparr>ci_addr := k\<rparr>" and ?c = "ConstI (c\<lparr>ci_addr := is_brk st\<rparr>)"
  have ids: "const_at st j x \<longleftrightarrow> const_at st j c" if "x = c\<lparr>ci_addr := a\<rparr>" for a x j
    using assms(2) that by (simp add: const_at_def)
  show ?thesis
  proof (cases "ConstItem_Get (is_table st) ?k = -1")
    case True
    have none: "\<not> const_at st j c" for j
    proof
      assume "const_at st j c"
      then have "const_at st j ?k" using ids by simp
      with const_at_Get [OF base, of ?k] assms(2) True have "j = -1" by auto
      with \<open>const_at st j c\<close> show False by (simp add: const_at_def)
    qed
    have no: "AtomTable_Index (is_table st) ITEM_CONST ?c = -1"
    proof (rule ccontr)
      assume n: "AtomTable_Index (is_table st) ITEM_CONST ?c \<noteq> -1"
      have key: "item_key (key_of ITEM_CONST ?c)" using assms(2) by simp
      note f = Index_lt [OF base key n]
      from f(3) have "const_at st (AtomTable_Index (is_table st) ITEM_CONST ?c) c"
        by (cases rule: Item_Equal_cases) (use f(1,2) assms(2) in \<open>auto simp: const_at_def\<close>)
      with none show False by blast
    qed
    have kind: "item_kind_ok ITEM_CONST (ConstI c)" by (simp add: item_kind_ok_def item_types)
    obtain st' where st': "append_item st ITEM_CONST (ConstI c) True = Inr (int (length (its st ITEM_CONST)), st')"
      "base_ok st'" "\<forall>ty'. its st' ty' = (if ty' = ITEM_CONST then its st ITEM_CONST @ [?c] else its st ty')"
      using append_unique [OF base kind] no assms(2) by auto
    have ex: "extends st st'" using st'(3) by (auto simp: extends_def)
    have ok: "store_ok st'"
      by (rule refs_ok_same [OF assms(1) st'(2) ex]) (use st'(3) in \<open>simp add: item_types\<close>)
    have at: "const_at st' (int (length (its st ITEM_CONST))) c"
      using st'(3) assms(2) by (simp add: const_at_def)
    from True none st'(1,3) ok ex at show ?thesis by (simp add: const_set_def)
  next
    case False
    have key: "item_key (key_of ITEM_CONST (ConstI ?k))" using assms(2) by simp
    note f = Index_lt [OF base key False [unfolded ConstItem_Get_def]]
    from f(3) have at: "const_at st (ConstItem_Get (is_table st) ?k) c"
      by (cases rule: Item_Equal_cases) (use f(1,2) assms(2) in \<open>auto simp: const_at_def ConstItem_Get_def\<close>)
    then have "0 \<le> ConstItem_Get (is_table st) ?k" by (simp add: const_at_def)
    with at assms(1) show ?thesis by (auto simp: const_set_def)
  qed
qed

lemma const_at_extends:
  assumes "const_at st i c" "extends st st'"
  shows "const_at st' i c"
proof -
  have "nat i < length (its st ITEM_CONST)" using assms(1) by (auto simp: const_at_def)
  with extends_nth [OF assms(2), of ITEM_CONST "nat i"] assms show ?thesis by (auto simp: const_at_def)
qed

end
