(* ===== verification/ImageType.thy ===== *)
theory ImageType
  imports ImageSet
begin

text \<open>
  Reading types back out of an image (\<^verbatim>\<open>src/src/image.c\<close>): \<^verbatim>\<open>TypeItem_To_TypeDesc\<close> and its companions
  follow the indices of an item and intern the descriptor they find. The recursion of the C code has
  no bound of its own, so it is given fuel: a cycle in a damaged image is a stack overflow. The
  theorems show that in a well-formed store the number of type items is enough.
\<close>

subsection \<open>Operations\<close>

text \<open>The item at an index; the callers dereference it without a check.\<close>

definition item_get :: "Item AtomTable \<Rightarrow> nat \<Rightarrow> int \<Rightarrow> Item run" where
  "item_get table type index = bind_run (AtomTable_Get table type index)
     (\<lambda>r. case r of None \<Rightarrow> Inl Null_Deref | Some it \<Rightarrow> Inr it)"

text \<open>A pool holds items of one kind only, so the last branch of these is never taken.\<close>

definition string_get :: "Item AtomTable \<Rightarrow> int \<Rightarrow> string run" where
  "string_get table index = bind_run (item_get table ITEM_STRING index)
     (\<lambda>it. case it of StringI s \<Rightarrow> Inr (si_data s) | _ \<Rightarrow> Inl Assert_Failed)"

definition typeitem_get :: "Item AtomTable \<Rightarrow> int \<Rightarrow> TypeItem run" where
  "typeitem_get table index = bind_run (item_get table ITEM_TYPE index)
     (\<lambda>it. case it of TypeI t \<Rightarrow> Inr t | _ \<Rightarrow> Inl Assert_Failed)"

definition protoitem_get :: "Item AtomTable \<Rightarrow> int \<Rightarrow> ProtoItem run" where
  "protoitem_get table index = bind_run (item_get table ITEM_PROTO index)
     (\<lambda>it. case it of ProtoI p \<Rightarrow> Inr p | _ \<Rightarrow> Inl Assert_Failed)"

definition typelist_of :: "Item AtomTable \<Rightarrow> int \<Rightarrow> TypeListItem option run" where
  "typelist_of table index = bind_run (AtomTable_Get table ITEM_TYPELIST index)
     (\<lambda>r. case r of None \<Rightarrow> Inr None | Some (TypeListI l) \<Rightarrow> Inr (Some l) | Some _ \<Rightarrow> Inl Assert_Failed)"

text \<open>The loop of \<open>TypeListItem_To_Vector\<close>; \<open>conv\<close> is \<open>TypeItem_To_TypeDesc\<close>.\<close>

fun indexes_to_types ::
  "(DescTable \<Rightarrow> TypeItem \<Rightarrow> (TypeDesc \<times> DescTable) run) \<Rightarrow> Item AtomTable \<Rightarrow> DescTable \<Rightarrow> int list \<Rightarrow>
   (TypeDesc list \<times> DescTable) run" where
  "indexes_to_types conv table tbl [] = Inr ([], tbl)"
| "indexes_to_types conv table tbl (i # is) =
     bind_run (typeitem_get table i) (\<lambda>typeitem.
     bind_run (conv tbl typeitem) (\<lambda>(t, tbl1).
     bind_run (indexes_to_types conv table tbl1 is) (\<lambda>(ts, tbl2). Inr (t # ts, tbl2))))"

definition TypeListItem_To_Vector ::
  "(DescTable \<Rightarrow> TypeItem \<Rightarrow> (TypeDesc \<times> DescTable) run) \<Rightarrow> Item AtomTable \<Rightarrow> DescTable \<Rightarrow> TypeListItem option \<Rightarrow>
   (TypeDesc list \<times> DescTable) run" where
  "TypeListItem_To_Vector conv table tbl item = (case item of None \<Rightarrow> Inr ([], tbl)
     | Some l \<Rightarrow> if tl_size l > int (length (tl_index l)) then Inl Out_Of_Bounds
         else indexes_to_types conv table tbl (take (nat (tl_size l)) (tl_index l)))"

definition proto_to_desc ::
  "(DescTable \<Rightarrow> TypeItem \<Rightarrow> (TypeDesc \<times> DescTable) run) \<Rightarrow> Item AtomTable \<Rightarrow> DescTable \<Rightarrow> ProtoItem \<Rightarrow>
   (TypeDesc \<times> DescTable) run" where
  "proto_to_desc conv table tbl item =
     bind_run (if pi_rindex item \<ge> 0 then typelist_of table (pi_rindex item) else Inr None) (\<lambda>rlist.
     bind_run (TypeListItem_To_Vector conv table tbl rlist) (\<lambda>(ret, tbl1).
     bind_run (if pi_pindex item \<ge> 0 then typelist_of table (pi_pindex item) else Inr None) (\<lambda>plist.
     bind_run (TypeListItem_To_Vector conv table tbl1 plist) (\<lambda>(arg, tbl2).
       Inr (TypeDesc_Get_Proto arg ret tbl2)))))"

text \<open>The first argument is the fuel. \<open>AtomString_New\<close> copies the characters up to the terminator.\<close>

fun TypeItem_To_TypeDesc :: "nat \<Rightarrow> Item AtomTable \<Rightarrow> DescTable \<Rightarrow> TypeItem \<Rightarrow> (TypeDesc \<times> DescTable) run" where
  "TypeItem_To_TypeDesc 0 table tbl item = Inl Stack_Overflow"
| "TypeItem_To_TypeDesc (Suc n) table tbl item = (
     if ti_kind item = TYPE_BASE then
       bind_run (TypeDesc_Get_Base (ti_primitive item)) (\<lambda>t. Inr (t, tbl))
     else if ti_kind item = TYPE_KLASS then
       bind_run (if ti_pathindex item \<ge> 0
           then bind_run (string_get table (ti_pathindex item)) (\<lambda>s. Inr (Some (cstr s)))
           else Inr None) (\<lambda>path.
       bind_run (string_get table (ti_typeindex item)) (\<lambda>type.
         Inr (TypeDesc_Get_Klass path (cstr type) tbl)))
     else if ti_kind item = TYPE_PROTO then
       bind_run (protoitem_get table (ti_protoindex item)) (\<lambda>proto.
         proto_to_desc (TypeItem_To_TypeDesc n table) table tbl proto)
     else if ti_kind item = TYPE_ARRAY then
       bind_run (typeitem_get table (ti_array_typeindex item)) (\<lambda>base.
       bind_run (TypeItem_To_TypeDesc n table tbl base) (\<lambda>(base_type, tbl1).
         Inr (TypeDesc_Get_Array (ti_dims item) base_type tbl1)))
     else if ti_kind item = TYPE_VARG then
       bind_run (typeitem_get table (ti_varg_typeindex item)) (\<lambda>base.
       bind_run (TypeItem_To_TypeDesc n table tbl base) (\<lambda>(desc, tbl1).
         Inr (TypeDesc_Get_Varg (Some desc) tbl1)))
     else Inl Assert_Failed)"

definition ProtoItem_To_TypeDesc :: "nat \<Rightarrow> Item AtomTable \<Rightarrow> DescTable \<Rightarrow> ProtoItem \<Rightarrow> (TypeDesc \<times> DescTable) run" where
  "ProtoItem_To_TypeDesc n table tbl item = proto_to_desc (TypeItem_To_TypeDesc n table) table tbl item"

subsection \<open>What the pools hold is read back\<close>

lemma item_get_ok:
  assumes "base_ok st" "ty < ITEM_MAX" "0 \<le> i" "i < int (length (its st ty))"
  shows "item_get (is_table st) ty i = Inr (its st ty ! nat i)"
proof -
  have "ty < at_size (is_table st)" using assms(1,2) by (simp add: base_ok_def)
  from AtomTable_Get_spec [OF base_ok_inv [OF assms(1)] this, of i] assms(3,4)
  show ?thesis by (simp add: item_get_def)
qed

lemma string_get_at:
  assumes "base_ok st" "string_at st i s"
  shows "\<exists>x. string_get (is_table st) i = Inr x \<and> cstr x = cstr s"
  using assms(2) item_get_ok [OF assms(1), of ITEM_STRING i] by (auto simp: string_at_def string_get_def)

lemma typeitem_get_at:
  assumes "base_ok st" "item_at st i t"
  shows "typeitem_get (is_table st) i = Inr t"
  using assms(2) item_get_ok [OF assms(1), of ITEM_TYPE i] by (simp add: item_at_def typeitem_get_def)

text \<open>Names matter up to their terminator only.\<close>

lemma StringBuf_Append_cstr: "StringBuf_Append mem buf (Some (cstr s)) = StringBuf_Append mem buf (Some s)"
  by (cases "available mem buf (strlen s)")
    (simp add: StringBuf_Append_def AtomString_Length_def strlen_def strcat_into_def Let_def cong: if_cong)

lemma klass_text_cstr: "klass_text (map_option cstr p) (cstr t) = klass_text p t"
  by (cases p) (simp_all add: klass_text_def StringBuf_Append_cstr)

text \<open>Descriptors over known base types.\<close>

fun known_bases :: "TypeDesc \<Rightarrow> bool" where
  "known_bases (TD_Base c) = (get_basic c \<noteq> None)"
| "known_bases (TD_Klass path type) = True"
| "known_bases (TD_Proto arg ret) = (list_all known_bases arg \<and> list_all known_bases ret)"
| "known_bases (TD_Array dims base) = known_bases base"
| "known_bases (TD_Map key val) = (known_bases key \<and> known_bases val)"
| "known_bases (TD_Set base) = known_bases base"
| "known_bases (TD_Varg base) = known_bases base"

definition same_desc :: "TypeDesc \<Rightarrow> TypeDesc \<Rightarrow> bool" where
  "same_desc d e \<longleftrightarrow> td_desc d = td_desc e"

lemma base_read:
  assumes "get_basic c \<noteq> None"
  shows "TypeDesc_Get_Base c = Inr (TD_Base c)"
proof -
  obtain p where p: "get_basic c = Some p" using assms by auto
  then have "fst p = c" unfolding get_basic_def find_Some_iff by auto
  with p show ?thesis by (simp add: TypeDesc_Get_Base_def)
qed

lemma ti_primitive_New: "ti_primitive (TypeItem_Primitive_New c) = c"
  by (simp add: ti_primitive_def TypeItem_Primitive_New_def)

lemma TypeItem_To_TypeDesc_at:
  assumes "store_ok st" "type_at st i d" "known_bases d" "desc_ok tbl" "nat i < n"
  shows "\<exists>t d' tbl'. item_at st i t \<and> TypeItem_To_TypeDesc n (is_table st) tbl t = Inr (d', tbl') \<and>
    same_desc d' d \<and> desc_ok tbl'"
  using assms
proof (induction d arbitrary: i n)
  case (TD_Base c)
  then obtain m where "n = Suc m" by (cases n) auto
  moreover have "ti_kind (TypeItem_Primitive_New c) = TYPE_BASE" by (simp add: TypeItem_Primitive_New_def)
  ultimately have "TypeItem_To_TypeDesc n (is_table st) tbl (TypeItem_Primitive_New c) = Inr (TD_Base c, tbl)"
    using TD_Base by (simp add: ti_primitive_New base_read)
  with TD_Base show ?case by (auto simp: same_desc_def)
next
  case (TD_Klass p t)
  then obtain m where m: "n = Suc m" by (cases n) auto
  obtain pi ti where k: "item_at st i (TypeItem_Klass_New pi ti)" "string_at st ti t"
    "case p of None \<Rightarrow> pi = -1 | Some x \<Rightarrow> string_at st pi x" using TD_Klass.prems(2) by auto
  note get = string_get_at [OF store_ok_base [OF TD_Klass.prems(1)]]
  obtain x where x: "string_get (is_table st) ti = Inr x" "cstr x = cstr t" using get [OF k(2)] by auto
  have p: "(if pi \<ge> 0 then bind_run (string_get (is_table st) pi) (\<lambda>s. Inr (Some (cstr s))) else Inr None) =
      Inr (map_option cstr p)"
  proof (cases p)
    case (Some y)
    with k(3) have "string_at st pi y" by simp
    moreover from this have "0 \<le> pi" by (simp add: string_at_def)
    ultimately show ?thesis using get Some by fastforce
  qed (use k(3) in simp)
  let ?r = "TypeDesc_Get_Klass (map_option cstr p) (cstr t) tbl"
  have "TypeItem_To_TypeDesc n (is_table st) tbl (TypeItem_Klass_New pi ti) = Inr ?r"
    using m x p by (cases "0 \<le> pi") (auto simp: TypeItem_Klass_New_def type_kinds)
  moreover have "same_desc (fst ?r) (TD_Klass p t)" "desc_ok (snd ?r)"
    using Get_specs(1) [OF TD_Klass.prems(4)] by (simp_all add: same_desc_def klass_text_cstr)
  ultimately show ?case using k(1) by (metis prod.collapse)
next
  case (TD_Array dims b)
  then obtain m where m: "n = Suc m" by (cases n) auto
  obtain j where j: "item_at st i (TypeItem_Array_New dims j)" "type_at st j b" using TD_Array.prems(2) by auto
  have "0 \<le> j \<and> j < int (nat i)"
    using refs_ok_item [OF TD_Array.prems(1) j(1)] by (auto simp: type_refs_ok_def TypeItem_Array_New_def type_kinds)
  with TD_Array.prems(5) m have jm: "nat j < m" by linarith
  obtain t d' tbl' where t: "item_at st j t" "TypeItem_To_TypeDesc m (is_table st) tbl t = Inr (d', tbl')"
    "same_desc d' b" "desc_ok tbl'" using TD_Array.IH [OF TD_Array.prems(1) j(2) _ TD_Array.prems(4) jm] TD_Array.prems(3) by auto
  let ?r = "TypeDesc_Get_Array dims d' tbl'"
  have "TypeItem_To_TypeDesc n (is_table st) tbl (TypeItem_Array_New dims j) = Inr ?r"
    using m t(2) typeitem_get_at [OF store_ok_base [OF TD_Array.prems(1)] t(1)]
    by (simp add: TypeItem_Array_New_def type_kinds)
  moreover have "same_desc (fst ?r) (TD_Array dims b)" "desc_ok (snd ?r)"
    using Get_specs(3) [OF t(4)] t(3) by (simp_all add: same_desc_def)
  ultimately show ?case using j(1) by (metis prod.collapse)
next
  case (TD_Varg b)
  then obtain m where m: "n = Suc m" by (cases n) auto
  obtain j where j: "item_at st i (TypeItem_Varg_New j)" "type_at st j b" using TD_Varg.prems(2) by auto
  have "0 \<le> j \<and> j < int (nat i)"
    using refs_ok_item [OF TD_Varg.prems(1) j(1)] by (auto simp: type_refs_ok_def TypeItem_Varg_New_def type_kinds)
  with TD_Varg.prems(5) m have jm: "nat j < m" by linarith
  obtain t d' tbl' where t: "item_at st j t" "TypeItem_To_TypeDesc m (is_table st) tbl t = Inr (d', tbl')"
    "same_desc d' b" "desc_ok tbl'" using TD_Varg.IH [OF TD_Varg.prems(1) j(2) _ TD_Varg.prems(4) jm] TD_Varg.prems(3) by auto
  let ?r = "TypeDesc_Get_Varg (Some d') tbl'"
  have "TypeItem_To_TypeDesc n (is_table st) tbl (TypeItem_Varg_New j) = Inr ?r"
    using m t(2) typeitem_get_at [OF store_ok_base [OF TD_Varg.prems(1)] t(1)]
    by (simp add: TypeItem_Varg_New_def type_kinds)
  moreover have "same_desc (fst ?r) (TD_Varg b)" "desc_ok (snd ?r)"
    using Get_specs(6) [OF t(4)] t(3) by (simp_all add: same_desc_def)
  ultimately show ?case using j(1) by (metis prod.collapse)
qed simp_all


lemma indexes_to_types_at:
  assumes "store_ok st" "types_at st is ds" "list_all known_bases ds" "desc_ok tbl" "length (its st ITEM_TYPE) \<le> n"
  shows "\<exists>ds' tbl'. indexes_to_types (TypeItem_To_TypeDesc n (is_table st)) (is_table st) tbl is = Inr (ds', tbl') \<and>
    list_all2 same_desc ds' ds \<and> desc_ok tbl'"
  using assms(2,3,4)
proof (induction ds arbitrary: "is" tbl)
  case (Cons d ds)
  then obtain i js where i: "is = i # js" "type_at st i d" "types_at st js ds"
    by (auto simp: types_at_def list_all2_Cons2)
  have "nat i < n" using type_at_range [OF i(2)] assms(5) by linarith
  note at = TypeItem_To_TypeDesc_at [OF assms(1) i(2) _ Cons.prems(3) this]
  obtain t d' tbl1 where t: "item_at st i t" "TypeItem_To_TypeDesc n (is_table st) tbl t = Inr (d', tbl1)"
    "same_desc d' d" "desc_ok tbl1"
    using at Cons.prems(2) by auto
  obtain ds' tbl2 where "indexes_to_types (TypeItem_To_TypeDesc n (is_table st)) (is_table st) tbl1 js = Inr (ds', tbl2)"
    "list_all2 same_desc ds' ds" "desc_ok tbl2"
    using Cons.IH [OF i(3) _ t(4)] Cons.prems(2) by auto
  with i(1) t typeitem_get_at [OF store_ok_base [OF assms(1)] t(1)] show ?case by simp
qed (simp add: types_at_def)

lemma typelist_read:
  assumes "store_ok st" "typelist_at st i ds" "list_all known_bases ds" "desc_ok tbl" "length (its st ITEM_TYPE) \<le> n"
  shows "\<exists>l ds' tbl'. (if i \<ge> 0 then typelist_of (is_table st) i else Inr None) = Inr l \<and>
    TypeListItem_To_Vector (TypeItem_To_TypeDesc n (is_table st)) (is_table st) tbl l = Inr (ds', tbl') \<and>
    list_all2 same_desc ds' ds \<and> desc_ok tbl'"
proof (cases "ds = []")
  case True
  with assms(2,4) show ?thesis by (simp add: typelist_at_def TypeListItem_To_Vector_def)
next
  case False
  then obtain js where js: "0 \<le> i" "i < int (length (its st ITEM_TYPELIST))"
    "its st ITEM_TYPELIST ! nat i = TypeListI (TypeListItem_New js)" "types_at st js ds"
    using assms(2) by (auto simp: typelist_at_def)
  have "ITEM_TYPELIST < at_size (is_table st)"
    using assms(1) by (simp add: store_ok_def base_ok_def item_types)
  from AtomTable_Get_spec [OF base_ok_inv [OF store_ok_base [OF assms(1)]] this, of i] js(1,2,3)
  have "typelist_of (is_table st) i = Inr (Some (TypeListItem_New js))" by (simp add: typelist_of_def)
  moreover obtain ds' tbl' where "indexes_to_types (TypeItem_To_TypeDesc n (is_table st)) (is_table st) tbl js = Inr (ds', tbl')"
    "list_all2 same_desc ds' ds" "desc_ok tbl'"
    using indexes_to_types_at [OF assms(1) js(4) assms(3,4,5)] by blast
  ultimately show ?thesis
    using js(1) by (simp add: TypeListItem_To_Vector_def TypeListItem_New_def)
qed

lemma list_text_same: "list_all2 same_desc ds es \<Longrightarrow> map td_desc ds = map td_desc es"
  by (induction rule: list_all2_induct) (simp_all add: same_desc_def)

lemma ProtoItem_To_TypeDesc_at:
  assumes "store_ok st" "typelist_at st r ret" "typelist_at st p arg" "list_all known_bases arg"
    and "list_all known_bases ret" "desc_ok tbl" "length (its st ITEM_TYPE) \<le> n"
  shows "\<exists>d' tbl'. ProtoItem_To_TypeDesc n (is_table st) tbl (ProtoItem_New r p) = Inr (d', tbl') \<and>
    same_desc d' (TD_Proto arg ret) \<and> desc_ok tbl'"
proof -
  obtain rl rs tbl1 where r: "(if r \<ge> 0 then typelist_of (is_table st) r else Inr None) = Inr rl"
    "TypeListItem_To_Vector (TypeItem_To_TypeDesc n (is_table st)) (is_table st) tbl rl = Inr (rs, tbl1)"
    "list_all2 same_desc rs ret" "desc_ok tbl1"
    using typelist_read [OF assms(1,2,5,6,7)] by blast
  obtain pl ps tbl2 where p: "(if p \<ge> 0 then typelist_of (is_table st) p else Inr None) = Inr pl"
    "TypeListItem_To_Vector (TypeItem_To_TypeDesc n (is_table st)) (is_table st) tbl1 pl = Inr (ps, tbl2)"
    "list_all2 same_desc ps arg" "desc_ok tbl2"
    using typelist_read [OF assms(1,3,4) r(4) assms(7)] by blast
  let ?x = "TypeDesc_Get_Proto ps rs tbl2"
  have "ProtoItem_To_TypeDesc n (is_table st) tbl (ProtoItem_New r p) = Inr ?x"
    unfolding ProtoItem_To_TypeDesc_def proto_to_desc_def ProtoItem_New_def ProtoItem.simps
    by (simp add: r(1,2) p(1,2) del: bind_run_eq_Inr_iff if_split)
  moreover have "same_desc (fst ?x) (TD_Proto arg ret)" "desc_ok (snd ?x)"
    using Get_specs(2) [OF p(4)] list_text_same [OF r(3)] list_text_same [OF p(3)] by (simp_all add: same_desc_def)
  ultimately show ?thesis by (metis prod.collapse)
qed

end
