(* ===== verification/KImage.thy ===== *)
theory KImage
  imports ImageType
begin

text \<open>
  The image a compiler fills and a loader reads (\<^verbatim>\<open>src/src/image.c\<close>, \<^verbatim>\<open>src/include/image.h\<close>): the
  header, the functions \<^verbatim>\<open>KImage_Add_...\<close> and the functions \<^verbatim>\<open>KImage_Get_...\<close>. The callbacks of the
  latter are modelled by the list of the arguments they are called with.
\<close>

subsection \<open>Header\<close>

definition PKG_NAME_MAX :: nat where "PKG_NAME_MAX = 64"

definition ENDIAN_TAG :: int where "ENDIAN_TAG = 0x1a2b3c4d"

definition sizeof_ImageHeader :: int where "sizeof_ImageHeader = 96"

record ImageHeader =
  ih_magic :: "uint8 list"
  ih_version :: "uint8 list"
  ih_file_size :: int
  ih_header_size :: int
  ih_endian_tag :: int
  ih_map_offset :: int
  ih_map_size :: int
  ih_crc32 :: int
  ih_pkgname :: string

definition version_major :: int where "version_major = 0"
definition version_minor :: int where "version_minor = 1"
definition version_build :: int where "version_build = 1"

text \<open>The header of a zeroed image after \<open>init_header\<close>; a null name is \<open>None\<close>.\<close>

definition init_header :: "string option \<Rightarrow> ImageHeader" where
  "init_header name = \<lparr>
     ih_magic = map byte_of_char (''KLC'' @ [NUL]),
     ih_version = map word_of_int [48 + version_major, 48 + version_minor,
                                   48 + version_build div 256 mod 256, 48 + version_build mod 256],
     ih_file_size = 0,
     ih_header_size = sizeof_ImageHeader,
     ih_endian_tag = ENDIAN_TAG,
     ih_map_offset = sizeof_ImageHeader,
     ih_map_size = int ITEM_MAX,
     ih_crc32 = 0,
     ih_pkgname = (case name of None \<Rightarrow> replicate PKG_NAME_MAX NUL
       | Some s \<Rightarrow> let t = take (PKG_NAME_MAX - 1) (cstr s) in t @ replicate (PKG_NAME_MAX - length t) NUL)\<rparr>"

record KImage =
  im_header :: ImageHeader
  im_store :: ItemStore

definition KImage_New :: "string option \<Rightarrow> KImage" where
  "KImage_New pkgname = \<lparr>im_header = init_header pkgname, im_store = ItemStore_New\<rparr>"

definition KImage_Get_PkgName :: "KImage \<Rightarrow> string" where
  "KImage_Get_PkgName img = ih_pkgname (im_header img)"

definition KImage_Count_Consts :: "KImage \<Rightarrow> int run" where
  "KImage_Count_Consts img = AtomTable_Size (is_table (im_store img)) ITEM_CONST"

subsection \<open>Adding constants\<close>

text \<open>The first argument is the address of the key the function builds on its stack.\<close>

definition KImage_Add_Const :: "addr \<Rightarrow> KImage \<Rightarrow> ConstItem \<Rightarrow> (int \<times> KImage) run" where
  "KImage_Add_Const k img c =
     bind_run (const_set k (im_store img) c) (\<lambda>(index, st). Inr (index, img\<lparr>im_store := st\<rparr>))"

definition KImage_Add_Integer :: "addr \<Rightarrow> KImage \<Rightarrow> int \<Rightarrow> (int \<times> KImage) run" where
  "KImage_Add_Integer k img val = KImage_Add_Const k img (ConstItem_Int_New val)"

definition KImage_Add_Float :: "addr \<Rightarrow> KImage \<Rightarrow> uint64 \<Rightarrow> (int \<times> KImage) run" where
  "KImage_Add_Float k img val = KImage_Add_Const k img (ConstItem_Float_New val)"

definition KImage_Add_Bool :: "addr \<Rightarrow> KImage \<Rightarrow> int \<Rightarrow> (int \<times> KImage) run" where
  "KImage_Add_Bool k img val = KImage_Add_Const k img (ConstItem_Bool_New val)"

definition KImage_Add_String :: "addr \<Rightarrow> KImage \<Rightarrow> string \<Rightarrow> (int \<times> KImage) run" where
  "KImage_Add_String k img val =
     bind_run (StringItem_Set (im_store img) val) (\<lambda>(idx, st).
       if \<not> idx \<ge> 0 then Inl Assert_Failed
       else KImage_Add_Const k (img\<lparr>im_store := st\<rparr>) (ConstItem_String_New idx))"

definition KImage_Add_UChar :: "addr \<Rightarrow> KImage \<Rightarrow> uint32 \<Rightarrow> (int \<times> KImage) run" where
  "KImage_Add_UChar k img val = KImage_Add_Const k img (ConstItem_UChar_New val)"

subsection \<open>Adding declarations\<close>

text \<open>A prototype descriptor is given by its arguments and results.\<close>

definition put_store :: "KImage \<Rightarrow> (int \<times> ItemStore) run \<Rightarrow> (int \<times> KImage) run" where
  "put_store img r = bind_run r (\<lambda>(index, st). Inr (index, img\<lparr>im_store := st\<rparr>))"

definition KImage_Add_Var :: "KImage \<Rightarrow> string \<Rightarrow> TypeDesc \<Rightarrow> int \<Rightarrow> (int \<times> KImage) run" where
  "KImage_Add_Var img name desc konst = put_store img (
     bind_run (TypeItem_Set (im_store img) desc) (\<lambda>(type_index, st1).
     bind_run (StringItem_Set st1 name) (\<lambda>(name_index, st2).
       append_item st2 ITEM_VAR (VarI (VarItem_New name_index type_index konst)) False)))"

definition KImage_Add_LocVar :: "KImage \<Rightarrow> string \<Rightarrow> TypeDesc \<Rightarrow> int \<Rightarrow> int \<Rightarrow> (int \<times> KImage) run" where
  "KImage_Add_LocVar img name desc pos index = put_store img (
     bind_run (TypeItem_Set (im_store img) desc) (\<lambda>(typeindex, st1).
     bind_run (StringItem_Set st1 name) (\<lambda>(nameindex, st2).
       append_item st2 ITEM_LOCVAR (LocVarI (LocVarItem_New nameindex typeindex pos index)) False)))"

definition KImage_Add_Func ::
  "KImage \<Rightarrow> string \<Rightarrow> TypeDesc list \<Rightarrow> TypeDesc list \<Rightarrow> uint8 list \<Rightarrow> int \<Rightarrow> (int \<times> KImage) run" where
  "KImage_Add_Func img name arg ret codes sz = put_store img (
     bind_run (StringItem_Set (im_store img) name) (\<lambda>(nameindex, st1).
     bind_run (ProtoItem_Set st1 arg ret) (\<lambda>(protoindex, st2).
     bind_run (codeitem_set st2 codes sz) (\<lambda>(codeindex, st3).
       append_item st3 ITEM_FUNC (FuncI (FuncItem_New nameindex protoindex codeindex)) False))))"

definition KImage_Add_Class :: "KImage \<Rightarrow> string \<Rightarrow> TypeDesc list \<Rightarrow> (int \<times> KImage) run" where
  "KImage_Add_Class img name supers = put_store img (
     bind_run (TypeItem_Set (im_store img) (TD_Klass None name)) (\<lambda>(classindex, st1).
     bind_run (TypeListItem_Set st1 supers) (\<lambda>(superindex, st2).
       append_item st2 ITEM_CLASS (ClassI (ClassItem_New classindex superindex)) False)))"

definition KImage_Add_Field :: "KImage \<Rightarrow> string \<Rightarrow> string \<Rightarrow> TypeDesc \<Rightarrow> (int \<times> KImage) run" where
  "KImage_Add_Field img clazz name desc = put_store img (
     bind_run (TypeItem_Set (im_store img) (TD_Klass None clazz)) (\<lambda>(classindex, st1).
     bind_run (StringItem_Set st1 name) (\<lambda>(nameindex, st2).
     bind_run (TypeItem_Set st2 desc) (\<lambda>(typeindex, st3).
       append_item st3 ITEM_FIELD (FieldI (FieldItem_New classindex nameindex typeindex)) False))))"

definition KImage_Add_Method ::
  "KImage \<Rightarrow> string \<Rightarrow> string \<Rightarrow> TypeDesc list \<Rightarrow> TypeDesc list \<Rightarrow> uint8 list \<Rightarrow> int \<Rightarrow> (int \<times> KImage) run" where
  "KImage_Add_Method img klazz name arg ret codes csz = put_store img (
     bind_run (TypeItem_Set (im_store img) (TD_Klass None klazz)) (\<lambda>(classindex, st1).
     bind_run (StringItem_Set st1 name) (\<lambda>(nameindex, st2).
     bind_run (ProtoItem_Set st2 arg ret) (\<lambda>(protoindex, st3).
     bind_run (codeitem_set st3 codes csz) (\<lambda>(codeindex, st4).
       append_item st4 ITEM_METHOD (MethodI (MethodItem_New classindex nameindex protoindex codeindex)) False)))))"

definition KImage_Add_Trait :: "KImage \<Rightarrow> string \<Rightarrow> TypeDesc list \<Rightarrow> (int \<times> KImage) run" where
  "KImage_Add_Trait img name traits = put_store img (
     bind_run (TypeItem_Set (im_store img) (TD_Klass None name)) (\<lambda>(classindex, st1).
     bind_run (TypeListItem_Set st1 traits) (\<lambda>(traitsindex, st2).
       append_item st2 ITEM_TRAIT (TraitI (TraitItem_New classindex traitsindex)) False)))"

definition KImage_Add_NFunc ::
  "KImage \<Rightarrow> string option \<Rightarrow> string \<Rightarrow> TypeDesc list \<Rightarrow> TypeDesc list \<Rightarrow> (int \<times> KImage) run" where
  "KImage_Add_NFunc img klazz name arg ret = put_store img (
     bind_run (case klazz of None \<Rightarrow> Inr (-1, im_store img)
         | Some k \<Rightarrow> TypeItem_Set (im_store img) (TD_Klass None k)) (\<lambda>(classindex, st1).
     bind_run (StringItem_Set st1 name) (\<lambda>(nameindex, st2).
     bind_run (ProtoItem_Set st2 arg ret) (\<lambda>(protoindex, st3).
       append_item st3 ITEM_NFUNC (NFuncI (NFuncItem_New classindex nameindex protoindex)) False))))"

definition KImage_Add_IMeth ::
  "KImage \<Rightarrow> string \<Rightarrow> string \<Rightarrow> TypeDesc list \<Rightarrow> TypeDesc list \<Rightarrow> (int \<times> KImage) run" where
  "KImage_Add_IMeth img trait name arg ret = put_store img (
     bind_run (TypeItem_Set (im_store img) (TD_Klass None trait)) (\<lambda>(classindex, st1).
     bind_run (StringItem_Set st1 name) (\<lambda>(nameindex, st2).
     bind_run (ProtoItem_Set st2 arg ret) (\<lambda>(protoindex, st3).
       append_item st3 ITEM_IMETH (IMethI (IMethItem_New classindex nameindex protoindex)) False))))"

subsection \<open>Reading\<close>

text \<open>A loop over the items of a type, with the interned descriptors passed along.\<close>

fun visit_run :: "('a \<Rightarrow> DescTable \<Rightarrow> ('b \<times> DescTable) run) \<Rightarrow> 'a list \<Rightarrow> DescTable \<Rightarrow> ('b list \<times> DescTable) run" where
  "visit_run f [] tbl = Inr ([], tbl)"
| "visit_run f (x # xs) tbl =
     bind_run (f x tbl) (\<lambda>(y, tbl1). bind_run (visit_run f xs tbl1) (\<lambda>(ys, tbl2). Inr (y # ys, tbl2)))"

definition for_items :: "KImage \<Rightarrow> nat \<Rightarrow> (int \<Rightarrow> DescTable \<Rightarrow> ('b \<times> DescTable) run) \<Rightarrow> DescTable \<Rightarrow>
    ('b list \<times> DescTable) run" where
  "for_items img type f tbl = bind_run (AtomTable_Size (is_table (im_store img)) type)
     (\<lambda>sz. visit_run f [0 .. sz - 1] tbl)"

text \<open>The pointer given for a constant: to the characters of a string, or to the union of the item.\<close>

datatype ConstData = Chars string | Union uint64

definition KImage_Get_Consts :: "KImage \<Rightarrow> (int \<times> ConstData \<times> int) list run" where
  "KImage_Get_Consts img = (let table = is_table (im_store img) in
     bind_run (for_items img ITEM_CONST (\<lambda>i tbl.
       bind_run (item_get table ITEM_CONST i) (\<lambda>it. case it of
           ConstI item \<Rightarrow>
             if ci_type item = CONST_STRING then
               bind_run (string_get table (ci_index item)) (\<lambda>s. Inr ((ci_type item, Chars s, i), tbl))
             else Inr ((ci_type item, Union (ci_raw item), i), tbl)
         | _ \<Rightarrow> Inl Assert_Failed)) Map.empty) (\<lambda>(calls, tbl). Inr calls))"

definition get_var ::
  "nat \<Rightarrow> Item AtomTable \<Rightarrow> int \<Rightarrow> DescTable \<Rightarrow> ((string \<times> TypeDesc \<times> int) \<times> DescTable) run" where
  "get_var n table i tbl =
     bind_run (item_get table ITEM_VAR i) (\<lambda>it. case it of
         VarI var \<Rightarrow>
           bind_run (string_get table (va_nameindex var)) (\<lambda>id.
           bind_run (typeitem_get table (va_typeindex var)) (\<lambda>type.
           bind_run (TypeItem_To_TypeDesc n table tbl type) (\<lambda>(desc, tbl1).
             Inr ((id, desc, va_konst var), tbl1))))
       | _ \<Rightarrow> Inl Assert_Failed)"

definition KImage_Get_Vars :: "nat \<Rightarrow> KImage \<Rightarrow> DescTable \<Rightarrow> ((string \<times> TypeDesc \<times> int) list \<times> DescTable) run" where
  "KImage_Get_Vars n img tbl = for_items img ITEM_VAR (get_var n (is_table (im_store img))) tbl"

definition get_locvar ::
  "nat \<Rightarrow> Item AtomTable \<Rightarrow> int \<Rightarrow> DescTable \<Rightarrow> ((string \<times> TypeDesc \<times> int \<times> int) \<times> DescTable) run" where
  "get_locvar n table i tbl =
     bind_run (item_get table ITEM_LOCVAR i) (\<lambda>it. case it of
         LocVarI var \<Rightarrow>
           bind_run (string_get table (lv_nameindex var)) (\<lambda>str.
           bind_run (typeitem_get table (lv_typeindex var)) (\<lambda>type.
           bind_run (TypeItem_To_TypeDesc n table tbl type) (\<lambda>(desc, tbl1).
             Inr ((str, desc, lv_pos var, lv_index var), tbl1))))
       | _ \<Rightarrow> Inl Assert_Failed)"

definition KImage_Get_LocVars :: "nat \<Rightarrow> KImage \<Rightarrow> DescTable \<Rightarrow> ((string \<times> TypeDesc \<times> int \<times> int) list \<times> DescTable) run" where
  "KImage_Get_LocVars n img tbl = for_items img ITEM_LOCVAR (get_locvar n (is_table (im_store img))) tbl"

text \<open>The code of a function; an index without an item gives a null pointer and size 0.\<close>

definition code_get :: "Item AtomTable \<Rightarrow> int \<Rightarrow> (uint8 list option \<times> int) run" where
  "code_get table index = bind_run (AtomTable_Get table ITEM_CODE index)
     (\<lambda>r. case r of None \<Rightarrow> Inr (None, 0) | Some (CodeI c) \<Rightarrow> Inr (Some (co_codes c), co_size c)
        | Some _ \<Rightarrow> Inl Assert_Failed)"

definition get_func ::
  "nat \<Rightarrow> Item AtomTable \<Rightarrow> int \<Rightarrow> DescTable \<Rightarrow> ((string \<times> TypeDesc \<times> int \<times> nat \<times> uint8 list option \<times> int) \<times> DescTable) run" where
  "get_func n table i tbl =
     bind_run (item_get table ITEM_FUNC i) (\<lambda>it. case it of
         FuncI funcitem \<Rightarrow>
           bind_run (string_get table (fu_nameindex funcitem)) (\<lambda>str.
           bind_run (code_get table (fu_codeindex funcitem)) (\<lambda>(codes, sz).
           bind_run (protoitem_get table (fu_protoindex funcitem)) (\<lambda>proto.
           bind_run (ProtoItem_To_TypeDesc n table tbl proto) (\<lambda>(desc, tbl1).
             Inr ((str, desc, i, ITEM_FUNC, codes, sz), tbl1)))))
       | _ \<Rightarrow> Inl Assert_Failed)"

definition KImage_Get_Funcs :: "nat \<Rightarrow> KImage \<Rightarrow> DescTable \<Rightarrow> ((string \<times> TypeDesc \<times> int \<times> nat \<times> uint8 list option \<times> int) list \<times> DescTable) run" where
  "KImage_Get_Funcs n img tbl = for_items img ITEM_FUNC (get_func n (is_table (im_store img))) tbl"

definition get_nfunc ::
  "nat \<Rightarrow> Item AtomTable \<Rightarrow> int \<Rightarrow> DescTable \<Rightarrow> ((string \<times> TypeDesc \<times> int \<times> nat \<times> uint8 list option \<times> int) \<times> DescTable) run" where
  "get_nfunc n table i tbl =
     bind_run (item_get table ITEM_NFUNC i) (\<lambda>it. case it of
         NFuncI nfuncitem \<Rightarrow>
           bind_run (string_get table (nf_nameindex nfuncitem)) (\<lambda>str.
           bind_run (protoitem_get table (nf_protoindex nfuncitem)) (\<lambda>proto.
           bind_run (ProtoItem_To_TypeDesc n table tbl proto) (\<lambda>(desc, tbl1).
             Inr ((str, desc, i, ITEM_NFUNC, None, 0), tbl1))))
       | _ \<Rightarrow> Inl Assert_Failed)"

definition KImage_Get_NFuncs :: "nat \<Rightarrow> KImage \<Rightarrow> DescTable \<Rightarrow> ((string \<times> TypeDesc \<times> int \<times> nat \<times> uint8 list option \<times> int) list \<times> DescTable) run" where
  "KImage_Get_NFuncs n img tbl = for_items img ITEM_NFUNC (get_nfunc n (is_table (im_store img))) tbl"

end
