(* ===== verification/ImageDecl.thy ===== *)
theory ImageDecl
  imports KImage
begin

text \<open>
  What an image means: the list of the declarations it was given, and the relation between an image
  and that list. Adding a declaration appends to the list, reading the image gives it back.
\<close>

declare TypeItem_Set.simps [simp del] TypeItem_Get.simps [simp del] type_at.simps [simp del]

subsection \<open>Declarations\<close>

datatype Decl =
    DVar string TypeDesc int
  | DLocVar string TypeDesc int int
  | DFunc string "TypeDesc list" "TypeDesc list" "uint8 list"
  | DClass string "TypeDesc list"
  | DField string string TypeDesc
  | DMethod string string "TypeDesc list" "TypeDesc list" "uint8 list"
  | DTrait string "TypeDesc list"
  | DNFunc "string option" string "TypeDesc list" "TypeDesc list"
  | DIMeth string string "TypeDesc list" "TypeDesc list"

fun decl_type :: "Decl \<Rightarrow> nat" where
  "decl_type (DVar name desc konst) = ITEM_VAR"
| "decl_type (DLocVar name desc pos index) = ITEM_LOCVAR"
| "decl_type (DFunc name arg ret codes) = ITEM_FUNC"
| "decl_type (DClass name supers) = ITEM_CLASS"
| "decl_type (DField clazz name desc) = ITEM_FIELD"
| "decl_type (DMethod klazz name arg ret codes) = ITEM_METHOD"
| "decl_type (DTrait name traits) = ITEM_TRAIT"
| "decl_type (DNFunc klazz name arg ret) = ITEM_NFUNC"
| "decl_type (DIMeth trait name arg ret) = ITEM_IMETH"

text \<open>The types of a declaration have items of their own: no prototypes, maps or sets inside types.\<close>

fun decl_plain :: "Decl \<Rightarrow> bool" where
  "decl_plain (DVar name desc konst) = plain_type desc"
| "decl_plain (DLocVar name desc pos index) = plain_type desc"
| "decl_plain (DFunc name arg ret codes) = (\<forall>d \<in> set arg \<union> set ret. plain_type d)"
| "decl_plain (DClass name supers) = (\<forall>d \<in> set supers. plain_type d)"
| "decl_plain (DField clazz name desc) = plain_type desc"
| "decl_plain (DMethod klazz name arg ret codes) = (\<forall>d \<in> set arg \<union> set ret. plain_type d)"
| "decl_plain (DTrait name traits) = (\<forall>d \<in> set traits. plain_type d)"
| "decl_plain (DNFunc klazz name arg ret) = (\<forall>d \<in> set arg \<union> set ret. plain_type d)"
| "decl_plain (DIMeth trait name arg ret) = (\<forall>d \<in> set arg \<union> set ret. plain_type d)"

fun KImage_Add :: "KImage \<Rightarrow> Decl \<Rightarrow> (int \<times> KImage) run" where
  "KImage_Add img (DVar name desc konst) = KImage_Add_Var img name desc konst"
| "KImage_Add img (DLocVar name desc pos index) = KImage_Add_LocVar img name desc pos index"
| "KImage_Add img (DFunc name arg ret codes) = KImage_Add_Func img name arg ret codes (int (length codes))"
| "KImage_Add img (DClass name supers) = KImage_Add_Class img name supers"
| "KImage_Add img (DField clazz name desc) = KImage_Add_Field img clazz name desc"
| "KImage_Add img (DMethod klazz name arg ret codes) =
     KImage_Add_Method img klazz name arg ret codes (int (length codes))"
| "KImage_Add img (DTrait name traits) = KImage_Add_Trait img name traits"
| "KImage_Add img (DNFunc klazz name arg ret) = KImage_Add_NFunc img klazz name arg ret"
| "KImage_Add img (DIMeth trait name arg ret) = KImage_Add_IMeth img trait name arg ret"

subsection \<open>The item of a declaration\<close>

definition code_at :: "ItemStore \<Rightarrow> int \<Rightarrow> uint8 list \<Rightarrow> bool" where
  "code_at st i codes \<longleftrightarrow> 0 \<le> i \<and> i < int (length (its st ITEM_CODE)) \<and>
     its st ITEM_CODE ! nat i = CodeI (CodeItem_New codes (int (length codes)))"

text \<open>The class of a native function; a plain function has none.\<close>

definition class_at :: "ItemStore \<Rightarrow> int \<Rightarrow> string option \<Rightarrow> bool" where
  "class_at st i klazz \<longleftrightarrow> (case klazz of None \<Rightarrow> i = -1 | Some k \<Rightarrow> type_at st i (TD_Klass None k))"

fun decl_at :: "ItemStore \<Rightarrow> Item \<Rightarrow> Decl \<Rightarrow> bool" where
  "decl_at st it (DVar name desc konst) \<longleftrightarrow> (\<exists>v. it = VarI v \<and>
     string_at st (va_nameindex v) name \<and> type_at st (va_typeindex v) desc \<and> va_konst v = konst)"
| "decl_at st it (DLocVar name desc pos index) \<longleftrightarrow> (\<exists>v. it = LocVarI v \<and>
     string_at st (lv_nameindex v) name \<and> type_at st (lv_typeindex v) desc \<and> lv_pos v = pos \<and> lv_index v = index)"
| "decl_at st it (DFunc name arg ret codes) \<longleftrightarrow> (\<exists>f. it = FuncI f \<and>
     string_at st (fu_nameindex f) name \<and> proto_at st (fu_protoindex f) arg ret \<and> code_at st (fu_codeindex f) codes)"
| "decl_at st it (DClass name supers) \<longleftrightarrow> (\<exists>c. it = ClassI c \<and>
     type_at st (cl_classindex c) (TD_Klass None name) \<and> typelist_at st (cl_superindex c) supers)"
| "decl_at st it (DField clazz name desc) \<longleftrightarrow> (\<exists>f. it = FieldI f \<and>
     type_at st (fi_classindex f) (TD_Klass None clazz) \<and> string_at st (fi_nameindex f) name \<and>
     type_at st (fi_typeindex f) desc)"
| "decl_at st it (DMethod klazz name arg ret codes) \<longleftrightarrow> (\<exists>m. it = MethodI m \<and>
     type_at st (me_classindex m) (TD_Klass None klazz) \<and> string_at st (me_nameindex m) name \<and>
     proto_at st (me_protoindex m) arg ret \<and> code_at st (me_codeindex m) codes)"
| "decl_at st it (DTrait name traits) \<longleftrightarrow> (\<exists>t. it = TraitI t \<and>
     type_at st (tr_classindex t) (TD_Klass None name) \<and> typelist_at st (tr_traitsindex t) traits)"
| "decl_at st it (DNFunc klazz name arg ret) \<longleftrightarrow> (\<exists>f. it = NFuncI f \<and>
     class_at st (nf_classindex f) klazz \<and>
     string_at st (nf_nameindex f) name \<and> proto_at st (nf_protoindex f) arg ret)"
| "decl_at st it (DIMeth trait name arg ret) \<longleftrightarrow> (\<exists>m. it = IMethI m \<and>
     type_at st (im_classindex m) (TD_Klass None trait) \<and> string_at st (im_nameindex m) name \<and>
     proto_at st (im_protoindex m) arg ret)"

lemma code_at_extends:
  assumes "code_at st i codes" "extends st st'"
  shows "code_at st' i codes"
proof -
  have "nat i < length (its st ITEM_CODE)" "ITEM_CODE < ITEM_MAX" using assms(1) by (auto simp: code_at_def item_types)
  with extends_nth [OF assms(2), of ITEM_CODE "nat i"] assms show ?thesis by (auto simp: code_at_def)
qed

lemma class_at_extends: "class_at st i k \<Longrightarrow> extends st st' \<Longrightarrow> class_at st' i k"
  by (auto simp: class_at_def intro: type_at_extends split: option.splits)

lemmas at_extends = string_at_extends type_at_extends typelist_at_extends proto_at_extends code_at_extends
  class_at_extends

lemma decl_at_extends:
  "decl_at st it d \<Longrightarrow> extends st st' \<Longrightarrow> decl_at st' it d"
  by (cases d) (auto intro: at_extends)

subsection \<open>An image and its declarations\<close>

definition decl_types :: "nat set" where
  "decl_types = {ITEM_VAR, ITEM_LOCVAR, ITEM_FUNC, ITEM_CLASS, ITEM_FIELD, ITEM_METHOD, ITEM_TRAIT, ITEM_NFUNC, ITEM_IMETH}"

text \<open>The declarations of one kind, in the order they were added, are the items of that kind.\<close>

definition image_rel :: "KImage \<Rightarrow> Decl list \<Rightarrow> bool" where
  "image_rel img ds \<longleftrightarrow> store_ok (im_store img) \<and>
     (\<forall>ty \<in> decl_types. list_all2 (decl_at (im_store img)) (its (im_store img) ty) (filter (\<lambda>d. decl_type d = ty) ds))"

lemma image_rel_New: "image_rel (KImage_New name) []"
  using store_ok_New by (simp add: image_rel_def KImage_New_def items_New decl_types_def item_types)

text \<open>What the functions that add a declaration share: the pools grow, then one item is appended.\<close>

definition pools_grow :: "ItemStore \<Rightarrow> ItemStore \<Rightarrow> bool" where
  "pools_grow st st' \<longleftrightarrow> store_ok st' \<and> extends st st' \<and>
     (\<forall>ty \<in> insert ITEM_MAP decl_types. its st' ty = its st ty)"

lemma pools_grow_trans: "pools_grow st1 st2 \<Longrightarrow> pools_grow st2 st3 \<Longrightarrow> pools_grow st1 st3"
  by (auto simp: pools_grow_def intro: extends_trans)

lemma pools_grow_ext: "pools_grow st st' \<Longrightarrow> extends st st'" "pools_grow st st' \<Longrightarrow> store_ok st'"
  by (simp_all add: pools_grow_def)

lemma pools_grow_refl: "store_ok st \<Longrightarrow> pools_grow st st"
  by (simp add: pools_grow_def)

lemma grow_string:
  assumes "store_ok st"
  shows "\<exists>i st'. StringItem_Set st s = Inr (i, st') \<and> pools_grow st st' \<and> string_at st' i s"
proof -
  obtain i st' where st': "StringItem_Set st s = Inr (i, st')" "base_ok st'" "extends st st'" "string_at st' i s"
    "\<forall>ty. ty \<noteq> ITEM_STRING \<longrightarrow> its st' ty = its st ty"
    using StringItem_Set_spec [OF store_ok_base [OF assms]] by blast
  have "store_ok st'" by (rule store_ok_strings [OF assms st'(2,3,5)])
  with st' show ?thesis by (auto simp: pools_grow_def decl_types_def item_types)
qed

lemma grow_type:
  assumes "store_ok st" "plain_type d"
  shows "\<exists>i st'. TypeItem_Set st d = Inr (i, st') \<and> pools_grow st st' \<and> type_at st' i d"
proof -
  obtain i st' where st': "TypeItem_Set st d = Inr (i, st')" "type_added st d i st'"
    using TypeItem_Set_spec [OF assms(2,1)] by blast
  then have "pools_grow st st'" "type_at st' i d"
    by (simp_all add: type_added_def pools_grow_def decl_types_def item_types)
  with st'(1) show ?thesis by blast
qed

lemma grow_typelist:
  assumes "store_ok st" "\<forall>d \<in> set ds. plain_type d"
  shows "\<exists>i st'. TypeListItem_Set st ds = Inr (i, st') \<and> pools_grow st st' \<and> typelist_at st' i ds"
proof -
  obtain i st' where st': "TypeListItem_Set st ds = Inr (i, st')" "store_ok st'" "extends st st'" "typelist_at st' i ds"
    "only_lists st st'" using TypeListItem_Set_spec [OF assms(2,1)] by blast
  then have "pools_grow st st'" by (simp add: only_lists_def pools_grow_def decl_types_def item_types)
  with st' show ?thesis by blast
qed

lemma grow_proto:
  assumes "store_ok st" "\<forall>d \<in> set arg \<union> set ret. plain_type d"
  shows "\<exists>i st'. ProtoItem_Set st arg ret = Inr (i, st') \<and> pools_grow st st' \<and> proto_at st' i arg ret"
proof -
  obtain i st' where st': "ProtoItem_Set st arg ret = Inr (i, st')" "store_ok st'" "extends st st'" "proto_at st' i arg ret"
    "\<forall>ty. ty \<notin> {ITEM_STRING, ITEM_TYPE, ITEM_TYPELIST, ITEM_PROTO} \<longrightarrow> its st' ty = its st ty"
    using ProtoItem_Set_spec [OF assms(2,1)] by blast
  then have "pools_grow st st'" by (simp add: pools_grow_def decl_types_def item_types)
  with st' show ?thesis by blast
qed

text \<open>An item of a kind that is not shared.\<close>

lemma append_decl_item:
  assumes "store_ok st" "item_type it = ty" "ty < ITEM_MAX" "ty \<notin> shared_types" "at_address (is_brk st) it = it"
  shows "\<exists>i st'. append_item st ty it False = Inr (i, st') \<and> i = int (length (its st ty)) \<and> store_ok st' \<and> extends st st' \<and>
    its st' ty = its st ty @ [it] \<and> (\<forall>t. t \<noteq> ty \<longrightarrow> its st' t = its st t)"
proof -
  have "item_kind_ok ty it" using assms(2,3) by (simp add: item_kind_ok_def)
  from append_plain [OF store_ok_base [OF assms(1)] this assms(4)] assms(5)
  obtain st' where st': "append_item st ty it False = Inr (int (length (its st ty)), st')" "base_ok st'"
    "\<forall>ty'. its st' ty' = (if ty' = ty then its st ty @ [it] else its st ty')" by auto
  have "extends st st'" using st'(3) by (auto simp: extends_def)
  moreover from this have "store_ok st'"
    by (rule refs_ok_same [OF assms(1) st'(2)]) (use st'(3) assms(4) in \<open>auto simp: shared_types_def\<close>)
  ultimately show ?thesis using st' by auto
qed

lemma grow_code:
  assumes "store_ok st"
  shows "\<exists>i st'. codeitem_set st codes (int (length codes)) = Inr (i, st') \<and> pools_grow st st' \<and> code_at st' i codes"
proof -
  let ?c = "CodeI (CodeItem_New codes (int (length codes)))"
  obtain i st' where st': "append_item st ITEM_CODE ?c False = Inr (i, st')" "i = int (length (its st ITEM_CODE))"
    "store_ok st'" "extends st st'" "its st' ITEM_CODE = its st ITEM_CODE @ [?c]" "\<forall>t. t \<noteq> ITEM_CODE \<longrightarrow> its st' t = its st t"
    using append_decl_item [OF assms, of ?c ITEM_CODE] by (auto simp: item_types shared_types_def)
  then show ?thesis by (auto simp: codeitem_set_def pools_grow_def code_at_def decl_types_def item_types)
qed

lemma append_decl:
  assumes "image_rel img ds" "pools_grow (im_store img) st" "decl_at st it d" "item_type it = decl_type d"
    and "append_item st (decl_type d) it False = r"
  shows "\<exists>img'. put_store img r = Inr (int (length (filter (\<lambda>e. decl_type e = decl_type d) ds)), img') \<and>
    image_rel img' (ds @ [d]) \<and> im_header img' = im_header img \<and>
    extends (im_store img) (im_store img') \<and> its (im_store img') ITEM_MAP = its (im_store img) ITEM_MAP"
proof -
  have ty: "decl_type d < ITEM_MAX" "decl_type d \<notin> shared_types" "decl_type d \<in> decl_types"
    by (cases d; simp add: item_types shared_types_def decl_types_def)+
  have addr: "at_address (is_brk st) it = it" using assms(3) by (cases d) (auto)
  obtain i st' where st': "append_item st (decl_type d) it False = Inr (i, st')" "store_ok st'" "extends st st'"
    "its st' (decl_type d) = its st (decl_type d) @ [it]" "\<forall>t. t \<noteq> decl_type d \<longrightarrow> its st' t = its st t"
    "i = int (length (its st (decl_type d)))"
    using append_decl_item [OF pools_grow_ext(2) [OF assms(2)] assms(4) ty(1,2) addr] by blast
  have ex: "extends (im_store img) st'" using extends_trans [OF pools_grow_ext(1) [OF assms(2)] st'(3)] .
  have "list_all2 (decl_at st') (its st' ty) (filter (\<lambda>x. decl_type x = ty) (ds @ [d]))" if "ty \<in> decl_types" for ty
  proof -
    have "list_all2 (decl_at (im_store img)) (its (im_store img) ty) (filter (\<lambda>d. decl_type d = ty) ds)"
      using assms(1) that by (simp add: image_rel_def)
    then have *: "list_all2 (decl_at st') (its (im_store img) ty) (filter (\<lambda>d. decl_type d = ty) ds)"
      by (rule list_all2_mono) (rule decl_at_extends [OF _ ex])
    have same: "its st ty = its (im_store img) ty" using assms(2) that by (simp add: pools_grow_def)
    show ?thesis
    proof (cases "ty = decl_type d")
      case True
      with * same st'(4) decl_at_extends [OF assms(3) st'(3)] show ?thesis by (simp add: list_all2_appendI)
    next
      case False
      with * same st'(5) show ?thesis by simp
    qed
  qed
  moreover have "its st' ITEM_MAP = its (im_store img) ITEM_MAP"
  proof -
    have "ITEM_MAP \<noteq> decl_type d" by (cases d) (simp_all add: item_types)
    with st'(5) assms(2) show ?thesis by (simp add: pools_grow_def)
  qed
  moreover have "i = int (length (filter (\<lambda>e. decl_type e = decl_type d) ds))"
  proof -
    have "length (its (im_store img) (decl_type d)) = length (filter (\<lambda>e. decl_type e = decl_type d) ds)"
      using assms(1) ty(3) unfolding image_rel_def by (blast dest: list_all2_lengthD)
    with st'(6) assms(2) ty(3) show ?thesis by (simp add: pools_grow_def)
  qed
  ultimately show ?thesis using st'(1,2) ex assms(5) by (auto simp: put_store_def image_rel_def)
qed


lemma grow_class:
  assumes "store_ok st"
  shows "\<exists>i st'. (case k of None \<Rightarrow> Inr (-1, st) | Some n \<Rightarrow> TypeItem_Set st (TD_Klass None n)) = Inr (i, st') \<and>
    pools_grow st st' \<and> class_at st' i k"
  using grow_type [OF assms, of "TD_Klass None (the k)"] pools_grow_refl [OF assms]
  by (cases k) (auto simp: class_at_def)

text \<open>
  Adding a declaration, whatever its kind, appends it to the declarations of the image and answers
  how many of its kind were there before.
\<close>

lemma KImage_Add_rel:
  assumes "image_rel img ds" "decl_plain d"
  shows "\<exists>img'. KImage_Add img d = Inr (int (length (filter (\<lambda>e. decl_type e = decl_type d) ds)), img') \<and>
    image_rel img' (ds @ [d]) \<and>
    im_header img' = im_header img \<and> extends (im_store img) (im_store img') \<and>
    its (im_store img') ITEM_MAP = its (im_store img) ITEM_MAP"
proof -
  have st: "store_ok (im_store img)" using assms(1) by (simp add: image_rel_def)
  note app = append_decl [OF assms(1) _ _ _ refl]
  note tr = pools_grow_trans
  note ext = pools_grow_ext
  show ?thesis
  proof (cases d)
    case (DVar name desc konst)
    obtain t st1 where 1: "TypeItem_Set (im_store img) desc = Inr (t, st1)" "pools_grow (im_store img) st1" "type_at st1 t desc"
      using grow_type [OF st, of desc] assms(2) DVar by auto
    obtain n st2 where 2: "StringItem_Set st1 name = Inr (n, st2)" "pools_grow st1 st2" "string_at st2 n name"
      using grow_string [OF ext(2) [OF 1(2)]] by blast
    have "decl_at st2 (VarI (VarItem_New n t konst)) d"
      using DVar 2(3) type_at_extends [OF 1(3) ext(1) [OF 2(2)]] by (simp add: VarItem_New_def)
    from app [OF tr [OF 1(2) 2(2)] this] DVar 1(1) 2(1) show ?thesis by (simp add: KImage_Add_Var_def)
  next
    case (DLocVar name desc pos index)
    obtain t st1 where 1: "TypeItem_Set (im_store img) desc = Inr (t, st1)" "pools_grow (im_store img) st1" "type_at st1 t desc"
      using grow_type [OF st, of desc] assms(2) DLocVar by auto
    obtain n st2 where 2: "StringItem_Set st1 name = Inr (n, st2)" "pools_grow st1 st2" "string_at st2 n name"
      using grow_string [OF ext(2) [OF 1(2)]] by blast
    have "decl_at st2 (LocVarI (LocVarItem_New n t pos index)) d"
      using DLocVar 2(3) type_at_extends [OF 1(3) ext(1) [OF 2(2)]] by (simp add: LocVarItem_New_def)
    from app [OF tr [OF 1(2) 2(2)] this] DLocVar 1(1) 2(1) show ?thesis by (simp add: KImage_Add_LocVar_def)
  next
    case (DFunc name arg ret codes)
    obtain n st1 where 1: "StringItem_Set (im_store img) name = Inr (n, st1)" "pools_grow (im_store img) st1" "string_at st1 n name"
      using grow_string [OF st] by blast
    obtain p st2 where 2: "ProtoItem_Set st1 arg ret = Inr (p, st2)" "pools_grow st1 st2" "proto_at st2 p arg ret"
      using grow_proto [OF ext(2) [OF 1(2)], of arg ret] assms(2) DFunc by auto
    obtain c st3 where 3: "codeitem_set st2 codes (int (length codes)) = Inr (c, st3)" "pools_grow st2 st3" "code_at st3 c codes"
      using grow_code [OF ext(2) [OF 2(2)]] by blast
    have "decl_at st3 (FuncI (FuncItem_New n p c)) d"
      using DFunc 3(3) string_at_extends [OF 1(3) ext(1) [OF tr [OF 2(2) 3(2)]]] proto_at_extends [OF 2(3) ext(1) [OF 3(2)]]
      by (simp add: FuncItem_New_def)
    from app [OF tr [OF tr [OF 1(2) 2(2)] 3(2)] this] DFunc 1(1) 2(1) 3(1) show ?thesis by (simp add: KImage_Add_Func_def)
  next
    case (DClass name supers)
    obtain t st1 where 1: "TypeItem_Set (im_store img) (TD_Klass None name) = Inr (t, st1)" "pools_grow (im_store img) st1"
      "type_at st1 t (TD_Klass None name)" using grow_type [OF st, of "TD_Klass None name"] by auto
    obtain l st2 where 2: "TypeListItem_Set st1 supers = Inr (l, st2)" "pools_grow st1 st2" "typelist_at st2 l supers"
      using grow_typelist [OF ext(2) [OF 1(2)], of supers] assms(2) DClass by auto
    have "decl_at st2 (ClassI (ClassItem_New t l)) d"
      using DClass 2(3) type_at_extends [OF 1(3) ext(1) [OF 2(2)]] by (simp add: ClassItem_New_def)
    from app [OF tr [OF 1(2) 2(2)] this] DClass 1(1) 2(1) show ?thesis by (simp add: KImage_Add_Class_def)
  next
    case (DField clazz name desc)
    obtain t st1 where 1: "TypeItem_Set (im_store img) (TD_Klass None clazz) = Inr (t, st1)" "pools_grow (im_store img) st1"
      "type_at st1 t (TD_Klass None clazz)" using grow_type [OF st, of "TD_Klass None clazz"] by auto
    obtain n st2 where 2: "StringItem_Set st1 name = Inr (n, st2)" "pools_grow st1 st2" "string_at st2 n name"
      using grow_string [OF ext(2) [OF 1(2)]] by blast
    obtain u st3 where 3: "TypeItem_Set st2 desc = Inr (u, st3)" "pools_grow st2 st3" "type_at st3 u desc"
      using grow_type [OF ext(2) [OF 2(2)], of desc] assms(2) DField by auto
    have "decl_at st3 (FieldI (FieldItem_New t n u)) d"
      using DField 3(3) type_at_extends [OF 1(3) ext(1) [OF tr [OF 2(2) 3(2)]]] string_at_extends [OF 2(3) ext(1) [OF 3(2)]]
      by (simp add: FieldItem_New_def)
    from app [OF tr [OF tr [OF 1(2) 2(2)] 3(2)] this] DField 1(1) 2(1) 3(1) show ?thesis by (simp add: KImage_Add_Field_def)
  next
    case (DMethod klazz name arg ret codes)
    obtain t st1 where 1: "TypeItem_Set (im_store img) (TD_Klass None klazz) = Inr (t, st1)" "pools_grow (im_store img) st1"
      "type_at st1 t (TD_Klass None klazz)" using grow_type [OF st, of "TD_Klass None klazz"] by auto
    obtain n st2 where 2: "StringItem_Set st1 name = Inr (n, st2)" "pools_grow st1 st2" "string_at st2 n name"
      using grow_string [OF ext(2) [OF 1(2)]] by blast
    obtain p st3 where 3: "ProtoItem_Set st2 arg ret = Inr (p, st3)" "pools_grow st2 st3" "proto_at st3 p arg ret"
      using grow_proto [OF ext(2) [OF 2(2)], of arg ret] assms(2) DMethod by auto
    obtain c st4 where 4: "codeitem_set st3 codes (int (length codes)) = Inr (c, st4)" "pools_grow st3 st4" "code_at st4 c codes"
      using grow_code [OF ext(2) [OF 3(2)]] by blast
    have "decl_at st4 (MethodI (MethodItem_New t n p c)) d"
      using DMethod 4(3) type_at_extends [OF 1(3) ext(1) [OF tr [OF tr [OF 2(2) 3(2)] 4(2)]]]
        string_at_extends [OF 2(3) ext(1) [OF tr [OF 3(2) 4(2)]]] proto_at_extends [OF 3(3) ext(1) [OF 4(2)]]
      by (simp add: MethodItem_New_def)
    from app [OF tr [OF tr [OF tr [OF 1(2) 2(2)] 3(2)] 4(2)] this] DMethod 1(1) 2(1) 3(1) 4(1)
    show ?thesis by (simp add: KImage_Add_Method_def)
  next
    case (DTrait name traits)
    obtain t st1 where 1: "TypeItem_Set (im_store img) (TD_Klass None name) = Inr (t, st1)" "pools_grow (im_store img) st1"
      "type_at st1 t (TD_Klass None name)" using grow_type [OF st, of "TD_Klass None name"] by auto
    obtain l st2 where 2: "TypeListItem_Set st1 traits = Inr (l, st2)" "pools_grow st1 st2" "typelist_at st2 l traits"
      using grow_typelist [OF ext(2) [OF 1(2)], of traits] assms(2) DTrait by auto
    have "decl_at st2 (TraitI (TraitItem_New t l)) d"
      using DTrait 2(3) type_at_extends [OF 1(3) ext(1) [OF 2(2)]] by (simp add: TraitItem_New_def)
    from app [OF tr [OF 1(2) 2(2)] this] DTrait 1(1) 2(1) show ?thesis by (simp add: KImage_Add_Trait_def)
  next
    case (DNFunc klazz name arg ret)
    obtain t st1 where 1: "(case klazz of None \<Rightarrow> Inr (-1, im_store img) | Some n \<Rightarrow> TypeItem_Set (im_store img) (TD_Klass None n)) = Inr (t, st1)"
      "pools_grow (im_store img) st1" "class_at st1 t klazz" using grow_class [OF st] by blast
    obtain n st2 where 2: "StringItem_Set st1 name = Inr (n, st2)" "pools_grow st1 st2" "string_at st2 n name"
      using grow_string [OF ext(2) [OF 1(2)]] by blast
    obtain p st3 where 3: "ProtoItem_Set st2 arg ret = Inr (p, st3)" "pools_grow st2 st3" "proto_at st3 p arg ret"
      using grow_proto [OF ext(2) [OF 2(2)], of arg ret] assms(2) DNFunc by auto
    have "decl_at st3 (NFuncI (NFuncItem_New t n p)) d"
      using DNFunc 3(3) class_at_extends [OF 1(3) ext(1) [OF tr [OF 2(2) 3(2)]]] string_at_extends [OF 2(3) ext(1) [OF 3(2)]]
      by (simp add: NFuncItem_New_def)
    from app [OF tr [OF tr [OF 1(2) 2(2)] 3(2)] this] DNFunc 1(1) 2(1) 3(1) show ?thesis by (simp add: KImage_Add_NFunc_def)
  next
    case (DIMeth trait name arg ret)
    obtain t st1 where 1: "TypeItem_Set (im_store img) (TD_Klass None trait) = Inr (t, st1)" "pools_grow (im_store img) st1"
      "type_at st1 t (TD_Klass None trait)" using grow_type [OF st, of "TD_Klass None trait"] by auto
    obtain n st2 where 2: "StringItem_Set st1 name = Inr (n, st2)" "pools_grow st1 st2" "string_at st2 n name"
      using grow_string [OF ext(2) [OF 1(2)]] by blast
    obtain p st3 where 3: "ProtoItem_Set st2 arg ret = Inr (p, st3)" "pools_grow st2 st3" "proto_at st3 p arg ret"
      using grow_proto [OF ext(2) [OF 2(2)], of arg ret] assms(2) DIMeth by auto
    have "decl_at st3 (IMethI (IMethItem_New t n p)) d"
      using DIMeth 3(3) type_at_extends [OF 1(3) ext(1) [OF tr [OF 2(2) 3(2)]]] string_at_extends [OF 2(3) ext(1) [OF 3(2)]]
      by (simp add: IMethItem_New_def)
    from app [OF tr [OF tr [OF 1(2) 2(2)] 3(2)] this] DIMeth 1(1) 2(1) 3(1) show ?thesis by (simp add: KImage_Add_IMeth_def)
  qed
qed

end
