(* ===== verification/ImageRead.thy ===== *)
theory ImageRead
  imports ImageDecl
begin

text \<open>
  Building an image and reading it: any list of declarations can be added to a fresh image, and the
  functions \<^verbatim>\<open>KImage_Get_...\<close> call back with exactly the declarations of their kind, in order.
\<close>

subsection \<open>Building\<close>

fun KImage_Add_all :: "KImage \<Rightarrow> Decl list \<Rightarrow> KImage run" where
  "KImage_Add_all img [] = Inr img"
| "KImage_Add_all img (d # ds) = bind_run (KImage_Add img d) (\<lambda>(i, img'). KImage_Add_all img' ds)"

lemma KImage_Add_all_rel:
  assumes "image_rel img ds" "\<forall>d \<in> set es. decl_plain d"
  shows "\<exists>img'. KImage_Add_all img es = Inr img' \<and> image_rel img' (ds @ es) \<and> im_header img' = im_header img \<and>
    its (im_store img') ITEM_MAP = its (im_store img) ITEM_MAP"
  using assms
proof (induction es arbitrary: img ds)
  case (Cons e es)
  then obtain i img1 where 1: "KImage_Add img e = Inr (i, img1)" "image_rel img1 (ds @ [e])" "im_header img1 = im_header img"
    "its (im_store img1) ITEM_MAP = its (im_store img) ITEM_MAP"
    using KImage_Add_rel [of img ds e] by auto
  with Cons.IH [OF 1(2)] Cons.prems(2) show ?case by auto
qed simp

subsection \<open>The loop over the items of a kind\<close>

lemma visit_run_spec:
  assumes "\<And>k t. m \<le> k \<Longrightarrow> k < m + n \<Longrightarrow> desc_ok t \<Longrightarrow> \<exists>y t'. f (int k) t = Inr (y, t') \<and> P k y \<and> desc_ok t'" "desc_ok tbl"
  shows "\<exists>ys tbl'. visit_run f (map int [m ..< m + n]) tbl = Inr (ys, tbl') \<and> length ys = n \<and>
    (\<forall>k < n. P (m + k) (ys ! k)) \<and> desc_ok tbl'"
  using assms
proof (induction n arbitrary: m tbl)
  case (Suc n)
  obtain y t1 where y: "f (int m) tbl = Inr (y, t1)" "P m y" "desc_ok t1"
    using Suc.prems(1) [OF order_refl _ Suc.prems(2)] by auto
  obtain ys t2 where ys: "visit_run f (map int [Suc m ..< Suc m + n]) t1 = Inr (ys, t2)" "length ys = n"
    "\<forall>k < n. P (Suc m + k) (ys ! k)" "desc_ok t2"
    using Suc.IH [of "Suc m" t1] Suc.prems(1) y(3) by auto
  have "[m ..< m + Suc n] = m # [Suc m ..< Suc m + n]" by (simp add: upt_rec)
  moreover have "\<forall>k < Suc n. P (m + k) ((y # ys) ! k)" using y(2) ys(3) by (auto simp: nth_Cons split: nat.splits)
  ultimately show ?case using y(1) ys by auto
qed simp

lemma for_items_spec:
  assumes "store_ok (im_store img)" "type < ITEM_MAX" "desc_ok tbl" "length ds = length (its (im_store img) type)"
    and "\<And>k t. k < length ds \<Longrightarrow> desc_ok t \<Longrightarrow> \<exists>y t'. f (int k) t = Inr (y, t') \<and> P k y (ds ! k) \<and> desc_ok t'"
  shows "\<exists>ys tbl'. for_items img type f tbl = Inr (ys, tbl') \<and> length ys = length ds \<and>
    (\<forall>k < length ds. P k (ys ! k) (ds ! k)) \<and> desc_ok tbl'"
proof -
  have "type < at_size (is_table (im_store img))" using assms(1,2) by (simp add: store_ok_def base_ok_def)
  from AtomTable_Size_spec [OF base_ok_inv [OF store_ok_base [OF assms(1)]] this] assms(4)
  have sz: "AtomTable_Size (is_table (im_store img)) type = Inr (int (length ds))" by simp
  have "[0 .. int (length ds) - 1] = map int [0 ..< 0 + length ds]" by (intro nth_equalityI) simp_all
  with sz visit_run_spec [of 0 "length ds" f "\<lambda>k y. P k y (ds ! k)" tbl] assms(3,5) show ?thesis
    by (simp add: for_items_def)
qed

text \<open>The declarations of a kind and the item each of them has.\<close>

definition kind_rel :: "(ItemStore \<Rightarrow> Item \<Rightarrow> Decl \<Rightarrow> bool) \<Rightarrow> nat \<Rightarrow> KImage \<Rightarrow> Decl list \<Rightarrow> bool" where
  "kind_rel at ty img ds \<longleftrightarrow> store_ok (im_store img) \<and>
     list_all2 (at (im_store img)) (its (im_store img) ty) (filter (\<lambda>d. decl_type d = ty) ds)"

lemma image_rel_kind: "image_rel img ds \<Longrightarrow> ty \<in> decl_types \<Longrightarrow> kind_rel decl_at ty img ds"
  by (simp add: image_rel_def kind_rel_def)

lemma kind_rel_mono: "kind_rel at ty img ds \<Longrightarrow> (\<And>st it d. at st it d \<Longrightarrow> at' st it d) \<Longrightarrow> kind_rel at' ty img ds"
  unfolding kind_rel_def using list_all2_mono by blast

lemma decl_count:
  "kind_rel at ty img ds \<Longrightarrow>
   length (filter (\<lambda>d. decl_type d = ty) ds) = length (its (im_store img) ty)"
  unfolding kind_rel_def using list_all2_lengthD by metis

lemma decl_item:
  assumes "kind_rel at ty img ds" "ty \<in> decl_types" "k < length (filter (\<lambda>d. decl_type d = ty) ds)"
  shows "length (its (im_store img) ty) = length (filter (\<lambda>d. decl_type d = ty) ds)"
    "item_get (is_table (im_store img)) ty (int k) = Inr (its (im_store img) ty ! k)"
    "at (im_store img) (its (im_store img) ty ! k) (filter (\<lambda>d. decl_type d = ty) ds ! k)"
proof -
  have all: "list_all2 (at (im_store img)) (its (im_store img) ty) (filter (\<lambda>d. decl_type d = ty) ds)"
    using assms(1) by (simp add: kind_rel_def)
  then show len: "length (its (im_store img) ty) = length (filter (\<lambda>d. decl_type d = ty) ds)" by (rule list_all2_lengthD)
  show "at (im_store img) (its (im_store img) ty ! k) (filter (\<lambda>d. decl_type d = ty) ds ! k)"
    using all assms(3) len by (simp add: list_all2_conv_all_nth)
  have "ty < ITEM_MAX" using assms(2) by (auto simp: decl_types_def item_types)
  then show "item_get (is_table (im_store img)) ty (int k) = Inr (its (im_store img) ty ! k)"
    using assms(1,3) len item_get_ok [of "im_store img" ty "int k"] by (simp add: kind_rel_def)
qed

lemma code_get_at:
  assumes "store_ok st" "code_at st i codes"
  shows "code_get (is_table st) i = Inr (Some codes, int (length codes))"
proof -
  have "ITEM_CODE < at_size (is_table st)" using assms(1) by (simp add: store_ok_def base_ok_def item_types)
  from AtomTable_Get_spec [OF base_ok_inv [OF store_ok_base [OF assms(1)]] this, of i] assms(2)
  show ?thesis by (simp add: code_get_def code_at_def CodeItem_New_def)
qed

lemma proto_read:
  assumes "store_ok st" "proto_at st i arg ret" "list_all known_bases arg" "list_all known_bases ret"
    and "desc_ok tbl" "length (its st ITEM_TYPE) \<le> n"
  shows "\<exists>p d tbl'. protoitem_get (is_table st) i = Inr p \<and> ProtoItem_To_TypeDesc n (is_table st) tbl p = Inr (d, tbl') \<and>
    same_desc d (TD_Proto arg ret) \<and> desc_ok tbl'"
proof -
  obtain r p where rp: "0 \<le> i" "i < int (length (its st ITEM_PROTO))" "its st ITEM_PROTO ! nat i = ProtoI (ProtoItem_New r p)"
    "typelist_at st r ret" "typelist_at st p arg" using assms(2) by (auto simp: proto_at_def)
  have "protoitem_get (is_table st) i = Inr (ProtoItem_New r p)"
    using item_get_ok [OF store_ok_base [OF assms(1)] _ rp(1,2)] rp(3) by (simp add: protoitem_get_def)
  with ProtoItem_To_TypeDesc_at [OF assms(1) rp(4,5) assms(3-6)] show ?thesis by blast
qed

lemma type_read:
  assumes "store_ok st" "type_at st i d" "known_bases d" "desc_ok tbl" "length (its st ITEM_TYPE) \<le> n"
  shows "\<exists>t d' tbl'. typeitem_get (is_table st) i = Inr t \<and> TypeItem_To_TypeDesc n (is_table st) tbl t = Inr (d', tbl') \<and>
    same_desc d' d \<and> desc_ok tbl'"
proof -
  have "nat i < n" using type_at_range [OF assms(2)] assms(5) by linarith
  then obtain t d' tbl' where "item_at st i t" "TypeItem_To_TypeDesc n (is_table st) tbl t = Inr (d', tbl')"
    "same_desc d' d" "desc_ok tbl'" using TypeItem_To_TypeDesc_at [OF assms(1-4)] by blast
  with typeitem_get_at [OF store_ok_base [OF assms(1)]] show ?thesis by blast
qed

subsection \<open>Reading gives the declarations back\<close>

fun decl_known :: "Decl \<Rightarrow> bool" where
  "decl_known (DVar name desc konst) = known_bases desc"
| "decl_known (DLocVar name desc pos index) = known_bases desc"
| "decl_known (DFunc name arg ret codes) = (list_all known_bases arg \<and> list_all known_bases ret)"
| "decl_known (DNFunc klazz name arg ret) = (list_all known_bases arg \<and> list_all known_bases ret)"
| "decl_known d = True"

abbreviation of_type :: "nat \<Rightarrow> Decl list \<Rightarrow> Decl list" where
  "of_type ty ds \<equiv> filter (\<lambda>d. decl_type d = ty) ds"

fun var_call :: "nat \<Rightarrow> string \<times> TypeDesc \<times> int \<Rightarrow> Decl \<Rightarrow> bool" where
  "var_call k (nm, t, c) (DVar name desc konst) \<longleftrightarrow> str_eq nm name \<and> same_desc t desc \<and> c = konst"
| "var_call k call d \<longleftrightarrow> False"

fun locvar_call :: "nat \<Rightarrow> string \<times> TypeDesc \<times> int \<times> int \<Rightarrow> Decl \<Rightarrow> bool" where
  "locvar_call k (nm, t, p, i) (DLocVar name desc pos index) \<longleftrightarrow> str_eq nm name \<and> same_desc t desc \<and> p = pos \<and> i = index"
| "locvar_call k call d \<longleftrightarrow> False"

text \<open>A function is called back with its index, its prototype and its code.\<close>

fun func_call :: "nat \<Rightarrow> string \<times> TypeDesc \<times> int \<times> nat \<times> uint8 list option \<times> int \<Rightarrow> Decl \<Rightarrow> bool" where
  "func_call k (nm, t, i, ty, c, sz) (DFunc name arg ret codes) \<longleftrightarrow>
     str_eq nm name \<and> same_desc t (TD_Proto arg ret) \<and> i = int k \<and> ty = ITEM_FUNC \<and> c = Some codes \<and>
     sz = int (length codes)"
| "func_call k (nm, t, i, ty, c, sz) (DNFunc klazz name arg ret) \<longleftrightarrow>
     str_eq nm name \<and> same_desc t (TD_Proto arg ret) \<and> i = int k \<and> ty = ITEM_NFUNC \<and> c = None \<and> sz = 0"
| "func_call k call d \<longleftrightarrow> False"

text \<open>Every call matches the declaration at its place, and there are as many.\<close>

definition calls_match :: "(nat \<Rightarrow> 'c \<Rightarrow> Decl \<Rightarrow> bool) \<Rightarrow> 'c list \<Rightarrow> Decl list \<Rightarrow> bool" where
  "calls_match P cs ds \<longleftrightarrow> length cs = length ds \<and> (\<forall>k < length ds. P k (cs ! k) (ds ! k))"

lemma of_type_nth: "k < length (of_type ty ds) \<Longrightarrow> decl_type (of_type ty ds ! k) = ty \<and> of_type ty ds ! k \<in> set ds"
  using nth_mem [of k "of_type ty ds"] by auto

lemmas get_defs = get_var_def get_locvar_def get_func_def get_nfunc_def

lemma Get_Vars_reads:
  assumes "kind_rel decl_at ITEM_VAR img ds" "\<forall>d \<in> set ds. decl_known d" "desc_ok tbl" "length (its (im_store img) ITEM_TYPE) \<le> n"
  shows "\<exists>calls tbl'. KImage_Get_Vars n img tbl = Inr (calls, tbl') \<and>
    calls_match var_call calls (of_type ITEM_VAR ds) \<and> desc_ok tbl'"
proof -
  have st: "store_ok (im_store img)" using assms(1) by (simp add: kind_rel_def)
  have ty: "ITEM_VAR \<in> decl_types" "ITEM_VAR < ITEM_MAX" by (simp_all add: decl_types_def item_types)
  note len = decl_count [OF assms(1)]
  show ?thesis
    unfolding KImage_Get_Vars_def calls_match_def conj_assoc
  proof (rule for_items_spec [OF st ty(2) assms(3) len])
    fix k t assume k: "k < length (of_type ITEM_VAR ds)" and t: "desc_ok t"
    note it = decl_item [OF assms(1) ty(1) k] and d = of_type_nth [OF k]
    obtain name desc konst where v: "of_type ITEM_VAR ds ! k = DVar name desc konst"
      using d by (cases "of_type ITEM_VAR ds ! k") (auto simp: item_types)
    with it(3) obtain w where w: "its (im_store img) ITEM_VAR ! k = VarI w" "string_at (im_store img) (va_nameindex w) name"
      "type_at (im_store img) (va_typeindex w) desc" "va_konst w = konst" by auto
    have kb: "known_bases desc" using assms(2) d v by force
    obtain s where s: "string_get (is_table (im_store img)) (va_nameindex w) = Inr s" "cstr s = cstr name"
      using string_get_at [OF store_ok_base [OF st] w(2)] by blast
    show "\<exists>y t'. get_var n (is_table (im_store img)) (int k) t = Inr (y, t') \<and>
        var_call k y (of_type ITEM_VAR ds ! k) \<and> desc_ok t'"
      using type_read [OF st w(3) kb t assms(4)] it(2) w s v by (auto simp: get_defs str_eq_def simp del: bind_run_eq_Inr_iff)
  qed
qed

lemma Get_LocVars_reads:
  assumes "kind_rel decl_at ITEM_LOCVAR img ds" "\<forall>d \<in> set ds. decl_known d" "desc_ok tbl" "length (its (im_store img) ITEM_TYPE) \<le> n"
  shows "\<exists>calls tbl'. KImage_Get_LocVars n img tbl = Inr (calls, tbl') \<and>
    calls_match locvar_call calls (of_type ITEM_LOCVAR ds) \<and> desc_ok tbl'"
proof -
  have st: "store_ok (im_store img)" using assms(1) by (simp add: kind_rel_def)
  have ty: "ITEM_LOCVAR \<in> decl_types" "ITEM_LOCVAR < ITEM_MAX" by (simp_all add: decl_types_def item_types)
  note len = decl_count [OF assms(1)]
  show ?thesis
    unfolding KImage_Get_LocVars_def calls_match_def conj_assoc
  proof (rule for_items_spec [OF st ty(2) assms(3) len])
    fix k t assume k: "k < length (of_type ITEM_LOCVAR ds)" and t: "desc_ok t"
    note it = decl_item [OF assms(1) ty(1) k] and d = of_type_nth [OF k]
    obtain name desc pos index where v: "of_type ITEM_LOCVAR ds ! k = DLocVar name desc pos index"
      using d by (cases "of_type ITEM_LOCVAR ds ! k") (auto simp: item_types)
    with it(3) obtain w where w: "its (im_store img) ITEM_LOCVAR ! k = LocVarI w" "string_at (im_store img) (lv_nameindex w) name"
      "type_at (im_store img) (lv_typeindex w) desc" "lv_pos w = pos" "lv_index w = index" by auto
    have kb: "known_bases desc" using assms(2) d v by force
    obtain s where s: "string_get (is_table (im_store img)) (lv_nameindex w) = Inr s" "cstr s = cstr name"
      using string_get_at [OF store_ok_base [OF st] w(2)] by blast
    show "\<exists>y t'. get_locvar n (is_table (im_store img)) (int k) t = Inr (y, t') \<and>
        locvar_call k y (of_type ITEM_LOCVAR ds ! k) \<and> desc_ok t'"
      using type_read [OF st w(3) kb t assms(4)] it(2) w s v by (auto simp: get_defs str_eq_def simp del: bind_run_eq_Inr_iff)
  qed
qed

text \<open>
  Functions, also when their code is not what was added: \<open>C\<close> relates the code of the declaration to
  the code and the size given to the callback.
\<close>

fun func_like :: "(uint8 list \<Rightarrow> uint8 list option \<Rightarrow> int \<Rightarrow> bool) \<Rightarrow> nat \<Rightarrow>
    string \<times> TypeDesc \<times> int \<times> nat \<times> uint8 list option \<times> int \<Rightarrow> Decl \<Rightarrow> bool" where
  "func_like C k (nm, t, i, ty, c, sz) (DFunc name arg ret codes) \<longleftrightarrow>
     str_eq nm name \<and> same_desc t (TD_Proto arg ret) \<and> i = int k \<and> ty = ITEM_FUNC \<and> C codes c sz"
| "func_like C k call d \<longleftrightarrow> False"

lemma Get_Funcs_like:
  assumes "kind_rel at ITEM_FUNC img ds" "\<forall>d \<in> set ds. decl_known d" "desc_ok tbl" "length (its (im_store img) ITEM_TYPE) \<le> n"
    and at: "\<And>it name arg ret codes. at (im_store img) it (DFunc name arg ret codes) \<Longrightarrow>
      \<exists>f cs sz. it = FuncI f \<and> string_at (im_store img) (fu_nameindex f) name \<and> proto_at (im_store img) (fu_protoindex f) arg ret \<and>
        code_get (is_table (im_store img)) (fu_codeindex f) = Inr (cs, sz) \<and> C codes cs sz"
  shows "\<exists>calls tbl'. KImage_Get_Funcs n img tbl = Inr (calls, tbl') \<and>
    calls_match (func_like C) calls (of_type ITEM_FUNC ds) \<and> desc_ok tbl'"
proof -
  have st: "store_ok (im_store img)" using assms(1) by (simp add: kind_rel_def)
  have ty: "ITEM_FUNC \<in> decl_types" "ITEM_FUNC < ITEM_MAX" by (simp_all add: decl_types_def item_types)
  note len = decl_count [OF assms(1)]
  show ?thesis
    unfolding KImage_Get_Funcs_def calls_match_def conj_assoc
  proof (rule for_items_spec [OF st ty(2) assms(3) len])
    fix k t assume k: "k < length (of_type ITEM_FUNC ds)" and t: "desc_ok t"
    note it = decl_item [OF assms(1) ty(1) k] and d = of_type_nth [OF k]
    obtain name arg ret codes where v: "of_type ITEM_FUNC ds ! k = DFunc name arg ret codes"
      using d by (cases "of_type ITEM_FUNC ds ! k") (auto simp: item_types)
    with at [of "its (im_store img) ITEM_FUNC ! k"] it(3) obtain w cs sz where
      w: "its (im_store img) ITEM_FUNC ! k = FuncI w" "string_at (im_store img) (fu_nameindex w) name"
      "proto_at (im_store img) (fu_protoindex w) arg ret" and
      c: "code_get (is_table (im_store img)) (fu_codeindex w) = Inr (cs, sz)" "C codes cs sz" by force
    have kb: "list_all known_bases arg" "list_all known_bases ret" using assms(2) d v by force+
    obtain s where s: "string_get (is_table (im_store img)) (fu_nameindex w) = Inr s" "cstr s = cstr name"
      using string_get_at [OF store_ok_base [OF st] w(2)] by blast
    show "\<exists>y t'. get_func n (is_table (im_store img)) (int k) t = Inr (y, t') \<and>
        func_like C k y (of_type ITEM_FUNC ds ! k) \<and> desc_ok t'"
      using proto_read [OF st w(3) kb t assms(4)] c it(2) w s v
      by (auto simp: get_defs str_eq_def simp del: bind_run_eq_Inr_iff)
  qed
qed

lemma func_like_call: "func_like (\<lambda>codes c sz. c = Some codes \<and> sz = int (length codes)) k call d \<Longrightarrow> func_call k call d"
  by (cases d; cases call) auto

lemma Get_Funcs_reads:
  assumes "kind_rel decl_at ITEM_FUNC img ds" "\<forall>d \<in> set ds. decl_known d" "desc_ok tbl" "length (its (im_store img) ITEM_TYPE) \<le> n"
  shows "\<exists>calls tbl'. KImage_Get_Funcs n img tbl = Inr (calls, tbl') \<and>
    calls_match func_call calls (of_type ITEM_FUNC ds) \<and> desc_ok tbl'"
proof -
  have st: "store_ok (im_store img)" using assms(1) by (simp add: kind_rel_def)
  have "\<exists>calls tbl'. KImage_Get_Funcs n img tbl = Inr (calls, tbl') \<and>
    calls_match (func_like (\<lambda>codes c sz. c = Some codes \<and> sz = int (length codes))) calls (of_type ITEM_FUNC ds) \<and> desc_ok tbl'"
    by (rule Get_Funcs_like [OF assms]) (use code_get_at [OF st] in auto)
  then show ?thesis unfolding calls_match_def using func_like_call by meson
qed

lemma Get_NFuncs_reads:
  assumes "kind_rel decl_at ITEM_NFUNC img ds" "\<forall>d \<in> set ds. decl_known d" "desc_ok tbl" "length (its (im_store img) ITEM_TYPE) \<le> n"
  shows "\<exists>calls tbl'. KImage_Get_NFuncs n img tbl = Inr (calls, tbl') \<and>
    calls_match func_call calls (of_type ITEM_NFUNC ds) \<and> desc_ok tbl'"
proof -
  have st: "store_ok (im_store img)" using assms(1) by (simp add: kind_rel_def)
  have ty: "ITEM_NFUNC \<in> decl_types" "ITEM_NFUNC < ITEM_MAX" by (simp_all add: decl_types_def item_types)
  note len = decl_count [OF assms(1)]
  show ?thesis
    unfolding KImage_Get_NFuncs_def calls_match_def conj_assoc
  proof (rule for_items_spec [OF st ty(2) assms(3) len])
    fix k t assume k: "k < length (of_type ITEM_NFUNC ds)" and t: "desc_ok t"
    note it = decl_item [OF assms(1) ty(1) k] and d = of_type_nth [OF k]
    obtain klazz name arg ret where v: "of_type ITEM_NFUNC ds ! k = DNFunc klazz name arg ret"
      using d by (cases "of_type ITEM_NFUNC ds ! k") (auto simp: item_types)
    with it(3) obtain w where w: "its (im_store img) ITEM_NFUNC ! k = NFuncI w" "string_at (im_store img) (nf_nameindex w) name"
      "proto_at (im_store img) (nf_protoindex w) arg ret" by auto
    have kb: "list_all known_bases arg" "list_all known_bases ret" using assms(2) d v by force+
    obtain s where s: "string_get (is_table (im_store img)) (nf_nameindex w) = Inr s" "cstr s = cstr name"
      using string_get_at [OF store_ok_base [OF st] w(2)] by blast
    show "\<exists>y t'. get_nfunc n (is_table (im_store img)) (int k) t = Inr (y, t') \<and>
        func_call k y (of_type ITEM_NFUNC ds ! k) \<and> desc_ok t'"
      using proto_read [OF st w(3) kb t assms(4)] it(2) w s v
      by (auto simp: get_defs str_eq_def simp del: bind_run_eq_Inr_iff)
  qed
qed

end
