(* ===== verification/ImageFile.thy ===== *)
theory ImageFile
  imports ImageRead
begin

text \<open>
  Images in files (\<^verbatim>\<open>src/src/image.c\<close>): finishing an image, which lays out the pools and fills the map
  of them, writing it, and reading it back. A file is the list of its bytes; opening files is not
  modelled.
\<close>

subsection \<open>Header\<close>

definition header_bytes :: "ImageHeader \<Rightarrow> uint8 list" where
  "header_bytes h = ih_magic h @ ih_version h @ le_bytes 4 (ih_file_size h) @ le_bytes 4 (ih_header_size h) @
     le_bytes 4 (ih_endian_tag h) @ le_bytes 4 (ih_map_offset h) @ le_bytes 4 (ih_map_size h) @
     le_bytes 4 (ih_crc32 h) @ map byte_of_char (ih_pkgname h)"

definition image_write_header :: "KImage \<Rightarrow> uint8 list run" where
  "image_write_header img = (let h = im_header img in
     if ih_header_size h > sizeof_ImageHeader then Inl Out_Of_Bounds
     else Inr (take (nat (ih_header_size h)) (header_bytes h)))"

text \<open>The struct in the first 96 bytes of a file.\<close>

definition uint32_at :: "nat \<Rightarrow> uint8 list \<Rightarrow> int" where
  "uint32_at k bs = le_uint (take 4 (drop k bs))"

definition read_header :: "uint8 list \<Rightarrow> ImageHeader" where
  "read_header bs = \<lparr>
     ih_magic = take 4 bs, ih_version = take 4 (drop 4 bs),
     ih_file_size = uint32_at 8 bs, ih_header_size = uint32_at 12 bs, ih_endian_tag = uint32_at 16 bs,
     ih_map_offset = uint32_at 20 bs, ih_map_size = uint32_at 24 bs, ih_crc32 = uint32_at 28 bs,
     ih_pkgname = map char_of_byte (take PKG_NAME_MAX (drop 32 bs))\<rparr>"

definition header_check :: "ImageHeader \<Rightarrow> int" where
  "header_check h = (let magic = map char_of_byte (ih_magic h) in
     if magic ! 0 \<noteq> CHR ''K'' then -1
     else if magic ! 1 \<noteq> CHR ''L'' then -1
     else if magic ! 2 \<noteq> CHR ''C'' then -1
     else 0)"

definition header_ok :: "ImageHeader \<Rightarrow> bool" where
  "header_ok h \<longleftrightarrow> length (ih_magic h) = 4 \<and> length (ih_version h) = 4 \<and> length (ih_pkgname h) = PKG_NAME_MAX \<and>
     uint32_range (ih_file_size h) \<and> uint32_range (ih_header_size h) \<and> uint32_range (ih_endian_tag h) \<and>
     uint32_range (ih_map_offset h) \<and> uint32_range (ih_map_size h) \<and> uint32_range (ih_crc32 h)"

lemma length_header: "header_ok h \<Longrightarrow> length (header_bytes h) = 96"
  by (simp add: header_bytes_def header_ok_def PKG_NAME_MAX_def)

lemma read_header_bytes: "header_ok h \<Longrightarrow> read_header (header_bytes h @ rest) = h"
  by (cases h)
    (simp add: read_header_def header_bytes_def header_ok_def uint32_at_def le_uint4 PKG_NAME_MAX_def o_def)

lemma header_ok_init: "header_ok (init_header name)"
  by (cases name)
    (simp_all add: header_ok_def init_header_def PKG_NAME_MAX_def uint32_range_def ENDIAN_TAG_def
      sizeof_ImageHeader_def ITEM_MAX_def Let_def)

lemma header_check_init: "header_check (init_header name) = 0"
  by (simp add: header_check_def init_header_def Let_def)

subsection \<open>Finishing\<close>

text \<open>The first loop: room for the map.\<close>

fun map_space :: "Item AtomTable \<Rightarrow> nat list \<Rightarrow> int \<Rightarrow> int run" where
  "map_space table [] offset = Inr offset"
| "map_space table (i # is) offset =
     bind_run (AtomTable_Size table i) (\<lambda>sz. map_space table is (if sz > 0 then offset + 12 else offset))"

fun pool_length :: "Item AtomTable \<Rightarrow> nat \<Rightarrow> int list \<Rightarrow> int \<Rightarrow> int run" where
  "pool_length table i [] len = Inr len"
| "pool_length table i (j # js) len =
     bind_run (item_get table i j) (\<lambda>item. pool_length table i js (len + item_length item))"

text \<open>The second loop: one map entry for each pool that is not empty.\<close>

fun finish_maps :: "ItemStore \<Rightarrow> nat list \<Rightarrow> int \<Rightarrow> int \<Rightarrow> (int \<times> int \<times> ItemStore) run" where
  "finish_maps st [] offset len = Inr (offset, len, st)"
| "finish_maps st (i # is) offset len =
     bind_run (AtomTable_Size (is_table st) i) (\<lambda>sz.
       if sz > 0 then
         bind_run (append_item st ITEM_MAP (MapI (MapItem_New (int i) (offset + len) sz)) False) (\<lambda>(_, st1).
         bind_run (pool_length (is_table st1) i [0 .. sz - 1] 0) (\<lambda>len1.
           finish_maps st1 is (offset + len) len1))
       else finish_maps st is offset len)"

definition KImage_Finish :: "KImage \<Rightarrow> KImage run" where
  "KImage_Finish img = (let h = im_header img in
     bind_run (map_space (is_table (im_store img)) [1 ..< ITEM_MAX] (ih_header_size h)) (\<lambda>offset.
     bind_run (finish_maps (im_store img) [1 ..< ITEM_MAX] offset 0) (\<lambda>(offset1, len, st).
     bind_run (AtomTable_Size (is_table st) ITEM_MAP) (\<lambda>n.
       Inr (img\<lparr>im_header := h\<lparr>ih_file_size := offset1 + len, ih_map_size := n\<rparr>, im_store := st\<rparr>)))))"

subsection \<open>Writing\<close>

fun write_each :: "Item AtomTable \<Rightarrow> nat \<Rightarrow> int list \<Rightarrow> uint8 list run" where
  "write_each table type [] = Inr []"
| "write_each table type (i # is) =
     bind_run (item_get table type i) (\<lambda>it. bind_run (write_each table type is) (\<lambda>bs. Inr (item_write it @ bs)))"

definition image_write_item :: "Item AtomTable \<Rightarrow> nat \<Rightarrow> int \<Rightarrow> uint8 list run" where
  "image_write_item table type sz = write_each table type [0 .. sz - 1]"

fun write_types :: "Item AtomTable \<Rightarrow> nat list \<Rightarrow> uint8 list run" where
  "write_types table [] = Inr []"
| "write_types table (i # is) =
     bind_run (AtomTable_Size table i) (\<lambda>sz.
     bind_run (if sz > 0 then image_write_item table i sz else Inr []) (\<lambda>bs.
     bind_run (write_types table is) (\<lambda>bs1. Inr (bs @ bs1))))"

definition image_write_items :: "KImage \<Rightarrow> uint8 list run" where
  "image_write_items img = write_types (is_table (im_store img)) [0 ..< ITEM_MAX]"

definition KImage_Write_File :: "KImage \<Rightarrow> uint8 list run" where
  "KImage_Write_File img =
     bind_run (image_write_header img) (\<lambda>h. bind_run (image_write_items img) (\<lambda>bs. Inr (h @ bs)))"

subsection \<open>Reading\<close>

text \<open>
  \<open>LOAD(item)\<close>: the bits of \<open>unload\<close> name the pools to leave out.
\<close>

definition LOAD :: "int \<Rightarrow> nat \<Rightarrow> bool" where
  "LOAD unload item \<longleftrightarrow> \<not> bit unload item"

fun append_all :: "ItemStore \<Rightarrow> nat \<Rightarrow> Item list \<Rightarrow> ItemStore run" where
  "append_all st type [] = Inr st"
| "append_all st type (it # rest) =
     bind_run (append_item st type it (type \<in> shared_types)) (\<lambda>(_, st1). append_all st1 type rest)"

text \<open>
  The loop over the map. Items of a pool are read at the offset and appended in the order of the
  file; a negative number of items is no iteration for items of variable length and an array of
  negative length for the others.
\<close>

fun read_maps :: "int \<Rightarrow> uint8 list \<Rightarrow> ItemStore \<Rightarrow> MapItem list \<Rightarrow> ItemStore run" where
  "read_maps unload file st [] = Inr st"
| "read_maps unload file st (m # ms) = (
     if mi_type m < 1 \<or> int ITEM_MAX \<le> mi_type m then Inl Assert_Failed
     else
       let type = nat (mi_type m) in
       if \<not> LOAD unload type then read_maps unload file st ms
       else if mi_size m < 0 \<and> type \<notin> {ITEM_STRING, ITEM_TYPELIST, ITEM_CODE} then Inl Out_Of_Bounds
       else
         bind_run (read_many (item_read type) (nat (mi_size m)) (drop (nat (mi_offset m)) file)) (\<lambda>(its, _).
         bind_run (append_all st type its) (\<lambda>st1. read_maps unload file st1 ms)))"

fun append_maps :: "ItemStore \<Rightarrow> MapItem list \<Rightarrow> ItemStore run" where
  "append_maps st [] = Inr st"
| "append_maps st (m # ms) =
     bind_run (append_item st ITEM_MAP (MapI (MapItem_New (mi_type m) (mi_offset m) (mi_size m))) False)
       (\<lambda>(_, st1). append_maps st1 ms)"

text \<open>
  The file is \<open>None\<close> when it cannot be opened. A map of \<open>2 ^ 31\<close> entries or more does not fit on the
  stack.
\<close>

definition KImage_Read_File :: "uint8 list option \<Rightarrow> int \<Rightarrow> KImage option run" where
  "KImage_Read_File file unload = (case file of None \<Rightarrow> Inr None
     | Some bs \<Rightarrow>
       if int (length bs) < sizeof_ImageHeader then Inr None
       else
         let header = read_header bs in
         if header_check header < 0 then Inr None
         else if ih_map_size header \<ge> 2147483648 then Inl Stack_Overflow
         else
           let n = nat (ih_map_size header); maps = drop (nat (ih_map_offset header)) bs in
           if length maps < 12 * n then Inr None
           else
             bind_run (read_many (read_fixed 12 read_mapitem) n maps) (\<lambda>(mapitems, _).
             bind_run (append_maps (im_store (KImage_New None)) mapitems) (\<lambda>st.
             bind_run (read_maps unload bs st mapitems) (\<lambda>st1.
               Inr (Some \<lparr>im_header = header, im_store = st1\<rparr>)))))"


subsection \<open>What finishing and writing give\<close>

definition pool_bytes :: "ItemStore \<Rightarrow> nat \<Rightarrow> uint8 list" where
  "pool_bytes st ty = concat (map item_write (its st ty))"

definition present :: "ItemStore \<Rightarrow> nat list \<Rightarrow> nat list" where
  "present st tys = filter (\<lambda>ty. its st ty \<noteq> []) tys"

text \<open>The map of the pools \<open>tys\<close> when the first of them lies at \<open>off\<close>.\<close>

fun map_entries :: "ItemStore \<Rightarrow> nat list \<Rightarrow> int \<Rightarrow> MapItem list" where
  "map_entries st [] off = []"
| "map_entries st (ty # tys) off =
     MapItem_New (int ty) off (int (length (its st ty))) # map_entries st tys (off + int (length (pool_bytes st ty)))"

definition items_ok :: "ItemStore \<Rightarrow> bool" where
  "items_ok st \<longleftrightarrow> (\<forall>ty < ITEM_MAX. 0 < ty \<longrightarrow> (\<forall>it \<in> set (its st ty). item_ok it))"

lemma size_ok:
  assumes "base_ok st" "ty < ITEM_MAX"
  shows "AtomTable_Size (is_table st) ty = Inr (int (length (its st ty)))"
proof -
  have "ty < at_size (is_table st)" using assms by (simp add: base_ok_def)
  from AtomTable_Size_spec [OF base_ok_inv [OF assms(1)] this] show ?thesis .
qed

lemma upto_nat: "[0 .. int n - 1] = map int [0 ..< n]"
  by (intro nth_equalityI) simp_all

lemma pool_length_nth:
  assumes "base_ok st" "ty < ITEM_MAX" "\<forall>k \<in> set ks. k < length (its st ty)"
  shows "pool_length (is_table st) ty (map int ks) len = Inr (len + sum_list (map (\<lambda>k. item_length (its st ty ! k)) ks))"
  using assms(3)
proof (induction ks arbitrary: len)
  case (Cons k ks)
  with item_get_ok [OF assms(1,2), of "int k"] show ?case by simp
qed simp

lemma map_nth_upt: "map (\<lambda>k. f (xs ! k)) [0 ..< length xs] = map f xs"
  by (intro nth_equalityI) simp_all

lemma sum_item_length:
  "\<forall>it \<in> set xs. item_ok it \<Longrightarrow> sum_list (map item_length xs) = int (length (concat (map item_write xs)))"
  by (induction xs) (simp_all add: item_length_write)

lemma map_space_spec:
  "base_ok st \<Longrightarrow> \<forall>ty \<in> set tys. ty < ITEM_MAX \<Longrightarrow>
   map_space (is_table st) tys off = Inr (off + 12 * int (length (present st tys)))"
  by (induction tys arbitrary: off) (simp_all add: size_ok present_def)

lemma same_pools:
  assumes "\<forall>ty \<in> set tys. its st' ty = its st ty"
  shows "map_entries st' tys off = map_entries st tys off" "present st' tys = present st tys"
    "map (pool_bytes st') tys = map (pool_bytes st) tys"
  using assms by (induction tys arbitrary: off) (auto simp: pool_bytes_def present_def)

lemma map_entries_same:
  assumes "\<forall>ty \<in> set tys. its st' ty = its st ty"
  shows "map_entries st' (present st' tys) off = map_entries st (present st tys) off"
proof -
  have "\<forall>ty \<in> set (present st tys). its st' ty = its st ty" using assms by (simp add: present_def)
  with same_pools(1) [of "present st tys" st' st off] same_pools(2) [OF assms] show ?thesis by simp
qed

text \<open>One more entry of the map.\<close>

lemma append_map:
  assumes "store_ok st"
  shows "\<exists>i st'. append_item st ITEM_MAP (MapI m) False = Inr (i, st') \<and> store_ok st' \<and>
    its st' ITEM_MAP = its st ITEM_MAP @ [MapI m] \<and> (\<forall>t. t \<noteq> ITEM_MAP \<longrightarrow> its st' t = its st t)"
  using append_decl_item [OF assms, of "MapI m" ITEM_MAP] by (auto simp: item_types shared_types_def)

lemma finish_maps_spec:
  assumes "store_ok st" "\<forall>ty \<in> set tys. 0 < ty \<and> ty < ITEM_MAX"
    and "items_ok st"
  shows "\<exists>off' len' st'. finish_maps st tys off len = Inr (off', len', st') \<and> store_ok st' \<and>
    (\<forall>ty. ty \<noteq> ITEM_MAP \<longrightarrow> its st' ty = its st ty) \<and>
    its st' ITEM_MAP = its st ITEM_MAP @ map MapI (map_entries st (present st tys) (off + len)) \<and>
    off' + len' = off + len + int (length (concat (map (pool_bytes st) tys)))"
  using assms
proof (induction tys arbitrary: st off len)
  case (Cons ty tys)
  have ty: "0 < ty" "ty < ITEM_MAX" "ty \<noteq> ITEM_MAP" using Cons.prems(2) by (auto simp: item_types)
  have sz: "AtomTable_Size (is_table st) ty = Inr (int (length (its st ty)))"
    using size_ok Cons.prems(1) ty(2) by simp
  show ?case
  proof (cases "its st ty = []")
    case True
    obtain off' len' st' where 1: "finish_maps st tys off len = Inr (off', len', st')" "store_ok st'"
      "\<forall>ty. ty \<noteq> ITEM_MAP \<longrightarrow> its st' ty = its st ty"
      "its st' ITEM_MAP = its st ITEM_MAP @ map MapI (map_entries st (present st tys) (off + len))"
      "off' + len' = off + len + int (length (concat (map (pool_bytes st) tys)))"
      using Cons.IH [of st off len] Cons.prems by auto
    moreover have "pool_bytes st ty = []" using True by (simp add: pool_bytes_def)
    ultimately show ?thesis using sz True by (simp add: present_def)
  next
    case False
    let ?m = "MapItem_New (int ty) (off + len) (int (length (its st ty)))"
    obtain i st1 where 1: "append_item st ITEM_MAP (MapI ?m) False = Inr (i, st1)" "store_ok st1"
      "its st1 ITEM_MAP = its st ITEM_MAP @ [MapI ?m]" "\<forall>t. t \<noteq> ITEM_MAP \<longrightarrow> its st1 t = its st t"
      using append_map [OF Cons.prems(1)] by blast
    have same: "its st1 ty = its st ty" "\<forall>t \<in> set tys. its st1 t = its st t"
      using 1(4) ty(3) Cons.prems(2) by (auto simp: item_types)
    have oks: "\<forall>it \<in> set (its st1 ty). item_ok it" using Cons.prems(3) ty same(1) by (simp add: items_ok_def)
    have "pool_length (is_table st1) ty (map int [0 ..< length (its st1 ty)]) 0 =
        Inr (0 + sum_list (map (\<lambda>k. item_length (its st1 ty ! k)) [0 ..< length (its st1 ty)]))"
      by (rule pool_length_nth) (use 1(2) ty(2) in auto)
    then have pl: "pool_length (is_table st1) ty [0 .. int (length (its st ty)) - 1] 0 = Inr (int (length (pool_bytes st ty)))"
      unfolding map_nth_upt using sum_item_length [OF oks] same(1) by (simp add: upto_nat pool_bytes_def)
    obtain off' len' st' where 2: "finish_maps st1 tys (off + len) (int (length (pool_bytes st ty))) = Inr (off', len', st')"
      "store_ok st'" "\<forall>ty. ty \<noteq> ITEM_MAP \<longrightarrow> its st' ty = its st1 ty"
      "its st' ITEM_MAP = its st1 ITEM_MAP @ map MapI (map_entries st1 (present st1 tys) (off + len + int (length (pool_bytes st ty))))"
      "off' + len' = off + len + int (length (pool_bytes st ty)) + int (length (concat (map (pool_bytes st1) tys)))"
      using Cons.IH [of st1 "off + len" "int (length (pool_bytes st ty))"] 1(2,4) Cons.prems(2,3) by (auto simp: item_types items_ok_def)
    have p: "present st (ty # tys) = ty # present st tys" using False by (simp add: present_def)
    show ?thesis
      using sz False 1(1,3,4) pl 2 map_entries_same [OF same(2)] same_pools(3) [OF same(2)] p
      by (simp add: MapItem_New_def)
  qed
qed (simp add: present_def)

lemma write_each_nth:
  assumes "base_ok st" "ty < ITEM_MAX" "\<forall>k \<in> set ks. k < length (its st ty)"
  shows "write_each (is_table st) ty (map int ks) = Inr (concat (map (\<lambda>k. item_write (its st ty ! k)) ks))"
  using assms(3)
proof (induction ks)
  case (Cons k ks)
  with item_get_ok [OF assms(1,2), of "int k"] show ?case by simp
qed simp

lemma write_types_spec:
  assumes "base_ok st" "\<forall>ty \<in> set tys. ty < ITEM_MAX"
  shows "write_types (is_table st) tys = Inr (concat (map (pool_bytes st) tys))"
  using assms(2)
proof (induction tys)
  case (Cons ty tys)
  have "image_write_item (is_table st) ty (int (length (its st ty))) = Inr (pool_bytes st ty)"
    using write_each_nth [OF assms(1), of ty "[0 ..< length (its st ty)]"] Cons.prems
    unfolding image_write_item_def upto_nat by (simp add: map_nth_upt pool_bytes_def)
  with Cons size_ok [OF assms(1), of ty] show ?case by (simp add: pool_bytes_def)
qed simp


subsection \<open>What reading gives\<close>

lemma read_pool:
  assumes "\<forall>it \<in> set xs. item_ok it \<and> item_type it = ty" "ty \<noteq> ITEM_MAP"
  shows "read_many (item_read ty) (length xs) (concat (map item_write xs) @ rest) = Inr (map item_value xs, rest)"
  using assms(1)
proof (induction xs)
  case (Cons x xs)
  then have "item_read ty (item_write x @ concat (map item_write xs) @ rest) = Inr (item_value x, concat (map item_write xs) @ rest)"
    using item_read_write [of x] assms(2) by auto
  with Cons show ?case by simp
qed simp

lemma item_value_address [simp]: "item_value (at_address a (item_value it)) = item_value it"
  by (cases it) auto

lemma item_type_value [simp]: "item_type (item_value it) = item_type it"
  by (cases it) auto

lemma item_value_simps [simp]:
  "item_value x = StringI s \<longleftrightarrow> x = StringI s" "StringI s = item_value x \<longleftrightarrow> x = StringI s"
  "item_value x = TypeI t \<longleftrightarrow> x = TypeI t" "TypeI t = item_value x \<longleftrightarrow> x = TypeI t"
  "item_value x = TypeListI l \<longleftrightarrow> x = TypeListI l" "TypeListI l = item_value x \<longleftrightarrow> x = TypeListI l"
  "item_value x = ProtoI p \<longleftrightarrow> x = ProtoI p" "ProtoI p = item_value x \<longleftrightarrow> x = ProtoI p"
  "item_value x = ConstI c \<longleftrightarrow> (\<exists>d. x = ConstI d \<and> c = d\<lparr>ci_addr := 0\<rparr>)"
  by (cases x; auto)+

lemma const_value: "item_value (ConstI c) = item_value x \<Longrightarrow> \<exists>d. x = ConstI d \<and> d\<lparr>ci_addr := 0\<rparr> = c\<lparr>ci_addr := 0\<rparr>"
  by (cases x) auto

lemma key_data: "ae_data (key_of ty x) = x"
  by simp

text \<open>
  Two items of a pool that are read at different addresses are as different as they were, whatever
  addresses they had: only booleans are compared by address.
\<close>

lemma value_equal:
  assumes "Item_Equal (key_of ty x') (key_of ty y')" "item_value x' = item_value x" "item_value y' = item_value y"
    and "\<forall>b c. x' = ConstI b \<longrightarrow> y' = ConstI c \<longrightarrow> ci_addr b \<noteq> ci_addr c"
  shows "Item_Equal (key_of ty x) (key_of ty y)"
  using assms
proof (cases rule: Item_Equal_cases [OF assms(1)])
  case (5 c d)
  then obtain c0 d0 where xy: "x = ConstI c0" "y = ConstI d0" "c0\<lparr>ci_addr := 0\<rparr> = c\<lparr>ci_addr := 0\<rparr>" "d0\<lparr>ci_addr := 0\<rparr> = d\<lparr>ci_addr := 0\<rparr>"
    using assms(2,3) 5(1,2) const_value [of c x] const_value [of d y] key_data by metis
  then have "ci_type c0 = ci_type c" "ci_raw c0 = ci_raw c" "ci_type d0 = ci_type d" "ci_raw d0 = ci_raw d"
    by (metis ConstItem.select_convs(1,2) ConstItem.surjective ConstItem.update_convs(3))+
  with 5 xy(1,2) assms(4) show ?thesis
    by (auto simp: constitem_equal_def ci_ival_def ci_index_def ci_uch_def split: if_splits)
qed (use assms(2,3) in auto)

lemma distinct_items:
  assumes "base_ok st" "ty \<in> shared_types" "i < length (its st ty)" "j < length (its st ty)"
    and "Item_Equal (key_of ty (its st ty ! i)) (key_of ty (its st ty ! j))"
  shows "i = j"
  using items.Index_cong [OF base_ok_inv [OF assms(1)] _ _ assms(5)] indexedD [OF assms(1,2,3)] indexedD [OF assms(1,2,4)]
  by simp

lemma append_value:
  assumes "base_ok st" "base_ok s" "ty < ITEM_MAX" "its st ty = done @ it # rest"
    and "map item_value (its s ty) = map item_value done"
  shows "\<exists>i s'. append_item s ty (item_value it) (ty \<in> shared_types) = Inr (i, s') \<and> base_ok s' \<and>
    map item_value (its s' ty) = map item_value (done @ [it]) \<and> (\<forall>t. t \<noteq> ty \<longrightarrow> its s' t = its s t)"
proof -
  have type: "item_type it = ty" using assms(1,3,4) by (simp add: base_ok_def)
  then have kind: "item_kind_ok ty (item_value it)" using assms(3) by (simp add: item_kind_ok_def)
  let ?x = "at_address (is_brk s) (item_value it)"
  show ?thesis
  proof (cases "ty \<in> shared_types")
    case False
    with append_plain [OF assms(2) kind] assms(5) show ?thesis by fastforce
  next
    case True
    have ix: "length done < length (its st ty)" "its st ty ! length done = it" using assms(4) by simp_all
    have "item_key (key_of ty it)" using indexedD [OF assms(1) True ix(1)] ix(2) by simp
    then have key: "item_key (key_of ty ?x)"
      by (cases it) (auto simp: item_key_def key_of_def hashable_const_def)
    have none: "AtomTable_Index (is_table s) ty ?x = -1"
    proof (rule ccontr)
      assume n: "AtomTable_Index (is_table s) ty ?x \<noteq> -1"
      define k where "k = nat (AtomTable_Index (is_table s) ty ?x)"
      note f = Index_lt [OF assms(2) key n, folded k_def]
      have k: "k < length (its s ty)" using f(1,2) k_def by linarith
      then have kd: "k < length done" using assms(5) by (metis length_map)
      then have "item_value (its s ty ! k) = item_value (its st ty ! k)"
        using assms(4,5) k by (metis length_map nth_append nth_map)
      moreover have "ci_addr b < is_brk s" if "its s ty ! k = ConstI b" for b
      proof -
        have in_set: "ConstI b \<in> set (its s ty)" using that k nth_mem by metis
        with assms(2,3) have "item_type (ConstI b) = ty" unfolding base_ok_def by blast
        with in_set have "ConstI b \<in> set (its s ITEM_CONST)" by simp
        with assms(2) show ?thesis unfolding base_ok_def by blast
      qed
      then have "\<forall>b c. its s ty ! k = ConstI b \<longrightarrow> ?x = ConstI c \<longrightarrow> ci_addr b \<noteq> ci_addr c"
        by (cases it) auto
      ultimately have "Item_Equal (key_of ty (its st ty ! k)) (key_of ty (its st ty ! length done))"
        using value_equal [OF f(3), of "its st ty ! k" it] ix(2) by simp
      from distinct_items [OF assms(1) True _ ix(1) this] kd ix(1) show False by simp
    qed
    from append_unique [OF assms(2) kind key none] True assms(5) show ?thesis by fastforce
  qed
qed

lemma append_all_spec:
  assumes "base_ok st" "base_ok s" "ty < ITEM_MAX" "its st ty = done @ rest" "map item_value (its s ty) = map item_value done"
  shows "\<exists>s'. append_all s ty (map item_value rest) = Inr s' \<and> base_ok s' \<and>
    map item_value (its s' ty) = map item_value (its st ty) \<and> (\<forall>t. t \<noteq> ty \<longrightarrow> its s' t = its s t)"
  using assms(2,4,5)
proof (induction rest arbitrary: s "done")
  case (Cons it rest)
  obtain i s1 where 1: "append_item s ty (item_value it) (ty \<in> shared_types) = Inr (i, s1)" "base_ok s1"
    "map item_value (its s1 ty) = map item_value (done @ [it])" "\<forall>t. t \<noteq> ty \<longrightarrow> its s1 t = its s t"
    using append_value [OF assms(1) Cons.prems(1) assms(3) Cons.prems(2,3)] by blast
  obtain s' where "append_all s1 ty (map item_value rest) = Inr s'" "base_ok s'"
    "map item_value (its s' ty) = map item_value (its st ty)" "\<forall>t. t \<noteq> ty \<longrightarrow> its s' t = its s1 t"
    using Cons.IH [OF 1(2) _ 1(3)] Cons.prems(2) by auto
  with 1 show ?case by auto
qed simp


lemma read_maps_spec:
  assumes "base_ok st" "items_ok st" "base_ok s" "distinct tys"
    and "\<forall>ty \<in> set tys. 0 < ty \<and> ty < ITEM_MAX \<and> its s ty = []"
    and "fl = pre @ concat (map (pool_bytes st) tys)"
  shows "\<exists>s'. read_maps unload fl s (map_entries st tys (int (length pre))) = Inr s' \<and> base_ok s' \<and>
    (\<forall>ty \<in> set tys. map item_value (its s' ty) = (if LOAD unload ty then map item_value (its st ty) else [])) \<and>
    (\<forall>ty. ty \<notin> set tys \<longrightarrow> its s' ty = its s ty)"
  using assms(3-6)
proof (induction tys arbitrary: s pre)
  case (Cons ty tys)
  let ?m = "MapItem_New (int ty) (int (length pre)) (int (length (its st ty)))"
  let ?ms = "map_entries st tys (int (length (pre @ pool_bytes st ty)))"
  have ty: "0 < ty" "ty < ITEM_MAX" "its s ty = []" using Cons.prems(3) by auto
  have split: "fl = (pre @ pool_bytes st ty) @ concat (map (pool_bytes st) tys)" using Cons.prems(4) by simp
  have entries: "map_entries st (ty # tys) (int (length pre)) = ?m # ?ms" by simp
  have m: "\<not> (mi_type ?m < 1 \<or> int ITEM_MAX \<le> mi_type ?m)" "nat (mi_type ?m) = ty" "\<not> mi_size ?m < 0"
    using ty by (simp_all add: MapItem_New_def)
  show ?case
  proof (cases "LOAD unload ty")
    case False
    obtain s' where "read_maps unload fl s ?ms = Inr s'" "base_ok s'"
      "\<forall>ty \<in> set tys. map item_value (its s' ty) = (if LOAD unload ty then map item_value (its st ty) else [])"
      "\<forall>ty. ty \<notin> set tys \<longrightarrow> its s' ty = its s ty"
      using Cons.IH [OF Cons.prems(1) _ _ split] Cons.prems(2,3) by auto
    with False ty Cons.prems(2) entries m show ?thesis by (simp add: Let_def)
  next
    case True
    have ok: "\<forall>it \<in> set (its st ty). item_ok it \<and> item_type it = ty"
      using assms(1,2) ty(1,2) by (simp add: base_ok_def items_ok_def)
    have "drop (nat (mi_offset ?m)) fl = pool_bytes st ty @ concat (map (pool_bytes st) tys)"
      using Cons.prems(4) by (simp add: MapItem_New_def)
    with read_pool [OF ok, of "concat (map (pool_bytes st) tys)"] ty(1)
    have rd: "read_many (item_read ty) (nat (mi_size ?m)) (drop (nat (mi_offset ?m)) fl) =
        Inr (map item_value (its st ty), concat (map (pool_bytes st) tys))"
      by (simp add: pool_bytes_def MapItem_New_def item_types)
    obtain s1 where 1: "append_all s ty (map item_value (its st ty)) = Inr s1" "base_ok s1"
      "map item_value (its s1 ty) = map item_value (its st ty)" "\<forall>t. t \<noteq> ty \<longrightarrow> its s1 t = its s t"
      using append_all_spec [OF assms(1) Cons.prems(1) ty(2), of "[]"] ty(3) by auto
    have "\<forall>t \<in> set tys. 0 < t \<and> t < ITEM_MAX \<and> its s1 t = []" using Cons.prems(2,3) 1(4) by auto
    then obtain s' where "read_maps unload fl s1 ?ms = Inr s'" "base_ok s'"
      "\<forall>ty \<in> set tys. map item_value (its s' ty) = (if LOAD unload ty then map item_value (its st ty) else [])"
      "\<forall>ty. ty \<notin> set tys \<longrightarrow> its s' ty = its s1 ty"
      using Cons.IH [OF 1(2) _ _ split] Cons.prems(2) by auto
    with 1 True ty Cons.prems(2) entries m rd show ?thesis by (simp add: Let_def)
  qed
qed simp

lemma append_maps_spec:
  assumes "store_ok s" "\<forall>m \<in> set ms. mi_unused m = 0"
  shows "\<exists>s'. append_maps s ms = Inr s' \<and> store_ok s' \<and> its s' ITEM_MAP = its s ITEM_MAP @ map MapI ms \<and>
    (\<forall>t. t \<noteq> ITEM_MAP \<longrightarrow> its s' t = its s t)"
  using assms
proof (induction ms arbitrary: s)
  case (Cons m ms)
  have m: "MapItem_New (mi_type m) (mi_offset m) (mi_size m) = m"
    using Cons.prems(2) by (cases m) (simp add: MapItem_New_def)
  obtain i s1 where "append_item s ITEM_MAP (MapI m) False = Inr (i, s1)" "store_ok s1"
    "its s1 ITEM_MAP = its s ITEM_MAP @ [MapI m]" "\<forall>t. t \<noteq> ITEM_MAP \<longrightarrow> its s1 t = its s t"
    using append_map [OF Cons.prems(1)] by blast
  with Cons.IH [of s1] Cons.prems(2) m show ?case by auto
qed simp

lemma length_item_write: "item_ok it \<Longrightarrow> 0 < length (item_write it)"
  by (cases it)
    (simp_all add: mapitem_write_def stringitem_write_def typeitem_write_def typelistitem_write_def protoitem_write_def
      constitem_write_def locvaritem_write_def varitem_write_def funcitem_write_def codeitem_write_def
      classitem_write_def fielditem_write_def methoditem_write_def traititem_write_def nfuncitem_write_def
      imethitem_write_def)

lemma length_pool: "\<forall>it \<in> set xs. item_ok it \<Longrightarrow> length xs \<le> length (concat (map item_write xs))"
proof (induction xs)
  case (Cons x xs)
  with length_item_write [of x] show ?case by (cases "item_write x") auto
qed simp

lemma map_entries_ok:
  assumes "\<forall>ty \<in> set tys. ty < 65536" "items_ok st" "\<forall>ty \<in> set tys. 0 < ty \<and> ty < ITEM_MAX"
    and "0 \<le> off" "off + int (length (concat (map (pool_bytes st) tys))) < 2147483648"
  shows "list_all mapitem_ok (map_entries st tys off)"
  using assms
proof (induction tys arbitrary: off)
  case (Cons ty tys)
  have "length (its st ty) \<le> length (pool_bytes st ty)"
    unfolding pool_bytes_def by (rule length_pool) (use Cons.prems(2,3) in \<open>auto simp: items_ok_def\<close>)
  with Cons.prems have "mapitem_ok (MapItem_New (int ty) off (int (length (its st ty))))"
    by (simp add: mapitem_ok_def MapItem_New_def uint16_range_def uint32_range_def int32_range_def)
  with Cons.IH [of "off + int (length (pool_bytes st ty))"] Cons.prems show ?case by simp
qed simp

lemma map_entries_facts:
  "length (map_entries st tys off) = length tys" "m \<in> set (map_entries st tys off) \<Longrightarrow> mi_unused m = 0"
  by (induction tys arbitrary: off) (auto simp: MapItem_New_def)

lemma length_maps: "length (concat (map mapitem_write ms)) = 12 * length ms"
  by (induction ms) (simp_all add: mapitem_write_def)

lemma concat_present: "concat (map (pool_bytes st) (present st tys)) = concat (map (pool_bytes st) tys)"
  by (induction tys) (simp_all add: present_def pool_bytes_def)

lemma base_ok_items_type:
  assumes "base_ok st" "ty < ITEM_MAX" "it \<in> set (its st ty)"
  shows "item_type it = ty"
  using assms by (simp add: base_ok_def)


lemma present_range: "ty \<in> set (present st [1 ..< ITEM_MAX]) \<longleftrightarrow> 0 < ty \<and> ty < ITEM_MAX \<and> its st ty \<noteq> []"
  by (auto simp: present_def)

text \<open>
  An image that fits in a file: its items are in the ranges of their fields, no code is empty, and
  the file is smaller than 2 GiB.
\<close>

definition file_bytes :: "ItemStore \<Rightarrow> nat" where
  "file_bytes st = 96 + 12 * (ITEM_MAX - 1) + length (concat (map (pool_bytes st) [1 ..< ITEM_MAX]))"

definition fits_file :: "KImage \<Rightarrow> bool" where
  "fits_file img \<longleftrightarrow> (\<exists>name. im_header img = init_header name) \<and> its (im_store img) ITEM_MAP = [] \<and>
     items_ok (im_store img) \<and> int (file_bytes (im_store img)) < 2147483648"

lemma Finish_spec:
  assumes "store_ok (im_store img)" "fits_file img"
  shows "\<exists>img1 n. KImage_Finish img = Inr img1 \<and> store_ok (im_store img1) \<and> n = length (present (im_store img) [1 ..< ITEM_MAX]) \<and>
    n < ITEM_MAX \<and>
    its (im_store img1) ITEM_MAP = map MapI (map_entries (im_store img) (present (im_store img) [1 ..< ITEM_MAX]) (96 + 12 * int n)) \<and>
    (\<forall>ty. ty \<noteq> ITEM_MAP \<longrightarrow> its (im_store img1) ty = its (im_store img) ty) \<and>
    (\<exists>name. im_header img1 = (init_header name)\<lparr>
       ih_file_size := 96 + 12 * int n + int (length (concat (map (pool_bytes (im_store img)) [1 ..< ITEM_MAX]))),
       ih_map_size := int n\<rparr>)"
proof -
  let ?st = "im_store img" and ?tys = "[1 ..< ITEM_MAX]"
  let ?n = "length (present ?st ?tys)"
  obtain name where h: "im_header img = init_header name" using assms(2) by (auto simp: fits_file_def)
  have hs: "ih_header_size (im_header img) = 96" by (simp add: h init_header_def sizeof_ImageHeader_def)
  have tys: "\<forall>ty \<in> set ?tys. 0 < ty \<and> ty < ITEM_MAX" "\<forall>ty \<in> set ?tys. ty < ITEM_MAX" by auto
  have ok: "items_ok ?st" "its ?st ITEM_MAP = []" using assms(2) by (simp_all add: fits_file_def)
  have space: "map_space (is_table ?st) ?tys 96 = Inr (96 + 12 * int ?n)"
    using map_space_spec [OF store_ok_base [OF assms(1)] tys(2)] by simp
  obtain off' len' st' where f: "finish_maps ?st ?tys (96 + 12 * int ?n) 0 = Inr (off', len', st')" "store_ok st'"
    "\<forall>ty. ty \<noteq> ITEM_MAP \<longrightarrow> its st' ty = its ?st ty"
    "its st' ITEM_MAP = its ?st ITEM_MAP @ map MapI (map_entries ?st (present ?st ?tys) (96 + 12 * int ?n + 0))"
    "off' + len' = 96 + 12 * int ?n + 0 + int (length (concat (map (pool_bytes ?st) ?tys)))"
    using finish_maps_spec [OF assms(1) tys(1) ok(1)] by blast
  have "length (its st' ITEM_MAP) = ?n" using f(4) ok(2) by (simp add: map_entries_facts)
  then have n: "AtomTable_Size (is_table st') ITEM_MAP = Inr (int ?n)"
    using size_ok [OF store_ok_base [OF f(2)], of ITEM_MAP] by (simp add: item_types)
  have "?n \<le> length ?tys" unfolding present_def by (rule length_filter_le)
  then have "?n < ITEM_MAX" by (simp add: item_types)
  with hs h space f n ok(2) show ?thesis
    by (intro exI [of _ "img\<lparr>im_header := (im_header img)\<lparr>ih_file_size := off' + len', ih_map_size := int ?n\<rparr>, im_store := st'\<rparr>"])
      (auto simp: KImage_Finish_def Let_def)
qed

lemma roundtrip_pools:
  assumes "store_ok (im_store img)" "fits_file img"
  shows "\<exists>img1 fl img2. KImage_Finish img = Inr img1 \<and> KImage_Write_File img1 = Inr fl \<and>
    int (length fl) = ih_file_size (im_header img1) \<and>
    KImage_Read_File (Some fl) unload = Inr (Some img2) \<and> im_header img2 = im_header img1 \<and>
    base_ok (im_store img2) \<and> its (im_store img2) ITEM_MAP = its (im_store img1) ITEM_MAP \<and>
    (\<forall>ty. 0 < ty \<longrightarrow> ty < ITEM_MAX \<longrightarrow> map item_value (its (im_store img2) ty) =
       (if LOAD unload ty then map item_value (its (im_store img) ty) else []))"
proof -
  let ?st = "im_store img" and ?tys = "[1 ..< ITEM_MAX]"
  let ?P = "present ?st ?tys" and ?B = "concat (map (pool_bytes ?st) ?tys)"
  obtain img1 n name where 1: "KImage_Finish img = Inr img1" "store_ok (im_store img1)" "n = length ?P" "n < ITEM_MAX"
    "its (im_store img1) ITEM_MAP = map MapI (map_entries ?st ?P (96 + 12 * int n))"
    "\<forall>ty. ty \<noteq> ITEM_MAP \<longrightarrow> its (im_store img1) ty = its ?st ty"
    "im_header img1 = (init_header name)\<lparr>ih_file_size := 96 + 12 * int n + int (length ?B), ih_map_size := int n\<rparr>"
    using Finish_spec [OF assms] by blast
  let ?h = "im_header img1" and ?ms = "map_entries ?st ?P (96 + 12 * int n)"
  have ok: "items_ok ?st" "int (file_bytes ?st) < 2147483648" using assms(2) by (simp_all add: fits_file_def)
  have n: "n \<le> 15" using 1(4) by (simp add: item_types)
  have size: "96 + 12 * int n + int (length ?B) < 2147483648"
    using ok(2) n by (simp add: file_bytes_def item_types del: upt_Suc)
  have ih: "header_ok ?h" "header_check ?h = 0" "ih_header_size ?h = 96" "ih_map_offset ?h = 96" "ih_map_size ?h = int n"
    using header_ok_init [of name] header_check_init [of name] size n
    by (simp_all add: 1(7) header_ok_def header_check_def uint32_range_def init_header_def sizeof_ImageHeader_def)
  have mb: "pool_bytes (im_store img1) ITEM_MAP = concat (map mapitem_write ?ms)"
    by (simp add: pool_bytes_def 1(5) o_def)
  have rest: "map (pool_bytes (im_store img1)) ?tys = map (pool_bytes ?st) ?tys"
    by (rule same_pools(3)) (use 1(6) in \<open>auto simp: item_types\<close>)
  have types: "[0 ..< ITEM_MAX] = ITEM_MAP # ?tys" by (simp add: item_types upt_rec)
  define fl where "fl = (header_bytes ?h @ concat (map mapitem_write ?ms)) @ ?B"
  have "image_write_items img1 = Inr (concat (map (pool_bytes (im_store img1)) (ITEM_MAP # ?tys)))"
    unfolding image_write_items_def types
    by (rule write_types_spec [OF store_ok_base [OF 1(2)]]) (auto simp: item_types)
  then have "image_write_items img1 = Inr (concat (map mapitem_write ?ms) @ ?B)"
    by (simp only: list.map concat.simps mb rest)
  moreover have "image_write_header img1 = Inr (header_bytes ?h)"
    using ih(3) length_header [OF ih(1)] by (simp add: image_write_header_def sizeof_ImageHeader_def Let_def)
  ultimately have wr: "KImage_Write_File img1 = Inr fl" by (simp add: KImage_Write_File_def fl_def)
  have lm: "length ?ms = n" by (simp add: map_entries_facts 1(3))
  have len: "length fl = 96 + 12 * n + length ?B"
    using length_header [OF ih(1)] lm by (simp add: fl_def length_maps)
  have mok: "list_all mapitem_ok ?ms"
  proof (rule map_entries_ok)
    have "ITEM_MAX < 65536" by (simp add: item_types)
    then show "\<forall>ty \<in> set ?P. ty < 65536" "\<forall>ty \<in> set ?P. 0 < ty \<and> ty < ITEM_MAX"
      using present_range [of _ ?st] by fastforce+
  qed (use size ok(1) in \<open>simp_all add: concat_present\<close>)
  have "drop 96 fl = concat (map mapitem_write ?ms) @ ?B" using length_header [OF ih(1)] by (simp add: fl_def)
  then have rm: "read_many (read_fixed 12 read_mapitem) n (drop 96 fl) = Inr (?ms, ?B)"
    using map_codec.read_many_wr [OF mok, of ?B] lm by simp
  have new: "store_ok (im_store (KImage_New None))" "\<And>ty. ty < ITEM_MAX \<Longrightarrow> its (im_store (KImage_New None)) ty = []"
    using store_ok_New by (simp_all add: KImage_New_def items_New)
  obtain s where s: "append_maps (im_store (KImage_New None)) ?ms = Inr s" "store_ok s"
    "its s ITEM_MAP = its (im_store (KImage_New None)) ITEM_MAP @ map MapI ?ms"
    "\<forall>t. t \<noteq> ITEM_MAP \<longrightarrow> its s t = its (im_store (KImage_New None)) t"
    using append_maps_spec [OF new(1), of ?ms] map_entries_facts(2) by blast
  have empty: "\<forall>ty. 0 < ty \<longrightarrow> ty < ITEM_MAX \<longrightarrow> its s ty = []" using s(4) new(2) by (simp add: item_types)
  have pre: "int (length (header_bytes ?h @ concat (map mapitem_write ?ms))) = 96 + 12 * int n"
    using length_header [OF ih(1)] lm by (simp add: length_maps)
  have dist: "distinct ?P" unfolding present_def by simp
  have P: "\<forall>ty \<in> set ?P. 0 < ty \<and> ty < ITEM_MAX \<and> its s ty = []"
    using empty present_range [of _ ?st] by blast
  have fl: "fl = (header_bytes ?h @ concat (map mapitem_write ?ms)) @ concat (map (pool_bytes ?st) ?P)"
    unfolding fl_def concat_present ..
  obtain s' where s': "read_maps unload fl s ?ms = Inr s'" "base_ok s'"
    "\<forall>ty \<in> set ?P. map item_value (its s' ty) = (if LOAD unload ty then map item_value (its ?st ty) else [])"
    "\<forall>ty. ty \<notin> set ?P \<longrightarrow> its s' ty = its s ty"
    using read_maps_spec [OF store_ok_base [OF assms(1)] ok(1) store_ok_base [OF s(2)] dist P fl, of unload]
    unfolding pre by blast
  let ?img2 = "\<lparr>im_header = ?h, im_store = s'\<rparr>"
  have hd: "read_header fl = ?h" using read_header_bytes [OF ih(1)] by (simp add: fl_def)
  have "KImage_Read_File (Some fl) unload = Inr (Some ?img2)"
    using hd ih(2,4,5) len n rm s(1) s'(1)
    by (simp add: KImage_Read_File_def sizeof_ImageHeader_def Let_def)
  moreover have "map item_value (its s' ty) = (if LOAD unload ty then map item_value (its ?st ty) else [])"
    if "0 < ty" "ty < ITEM_MAX" for ty
  proof (cases "its ?st ty = []")
    case True
    then have "ty \<notin> set ?P" unfolding present_range by simp
    with that s'(4) empty True show ?thesis by simp
  next
    case False
    with that have "ty \<in> set ?P" unfolding present_range by simp
    with s'(3) show ?thesis by blast
  qed
  moreover have "its s' ITEM_MAP = its (im_store img1) ITEM_MAP"
  proof -
    have "ITEM_MAP \<notin> set ?P" unfolding present_range by (simp add: item_types)
    with s'(4) s(3) new(2) [of ITEM_MAP] 1(5) show ?thesis by (simp add: item_types)
  qed
  moreover have "int (length fl) = ih_file_size ?h" using len by (simp add: 1(7))
  ultimately show ?thesis using 1(1) wr s'(2) by (intro exI [of _ img1] exI [of _ fl] exI [of _ ?img2]) simp
qed


subsection \<open>The declarations survive\<close>

definition same_refs :: "ItemStore \<Rightarrow> ItemStore \<Rightarrow> bool" where
  "same_refs st st' \<longleftrightarrow> (\<forall>ty. 0 < ty \<longrightarrow> ty < ITEM_MAX \<longrightarrow> ty \<noteq> ITEM_CONST \<longrightarrow> its st' ty = its st ty)"

lemma same_refs_its:
  assumes "same_refs st st'"
  shows "its st' ITEM_STRING = its st ITEM_STRING" "its st' ITEM_TYPE = its st ITEM_TYPE"
    "its st' ITEM_TYPELIST = its st ITEM_TYPELIST" "its st' ITEM_PROTO = its st ITEM_PROTO"
    "its st' ITEM_CODE = its st ITEM_CODE" "ty \<in> decl_types \<Longrightarrow> its st' ty = its st ty"
  using assms by (auto simp: same_refs_def item_types decl_types_def)

text \<open>The pools that types and prototypes are made of.\<close>

definition same_types :: "ItemStore \<Rightarrow> ItemStore \<Rightarrow> bool" where
  "same_types st st' \<longleftrightarrow> (\<forall>ty \<in> {ITEM_STRING, ITEM_TYPE, ITEM_TYPELIST, ITEM_PROTO}. its st' ty = its st ty)"

lemma same_refs_types: "same_refs st st' \<Longrightarrow> same_types st st'"
  by (simp add: same_types_def same_refs_its)

lemma same_string: "same_types st st' \<Longrightarrow> string_at st' i s = string_at st i s"
  by (simp add: string_at_def same_types_def)

lemma same_type:
  assumes "same_types st st'"
  shows "type_at st' i d = type_at st i d"
proof -
  have "item_at st' j t = item_at st j t" for j t using assms by (simp add: item_at_def same_types_def)
  then show ?thesis
    by (induction d arbitrary: i) (simp_all add: type_at.simps same_string [OF assms] split: option.split)
qed

lemma same_typelist: "same_types st st' \<Longrightarrow> typelist_at st' i ds = typelist_at st i ds"
  using same_type [of st st'] by (simp add: typelist_at_def types_at_def same_types_def list_all2_conv_all_nth)

lemma same_proto:
  assumes "same_types st st'"
  shows "proto_at st' i arg ret = proto_at st i arg ret"
  using assms by (simp add: proto_at_def same_typelist [OF assms]) (simp add: same_types_def)

lemma same_decl:
  assumes "same_refs st st'"
  shows "decl_at st' it d = decl_at st it d"
proof -
  note t = same_refs_types [OF assms]
  show ?thesis
    by (cases d)
      (simp_all add: code_at_def class_at_def same_refs_its [OF assms] same_string [OF t] same_type [OF t]
        same_typelist [OF t] same_proto [OF t] split: option.split)
qed

lemma same_types_store: "store_ok st \<Longrightarrow> same_types st st' \<Longrightarrow> base_ok st' \<Longrightarrow> store_ok st'"
  by (simp add: store_ok_def refs_ok_def type_refs_ok_def same_types_def)

lemma same_image:
  assumes same: "same_refs st st'" and "image_rel \<lparr>im_header = h, im_store = st\<rparr> ds" "base_ok st'"
  shows "image_rel \<lparr>im_header = h', im_store = st'\<rparr> ds"
proof -
  have "store_ok st'"
    using assms(2,3) same_types_store [OF _ same_refs_types [OF same]] by (simp add: image_rel_def)
  moreover have "decl_at st' = decl_at st" using same_decl [OF same] by (intro ext) simp
  ultimately show ?thesis using assms(2) by (simp add: image_rel_def same_refs_its [OF same])
qed

end
