(* ===== verification/ImageSize.thy ===== *)
theory ImageSize
  imports ImageFile
begin

text \<open>
  How much an image grows: a bound on the bytes that adding a declaration puts into the file, and,
  as long as the whole stays below 2 GiB, that every item fits into its fields.
\<close>

subsection \<open>Growth\<close>

definition bytes_of :: "ItemStore \<Rightarrow> nat" where
  "bytes_of st = length (concat (map (pool_bytes st) [1 ..< ITEM_MAX]))"

definition FILE_MAX :: nat where "FILE_MAX = 2147483648"

text \<open>From \<open>st\<close> to \<open>st'\<close> at most \<open>c\<close> bytes are added, unless the bound is reached.\<close>

definition within :: "ItemStore \<Rightarrow> nat \<Rightarrow> ItemStore \<Rightarrow> bool" where
  "within st c st' \<longleftrightarrow> (items_ok st \<longrightarrow> bytes_of st + c < FILE_MAX \<longrightarrow>
     items_ok st' \<and> bytes_of st' \<le> bytes_of st + c)"

lemma within_refl [simp]: "within st c st"
  by (simp add: within_def)

lemma within_trans: "within st1 a st2 \<Longrightarrow> within st2 b st3 \<Longrightarrow> within st1 (a + b) st3"
  by (auto simp: within_def)

lemma within_trans': "within st1 a st2 \<Longrightarrow> within st2 b st3 \<Longrightarrow> a + b \<le> c \<Longrightarrow> within st1 c st3"
  by (auto simp: within_def)

lemma sum_list_update:
  fixes f :: "nat \<Rightarrow> nat"
  assumes "distinct xs" "a \<in> set xs" "\<And>x. x \<noteq> a \<Longrightarrow> g x = f x" "g a = f a + c"
  shows "sum_list (map g xs) = sum_list (map f xs) + c"
  using assms
proof (induction xs)
  case (Cons x xs)
  show ?case
  proof (cases "x = a")
    case True
    with Cons.prems(1) have "a \<notin> set xs" by simp
    then have "sum_list (map g xs) = sum_list (map f xs)"
      by (intro arg_cong [of _ _ sum_list] map_cong refl Cons.prems(3)) auto
    with True Cons.prems(4) show ?thesis by simp
  qed (use Cons in auto)
qed simp

lemma bytes_of_sum: "bytes_of st = sum_list (map (\<lambda>ty. length (pool_bytes st ty)) [1 ..< ITEM_MAX])"
  by (simp add: bytes_of_def length_concat o_def)

lemma length_pool_bytes: "ty \<in> set [1 ..< ITEM_MAX] \<Longrightarrow> length (pool_bytes st ty) \<le> bytes_of st"
  unfolding bytes_of_sum by (rule member_le_sum_list) auto

lemma length_pool_bound:
  assumes "items_ok st" "0 < ty" "ty < ITEM_MAX"
  shows "length (its st ty) \<le> bytes_of st"
proof -
  have "length (its st ty) \<le> length (pool_bytes st ty)"
    unfolding pool_bytes_def by (rule length_pool) (use assms in \<open>auto simp: items_ok_def\<close>)
  with length_pool_bytes [of ty st] assms(2,3) show ?thesis by simp
qed

lemma item_write_address [simp]: "item_write (at_address a it) = item_write it" "item_ok (at_address a it) = item_ok it"
  by (cases it; simp add: constitem_write_def)+

lemma append_within:
  assumes "base_ok st" "ty < ITEM_MAX" "0 < ty" "append_item st ty it u = Inr (i, st')"
    and "items_ok st \<Longrightarrow> bytes_of st + c < FILE_MAX \<Longrightarrow> item_ok it \<and> length (item_write it) \<le> c"
  shows "within st c st'"
proof -
  have ty: "ty < at_size (is_table st)" using assms(1,2) by (simp add: base_ok_def)
  obtain t' where "AtomTable_Append (is_brk st + 1) (is_table st) ty (at_address (is_brk st) it) u = Inr (i, t')" "st' = \<lparr>is_table = t', is_brk = is_brk st + 2\<rparr>"
    using assms(4) by (auto simp: append_item_def)
  with AtomTable_Append_items(3) [OF base_ok_inv [OF assms(1)] ty]
  have its: "its st' ty' = (if ty' = ty then its st ty @ [at_address (is_brk st) it] else its st ty')" for ty' by simp
  have "length (pool_bytes st' t) = length (pool_bytes st t)" if "t \<noteq> ty" for t using that its by (simp add: pool_bytes_def)
  then have "bytes_of st' = bytes_of st + length (item_write it)"
    unfolding bytes_of_sum by (intro sum_list_update [of _ ty]) (use assms(2,3) its in \<open>auto simp: pool_bytes_def\<close>)
  with its assms(5) show ?thesis by (auto simp: within_def items_ok_def)
qed

text \<open>Indices of items that are there fit into 32 bits.\<close>

lemma index_range:
  assumes "items_ok st" "bytes_of st + c < FILE_MAX" "0 < ty" "ty < ITEM_MAX" "i = -1 \<or> 0 \<le> i \<and> i < int (length (its st ty))"
  shows "int32_range i"
proof -
  have "int (length (its st ty)) \<le> int (bytes_of st)" using length_pool_bound [OF assms(1,3,4)] by simp
  with assms(2,5) show ?thesis by (auto simp: int32_range_def FILE_MAX_def)
qed

subsection \<open>Pools\<close>

lemma string_within:
  assumes "base_ok st" "StringItem_Set st s = Inr (i, st')"
  shows "within st (length s + 5) st'"
proof (cases "StringItem_Get (is_table st) s < 0")
  case True
  then have ap: "append_item st ITEM_STRING (StringI (StringItem_New s)) True = Inr (i, st')"
    using assms(2) by (simp add: StringItem_Set_def Let_def)
  have ok: "item_ok (StringI (StringItem_New s))" "length (item_write (StringI (StringItem_New s))) \<le> length s + 5"
    if "bytes_of st + (length s + 5) < FILE_MAX"
    using that length_cstr_le [of s]
    by (simp_all add: stringitem_ok_def StringItem_New_def strlen_def int32_range_def stringitem_write_def FILE_MAX_def)
  show ?thesis by (rule append_within [OF assms(1) _ _ ap]) (use ok in \<open>simp_all add: item_types\<close>)
qed (use assms(2) in \<open>simp add: StringItem_Set_def Let_def\<close>)

fun type_cost :: "TypeDesc \<Rightarrow> nat" where
  "type_cost (TD_Base c) = 12"
| "type_cost (TD_Klass path type) = (case path of None \<Rightarrow> 0 | Some p \<Rightarrow> length p + 5) + (length type + 5) + 12"
| "type_cost (TD_Array dims base) = type_cost base + 12"
| "type_cost (TD_Varg base) = type_cost base + 12"
| "type_cost d = 0"

text \<open>Dimensions are stored in 32 bits.\<close>

fun dims_ok :: "TypeDesc \<Rightarrow> bool" where
  "dims_ok (TD_Array dims base) = (int32_range dims \<and> dims_ok base)"
| "dims_ok (TD_Varg base) = dims_ok base"
| "dims_ok d = True"

lemma typeitem_within:
  assumes "base_ok st" "append_item st ITEM_TYPE (TypeI t) u = Inr (i, st')"
    and "items_ok st \<Longrightarrow> bytes_of st + 12 < FILE_MAX \<Longrightarrow> typeitem_ok t"
  shows "within st 12 st'"
  using append_within [OF assms(1) _ _ assms(2)] assms(3) by (auto simp: item_types typeitem_write_def)

lemma type_within:
  assumes "plain_type d" "dims_ok d" "store_ok st" "TypeItem_Set st d = Inr (i, st')"
  shows "within st (type_cost d) st'"
  using assms
proof (induction d arbitrary: st i st')
  case (TD_Base c)
  have "(of_char c :: int) < 256" "0 \<le> (of_char c :: int)" by (cases c; simp add: of_char_def)+
  then have ok: "typeitem_ok (TypeItem_Primitive_New c)"
    by (simp add: typeitem_ok_def TypeItem_Primitive_New_def int32_range_def type_kinds)
  from TD_Base(4) show ?case
    by (auto simp: TypeItem_Set.simps TypeItem_Get.simps ok split: if_splits
        intro: typeitem_within [OF store_ok_base [OF TD_Base(3)]])
next
  case (TD_Array dims b)
  obtain j where j: "TypeItem_Get (is_table st) (TD_Array dims b) = Inr j"
    using TypeItem_Get_spec [OF TD_Array.prems(1,3)] by blast
  show ?case
  proof (cases "j < 0")
    case True
    then obtain k st1 where k: "TypeItem_Set st b = Inr (k, st1)"
      "append_item st1 ITEM_TYPE (TypeI (TypeItem_Array_New dims k)) True = Inr (i, st')"
      using TD_Array.prems(4) j by (auto simp: TypeItem_Set.simps)
    obtain k' st1' where "TypeItem_Set st b = Inr (k', st1')" "type_added st b k' st1'"
      using TypeItem_Set_spec [of b st] TD_Array.prems(1,3) by auto
    with k(1) have a: "store_ok st1" "type_at st1 k b" by (simp_all add: type_added_def)
    have "within st (type_cost b) st1" using TD_Array.IH [OF _ _ TD_Array.prems(3) k(1)] TD_Array.prems(1,2) by simp
    moreover have "within st1 12 st'"
      by (rule typeitem_within [OF store_ok_base [OF a(1)] k(2)])
        (use type_at_range [OF a(2)] index_range [of st1 12 ITEM_TYPE k] TD_Array.prems(2) in
          \<open>auto simp: typeitem_ok_def TypeItem_Array_New_def int32_range_def type_kinds item_types\<close>)
    ultimately show ?thesis using within_trans by fastforce
  next
    case False
    with TD_Array.prems(4) j show ?thesis by (simp add: TypeItem_Set.simps)
  qed
next
  case (TD_Varg b)
  obtain j where j: "TypeItem_Get (is_table st) (TD_Varg b) = Inr j"
    using TypeItem_Get_spec [OF TD_Varg.prems(1,3)] by blast
  show ?case
  proof (cases "j < 0")
    case True
    then obtain k st1 where k: "TypeItem_Set st b = Inr (k, st1)"
      "append_item st1 ITEM_TYPE (TypeI (TypeItem_Varg_New k)) True = Inr (i, st')"
      using TD_Varg.prems(4) j by (auto simp: TypeItem_Set.simps)
    obtain k' st1' where "TypeItem_Set st b = Inr (k', st1')" "type_added st b k' st1'"
      using TypeItem_Set_spec [of b st] TD_Varg.prems(1,3) by auto
    with k(1) have a: "store_ok st1" "type_at st1 k b" by (simp_all add: type_added_def)
    have "within st (type_cost b) st1" using TD_Varg.IH [OF _ _ TD_Varg.prems(3) k(1)] TD_Varg.prems(1,2) by simp
    moreover have "within st1 12 st'"
      by (rule typeitem_within [OF store_ok_base [OF a(1)] k(2)])
        (use type_at_range [OF a(2)] index_range [of st1 12 ITEM_TYPE k] in
          \<open>auto simp: typeitem_ok_def TypeItem_Varg_New_def int32_range_def type_kinds item_types\<close>)
    ultimately show ?thesis using within_trans by fastforce
  next
    case False
    with TD_Varg.prems(4) j show ?thesis by (simp add: TypeItem_Set.simps)
  qed
next
  case (TD_Klass p t)
  obtain j where j: "TypeItem_Get (is_table st) (TD_Klass p t) = Inr j"
    using TypeItem_Get_spec [OF TD_Klass.prems(1,3)] by blast
  show ?case
  proof (cases "j < 0")
    case True
    then obtain pi st1 ti st2 where k: "(case p of None \<Rightarrow> Inr (-1, st)
             | Some p \<Rightarrow> bind_run (StringItem_Set st p) (\<lambda>(pathindex, st1).
                 if pathindex \<ge> 0 then Inr (pathindex, st1) else Inl Assert_Failed)) = Inr (pi, st1)"
      "StringItem_Set st1 t = Inr (ti, st2)"
      "append_item st2 ITEM_TYPE (TypeI (TypeItem_Klass_New pi ti)) True = Inr (i, st')"
      using TD_Klass.prems(4) j by (auto simp: TypeItem_Set.simps split: if_splits)
    have 1: "within st (case p of None \<Rightarrow> 0 | Some p \<Rightarrow> length p + 5) st1 \<and> store_ok st1 \<and>
        (pi = -1 \<or> 0 \<le> pi \<and> pi < int (length (its st1 ITEM_STRING)))"
    proof (cases p)
      case (Some x)
      then have s: "StringItem_Set st x = Inr (pi, st1)" using k(1) by (auto split: if_splits)
      with grow_string [OF TD_Klass.prems(3), of x] string_within [OF store_ok_base [OF TD_Klass.prems(3)] s] Some
      show ?thesis by (auto simp: pools_grow_def string_at_def)
    qed (use k(1) TD_Klass.prems(3) in auto)
    then have 2: "within st1 (length t + 5) st2 \<and> store_ok st2 \<and> extends st1 st2 \<and> 0 \<le> ti \<and> ti < int (length (its st2 ITEM_STRING))"
      using grow_string [of st1 t] string_within [of st1 t] k(2) by (auto simp: pools_grow_def string_at_def)
    have "pi = -1 \<or> 0 \<le> pi \<and> pi < int (length (its st2 ITEM_STRING))"
    proof -
      obtain xs where "its st2 ITEM_STRING = its st1 ITEM_STRING @ xs" using 2 extendsE item_lt_max(1) by blast
      with 1 show ?thesis by auto
    qed
    then have "within st2 12 st'"
      by (intro typeitem_within [OF _ k(3)])
        (use 2 index_range [of st2 12 ITEM_STRING] in \<open>auto simp: typeitem_ok_def TypeItem_Klass_New_def int32_range_def type_kinds item_types\<close>)
    from within_trans [OF within_trans [OF conjunct1 [OF 1] conjunct1 [OF 2]] this] show ?thesis
      by (simp add: ac_simps)
  next
    case False
    with TD_Klass.prems(4) j show ?thesis by (simp add: TypeItem_Set.simps)
  qed
qed simp_all


definition types_cost :: "TypeDesc list \<Rightarrow> nat" where
  "types_cost ds = sum_list (map type_cost ds) + 4 * length ds + 4"

lemma indexes_within:
  assumes "\<forall>d \<in> set ds. plain_type d \<and> dims_ok d" "store_ok st" "set_indexes st ds = Inr (is, st')"
  shows "within st (sum_list (map type_cost ds)) st' \<and> store_ok st' \<and> length is = length ds \<and>
    (\<forall>i \<in> set is. 0 \<le> i \<and> i < int (length (its st' ITEM_TYPE)))"
  using assms
proof (induction ds arbitrary: st "is")
  case (Cons d ds)
  obtain i st1 where i: "TypeItem_Set st d = Inr (i, st1)" "pools_grow st st1" "type_at st1 i d"
    using grow_type [of st d] Cons.prems(1,2) by auto
  then obtain js where j: "set_indexes st1 ds = Inr (js, st')" "is = i # js" using Cons.prems(3) by (auto split: if_splits)
  have ds: "\<forall>d \<in> set ds. plain_type d" "store_ok st1" using Cons.prems(1) i(2) by (auto simp: pools_grow_def)
  have ex: "extends st1 st'" using set_indexes_spec [OF ds] j(1) by auto
  have "within st (type_cost d) st1" using type_within i(1) Cons.prems(1,2) by simp
  moreover note IH = Cons.IH [OF _ ds(2) j(1)]
  moreover have "0 \<le> i \<and> i < int (length (its st' ITEM_TYPE))"
    using type_at_range [OF type_at_extends [OF i(3) ex]] .
  ultimately show ?case using within_trans Cons.prems(1) j(2) by auto
qed simp

lemma typelist_within:
  assumes "\<forall>d \<in> set ds. plain_type d \<and> dims_ok d" "store_ok st" "TypeListItem_Set st ds = Inr (i, st')"
  shows "within st (types_cost ds) st'"
proof (cases "ds = []")
  case True
  with assms(3) show ?thesis by (simp add: TypeListItem_Set_def typelist_set_def)
next
  case False
  obtain j where j: "TypeListItem_Get (is_table st) ds = Inr j"
    using assms(3) False by (auto simp: TypeListItem_Set_def typelist_set_def)
  show ?thesis
  proof (cases "j < 0")
    case False
    with assms(3) j \<open>ds \<noteq> []\<close> show ?thesis by (simp add: TypeListItem_Set_def typelist_set_def)
  next
    case True
    then obtain "is" st1 where k: "set_indexes st ds = Inr (is, st1)"
      "append_item st1 ITEM_TYPELIST (TypeListI (TypeListItem_New is)) True = Inr (i, st')"
      using assms(3) j False by (auto simp: TypeListItem_Set_def typelist_set_def)
    note w = indexes_within [OF assms(1,2) k(1)]
    have w1: "within st1 (4 * length ds + 4) st'"
    proof (rule append_within [OF _ _ _ k(2)])
      assume b: "items_ok st1" "bytes_of st1 + (4 * length ds + 4) < FILE_MAX"
      have "int32_range x" if "x \<in> set is" for x
        using index_range [OF b, of ITEM_TYPE x] w that by (auto simp: item_types)
      then have "list_all int32_range is" by (simp add: list_all_iff)
      moreover have "0 < length is" "int (length is) < 2147483648" using w b(2) False by (auto simp: FILE_MAX_def)
      ultimately show "item_ok (TypeListI (TypeListItem_New is)) \<and>
          length (item_write (TypeListI (TypeListItem_New is))) \<le> 4 * length ds + 4"
        using w by (simp add: typelistitem_ok_def TypeListItem_New_def int32_range_def typelistitem_write_def length_int32s)
    qed (use w in \<open>simp_all add: item_types\<close>)
    from within_trans [OF conjunct1 [OF w] w1] show ?thesis by (simp add: types_cost_def add.assoc)
  qed
qed

lemma typelist_index:
  "typelist_at st i ds \<Longrightarrow> i = -1 \<or> 0 \<le> i \<and> i < int (length (its st ITEM_TYPELIST))"
  by (auto simp: typelist_at_def split: if_splits)

lemma proto_within:
  assumes "\<forall>d \<in> set arg \<union> set ret. plain_type d \<and> dims_ok d" "store_ok st" "ProtoItem_Set st arg ret = Inr (i, st')"
  shows "within st (types_cost arg + types_cost ret + 8) st'"
proof -
  have ds: "\<forall>d \<in> set ret. plain_type d \<and> dims_ok d" "\<forall>d \<in> set arg. plain_type d \<and> dims_ok d"
    "\<forall>d \<in> set ret. plain_type d" "\<forall>d \<in> set arg. plain_type d" using assms(1) by auto
  obtain r st1 where 1: "TypeListItem_Set st ret = Inr (r, st1)" "pools_grow st st1" "typelist_at st1 r ret"
    using grow_typelist [OF assms(2) ds(3)] by blast
  obtain p st2 where 2: "TypeListItem_Set st1 arg = Inr (p, st2)" "pools_grow st1 st2" "typelist_at st2 p arg"
    using grow_typelist [OF pools_grow_ext(2) [OF 1(2)] ds(4)] by blast
  have set: "protoitem_set st2 r p = Inr (i, st')" using assms(3) 1(1) 2(1) by (simp add: ProtoItem_Set_def)
  have "within st2 8 st'"
  proof (cases "ProtoItem_Get (is_table st2) r p < 0")
    case True
    then have ap: "append_item st2 ITEM_PROTO (ProtoI (ProtoItem_New r p)) True = Inr (i, st')"
      using set by (simp add: protoitem_set_def Let_def)
    show ?thesis
    proof (rule append_within [OF _ _ _ ap])
      assume b: "items_ok st2" "bytes_of st2 + 8 < FILE_MAX"
      have "int32_range r" "int32_range p"
        using index_range [OF b, of ITEM_TYPELIST] typelist_index [OF 2(3)]
          typelist_index [OF typelist_at_extends [OF 1(3) pools_grow_ext(1) [OF 2(2)]]] by (simp_all add: item_types)
      then show "item_ok (ProtoI (ProtoItem_New r p)) \<and> length (item_write (ProtoI (ProtoItem_New r p))) \<le> 8"
        by (simp add: protoitem_ok_def ProtoItem_New_def protoitem_write_def)
    qed (use pools_grow_ext(2) [OF 2(2)] in \<open>simp_all add: item_types\<close>)
  qed (use set in \<open>simp add: protoitem_set_def Let_def\<close>)
  from within_trans [OF within_trans [OF typelist_within [OF ds(1) assms(2) 1(1)]
      typelist_within [OF ds(2) pools_grow_ext(2) [OF 1(2)] 2(1)]] this]
  show ?thesis by (simp add: ac_simps)
qed

lemma code_within:
  assumes "store_ok st" "codes \<noteq> []" "codeitem_set st codes (int (length codes)) = Inr (i, st')"
  shows "within st (length codes + 4) st'"
  by (rule append_within [OF store_ok_base [OF assms(1)] _ _ assms(3) [unfolded codeitem_set_def]])
    (use assms(2) in \<open>auto simp: item_types codeitem_ok_def CodeItem_New_def codeitem_write_def int32_range_def FILE_MAX_def\<close>)


subsection \<open>Declarations\<close>

abbreviation name_cost :: "string \<Rightarrow> nat" where
  "name_cost s \<equiv> length s + 5"

abbreviation proto_cost :: "TypeDesc list \<Rightarrow> TypeDesc list \<Rightarrow> nat" where
  "proto_cost arg ret \<equiv> types_cost arg + types_cost ret + 8"

abbreviation klass_cost :: "string \<Rightarrow> nat" where
  "klass_cost k \<equiv> length k + 17"

text \<open>Every item of a declaration takes 16 bytes at most.\<close>

fun decl_cost :: "Decl \<Rightarrow> nat" where
  "decl_cost (DVar name desc konst) = type_cost desc + name_cost name + 16"
| "decl_cost (DLocVar name desc pos index) = type_cost desc + name_cost name + 16"
| "decl_cost (DFunc name arg ret codes) = name_cost name + proto_cost arg ret + (length codes + 4) + 16"
| "decl_cost (DClass name supers) = klass_cost name + types_cost supers + 16"
| "decl_cost (DField clazz name desc) = klass_cost clazz + name_cost name + type_cost desc + 16"
| "decl_cost (DMethod klazz name arg ret codes) =
     klass_cost klazz + name_cost name + proto_cost arg ret + (length codes + 4) + 16"
| "decl_cost (DTrait name traits) = klass_cost name + types_cost traits + 16"
| "decl_cost (DNFunc klazz name arg ret) =
     (case klazz of None \<Rightarrow> 0 | Some k \<Rightarrow> klass_cost k) + name_cost name + proto_cost arg ret + 16"
| "decl_cost (DIMeth trait name arg ret) = klass_cost trait + name_cost name + proto_cost arg ret + 16"

text \<open>Fields in their ranges, and no empty code: an empty code item is written but not read.\<close>

fun decl_fits :: "Decl \<Rightarrow> bool" where
  "decl_fits (DVar name desc konst) = (dims_ok desc \<and> int32_range konst)"
| "decl_fits (DLocVar name desc pos index) = (dims_ok desc \<and> int32_range pos \<and> int32_range index)"
| "decl_fits (DFunc name arg ret codes) = ((\<forall>d \<in> set arg \<union> set ret. dims_ok d) \<and> codes \<noteq> [])"
| "decl_fits (DClass name supers) = (\<forall>d \<in> set supers. dims_ok d)"
| "decl_fits (DField clazz name desc) = dims_ok desc"
| "decl_fits (DMethod klazz name arg ret codes) = ((\<forall>d \<in> set arg \<union> set ret. dims_ok d) \<and> codes \<noteq> [])"
| "decl_fits (DTrait name traits) = (\<forall>d \<in> set traits. dims_ok d)"
| "decl_fits (DNFunc klazz name arg ret) = (\<forall>d \<in> set arg \<union> set ret. dims_ok d)"
| "decl_fits (DIMeth trait name arg ret) = (\<forall>d \<in> set arg \<union> set ret. dims_ok d)"

text \<open>Each step with its growth.\<close>

lemma step_string:
  assumes "store_ok st"
  shows "\<exists>i st'. StringItem_Set st s = Inr (i, st') \<and> pools_grow st st' \<and> string_at st' i s \<and> within st (name_cost s) st'"
  using grow_string [OF assms, of s] string_within [OF store_ok_base [OF assms]] by blast

lemma step_type:
  assumes "store_ok st" "plain_type d" "dims_ok d"
  shows "\<exists>i st'. TypeItem_Set st d = Inr (i, st') \<and> pools_grow st st' \<and> type_at st' i d \<and> within st (type_cost d) st'"
  using grow_type [OF assms(1,2)] type_within [OF assms(2,3,1)] by blast

lemma step_klass:
  assumes "store_ok st"
  shows "\<exists>i st'. TypeItem_Set st (TD_Klass None k) = Inr (i, st') \<and> pools_grow st st' \<and> type_at st' i (TD_Klass None k) \<and>
    within st (klass_cost k) st'"
  using step_type [OF assms, of "TD_Klass None k"] by (simp add: add.commute)

lemma step_typelist:
  assumes "store_ok st" "\<forall>d \<in> set ds. plain_type d" "\<forall>d \<in> set ds. dims_ok d"
  shows "\<exists>i st'. TypeListItem_Set st ds = Inr (i, st') \<and> pools_grow st st' \<and> typelist_at st' i ds \<and> within st (types_cost ds) st'"
  using grow_typelist [OF assms(1,2)] typelist_within [OF _ assms(1)] assms(2,3) by blast

lemma step_proto:
  assumes "store_ok st" "\<forall>d \<in> set arg \<union> set ret. plain_type d" "\<forall>d \<in> set arg \<union> set ret. dims_ok d"
  shows "\<exists>i st'. ProtoItem_Set st arg ret = Inr (i, st') \<and> pools_grow st st' \<and> proto_at st' i arg ret \<and> within st (proto_cost arg ret) st'"
  using grow_proto [OF assms(1,2)] proto_within [OF _ assms(1)] assms(2,3) by blast

lemma step_code:
  assumes "store_ok st" "codes \<noteq> []"
  shows "\<exists>i st'. codeitem_set st codes (int (length codes)) = Inr (i, st') \<and> pools_grow st st' \<and> code_at st' i codes \<and>
    within st (length codes + 4) st'"
  using grow_code [OF assms(1)] code_within [OF assms] by blast

lemma step_class:
  assumes "store_ok st"
  shows "\<exists>i st'. (case k of None \<Rightarrow> Inr (-1, st) | Some n \<Rightarrow> TypeItem_Set st (TD_Klass None n)) = Inr (i, st') \<and>
    pools_grow st st' \<and> class_at st' i k \<and> within st (case k of None \<Rightarrow> 0 | Some n \<Rightarrow> klass_cost n) st'"
  using step_klass [OF assms, of "the k"] pools_grow_refl [OF assms]
  by (cases k) (auto simp: class_at_def)

text \<open>Indices that are there are in range.\<close>

lemma at_ranges:
  assumes "items_ok st" "bytes_of st + c < FILE_MAX"
  shows "string_at st i s \<Longrightarrow> int32_range i" "type_at st i d \<Longrightarrow> int32_range i" "typelist_at st i ds \<Longrightarrow> int32_range i"
    "proto_at st i arg ret \<Longrightarrow> int32_range i" "code_at st i codes \<Longrightarrow> int32_range i" "class_at st i k \<Longrightarrow> int32_range i"
proof -
  note r = index_range [OF assms]
  show "string_at st i s \<Longrightarrow> int32_range i" using r [of ITEM_STRING i] by (auto simp: string_at_def item_types)
  show t: "type_at st i d \<Longrightarrow> int32_range i" for d using r [of ITEM_TYPE i] type_at_range [of st i d] by (auto simp: item_types)
  show "typelist_at st i ds \<Longrightarrow> int32_range i" using r [of ITEM_TYPELIST i] typelist_index [of st i ds] by (auto simp: item_types)
  show "proto_at st i arg ret \<Longrightarrow> int32_range i" using r [of ITEM_PROTO i] by (auto simp: proto_at_def item_types)
  show "code_at st i codes \<Longrightarrow> int32_range i" using r [of ITEM_CODE i] by (auto simp: code_at_def item_types)
  show "class_at st i k \<Longrightarrow> int32_range i" using t by (auto simp: class_at_def int32_range_def split: option.splits)
qed

lemma decl_item_ok:
  assumes "decl_at st it d" "decl_fits d" "items_ok st" "bytes_of st + c < FILE_MAX"
  shows "item_ok it \<and> length (item_write it) \<le> 16"
  using assms at_ranges [OF assms(3,4)]
  by (cases d; auto simp: varitem_ok_def locvaritem_ok_def funcitem_ok_def classitem_ok_def fielditem_ok_def
      methoditem_ok_def traititem_ok_def nfuncitem_ok_def imethitem_ok_def varitem_write_def locvaritem_write_def
      funcitem_write_def classitem_write_def fielditem_write_def methoditem_write_def traititem_write_def
      nfuncitem_write_def imethitem_write_def)

lemma decl_within:
  assumes "store_ok st" "decl_at st it d" "decl_fits d" "put_store img (append_item st (decl_type d) it False) = Inr (i, img')"
  shows "within st 16 (im_store img')"
proof -
  obtain st' where a: "append_item st (decl_type d) it False = Inr (i, st')" "im_store img' = st'"
    using assms(4) by (auto simp: put_store_def)
  have "decl_type d < ITEM_MAX" "0 < decl_type d" by (cases d; simp add: item_types)+
  from append_within [OF store_ok_base [OF assms(1)] this a(1)] decl_item_ok [OF assms(2,3)] a(2)
  show ?thesis by blast
qed

text \<open>The growth over a sequence of steps that ends with the item of the declaration.\<close>

lemma steps_within:
  assumes "within st0 a st" "pools_grow st0 st" "decl_at st it d" "decl_fits d"
    "put_store img (append_item st (decl_type d) it False) = Inr (i, img')"
  shows "within st0 (a + 16) (im_store img')"
  using within_trans [OF assms(1) decl_within [OF pools_grow_ext(2) [OF assms(2)] assms(3-5)]] .

lemma KImage_Add_within:
  assumes "store_ok (im_store img)" "decl_plain d" "decl_fits d" "KImage_Add img d = Inr (i, img')"
  shows "within (im_store img) (decl_cost d) (im_store img')"
proof -
  note st = assms(1)
  note tr = pools_grow_trans and wt = within_trans and ext = pools_grow_ext
  show ?thesis
  proof (cases d)
    case (DVar name desc konst)
    obtain t st1 where 1: "TypeItem_Set (im_store img) desc = Inr (t, st1)" "pools_grow (im_store img) st1" "type_at st1 t desc"
      "within (im_store img) (type_cost desc) st1" using step_type [OF st, of desc] assms(2,3) DVar by auto
    obtain n st2 where 2: "StringItem_Set st1 name = Inr (n, st2)" "pools_grow st1 st2" "string_at st2 n name"
      "within st1 (name_cost name) st2" using step_string [OF ext(2) [OF 1(2)]] by blast
    have "decl_at st2 (VarI (VarItem_New n t konst)) d"
      using DVar 2(3) type_at_extends [OF 1(3) ext(1) [OF 2(2)]] by (simp add: VarItem_New_def)
    from steps_within [OF wt [OF 1(4) 2(4)] tr [OF 1(2) 2(2)] this assms(3), of img i img'] DVar 1(1) 2(1) assms(4)
    show ?thesis by (simp add: KImage_Add_Var_def)
  next
    case (DLocVar name desc pos index)
    obtain t st1 where 1: "TypeItem_Set (im_store img) desc = Inr (t, st1)" "pools_grow (im_store img) st1" "type_at st1 t desc"
      "within (im_store img) (type_cost desc) st1" using step_type [OF st, of desc] assms(2,3) DLocVar by auto
    obtain n st2 where 2: "StringItem_Set st1 name = Inr (n, st2)" "pools_grow st1 st2" "string_at st2 n name"
      "within st1 (name_cost name) st2" using step_string [OF ext(2) [OF 1(2)]] by blast
    have "decl_at st2 (LocVarI (LocVarItem_New n t pos index)) d"
      using DLocVar 2(3) type_at_extends [OF 1(3) ext(1) [OF 2(2)]] by (simp add: LocVarItem_New_def)
    from steps_within [OF wt [OF 1(4) 2(4)] tr [OF 1(2) 2(2)] this assms(3), of img i img'] DLocVar 1(1) 2(1) assms(4)
    show ?thesis by (simp add: KImage_Add_LocVar_def)
  next
    case (DFunc name arg ret codes)
    obtain n st1 where 1: "StringItem_Set (im_store img) name = Inr (n, st1)" "pools_grow (im_store img) st1" "string_at st1 n name"
      "within (im_store img) (name_cost name) st1" using step_string [OF st] by blast
    obtain p st2 where 2: "ProtoItem_Set st1 arg ret = Inr (p, st2)" "pools_grow st1 st2" "proto_at st2 p arg ret"
      "within st1 (proto_cost arg ret) st2" using step_proto [OF ext(2) [OF 1(2)], of arg ret] assms(2,3) DFunc by auto
    obtain c st3 where 3: "codeitem_set st2 codes (int (length codes)) = Inr (c, st3)" "pools_grow st2 st3" "code_at st3 c codes"
      "within st2 (length codes + 4) st3" using step_code [OF ext(2) [OF 2(2)], of codes] assms(3) DFunc by auto
    have "decl_at st3 (FuncI (FuncItem_New n p c)) d"
      using DFunc 3(3) string_at_extends [OF 1(3) ext(1) [OF tr [OF 2(2) 3(2)]]] proto_at_extends [OF 2(3) ext(1) [OF 3(2)]]
      by (simp add: FuncItem_New_def)
    from steps_within [OF wt [OF wt [OF 1(4) 2(4)] 3(4)] tr [OF tr [OF 1(2) 2(2)] 3(2)] this assms(3), of img i img']
      DFunc 1(1) 2(1) 3(1) assms(4) show ?thesis by (simp add: KImage_Add_Func_def)
  next
    case (DClass name supers)
    obtain t st1 where 1: "TypeItem_Set (im_store img) (TD_Klass None name) = Inr (t, st1)" "pools_grow (im_store img) st1"
      "type_at st1 t (TD_Klass None name)" "within (im_store img) (klass_cost name) st1" using step_klass [OF st] by blast
    obtain l st2 where 2: "TypeListItem_Set st1 supers = Inr (l, st2)" "pools_grow st1 st2" "typelist_at st2 l supers"
      "within st1 (types_cost supers) st2" using step_typelist [OF ext(2) [OF 1(2)], of supers] assms(2,3) DClass by auto
    have "decl_at st2 (ClassI (ClassItem_New t l)) d"
      using DClass 2(3) type_at_extends [OF 1(3) ext(1) [OF 2(2)]] by (simp add: ClassItem_New_def)
    from steps_within [OF wt [OF 1(4) 2(4)] tr [OF 1(2) 2(2)] this assms(3), of img i img'] DClass 1(1) 2(1) assms(4)
    show ?thesis by (simp add: KImage_Add_Class_def)
  next
    case (DField clazz name desc)
    obtain t st1 where 1: "TypeItem_Set (im_store img) (TD_Klass None clazz) = Inr (t, st1)" "pools_grow (im_store img) st1"
      "type_at st1 t (TD_Klass None clazz)" "within (im_store img) (klass_cost clazz) st1" using step_klass [OF st] by blast
    obtain n st2 where 2: "StringItem_Set st1 name = Inr (n, st2)" "pools_grow st1 st2" "string_at st2 n name"
      "within st1 (name_cost name) st2" using step_string [OF ext(2) [OF 1(2)]] by blast
    obtain u st3 where 3: "TypeItem_Set st2 desc = Inr (u, st3)" "pools_grow st2 st3" "type_at st3 u desc"
      "within st2 (type_cost desc) st3" using step_type [OF ext(2) [OF 2(2)], of desc] assms(2,3) DField by auto
    have "decl_at st3 (FieldI (FieldItem_New t n u)) d"
      using DField 3(3) type_at_extends [OF 1(3) ext(1) [OF tr [OF 2(2) 3(2)]]] string_at_extends [OF 2(3) ext(1) [OF 3(2)]]
      by (simp add: FieldItem_New_def)
    from steps_within [OF wt [OF wt [OF 1(4) 2(4)] 3(4)] tr [OF tr [OF 1(2) 2(2)] 3(2)] this assms(3), of img i img']
      DField 1(1) 2(1) 3(1) assms(4) show ?thesis by (simp add: KImage_Add_Field_def)
  next
    case (DMethod klazz name arg ret codes)
    obtain t st1 where 1: "TypeItem_Set (im_store img) (TD_Klass None klazz) = Inr (t, st1)" "pools_grow (im_store img) st1"
      "type_at st1 t (TD_Klass None klazz)" "within (im_store img) (klass_cost klazz) st1" using step_klass [OF st] by blast
    obtain n st2 where 2: "StringItem_Set st1 name = Inr (n, st2)" "pools_grow st1 st2" "string_at st2 n name"
      "within st1 (name_cost name) st2" using step_string [OF ext(2) [OF 1(2)]] by blast
    obtain p st3 where 3: "ProtoItem_Set st2 arg ret = Inr (p, st3)" "pools_grow st2 st3" "proto_at st3 p arg ret"
      "within st2 (proto_cost arg ret) st3" using step_proto [OF ext(2) [OF 2(2)], of arg ret] assms(2,3) DMethod by auto
    obtain c st4 where 4: "codeitem_set st3 codes (int (length codes)) = Inr (c, st4)" "pools_grow st3 st4" "code_at st4 c codes"
      "within st3 (length codes + 4) st4" using step_code [OF ext(2) [OF 3(2)], of codes] assms(3) DMethod by auto
    have "decl_at st4 (MethodI (MethodItem_New t n p c)) d"
      using DMethod 4(3) type_at_extends [OF 1(3) ext(1) [OF tr [OF tr [OF 2(2) 3(2)] 4(2)]]]
        string_at_extends [OF 2(3) ext(1) [OF tr [OF 3(2) 4(2)]]] proto_at_extends [OF 3(3) ext(1) [OF 4(2)]]
      by (simp add: MethodItem_New_def)
    from steps_within [OF wt [OF wt [OF wt [OF 1(4) 2(4)] 3(4)] 4(4)] tr [OF tr [OF tr [OF 1(2) 2(2)] 3(2)] 4(2)] this assms(3),
        of img i img']
      DMethod 1(1) 2(1) 3(1) 4(1) assms(4) show ?thesis by (simp add: KImage_Add_Method_def)
  next
    case (DTrait name traits)
    obtain t st1 where 1: "TypeItem_Set (im_store img) (TD_Klass None name) = Inr (t, st1)" "pools_grow (im_store img) st1"
      "type_at st1 t (TD_Klass None name)" "within (im_store img) (klass_cost name) st1" using step_klass [OF st] by blast
    obtain l st2 where 2: "TypeListItem_Set st1 traits = Inr (l, st2)" "pools_grow st1 st2" "typelist_at st2 l traits"
      "within st1 (types_cost traits) st2" using step_typelist [OF ext(2) [OF 1(2)], of traits] assms(2,3) DTrait by auto
    have "decl_at st2 (TraitI (TraitItem_New t l)) d"
      using DTrait 2(3) type_at_extends [OF 1(3) ext(1) [OF 2(2)]] by (simp add: TraitItem_New_def)
    from steps_within [OF wt [OF 1(4) 2(4)] tr [OF 1(2) 2(2)] this assms(3), of img i img'] DTrait 1(1) 2(1) assms(4)
    show ?thesis by (simp add: KImage_Add_Trait_def)
  next
    case (DNFunc klazz name arg ret)
    obtain t st1 where 1: "(case klazz of None \<Rightarrow> Inr (-1, im_store img) | Some n \<Rightarrow> TypeItem_Set (im_store img) (TD_Klass None n)) = Inr (t, st1)"
      "pools_grow (im_store img) st1" "class_at st1 t klazz"
      "within (im_store img) (case klazz of None \<Rightarrow> 0 | Some n \<Rightarrow> klass_cost n) st1" using step_class [OF st] by blast
    obtain n st2 where 2: "StringItem_Set st1 name = Inr (n, st2)" "pools_grow st1 st2" "string_at st2 n name"
      "within st1 (name_cost name) st2" using step_string [OF ext(2) [OF 1(2)]] by blast
    obtain p st3 where 3: "ProtoItem_Set st2 arg ret = Inr (p, st3)" "pools_grow st2 st3" "proto_at st3 p arg ret"
      "within st2 (proto_cost arg ret) st3" using step_proto [OF ext(2) [OF 2(2)], of arg ret] assms(2,3) DNFunc by auto
    have "decl_at st3 (NFuncI (NFuncItem_New t n p)) d"
      using DNFunc 3(3) class_at_extends [OF 1(3) ext(1) [OF tr [OF 2(2) 3(2)]]] string_at_extends [OF 2(3) ext(1) [OF 3(2)]]
      by (simp add: NFuncItem_New_def)
    from steps_within [OF wt [OF wt [OF 1(4) 2(4)] 3(4)] tr [OF tr [OF 1(2) 2(2)] 3(2)] this assms(3), of img i img']
      DNFunc 1(1) 2(1) 3(1) assms(4) show ?thesis by (simp add: KImage_Add_NFunc_def)
  next
    case (DIMeth trait name arg ret)
    obtain t st1 where 1: "TypeItem_Set (im_store img) (TD_Klass None trait) = Inr (t, st1)" "pools_grow (im_store img) st1"
      "type_at st1 t (TD_Klass None trait)" "within (im_store img) (klass_cost trait) st1" using step_klass [OF st] by blast
    obtain n st2 where 2: "StringItem_Set st1 name = Inr (n, st2)" "pools_grow st1 st2" "string_at st2 n name"
      "within st1 (name_cost name) st2" using step_string [OF ext(2) [OF 1(2)]] by blast
    obtain p st3 where 3: "ProtoItem_Set st2 arg ret = Inr (p, st3)" "pools_grow st2 st3" "proto_at st3 p arg ret"
      "within st2 (proto_cost arg ret) st3" using step_proto [OF ext(2) [OF 2(2)], of arg ret] assms(2,3) DIMeth by auto
    have "decl_at st3 (IMethI (IMethItem_New t n p)) d"
      using DIMeth 3(3) type_at_extends [OF 1(3) ext(1) [OF tr [OF 2(2) 3(2)]]] string_at_extends [OF 2(3) ext(1) [OF 3(2)]]
      by (simp add: IMethItem_New_def)
    from steps_within [OF wt [OF wt [OF 1(4) 2(4)] 3(4)] tr [OF tr [OF 1(2) 2(2)] 3(2)] this assms(3), of img i img']
      DIMeth 1(1) 2(1) 3(1) assms(4) show ?thesis by (simp add: KImage_Add_IMeth_def)
  qed
qed

lemma KImage_Add_all_within:
  assumes "image_rel img ds" "\<forall>d \<in> set es. decl_plain d \<and> decl_fits d" "KImage_Add_all img es = Inr img'"
  shows "within (im_store img) (sum_list (map decl_cost es)) (im_store img')"
  using assms
proof (induction es arbitrary: img ds)
  case (Cons e es)
  obtain i img1 where 1: "KImage_Add img e = Inr (i, img1)" "image_rel img1 (ds @ [e])"
    using KImage_Add_rel [OF Cons.prems(1), of e] Cons.prems(2) by auto
  have "KImage_Add_all img1 es = Inr img'" using Cons.prems(3) 1(1) by simp
  from within_trans [OF KImage_Add_within [OF _ _ _ 1(1)] Cons.IH [OF 1(2) _ this]] Cons.prems(1,2)
  show ?case by (simp add: image_rel_def)
qed simp

lemma bytes_New: "bytes_of (im_store (KImage_New name)) = 0" "items_ok (im_store (KImage_New name))"
  by (simp_all add: bytes_of_def pool_bytes_def items_ok_def KImage_New_def items_New)

text \<open>An image built from declarations that fit, in less than 2 GiB, fits into a file.\<close>

definition decls_fit :: "Decl list \<Rightarrow> bool" where
  "decls_fit ds \<longleftrightarrow> list_all decl_plain ds \<and> list_all decl_fits ds \<and> sum_list (map decl_cost ds) + 276 < FILE_MAX"

lemma built_image:
  assumes "decls_fit ds"
  shows "\<exists>img. KImage_Add_all (KImage_New name) ds = Inr img \<and> image_rel img ds \<and> fits_file img"
proof -
  have ds: "\<forall>d \<in> set ds. decl_plain d \<and> decl_fits d" using assms by (auto simp: decls_fit_def list_all_iff)
  obtain img where img: "KImage_Add_all (KImage_New name) ds = Inr img" "image_rel img ds"
    "im_header img = im_header (KImage_New name)" "its (im_store img) ITEM_MAP = its (im_store (KImage_New name)) ITEM_MAP"
    using KImage_Add_all_rel [OF image_rel_New, of ds name] ds by auto
  from KImage_Add_all_within [OF image_rel_New ds img(1)] bytes_New assms
  have b: "items_ok (im_store img)" "bytes_of (im_store img) \<le> sum_list (map decl_cost ds)"
    by (auto simp: within_def decls_fit_def)
  have "int (file_bytes (im_store img)) < 2147483648"
    using b(2) assms unfolding file_bytes_def bytes_of_def [symmetric] by (simp add: decls_fit_def item_types FILE_MAX_def)
  with b(1) img(3,4) have "fits_file img" by (auto simp: fits_file_def KImage_New_def items_New item_types)
  with img(1,2) show ?thesis by blast
qed

end
