(* ===== verification/ImageProps.thy ===== *)
theory ImageProps
  imports ImageSize
begin

text \<open>
  The properties of images: what was declared can be written to a file and read back, items are
  shared, and where the source goes wrong.
\<close>

subsection \<open>Files\<close>

text \<open>Everything the getters give for an image, against the declarations it should hold.\<close>

definition image_reads :: "KImage \<Rightarrow> Decl list \<Rightarrow> DescTable \<Rightarrow> bool" where
  "image_reads img ds tbl \<longleftrightarrow> (\<exists>n vars tbl1 locvars tbl2 funcs tbl3 nfuncs tbl4.
     KImage_Get_Vars n img tbl = Inr (vars, tbl1) \<and> calls_match var_call vars (of_type ITEM_VAR ds) \<and>
     KImage_Get_LocVars n img tbl = Inr (locvars, tbl2) \<and> calls_match locvar_call locvars (of_type ITEM_LOCVAR ds) \<and>
     KImage_Get_Funcs n img tbl = Inr (funcs, tbl3) \<and> calls_match func_call funcs (of_type ITEM_FUNC ds) \<and>
     KImage_Get_NFuncs n img tbl = Inr (nfuncs, tbl4) \<and> calls_match func_call nfuncs (of_type ITEM_NFUNC ds))"

lemma image_rel_reads:
  assumes "image_rel img ds" "list_all decl_known ds" "desc_ok tbl"
  shows "image_reads img ds tbl"
proof -
  let ?n = "length (its (im_store img) ITEM_TYPE)"
  have known: "\<forall>d \<in> set ds. decl_known d" using assms(2) by (simp add: list_all_iff)
  have kind: "kind_rel decl_at ITEM_VAR img ds" "kind_rel decl_at ITEM_LOCVAR img ds" "kind_rel decl_at ITEM_FUNC img ds"
    "kind_rel decl_at ITEM_NFUNC img ds"
    using image_rel_kind [OF assms(1)] by (simp_all add: decl_types_def)
  note reads = Get_Vars_reads [OF kind(1) known assms(3) order_refl] Get_LocVars_reads [OF kind(2) known assms(3) order_refl]
    Get_Funcs_reads [OF kind(3) known assms(3) order_refl] Get_NFuncs_reads [OF kind(4) known assms(3) order_refl]
  show ?thesis
    unfolding image_reads_def by (rule exI [of _ ?n]) (use reads in blast)
qed

lemma item_value_id: "item_type it \<noteq> ITEM_CONST \<Longrightarrow> item_value it = it"
  by (cases it) (simp_all add: item_types)

lemma same_values:
  assumes "base_ok st" "base_ok st'" "map item_value (its st' ty) = map item_value (its st ty)"
    and "ty < ITEM_MAX" "ty \<noteq> ITEM_CONST"
  shows "its st' ty = its st ty"
proof -
  have "map item_value (its s ty) = its s ty" if "base_ok s" for s
    using base_ok_items_type [OF that assms(4)] assms(5) by (intro map_idI item_value_id) simp
  with assms(1-3) show ?thesis by metis
qed

text \<open>
  C2: saving and loading. Any list of declarations whose types have items of their own, whose code is
  not empty and whose size is below 2 GiB can be added to a new image; the image is finished and
  written, the size in its header is the size of the file, and reading the file gives the header and
  every declaration back: the loops over variables, local variables, functions and native functions
  call back with what was added, in order.
\<close>

theorem file_roundtrip:
  assumes "decls_fit ds" "list_all decl_known ds" "desc_ok tbl"
  shows "\<exists>img img1 fl img2. KImage_Add_all (KImage_New name) ds = Inr img \<and> KImage_Finish img = Inr img1 \<and>
    KImage_Write_File img1 = Inr fl \<and> int (length fl) = ih_file_size (im_header img1) \<and>
    KImage_Read_File (Some fl) 0 = Inr (Some img2) \<and> im_header img2 = im_header img1 \<and>
    image_rel img2 ds \<and> image_reads img2 ds tbl"
proof -
  obtain img where img: "KImage_Add_all (KImage_New name) ds = Inr img" "image_rel img ds" "fits_file img"
    using built_image [OF assms(1)] by blast
  have st: "store_ok (im_store img)" using img(2) by (simp add: image_rel_def)
  obtain img1 fl img2 where f: "KImage_Finish img = Inr img1" "KImage_Write_File img1 = Inr fl"
    "int (length fl) = ih_file_size (im_header img1)" "KImage_Read_File (Some fl) 0 = Inr (Some img2)"
    "im_header img2 = im_header img1" "base_ok (im_store img2)"
    "\<forall>ty. 0 < ty \<longrightarrow> ty < ITEM_MAX \<longrightarrow> map item_value (its (im_store img2) ty) = map item_value (its (im_store img) ty)"
    using roundtrip_pools [OF st img(3), of 0] by (auto simp: LOAD_def)
  have "same_refs (im_store img) (im_store img2)"
    unfolding same_refs_def using same_values [OF store_ok_base [OF st] f(6)] f(7) by blast
  with img(2) f(6) have "image_rel img2 ds"
    using same_image [of "im_store img" "im_store img2" "im_header img" ds "im_header img2"] by (cases img; cases img2) simp
  with img(1) f image_rel_reads [OF _ assms(2,3)] show ?thesis by blast
qed

definition sample_decls :: "Decl list" where
  "sample_decls = [DVar ''count'' (TD_Base (CHR ''i'')) 0, DFunc ''main'' [TD_Array 1 (TD_Base (CHR ''s''))] [] [1, 2, 3],
     DClass ''Point'' [TD_Klass (Some ''geo'') ''Shape''], DMethod ''Point'' ''x'' [] [TD_Base (CHR ''i'')] [7]]"

lemma sample_decls_fit: "decls_fit sample_decls" "list_all decl_known sample_decls"
  by (simp_all add: decls_fit_def sample_decls_def int32_range_def types_cost_def FILE_MAX_def get_basic_def basic_types_def)

theorem file_roundtrip_witness:
  "\<exists>img img1 fl img2. KImage_Add_all (KImage_New None) sample_decls = Inr img \<and> KImage_Finish img = Inr img1 \<and>
    KImage_Write_File img1 = Inr fl \<and> int (length fl) = ih_file_size (im_header img1) \<and>
    KImage_Read_File (Some fl) 0 = Inr (Some img2) \<and> im_header img2 = im_header img1 \<and>
    image_rel img2 sample_decls \<and> image_reads img2 sample_decls Map.empty"
  by (rule file_roundtrip [OF sample_decls_fit]) (simp add: desc_ok_def)

text \<open>
  The bits of \<open>unload\<close> choose what is loaded. Of the file of an image that was built from
  declarations, every pool whose bit is clear is read as it was written, constants apart from their
  addresses, and every pool whose bit is set stays empty; the map of the file is read in any case.
\<close>

theorem unload_pools:
  assumes "decls_fit ds" "KImage_Add_all (KImage_New name) ds = Inr img" "KImage_Finish img = Inr img1"
    "KImage_Write_File img1 = Inr fl"
  shows "\<exists>img2. KImage_Read_File (Some fl) unload = Inr (Some img2) \<and>
    its (im_store img2) ITEM_MAP = its (im_store img1) ITEM_MAP \<and>
    (\<forall>ty \<in> {1 ..< ITEM_MAX}. map item_value (its (im_store img2) ty) =
       (if bit unload ty then [] else map item_value (its (im_store img) ty)))"
proof -
  have "image_rel img ds" "fits_file img" using built_image [OF assms(1), of name] assms(2) by auto
  then have "store_ok (im_store img)" "fits_file img" by (simp_all add: image_rel_def)
  from roundtrip_pools [OF this, of unload] assms(3,4)
  obtain img2 where "KImage_Read_File (Some fl) unload = Inr (Some img2)"
    "its (im_store img2) ITEM_MAP = its (im_store img1) ITEM_MAP"
    "\<forall>ty. 0 < ty \<longrightarrow> ty < ITEM_MAX \<longrightarrow> map item_value (its (im_store img2) ty) =
       (if LOAD unload ty then map item_value (its (im_store img) ty) else [])" by fastforce
  then show ?thesis by (intro exI [of _ img2]) (simp add: LOAD_def)
qed

theorem unload_pools_witness:
  "\<exists>fl img2. KImage_Read_File (Some fl) (2 ^ ITEM_CODE) = Inr (Some img2) \<and> its (im_store img2) ITEM_CODE = []"
proof -
  obtain img img1 fl where "KImage_Add_all (KImage_New None) sample_decls = Inr img" "KImage_Finish img = Inr img1"
    "KImage_Write_File img1 = Inr fl"
    using built_image [OF sample_decls_fit(1)] roundtrip_pools by (metis image_rel_def)
  from unload_pools [OF sample_decls_fit(1) this, of "2 ^ ITEM_CODE"]
  obtain img2 where img2: "KImage_Read_File (Some fl) (2 ^ ITEM_CODE) = Inr (Some img2)"
    "\<And>ty. ty \<in> {1 ..< ITEM_MAX} \<Longrightarrow> map item_value (its (im_store img2) ty) =
       (if bit (2 ^ ITEM_CODE :: int) ty then [] else map item_value (its (im_store img) ty))" by blast
  have "ITEM_CODE \<in> {1 ..< ITEM_MAX}" "bit (2 ^ ITEM_CODE :: int) ITEM_CODE" by (simp_all add: item_types bit_exp_iff)
  with img2(2) [of ITEM_CODE] have "map item_value (its (im_store img2) ITEM_CODE) = []" by simp
  with img2(1) show ?thesis by blast
qed

text \<open>
  C39: what is not an image is rejected. Reading answers no image when the file cannot be opened, when it
  is shorter than a header and when it does not begin with the letters \<open>KLC\<close>; an image it does answer
  has exactly the header that the first 96 bytes hold.
\<close>

theorem Read_File_rejects:
  "(fl = None \<or> (\<exists>bs. fl = Some bs \<and> (length bs < 96 \<or> map char_of_byte (take 3 bs) \<noteq> ''KLC'')) \<longrightarrow>
      KImage_Read_File fl unload = Inr None) \<and>
   (KImage_Read_File fl unload = Inr (Some img) \<longrightarrow>
      (\<exists>bs. fl = Some bs \<and> 96 \<le> length bs \<and> map char_of_byte (take 3 bs) = ''KLC'' \<and> im_header img = read_header bs))"
proof -
  have chk: "header_check (read_header bs) < 0 \<longleftrightarrow> map char_of_byte (take 3 bs) \<noteq> ''KLC''" if "96 \<le> length bs" for bs
  proof -
    have "\<exists>a b c r. bs = a # b # c # r"
      using that by (auto simp: Suc_le_length_iff numeral_eq_Suc)
    then show ?thesis by (auto simp: header_check_def read_header_def Let_def)
  qed
  show ?thesis
  proof (cases fl)
    case (Some bs)
    show ?thesis
    proof (cases "96 \<le> length bs")
      case True
      with chk [OF True] Some show ?thesis
        by (auto simp: KImage_Read_File_def sizeof_ImageHeader_def Let_def split: if_splits)
    qed (use Some in \<open>auto simp: KImage_Read_File_def sizeof_ImageHeader_def\<close>)
  qed (simp add: KImage_Read_File_def)
qed

theorem Read_File_rejects_witness:
  "KImage_Read_File (Some (map byte_of_char ''#!/bin/sh'')) 0 = Inr None"
  using Read_File_rejects [of "Some (map byte_of_char ''#!/bin/sh'')" 0] by simp

text \<open>
  Code that is empty cannot be loaded. A code item is written as its length and its bytes; it is
  read back, whatever follows it in the file, unless it is empty: then the read of no bytes answers 0
  and the assertion after it stops the program.
\<close>

theorem codeitem_read_back:
  assumes "length codes < 2147483648"
  shows "read_codeitem (codeitem_write (CodeItem_New codes (int (length codes))) @ rest) =
    (if codes = [] then Inl Assert_Failed else Inr (CodeItem_New codes (int (length codes)), rest))"
proof (cases "codes = []")
  case True
  have "le_uint (le_bytes 4 0) = 0" by (simp add: le_uint_le_bytes)
  with True show ?thesis by (simp add: read_codeitem_def read_va_def codeitem_write_def CodeItem_New_def Let_def)
next
  case False
  then have "codeitem_ok (CodeItem_New codes (int (length codes)))"
    using assms by (simp add: codeitem_ok_def CodeItem_New_def int32_range_def)
  from code_codec.rd_wr [OF this] False show ?thesis by simp
qed

theorem codeitem_read_back_witness:
  "read_codeitem (codeitem_write (CodeItem_New [] 0)) = Inl Assert_Failed"
  using codeitem_read_back [of "[]" "[]"] by simp

subsection \<open>Items\<close>



lemma string_at_same: "string_at st i s \<Longrightarrow> string_at st i t \<Longrightarrow> cstr s = cstr t"
  by (auto simp: string_at_def)

lemma klass_text_same: "map_option cstr p = map_option cstr q \<Longrightarrow> cstr s = cstr t \<Longrightarrow> klass_text p s = klass_text q t"
  by (metis klass_text_cstr)

text \<open>The kind of an item and its two words decide the type.\<close>

lemmas type_item_defs = TypeItem_Primitive_New_def TypeItem_Klass_New_def TypeItem_Array_New_def TypeItem_Varg_New_def

lemma type_items_distinct:
  "TypeItem_Primitive_New c = TypeItem_Primitive_New d \<longleftrightarrow> c = d"
  "TypeItem_Klass_New p t = TypeItem_Klass_New q u \<longleftrightarrow> p = q \<and> t = u"
  "TypeItem_Array_New m i = TypeItem_Array_New n j \<longleftrightarrow> m = n \<and> i = j"
  "TypeItem_Varg_New i = TypeItem_Varg_New j \<longleftrightarrow> i = j"
  "TypeItem_Primitive_New c \<noteq> TypeItem_Klass_New q u" "TypeItem_Primitive_New c \<noteq> TypeItem_Array_New n j"
  "TypeItem_Primitive_New c \<noteq> TypeItem_Varg_New j" "TypeItem_Klass_New p t \<noteq> TypeItem_Array_New n j"
  "TypeItem_Klass_New p t \<noteq> TypeItem_Varg_New j" "TypeItem_Array_New m i \<noteq> TypeItem_Varg_New j"
  by (simp_all add: type_item_defs type_kinds)

lemmas type_items_differ = type_items_distinct type_items_distinct(5-10) [THEN not_sym]

lemma item_at_same: "item_at st i t \<Longrightarrow> item_at st i u \<longleftrightarrow> t = u"
  by (auto simp: item_at_def)

lemma type_at_desc: "type_at st i d \<Longrightarrow> type_at st i e \<Longrightarrow> td_desc d = td_desc e"
proof (induction d arbitrary: i e)
  case (TD_Base c)
  then have "item_at st i (TypeItem_Primitive_New c)" by (simp add: type_at.simps)
  from TD_Base(2) item_at_same [OF this] show ?case by (cases e) (simp_all add: type_at.simps type_items_differ)
next
  case (TD_Klass p t)
  then obtain pi ti where k: "item_at st i (TypeItem_Klass_New pi ti)" "string_at st ti t"
    "case p of None \<Rightarrow> pi = -1 | Some x \<Rightarrow> string_at st pi x" by (auto simp: type_at.simps)
  then obtain q s where e: "e = TD_Klass q s" "string_at st ti s" "case q of None \<Rightarrow> pi = -1 | Some x \<Rightarrow> string_at st pi x"
    using TD_Klass(2) item_at_same [OF k(1)] by (cases e) (auto simp: type_at.simps type_items_differ)
  have "map_option cstr p = map_option cstr q"
  proof (cases p)
    case (Some x)
    with k(3) have x: "string_at st pi x" by simp
    then have "0 \<le> pi" by (simp add: string_at_def)
    with e(3) obtain y where "q = Some y" "string_at st pi y" by (cases q) auto
    with Some string_at_same [OF x] show ?thesis by simp
  next
    case None
    with k(3) e(3) show ?thesis by (cases q) (auto simp: string_at_def)
  qed
  from klass_text_same [OF this string_at_same [OF k(2) e(2)]] e(1) show ?case by simp
next
  case (TD_Array n b)
  then obtain j where k: "item_at st i (TypeItem_Array_New n j)" "type_at st j b" by (auto simp: type_at.simps)
  then obtain c where "e = TD_Array n c" "type_at st j c"
    using TD_Array.prems(2) item_at_same [OF k(1)] by (cases e) (auto simp: type_at.simps type_items_differ)
  with TD_Array.IH [OF k(2)] show ?case by simp
next
  case (TD_Varg b)
  then obtain j where k: "item_at st i (TypeItem_Varg_New j)" "type_at st j b" by (auto simp: type_at.simps)
  then obtain c where "e = TD_Varg c" "type_at st j c"
    using TD_Varg.prems(2) item_at_same [OF k(1)] by (cases e) (auto simp: type_at.simps type_items_differ)
  with TD_Varg.IH [OF k(2)] show ?case by simp
qed (simp_all add: type_at.simps)



text \<open>
  Integer constants are pooled. In an image, two integer constants of 64 bits are given the same
  index exactly when they are the same number, wherever the key of the lookup lies on the stack.
\<close>

theorem KImage_Add_Integer_pooled:
  assumes "store_ok (im_store img)" "- (2 ^ 63) \<le> x" "x < 2 ^ 63" "- (2 ^ 63) \<le> y" "y < 2 ^ 63"
  shows "\<exists>i img1 j img2. KImage_Add_Integer k img x = Inr (i, img1) \<and> KImage_Add_Integer k' img1 y = Inr (j, img2) \<and>
    (i = j \<longleftrightarrow> x = y) \<and> (x = y \<longrightarrow> img2 = img1)"
proof -
  have pooled: "pooled_const (ConstItem_Int_New v)" for v
    by (simp add: pooled_const_def ConstItem_Int_New_def ConstItem_New_def)
  have same: "const_at st i (ConstItem_Int_New v) \<Longrightarrow> const_at st i (ConstItem_Int_New w) \<Longrightarrow> sint (word_of_int v :: uint64) = sint (word_of_int w :: uint64)" for st i v w
    by (auto simp: const_at_def constitem_equal_def ConstItem_Int_New_def ConstItem_New_def ci_ival_def split: if_splits)
  have s: "sint (word_of_int v :: uint64) = v" if "- (2 ^ 63) \<le> v" "v < 2 ^ 63" for v
    using that by (simp add: int_word_sint)
  obtain i st1 where 1: "const_set k (im_store img) (ConstItem_Int_New x) = Inr (i, st1)" "store_ok st1"
    "const_at st1 i (ConstItem_Int_New x)" using const_set_spec [OF assms(1) pooled] by blast
  obtain j st2 where 2: "const_set k' st1 (ConstItem_Int_New y) = Inr (j, st2)" "extends st1 st2"
    "const_at st2 j (ConstItem_Int_New y)" "(\<exists>j. const_at st1 j (ConstItem_Int_New y)) \<Longrightarrow> st2 = st1"
    using const_set_spec [OF 1(2) pooled, of k' y] by metis
  have "i = j \<Longrightarrow> x = y" using same [of st2 i x y] const_at_extends [OF 1(3) 2(2)] 2(3) s assms(2-5) by simp
  moreover have "i = j \<and> st2 = st1" if "x = y"
    using const_at_Get [OF store_ok_base [OF 1(2)] pooled] 2(3,4) 1(3) that by metis
  ultimately show ?thesis using 1(1) 2(1) by (auto simp: KImage_Add_Integer_def KImage_Add_Const_def)
qed

theorem KImage_Add_Integer_pooled_witness:
  "\<exists>i img1 j img2. KImage_Add_Integer 100 (KImage_New None) 7 = Inr (i, img1) \<and>
    KImage_Add_Integer 200 img1 (-7) = Inr (j, img2) \<and> i \<noteq> j"
proof -
  have "store_ok (im_store (KImage_New None))" using store_ok_New by (simp add: KImage_New_def)
  from KImage_Add_Integer_pooled [OF this, of 7 "-7" 100 200] show ?thesis by auto
qed

text \<open>
  Prototypes inside types are looked up wrongly. When a type is not in the image, a list that
  begins with it is looked up as if it were the empty list, so a prototype that takes or returns it is
  taken for the prototype without arguments or results: if that one is in the image already, adding
  the other gives its index and adds nothing.
\<close>

theorem nested_prototype_confused:
  assumes "TypeItem_Get (is_table st) d = Inr i" "i < 0"
  shows "TypeItem_Get (is_table st) (TD_Proto (d # arg) ret) = TypeItem_Get (is_table st) (TD_Proto [] ret) \<and>
    TypeItem_Get (is_table st) (TD_Proto arg (d # ret)) = TypeItem_Get (is_table st) (TD_Proto arg []) \<and>
    (\<forall>j \<ge> 0. TypeItem_Get (is_table st) (TD_Proto [] ret) = Inr j \<longrightarrow> TypeItem_Set st (TD_Proto (d # arg) ret) = Inr (j, st))"
  using assms by (auto simp: TypeItem_Get.simps TypeItem_Set.simps typelist_get_def)

theorem nested_prototype_confused_witness:
  "TypeItem_Get (is_table ItemStore_New) (TD_Proto [TD_Base (CHR ''i'')] []) =
   TypeItem_Get (is_table ItemStore_New) (TD_Proto [] [])"
proof -
  obtain i where "TypeItem_Get (is_table ItemStore_New) (TD_Base (CHR ''i'')) = Inr i"
    "i = -1 \<or> type_at ItemStore_New i (TD_Base (CHR ''i''))"
    using TypeItem_Get_spec [OF _ store_ok_New, of "TD_Base (CHR ''i'')"] by auto
  then have "TypeItem_Get (is_table ItemStore_New) (TD_Base (CHR ''i'')) = Inr i" "i < 0"
    using type_at_range [of ItemStore_New i "TD_Base (CHR ''i'')"] items_New [of ITEM_TYPE] by auto
  from nested_prototype_confused [OF this, of "[]" "[]"] show ?thesis by simp
qed



end
