(* ===== verification/CodeGen.thy ===== *)
theory CodeGen
  imports ImageProps Buffer
begin

text \<open>
  The byte code of functions: the instructions and their blocks (\<^verbatim>\<open>src/src/codegen.c\<close>,
  \<^verbatim>\<open>src/include/codegen.h\<close>), the table of the opcodes (\<^verbatim>\<open>src/src/opcode.c\<close>,
  \<^verbatim>\<open>src/include/opcode.h\<close>), and the generation of raw code, which puts constants into the image. The
  list of a block is the list of its instructions, what \<open>CList\<close> shows of the linked list.
\<close>

subsection \<open>Opcodes\<close>

definition POP_TOP :: uint8 where "POP_TOP = 1"
definition POP_TOPN :: uint8 where "POP_TOPN = 2"
definition DUP :: uint8 where "DUP = 3"
definition PUSH_BYTE :: uint8 where "PUSH_BYTE = 4"
definition PUSH_SHORT :: uint8 where "PUSH_SHORT = 5"
definition LOAD_CONST :: uint8 where "LOAD_CONST = 10"
definition LOAD_PKG :: uint8 where "LOAD_PKG = 11"
definition LOAD_op :: uint8 where "LOAD_op = 12"
definition LOAD_0 :: uint8 where "LOAD_0 = 13"
definition STORE :: uint8 where "STORE = 17"
definition LOAD_FIELD :: uint8 where "LOAD_FIELD = 22"
definition STORE_FIELD :: uint8 where "STORE_FIELD = 23"
definition CALL :: uint8 where "CALL = 24"
definition RETURN :: uint8 where "RETURN = 25"
definition ADD :: uint8 where "ADD = 40"
definition SUB :: uint8 where "SUB = 41"
definition MUL :: uint8 where "MUL = 42"
definition DIV :: uint8 where "DIV = 43"
definition MOD :: uint8 where "MOD = 44"
definition NEG :: uint8 where "NEG = 46"
definition GT :: uint8 where "GT = 47"
definition GE :: uint8 where "GE = 48"
definition LT :: uint8 where "LT = 49"
definition LE :: uint8 where "LE = 50"
definition EQ :: uint8 where "EQ = 51"
definition NEQ :: uint8 where "NEQ = 52"
definition JMP :: uint8 where "JMP = 70"
definition JMP_TRUE :: uint8 where "JMP_TRUE = 71"
definition JMP_FALSE :: uint8 where "JMP_FALSE = 72"
definition NEW :: uint8 where "NEW = 90"
definition NEW_ARRAY :: uint8 where "NEW_ARRAY = 91"

lemmas opcode_defs = POP_TOP_def POP_TOPN_def DUP_def PUSH_BYTE_def PUSH_SHORT_def LOAD_CONST_def LOAD_PKG_def
  LOAD_op_def LOAD_0_def STORE_def LOAD_FIELD_def STORE_FIELD_def CALL_def RETURN_def ADD_def SUB_def MUL_def DIV_def
  MOD_def NEG_def GT_def GE_def LT_def LE_def EQ_def NEQ_def JMP_def JMP_TRUE_def JMP_FALSE_def NEW_def NEW_ARRAY_def

text \<open>The table: opcode and size of its arguments, in the order of the source.\<close>

definition opcodes :: "(nat \<times> int) list" where
  "opcodes =
     [(1, 0), (2, 1), (3, 0), (4, 1), (5, 2), (10, 2), (11, 2), (12, 1), (13, 0), (14, 0), (15, 0), (16, 0), (17, 1),
      (18, 0), (19, 0), (20, 0), (21, 0), (22, 2), (23, 2), (24, 3), (25, 0)] @
     map (\<lambda>op. (op, 0)) ([40, 41, 42, 43, 44, 45, 46] @ [47, 48, 49, 50, 51, 52] @ [53, 54, 55] @
       [56, 57, 58, 59, 60, 61] @ [70, 71, 72, 73, 74, 75, 76, 77, 78, 79, 80] @ [90, 91, 92, 93, 94, 95, 96, 97, 98])"

text \<open>The table is indexed with the opcode, although it is not laid out by opcodes.\<close>

definition OpCode_ArgCount :: "uint8 \<Rightarrow> int run" where
  "OpCode_ArgCount op = (if unat op < length opcodes then Inr (snd (opcodes ! unat op)) else Inl Out_Of_Bounds)"

subsection \<open>Instructions and blocks\<close>

definition BASE_CHAR :: char where "BASE_CHAR = CHR ''c''"
definition BASE_INT :: char where "BASE_INT = CHR ''i''"
definition BASE_FLOAT :: char where "BASE_FLOAT = CHR ''f''"
definition BASE_BOOL :: char where "BASE_BOOL = CHR ''z''"
definition BASE_STRING :: char where "BASE_STRING = CHR ''s''"

lemmas base_defs = BASE_CHAR_def BASE_INT_def BASE_FLOAT_def BASE_BOOL_def BASE_STRING_def

text \<open>A constant: the union holds 64 bits, or a pointer to characters.\<close>

record ConstValue =
  cv_kind :: char
  cv_raw :: uint64
  cv_str :: "string option"

definition no_const :: ConstValue where
  "no_const = \<lparr>cv_kind = NUL, cv_raw = 0, cv_str = None\<rparr>"

definition cv_ival :: "ConstValue \<Rightarrow> int" where "cv_ival v = sint (cv_raw v)"

record Inst =
  in_bytes :: int
  in_argc :: int
  in_op :: uint8
  in_arg :: ConstValue
  in_upbytes :: int

datatype CodeBlock = CodeBlock (cb_bytes: int) (cb_insts: "Inst list") (cb_next: "CodeBlock option") (cb_ret: int)

definition inst_new :: "uint8 \<Rightarrow> ConstValue option \<Rightarrow> Inst run" where
  "inst_new op val = bind_run (OpCode_ArgCount op) (\<lambda>n.
     Inr \<lparr>in_bytes = 1 + n, in_argc = 0, in_op = op, in_arg = (case val of None \<Rightarrow> no_const | Some v \<Rightarrow> v),
          in_upbytes = 0\<rparr>)"

definition CodeBlock_New :: CodeBlock where
  "CodeBlock_New = CodeBlock 0 [] None 0"

fun Inst_Append :: "CodeBlock \<Rightarrow> uint8 \<Rightarrow> ConstValue option \<Rightarrow> CodeBlock run" where
  "Inst_Append (CodeBlock bytes insts next ret) op val =
     bind_run (inst_new op val) (\<lambda>i.
       let bytes1 = bytes + in_bytes i in
       Inr (CodeBlock bytes1 (insts @ [i\<lparr>in_upbytes := bytes1\<rparr>]) next ret))"

definition Inst_Append_NoArg :: "CodeBlock \<Rightarrow> uint8 \<Rightarrow> CodeBlock run" where
  "Inst_Append_NoArg b op = Inst_Append b op None"

text \<open>The macros of the parser.\<close>

definition int_const :: "int \<Rightarrow> ConstValue" where
  "int_const n = \<lparr>cv_kind = BASE_INT, cv_raw = word_of_int n, cv_str = None\<rparr>"

definition str_const :: "string \<Rightarrow> ConstValue" where
  "str_const s = \<lparr>cv_kind = BASE_STRING, cv_raw = 0, cv_str = Some s\<rparr>"

definition CODE_LOAD :: "CodeBlock \<Rightarrow> int \<Rightarrow> CodeBlock run" where
  "CODE_LOAD b index = Inst_Append b LOAD_op (Some (int_const index))"

definition CODE_STORE :: "CodeBlock \<Rightarrow> int \<Rightarrow> CodeBlock run" where
  "CODE_STORE b index = Inst_Append b STORE (Some (int_const index))"

definition CODE_LOAD_FIELD :: "CodeBlock \<Rightarrow> string \<Rightarrow> CodeBlock run" where
  "CODE_LOAD_FIELD b name = bind_run (Inst_Append_NoArg b LOAD_0) (\<lambda>b1. Inst_Append b1 LOAD_FIELD (Some (str_const name)))"

definition CODE_STORE_FIELD :: "CodeBlock \<Rightarrow> string \<Rightarrow> CodeBlock run" where
  "CODE_STORE_FIELD b name = bind_run (Inst_Append_NoArg b LOAD_0) (\<lambda>b1. Inst_Append b1 STORE_FIELD (Some (str_const name)))"

fun set_last_argc :: "CodeBlock \<Rightarrow> int \<Rightarrow> CodeBlock" where
  "set_last_argc (CodeBlock bytes insts next ret) argc =
     CodeBlock bytes (butlast insts @ [(last insts)\<lparr>in_argc := argc\<rparr>]) next ret"

definition CODE_CALL :: "CodeBlock \<Rightarrow> string \<Rightarrow> int \<Rightarrow> CodeBlock run" where
  "CODE_CALL b name argc =
     bind_run (Inst_Append_NoArg b LOAD_0) (\<lambda>b1.
     bind_run (Inst_Append b1 CALL (Some (str_const name))) (\<lambda>b2. Inr (set_last_argc b2 argc)))"

text \<open>
  \<open>CodeBlock_Merge\<close>: the loop over the instructions of one block, with the bytes left in it, and
  the loop over the blocks after it.
\<close>

fun move_insts :: "Inst list \<Rightarrow> int \<Rightarrow> Inst list \<Rightarrow> int \<Rightarrow> int \<times> Inst list \<times> int" where
  "move_insts [] from_bytes insts to_bytes = (from_bytes, insts, to_bytes)"
| "move_insts (i # is) from_bytes insts to_bytes =
     (let to_bytes1 = to_bytes + in_bytes i in
      move_insts is (from_bytes - in_bytes i) (insts @ [i\<lparr>in_upbytes := to_bytes1\<rparr>]) to_bytes1)"

fun merge_chain :: "CodeBlock option \<Rightarrow> Inst list \<Rightarrow> int \<Rightarrow> (CodeBlock option \<times> Inst list \<times> int) run" where
  "merge_chain None insts bytes = Inr (None, insts, bytes)"
| "merge_chain (Some (CodeBlock b is next ret)) insts bytes =
     (case move_insts is b insts bytes of (b1, insts1, bytes1) \<Rightarrow>
        if b1 \<noteq> 0 then Inl Assert_Failed
        else bind_run (merge_chain next insts1 bytes1) (\<lambda>(next1, insts2, bytes2).
          Inr (Some (CodeBlock b1 [] next1 ret), insts2, bytes2)))"

text \<open>Answers the emptied block and the block it was merged into.\<close>

definition CodeBlock_Merge :: "CodeBlock \<Rightarrow> CodeBlock \<Rightarrow> (CodeBlock \<times> CodeBlock) run" where
  "CodeBlock_Merge fro to =
     bind_run (merge_chain (Some fro) (cb_insts to) (cb_bytes to)) (\<lambda>(fro1, insts, bytes).
       Inr (the fro1, CodeBlock bytes insts (cb_next to) (cb_ret to)))"

subsection \<open>Raw code\<close>

definition add_value :: "addr \<Rightarrow> KImage \<Rightarrow> ConstValue \<Rightarrow> (int \<times> KImage) run" where
  "add_value k img val = (
     if cv_kind val = BASE_INT then KImage_Add_Integer k img (cv_ival val)
     else if cv_kind val = BASE_FLOAT then KImage_Add_Float k img (cv_raw val)
     else if cv_kind val = BASE_BOOL then KImage_Add_Bool k img (sint (ucast (cv_raw val) :: uint32))
     else if cv_kind val = BASE_STRING then
       (case cv_str val of None \<Rightarrow> Inl Null_Deref | Some s \<Rightarrow> KImage_Add_String k img s)
     else if cv_kind val = BASE_CHAR then KImage_Add_UChar k img (ucast (cv_raw val))
     else Inl Assert_Failed)"

definition add_name :: "addr \<Rightarrow> KImage \<Rightarrow> ConstValue \<Rightarrow> (int \<times> KImage) run" where
  "add_name k img val = (case cv_str val of None \<Rightarrow> Inl Null_Deref | Some s \<Rightarrow> KImage_Add_String k img s)"

text \<open>\<open>k\<close> is the address of the keys the image functions build on the stack.\<close>

definition inst_gen :: "addr \<Rightarrow> KImage \<Rightarrow> Buffer \<Rightarrow> Inst \<Rightarrow> (KImage \<times> Buffer) run option" where
  "inst_gen k img buf i = then_do (Buffer_Write_Byte buf (uint (in_op i))) (\<lambda>buf1.
     let op = in_op i;
         with_index = (\<lambda>r rest. then_do (Some r) (\<lambda>(index, img1).
           then_do (rest index) (\<lambda>buf2. Some (Inr (img1, buf2)))));
         plain = (\<lambda>w. then_do w (\<lambda>buf2. Some (Inr (img, buf2)))) in
     if op = LOAD_CONST then with_index (add_value k img (in_arg i)) (Buffer_Write_2Bytes buf1)
     else if op = LOAD_PKG then with_index (add_name k img (in_arg i)) (Buffer_Write_2Bytes buf1)
     else if op = LOAD_op then plain (Buffer_Write_Byte buf1 (cv_ival (in_arg i)))
     else if op = STORE then plain (Buffer_Write_Byte buf1 (cv_ival (in_arg i)))
     else if op = LOAD_FIELD then with_index (add_name k img (in_arg i)) (Buffer_Write_2Bytes buf1)
     else if op = STORE_FIELD then with_index (add_name k img (in_arg i)) (Buffer_Write_2Bytes buf1)
     else if op = CALL \<or> op = NEW then
       with_index (add_name k img (in_arg i)) (\<lambda>index.
         then_do (Buffer_Write_4Bytes buf1 index) (\<lambda>b. Buffer_Write_2Bytes b (in_argc i)))
     else if op \<in> {RETURN, ADD, SUB, MUL, DIV, MOD, GT, GE, LT, LE, EQ, NEQ, NEG} then Some (Inr (img, buf1))
     else if op \<in> {JMP, JMP_TRUE, JMP_FALSE} then plain (Buffer_Write_2Bytes buf1 (cv_ival (in_arg i)))
     else if op = NEW_ARRAY then plain (Buffer_Write_4Bytes buf1 (cv_ival (in_arg i)))
     else Some (Inl Assert_Failed))"

fun gen_insts :: "addr \<Rightarrow> KImage \<Rightarrow> Buffer \<Rightarrow> Inst list \<Rightarrow> (KImage \<times> Buffer) run option" where
  "gen_insts k img buf [] = Some (Inr (img, buf))"
| "gen_insts k img buf (i # is) =
     then_do (inst_gen k img buf i) (\<lambda>(img1, buf1). gen_insts k img1 buf1 is)"

text \<open>The size, the code, which the callers leave at null for a null block, and the image.\<close>

definition CodeBlock_To_RawCode ::
  "addr \<Rightarrow> KImage \<Rightarrow> CodeBlock option \<Rightarrow> (int \<times> uint8 list option \<times> KImage) run option" where
  "CodeBlock_To_RawCode k img block = (case block of None \<Rightarrow> Some (Inr (0, None, img))
     | Some b \<Rightarrow> then_do (gen_insts k img (Buffer_Init 32) (cb_insts b)) (\<lambda>(img1, buf).
         Some (Inr (Buffer_Size buf, Some (Buffer_RawData buf), img1))))"

subsection \<open>What is generated\<close>

text \<open>The instructions \<open>inst_gen\<close> has a case for; constants whose lookup is by value.\<close>

definition plain_ops :: "uint8 set" where
  "plain_ops = {RETURN, ADD, SUB, MUL, DIV, MOD, GT, GE, LT, LE, EQ, NEQ, NEG}"

definition value_ok :: "ConstValue \<Rightarrow> bool" where
  "value_ok v \<longleftrightarrow> cv_kind v = BASE_INT \<or> cv_kind v = BASE_CHAR \<or> cv_kind v = BASE_STRING \<and> cv_str v \<noteq> None"

definition supported :: "Inst \<Rightarrow> bool" where
  "supported i \<longleftrightarrow> (in_op i = LOAD_CONST \<and> value_ok (in_arg i)) \<or>
     (in_op i \<in> {LOAD_PKG, LOAD_FIELD, STORE_FIELD, CALL, NEW} \<and> cv_str (in_arg i) \<noteq> None) \<or>
     in_op i \<in> {LOAD_op, STORE, JMP, JMP_TRUE, JMP_FALSE, NEW_ARRAY} \<or> in_op i \<in> plain_ops"

text \<open>The constant pool holds a value, or a name, at an index.\<close>

definition name_at :: "ItemStore \<Rightarrow> int \<Rightarrow> string \<Rightarrow> bool" where
  "name_at st ix s \<longleftrightarrow> (\<exists>j. string_at st j s \<and> const_at st ix (ConstItem_String_New j))"

definition value_at :: "ItemStore \<Rightarrow> int \<Rightarrow> ConstValue \<Rightarrow> bool" where
  "value_at st ix v \<longleftrightarrow>
     (if cv_kind v = BASE_INT then const_at st ix (ConstItem_Int_New (cv_ival v))
      else if cv_kind v = BASE_CHAR then const_at st ix (ConstItem_UChar_New (ucast (cv_raw v)))
      else name_at st ix (the (cv_str v)))"

text \<open>The bytes of an instruction: the opcode and its operands.\<close>

definition inst_code :: "ItemStore \<Rightarrow> Inst \<Rightarrow> uint8 list \<Rightarrow> bool" where
  "inst_code st i bs \<longleftrightarrow> (\<exists>args. bs = in_op i # args \<and>
     (if in_op i = LOAD_CONST then \<exists>ix. args = le_bytes 2 ix \<and> value_at st ix (in_arg i)
      else if in_op i \<in> {LOAD_PKG, LOAD_FIELD, STORE_FIELD} then \<exists>ix. args = le_bytes 2 ix \<and> name_at st ix (the (cv_str (in_arg i)))
      else if in_op i \<in> {CALL, NEW} then
        \<exists>ix. args = le_bytes 4 ix @ le_bytes 2 (in_argc i) \<and> name_at st ix (the (cv_str (in_arg i)))
      else if in_op i \<in> {LOAD_op, STORE} then args = le_bytes 1 (cv_ival (in_arg i))
      else if in_op i \<in> {JMP, JMP_TRUE, JMP_FALSE} then args = le_bytes 2 (cv_ival (in_arg i))
      else if in_op i = NEW_ARRAY then args = le_bytes 4 (cv_ival (in_arg i))
      else args = []))"

lemma name_at_extends: "name_at st ix s \<Longrightarrow> extends st st' \<Longrightarrow> name_at st' ix s"
  unfolding name_at_def using string_at_extends const_at_extends by blast

lemma value_at_extends: "value_at st ix v \<Longrightarrow> extends st st' \<Longrightarrow> value_at st' ix v"
  by (auto simp: value_at_def intro: name_at_extends const_at_extends split: if_splits)

lemma inst_code_extends:
  assumes "inst_code st i bs" "extends st st'"
  shows "inst_code st' i bs"
proof -
  obtain args where args: "bs = in_op i # args"
    "if in_op i = LOAD_CONST then \<exists>ix. args = le_bytes 2 ix \<and> value_at st ix (in_arg i)
      else if in_op i \<in> {LOAD_PKG, LOAD_FIELD, STORE_FIELD} then \<exists>ix. args = le_bytes 2 ix \<and> name_at st ix (the (cv_str (in_arg i)))
      else if in_op i \<in> {CALL, NEW} then
        \<exists>ix. args = le_bytes 4 ix @ le_bytes 2 (in_argc i) \<and> name_at st ix (the (cv_str (in_arg i)))
      else if in_op i \<in> {LOAD_op, STORE} then args = le_bytes 1 (cv_ival (in_arg i))
      else if in_op i \<in> {JMP, JMP_TRUE, JMP_FALSE} then args = le_bytes 2 (cv_ival (in_arg i))
      else if in_op i = NEW_ARRAY then args = le_bytes 4 (cv_ival (in_arg i))
      else args = []" using assms(1) unfolding inst_code_def by blast
  have v: "value_at st ix v \<Longrightarrow> value_at st' ix v" and n: "name_at st ix s \<Longrightarrow> name_at st' ix s" for ix v s
    using value_at_extends name_at_extends assms(2) by blast+
  consider "in_op i = LOAD_CONST" | "in_op i \<noteq> LOAD_CONST" "in_op i \<in> {LOAD_PKG, LOAD_FIELD, STORE_FIELD}"
    | "in_op i \<noteq> LOAD_CONST" "in_op i \<notin> {LOAD_PKG, LOAD_FIELD, STORE_FIELD}" "in_op i \<in> {CALL, NEW}"
    | "in_op i \<noteq> LOAD_CONST" "in_op i \<notin> {LOAD_PKG, LOAD_FIELD, STORE_FIELD}" "in_op i \<notin> {CALL, NEW}" by blast
  then show ?thesis
  proof cases
    case 1
    with args show ?thesis unfolding inst_code_def using v by auto
  next
    case 2
    with args obtain ix where "args = le_bytes 2 ix" "name_at st ix (the (cv_str (in_arg i)))" by (simp only: if_False if_True) blast
    with 2 args(1) n show ?thesis unfolding inst_code_def by (simp only: if_False if_True) blast
  next
    case 3
    with args obtain ix where "args = le_bytes 4 ix @ le_bytes 2 (in_argc i)" "name_at st ix (the (cv_str (in_arg i)))"
      by (simp only: if_False if_True) blast
    with 3 args(1) n show ?thesis unfolding inst_code_def by (simp only: if_False if_True) blast
  next
    case 4
    with args show ?thesis unfolding inst_code_def by (simp only: if_False) blast
  qed
qed

subsection \<open>Constants\<close>

text \<open>Adding constants leaves the declarations alone and grows the image by little.\<close>

definition img_grow :: "KImage \<Rightarrow> nat \<Rightarrow> KImage \<Rightarrow> bool" where
  "img_grow img c img' \<longleftrightarrow> im_header img' = im_header img \<and> pools_grow (im_store img) (im_store img') \<and>
     within (im_store img) c (im_store img')"

lemma image_rel_grow:
  assumes "image_rel img ds" "pools_grow (im_store img) (im_store img')"
  shows "image_rel img' ds"
proof -
  have ex: "extends (im_store img) (im_store img')" using assms(2) by (simp add: pools_grow_def)
  have "list_all2 (decl_at (im_store img')) xs ys" if "list_all2 (decl_at (im_store img)) xs ys" for xs ys
    using that by (rule list_all2_mono) (rule decl_at_extends [OF _ ex])
  with assms show ?thesis by (simp add: image_rel_def pools_grow_def)
qed

lemma img_grow_trans: "img_grow a m b \<Longrightarrow> img_grow b n c \<Longrightarrow> img_grow a (m + n) c"
  using pools_grow_trans within_trans by (auto simp: img_grow_def)

lemma img_grow_refl: "store_ok (im_store img) \<Longrightarrow> img_grow img 0 img"
  by (simp add: img_grow_def pools_grow_refl)

lemma img_grow_less: "img_grow img m img' \<Longrightarrow> m \<le> n \<Longrightarrow> img_grow img n img'"
  using within_trans' [of "im_store img" m "im_store img'" 0 "im_store img'" n] by (simp add: img_grow_def)

lemma img_grow_ext:
  "img_grow img n img' \<Longrightarrow> extends (im_store img) (im_store img')" "img_grow img n img' \<Longrightarrow> store_ok (im_store img')"
  by (simp_all add: img_grow_def pools_grow_def)

lemma Add_Const_spec:
  assumes "store_ok (im_store img)" "pooled_const c" "int32_range (ci_type c)"
  shows "\<exists>ix img'. KImage_Add_Const k img c = Inr (ix, img') \<and> const_at (im_store img') ix c \<and> img_grow img 16 img'"
proof -
  obtain ix st' where 1: "const_set k (im_store img) c = Inr (ix, st')" "store_ok st'" "extends (im_store img) st'"
    "const_at st' ix c" "\<forall>ty. ty \<noteq> ITEM_CONST \<longrightarrow> its st' ty = its (im_store img) ty"
    using const_set_spec [OF assms(1,2)] by blast
  have "within (im_store img) 16 st'"
  proof (cases "ConstItem_Get (is_table (im_store img)) (c\<lparr>ci_addr := k\<rparr>) < 0")
    case True
    with 1(1) have "append_item (im_store img) ITEM_CONST (ConstI c) True = Inr (ix, st')" by (simp add: const_set_def)
    from append_within [OF store_ok_base [OF assms(1)] _ _ this, of 16] assms(3)
    show ?thesis by (simp add: item_types constitem_ok_def constitem_write_def)
  next
    case False
    with 1(1) show ?thesis by (simp add: const_set_def)
  qed
  with 1 show ?thesis
    by (auto simp: KImage_Add_Const_def img_grow_def pools_grow_def decl_types_def item_types)
qed

lemma Add_String_spec:
  assumes "store_ok (im_store img)"
  shows "\<exists>ix img'. KImage_Add_String k img s = Inr (ix, img') \<and> name_at (im_store img') ix s \<and>
    img_grow img (length s + 21) img'"
proof -
  obtain j st where 1: "StringItem_Set (im_store img) s = Inr (j, st)" "pools_grow (im_store img) st" "string_at st j s"
    "within (im_store img) (length s + 5) st" using step_string [OF assms] by blast
  have j: "0 \<le> j" using 1(3) by (simp add: string_at_def)
  let ?c = "ConstItem_String_New j"
  have c: "pooled_const ?c" "int32_range (ci_type ?c)"
    by (simp_all add: pooled_const_def ConstItem_String_New_def ConstItem_New_def CONST_STRING_def int32_range_def)
  obtain ix img' where 2: "KImage_Add_Const k (img\<lparr>im_store := st\<rparr>) ?c = Inr (ix, img')" "const_at (im_store img') ix ?c"
    "img_grow (img\<lparr>im_store := st\<rparr>) 16 img'"
    using Add_Const_spec [of "img\<lparr>im_store := st\<rparr>" ?c k] c 1(2) by (auto simp: pools_grow_def)
  have "img_grow img (length s + 5) (img\<lparr>im_store := st\<rparr>)" using 1(2,4) by (simp add: img_grow_def)
  from img_grow_less [OF img_grow_trans [OF this 2(3)]] have g: "img_grow img (length s + 21) img'" by simp
  have "string_at (im_store img') j s" using string_at_extends [OF 1(3)] img_grow_ext(1) [OF 2(3)] by simp
  with 2(2) have "name_at (im_store img') ix s" by (auto simp: name_at_def)
  with g 1(1) 2(1) j show ?thesis by (simp add: KImage_Add_String_def)
qed

definition inst_cost :: "Inst \<Rightarrow> nat" where
  "inst_cost i = (case cv_str (in_arg i) of None \<Rightarrow> 0 | Some s \<Rightarrow> length s) + 21"

lemma add_name_spec:
  assumes "store_ok (im_store img)" "cv_str (in_arg i) \<noteq> None"
  shows "\<exists>ix img'. add_name k img (in_arg i) = Inr (ix, img') \<and> name_at (im_store img') ix (the (cv_str (in_arg i))) \<and>
    img_grow img (inst_cost i) img'"
proof -
  obtain s where s: "cv_str (in_arg i) = Some s" using assms(2) by blast
  then have "inst_cost i = length s + 21" by (simp add: inst_cost_def)
  with Add_String_spec [OF assms(1), of k s] s show ?thesis by (auto simp: add_name_def)
qed

lemma add_value_spec:
  assumes "store_ok (im_store img)" "value_ok (in_arg i)"
  shows "\<exists>ix img'. add_value k img (in_arg i) = Inr (ix, img') \<and> value_at (im_store img') ix (in_arg i) \<and>
    img_grow img (inst_cost i) img'"
proof -
  consider "cv_kind (in_arg i) = BASE_INT" | "cv_kind (in_arg i) = BASE_CHAR"
    | s where "cv_kind (in_arg i) = BASE_STRING" "cv_str (in_arg i) = Some s"
    using assms(2) by (auto simp: value_ok_def)
  then show ?thesis
  proof cases
    case 1
    obtain ix img' where "KImage_Add_Integer k img (cv_ival (in_arg i)) = Inr (ix, img')"
      "const_at (im_store img') ix (ConstItem_Int_New (cv_ival (in_arg i)))" "img_grow img 16 img'"
      using Add_Const_spec [OF assms(1), of "ConstItem_Int_New (cv_ival (in_arg i))" k]
      by (auto simp: KImage_Add_Integer_def pooled_const_def ConstItem_Int_New_def ConstItem_New_def CONST_INT_def int32_range_def)
    with 1 img_grow_less [of img 16 img' "inst_cost i"] show ?thesis
      by (auto simp: add_value_def value_at_def inst_cost_def)
  next
    case 2
    obtain ix img' where "KImage_Add_UChar k img (ucast (cv_raw (in_arg i))) = Inr (ix, img')"
      "const_at (im_store img') ix (ConstItem_UChar_New (ucast (cv_raw (in_arg i))))" "img_grow img 16 img'"
      using Add_Const_spec [OF assms(1), of "ConstItem_UChar_New (ucast (cv_raw (in_arg i)))" k]
      by (auto simp: KImage_Add_UChar_def pooled_const_def ConstItem_UChar_New_def ConstItem_New_def CONST_UCHAR_def int32_range_def)
    with 2 img_grow_less [of img 16 img' "inst_cost i"] show ?thesis
      by (auto simp: add_value_def value_at_def inst_cost_def base_defs)
  next
    case 3
    then have "inst_cost i = length s + 21" by (simp add: inst_cost_def)
    with 3 Add_String_spec [OF assms(1), of k s] show ?thesis
      by (auto simp: add_value_def value_at_def base_defs)
  qed
qed


subsection \<open>Generating an instruction\<close>

definition buf_ok :: "Buffer \<Rightarrow> bool" where
  "buf_ok buf \<longleftrightarrow> buf_inv buf \<and> 0 < bf_bsize buf"

lemma write_spec:
  assumes "buf_ok buf" "n = int (length bs)"
  shows "\<exists>buf'. Buffer_Write buf bs n = Some (Inr buf') \<and> buf_ok buf' \<and> buf_bytes buf' = buf_bytes buf @ bs"
  using Buffer_Write_all [of buf bs] assms by (auto simp: buf_ok_def)

lemma write_le_spec:
  assumes "buf_ok buf"
  shows "\<exists>buf'. Buffer_Write_Byte buf x = Some (Inr buf') \<and> buf_ok buf' \<and> buf_bytes buf' = buf_bytes buf @ le_bytes 1 x"
    "\<exists>buf'. Buffer_Write_2Bytes buf x = Some (Inr buf') \<and> buf_ok buf' \<and> buf_bytes buf' = buf_bytes buf @ le_bytes 2 x"
    "\<exists>buf'. Buffer_Write_4Bytes buf x = Some (Inr buf') \<and> buf_ok buf' \<and> buf_bytes buf' = buf_bytes buf @ le_bytes 4 x"
  by (simp_all add: Buffer_Write_Byte_def Buffer_Write_2Bytes_def Buffer_Write_4Bytes_def write_spec [OF assms])

lemma byte_bytes: "le_bytes 1 (uint (op :: uint8)) = [op]"
  by (simp add: numeral_nat)

lemma inst_gen_spec:
  assumes "store_ok (im_store img)" "buf_ok buf" "supported i"
  shows "\<exists>img' buf' bs. inst_gen k img buf i = Some (Inr (img', buf')) \<and> buf_ok buf' \<and>
    buf_bytes buf' = buf_bytes buf @ bs \<and> inst_code (im_store img') i bs \<and> img_grow img (inst_cost i) img'"
proof -
  obtain b1 where b1: "Buffer_Write_Byte buf (uint (in_op i)) = Some (Inr b1)" "buf_ok b1" "buf_bytes b1 = buf_bytes buf @ [in_op i]"
    using write_le_spec(1) [OF assms(2), of "uint (in_op i)"] unfolding byte_bytes by blast
  note w = write_le_spec [OF b1(2)] and nm = add_name_spec [OF assms(1), of i k]
  have g0: "img_grow img (inst_cost i) img" using img_grow_less [OF img_grow_refl [OF assms(1)]] by simp
  from assms(3) consider "in_op i = LOAD_CONST" "value_ok (in_arg i)"
    | "in_op i \<in> {LOAD_PKG, LOAD_FIELD, STORE_FIELD}" "cv_str (in_arg i) \<noteq> None"
    | "in_op i \<in> {CALL, NEW}" "cv_str (in_arg i) \<noteq> None"
    | "in_op i \<in> {LOAD_op, STORE}" | "in_op i \<in> {JMP, JMP_TRUE, JMP_FALSE}" | "in_op i = NEW_ARRAY" | "in_op i \<in> plain_ops"
    unfolding supported_def by blast
  then show ?thesis
  proof cases
    case 1
    obtain ix img' where 2: "add_value k img (in_arg i) = Inr (ix, img')" "value_at (im_store img') ix (in_arg i)"
      "img_grow img (inst_cost i) img'" using add_value_spec [OF assms(1) 1(2)] by blast
    obtain b2 where "Buffer_Write_2Bytes b1 ix = Some (Inr b2)" "buf_ok b2" "buf_bytes b2 = buf_bytes b1 @ le_bytes 2 ix"
      using w(2) by blast
    with 1 2 b1 show ?thesis by (auto simp: inst_gen_def inst_code_def Let_def)
  next
    case 2
    obtain ix img' where 3: "add_name k img (in_arg i) = Inr (ix, img')" "name_at (im_store img') ix (the (cv_str (in_arg i)))"
      "img_grow img (inst_cost i) img'" using nm [OF 2(2)] by blast
    obtain b2 where "Buffer_Write_2Bytes b1 ix = Some (Inr b2)" "buf_ok b2" "buf_bytes b2 = buf_bytes b1 @ le_bytes 2 ix"
      using w(2) by blast
    with 2(1) 3 b1 show ?thesis by (auto simp: inst_gen_def inst_code_def Let_def opcode_defs)
  next
    case 3
    obtain ix img' where 4: "add_name k img (in_arg i) = Inr (ix, img')" "name_at (im_store img') ix (the (cv_str (in_arg i)))"
      "img_grow img (inst_cost i) img'" using nm [OF 3(2)] by blast
    obtain b2 where b2: "Buffer_Write_4Bytes b1 ix = Some (Inr b2)" "buf_ok b2" "buf_bytes b2 = buf_bytes b1 @ le_bytes 4 ix"
      using w(3) by blast
    obtain b3 where "Buffer_Write_2Bytes b2 (in_argc i) = Some (Inr b3)" "buf_ok b3" "buf_bytes b3 = buf_bytes b2 @ le_bytes 2 (in_argc i)"
      using write_le_spec(2) [OF b2(2)] by blast
    with 3(1) 4 b1 b2 show ?thesis by (auto simp: inst_gen_def inst_code_def Let_def opcode_defs)
  next
    case 4
    obtain b2 where "Buffer_Write_Byte b1 (cv_ival (in_arg i)) = Some (Inr b2)" "buf_ok b2"
      "buf_bytes b2 = buf_bytes b1 @ le_bytes 1 (cv_ival (in_arg i))" using w(1) by blast
    with 4 b1 g0 show ?thesis by (auto simp: inst_gen_def inst_code_def Let_def opcode_defs)
  next
    case 5
    obtain b2 where "Buffer_Write_2Bytes b1 (cv_ival (in_arg i)) = Some (Inr b2)" "buf_ok b2"
      "buf_bytes b2 = buf_bytes b1 @ le_bytes 2 (cv_ival (in_arg i))" using w(2) by blast
    with 5 b1 g0 show ?thesis by (auto simp: inst_gen_def inst_code_def Let_def opcode_defs)
  next
    case 6
    obtain b2 where "Buffer_Write_4Bytes b1 (cv_ival (in_arg i)) = Some (Inr b2)" "buf_ok b2"
      "buf_bytes b2 = buf_bytes b1 @ le_bytes 4 (cv_ival (in_arg i))" using w(3) by blast
    with 6 b1 g0 show ?thesis by (auto simp: inst_gen_def inst_code_def Let_def opcode_defs)
  next
    case 7
    with b1 g0 show ?thesis by (auto simp: inst_gen_def inst_code_def Let_def plain_ops_def opcode_defs)
  qed
qed

subsection \<open>Generating a block\<close>

definition insts_cost :: "Inst list \<Rightarrow> nat" where
  "insts_cost is = sum_list (map inst_cost is)"

lemma gen_insts_spec:
  assumes "store_ok (im_store img)" "buf_ok buf" "\<forall>i \<in> set is. supported i"
  shows "\<exists>img' buf' codes. gen_insts k img buf is = Some (Inr (img', buf')) \<and> buf_ok buf' \<and>
    buf_bytes buf' = buf_bytes buf @ concat codes \<and> list_all2 (inst_code (im_store img')) is codes \<and>
    img_grow img (insts_cost is) img'"
  using assms
proof (induction "is" arbitrary: img buf)
  case Nil
  then show ?case using img_grow_refl by (auto simp: insts_cost_def)
next
  case (Cons i js)
  obtain img1 b1 bs where 1: "inst_gen k img buf i = Some (Inr (img1, b1))" "buf_ok b1" "buf_bytes b1 = buf_bytes buf @ bs"
    "inst_code (im_store img1) i bs" "img_grow img (inst_cost i) img1"
    using inst_gen_spec [OF Cons.prems(1,2), of i k] Cons.prems(3) by auto
  obtain img2 b2 codes where 2: "gen_insts k img1 b1 js = Some (Inr (img2, b2))" "buf_ok b2"
    "buf_bytes b2 = buf_bytes b1 @ concat codes" "list_all2 (inst_code (im_store img2)) js codes" "img_grow img1 (insts_cost js) img2"
    using Cons.IH [OF img_grow_ext(2) [OF 1(5)] 1(2)] Cons.prems(3) by auto
  have "list_all2 (inst_code (im_store img2)) (i # js) (bs # codes)"
    using inst_code_extends [OF 1(4) img_grow_ext(1) [OF 2(5)]] 2(4) by simp
  moreover have "img_grow img (insts_cost (i # js)) img2"
    using img_grow_trans [OF 1(5) 2(5)] by (simp add: insts_cost_def)
  ultimately show ?case using 1(1,3) 2(1-3) by (intro exI [of _ img2] exI [of _ b2] exI [of _ "bs # codes"]) simp
qed

lemma To_RawCode_spec:
  assumes "store_ok (im_store img)" "\<forall>i \<in> set (cb_insts b). supported i"
  shows "\<exists>n raw img' codes. CodeBlock_To_RawCode k img (Some b) = Some (Inr (n, Some raw, img')) \<and>
    n = int (length (concat codes)) \<and> take (nat n) raw = concat codes \<and>
    list_all2 (inst_code (im_store img')) (cb_insts b) codes \<and> img_grow img (insts_cost (cb_insts b)) img'"
proof -
  have init: "buf_ok (Buffer_Init 32)" "buf_bytes (Buffer_Init 32) = []"
    using buf_inv_Init [of 32] by (simp_all add: buf_ok_def Buffer_Init_def buf_bytes_def)
  obtain img' buf codes where g: "gen_insts k img (Buffer_Init 32) (cb_insts b) = Some (Inr (img', buf))" "buf_ok buf"
    "buf_bytes buf = concat codes" "list_all2 (inst_code (im_store img')) (cb_insts b) codes"
    "img_grow img (insts_cost (cb_insts b)) img'"
    using gen_insts_spec [OF assms(1) init(1) assms(2), of k] init(2) by auto
  have "Buffer_Size buf = int (length (concat codes))" using g(2,3) by (simp add: buf_ok_def buf_inv_def Buffer_Size_def)
  moreover have "take (length (concat codes)) (Buffer_RawData buf) = concat codes"
    using Buffer_RawData_spec [of buf] g(2,3) by (simp add: buf_ok_def)
  ultimately show ?thesis using g
    by (intro exI [of _ "Buffer_Size buf"] exI [of _ "Buffer_RawData buf"] exI [of _ img'] exI [of _ codes])
      (simp add: CodeBlock_To_RawCode_def)
qed

lemma inst_code_length:
  assumes "inst_code st i bs"
  shows "0 < length bs" "length bs \<le> 7"
  using assms by (auto simp: inst_code_def split: if_splits)


subsection \<open>The counters of a block\<close>

text \<open>Every instruction knows the bytes up to its end, and the block those of all its instructions.\<close>

fun upbytes_ok :: "int \<Rightarrow> Inst list \<Rightarrow> bool" where
  "upbytes_ok n [] \<longleftrightarrow> True"
| "upbytes_ok n (i # is) \<longleftrightarrow> in_upbytes i = n + in_bytes i \<and> upbytes_ok (n + in_bytes i) is"

definition bytes_sum :: "Inst list \<Rightarrow> int" where
  "bytes_sum is = sum_list (map in_bytes is)"

fun counted :: "CodeBlock \<Rightarrow> bool" where
  "counted (CodeBlock bytes is next ret) \<longleftrightarrow> bytes = bytes_sum is \<and> upbytes_ok 0 is"

fun chain_insts :: "CodeBlock option \<Rightarrow> Inst list" where
  "chain_insts None = []"
| "chain_insts (Some (CodeBlock bytes is next ret)) = is @ chain_insts next"

fun chain_counted :: "CodeBlock option \<Rightarrow> bool" where
  "chain_counted None \<longleftrightarrow> True"
| "chain_counted (Some (CodeBlock bytes is next ret)) \<longleftrightarrow> bytes = bytes_sum is \<and> chain_counted next"

text \<open>The instructions apart from their positions.\<close>

definition code_of :: "Inst list \<Rightarrow> Inst list" where
  "code_of is = map (\<lambda>i. i\<lparr>in_upbytes := 0\<rparr>) is"

lemma upbytes_append: "upbytes_ok n (is @ js) \<longleftrightarrow> upbytes_ok n is \<and> upbytes_ok (n + bytes_sum is) js"
  by (induction "is" arbitrary: n) (auto simp: bytes_sum_def add.assoc)

lemma bytes_sum_simps [simp]:
  "bytes_sum [] = 0" "bytes_sum (i # is) = in_bytes i + bytes_sum is" "bytes_sum (is @ js) = bytes_sum is + bytes_sum js"
  by (simp_all add: bytes_sum_def)

lemma Inst_Append_counted:
  assumes "counted b" "Inst_Append b op val = Inr b'"
  shows "counted b' \<and> (\<exists>i. in_op i = op \<and> cb_insts b' = cb_insts b @ [i])"
  using assms by (cases b) (auto simp: inst_new_def Let_def upbytes_append)

lemma move_insts_spec:
  assumes "move_insts is b insts tb = (b', insts', tb')" "tb = bytes_sum insts" "upbytes_ok 0 insts"
  shows "b' = b - bytes_sum is \<and> tb' = bytes_sum insts' \<and> upbytes_ok 0 insts' \<and>
    code_of insts' = code_of insts @ code_of is"
  using assms
proof (induction "is" arbitrary: b insts tb)
  case (Cons i js)
  let ?i = "i\<lparr>in_upbytes := tb + in_bytes i\<rparr>"
  have "move_insts js (b - in_bytes i) (insts @ [?i]) (tb + in_bytes i) = (b', insts', tb')"
    using Cons.prems(1) by (simp add: Let_def)
  from Cons.IH [OF this] Cons.prems(2,3) show ?case by (auto simp: upbytes_append code_of_def)
qed (auto simp: code_of_def)

lemma merge_chain_spec:
  assumes "chain_counted c" "tb = bytes_sum insts" "upbytes_ok 0 insts"
  shows "\<exists>c' insts' tb'. merge_chain c insts tb = Inr (c', insts', tb') \<and> chain_insts c' = [] \<and> (c' = None \<longleftrightarrow> c = None) \<and>
    tb' = bytes_sum insts' \<and> upbytes_ok 0 insts' \<and> code_of insts' = code_of insts @ code_of (chain_insts c)"
  using assms
proof (induction c insts tb rule: merge_chain.induct)
  case (2 b "is" nxt ret insts bytes)
  obtain b1 insts1 bytes1 where m: "move_insts is b insts bytes = (b1, insts1, bytes1)" by (metis prod_cases3)
  note s = move_insts_spec [OF m 2(3,4)]
  have "\<not> b1 \<noteq> 0" using s 2(2) by simp
  from 2(1) [OF m [symmetric] refl this] s 2(2) m show ?case by (auto simp: code_of_def)
qed (auto simp: code_of_def)

subsection \<open>Properties\<close>


definition sample_block :: CodeBlock where
  "sample_block = CodeBlock 2 [\<lparr>in_bytes = 1, in_argc = 0, in_op = LOAD_CONST, in_arg = int_const 7, in_upbytes = 1\<rparr>,
     \<lparr>in_bytes = 1, in_argc = 0, in_op = RETURN, in_arg = no_const, in_upbytes = 2\<rparr>] None 1"

lemma sample_block_supported: "\<forall>i \<in> set (cb_insts sample_block). supported i"
  by (simp add: sample_block_def supported_def value_ok_def int_const_def plain_ops_def)


text \<open>
  C38: merging a block and the blocks after it into another: the assertions hold when the counters of
  the blocks are right, the instructions are moved to the end of the other block in order, nothing
  else is changed in them but their positions, the counters are right again, and the merged blocks
  are empty.
\<close>

theorem CodeBlock_Merge_correct:
  assumes "chain_counted (Some fro)" "counted to"
  shows "\<exists>fro' to'. CodeBlock_Merge fro to = Inr (fro', to') \<and> counted to' \<and> chain_insts (Some fro') = [] \<and>
    code_of (cb_insts to') = code_of (cb_insts to) @ code_of (chain_insts (Some fro)) \<and>
    cb_bytes to' = cb_bytes to + bytes_sum (chain_insts (Some fro))"
proof -
  have to: "cb_bytes to = bytes_sum (cb_insts to)" "upbytes_ok 0 (cb_insts to)" using assms(2) by (cases to; simp)+
  obtain c insts bytes where m: "merge_chain (Some fro) (cb_insts to) (cb_bytes to) = Inr (c, insts, bytes)" "chain_insts c = []"
    "c \<noteq> None" "bytes = bytes_sum insts" "upbytes_ok 0 insts"
    "code_of insts = code_of (cb_insts to) @ code_of (chain_insts (Some fro))"
    using merge_chain_spec [OF assms(1) to] by auto
  have "bytes_sum is = bytes_sum (code_of is)" for "is" by (simp add: bytes_sum_def code_of_def o_def)
  then have "bytes_sum insts = bytes_sum (cb_insts to) + bytes_sum (chain_insts (Some fro))"
    using m(6) by (metis bytes_sum_simps(3))
  with m to(1) show ?thesis by (auto simp: CodeBlock_Merge_def)
qed

theorem CodeBlock_Merge_correct_witness:
  "\<exists>fro' to'. CodeBlock_Merge sample_block sample_block = Inr (fro', to') \<and> cb_bytes to' = 4"
  using CodeBlock_Merge_correct [of sample_block sample_block] by (auto simp: sample_block_def)

text \<open>
  What the parser's macros for calls and fields emit is not generated. They begin with the
  instruction \<open>LOAD_0\<close>, for which \<open>inst_gen\<close> has no case: whatever supported instructions come before
  it, generating the block runs into \<open>assert(0)\<close>.
\<close>

theorem parser_macros_stop:
  assumes "store_ok (im_store img)" "\<forall>i \<in> set (cb_insts b). supported i"
    and "m = CODE_CALL b name argc \<or> m = CODE_LOAD_FIELD b name \<or> m = CODE_STORE_FIELD b name"
  shows "\<exists>b'. m = Inr b' \<and> CodeBlock_To_RawCode k img (Some b') = Some (Inl Assert_Failed)"
proof -
  have stop: "gen_insts k img (Buffer_Init 32) (cb_insts b @ i # is) = Some (Inl Assert_Failed)" if "in_op i = LOAD_0" for i "is"
  proof -
    have split: "gen_insts k im bf (xs @ ys) = then_do (gen_insts k im bf xs) (\<lambda>(im1, bf1). gen_insts k im1 bf1 ys)" for im bf xs ys
      by (induction xs arbitrary: im bf) (auto simp: then_do_def split: option.splits sum.splits)
    have init: "buf_ok (Buffer_Init 32)" using buf_inv_Init [of 32] by (simp add: buf_ok_def Buffer_Init_def)
    obtain img' buf where g: "gen_insts k img (Buffer_Init 32) (cb_insts b) = Some (Inr (img', buf))" "buf_ok buf"
      using gen_insts_spec [OF assms(1) init assms(2), of k] by blast
    obtain b1 where "Buffer_Write_Byte buf (uint (in_op i)) = Some (Inr b1)" using write_le_spec(1) [OF g(2)] by blast
    with g(1) that show ?thesis by (simp add: split inst_gen_def Let_def opcode_defs)
  qed
  have args: "OpCode_ArgCount LOAD_0 = Inr 0" "OpCode_ArgCount CALL = Inr 0" "OpCode_ArgCount LOAD_FIELD = Inr 0"
    "OpCode_ArgCount STORE_FIELD = Inr 0" by (simp_all add: OpCode_ArgCount_def opcodes_def opcode_defs)
  show ?thesis
    using assms(3) stop args
    by (cases b) (auto simp: CODE_CALL_def CODE_LOAD_FIELD_def CODE_STORE_FIELD_def Inst_Append_NoArg_def inst_new_def
        CodeBlock_To_RawCode_def Let_def butlast_append)
qed

theorem parser_macros_stop_witness:
  "\<exists>b'. CODE_CALL CodeBlock_New ''println'' 1 = Inr b' \<and>
    CodeBlock_To_RawCode 99 (KImage_New None) (Some b') = Some (Inl Assert_Failed)"
proof -
  have "store_ok (im_store (KImage_New None))" using store_ok_New by (simp add: KImage_New_def)
  from parser_macros_stop [OF this, of CodeBlock_New _ "''println''" 1 99] show ?thesis by (simp add: CodeBlock_New_def)
qed

text \<open>
  The sizes of instructions are looked up wrongly. The table of opcodes is laid out densely but
  indexed by the opcode, so the size counted for loading a constant is one byte, while the code
  generated for it has three, and the size of a call, whose code has seven, is one as well; for the
  instruction \<open>NEW\<close> the lookup is behind the end of the table. The counters of blocks, and the jumps
  computed from them, do not match the code.
\<close>

theorem opcode_sizes_wrong:
  "OpCode_ArgCount LOAD_CONST = Inr 0 \<and> OpCode_ArgCount CALL = Inr 0 \<and> OpCode_ArgCount NEW = Inl Out_Of_Bounds \<and>
   (\<forall>st i bs. inst_code st i bs \<longrightarrow>
      (in_op i = LOAD_CONST \<longrightarrow> length bs = 3) \<and> (in_op i = CALL \<longrightarrow> length bs = 7))"
proof (intro conjI allI impI)
  fix st i bs assume c: "inst_code st i bs"
  show "length bs = 3" if "in_op i = LOAD_CONST" using c that by (auto simp: inst_code_def)
  have "CALL \<noteq> LOAD_CONST" "CALL \<notin> {LOAD_PKG, LOAD_FIELD, STORE_FIELD}" "CALL \<in> {CALL, NEW}" by (simp_all add: opcode_defs)
  then show "length bs = 7" if "in_op i = CALL"
    using c unfolding inst_code_def that by (simp only: if_False if_True) fastforce
qed (simp_all add: OpCode_ArgCount_def opcodes_def opcode_defs)

theorem opcode_sizes_wrong_witness:
  "\<exists>(img' :: KImage) bs. inst_code (im_store img') (hd (cb_insts sample_block)) bs \<and> length bs = 3"
proof -
  have st: "store_ok (im_store (KImage_New None))" using store_ok_New by (simp add: KImage_New_def)
  have i: "hd (cb_insts sample_block) \<in> set (cb_insts sample_block)" "in_op (hd (cb_insts sample_block)) = LOAD_CONST"
    by (simp_all add: sample_block_def)
  have init: "buf_ok (Buffer_Init 32)" using buf_inv_Init [of 32] by (simp add: buf_ok_def Buffer_Init_def)
  obtain img' :: KImage and bs where "inst_code (im_store img') (hd (cb_insts sample_block)) bs"
    using inst_gen_spec [OF st init bspec [OF sample_block_supported i(1)], of 99] by blast
  with opcode_sizes_wrong i(2) show ?thesis by blast
qed

end
