(* ===== verification/NameTable.thy ===== *)
theory NameTable
  imports HashTable
begin

text \<open>
  Tables of structs that are hashed and compared by their name: the symbols of a symbol table, the
  members of a class or of a package. A struct holds its hash node, so a table is a hash table of
  names together with the structs at the addresses of the nodes; a new struct gets the next address.
  The contract of such a table is a locale, and its clients only use the contract.
\<close>

subsection \<open>The contract\<close>

text \<open>
  \<open>add\<close> answers the table with the struct, or \<open>None\<close> when the name is taken; \<open>members\<close> is the list of
  the names and structs in the order of insertion.
\<close>

locale name_map =
  fixes ok :: "'t \<Rightarrow> bool"
    and members :: "'t \<Rightarrow> (string \<times> 'a) list"
    and get :: "'t \<Rightarrow> string \<Rightarrow> 'a option"
    and add :: "'t \<Rightarrow> string \<Rightarrow> 'a \<Rightarrow> 't option"
  assumes get_members: "ok t \<Longrightarrow> get t s = map_option snd (find (\<lambda>p. str_eq (fst p) s) (members t))"
    and add_new: "ok t \<Longrightarrow> get t s = None \<Longrightarrow> \<exists>t'. add t s x = Some t' \<and> ok t' \<and> members t' = members t @ [(s, x)]"
    and add_taken: "ok t \<Longrightarrow> get t s \<noteq> None \<Longrightarrow> add t s x = None"
    and distinct_names: "ok t \<Longrightarrow> distinct (map (cstr \<circ> fst) (members t))"
begin

lemma name_unique: "ok t \<Longrightarrow> p \<in> set (members t) \<Longrightarrow> q \<in> set (members t) \<Longrightarrow> str_eq (fst p) (fst q) \<Longrightarrow> p = q"
  using distinct_names [of t] by (auto simp: distinct_map inj_on_def str_eq_def)

lemma get_Some:
  assumes "ok t"
  shows "get t s = Some x \<longleftrightarrow> (\<exists>k. (k, x) \<in> set (members t) \<and> str_eq k s)"
proof
  assume "get t s = Some x"
  then obtain p where "find (\<lambda>p. str_eq (fst p) s) (members t) = Some p" "snd p = x"
    by (auto simp: get_members [OF assms])
  then have "p \<in> set (members t)" "str_eq (fst p) s" "p = (fst p, x)" by (auto simp: find_Some_iff)
  then show "\<exists>k. (k, x) \<in> set (members t) \<and> str_eq k s" by metis
next
  assume "\<exists>k. (k, x) \<in> set (members t) \<and> str_eq k s"
  then obtain k where k: "(k, x) \<in> set (members t)" "str_eq k s" by blast
  then have "find (\<lambda>p. str_eq (fst p) s) (members t) \<noteq> None" unfolding find_None_iff by auto
  then obtain p where p: "find (\<lambda>p. str_eq (fst p) s) (members t) = Some p" by blast
  then have "p \<in> set (members t)" "str_eq (fst p) s" by (auto simp: find_Some_iff)
  with name_unique [OF assms, of "(k, x)" p] k have "p = (k, x)" by (auto simp: str_eq_def)
  with p show "get t s = Some x" by (simp add: get_members [OF assms])
qed

lemma get_None: "ok t \<Longrightarrow> get t s = None \<longleftrightarrow> (\<forall>p \<in> set (members t). \<not> str_eq (fst p) s)"
  by (auto simp: get_members find_None_iff)

lemma add_cases:
  assumes "ok t"
  shows "(\<exists>t'. get t s = None \<and> add t s x = Some t' \<and> ok t' \<and> members t' = members t @ [(s, x)]) \<or>
    (get t s \<noteq> None \<and> add t s x = None)"
  using add_new [OF assms, of s x] add_taken [OF assms, of s x] by (cases "get t s") auto

lemma find_append: "find P (xs @ ys) = (case find P xs of Some x \<Rightarrow> Some x | None \<Rightarrow> find P ys)"
  by (induction xs) auto

lemma get_add:
  assumes "ok t" "add t s x = Some t'"
  shows "ok t'" "get t s = None" "get t' k = (if str_eq s k then Some x else get t k)"
proof -
  from add_cases [OF assms(1), of s x] assms(2)
  have h: "ok t'" "members t' = members t @ [(s, x)]" "get t s = None" by auto
  then show "ok t'" "get t s = None" by simp_all
  have "\<forall>p \<in> set (members t). \<not> str_eq (fst p) s" using get_None [OF assms(1)] h(3) by simp
  then have "find (\<lambda>p. str_eq (fst p) k) (members t) = None" if "str_eq s k"
    using that by (auto simp: find_None_iff str_eq_def)
  then show "get t' k = (if str_eq s k then Some x else get t k)"
    by (simp add: get_members [OF h(1)] get_members [OF assms(1)] h(2) find_append split: option.split)
qed

text \<open>The names of the members differ.\<close>

definition names :: "'t \<Rightarrow> string list" where
  "names t = map (cstr \<circ> fst) (members t)"

lemma names_add: "ok t \<Longrightarrow> add t s x = Some t' \<Longrightarrow> names t' = names t @ [cstr s] \<and> cstr s \<notin> set (names t)"
  using add_cases [of t s x] get_None [of t s] by (auto simp: names_def str_eq_def)

text \<open>Adding members one after the other, dropping those whose name is taken.\<close>

primrec add_list :: "'t \<Rightarrow> (string \<times> 'a) list \<Rightarrow> 't" where
  "add_list t [] = t"
| "add_list t (p # ps) = add_list (case add t (fst p) (snd p) of Some t' \<Rightarrow> t' | None \<Rightarrow> t) ps"

text \<open>The members whose name was not there before, in \<open>seen\<close> or earlier in the list.\<close>

primrec first_of :: "string list \<Rightarrow> (string \<times> 'a) list \<Rightarrow> (string \<times> 'a) list" where
  "first_of seen [] = []"
| "first_of seen (p # ps) =
     (if cstr (fst p) \<in> set seen then first_of seen ps else p # first_of (seen @ [cstr (fst p)]) ps)"

lemma add_list_spec:
  assumes "ok t"
  shows "ok (add_list t ps) \<and> members (add_list t ps) = members t @ first_of (names t) ps"
  using assms
proof (induction ps arbitrary: t)
  case (Cons p ps)
  show ?case
  proof (cases "add t (fst p) (snd p)")
    case None
    with add_cases [OF Cons.prems, of "fst p" "snd p"] get_None [OF Cons.prems, of "fst p"]
    have "\<exists>q \<in> set (members t). cstr (fst q) = cstr (fst p)" by (auto simp: str_eq_def)
    then have "cstr (fst p) \<in> set (names t)" unfolding names_def set_map image_iff comp_def by metis
    with None Cons show ?thesis by simp
  next
    case (Some t')
    have t': "ok t'" "members t' = members t @ [p]" using add_cases [OF Cons.prems, of "fst p" "snd p"] Some by auto
    with Some Cons.IH [OF t'(1)] names_add [OF Cons.prems Some] show ?thesis by simp
  qed
qed simp

lemma first_of_distinct:
  "distinct (map (cstr \<circ> fst) ps) \<Longrightarrow> set (map (cstr \<circ> fst) ps) \<inter> set seen = {} \<Longrightarrow> first_of seen ps = ps"
  by (induction ps arbitrary: seen) auto

end

subsection \<open>The tables of the program\<close>

record 'a NameTable =
  nt_table :: "string HashTable"
  nt_data :: "addr \<Rightarrow> 'a option"
  nt_next :: addr

definition NameTable_Init :: "'a NameTable" where
  "NameTable_Init = \<lparr>nt_table = the (HashTable_Init True hash_string str_eq), nt_data = Map.empty, nt_next = 1\<rparr>"

text \<open>\<open>HashTable_Find\<close> with a key on the stack, then \<open>container_of\<close>.\<close>

definition nt_get :: "'a NameTable \<Rightarrow> string \<Rightarrow> 'a option" where
  "nt_get t name = (case HashTable_Find (nt_table t) name of None \<Rightarrow> None | Some n \<Rightarrow> nt_data t (hn_addr n))"

definition nt_add :: "'a NameTable \<Rightarrow> string \<Rightarrow> 'a \<Rightarrow> 'a NameTable option" where
  "nt_add t name x = (case HashTable_Insert True (nt_table t) (Init_HashNode (nt_next t) name) of (res, tbl, _) \<Rightarrow>
     if res < 0 then None
     else Some \<lparr>nt_table = tbl, nt_data = (nt_data t)(nt_next t \<mapsto> x), nt_next = nt_next t + 1\<rparr>)"

text \<open>The structs a visit of the table calls back on.\<close>

definition nt_visit :: "'a NameTable \<Rightarrow> 'a list" where
  "nt_visit t = map (\<lambda>n. the (nt_data t (hn_addr n))) (HashTable_Visit (Some (nt_table t)))"

text \<open>Storing into the struct of a name.\<close>

definition nt_update :: "'a NameTable \<Rightarrow> string \<Rightarrow> ('a \<Rightarrow> 'a) \<Rightarrow> 'a NameTable" where
  "nt_update t name f = (case HashTable_Find (nt_table t) name of None \<Rightarrow> t
     | Some n \<Rightarrow> t\<lparr>nt_data := (nt_data t)(hn_addr n := map_option f (nt_data t (hn_addr n)))\<rparr>)"

subsection \<open>They keep the contract\<close>

definition nt_ok :: "'a NameTable \<Rightarrow> bool" where
  "nt_ok t \<longleftrightarrow> ht_ok hash_string str_eq (\<lambda>_. True) (nt_table t) \<and>
     (\<forall>n \<in> set (ht_head (nt_table t)). hn_addr n < nt_next t \<and> nt_data t (hn_addr n) \<noteq> None)"

definition nt_members :: "'a NameTable \<Rightarrow> (string \<times> 'a) list" where
  "nt_members t = map (\<lambda>n. (hn_key n, the (nt_data t (hn_addr n)))) (ht_head (nt_table t))"

lemma nt_Init [simp]: "nt_ok (NameTable_Init :: 'a NameTable)" "nt_members (NameTable_Init :: 'a NameTable) = []"
proof -
  have "HashTable_Init True hash_string str_eq = Some (nt_table (NameTable_Init :: 'a NameTable))"
    by (simp add: NameTable_Init_def HashTable_Init_def new_entries_def)
  from string_keys.good_Init [OF this] ht_Init_fields [OF this]
  show "nt_ok (NameTable_Init :: 'a NameTable)" "nt_members (NameTable_Init :: 'a NameTable) = []"
    by (simp_all add: nt_ok_def nt_members_def)
qed

lemma nt_visit_members: "nt_visit t = map snd (nt_members t)"
  by (simp add: nt_visit_def nt_members_def HashTable_Visit_def)

lemma nt_get_members:
  assumes "nt_ok t"
  shows "nt_get t s = map_option snd (find (\<lambda>p. str_eq (fst p) s) (nt_members t))"
proof -
  have g: "ht_ok hash_string str_eq (\<lambda>_. True) (nt_table t)" using assms by (simp add: nt_ok_def)
  have find: "find (\<lambda>p. str_eq (fst p) s) (map (\<lambda>n. (hn_key n, the (nt_data t (hn_addr n)))) ns) =
      map_option (\<lambda>n. (hn_key n, the (nt_data t (hn_addr n)))) (find (\<lambda>n. str_eq (hn_key n) s) ns)" for ns
    by (induction ns) auto
  have "nt_data t (hn_addr n) \<noteq> None" if "HashTable_Find (nt_table t) s = Some n" for n
    using that string_keys.Find_Some_iff [OF g TrueI, of s n] assms by (auto simp: nt_ok_def)
  then show ?thesis
    unfolding nt_members_def find string_keys.Find_spec [OF g TrueI, symmetric]
    by (cases "HashTable_Find (nt_table t) s") (auto simp: nt_get_def)
qed

lemma nt_distinct:
  assumes "nt_ok t"
  shows "distinct (map (cstr \<circ> fst) (nt_members t))"
proof -
  have "distinct (map hn_addr (ht_head (nt_table t)))" "\<forall>n \<in> set (ht_head (nt_table t)). \<forall>m \<in> set (ht_head (nt_table t)).
      str_eq (hn_key n) (hn_key m) \<longrightarrow> n = m" using assms by (simp_all add: nt_ok_def ht_ok_def ht_inv_def)
  then show ?thesis by (auto simp: nt_members_def distinct_map inj_on_def str_eq_def)
qed

lemma nt_add_spec:
  assumes t: "nt_ok t"
  shows "nt_get t s = None \<Longrightarrow> \<exists>t'. nt_add t s x = Some t' \<and> nt_ok t' \<and> nt_members t' = nt_members t @ [(s, x)]"
    and "nt_get t s \<noteq> None \<Longrightarrow> nt_add t s x = None"
proof -
  let ?n = "Init_HashNode (nt_next t) s"
  have g: "ht_ok hash_string str_eq (\<lambda>_. True) (nt_table t)" using t by (simp add: nt_ok_def)
  have n: "\<not> hn_linked ?n" "hn_key ?n = s" "hn_addr ?n = nt_next t" by (simp_all add: Init_HashNode_def)
  have fresh: "hn_addr ?n \<notin> hn_addr ` set (ht_head (nt_table t))" using t n(3) by (auto simp: nt_ok_def)
  obtain res t' n' where ins: "HashTable_Insert True (nt_table t) ?n = (res, t', n')" by (metis prod_cases3)
  note spec = string_keys.Insert_spec [OF g n(1) TrueI fresh ins, unfolded n(2)]
  have get: "nt_get t s = None \<longleftrightarrow> HashTable_Find (nt_table t) s = None"
    using string_keys.Find_Some_iff [OF g TrueI, of s] t
    by (cases "HashTable_Find (nt_table t) s") (auto simp: nt_get_def nt_ok_def)
  show "\<exists>t'. nt_add t s x = Some t' \<and> nt_ok t' \<and> nt_members t' = nt_members t @ [(s, x)]" if "nt_get t s = None"
  proof -
    let ?t = "\<lparr>nt_table = t', nt_data = (nt_data t)(nt_next t \<mapsto> x), nt_next = nt_next t + 1\<rparr>"
    have h: "ht_head t' = ht_head (nt_table t) @ [?n\<lparr>hn_hash := hash_string s, hn_linked := True\<rparr>]" "res = 0"
      using spec(2,3) that get by simp_all
    have old: "hn_addr m < nt_next t" "nt_data t (hn_addr m) \<noteq> None" if "m \<in> set (ht_head (nt_table t))" for m
      using that t by (auto simp: nt_ok_def)
    have "nt_ok ?t" using spec(1) h(1) old n(3) by (auto simp: nt_ok_def less_Suc_eq)
    moreover have "nt_members ?t = nt_members t @ [(s, x)]"
      using h(1) old(1) n(2,3) by (fastforce simp: nt_members_def)
    ultimately show ?thesis using ins h(2) by (simp add: nt_add_def)
  qed
  show "nt_add t s x = None" if "nt_get t s \<noteq> None"
    using that get spec(2) ins by (simp add: nt_add_def)
qed

interpretation nt: name_map nt_ok nt_members nt_get nt_add
proof (unfold_locales, goal_cases)
  case (1 t s)
  then show ?case by (rule nt_get_members)
next
  case (2 t s x)
  show ?case by (rule nt_add_spec(1) [OF 2])
next
  case (3 t s x)
  show ?case by (rule nt_add_spec(2) [OF 3])
next
  case (4 t)
  show ?case by (rule nt_distinct [OF 4])
qed

lemma nt_update_members:
  assumes "nt_ok t"
  shows "nt_ok (nt_update t s f)"
    "nt_members (nt_update t s f) = map (\<lambda>p. if str_eq (fst p) s then (fst p, f (snd p)) else p) (nt_members t)"
proof -
  have g: "ht_ok hash_string str_eq (\<lambda>_. True) (nt_table t)" using assms by (simp add: nt_ok_def)
  note find = string_keys.Find_Some_iff [OF g TrueI, of s]
  have inj: "m = n" if "m \<in> set (ht_head (nt_table t))" "n \<in> set (ht_head (nt_table t))" "hn_addr m = hn_addr n" for m n
    using that g by (auto simp: ht_ok_def ht_inv_def distinct_map inj_on_def)
  have eq: "str_eq (hn_key m) s \<longleftrightarrow> m = n"
    if "HashTable_Find (nt_table t) s = Some n" "m \<in> set (ht_head (nt_table t))" for m n
    using find [of m] find [of n] that by auto
  show "nt_ok (nt_update t s f)"
    using assms by (auto simp: nt_update_def nt_ok_def split: option.split)
  show "nt_members (nt_update t s f) = map (\<lambda>p. if str_eq (fst p) s then (fst p, f (snd p)) else p) (nt_members t)"
  proof (cases "HashTable_Find (nt_table t) s")
    case None
    then have "\<not> str_eq (hn_key m) s" if "m \<in> set (ht_head (nt_table t))" for m
      using that string_keys.Find_None_iff [OF g TrueI, of s] by simp
    with None show ?thesis by (simp add: nt_update_def nt_members_def)
  next
    case (Some n)
    have "nt_data t (hn_addr m) \<noteq> None" if "m \<in> set (ht_head (nt_table t))" for m
      using that assms by (auto simp: nt_ok_def)
    with Some eq [OF Some] inj find [of n] show ?thesis by (fastforce simp: nt_update_def nt_members_def)
  qed
qed

end
