(* ===== verification/Symbol.thy ===== *)
theory Symbol
  imports CodeGen NameTable
begin

text \<open>
  Symbol tables (\<^verbatim>\<open>src/src/symbol.c\<close>, \<^verbatim>\<open>src/include/symbol.h\<close>): the symbols of a module and of its
  classes, the generation of the image of a module, and the loading of the public symbols of an
  image. The type parameter of a symbol is the type of the table a class holds; the symbols of a
  class are of type \<^typ>\<open>unit\<close>, since the grammar has no classes inside classes. The position of a
  symbol is not modelled, nor are anonymous functions, which nothing adds.
\<close>

subsection \<open>Data\<close>

datatype SymKind = SYM_CONST | SYM_VAR | SYM_FUNC | SYM_CLASS | SYM_TRAIT | SYM_IFUNC | SYM_NFUNC | SYM_AFUNC | SYM_PKG | SYM_REF

text \<open>A local variable in the vector of a function.\<close>

record VarSymbol =
  vs_kind :: SymKind
  vs_name :: string
  vs_desc :: "TypeDesc option"
  vs_index :: int

record 't Symbol =
  sym_kind :: SymKind
  sym_name :: string
  sym_desc :: "TypeDesc option"
  sym_refcnt :: int
  sym_index :: int
  sym_locvec :: "VarSymbol list"
  sym_code :: "CodeBlock option"
  sym_supers :: "TypeDesc list"
  sym_stbl :: "'t option"
  sym_value :: ConstValue

record 't STable =
  st_table :: "'t Symbol NameTable"
  st_varindex :: int

type_synonym Member = "unit Symbol"
type_synonym Module = "unit STable STable"

definition Symbol_New :: "SymKind \<Rightarrow> string \<Rightarrow> 't Symbol" where
  "Symbol_New kind name = \<lparr>sym_kind = kind, sym_name = name, sym_desc = None, sym_refcnt = 1, sym_index = 0,
     sym_locvec = [], sym_code = None, sym_supers = [], sym_stbl = None, sym_value = no_const\<rparr>"

definition STable_New :: "'t STable" where
  "STable_New = \<lparr>st_table = NameTable_Init, st_varindex = 1\<rparr>"

subsection \<open>Adding and finding symbols\<close>

text \<open>What the functions share: a symbol whose name is taken is freed and \<open>NULL\<close> is answered.\<close>

definition insert_symbol :: "'t STable \<Rightarrow> 't Symbol \<Rightarrow> 't STable option" where
  "insert_symbol stbl s = (case nt_add (st_table stbl) (sym_name s) s of
     None \<Rightarrow> None | Some t \<Rightarrow> Some (stbl\<lparr>st_table := t\<rparr>))"

text \<open>The fields that are set after the insertion are set here in the symbol that is inserted.\<close>

definition STable_Add_Const :: "'t STable \<Rightarrow> string \<Rightarrow> TypeDesc option \<Rightarrow> 't STable option" where
  "STable_Add_Const stbl name desc =
     map_option (\<lambda>t. t\<lparr>st_varindex := st_varindex stbl + 1\<rparr>)
       (insert_symbol stbl ((Symbol_New SYM_CONST name)\<lparr>sym_desc := desc, sym_index := st_varindex stbl\<rparr>))"

definition STable_Add_Var :: "'t STable \<Rightarrow> string \<Rightarrow> TypeDesc option \<Rightarrow> 't STable option" where
  "STable_Add_Var stbl name desc =
     map_option (\<lambda>t. t\<lparr>st_varindex := st_varindex stbl + 1\<rparr>)
       (insert_symbol stbl ((Symbol_New SYM_VAR name)\<lparr>sym_desc := desc, sym_index := st_varindex stbl\<rparr>))"

definition STable_Add_Func :: "'t STable \<Rightarrow> string \<Rightarrow> TypeDesc option \<Rightarrow> 't STable option" where
  "STable_Add_Func stbl name proto = insert_symbol stbl ((Symbol_New SYM_FUNC name)\<lparr>sym_desc := proto\<rparr>)"

definition STable_Add_Class :: "'t STable STable \<Rightarrow> string \<Rightarrow> 't STable STable option" where
  "STable_Add_Class stbl name = insert_symbol stbl ((Symbol_New SYM_CLASS name)\<lparr>sym_stbl := Some STable_New\<rparr>)"

definition STable_Add_Trait :: "'t STable STable \<Rightarrow> string \<Rightarrow> 't STable STable option" where
  "STable_Add_Trait stbl name = insert_symbol stbl ((Symbol_New SYM_TRAIT name)\<lparr>sym_stbl := Some STable_New\<rparr>)"

definition STable_Add_Proto :: "'t STable \<Rightarrow> string \<Rightarrow> SymKind \<Rightarrow> TypeDesc option \<Rightarrow> 't STable option" where
  "STable_Add_Proto stbl name k desc = insert_symbol stbl ((Symbol_New k name)\<lparr>sym_desc := desc\<rparr>)"

definition STable_Add_IFunc :: "'t STable \<Rightarrow> string \<Rightarrow> TypeDesc option \<Rightarrow> 't STable option" where
  "STable_Add_IFunc stbl name proto = STable_Add_Proto stbl name SYM_IFUNC proto"

definition STable_Add_NFunc :: "'t STable \<Rightarrow> string \<Rightarrow> TypeDesc option \<Rightarrow> 't STable option" where
  "STable_Add_NFunc stbl name proto = STable_Add_Proto stbl name SYM_NFUNC proto"

definition STable_Add_Package :: "'t STable \<Rightarrow> string \<Rightarrow> 't STable option" where
  "STable_Add_Package stbl name = insert_symbol stbl (Symbol_New SYM_PKG name)"

definition STable_Add_Reference :: "'t STable \<Rightarrow> string \<Rightarrow> 't STable option" where
  "STable_Add_Reference stbl name = insert_symbol stbl (Symbol_New SYM_REF name)"

text \<open>A null table holds no symbol.\<close>

definition STable_Get :: "'t STable option \<Rightarrow> string \<Rightarrow> 't Symbol option" where
  "STable_Get stbl name = (case stbl of None \<Rightarrow> None | Some t \<Rightarrow> nt_get (st_table t) name)"

definition STable_Visit :: "'t STable option \<Rightarrow> 't Symbol list" where
  "STable_Visit stbl = (case stbl of None \<Rightarrow> [] | Some t \<Rightarrow> nt_visit (st_table t))"

text \<open>\<open>Symbol_Free\<close>: the symbol with one reference less, or \<open>None\<close> when it is freed.\<close>

definition Symbol_Free :: "'t Symbol \<Rightarrow> 't Symbol option run" where
  "Symbol_Free s = (let n = sym_refcnt s - 1 in
     if n > 0 then Inr (Some (s\<lparr>sym_refcnt := n\<rparr>))
     else if \<not> n \<ge> 0 then Inl Assert_Failed
     else Inr None)"

subsection \<open>Generating an image\<close>

text \<open>
  A descriptor that is a prototype; a null pointer is dereferenced, and a descriptor of another kind is
  read beyond its struct.
\<close>

definition proto_parts :: "TypeDesc option \<Rightarrow> (TypeDesc list \<times> TypeDesc list) run" where
  "proto_parts desc = (case desc of None \<Rightarrow> Inl Null_Deref | Some (TD_Proto arg ret) \<Rightarrow> Inr (arg, ret) | Some _ \<Rightarrow> Inl Out_Of_Bounds)"

definition the_desc :: "TypeDesc option \<Rightarrow> TypeDesc run" where
  "the_desc desc = (case desc of None \<Rightarrow> Inl Null_Deref | Some d \<Rightarrow> Inr d)"

text \<open>\<open>__const_show\<close> writes the text of the type into 64 bytes.\<close>

definition const_show :: "'t Symbol \<Rightarrow> unit run" where
  "const_show s = (case sym_desc s of None \<Rightarrow> Inr ()
     | Some d \<Rightarrow> if strlen (TypeDesc_ToString d) \<ge> 64 then Inl Out_Of_Bounds else Inr ())"

definition const_gen :: "string option \<Rightarrow> KImage \<Rightarrow> 't Symbol \<Rightarrow> KImage run" where
  "const_gen classname img s = (
     if classname \<noteq> None then Inl Assert_Failed
     else bind_run (const_show s) (\<lambda>_.
       bind_run (the_desc (sym_desc s)) (\<lambda>desc.
       bind_run (KImage_Add_Var img (sym_name s) desc 1) (\<lambda>(_, img1). Inr img1))))"

definition var_gen :: "string option \<Rightarrow> KImage \<Rightarrow> 't Symbol \<Rightarrow> KImage run" where
  "var_gen classname img s =
     bind_run (the_desc (sym_desc s)) (\<lambda>desc.
     bind_run (case classname of Some c \<Rightarrow> KImage_Add_Field img c (sym_name s) desc
         | None \<Rightarrow> KImage_Add_Var img (sym_name s) desc 0) (\<lambda>(_, img1). Inr img1))"

fun add_locvar :: "int \<Rightarrow> KImage \<Rightarrow> VarSymbol list \<Rightarrow> KImage run" where
  "add_locvar index img [] = Inr img"
| "add_locvar index img (v # vs) = (
     if vs_kind v \<noteq> SYM_VAR then Inl Assert_Failed
     else bind_run (the_desc (vs_desc v)) (\<lambda>desc.
       bind_run (KImage_Add_LocVar img (vs_name v) desc (vs_index v) index) (\<lambda>(_, img1). add_locvar index img1 vs)))"

definition func_gen :: "addr \<Rightarrow> string option \<Rightarrow> KImage \<Rightarrow> 't Symbol \<Rightarrow> KImage run option" where
  "func_gen k classname img s =
     then_do (CodeBlock_To_RawCode k img (sym_code s)) (\<lambda>(sz, code, img1). Some (
       bind_run (proto_parts (sym_desc s)) (\<lambda>(arg, ret).
       let codes = (case code of None \<Rightarrow> [] | Some c \<Rightarrow> c) in
       bind_run (case classname of Some c \<Rightarrow> KImage_Add_Method img1 c (sym_name s) arg ret codes sz
           | None \<Rightarrow> KImage_Add_Func img1 (sym_name s) arg ret codes sz) (\<lambda>(index, img2).
         add_locvar index img2 (sym_locvec s)))))"

text \<open>\<open>__class_gen\<close> and \<open>__trait_gen\<close>; \<open>visit\<close> generates the symbols of the class.\<close>

definition class_gen ::
  "(string \<Rightarrow> KImage \<Rightarrow> 't \<Rightarrow> KImage run option) \<Rightarrow> KImage \<Rightarrow> 't Symbol \<Rightarrow> KImage run option" where
  "class_gen visit img s = then_do (Some (
       if sym_kind s = SYM_CLASS then KImage_Add_Class img (sym_name s) (sym_supers s)
       else KImage_Add_Trait img (sym_name s) (sym_supers s))) (\<lambda>(_, img1).
     case sym_stbl s of None \<Rightarrow> Some (Inr img1) | Some t \<Rightarrow> visit (sym_name s) img1 t)"

text \<open>An interface method outside of a trait has no class name: its class item has no type name.\<close>

definition add_unnamed_imeth :: "KImage \<Rightarrow> string \<Rightarrow> TypeDesc list \<Rightarrow> TypeDesc list \<Rightarrow> (int \<times> KImage) run" where
  "add_unnamed_imeth img name arg ret = put_store img (
     let table = is_table (im_store img); index = AtomTable_Index table ITEM_TYPE (TypeI (TypeItem_Klass_New (-1) (-1))) in
     bind_run (if index < 0 then append_item (im_store img) ITEM_TYPE (TypeI (TypeItem_Klass_New (-1) (-1))) True
         else Inr (index, im_store img)) (\<lambda>(classindex, st1).
     bind_run (StringItem_Set st1 name) (\<lambda>(nameindex, st2).
     bind_run (ProtoItem_Set st2 arg ret) (\<lambda>(protoindex, st3).
       append_item st3 ITEM_IMETH (IMethI (IMethItem_New classindex nameindex protoindex)) False))))"

definition ifunc_gen :: "string option \<Rightarrow> KImage \<Rightarrow> 't Symbol \<Rightarrow> KImage run" where
  "ifunc_gen classname img s =
     bind_run (proto_parts (sym_desc s)) (\<lambda>(arg, ret).
     bind_run (if sym_kind s = SYM_IFUNC then
         (case classname of Some c \<Rightarrow> KImage_Add_IMeth img c (sym_name s) arg ret
          | None \<Rightarrow> add_unnamed_imeth img (sym_name s) arg ret)
       else KImage_Add_NFunc img classname (sym_name s) arg ret) (\<lambda>(_, img1). Inr img1))"

definition afunc_gen :: "string option \<Rightarrow> KImage \<Rightarrow> 't Symbol \<Rightarrow> KImage run" where
  "afunc_gen classname img s =
     bind_run (proto_parts (sym_desc s)) (\<lambda>(arg, ret).
     bind_run (case classname of Some c \<Rightarrow> KImage_Add_IMeth img c (sym_name s) arg ret
         | None \<Rightarrow> add_unnamed_imeth img (sym_name s) arg ret) (\<lambda>(_, img1). Inr img1))"

text \<open>\<open>__gen_image_func\<close>: the table \<open>symops\<close> has no generator for packages and references.\<close>

definition gen_image_func :: "addr \<Rightarrow> (string \<Rightarrow> KImage \<Rightarrow> 't \<Rightarrow> KImage run option) \<Rightarrow> string option \<Rightarrow> KImage \<Rightarrow>
    't Symbol \<Rightarrow> KImage run option" where
  "gen_image_func k visit classname img s = (case sym_kind s of
     SYM_CONST \<Rightarrow> Some (const_gen classname img s)
   | SYM_VAR \<Rightarrow> Some (var_gen classname img s)
   | SYM_FUNC \<Rightarrow> func_gen k classname img s
   | SYM_CLASS \<Rightarrow> class_gen visit img s
   | SYM_TRAIT \<Rightarrow> class_gen visit img s
   | SYM_IFUNC \<Rightarrow> Some (ifunc_gen classname img s)
   | SYM_NFUNC \<Rightarrow> Some (ifunc_gen classname img s)
   | SYM_AFUNC \<Rightarrow> Some (afunc_gen classname img s)
   | SYM_PKG \<Rightarrow> Some (Inl Null_Deref)
   | SYM_REF \<Rightarrow> Some (Inl Null_Deref))"

fun gen_all :: "(KImage \<Rightarrow> 's \<Rightarrow> KImage run option) \<Rightarrow> KImage \<Rightarrow> 's list \<Rightarrow> KImage run option" where
  "gen_all gen img [] = Some (Inr img)"
| "gen_all gen img (s # rest) = then_do (gen img s) (\<lambda>img1. gen_all gen img1 rest)"

text \<open>The symbols of a class, which hold no tables, and the symbols of a module.\<close>

definition gen_members :: "addr \<Rightarrow> string \<Rightarrow> KImage \<Rightarrow> unit STable \<Rightarrow> KImage run option" where
  "gen_members k classname img stbl =
     gen_all (gen_image_func k (\<lambda>_ im _. Some (Inr im)) (Some classname)) img (STable_Visit (Some stbl))"

definition Gen_Image :: "addr \<Rightarrow> Module \<Rightarrow> string option \<Rightarrow> KImage run option" where
  "Gen_Image k stbl pkgname =
     then_do (gen_all (gen_image_func k (gen_members k) None) (KImage_New pkgname) (STable_Visit (Some stbl)))
       (\<lambda>img. Some (KImage_Finish img))"

subsection \<open>Loading an image\<close>

definition isupper :: "char \<Rightarrow> bool" where
  "isupper c \<longleftrightarrow> c \<in> set ''ABCDEFGHIJKLMNOPQRSTUVWXYZ''"

text \<open>\<open>name[0]\<close> of an empty string is the terminator.\<close>

definition IsAccess :: "string \<Rightarrow> bool" where
  "IsAccess name = isupper (case cstr name of [] \<Rightarrow> NUL | c # _ \<Rightarrow> c)"

definition get_var_fn :: "'t STable \<Rightarrow> string \<times> TypeDesc \<times> int \<Rightarrow> 't STable" where
  "get_var_fn stbl call = (case call of (name, desc, k) \<Rightarrow>
     if \<not> IsAccess name then stbl
     else case (if k \<noteq> 0 then STable_Add_Const stbl (cstr name) (Some desc) else STable_Add_Var stbl (cstr name) (Some desc)) of
       None \<Rightarrow> stbl | Some t \<Rightarrow> t)"

definition get_func_fn ::
  "'t STable \<Rightarrow> string \<times> TypeDesc \<times> int \<times> nat \<times> uint8 list option \<times> int \<Rightarrow> 't STable run" where
  "get_func_fn stbl call = (case call of (name, desc, idx, type, code, sz) \<Rightarrow>
     if \<not> IsAccess name then Inr stbl
     else if type = ITEM_FUNC then
       Inr (case STable_Add_Func stbl (cstr name) (Some desc) of None \<Rightarrow> stbl | Some t \<Rightarrow> t)
     else if type = ITEM_NFUNC then
       Inr (case STable_Add_NFunc stbl (cstr name) (Some desc) of None \<Rightarrow> stbl | Some t \<Rightarrow> t)
     else Inl Assert_Failed)"

fun load_funcs ::
  "'t STable \<Rightarrow> (string \<times> TypeDesc \<times> int \<times> nat \<times> uint8 list option \<times> int) list \<Rightarrow> 't STable run" where
  "load_funcs stbl [] = Inr stbl"
| "load_funcs stbl (c # cs) = bind_run (get_func_fn stbl c) (\<lambda>t. load_funcs t cs)"

definition NOT_LOAD_ITEMS :: int where
  "NOT_LOAD_ITEMS = 2 ^ ITEM_CODE + 2 ^ ITEM_LOCVAR + 2 ^ ITEM_CONST"

text \<open>The result code, the package name and the table; \<open>n\<close> is the fuel for reading types.\<close>

definition STable_From_Image ::
  "nat \<Rightarrow> uint8 list option \<Rightarrow> DescTable \<Rightarrow> (int \<times> string option \<times> 't STable option) run" where
  "STable_From_Image n path tbl =
     bind_run (KImage_Read_File path NOT_LOAD_ITEMS) (\<lambda>r. case r of
         None \<Rightarrow> Inr (-1, None, None)
       | Some img \<Rightarrow>
           bind_run (KImage_Get_Vars n img tbl) (\<lambda>(vars, tbl1).
           let t1 = foldl get_var_fn STable_New vars in
           bind_run (KImage_Get_Funcs n img tbl1) (\<lambda>(funcs, tbl2).
           bind_run (load_funcs t1 funcs) (\<lambda>t2.
           bind_run (KImage_Get_NFuncs n img tbl2) (\<lambda>(nfuncs, tbl3).
           bind_run (load_funcs t2 nfuncs) (\<lambda>t3.
             Inr (0, Some (cstr (KImage_Get_PkgName img)), Some t3)))))))"

end
