(* ===== verification/SymbolGen.thy ===== *)
theory SymbolGen
  imports Symbol
begin

text \<open>
  What the generation of an image declares: every symbol of a module becomes the declarations of its
  kind, in the order of the table, with the symbols of a class after it and the local variables of a
  function after it. The size of the image is bounded along the way.
\<close>

subsection \<open>Growing\<close>

definition grown :: "KImage \<Rightarrow> nat \<Rightarrow> KImage \<Rightarrow> bool" where
  "grown img c img' \<longleftrightarrow> im_header img' = im_header img \<and> its (im_store img') ITEM_MAP = its (im_store img) ITEM_MAP \<and>
     within (im_store img) c (im_store img')"

lemma grown_refl [simp]: "grown img 0 img"
  by (simp add: grown_def)

lemma grown_trans: "grown a m b \<Longrightarrow> grown b n c \<Longrightarrow> grown a (m + n) c"
  using within_trans by (auto simp: grown_def)

lemma grown_less: "grown a m b \<Longrightarrow> m \<le> n \<Longrightarrow> grown a n b"
  by (auto simp: grown_def within_def)

lemma img_grow_grown: "img_grow img c img' \<Longrightarrow> grown img c img'"
  by (simp add: img_grow_def grown_def pools_grow_def)

lemma add_decl:
  assumes "image_rel img ds" "decl_plain d"
    and "items_ok (im_store img) \<Longrightarrow> bytes_of (im_store img) + decl_cost d < FILE_MAX \<Longrightarrow> decl_fits d"
  shows "\<exists>img'. KImage_Add img d = Inr (int (length (of_type (decl_type d) ds)), img') \<and>
    image_rel img' (ds @ [d]) \<and> grown img (decl_cost d) img'"
proof -
  obtain img' where a: "KImage_Add img d = Inr (int (length (of_type (decl_type d) ds)), img')" "image_rel img' (ds @ [d])"
    "im_header img' = im_header img" "its (im_store img') ITEM_MAP = its (im_store img) ITEM_MAP"
    using KImage_Add_rel [OF assms(1,2)] by blast
  have st: "store_ok (im_store img)" using assms(1) by (simp add: image_rel_def)
  have "within (im_store img) (decl_cost d) (im_store img')"
  proof (cases "items_ok (im_store img) \<and> bytes_of (im_store img) + decl_cost d < FILE_MAX")
    case True
    with KImage_Add_within [OF st assms(2) _ a(1)] assms(3) show ?thesis by blast
  next
    case False
    then show ?thesis by (auto simp: within_def)
  qed
  with a show ?thesis by (simp add: grown_def)
qed

lemma image_rel_count:
  "image_rel img ds \<Longrightarrow> ty \<in> decl_types \<Longrightarrow> length (its (im_store img) ty) = length (of_type ty ds)"
  using decl_count [OF image_rel_kind, of img ds ty] by simp

subsection \<open>Local variables\<close>

definition type_ok :: "TypeDesc \<Rightarrow> bool" where
  "type_ok d \<longleftrightarrow> plain_type d \<and> dims_ok d"

definition locvar_ok :: "VarSymbol \<Rightarrow> bool" where
  "locvar_ok v \<longleftrightarrow> vs_kind v = SYM_VAR \<and> vs_desc v \<noteq> None \<and> type_ok (the (vs_desc v)) \<and> int32_range (vs_index v)"

definition locvar_decls :: "nat \<Rightarrow> VarSymbol list \<Rightarrow> Decl list" where
  "locvar_decls index vs = map (\<lambda>v. DLocVar (vs_name v) (the (vs_desc v)) (vs_index v) (int index)) vs"

lemma add_locvar_spec:
  assumes "image_rel img ds" "list_all locvar_ok vs" "ty \<in> decl_types" "j < length (of_type ty ds)"
  shows "\<exists>img'. add_locvar (int j) img vs = Inr img' \<and> image_rel img' (ds @ locvar_decls j vs) \<and>
    grown img (sum_list (map decl_cost (locvar_decls j vs))) img'"
  using assms
proof (induction vs arbitrary: img ds)
  case Nil
  then show ?case by (simp add: locvar_decls_def)
next
  case (Cons v vs)
  obtain t where v: "vs_kind v = SYM_VAR" "vs_desc v = Some t" "type_ok t" "int32_range (vs_index v)"
    using Cons.prems(2) by (auto simp: locvar_ok_def)
  let ?d = "DLocVar (vs_name v) t (vs_index v) (int j)"
  have "decl_fits ?d" if "items_ok (im_store img)" "bytes_of (im_store img) + decl_cost ?d < FILE_MAX"
  proof -
    have ty: "0 < ty" "ty < ITEM_MAX" using Cons.prems(3) by (auto simp: decl_types_def item_types)
    have "int32_range (int j)"
      using index_range [OF that ty, of "int j"] image_rel_count [OF Cons.prems(1,3)] Cons.prems(4) by simp
    with v show ?thesis by (simp add: type_ok_def)
  qed
  then obtain img1 where 1: "KImage_Add img ?d = Inr (int (length (of_type (decl_type ?d) ds)), img1)"
    "image_rel img1 (ds @ [?d])" "grown img (decl_cost ?d) img1"
    using add_decl [OF Cons.prems(1), of ?d] v(3) by (auto simp: type_ok_def)
  have "j < length (of_type ty (ds @ [?d]))" using Cons.prems(4) by simp
  from Cons.IH [OF 1(2) _ Cons.prems(3) this] Cons.prems(2)
  obtain img2 where 2: "add_locvar (int j) img1 vs = Inr img2" "image_rel img2 (ds @ ?d # locvar_decls j vs)"
    "grown img1 (sum_list (map decl_cost (locvar_decls j vs))) img2" by auto
  from grown_trans [OF 1(3) 2(3)] 1(1) 2(1,2) v show ?case by (simp add: locvar_decls_def the_desc_def)
qed

subsection \<open>Symbols without a table\<close>

definition block_good :: "CodeBlock option \<Rightarrow> bool" where
  "block_good c \<longleftrightarrow> (case c of None \<Rightarrow> False | Some b \<Rightarrow> cb_insts b \<noteq> [] \<and> list_all supported (cb_insts b))"

fun proto_ok :: "TypeDesc option \<Rightarrow> bool" where
  "proto_ok (Some (TD_Proto arg ret)) = (list_all type_ok arg \<and> list_all type_ok ret)"
| "proto_ok d = False"

lemma proto_okE:
  assumes "proto_ok d"
  obtains arg ret where "d = Some (TD_Proto arg ret)" "list_all type_ok arg" "list_all type_ok ret"
  using assms by (cases d rule: proto_ok.cases) auto

text \<open>Symbols the generator can handle in a module (\<open>None\<close>) or in a class.\<close>

fun member_ok :: "string option \<Rightarrow> 't Symbol \<Rightarrow> bool" where
  "member_ok cls s \<longleftrightarrow> (case sym_kind s of
     SYM_CONST \<Rightarrow> cls = None \<and> sym_desc s \<noteq> None \<and> type_ok (the (sym_desc s)) \<and> strlen (TypeDesc_ToString (the (sym_desc s))) < 64
   | SYM_VAR \<Rightarrow> sym_desc s \<noteq> None \<and> type_ok (the (sym_desc s))
   | SYM_FUNC \<Rightarrow> proto_ok (sym_desc s) \<and> block_good (sym_code s) \<and> list_all locvar_ok (sym_locvec s)
   | SYM_IFUNC \<Rightarrow> cls \<noteq> None \<and> proto_ok (sym_desc s)
   | SYM_NFUNC \<Rightarrow> proto_ok (sym_desc s)
   | _ \<Rightarrow> False)"

fun proto_of :: "TypeDesc option \<Rightarrow> TypeDesc list \<times> TypeDesc list" where
  "proto_of (Some (TD_Proto arg ret)) = (arg, ret)"
| "proto_of d = ([], [])"

definition func_decl :: "string option \<Rightarrow> 't Symbol \<Rightarrow> uint8 list \<Rightarrow> Decl" where
  "func_decl cls s codes = (case proto_of (sym_desc s) of (arg, ret) \<Rightarrow>
     (case cls of None \<Rightarrow> DFunc (sym_name s) arg ret codes | Some c \<Rightarrow> DMethod c (sym_name s) arg ret codes))"

text \<open>The declarations of a symbol, after the declarations \<open>ds0\<close>.\<close>

definition member_decls :: "string option \<Rightarrow> 't Symbol \<Rightarrow> Decl list \<Rightarrow> Decl list \<Rightarrow> bool" where
  "member_decls cls s ds0 ds \<longleftrightarrow> (case sym_kind s of
     SYM_CONST \<Rightarrow> ds = [DVar (sym_name s) (the (sym_desc s)) 1]
   | SYM_VAR \<Rightarrow> ds = [case cls of None \<Rightarrow> DVar (sym_name s) (the (sym_desc s)) 0
        | Some c \<Rightarrow> DField c (sym_name s) (the (sym_desc s))]
   | SYM_FUNC \<Rightarrow> \<exists>codes. ds = func_decl cls s codes #
        locvar_decls (length (of_type (decl_type (func_decl cls s codes)) ds0)) (sym_locvec s)
   | SYM_IFUNC \<Rightarrow> ds = [case proto_of (sym_desc s) of (arg, ret) \<Rightarrow> DIMeth (the cls) (sym_name s) arg ret]
   | SYM_NFUNC \<Rightarrow> ds = [case proto_of (sym_desc s) of (arg, ret) \<Rightarrow> DNFunc cls (sym_name s) arg ret]
   | _ \<Rightarrow> False)"

text \<open>How much a symbol adds at most.\<close>

definition member_cost :: "string option \<Rightarrow> 't Symbol \<Rightarrow> nat" where
  "member_cost cls s = (case sym_kind s of
     SYM_CONST \<Rightarrow> decl_cost (DVar (sym_name s) (the (sym_desc s)) 1)
   | SYM_VAR \<Rightarrow> decl_cost (case cls of None \<Rightarrow> DVar (sym_name s) (the (sym_desc s)) 0
        | Some c \<Rightarrow> DField c (sym_name s) (the (sym_desc s)))
   | SYM_FUNC \<Rightarrow> insts_cost (cb_insts (the (sym_code s))) +
        decl_cost (func_decl cls s (replicate (7 * length (cb_insts (the (sym_code s)))) 0)) +
        sum_list (map decl_cost (locvar_decls 0 (sym_locvec s)))
   | SYM_IFUNC \<Rightarrow> decl_cost (case proto_of (sym_desc s) of (arg, ret) \<Rightarrow> DIMeth (the cls) (sym_name s) arg ret)
   | SYM_NFUNC \<Rightarrow> decl_cost (case proto_of (sym_desc s) of (arg, ret) \<Rightarrow> DNFunc cls (sym_name s) arg ret)
   | _ \<Rightarrow> 0)"

lemma func_code_taken:
  "KImage_Add_Func img name arg ret raw n = KImage_Add_Func img name arg ret (take (nat n) raw) n"
  "KImage_Add_Method img c name arg ret raw n = KImage_Add_Method img c name arg ret (take (nat n) raw) n"
  by (simp_all add: KImage_Add_Func_def KImage_Add_Method_def codeitem_set_def CodeItem_New_def)

lemma codes_length:
  "list_all2 (inst_code st) is codes \<Longrightarrow> length is \<le> length (concat codes) \<and> length (concat codes) \<le> 7 * length is"
proof (induction rule: list_all2_induct)
  case (Cons i "is" c codes)
  with inst_code_length [OF Cons(1)] show ?case by (cases c) auto
qed simp

text \<open>What a generator does for a symbol: it succeeds, and the image holds the new declarations.\<close>

definition generates :: "(KImage \<Rightarrow> 's \<Rightarrow> KImage run option) \<Rightarrow> ('s \<Rightarrow> Decl list \<Rightarrow> Decl list \<Rightarrow> bool) \<Rightarrow> ('s \<Rightarrow> nat) \<Rightarrow> 's \<Rightarrow> bool" where
  "generates gen R cost s \<longleftrightarrow> (\<forall>img ds0. image_rel img ds0 \<longrightarrow> (\<exists>img' ds. gen img s = Some (Inr img') \<and>
     image_rel img' (ds0 @ ds) \<and> grown img (cost s) img' \<and> R s ds0 ds))"

lemma func_generates:
  assumes "member_ok cls s" "sym_kind s = SYM_FUNC" "image_rel img ds0"
  shows "\<exists>img' ds. func_gen k cls img s = Some (Inr img') \<and> image_rel img' (ds0 @ ds) \<and>
    grown img (member_cost cls s) img' \<and> member_decls cls s ds0 ds"
proof -
  obtain arg ret where p: "sym_desc s = Some (TD_Proto arg ret)" "list_all type_ok arg" "list_all type_ok ret"
    using assms(1,2) by (auto elim: proto_okE)
  obtain b where b: "sym_code s = Some b" "cb_insts b \<noteq> []" "\<forall>i \<in> set (cb_insts b). supported i"
    using assms(1,2) by (auto simp: block_good_def list_all_iff split: option.splits)
  have lv: "list_all locvar_ok (sym_locvec s)" using assms(1,2) by simp
  have st: "store_ok (im_store img)" using assms(3) by (simp add: image_rel_def)
  obtain n raw img1 codes where 1: "CodeBlock_To_RawCode k img (Some b) = Some (Inr (n, Some raw, img1))"
    "n = int (length (concat codes))" "take (nat n) raw = concat codes"
    "list_all2 (inst_code (im_store img1)) (cb_insts b) codes" "img_grow img (insts_cost (cb_insts b)) img1"
    using To_RawCode_spec [OF st b(3), of k] by blast
  define c where "c = concat codes"
  let ?d = "func_decl cls s c"
  have len: "c \<noteq> []" "length c \<le> 7 * length (cb_insts b)" using codes_length [OF 1(4)] b(2) unfolding c_def by (metis length_0_conv le_zero_eq, blast)
  have rel1: "image_rel img1 ds0" by (rule image_rel_grow [OF assms(3)]) (use 1(5) in \<open>simp add: img_grow_def\<close>)
  have d: "decl_plain ?d" "decl_fits ?d"
    using p len(1) by (auto simp: func_decl_def type_ok_def list_all_iff split: option.splits)
  obtain img2 where 2: "KImage_Add img1 ?d = Inr (int (length (of_type (decl_type ?d) ds0)), img2)" "image_rel img2 (ds0 @ [?d])"
    "grown img1 (decl_cost ?d) img2" using add_decl [OF rel1 d(1) d(2)] by blast
  let ?j = "length (of_type (decl_type ?d) ds0)"
  have "decl_type ?d \<in> decl_types" by (auto simp: func_decl_def decl_types_def split: prod.split option.split)
  from add_locvar_spec [OF 2(2) lv this, of ?j]
  obtain img3 where 3: "add_locvar (int ?j) img2 (sym_locvec s) = Inr img3"
    "image_rel img3 (ds0 @ ?d # locvar_decls ?j (sym_locvec s))"
    "grown img2 (sum_list (map decl_cost (locvar_decls ?j (sym_locvec s)))) img3" by auto
  have call: "(case cls of Some c \<Rightarrow> KImage_Add_Method img1 c (sym_name s) arg ret raw n
      | None \<Rightarrow> KImage_Add_Func img1 (sym_name s) arg ret raw n) = KImage_Add img1 ?d"
    using p(1) 1(2,3) c_def by (cases cls) (simp_all add: func_decl_def func_code_taken [where raw = raw])
  have gen: "func_gen k cls img s = Some (Inr img3)"
    using 1(1) p(1) b(1) call 2(1) 3(1) by (simp add: func_gen_def proto_parts_def)
  have "sum_list (map decl_cost (locvar_decls ?j (sym_locvec s))) = sum_list (map decl_cost (locvar_decls 0 (sym_locvec s)))"
    by (simp add: locvar_decls_def o_def)
  moreover have "decl_cost ?d \<le> decl_cost (func_decl cls s (replicate (7 * length (cb_insts b)) 0))"
    using len by (simp add: func_decl_def split: prod.split option.split)
  ultimately have "grown img (member_cost cls s) img3"
    using grown_less [OF grown_trans [OF grown_trans [OF img_grow_grown [OF 1(5)] 2(3)] 3(3)]] assms(2) b(1)
    by (simp add: member_cost_def)
  with gen 3(2) assms(2) show ?thesis by (auto simp: member_decls_def)
qed

lemma member_generates:
  assumes "member_ok cls s"
  shows "generates (gen_image_func k visit cls) (member_decls cls) (member_cost cls) s"
  unfolding generates_def
proof (intro allI impI)
  fix img ds0 assume rel: "image_rel img ds0"
  note add = add_decl [OF rel]
  show "\<exists>img' ds. gen_image_func k visit cls img s = Some (Inr img') \<and> image_rel img' (ds0 @ ds) \<and>
    grown img (member_cost cls s) img' \<and> member_decls cls s ds0 ds"
  proof (cases "sym_kind s")
    case SYM_CONST
    with assms add [of "DVar (sym_name s) (the (sym_desc s)) 1"] show ?thesis
      by (auto simp: gen_image_func_def const_gen_def const_show_def the_desc_def type_ok_def member_decls_def member_cost_def int32_range_def)
  next
    case SYM_VAR
    with assms add [of "case cls of None \<Rightarrow> DVar (sym_name s) (the (sym_desc s)) 0 | Some c \<Rightarrow> DField c (sym_name s) (the (sym_desc s))"]
    show ?thesis
      by (cases cls) (auto simp: gen_image_func_def var_gen_def the_desc_def type_ok_def member_decls_def member_cost_def int32_range_def)
  next
    case SYM_FUNC
    with func_generates [OF assms SYM_FUNC rel, of k] show ?thesis by (simp add: gen_image_func_def)
  next
    case SYM_IFUNC
    with assms obtain arg ret c where "sym_desc s = Some (TD_Proto arg ret)" "list_all type_ok arg" "list_all type_ok ret" "cls = Some c"
      by (auto elim: proto_okE)
    with SYM_IFUNC add [of "DIMeth c (sym_name s) arg ret"] show ?thesis
      by (auto simp: gen_image_func_def ifunc_gen_def proto_parts_def type_ok_def list_all_iff member_decls_def member_cost_def)
  next
    case SYM_NFUNC
    with assms obtain arg ret where "sym_desc s = Some (TD_Proto arg ret)" "list_all type_ok arg" "list_all type_ok ret"
      by (auto elim: proto_okE)
    with SYM_NFUNC add [of "DNFunc cls (sym_name s) arg ret"] show ?thesis
      by (auto simp: gen_image_func_def ifunc_gen_def proto_parts_def type_ok_def list_all_iff member_decls_def member_cost_def)
  qed (use assms in simp_all)
qed


subsection \<open>Tables\<close>

fun decls_of :: "('s \<Rightarrow> Decl list \<Rightarrow> Decl list \<Rightarrow> bool) \<Rightarrow> 's list \<Rightarrow> Decl list \<Rightarrow> Decl list \<Rightarrow> bool" where
  "decls_of R [] ds0 ds \<longleftrightarrow> ds = []"
| "decls_of R (s # rest) ds0 ds \<longleftrightarrow> (\<exists>ds1 ds2. ds = ds1 @ ds2 \<and> R s ds0 ds1 \<and> decls_of R rest (ds0 @ ds1) ds2)"

lemma gen_all_generates:
  assumes "\<forall>s \<in> set ss. generates gen R cost s"
  shows "generates (gen_all gen) (decls_of R) (\<lambda>ss. sum_list (map cost ss)) ss"
  unfolding generates_def
proof (intro allI impI)
  fix img ds0
  show "image_rel img ds0 \<Longrightarrow> \<exists>img' ds. gen_all gen img ss = Some (Inr img') \<and> image_rel img' (ds0 @ ds) \<and>
    grown img (sum_list (map cost ss)) img' \<and> decls_of R ss ds0 ds"
    using assms
  proof (induction ss arbitrary: img ds0)
    case (Cons s rest)
    then obtain img1 ds1 where 1: "gen img s = Some (Inr img1)" "image_rel img1 (ds0 @ ds1)" "grown img (cost s) img1" "R s ds0 ds1"
      unfolding generates_def by (meson list.set_intros(1))
    obtain img2 ds2 where 2: "gen_all gen img1 rest = Some (Inr img2)" "image_rel img2 ((ds0 @ ds1) @ ds2)"
      "grown img1 (sum_list (map cost rest)) img2" "decls_of R rest (ds0 @ ds1) ds2"
      using Cons.IH [OF 1(2)] Cons.prems(2) by auto
    with 1 grown_trans [OF 1(3) 2(3)] show ?case
      by (intro exI [of _ img2] exI [of _ "ds1 @ ds2"]) auto
  qed simp
qed

text \<open>The symbols of a module: classes and traits bring their members along.\<close>

abbreviation members_of :: "'t STable option \<Rightarrow> 't Symbol list" where
  "members_of t \<equiv> STable_Visit t"

definition class_decl :: "'t Symbol \<Rightarrow> Decl" where
  "class_decl s = (if sym_kind s = SYM_CLASS then DClass (sym_name s) (sym_supers s) else DTrait (sym_name s) (sym_supers s))"

definition symbol_ok :: "unit STable Symbol \<Rightarrow> bool" where
  "symbol_ok s \<longleftrightarrow> (if sym_kind s \<in> {SYM_CLASS, SYM_TRAIT}
     then list_all type_ok (sym_supers s) \<and> list_all (member_ok (Some (sym_name s))) (members_of (sym_stbl s))
     else member_ok None s)"

definition symbol_decls :: "unit STable Symbol \<Rightarrow> Decl list \<Rightarrow> Decl list \<Rightarrow> bool" where
  "symbol_decls s ds0 ds \<longleftrightarrow> (if sym_kind s \<in> {SYM_CLASS, SYM_TRAIT}
     then \<exists>ds1. ds = class_decl s # ds1 \<and>
       decls_of (member_decls (Some (sym_name s))) (members_of (sym_stbl s)) (ds0 @ [class_decl s]) ds1
     else member_decls None s ds0 ds)"

definition symbol_cost :: "unit STable Symbol \<Rightarrow> nat" where
  "symbol_cost s = (if sym_kind s \<in> {SYM_CLASS, SYM_TRAIT}
     then decl_cost (class_decl s) + sum_list (map (member_cost (Some (sym_name s))) (members_of (sym_stbl s)))
     else member_cost None s)"

lemma class_generates:
  assumes "symbol_ok s" "sym_kind s \<in> {SYM_CLASS, SYM_TRAIT}" "image_rel img ds0"
  shows "\<exists>img' ds. class_gen (gen_members k) img s = Some (Inr img') \<and> image_rel img' (ds0 @ ds) \<and>
    grown img (symbol_cost s) img' \<and> symbol_decls s ds0 ds"
proof -
  let ?d = "class_decl s"
  have ok: "list_all type_ok (sym_supers s)" "\<forall>m \<in> set (members_of (sym_stbl s)). member_ok (Some (sym_name s)) m"
    using assms(1,2) by (auto simp: symbol_ok_def list_all_iff)
  have d: "decl_plain ?d" "decl_fits ?d" using ok(1) by (auto simp: class_decl_def type_ok_def list_all_iff)
  obtain img1 where 1: "KImage_Add img ?d = Inr (int (length (of_type (decl_type ?d) ds0)), img1)" "image_rel img1 (ds0 @ [?d])"
    "grown img (decl_cost ?d) img1" using add_decl [OF assms(3) d(1) d(2)] by blast
  let ?gen = "gen_image_func k (\<lambda>_ im _. Some (Inr im)) (Some (sym_name s))"
  have "generates (gen_all ?gen) (decls_of (member_decls (Some (sym_name s))))
      (\<lambda>ss. sum_list (map (member_cost (Some (sym_name s))) ss)) (members_of (sym_stbl s))"
    by (rule gen_all_generates) (use ok(2) member_generates in blast)
  then obtain img2 ds2 where 2: "gen_all ?gen img1 (members_of (sym_stbl s)) = Some (Inr img2)"
    "image_rel img2 ((ds0 @ [?d]) @ ds2)" "grown img1 (sum_list (map (member_cost (Some (sym_name s))) (members_of (sym_stbl s)))) img2"
    "decls_of (member_decls (Some (sym_name s))) (members_of (sym_stbl s)) (ds0 @ [?d]) ds2"
    using 1(2) unfolding generates_def by blast
  have "class_gen (gen_members k) img s = Some (Inr img2)"
    using 1(1) 2(1) by (cases "sym_stbl s") (auto simp: class_gen_def class_decl_def gen_members_def STable_Visit_def)
  moreover have "grown img (symbol_cost s) img2" using grown_trans [OF 1(3) 2(3)] assms(2) by (simp add: symbol_cost_def)
  moreover have "symbol_decls s ds0 (?d # ds2)" using 2(4) assms(2) by (simp add: symbol_decls_def)
  ultimately show ?thesis using 2(2) by (intro exI [of _ img2] exI [of _ "?d # ds2"]) simp
qed

lemma symbol_generates:
  assumes "symbol_ok s"
  shows "generates (gen_image_func k (gen_members k) None) symbol_decls symbol_cost s"
proof (cases "sym_kind s \<in> {SYM_CLASS, SYM_TRAIT}")
  case True
  then have "gen_image_func k (gen_members k) None img s = class_gen (gen_members k) img s" for img
    by (auto simp: gen_image_func_def)
  with class_generates [OF assms True] show ?thesis by (simp add: generates_def)
next
  case False
  then have eq: "symbol_decls s = member_decls None s" "symbol_cost s = member_cost None s" "member_ok None s"
    using assms by (auto simp: symbol_decls_def symbol_cost_def symbol_ok_def fun_eq_iff)
  from member_generates [OF eq(3), of k "gen_members k"] eq(1,2) show ?thesis by (simp add: generates_def)
qed

text \<open>A module that can be compiled.\<close>

definition module_ok :: "Module \<Rightarrow> bool" where
  "module_ok m \<longleftrightarrow> list_all symbol_ok (STable_Visit (Some m)) \<and>
     sum_list (map symbol_cost (STable_Visit (Some m))) + 276 < FILE_MAX"

lemma module_image:
  assumes "module_ok m"
  shows "\<exists>img ds. gen_all (gen_image_func k (gen_members k) None) (KImage_New name) (STable_Visit (Some m)) = Some (Inr img) \<and>
    image_rel img ds \<and> fits_file img \<and> decls_of symbol_decls (STable_Visit (Some m)) [] ds \<and>
    grown (KImage_New name) (sum_list (map symbol_cost (STable_Visit (Some m)))) img"
proof -
  let ?ss = "STable_Visit (Some m)"
  have "generates (gen_all (gen_image_func k (gen_members k) None)) (decls_of symbol_decls) (\<lambda>ss. sum_list (map symbol_cost ss)) ?ss"
    by (rule gen_all_generates) (use assms symbol_generates in \<open>auto simp: module_ok_def list_all_iff\<close>)
  then obtain img ds where img: "gen_all (gen_image_func k (gen_members k) None) (KImage_New name) ?ss = Some (Inr img)"
    "image_rel img ds" "grown (KImage_New name) (sum_list (map symbol_cost ?ss)) img" "decls_of symbol_decls ?ss [] ds"
    unfolding generates_def using image_rel_New by fastforce
  have c: "sum_list (map symbol_cost ?ss) + 276 < FILE_MAX" using assms by (simp add: module_ok_def)
  with img(3) bytes_New have b: "items_ok (im_store img)" "bytes_of (im_store img) \<le> sum_list (map symbol_cost ?ss)"
    by (auto simp: grown_def within_def)
  have "int (file_bytes (im_store img)) < 2147483648"
    using b(2) c unfolding file_bytes_def bytes_of_def [symmetric] by (simp add: item_types FILE_MAX_def)
  with b(1) img(3) have "fits_file img" by (auto simp: fits_file_def grown_def KImage_New_def items_New item_types)
  with img show ?thesis by blast
qed

end
