(* ===== verification/SymbolLoad.thy ===== *)
theory SymbolLoad
  imports SymbolGen
begin

text \<open>
  Loading the public symbols of an image, and the way from a module through its image and the file of
  it to the table another module is compiled against.
\<close>

declare bind_run_eq_Inr_iff [simp del]

subsection \<open>What is loaded\<close>

text \<open>Name, kind and type of what a declaration makes visible.\<close>

type_synonym export = "string \<times> SymKind \<times> TypeDesc"

fun export :: "Decl \<Rightarrow> export list" where
  "export (DVar name desc konst) = [(name, if konst \<noteq> 0 then SYM_CONST else SYM_VAR, desc)]"
| "export (DFunc name arg ret codes) = [(name, SYM_FUNC, TD_Proto arg ret)]"
| "export (DNFunc klazz name arg ret) = [(name, SYM_NFUNC, TD_Proto arg ret)]"
| "export d = []"

text \<open>A name that is taken is not loaded again.\<close>

definition extend :: "export list \<Rightarrow> export \<Rightarrow> export list" where
  "extend es e = (if \<not> IsAccess (fst e) \<or> (\<exists>e' \<in> set es. str_eq (fst e') (fst e)) then es else es @ [e])"

definition loaded :: "Decl list \<Rightarrow> export list" where
  "loaded ds = foldl extend [] (concat (map export (of_type ITEM_VAR ds @ of_type ITEM_FUNC ds @ of_type ITEM_NFUNC ds)))"

text \<open>The table holds exactly these symbols, in this order.\<close>

definition symbol_of :: "string \<times> 't Symbol \<Rightarrow> export \<Rightarrow> bool" where
  "symbol_of p e \<longleftrightarrow> cstr (fst p) = cstr (fst e) \<and> sym_kind (snd p) = fst (snd e) \<and>
     (\<exists>d. sym_desc (snd p) = Some d \<and> same_desc d (snd (snd e)))"

definition holds :: "'t STable \<Rightarrow> export list \<Rightarrow> bool" where
  "holds t es \<longleftrightarrow> nt_ok (st_table t) \<and> list_all2 symbol_of (nt_members (st_table t)) es"

lemma holds_New: "holds STable_New []"
  by (simp add: holds_def STable_New_def)

lemma insert_holds:
  assumes "holds t es" "symbol_of (sym_name s, s) e" "IsAccess (fst e)"
  shows "holds (case insert_symbol t s of None \<Rightarrow> t | Some t' \<Rightarrow> t') (extend es e)"
proof -
  have ok: "nt_ok (st_table t)" and all: "list_all2 symbol_of (nt_members (st_table t)) es"
    using assms(1) by (simp_all add: holds_def)
  have name: "cstr (sym_name s) = cstr (fst e)" using assms(2) by (simp add: symbol_of_def)
  have "(\<exists>p \<in> set (nt_members (st_table t)). str_eq (fst p) (sym_name s)) \<longleftrightarrow> (\<exists>e' \<in> set es. str_eq (fst e') (fst e))"
    using all
  proof (induction rule: list_all2_induct)
    case (Cons p ps e' es')
    then show ?case using name by (auto simp: symbol_of_def str_eq_def)
  qed simp
  then have taken: "nt_get (st_table t) (sym_name s) = None \<longleftrightarrow> \<not> (\<exists>e' \<in> set es. str_eq (fst e') (fst e))"
    unfolding nt.get_None [OF ok] by blast
  show ?thesis
  proof (cases "nt_get (st_table t) (sym_name s) = None")
    case True
    then obtain t' where "nt_add (st_table t) (sym_name s) s = Some t'" "nt_ok t'"
      "nt_members t' = nt_members (st_table t) @ [(sym_name s, s)]" using nt.add_new [OF ok True] by blast
    with True taken all assms(2,3) show ?thesis
      by (simp add: insert_symbol_def holds_def extend_def list_all2_appendI)
  next
    case False
    with nt.add_taken [OF ok False] taken assms(1) show ?thesis
      by (simp add: insert_symbol_def extend_def)
  qed
qed

lemma holds_varindex: "holds (t\<lparr>st_varindex := n\<rparr>) es = holds t es"
  by (simp add: holds_def)

lemma IsAccess_cstr: "cstr a = cstr b \<Longrightarrow> IsAccess a = IsAccess b"
  by (simp add: IsAccess_def)

text \<open>One callback.\<close>

lemma get_var_fn_holds:
  assumes "holds t es" "var_call k call d"
  shows "holds (get_var_fn t call) (foldl extend es (export d))"
proof -
  obtain name desc konst where d: "d = DVar name desc konst" using assms(2) by (cases d; cases call) auto
  obtain nm ty where call: "call = (nm, ty, konst)" "cstr nm = cstr name" "same_desc ty desc"
    using assms(2) d by (cases call) (auto simp: str_eq_def)
  show ?thesis
  proof (cases "IsAccess name")
    case False
    with IsAccess_cstr [OF call(2)] d call(1) assms(1) show ?thesis by (simp add: get_var_fn_def extend_def)
  next
    case True
    let ?s = "\<lambda>kind. (Symbol_New kind (cstr nm))\<lparr>sym_desc := Some ty, sym_index := st_varindex t\<rparr>"
    have "holds (case insert_symbol t (?s kind) of None \<Rightarrow> t | Some t' \<Rightarrow> t') (extend es (name, kind, desc))" for kind
      by (rule insert_holds [OF assms(1)])
        (use True call in \<open>simp_all add: symbol_of_def Symbol_New_def cstr_idem\<close>)
    then have "holds (case map_option (\<lambda>t'. t'\<lparr>st_varindex := st_varindex t + 1\<rparr>) (insert_symbol t (?s kind)) of None \<Rightarrow> t | Some t' \<Rightarrow> t')
        (extend es (name, kind, desc))" for kind
      by (cases "insert_symbol t (?s kind)") (auto simp: holds_varindex dest: meta_spec [of _ kind] split: option.splits)
    with True IsAccess_cstr [OF call(2)] d call(1) show ?thesis
      by (simp add: get_var_fn_def STable_Add_Const_def STable_Add_Var_def)
  qed
qed

lemma get_func_fn_holds:
  assumes "holds t es" "func_like (\<lambda>_ _ _. True) k call d \<or> func_call k call d"
  shows "\<exists>t'. get_func_fn t call = Inr t' \<and> holds t' (foldl extend es (export d))"
proof -
  obtain nm ty ix type c sz where call: "call = (nm, ty, ix, type, c, sz)" by (cases call)
  have "(\<exists>name arg ret codes. d = DFunc name arg ret codes \<and> cstr nm = cstr name \<and> same_desc ty (TD_Proto arg ret) \<and> type = ITEM_FUNC) \<or>
    (\<exists>klazz name arg ret. d = DNFunc klazz name arg ret \<and> cstr nm = cstr name \<and> same_desc ty (TD_Proto arg ret) \<and> type = ITEM_NFUNC)"
    using assms(2) call by (cases d) (auto simp: str_eq_def)
  then obtain name kind desc where d: "export d = [(name, kind, desc)]" "cstr nm = cstr name" "same_desc ty desc"
    "kind = SYM_FUNC \<and> type = ITEM_FUNC \<or> kind = SYM_NFUNC \<and> type = ITEM_NFUNC" by auto
  show ?thesis
  proof (cases "IsAccess name")
    case False
    with IsAccess_cstr [OF d(2)] d(1) call assms(1) show ?thesis by (simp add: get_func_fn_def extend_def)
  next
    case True
    have "holds (case insert_symbol t ((Symbol_New kind (cstr nm))\<lparr>sym_desc := Some ty\<rparr>) of None \<Rightarrow> t | Some t' \<Rightarrow> t')
        (extend es (name, kind, desc))"
      by (rule insert_holds [OF assms(1)]) (use True d in \<open>simp_all add: symbol_of_def Symbol_New_def cstr_idem\<close>)
    with True IsAccess_cstr [OF d(2)] d(1,4) call show ?thesis
      by (auto simp: get_func_fn_def STable_Add_Func_def STable_Add_NFunc_def STable_Add_Proto_def item_types)
  qed
qed

text \<open>All callbacks.\<close>

lemma calls_match_Cons:
  assumes "calls_match P cs (d # ds)"
  obtains c cs' where "cs = c # cs'" "P 0 c d" "calls_match (\<lambda>k. P (Suc k)) cs' ds"
proof (cases cs)
  case (Cons c cs')
  have "\<forall>k < Suc (length ds). P k ((c # cs') ! k) ((d # ds) ! k)" using assms Cons by (simp add: calls_match_def)
  then have "P 0 c d" "\<forall>k < length ds. P (Suc k) (cs' ! k) (ds ! k)" by (fastforce)+
  with that Cons assms show ?thesis by (simp add: calls_match_def)
qed (use assms in \<open>simp add: calls_match_def\<close>)

lemma vars_hold:
  assumes "holds t es" "calls_match P cs ds" "\<And>k c d. P k c d \<Longrightarrow> \<exists>j. var_call j c d"
  shows "holds (foldl get_var_fn t cs) (foldl extend es (concat (map export ds)))"
  using assms
proof (induction ds arbitrary: t es cs P)
  case (Cons d ds)
  obtain c cs' where c: "cs = c # cs'" "P 0 c d" "calls_match (\<lambda>k. P (Suc k)) cs' ds" using calls_match_Cons [OF Cons.prems(2)] .
  obtain j where "var_call j c d" using Cons.prems(3) [OF c(2)] by blast
  from Cons.IH [OF get_var_fn_holds [OF Cons.prems(1) this] c(3)] Cons.prems(3) c(1) show ?case by simp
qed (simp add: calls_match_def)

lemma funcs_hold:
  assumes "holds t es" "calls_match P cs ds" "\<And>k c d. P k c d \<Longrightarrow> \<exists>j. func_like (\<lambda>_ _ _. True) j c d \<or> func_call j c d"
  shows "\<exists>t'. load_funcs t cs = Inr t' \<and> holds t' (foldl extend es (concat (map export ds)))"
  using assms
proof (induction ds arbitrary: t es cs P)
  case (Cons d ds)
  obtain c cs' where c: "cs = c # cs'" "P 0 c d" "calls_match (\<lambda>k. P (Suc k)) cs' ds" using calls_match_Cons [OF Cons.prems(2)] .
  obtain j where "func_like (\<lambda>_ _ _. True) j c d \<or> func_call j c d" using Cons.prems(3) [OF c(2)] by blast
  from get_func_fn_holds [OF Cons.prems(1) this] obtain t1 where
    t1: "get_func_fn t c = Inr t1" "holds t1 (foldl extend es (export d))" by blast
  from Cons.IH [OF t1(2) c(3)] Cons.prems(3) c(1) t1(1) show ?case by simp
qed (simp add: calls_match_def)

subsection \<open>The image without code\<close>

text \<open>A function of an image whose code was not loaded.\<close>

fun head_at :: "ItemStore \<Rightarrow> Item \<Rightarrow> Decl \<Rightarrow> bool" where
  "head_at st it (DFunc name arg ret codes) \<longleftrightarrow> (\<exists>f. it = FuncI f \<and>
     string_at st (fu_nameindex f) name \<and> proto_at st (fu_protoindex f) arg ret)"
| "head_at st it d \<longleftrightarrow> False"

lemma NOT_LOAD:
  "LOAD NOT_LOAD_ITEMS ITEM_STRING" "LOAD NOT_LOAD_ITEMS ITEM_TYPE" "LOAD NOT_LOAD_ITEMS ITEM_TYPELIST"
  "LOAD NOT_LOAD_ITEMS ITEM_PROTO" "LOAD NOT_LOAD_ITEMS ITEM_VAR" "LOAD NOT_LOAD_ITEMS ITEM_FUNC"
  "LOAD NOT_LOAD_ITEMS ITEM_NFUNC" "\<not> LOAD NOT_LOAD_ITEMS ITEM_CODE"
  by (simp_all add: LOAD_def NOT_LOAD_ITEMS_def item_types)

lemma code_get_none:
  assumes "base_ok st" "its st ITEM_CODE = []"
  shows "code_get (is_table st) i = Inr (None, 0)"
proof -
  have "ITEM_CODE < at_size (is_table st)" using assms(1) by (simp add: base_ok_def item_types)
  from AtomTable_Get_spec [OF base_ok_inv [OF assms(1)] this, of i] assms(2) show ?thesis
    by (auto simp: code_get_def)
qed

lemma kind_rel_change:
  assumes "kind_rel R ty img ds" "store_ok (im_store img2)" "its (im_store img2) ty = its (im_store img) ty"
    and "\<And>it d. decl_type d = ty \<Longrightarrow> R (im_store img) it d \<Longrightarrow> R' (im_store img2) it d"
  shows "kind_rel R' ty img2 ds"
proof -
  have "list_all2 (R (im_store img)) (its (im_store img) ty) (of_type ty ds)" using assms(1) by (simp add: kind_rel_def)
  then have "list_all2 (R' (im_store img2)) (its (im_store img) ty) (of_type ty ds)"
    by (rule list.rel_mono_strong) (use assms(4) in auto)
  with assms(2,3) show ?thesis by (simp add: kind_rel_def)
qed

lemma From_Image_loads:
  assumes rel: "image_rel img ds" and fits: "fits_file img" and known: "list_all decl_known ds" and tbl: "desc_ok tbl"
    and fin: "KImage_Finish img = Inr img1" and wr: "KImage_Write_File img1 = Inr fl"
    and n: "length (its (im_store img) ITEM_TYPE) \<le> n"
  shows "\<exists>t :: 't STable. STable_From_Image n (Some fl) tbl = Inr (0, Some (cstr (ih_pkgname (im_header img1))), Some t) \<and> holds t (loaded ds)"
proof -
  have st: "store_ok (im_store img)" using rel by (simp add: image_rel_def)
  obtain img2 where r: "KImage_Read_File (Some fl) NOT_LOAD_ITEMS = Inr (Some img2)" "im_header img2 = im_header img1"
    "base_ok (im_store img2)" "\<forall>ty. 0 < ty \<longrightarrow> ty < ITEM_MAX \<longrightarrow> map item_value (its (im_store img2) ty) =
       (if LOAD NOT_LOAD_ITEMS ty then map item_value (its (im_store img) ty) else [])"
    using roundtrip_pools [OF st fits, of NOT_LOAD_ITEMS] fin wr by fastforce
  have same: "its (im_store img2) ty = its (im_store img) ty"
    if "ty \<in> {ITEM_STRING, ITEM_TYPE, ITEM_TYPELIST, ITEM_PROTO, ITEM_VAR, ITEM_FUNC, ITEM_NFUNC}" for ty
  proof -
    have ty: "0 < ty" "ty < ITEM_MAX" "ty \<noteq> ITEM_CONST" "LOAD NOT_LOAD_ITEMS ty"
      using that NOT_LOAD by (auto simp: item_types)
    from same_values [OF store_ok_base [OF st] r(3) _ ty(2,3)] r(4) ty show ?thesis by simp
  qed
  have "0 < ITEM_CODE" "ITEM_CODE < ITEM_MAX" by (simp_all add: item_types)
  from r(4) [rule_format, OF this] NOT_LOAD(8) have "its (im_store img2) ITEM_CODE = []" unfolding if_not_P [OF NOT_LOAD(8)] by blast
  note code = code_get_none [OF r(3) this]
  have types: "same_types (im_store img) (im_store img2)" using same by (simp add: same_types_def)
  have st2: "store_ok (im_store img2)" by (rule same_types_store [OF st types r(3)])
  note at = same_string [OF types] same_type [OF types] same_proto [OF types]
  have vars: "kind_rel decl_at ITEM_VAR img2 ds"
  proof (rule kind_rel_change [OF image_rel_kind [OF rel] st2])
    fix it d show "decl_type d = ITEM_VAR \<Longrightarrow> decl_at (im_store img) it d \<Longrightarrow> decl_at (im_store img2) it d"
      by (cases d) (use at in \<open>auto simp: item_types\<close>)
  qed (simp_all add: same decl_types_def)
  have nfuncs: "kind_rel decl_at ITEM_NFUNC img2 ds"
  proof (rule kind_rel_change [OF image_rel_kind [OF rel] st2])
    fix it d show "decl_type d = ITEM_NFUNC \<Longrightarrow> decl_at (im_store img) it d \<Longrightarrow> decl_at (im_store img2) it d"
      by (cases d) (use at in \<open>auto simp: item_types class_at_def split: option.split\<close>)
  qed (simp_all add: same decl_types_def)
  have funcs: "kind_rel head_at ITEM_FUNC img2 ds"
  proof (rule kind_rel_change [OF image_rel_kind [OF rel] st2])
    fix it d show "decl_type d = ITEM_FUNC \<Longrightarrow> decl_at (im_store img) it d \<Longrightarrow> head_at (im_store img2) it d"
      by (cases d) (use at in \<open>auto simp: item_types\<close>)
  qed (simp_all add: same decl_types_def)
  have known': "\<forall>d \<in> set ds. decl_known d" using known by (simp add: list_all_iff)
  have n2: "length (its (im_store img2) ITEM_TYPE) \<le> n" using n same [of ITEM_TYPE] by simp
  obtain vs tbl1 where v: "KImage_Get_Vars n img2 tbl = Inr (vs, tbl1)" "calls_match var_call vs (of_type ITEM_VAR ds)" "desc_ok tbl1"
    using Get_Vars_reads [OF vars known' tbl n2] by blast
  obtain fs tbl2 where f: "KImage_Get_Funcs n img2 tbl1 = Inr (fs, tbl2)"
    "calls_match (func_like (\<lambda>_ _ _. True)) fs (of_type ITEM_FUNC ds)" "desc_ok tbl2"
    using Get_Funcs_like [OF funcs known' v(3) n2, of "\<lambda>_ _ _. True"] code by auto
  obtain nf tbl3 where nf: "KImage_Get_NFuncs n img2 tbl2 = Inr (nf, tbl3)" "calls_match func_call nf (of_type ITEM_NFUNC ds)"
    using Get_NFuncs_reads [OF nfuncs known' f(3) n2] by blast
  have h1: "holds (foldl get_var_fn (STable_New :: 't STable) vs) (foldl extend [] (concat (map export (of_type ITEM_VAR ds))))"
    by (rule vars_hold [OF holds_New v(2)]) blast
  obtain t2 where t2: "load_funcs (foldl get_var_fn (STable_New :: 't STable) vs) fs = Inr t2"
    "holds t2 (foldl extend (foldl extend [] (concat (map export (of_type ITEM_VAR ds)))) (concat (map export (of_type ITEM_FUNC ds))))"
    using funcs_hold [OF h1 f(2)] by blast
  obtain t3 where t3: "load_funcs t2 nf = Inr t3"
    "holds t3 (foldl extend (foldl extend (foldl extend [] (concat (map export (of_type ITEM_VAR ds)))) (concat (map export (of_type ITEM_FUNC ds))))
       (concat (map export (of_type ITEM_NFUNC ds))))"
    using funcs_hold [OF t2(2) nf(2)] by blast
  show ?thesis
    using r(1,2) v(1) f(1) nf(1) t2(1) t3 by (simp add: STable_From_Image_def KImage_Get_PkgName_def Let_def loaded_def)
qed

end
