(* ===== verification/SymbolModule.thy ===== *)
theory SymbolModule
  imports SymbolLoad
begin

text \<open>
  From a module to the module that imports it: the image of a module is generated, written to a file and
  read back, and the table that is loaded from it holds the public constants, variables and functions of
  the module.
\<close>

subsection \<open>The exports of a module\<close>

definition exported :: "'t Symbol \<Rightarrow> bool" where
  "exported s \<longleftrightarrow> sym_kind s \<in> {SYM_CONST, SYM_VAR, SYM_FUNC, SYM_NFUNC}"

definition export_of :: "'t Symbol \<Rightarrow> export list" where
  "export_of s = (if exported s then [(sym_name s, sym_kind s, the (sym_desc s))] else [])"

text \<open>
  Symbols whose base types have a letter, and classes without native functions: the image does not keep
  whether a native function is one of a class.
\<close>

definition known_symbol :: "'t Symbol \<Rightarrow> bool" where
  "known_symbol s \<longleftrightarrow> pred_option known_bases (sym_desc s) \<and>
     list_all (\<lambda>v. pred_option known_bases (vs_desc v)) (sym_locvec s)"

definition known_module :: "Module \<Rightarrow> bool" where
  "known_module m \<longleftrightarrow> list_all (\<lambda>s. known_symbol s \<and>
     list_all (\<lambda>x. known_symbol x \<and> sym_kind x \<noteq> SYM_NFUNC) (members_of (sym_stbl s))) (STable_Visit (Some m))"

lemma locvar_exports [simp]: "d \<in> set (locvar_decls j vs) \<Longrightarrow> export d = []"
  by (auto simp: locvar_decls_def)

lemma locvars_known:
  "list_all locvar_ok vs \<Longrightarrow> list_all (\<lambda>v. pred_option known_bases (vs_desc v)) vs \<Longrightarrow> list_all decl_known (locvar_decls j vs)"
  by (induction vs) (auto simp: locvar_decls_def locvar_ok_def)

lemma member_exports:
  assumes "member_ok cls s" "member_decls cls s ds0 ds" "known_symbol s" "cls \<noteq> None \<Longrightarrow> sym_kind s \<noteq> SYM_NFUNC"
  shows "concat (map export ds) = (if cls = None then export_of s else [])" "list_all decl_known ds"
proof -
  have "concat (map export ds) = (if cls = None then export_of s else []) \<and> list_all decl_known ds"
  proof (cases "sym_kind s")
    case SYM_FUNC
    with assms show ?thesis
      by (cases cls) (auto simp: member_decls_def func_decl_def export_of_def exported_def known_symbol_def locvars_known elim!: proto_okE)
  qed (use assms in \<open>cases cls; auto simp: member_decls_def export_of_def exported_def known_symbol_def elim!: proto_okE\<close>)+
  then show "concat (map export ds) = (if cls = None then export_of s else [])" "list_all decl_known ds" by simp_all
qed

lemma decls_of_exports:
  assumes "\<And>s ds0 ds. s \<in> set ss \<Longrightarrow> R s ds0 ds \<Longrightarrow> concat (map export ds) = f s \<and> list_all decl_known ds" "decls_of R ss ds0 ds"
  shows "concat (map export ds) = concat (map f ss) \<and> list_all decl_known ds"
  using assms
proof (induction ss arbitrary: ds0 ds)
  case (Cons s ss)
  from Cons.prems(2) obtain ds1 ds2 where d: "ds = ds1 @ ds2" "R s ds0 ds1" "decls_of R ss (ds0 @ ds1) ds2" by auto
  from Cons.IH [OF Cons.prems(1) d(3)] Cons.prems(1) [OF _ d(2)] d(1) show ?case by simp
qed simp

lemma symbol_exports:
  assumes "symbol_ok s" "symbol_decls s ds0 ds" "known_symbol s"
    and "list_all (\<lambda>x. known_symbol x \<and> sym_kind x \<noteq> SYM_NFUNC) (members_of (sym_stbl s))"
  shows "concat (map export ds) = export_of s \<and> list_all decl_known ds"
proof (cases "sym_kind s \<in> {SYM_CLASS, SYM_TRAIT}")
  case True
  then obtain ds1 where d: "ds = class_decl s # ds1"
    "decls_of (member_decls (Some (sym_name s))) (members_of (sym_stbl s)) (ds0 @ [class_decl s]) ds1"
    using assms(2) by (auto simp: symbol_decls_def)
  have ok: "\<forall>x \<in> set (members_of (sym_stbl s)). member_ok (Some (sym_name s)) x"
    using assms(1) True by (auto simp: symbol_ok_def list_all_iff)
  have "concat (map export ds1) = concat (map (\<lambda>x. []) (members_of (sym_stbl s))) \<and> list_all decl_known ds1"
  proof (rule decls_of_exports [OF _ d(2)])
    fix x ds0 ds assume x: "x \<in> set (members_of (sym_stbl s))" "member_decls (Some (sym_name s)) x ds0 ds"
    have "member_ok (Some (sym_name s)) x" "known_symbol x" "sym_kind x \<noteq> SYM_NFUNC"
      using ok assms(4) x(1) by (auto simp: list_all_iff)
    from member_exports [OF this(1) x(2) this(2)] this(3)
    show "concat (map export ds) = [] \<and> list_all decl_known ds" by simp
  qed
  moreover have "concat (map (\<lambda>x. []) xs) = []" for xs :: "'y list" by (induction xs) simp_all
  ultimately show ?thesis using d(1) True by (auto simp: class_decl_def export_of_def exported_def)
next
  case False
  then have "member_ok None s" "member_decls None s ds0 ds" using assms(1,2) by (auto simp: symbol_ok_def symbol_decls_def)
  from member_exports [OF this assms(3)] show ?thesis by simp
qed

subsection \<open>What the declarations make visible\<close>

lemma extend_all:
  assumes "distinct (map (cstr \<circ> fst) (es @ xs))"
  shows "foldl extend es xs = es @ filter (\<lambda>e. IsAccess (fst e)) xs"
  using assms
proof (induction xs arbitrary: es)
  case (Cons x xs)
  then have "cstr (fst x) \<notin> (\<lambda>e. cstr (fst e)) ` set es" by simp
  then have "\<not> (\<exists>e' \<in> set es. str_eq (fst e') (fst x))" by (metis imageI str_eq_def)
  with Cons show ?case by (auto simp: extend_def)
qed simp

lemma exports_mset:
  "mset (concat (map export (of_type ITEM_VAR ds @ of_type ITEM_FUNC ds @ of_type ITEM_NFUNC ds))) = mset (concat (map export ds))"
proof (induction ds)
  case (Cons d ds)
  then show ?case by (cases d) (simp_all add: item_types)
qed simp

lemma loaded_set:
  assumes "distinct (map (cstr \<circ> fst) (concat (map export ds)))"
  shows "set (loaded ds) = {e \<in> set (concat (map export ds)). IsAccess (fst e)}"
proof -
  let ?xs = "concat (map export (of_type ITEM_VAR ds @ of_type ITEM_FUNC ds @ of_type ITEM_NFUNC ds))"
  have "mset (map (cstr \<circ> fst) ?xs) = mset (map (cstr \<circ> fst) (concat (map export ds)))" unfolding mset_map exports_mset ..
  with assms have "distinct (map (cstr \<circ> fst) ([] @ ?xs))" using mset_eq_imp_distinct_iff by (metis append_Nil)
  from extend_all [OF this] have "set (loaded ds) = {e \<in> set ?xs. IsAccess (fst e)}" unfolding loaded_def by auto
  with mset_eq_setD [OF exports_mset [of ds]] show ?thesis by simp
qed

subsection \<open>From module to module\<close>

text \<open>A table whose symbols are stored under their names, as the functions that add symbols leave it.\<close>

definition stable_ok :: "'t STable \<Rightarrow> bool" where
  "stable_ok t \<longleftrightarrow> nt_ok (st_table t) \<and> (\<forall>p \<in> set (nt_members (st_table t)). sym_name (snd p) = fst p)"

lemma stable_ok_New: "stable_ok STable_New"
  by (simp add: stable_ok_def STable_New_def)

lemma insert_symbol_ok: "stable_ok t \<Longrightarrow> insert_symbol t s = Some t' \<Longrightarrow> stable_ok t'"
  using nt.add_cases [of "st_table t" "sym_name s" s] by (auto simp: stable_ok_def insert_symbol_def split: option.splits)

lemma stable_get:
  assumes "stable_ok t"
  shows "STable_Get (Some t) name = Some s \<longleftrightarrow> s \<in> set (STable_Visit (Some t)) \<and> str_eq (sym_name s) name"
  using assms nt.get_Some [of "st_table t" name s]
  by (force simp: stable_ok_def STable_Get_def STable_Visit_def nt_visit_members)

lemma stable_distinct:
  assumes "stable_ok t"
  shows "distinct (map (cstr \<circ> sym_name) (STable_Visit (Some t)))"
proof -
  have "map (cstr \<circ> sym_name) (STable_Visit (Some t)) = map (cstr \<circ> fst) (nt_members (st_table t))"
    using assms by (auto simp: stable_ok_def STable_Visit_def nt_visit_members)
  with nt.distinct_names [of "st_table t"] assms show ?thesis by (simp add: stable_ok_def)
qed

lemma distinct_exports:
  "distinct (map (cstr \<circ> sym_name) ss) \<Longrightarrow> distinct (map (cstr \<circ> fst) (concat (map export_of ss)))"
proof (induction ss)
  case (Cons s ss)
  have "(cstr \<circ> fst) ` set (concat (map export_of ss)) \<subseteq> (cstr \<circ> sym_name) ` set ss"
    by (auto simp: export_of_def split: if_splits)
  with Cons show ?case by (auto simp: export_of_def)
qed simp

lemma exported_desc: "symbol_ok s \<Longrightarrow> exported s \<Longrightarrow> sym_desc s \<noteq> None"
  by (cases "sym_kind s") (auto simp: exported_def symbol_ok_def elim: proto_okE)

text \<open>What the table of the importing module answers for a name.\<close>

definition imports_symbol :: "'s Symbol option \<Rightarrow> 't Symbol option \<Rightarrow> bool" where
  "imports_symbol orig new \<longleftrightarrow> (case orig of
     Some s \<Rightarrow> if exported s \<and> IsAccess (sym_name s)
       then (\<exists>s' d. new = Some s' \<and> sym_kind s' = sym_kind s \<and> sym_desc s' = Some d \<and> same_desc d (the (sym_desc s)))
       else new = None
   | None \<Rightarrow> new = None)"

lemma holds_get:
  assumes "holds t es"
  shows "STable_Get (Some t) name = Some s' \<Longrightarrow> \<exists>e \<in> set es. \<exists>k. symbol_of (k, s') e \<and> str_eq k name"
    "e \<in> set es \<Longrightarrow> str_eq (fst e) name \<Longrightarrow> \<exists>k s'. STable_Get (Some t) name = Some s' \<and> symbol_of (k, s') e"
proof -
  have h: "nt_ok (st_table t)" "list_all2 symbol_of (nt_members (st_table t)) es" using assms by (simp_all add: holds_def)
  note get = nt.get_Some [OF h(1), of name]
  show "\<exists>e \<in> set es. \<exists>k. symbol_of (k, s') e \<and> str_eq k name" if g: "STable_Get (Some t) name = Some s'"
  proof -
    obtain k where "(k, s') \<in> set (nt_members (st_table t))" "str_eq k name" using g get by (auto simp: STable_Get_def)
    with h(2) obtain e where "e \<in> set es" "symbol_of (k, s') e" by (metis in_set_conv_nth list_all2_conv_all_nth)
    with \<open>str_eq k name\<close> show ?thesis by blast
  qed
  show "\<exists>k s'. STable_Get (Some t) name = Some s' \<and> symbol_of (k, s') e" if e: "e \<in> set es" "str_eq (fst e) name"
  proof -
    obtain p where p: "p \<in> set (nt_members (st_table t))" "symbol_of p e"
      using e(1) h(2) by (metis in_set_conv_nth list_all2_conv_all_nth)
    then have "str_eq (fst p) name" using e(2) by (simp add: symbol_of_def str_eq_def)
    with p(1) get [of "snd p"] have "nt_get (st_table t) name = Some (snd p)" by (metis prod.collapse)
    with p(2) show ?thesis by (intro exI [of _ "fst p"] exI [of _ "snd p"]) (simp add: STable_Get_def)
  qed
qed

lemma imports_module:
  assumes "stable_ok m" "\<forall>s \<in> set (STable_Visit (Some m)). exported s \<longrightarrow> sym_desc s \<noteq> None"
    and "holds t es" "set es = {e \<in> set (concat (map export_of (STable_Visit (Some m)))). IsAccess (fst e)}"
  shows "imports_symbol (STable_Get (Some m) name) (STable_Get (Some t) name)"
proof (cases "\<exists>s. STable_Get (Some m) name = Some s \<and> exported s \<and> IsAccess (sym_name s)")
  case True
  then obtain s where s: "STable_Get (Some m) name = Some s" "exported s" "IsAccess (sym_name s)" by blast
  then have "s \<in> set (STable_Visit (Some m))" "str_eq (sym_name s) name" using stable_get [OF assms(1)] by blast+
  with s assms(2,4) have e: "(sym_name s, sym_kind s, the (sym_desc s)) \<in> set es" by (force simp: export_of_def)
  from holds_get(2) [OF assms(3) e, of name] \<open>str_eq (sym_name s) name\<close> obtain k s' where
    "STable_Get (Some t) name = Some s'" "symbol_of (k, s') (sym_name s, sym_kind s, the (sym_desc s))" by auto
  with s show ?thesis by (auto simp: imports_symbol_def symbol_of_def)
next
  case False
  have "STable_Get (Some t) name = None"
  proof (rule ccontr)
    assume "STable_Get (Some t) name \<noteq> None"
    then obtain s' where "STable_Get (Some t) name = Some s'" by blast
    from holds_get(1) [OF assms(3) this] obtain e k where e: "e \<in> set es" "symbol_of (k, s') e" "str_eq k name" by blast
    with assms(4) obtain s where s: "s \<in> set (STable_Visit (Some m))" "exported s" "fst e = sym_name s" "IsAccess (sym_name s)"
      by (auto simp: export_of_def split: if_splits)
    have "str_eq (sym_name s) name" using e(2,3) s(3) by (simp add: symbol_of_def str_eq_def)
    with s False stable_get [OF assms(1), of name s] show False by blast
  qed
  with False show ?thesis by (auto simp: imports_symbol_def split: option.split)
qed

lemma Finish_pkgname: "KImage_Finish img = Inr img1 \<Longrightarrow> ih_pkgname (im_header img1) = ih_pkgname (im_header img)"
  by (auto simp: KImage_Finish_def Let_def bind_run_eq_Inr_iff)

lemma short_pkgname:
  "length (cstr s) < PKG_NAME_MAX \<Longrightarrow> cstr (ih_pkgname (init_header (Some s))) = cstr s"
  by (auto simp: init_header_def Let_def cstr_def takeWhile_append dest: set_takeWhileD)


text \<open>A small module.\<close>

lemma Visit_null: "STable_Visit None = []"
  by (simp add: STable_Visit_def)

lemma insert_new:
  assumes "stable_ok t" "\<forall>x \<in> set (STable_Visit (Some t)). \<not> str_eq (sym_name x) (sym_name s)"
  shows "\<exists>t'. insert_symbol t s = Some t' \<and> stable_ok t' \<and> STable_Visit (Some t') = STable_Visit (Some t) @ [s] \<and>
    st_varindex t' = st_varindex t"
proof -
  have ok: "nt_ok (st_table t)" using assms(1) by (simp add: stable_ok_def)
  have "STable_Get (Some t) (sym_name s) = None" using assms(2) stable_get [OF assms(1), of "sym_name s"] by (metis not_None_eq)
  then have "nt_get (st_table t) (sym_name s) = None" by (simp add: STable_Get_def)
  from nt.add_new [OF ok this, of s] obtain tbl where
    "nt_add (st_table t) (sym_name s) s = Some tbl" "nt_members tbl = nt_members (st_table t) @ [(sym_name s, s)]" by blast
  moreover from this have "insert_symbol t s = Some (t\<lparr>st_table := tbl\<rparr>)" by (simp add: insert_symbol_def)
  ultimately show ?thesis using insert_symbol_ok [OF assms(1)] by (auto simp: STable_Visit_def nt_visit_members)
qed

definition sample_symbols :: "unit STable Symbol list" where
  "sample_symbols = [
     (Symbol_New SYM_VAR ''Count'')\<lparr>sym_desc := Some (TD_Base (CHR ''i'')), sym_index := 1\<rparr>,
     (Symbol_New SYM_CONST ''seed'')\<lparr>sym_desc := Some (TD_Base (CHR ''s'')), sym_index := 2\<rparr>,
     (Symbol_New SYM_NFUNC ''Next'')\<lparr>sym_desc := Some (TD_Proto [TD_Base (CHR ''i'')] [TD_Base (CHR ''i'')])\<rparr>]"

lemma sample_module: "\<exists>m. stable_ok m \<and> STable_Visit (Some m) = sample_symbols"
proof -
  let ?a = "sample_symbols ! 0" and ?b = "sample_symbols ! 1" and ?c = "sample_symbols ! 2"
  have names: "sym_name ?a = ''Count''" "sym_name ?b = ''seed''" "sym_name ?c = ''Next''"
    by (simp_all add: sample_symbols_def Symbol_New_def)
  have "STable_Visit (Some (STable_New :: Module)) = []" by (simp add: STable_Visit_def STable_New_def nt_visit_members)
  with insert_new [OF stable_ok_New, of ?a] obtain t1 where 1: "stable_ok t1" "STable_Visit (Some t1) = [?a]" by fastforce
  with insert_new [OF 1(1), of ?b] names obtain t2 where 2: "stable_ok t2" "STable_Visit (Some t2) = [?a, ?b]" by (auto simp: str_eq_def cstr_def)
  with insert_new [OF 2(1), of ?c] names obtain t3 where 3: "stable_ok t3" "STable_Visit (Some t3) = [?a, ?b, ?c]" by (auto simp: str_eq_def cstr_def)
  then show ?thesis by (auto simp: sample_symbols_def)
qed


end
