(* ===== verification/TaskQueue.thy ===== *)
theory TaskQueue
  imports Prelude "HOL-Library.Signed_Division" "HOL-Library.Multiset"
begin

text \<open>
  The queues of the task scheduler (\<^verbatim>\<open>src/libtask/locked_linked_deque.c\<close>,
  \<^verbatim>\<open>src/libtask/task_scheduler_locked.c\<close>): singly linked queues with a sentinel on a store of nodes,
  one for each processor. They refine lists of tasks. Each operation of a queue runs under its lock,
  so it is one step here.
\<close>

subsection \<open>The queue\<close>

record 't lldq_node =
  ln_data :: "'t option"
  ln_next :: "addr option"

record lldq_deque =
  lq_count :: int
  lq_head :: addr
  lq_tail :: addr

type_synonym 't nodes = "addr \<Rightarrow> 't lldq_node"

definition set_ln_next :: "addr \<Rightarrow> addr option \<Rightarrow> 't nodes \<Rightarrow> 't nodes" where
  "set_ln_next p v h = h(p := (h p)\<lparr>ln_next := v\<rparr>)"

text \<open>\<open>calloc\<close> has zeroed the sentinel, at the address \<open>p\<close>.\<close>

definition lldq_init :: "addr \<Rightarrow> 't nodes \<Rightarrow> 't nodes \<times> lldq_deque" where
  "lldq_init p h = (h(p := \<lparr>ln_data = None, ln_next = None\<rparr>), \<lparr>lq_count = 0, lq_head = p, lq_tail = p\<rparr>)"

definition lldq_pop_head :: "'t nodes \<Rightarrow> lldq_deque \<Rightarrow> addr option \<times> 't nodes \<times> lldq_deque" where
  "lldq_pop_head h d = (
     case ln_next (h (lq_head d)) of
       None \<Rightarrow> (None, h, d)
     | Some first \<Rightarrow>
         let h1 = set_ln_next (lq_head d) (ln_next (h first)) h;
             h2 = set_ln_next first None h1;
             d1 = d\<lparr>lq_count := lq_count d - 1\<rparr>;
             d2 = (if first = lq_tail d1 then d1\<lparr>lq_tail := lq_head d1\<rparr> else d1)
         in (Some first, h2, d2))"

definition lldq_push_tail :: "'t nodes \<Rightarrow> lldq_deque \<Rightarrow> addr \<Rightarrow> 't nodes \<times> lldq_deque" where
  "lldq_push_tail h d node = (set_ln_next (lq_tail d) (Some node) h, d\<lparr>lq_tail := node, lq_count := lq_count d + 1\<rparr>)"

text \<open>The nodes after \<open>a\<close>, up to the null pointer.\<close>

fun seg :: "'t nodes \<Rightarrow> addr \<Rightarrow> addr list \<Rightarrow> bool" where
  "seg h a [] \<longleftrightarrow> ln_next (h a) = None"
| "seg h a (x # xs) \<longleftrightarrow> ln_next (h a) = Some x \<and> seg h x xs"

definition deque_rel :: "'t nodes \<Rightarrow> lldq_deque \<Rightarrow> addr list \<Rightarrow> bool" where
  "deque_rel h d ns \<longleftrightarrow> seg h (lq_head d) ns \<and> distinct (lq_head d # ns) \<and>
     lq_tail d = last (lq_head d # ns) \<and> lq_count d = int (length ns)"

text \<open>The addresses a queue occupies, and the frame of the operations.\<close>

definition deque_at :: "lldq_deque \<Rightarrow> addr list \<Rightarrow> addr set" where
  "deque_at d ns = insert (lq_head d) (set ns)"

lemma set_ln_next_same [simp]: "p \<noteq> q \<Longrightarrow> set_ln_next p v h q = h q"
  by (simp add: set_ln_next_def)

lemma set_ln_next_data [simp]: "ln_data (set_ln_next p v h q) = ln_data (h q)"
  by (simp add: set_ln_next_def)

lemma set_ln_next_at [simp]: "ln_next (set_ln_next p v h p) = v"
  by (simp add: set_ln_next_def)

lemma seg_frame: "seg h a xs \<Longrightarrow> (\<And>q. q \<in> insert a (set xs) \<Longrightarrow> h' q = h q) \<Longrightarrow> seg h' a xs"
  by (induction xs arbitrary: a) auto

lemma deque_frame:
  "deque_rel h d ns \<Longrightarrow> (\<And>q. q \<in> deque_at d ns \<Longrightarrow> h' q = h q) \<Longrightarrow> deque_rel h' d ns"
  using seg_frame [of h "lq_head d" ns h'] by (simp add: deque_rel_def deque_at_def)

lemma seg_push:
  "seg h a xs \<Longrightarrow> ln_next (h y) = None \<Longrightarrow> distinct (a # xs) \<Longrightarrow> y \<notin> insert a (set xs) \<Longrightarrow>
   seg (set_ln_next (last (a # xs)) (Some y) h) a (xs @ [y])"
proof (induction xs arbitrary: a)
  case (Cons x xs)
  then have "a \<noteq> last (x # xs)" using last_in_set [of "x # xs"] by auto
  with Cons show ?case by simp
qed simp

lemma push_tail_rel:
  assumes "deque_rel h d ns" "y \<notin> deque_at d ns" "ln_next (h y) = None" "lldq_push_tail h d y = (h', d')"
  shows "deque_rel h' d' (ns @ [y])" "lq_head d' = lq_head d" "\<And>q. q \<notin> deque_at d ns \<Longrightarrow> h' q = h q"
    "\<And>q. ln_data (h' q) = ln_data (h q)"
proof -
  have tail: "lq_tail d \<in> deque_at d ns"
    using assms(1) last_in_set [of "lq_head d # ns"] by (simp add: deque_rel_def deque_at_def del: last.simps)
  have h': "h' = set_ln_next (lq_tail d) (Some y) h" "lq_head d' = lq_head d" "lq_tail d' = y" "lq_count d' = lq_count d + 1"
    using assms(4) by (auto simp: lldq_push_tail_def)
  have "seg h' (lq_head d) (ns @ [y])"
    using assms(1-3) seg_push [of h "lq_head d" ns y] by (simp add: h' deque_rel_def deque_at_def del: last.simps)
  with assms(1,2) show "deque_rel h' d' (ns @ [y])" by (simp add: deque_rel_def deque_at_def h')
  show "lq_head d' = lq_head d" by (rule h')
  show "h' q = h q" if "q \<notin> deque_at d ns" for q using that tail by (metis h'(1) set_ln_next_same)
  show "ln_data (h' q) = ln_data (h q)" for q by (simp add: h')
qed

lemma pop_head_empty: "deque_rel h d [] \<Longrightarrow> lldq_pop_head h d = (None, h, d)"
  by (simp add: deque_rel_def lldq_pop_head_def)

lemma pop_head_rel:
  assumes "deque_rel h d (x # ns)" "lldq_pop_head h d = (r, h', d')"
  shows "r = Some x" "deque_rel h' d' ns" "lq_head d' = lq_head d" "ln_next (h' x) = None"
    "\<And>q. q \<notin> deque_at d (x # ns) \<Longrightarrow> h' q = h q" "\<And>q. ln_data (h' q) = ln_data (h q)"
proof -
  let ?a = "lq_head d"
  have r: "ln_next (h ?a) = Some x" "seg h x ns" "distinct (?a # x # ns)" "lq_tail d = last (x # ns)" "lq_count d = int (length ns) + 1"
    using assms(1) by (simp_all add: deque_rel_def)
  have h': "h' = set_ln_next x None (set_ln_next ?a (ln_next (h x)) h)" "r = Some x" "lq_head d' = ?a" "lq_count d' = lq_count d - 1"
    "lq_tail d' = (if x = lq_tail d then ?a else lq_tail d)"
    using assms(2) r(1) by (auto simp: lldq_pop_head_def Let_def)
  have "seg h' ?a ns"
  proof (cases ns)
    case (Cons y ys)
    with r(2) have "seg h y ys" by simp
    moreover have "h' q = h q" if "q \<in> insert y (set ys)" for q
    proof -
      have "x \<noteq> q" "?a \<noteq> q" using that r(3) Cons by auto
      then show ?thesis by (simp add: h'(1))
    qed
    ultimately have "seg h' y ys" by (rule seg_frame)
    with Cons r(2,3) h'(1) show ?thesis by simp
  qed (use r h'(1) in simp)
  moreover have "lq_tail d' = last (?a # ns)"
    by (cases "ns = []") (use r(3,4) h'(5) last_in_set [of ns] in auto)
  ultimately show "deque_rel h' d' ns" using r(3,5) by (simp add: deque_rel_def h')
  show "r = Some x" "lq_head d' = ?a" "ln_next (h' x) = None" by (simp_all add: h')
  show "h' q = h q" if "q \<notin> deque_at d (x # ns)" for q using that by (simp add: h' deque_at_def)
  show "ln_data (h' q) = ln_data (h q)" for q by (simp add: h')
qed

subsection \<open>The queues of the processors\<close>

text \<open>
  \<open>task_schedulers\<close> with the nodes of their queues; \<open>sd_info\<close> is the field \<open>sched_info\<close> of the tasks.
  A task gets its node when it is scheduled for the first time, and keeps it.
\<close>

record 't Sched =
  sd_nodes :: "'t nodes"
  sd_fresh :: addr
  sd_info :: "'t \<Rightarrow> addr option"
  sd_deques :: "lldq_deque list"
  sd_steals :: "uint64 list"

fun init_deques :: "nat \<Rightarrow> addr \<Rightarrow> 't nodes \<Rightarrow> addr \<times> 't nodes \<times> lldq_deque list" where
  "init_deques 0 p h = (p, h, [])"
| "init_deques (Suc n) p h = (case lldq_init p h of (h1, d) \<Rightarrow>
     case init_deques n (p + 1) h1 of (p2, h2, ds) \<Rightarrow> (p2, h2, d # ds))"

definition init_scheduler :: "nat \<Rightarrow> 't Sched" where
  "init_scheduler num_threads =
     (case init_deques num_threads 1 (\<lambda>_. \<lparr>ln_data = None, ln_next = None\<rparr>) of (p, h, ds) \<Rightarrow>
       \<lparr>sd_nodes = h, sd_fresh = p, sd_info = \<lambda>_. None, sd_deques = ds, sd_steals = replicate num_threads 0\<rparr>)"

definition push_node :: "'t Sched \<Rightarrow> nat \<Rightarrow> addr \<Rightarrow> 't Sched" where
  "push_node s k node = (case lldq_push_tail (sd_nodes s) (sd_deques s ! k) node of (h, d) \<Rightarrow>
     s\<lparr>sd_nodes := h, sd_deques := (sd_deques s)[k := d]\<rparr>)"

definition pop_node :: "'t Sched \<Rightarrow> nat \<Rightarrow> addr option \<times> 't Sched" where
  "pop_node s k = (case lldq_pop_head (sd_nodes s) (sd_deques s ! k) of (r, h, d) \<Rightarrow>
     (r, s\<lparr>sd_nodes := h, sd_deques := (sd_deques s)[k := d]\<rparr>))"

definition schedule :: "'t Sched \<Rightarrow> nat \<Rightarrow> 't \<Rightarrow> 't Sched" where
  "schedule s k task = (
     case sd_info s task of
       Some node \<Rightarrow> push_node s k node
     | None \<Rightarrow>
         let node = sd_fresh s in
         push_node (s\<lparr>sd_fresh := node + 1, sd_info := (sd_info s)(task := Some node),
             sd_nodes := (sd_nodes s)(node := \<lparr>ln_data = Some task, ln_next = None\<rparr>)\<rparr>) k node)"

definition sched_get_task :: "'t Sched \<Rightarrow> nat \<Rightarrow> 't option \<times> 't Sched" where
  "sched_get_task s k = (case pop_node s k of (r, s1) \<Rightarrow>
     (case r of None \<Rightarrow> None | Some node \<Rightarrow> ln_data (sd_nodes s1 node), s1))"

text \<open>The inner loop of \<open>sched_load_balance\<close>: up to \<open>num_steal\<close> tasks are moved from queue \<open>j\<close> to queue \<open>k\<close>.\<close>

fun steal_loop :: "nat \<Rightarrow> nat \<Rightarrow> nat \<Rightarrow> 't Sched \<Rightarrow> 't Sched run" where
  "steal_loop 0 k j s = Inr s"
| "steal_loop (Suc num_steal) k j s = (case pop_node s j of
       (None, s1) \<Rightarrow> steal_loop num_steal k j s1
     | (Some node, s1) \<Rightarrow>
         if ln_data (sd_nodes s1 node) = None then Inl Assert_Failed
         else let s2 = push_node s1 k node in
           steal_loop num_steal k j (s2\<lparr>sd_steals := (sd_steals s2)[k := sd_steals s2 ! k + 1]\<rparr>))"

text \<open>The outer loop over the other processors, from the next one on; \<open>cnt\<close> is the length of the own queue at the start.\<close>

fun balance_loop :: "nat list \<Rightarrow> int \<Rightarrow> nat \<Rightarrow> 't Sched \<Rightarrow> 't Sched run" where
  "balance_loop [] cnt k s = Inr s"
| "balance_loop (i # is) cnt k s = (
     let index = i mod length (sd_deques s) in
     if index = k then Inl Assert_Failed
     else bind_run (steal_loop (nat ((lq_count (sd_deques s ! index) - cnt) sdiv 2)) k index s)
       (balance_loop is cnt k))"

definition sched_load_balance :: "'t Sched \<Rightarrow> nat \<Rightarrow> 't Sched run" where
  "sched_load_balance s k =
     balance_loop [k + 1 ..< k + length (sd_deques s)] (lq_count (sd_deques s ! k)) k s"

subsection \<open>They refine lists of tasks\<close>

text \<open>
  \<open>nss\<close> are the nodes of the queues. Sentinels and nodes are all different, nodes belong to their
  tasks, and a node that is in no queue has no successor.
\<close>

definition sched_nodes :: "'t Sched \<Rightarrow> addr list list \<Rightarrow> bool" where
  "sched_nodes s nss \<longleftrightarrow> list_all2 (deque_rel (sd_nodes s)) (sd_deques s) nss \<and>
     distinct (map lq_head (sd_deques s) @ concat nss) \<and> length (sd_steals s) = length nss \<and>
     (\<forall>d \<in> set (sd_deques s). lq_head d < sd_fresh s) \<and>
     (\<forall>n \<in> set (concat nss). \<exists>t. sd_info s t = Some n) \<and>
     (\<forall>t n. sd_info s t = Some n \<longrightarrow> n < sd_fresh s \<and> n \<notin> lq_head ` set (sd_deques s) \<and>
        ln_data (sd_nodes s n) = Some t \<and> (n \<notin> set (concat nss) \<longrightarrow> ln_next (sd_nodes s n) = None))"

definition the_tasks :: "'t Sched \<Rightarrow> addr list list \<Rightarrow> 't list list" where
  "the_tasks s nss = map (map (\<lambda>n. the (ln_data (sd_nodes s n)))) nss"

text \<open>Walking the queues, which is how the model reads their contents.\<close>

fun collect :: "nat \<Rightarrow> 't nodes \<Rightarrow> addr \<Rightarrow> addr list" where
  "collect 0 h a = []"
| "collect (Suc n) h a = (case ln_next (h a) of None \<Rightarrow> [] | Some x \<Rightarrow> x # collect n h x)"

definition sched_queues :: "'t Sched \<Rightarrow> 't list list" where
  "sched_queues s = the_tasks s (map (\<lambda>d. collect (nat (lq_count d)) (sd_nodes s) (lq_head d)) (sd_deques s))"

definition sched_ok :: "'t Sched \<Rightarrow> bool" where
  "sched_ok s \<longleftrightarrow> sched_nodes s (map (\<lambda>d. collect (nat (lq_count d)) (sd_nodes s) (lq_head d)) (sd_deques s))"

lemma collect_seg: "seg h a xs \<Longrightarrow> collect (length xs) h a = xs"
  by (induction xs arbitrary: a) auto

lemma sched_nodes_collect:
  assumes "sched_nodes s nss"
  shows "map (\<lambda>d. collect (nat (lq_count d)) (sd_nodes s) (lq_head d)) (sd_deques s) = nss"
proof (rule nth_equalityI)
  have all: "list_all2 (deque_rel (sd_nodes s)) (sd_deques s) nss" using assms by (simp add: sched_nodes_def)
  then show len: "length (map (\<lambda>d. collect (nat (lq_count d)) (sd_nodes s) (lq_head d)) (sd_deques s)) = length nss"
    by (simp add: list_all2_lengthD)
  fix i assume "i < length (map (\<lambda>d. collect (nat (lq_count d)) (sd_nodes s) (lq_head d)) (sd_deques s))"
  then show "map (\<lambda>d. collect (nat (lq_count d)) (sd_nodes s) (lq_head d)) (sd_deques s) ! i = nss ! i"
    using all len collect_seg by (fastforce simp: list_all2_conv_all_nth deque_rel_def)
qed

lemma sched_nodes_ok: "sched_nodes s nss \<Longrightarrow> sched_ok s \<and> sched_queues s = the_tasks s nss"
  using sched_nodes_collect [of s nss] by (simp add: sched_ok_def sched_queues_def)

lemma concat_disjoint:
  "distinct (concat xss) \<Longrightarrow> i < length xss \<Longrightarrow> j < length xss \<Longrightarrow> i \<noteq> j \<Longrightarrow> set (xss ! i) \<inter> set (xss ! j) = {}"
proof (induction xss arbitrary: i j)
  case (Cons xs xss)
  have nth: "set (xss ! m) \<subseteq> set (concat xss)" if "m < length xss" for m using nth_mem [OF that] by auto
  from Cons show ?case by (cases i; cases j) (use nth in \<open>fastforce+\<close>)
qed simp

lemma mset_concat_update:
  "k < length xss \<Longrightarrow> mset (concat (xss[k := ys])) + mset (xss ! k) = mset (concat xss) + mset ys"
  by (induction xss arbitrary: k) (auto simp: ac_simps split: nat.split)

lemma mset_concat_snoc: "k < length xss \<Longrightarrow> mset (concat (xss[k := xss ! k @ [n]])) = add_mset n (mset (concat xss))"
  using mset_concat_update [of k xss "xss ! k @ [n]"] by simp

lemma mset_concat_tl: "k < length xss \<Longrightarrow> xss ! k = x # xs \<Longrightarrow> add_mset x (mset (concat (xss[k := xs]))) = mset (concat xss)"
  using mset_concat_update [of k xss xs] by simp

lemma sched_nodes_disjoint:
  assumes "sched_nodes s nss" "i < length nss" "k < length nss" "i \<noteq> k"
  shows "deque_at (sd_deques s ! i) (nss ! i) \<inter> deque_at (sd_deques s ! k) (nss ! k) = {}"
proof -
  let ?ds = "sd_deques s"
  have len: "length ?ds = length nss" and d: "distinct (map lq_head ?ds)" "distinct (concat nss)"
    "lq_head ` set ?ds \<inter> set (concat nss) = {}"
    using assms(1) list_all2_lengthD by (auto simp: sched_nodes_def)
  have heads: "lq_head (?ds ! m) \<in> lq_head ` set ?ds" if "m < length nss" for m using that len by simp
  have nodes: "set (nss ! m) \<subseteq> set (concat nss)" if "m < length nss" for m using nth_mem [OF that] by auto
  have "lq_head (?ds ! i) \<noteq> lq_head (?ds ! k)" using d(1) assms(2-4) len by (simp add: distinct_conv_nth)
  with concat_disjoint [OF d(2) assms(2-4)] heads [OF assms(2)] heads [OF assms(3)] nodes [OF assms(2)] nodes [OF assms(3)] d(3)
  show ?thesis by (auto simp: deque_at_def)
qed

text \<open>What both operations have in common: one queue and its nodes change, the rest of the store does not.\<close>

lemma update_queue:
  assumes s: "sched_nodes s nss" and k: "k < length nss"
    and rel: "deque_rel h d ns" "lq_head d = lq_head (sd_deques s ! k)"
    and frame: "\<And>q. q \<notin> deque_at (sd_deques s ! k) (nss ! k) \<Longrightarrow> h q = sd_nodes s q"
    and data: "\<And>q. ln_data (h q) = ln_data (sd_nodes s q)"
    and dist: "distinct (concat (nss[k := ns]))"
    and own: "\<And>n. n \<in> set (concat (nss[k := ns])) \<Longrightarrow> \<exists>t. sd_info s t = Some n"
    and rest: "\<And>t n. sd_info s t = Some n \<Longrightarrow> n \<notin> set (concat (nss[k := ns])) \<Longrightarrow> ln_next (h n) = None"
  shows "sched_nodes (s\<lparr>sd_nodes := h, sd_deques := (sd_deques s)[k := d]\<rparr>) (nss[k := ns])"
    "the_tasks (s\<lparr>sd_nodes := h, sd_deques := (sd_deques s)[k := d]\<rparr>) (nss[k := ns]) =
     (the_tasks s nss)[k := map (\<lambda>n. the (ln_data (sd_nodes s n))) ns]"
proof -
  let ?ds = "sd_deques s"
  have inv: "list_all2 (deque_rel (sd_nodes s)) ?ds nss" "distinct (map lq_head ?ds)" "\<forall>d \<in> set ?ds. lq_head d < sd_fresh s"
    "\<forall>t n. sd_info s t = Some n \<longrightarrow> n < sd_fresh s \<and> n \<notin> lq_head ` set ?ds \<and> ln_data (sd_nodes s n) = Some t"
    "length (sd_steals s) = length nss"
    using s by (auto simp: sched_nodes_def)
  have len: "length ?ds = length nss" using inv(1) by (rule list_all2_lengthD)
  have heads: "map lq_head (?ds[k := d]) = map lq_head ?ds"
    using k len rel(2) by (simp add: map_update list_update_same_conv)
  have set_heads: "lq_head ` set (?ds[k := d]) = lq_head ` set ?ds" using arg_cong [OF heads, of set] by simp
  have all: "list_all2 (deque_rel h) (?ds[k := d]) (nss[k := ns])"
  proof (rule list_all2_all_nthI)
    fix i assume i: "i < length (?ds[k := d])"
    show "deque_rel h (?ds[k := d] ! i) (nss[k := ns] ! i)"
    proof (cases "i = k")
      case False
      have "deque_rel (sd_nodes s) (?ds ! i) (nss ! i)" using inv(1) i by (simp add: list_all2_conv_all_nth)
      then have "deque_rel h (?ds ! i) (nss ! i)"
        by (rule deque_frame) (use sched_nodes_disjoint [OF s _ k False] i len frame in auto)
      with False show ?thesis by simp
    qed (use rel(1) k len in simp)
  qed (use len in simp)
  have apart: "lq_head ` set ?ds \<inter> set (concat (nss[k := ns])) = {}" using own inv(4) by fastforce
  show "sched_nodes (s\<lparr>sd_nodes := h, sd_deques := ?ds[k := d]\<rparr>) (nss[k := ns])"
    unfolding sched_nodes_def
  proof (intro conjI ballI allI impI, goal_cases)
    case 1 show ?case using all by simp
  next
    case 2 show ?case using heads inv(2) dist apart by (simp del: set_concat)
  next
    case 3 show ?case using inv(5) by simp
  next
    case (4 d') then show ?case using set_heads inv(3) by (metis (mono_tags, lifting) Sched.select_convs(2,4) Sched.surjective Sched.update_convs(1,4) imageE image_eqI)
  next
    case (5 n) then show ?case using own by simp
  next
    case (6 t n) then show ?case using inv(4) by simp
  next
    case (7 t n) then show ?case using inv(4) set_heads by simp
  next
    case (8 t n) then show ?case using inv(4) data by simp
  next
    case (9 t n) then show ?case using rest by simp
  qed
  show "the_tasks (s\<lparr>sd_nodes := h, sd_deques := ?ds[k := d]\<rparr>) (nss[k := ns]) =
     (the_tasks s nss)[k := map (\<lambda>n. the (ln_data (sd_nodes s n))) ns]"
    by (simp add: the_tasks_def map_update data)
qed

lemma node_elsewhere:
  assumes "sched_nodes s nss" "k < length nss" "sd_info s u = Some m" "m \<notin> set (nss ! k)"
  shows "m \<notin> deque_at (sd_deques s ! k) (nss ! k)"
proof -
  have "length (sd_deques s) = length nss" using assms(1) list_all2_lengthD by (auto simp: sched_nodes_def)
  then have "sd_deques s ! k \<in> set (sd_deques s)" using assms(2) by simp
  moreover have "m \<notin> lq_head ` set (sd_deques s)" using assms(1,3) unfolding sched_nodes_def by blast
  ultimately show ?thesis using assms(4) by (auto simp: deque_at_def)
qed

lemma queued_nodes: "k < length nss \<Longrightarrow> set (nss ! k) \<subseteq> set (concat nss)"
  by (auto intro!: bexI [of _ "nss ! k"])

lemma push_node_spec:
  assumes s: "sched_nodes s nss" and k: "k < length nss" and t: "sd_info s t = Some n" "n \<notin> set (concat nss)"
  shows "sched_nodes (push_node s k n) (nss[k := nss ! k @ [n]])"
    "the_tasks (push_node s k n) (nss[k := nss ! k @ [n]]) = (the_tasks s nss)[k := the_tasks s nss ! k @ [t]]"
proof -
  let ?d = "sd_deques s ! k"
  obtain h' d' where p: "lldq_push_tail (sd_nodes s) ?d n = (h', d')" by fastforce
  have len: "length (sd_deques s) = length nss" using s list_all2_lengthD by (auto simp: sched_nodes_def)
  have rel: "deque_rel (sd_nodes s) ?d (nss ! k)" using s k len by (simp add: sched_nodes_def list_all2_conv_all_nth)
  have n: "n \<notin> lq_head ` set (sd_deques s)" "ln_next (sd_nodes s n) = None" "ln_data (sd_nodes s n) = Some t"
    using s t by (auto simp: sched_nodes_def)
  have "n \<notin> deque_at ?d (nss ! k)" by (rule node_elsewhere [OF s k t(1)]) (use t(2) queued_nodes [OF k] in blast)
  note push = push_tail_rel [OF rel this n(2) p]
  have sets: "set (concat (nss[k := nss ! k @ [n]])) = insert n (set (concat nss))"
    "distinct (concat (nss[k := nss ! k @ [n]]))"
  proof -
    have m: "mset (concat (nss[k := nss ! k @ [n]])) = mset (n # concat nss)" using mset_concat_snoc [OF k, of n] by simp
    show "set (concat (nss[k := nss ! k @ [n]])) = insert n (set (concat nss))" using mset_eq_setD [OF m] by simp
    have "distinct (n # concat nss)" using s t(2) by (simp add: sched_nodes_def)
    then show "distinct (concat (nss[k := nss ! k @ [n]]))" using mset_eq_imp_distinct_iff [OF m] by blast
  qed
  have own: "\<exists>t. sd_info s t = Some m" if "m \<in> insert n (set (concat nss))" for m
    using that t s unfolding sched_nodes_def by blast
  have rest: "ln_next (h' m) = None" if "sd_info s u = Some m" "m \<notin> insert n (set (concat nss))" for u m
  proof -
    have "m \<notin> deque_at ?d (nss ! k)" by (rule node_elsewhere [OF s k that(1)]) (use that(2) queued_nodes [OF k] in blast)
    with push(3) that s show ?thesis unfolding sched_nodes_def by (metis insertCI)
  qed
  have eq: "push_node s k n = s\<lparr>sd_nodes := h', sd_deques := (sd_deques s)[k := d']\<rparr>" by (simp add: push_node_def p)
  note up = update_queue [OF s k push(1,2,3,4) sets(2)]
  show "sched_nodes (push_node s k n) (nss[k := nss ! k @ [n]])"
    unfolding eq by (rule up(1)) (use own rest sets(1) in blast)+
  have "the_tasks (push_node s k n) (nss[k := nss ! k @ [n]]) =
      (the_tasks s nss)[k := map (\<lambda>n. the (ln_data (sd_nodes s n))) (nss ! k @ [n])]"
    unfolding eq by (rule up(2)) (use own rest sets(1) in blast)+
  then show "the_tasks (push_node s k n) (nss[k := nss ! k @ [n]]) = (the_tasks s nss)[k := the_tasks s nss ! k @ [t]]"
    using n(3) k by (simp add: the_tasks_def)
qed

lemma pop_node_spec:
  assumes s: "sched_nodes s nss" and k: "k < length nss"
  shows "nss ! k = [] \<Longrightarrow> pop_node s k = (None, s)"
    "nss ! k = x # xs \<Longrightarrow> \<exists>s' t. pop_node s k = (Some x, s') \<and> sd_info s t = Some x \<and> ln_data (sd_nodes s' x) = Some t \<and>
       sched_nodes s' (nss[k := xs]) \<and> the_tasks s' (nss[k := xs]) = (the_tasks s nss)[k := tl (the_tasks s nss ! k)] \<and>
       the_tasks s nss ! k = t # tl (the_tasks s nss ! k) \<and> sd_info s' = sd_info s \<and> sd_steals s' = sd_steals s"
proof -
  let ?d = "sd_deques s ! k"
  have len: "length (sd_deques s) = length nss" using s list_all2_lengthD by (auto simp: sched_nodes_def)
  have rel: "deque_rel (sd_nodes s) ?d (nss ! k)" using s k len by (simp add: sched_nodes_def list_all2_conv_all_nth)
  show "pop_node s k = (None, s)" if "nss ! k = []"
    using pop_head_empty [of "sd_nodes s" ?d] rel that k len by (simp add: pop_node_def list_update_same_conv)
  show "\<exists>s' t. pop_node s k = (Some x, s') \<and> sd_info s t = Some x \<and> ln_data (sd_nodes s' x) = Some t \<and>
       sched_nodes s' (nss[k := xs]) \<and> the_tasks s' (nss[k := xs]) = (the_tasks s nss)[k := tl (the_tasks s nss ! k)] \<and>
       the_tasks s nss ! k = t # tl (the_tasks s nss ! k) \<and> sd_info s' = sd_info s \<and> sd_steals s' = sd_steals s"
    if ns: "nss ! k = x # xs"
  proof -
    obtain r h' d' where p: "lldq_pop_head (sd_nodes s) ?d = (r, h', d')" by (metis prod_cases3)
    note pop = pop_head_rel [OF rel [unfolded ns] p]
    have m: "mset (x # concat (nss[k := xs])) = mset (concat nss)" using mset_concat_tl [OF k ns] by simp
    have sets: "set (concat nss) = insert x (set (concat (nss[k := xs])))" using mset_eq_setD [OF m] by simp
    have "distinct (concat nss)" using s by (simp add: sched_nodes_def)
    then have dist: "distinct (concat (nss[k := xs]))" using mset_eq_imp_distinct_iff [OF m] by simp
    obtain t where t: "sd_info s t = Some x" using s sets unfolding sched_nodes_def by blast
    then have data: "ln_data (sd_nodes s x) = Some t" using s unfolding sched_nodes_def by blast
    have own: "\<exists>t. sd_info s t = Some n" if "n \<in> set (concat (nss[k := xs]))" for n
      using that s sets unfolding sched_nodes_def by blast
    have rest: "ln_next (h' n) = None" if n: "sd_info s u = Some n" "n \<notin> set (concat (nss[k := xs]))" for u n
    proof (cases "n = x")
      case False
      have "n \<notin> set (concat nss)" using n(2) False sets by blast
      moreover from this have "n \<notin> deque_at ?d (nss ! k)"
        using node_elsewhere [OF s k n(1)] queued_nodes [OF k] by blast
      ultimately show ?thesis using pop(5) s n(1) ns unfolding sched_nodes_def by metis
    qed (use pop(4) in simp)
    let ?s' = "s\<lparr>sd_nodes := h', sd_deques := (sd_deques s)[k := d']\<rparr>"
    note up = update_queue [OF s k pop(2,3) pop(5) [folded ns] pop(6) dist own rest]
    have "pop_node s k = (Some x, ?s')" using p pop(1) by (simp add: pop_node_def)
    moreover have "the_tasks s nss ! k = t # map (\<lambda>n. the (ln_data (sd_nodes s n))) xs"
      using k ns data by (simp add: the_tasks_def)
    ultimately show ?thesis using t data pop(6) up by auto
  qed
qed

subsection \<open>The contract of the queues\<close>

text \<open>What the tasks rely on: a task that is in no queue can be put into one, at its end; tasks come out in order.\<close>

locale task_queues =
  fixes ok :: "'s \<Rightarrow> bool"
    and queues :: "'s \<Rightarrow> 't list list"
    and put :: "'s \<Rightarrow> nat \<Rightarrow> 't \<Rightarrow> 's"
    and get :: "'s \<Rightarrow> nat \<Rightarrow> 't option \<times> 's"
  assumes put_last: "ok s \<Longrightarrow> k < length (queues s) \<Longrightarrow> t \<notin> set (concat (queues s)) \<Longrightarrow>
      ok (put s k t) \<and> queues (put s k t) = (queues s)[k := queues s ! k @ [t]]"
    and get_none: "ok s \<Longrightarrow> k < length (queues s) \<Longrightarrow> queues s ! k = [] \<Longrightarrow> get s k = (None, s)"
    and get_first: "ok s \<Longrightarrow> k < length (queues s) \<Longrightarrow> queues s ! k = t # ts \<Longrightarrow>
      \<exists>s'. get s k = (Some t, s') \<and> ok s' \<and> queues s' = (queues s)[k := ts]"
    and queued_once: "ok s \<Longrightarrow> distinct (concat (queues s))"
begin

text \<open>A single queue.\<close>

lemma one_put: "ok s \<Longrightarrow> queues s = [q] \<Longrightarrow> t \<notin> set q \<Longrightarrow> ok (put s 0 t) \<and> queues (put s 0 t) = [q @ [t]]"
  using put_last [of s 0 t] by simp

lemma one_none: "ok s \<Longrightarrow> queues s = [[]] \<Longrightarrow> get s 0 = (None, s)"
  using get_none [of s 0] by simp

lemma one_first: "ok s \<Longrightarrow> queues s = [t # q] \<Longrightarrow> \<exists>s'. get s 0 = (Some t, s') \<and> ok s' \<and> queues s' = [q] \<and> t \<notin> set q"
  using get_first [of s 0 t q] queued_once [of s] by auto

end

lemma tasks_at: "the_tasks s nss ! k = map (\<lambda>n. the (ln_data (sd_nodes s n))) (nss ! k)" if "k < length nss"
  using that by (simp add: the_tasks_def)

lemma length_the_tasks [simp]: "length (the_tasks s nss) = length nss"
  by (simp add: the_tasks_def)

lemma concat_the_tasks: "concat (the_tasks s nss) = map (\<lambda>n. the (ln_data (sd_nodes s n))) (concat nss)"
  by (simp add: the_tasks_def map_concat)

lemma sched_okE:
  assumes "sched_ok s"
  obtains nss where "sched_nodes s nss" "sched_queues s = the_tasks s nss" "length nss = length (sd_deques s)"
  using assms by (auto simp: sched_ok_def sched_queues_def)

lemma node_owner:
  assumes "sched_nodes s nss"
  shows "n \<in> set (concat nss) \<Longrightarrow> \<exists>t. sd_info s t = Some n" "sd_info s t = Some n \<Longrightarrow> ln_data (sd_nodes s n) = Some t"
  using assms unfolding sched_nodes_def by blast+

lemma queued_task:
  assumes "sched_nodes s nss" "n \<in> set (concat nss)" "sd_info s t = Some n"
  shows "t \<in> set (concat (the_tasks s nss))"
proof -
  have "ln_data (sd_nodes s n) = Some t" using assms(1,3) unfolding sched_nodes_def by blast
  then have "t = the (ln_data (sd_nodes s n))" by simp
  with assms(2) show ?thesis unfolding concat_the_tasks set_map by (rule rev_image_eqI)
qed

lemma schedule_spec:
  assumes s: "sched_ok s" and k: "k < length (sched_queues s)" and t: "t \<notin> set (concat (sched_queues s))"
  shows "sched_ok (schedule s k t)" "sched_queues (schedule s k t) = (sched_queues s)[k := sched_queues s ! k @ [t]]"
proof -
  obtain nss where nss: "sched_nodes s nss" "sched_queues s = the_tasks s nss" using sched_okE [OF s] .
  have k': "k < length nss" using k nss(2) by simp
  have "sched_ok (schedule s k t) \<and> sched_queues (schedule s k t) = (sched_queues s)[k := sched_queues s ! k @ [t]]"
  proof (cases "sd_info s t")
    case (Some n)
    then have "n \<notin> set (concat nss)" using queued_task [OF nss(1)] t nss(2) by metis
    note push = push_node_spec [OF nss(1) k' Some this]
    from sched_nodes_ok [OF push(1)] push(2) nss(2) Some show ?thesis by (simp add: schedule_def)
  next
    case None
    let ?n = "sd_fresh s"
    let ?s0 = "s\<lparr>sd_fresh := ?n + 1, sd_info := (sd_info s)(t := Some ?n),
      sd_nodes := (sd_nodes s)(?n := \<lparr>ln_data = Some t, ln_next = None\<rparr>)\<rparr>"
    have old: "m < ?n" if "m \<in> set (concat nss) \<or> m \<in> lq_head ` set (sd_deques s)" for m
      using that nss(1) unfolding sched_nodes_def by blast
    have same: "sd_nodes ?s0 m = sd_nodes s m" if "m \<noteq> ?n" for m using that by simp
    have all: "list_all2 (deque_rel (sd_nodes ?s0)) (sd_deques s) nss"
    proof (rule list_all2_all_nthI)
      show "length (sd_deques s) = length nss" using nss(1) list_all2_lengthD by (auto simp: sched_nodes_def)
      fix i assume i: "i < length (sd_deques s)"
      have at: "q \<in> set (concat nss) \<or> q \<in> lq_head ` set (sd_deques s)" if "q \<in> deque_at (sd_deques s ! i) (nss ! i)" for q
        using that i queued_nodes [of i nss] \<open>length (sd_deques s) = length nss\<close> by (auto simp: deque_at_def)
      have "deque_rel (sd_nodes s) (sd_deques s ! i) (nss ! i)" using nss(1) i by (simp add: sched_nodes_def list_all2_conv_all_nth)
      then show "deque_rel (sd_nodes ?s0) (sd_deques s ! i) (nss ! i)"
        by (rule deque_frame) (use at old same in \<open>metis less_irrefl\<close>)
    qed
    have n0: "?n \<notin> set (concat nss)" using old by blast
    have "sched_nodes ?s0 nss"
      unfolding sched_nodes_def
    proof (intro conjI ballI allI impI, goal_cases)
      case 1 then show ?case using all by simp
    next
      case 2 then show ?case using nss(1) by (simp add: sched_nodes_def)
    next
      case 3 then show ?case using nss(1) by (simp add: sched_nodes_def)
    next
      case (4 d) then show ?case using nss(1) by (simp add: sched_nodes_def less_Suc_eq)
    next
      case (5 n)
      then obtain u where "sd_info s u = Some n" using nss(1) unfolding sched_nodes_def by blast
      with None show ?case by (intro exI [of _ u]) auto
    next
      case (6 u n)
      then show ?case using nss(1) unfolding sched_nodes_def by (fastforce split: if_splits)
    next
      case (7 u n)
      then show ?case using nss(1) old unfolding sched_nodes_def by (fastforce split: if_splits)
    next
      case (8 u n)
      then show ?case using nss(1) unfolding sched_nodes_def by (fastforce split: if_splits)
    next
      case (9 u n)
      then show ?case using nss(1) unfolding sched_nodes_def by (fastforce split: if_splits)
    qed
    moreover have "the_tasks ?s0 nss = the_tasks s nss"
    proof -
      have "map (\<lambda>n. the (ln_data (sd_nodes ?s0 n))) ns = map (\<lambda>n. the (ln_data (sd_nodes s n))) ns" if "ns \<in> set nss" for ns
        using that n0 by (intro map_cong refl) auto
      then show ?thesis by (simp add: the_tasks_def)
    qed
    moreover have "sd_info ?s0 t = Some ?n" by simp
    moreover note push = push_node_spec [OF calculation(1) k' calculation(3) n0]
    ultimately show ?thesis
      using sched_nodes_ok [OF push(1)] push(2) nss(2) None by (simp add: schedule_def Let_def)
  qed
  then show "sched_ok (schedule s k t)" "sched_queues (schedule s k t) = (sched_queues s)[k := sched_queues s ! k @ [t]]" by simp_all
qed

lemma get_task_spec:
  assumes s: "sched_ok s" and k: "k < length (sched_queues s)"
  shows "sched_queues s ! k = [] \<Longrightarrow> sched_get_task s k = (None, s)"
    "sched_queues s ! k = t # ts \<Longrightarrow>
      \<exists>s'. sched_get_task s k = (Some t, s') \<and> sched_ok s' \<and> sched_queues s' = (sched_queues s)[k := ts]"
proof -
  obtain nss where nss: "sched_nodes s nss" "sched_queues s = the_tasks s nss" using sched_okE [OF s] .
  have k': "k < length nss" using k nss(2) by simp
  note pop = pop_node_spec [OF nss(1) k']
  show "sched_get_task s k = (None, s)" if "sched_queues s ! k = []"
    using that pop(1) nss(2) k' by (simp add: sched_get_task_def tasks_at)
  show "\<exists>s'. sched_get_task s k = (Some t, s') \<and> sched_ok s' \<and> sched_queues s' = (sched_queues s)[k := ts]"
    if q: "sched_queues s ! k = t # ts"
  proof -
    obtain x xs where "nss ! k = x # xs" using q nss(2) k' by (cases "nss ! k") (auto simp: tasks_at)
    from pop(2) [OF this] obtain s' u where "pop_node s k = (Some x, s')" "ln_data (sd_nodes s' x) = Some u"
      "sched_nodes s' (nss[k := xs])" "the_tasks s' (nss[k := xs]) = (the_tasks s nss)[k := tl (the_tasks s nss ! k)]"
      "the_tasks s nss ! k = u # tl (the_tasks s nss ! k)" by blast
    with q nss(2) sched_nodes_ok [of s' "nss[k := xs]"] show ?thesis by (auto simp: sched_get_task_def)
  qed
qed

lemma sched_distinct:
  assumes "sched_ok s"
  shows "distinct (concat (sched_queues s))"
proof -
  obtain nss where nss: "sched_nodes s nss" "sched_queues s = the_tasks s nss" using sched_okE [OF assms] .
  have "inj_on (\<lambda>n. the (ln_data (sd_nodes s n))) (set (concat nss))"
  proof (rule inj_onI)
    fix m n assume mn: "m \<in> set (concat nss)" "n \<in> set (concat nss)" and eq: "the (ln_data (sd_nodes s m)) = the (ln_data (sd_nodes s n))"
    note node = node_owner [OF nss(1)]
    obtain t u where tu: "sd_info s t = Some m" "sd_info s u = Some n" using node(1) mn by meson
    have "ln_data (sd_nodes s m) = Some t" "ln_data (sd_nodes s n) = Some u" using node(2) tu by simp_all
    with eq tu show "m = n" by simp
  qed
  moreover have "distinct (concat nss)" using nss(1) by (simp add: sched_nodes_def)
  ultimately show ?thesis unfolding nss(2) concat_the_tasks by (simp add: distinct_map)
qed

interpretation tq: task_queues sched_ok sched_queues schedule sched_get_task
proof (unfold_locales, goal_cases)
  case (1 s k t)
  with schedule_spec [OF 1] show ?case by blast
next
  case (2 s k)
  then show ?case by (rule get_task_spec(1))
next
  case (3 s k t ts)
  then show ?case by (rule get_task_spec(2))
next
  case (4 s)
  then show ?case by (rule sched_distinct)
qed

lemma init_deques_spec:
  "init_deques n p h = (p', h', ds) \<Longrightarrow> p' = p + n \<and> map lq_head ds = [p ..< p + n] \<and>
     list_all2 (deque_rel h') ds (replicate n []) \<and> (\<forall>q < p. h' q = h q)"
proof (induction n arbitrary: p h p' h' ds)
  case (Suc n)
  obtain h1 d where 1: "lldq_init p h = (h1, d)" by fastforce
  obtain p2 h2 ds2 where 2: "init_deques n (p + 1) h1 = (p2, h2, ds2)" by (metis prod_cases3)
  note IH = Suc.IH [OF 2]
  have d: "d = \<lparr>lq_count = 0, lq_head = p, lq_tail = p\<rparr>" "h1 p = \<lparr>ln_data = None, ln_next = None\<rparr>" "\<forall>q < p. h1 q = h q"
    using 1 by (auto simp: lldq_init_def)
  have "deque_rel h2 d []" using d IH by (simp add: deque_rel_def)
  with Suc.prems 1 2 IH d show ?case by (auto simp: upt_rec [of p])
qed simp

lemma init_ok: "sched_ok (init_scheduler n :: 'a Sched)" "sched_queues (init_scheduler n :: 'a Sched) = replicate n []"
proof -
  obtain p h ds where i: "init_deques n 1 (\<lambda>_. \<lparr>ln_data = None, ln_next = None :: addr option\<rparr> :: 'a lldq_node) = (p, h, ds)" by (metis prod_cases3)
  note spec = init_deques_spec [OF i]
  have heads: "lq_head ` set ds = {1 ..< 1 + n}" using spec by (metis list.set_map set_upt)
  have eq: "(init_scheduler n :: 'a Sched) = \<lparr>sd_nodes = h, sd_fresh = p, sd_info = \<lambda>_. None, sd_deques = ds, sd_steals = replicate n 0\<rparr>"
    by (simp add: init_scheduler_def i del: One_nat_def)
  have "distinct (map lq_head ds)" "\<forall>d \<in> set ds. lq_head d < p" using spec heads by auto
  then have "sched_nodes (init_scheduler n :: 'a Sched) (replicate n [])"
    using spec by (simp add: sched_nodes_def eq)
  from sched_nodes_ok [OF this] show "sched_ok (init_scheduler n :: 'a Sched)" "sched_queues (init_scheduler n :: 'a Sched) = replicate n []"
    by (simp_all add: the_tasks_def map_replicate_const)
qed

subsection \<open>Balancing the load\<close>

lemma update_again: "k \<noteq> j \<Longrightarrow> xs[j := a, k := b, j := c, k := d] = xs[j := c, k := d]"
  by (simp add: list_update_swap [of k j])

lemma steal_loop_spec:
  assumes "sched_ok s" "k < length (sched_queues s)" "j < length (sched_queues s)" "k \<noteq> j"
  shows "\<exists>s'. steal_loop n k j s = Inr s' \<and> sched_ok s' \<and> sched_queues s' =
    (sched_queues s)[j := drop n (sched_queues s ! j), k := sched_queues s ! k @ take n (sched_queues s ! j)]"
  using assms
proof (induction n arbitrary: s)
  case 0
  then show ?case by (simp add: list_update_swap)
next
  case (Suc n)
  obtain nss where nss: "sched_nodes s nss" "sched_queues s = the_tasks s nss" using sched_okE [OF Suc.prems(1)] .
  have kj: "k < length nss" "j < length nss" using Suc.prems nss(2) by simp_all
  note pop = pop_node_spec [OF nss(1) kj(2)]
  show ?case
  proof (cases "nss ! j")
    case Nil
    with Suc.IH [OF Suc.prems] pop(1) nss(2) kj show ?thesis by (simp add: tasks_at)
  next
    case (Cons x xs)
    let ?Q = "sched_queues s" and ?nss = "nss[j := xs]"
    from pop(2) [OF Cons] obtain s1 t where 1: "pop_node s j = (Some x, s1)" "sd_info s t = Some x" "ln_data (sd_nodes s1 x) = Some t"
      "sched_nodes s1 ?nss" "the_tasks s1 ?nss = ?Q[j := tl (?Q ! j)]" "?Q ! j = t # tl (?Q ! j)" "sd_info s1 = sd_info s"
      unfolding nss(2) by blast
    have m: "mset (x # concat ?nss) = mset (concat nss)" using mset_concat_tl [OF kj(2) Cons] by simp
    have "distinct (concat nss)" using nss(1) by (simp add: sched_nodes_def)
    then have x: "x \<notin> set (concat ?nss)" using mset_eq_imp_distinct_iff [OF m] by simp
    have k: "k < length ?nss" using kj by simp
    note push = push_node_spec [OF 1(4) k 1(2) [folded 1(7)] x]
    let ?s2 = "push_node s1 k x"
    let ?s3 = "?s2\<lparr>sd_steals := (sd_steals ?s2)[k := sd_steals ?s2 ! k + 1]\<rparr>"
    have "sched_nodes ?s3 (?nss[k := ?nss ! k @ [x]])" using push(1) by (simp add: sched_nodes_def)
    moreover have "the_tasks ?s3 nss = the_tasks ?s2 nss" for nss by (simp add: the_tasks_def)
    ultimately have 3: "sched_ok ?s3" "sched_queues ?s3 = ?Q[j := tl (?Q ! j), k := ?Q ! k @ [t]]"
      using sched_nodes_ok push(2) 1(5) Suc.prems(4) by fastforce+
    obtain s' where s': "steal_loop n k j ?s3 = Inr s'" "sched_ok s'" "sched_queues s' =
      (sched_queues ?s3)[j := drop n (sched_queues ?s3 ! j), k := sched_queues ?s3 ! k @ take n (sched_queues ?s3 ! j)]"
      using Suc.IH [OF 3(1)] Suc.prems 3(2) by auto
    obtain ts where ts: "?Q ! j = t # ts" using 1(6) by blast
    have at: "sched_queues ?s3 ! j = ts" "sched_queues ?s3 ! k = ?Q ! k @ [t]" using 3(2) ts Suc.prems by auto
    have "sched_queues s' = ?Q[j := drop (Suc n) (?Q ! j), k := ?Q ! k @ take (Suc n) (?Q ! j)]"
      unfolding s'(3) at unfolding 3(2) update_again [OF Suc.prems(4)] ts by simp
    with s'(1,2) 1(1,3) show ?thesis by (auto simp: Let_def)
  qed
qed

text \<open>What balancing does to the lists.\<close>

definition stolen :: "int \<Rightarrow> 't list \<Rightarrow> nat" where
  "stolen cnt q = nat ((int (length q) - cnt) sdiv 2)"

fun rebalance :: "nat list \<Rightarrow> int \<Rightarrow> nat \<Rightarrow> 't list list \<Rightarrow> 't list list" where
  "rebalance [] cnt k qs = qs"
| "rebalance (i # is) cnt k qs = (let j = i mod length qs; n = stolen cnt (qs ! j) in
     rebalance is cnt k (qs[j := drop n (qs ! j), k := qs ! k @ take n (qs ! j)]))"

lemma count_queue: "sched_ok s \<Longrightarrow> j < length (sched_queues s) \<Longrightarrow> lq_count (sd_deques s ! j) = int (length (sched_queues s ! j))"
  by (elim sched_okE) (auto simp: sched_nodes_def list_all2_conv_all_nth deque_rel_def tasks_at)

lemma length_queues: "sched_ok s \<Longrightarrow> length (sd_deques s) = length (sched_queues s)"
  by (elim sched_okE) simp

lemma balance_loop_spec:
  assumes "sched_ok s" "k < length (sched_queues s)" "\<forall>i \<in> set is. i mod length (sched_queues s) \<noteq> k"
  shows "\<exists>s'. balance_loop is cnt k s = Inr s' \<and> sched_ok s' \<and> sched_queues s' = rebalance is cnt k (sched_queues s)"
  using assms
proof (induction "is" arbitrary: s)
  case (Cons i "is")
  let ?Q = "sched_queues s"
  let ?j = "i mod length ?Q"
  have j: "?j < length ?Q" "k \<noteq> ?j" using Cons.prems(2,3) by (auto intro: mod_less_divisor)
  obtain s1 where s1: "steal_loop (stolen cnt (?Q ! ?j)) k ?j s = Inr s1" "sched_ok s1" "sched_queues s1 =
    ?Q[?j := drop (stolen cnt (?Q ! ?j)) (?Q ! ?j), k := ?Q ! k @ take (stolen cnt (?Q ! ?j)) (?Q ! ?j)]"
    using steal_loop_spec [OF Cons.prems(1,2) j] by blast
  have "\<exists>s'. balance_loop is cnt k s1 = Inr s' \<and> sched_ok s' \<and> sched_queues s' = rebalance is cnt k (sched_queues s1)"
    by (rule Cons.IH [OF s1(2)]) (use Cons.prems(2,3) in \<open>simp_all add: s1(3)\<close>)
  with s1 j count_queue [OF Cons.prems(1) j(1)] length_queues [OF Cons.prems(1)]
  show ?case by (auto simp: Let_def stolen_def)
qed simp

text \<open>The queues are visited once each, so the result has a closed form.\<close>

lemma rebalance_closed:
  assumes "k < length qs" "\<forall>i \<in> set is. i mod length qs \<noteq> k" "distinct (map (\<lambda>i. i mod length qs) is)"
  shows "length (rebalance is cnt k qs) = length qs \<and>
    rebalance is cnt k qs ! k = qs ! k @ concat (map (\<lambda>i. take (stolen cnt (qs ! (i mod length qs))) (qs ! (i mod length qs))) is) \<and>
    (\<forall>j < length qs. j \<noteq> k \<longrightarrow> rebalance is cnt k qs ! j =
      (if j \<in> (\<lambda>i. i mod length qs) ` set is then drop (stolen cnt (qs ! j)) (qs ! j) else qs ! j))"
  using assms
proof (induction "is" arbitrary: qs)
  case (Cons i "is")
  let ?j = "i mod length qs" and ?n = "length qs"
  let ?q = "qs[?j := drop (stolen cnt (qs ! ?j)) (qs ! ?j), k := qs ! k @ take (stolen cnt (qs ! ?j)) (qs ! ?j)]"
  have j: "?j < ?n" "?j \<noteq> k" using Cons.prems(1,2) by (auto intro: mod_less_divisor)
  have same: "?q ! (m mod ?n) = qs ! (m mod ?n)" if "m \<in> set is" for m
  proof -
    have "m mod ?n \<noteq> k" "m mod ?n \<noteq> ?j" using that Cons.prems(2,3) by (auto simp: image_iff)
    then show ?thesis by simp
  qed
  have "k < length ?q" "\<forall>i \<in> set is. i mod length ?q \<noteq> k" "distinct (map (\<lambda>i. i mod length ?q) is)"
    using Cons.prems by simp_all
  note IH = Cons.IH [OF this]
  have "map (\<lambda>i. take (stolen cnt (?q ! (i mod ?n))) (?q ! (i mod ?n))) is = map (\<lambda>i. take (stolen cnt (qs ! (i mod ?n))) (qs ! (i mod ?n))) is"
    using same by simp
  with IH j Cons.prems(1) have own: "rebalance (i # is) cnt k qs ! k =
      qs ! k @ concat (map (\<lambda>i. take (stolen cnt (qs ! (i mod ?n))) (qs ! (i mod ?n))) (i # is))"
    by (simp add: Let_def)
  have new: "?j \<notin> (\<lambda>i. i mod ?n) ` set is" using Cons.prems(3) by (auto simp: image_iff)
  have "rebalance (i # is) cnt k qs ! m = (if m \<in> (\<lambda>i. i mod ?n) ` set (i # is) then drop (stolen cnt (qs ! m)) (qs ! m) else qs ! m)"
    if m: "m < ?n" "m \<noteq> k" for m
  proof -
    have "rebalance (i # is) cnt k qs ! m = rebalance is cnt k ?q ! m" by (simp add: Let_def)
    also have "\<dots> = (if m \<in> (\<lambda>i. i mod ?n) ` set is then drop (stolen cnt (?q ! m)) (?q ! m) else ?q ! m)"
      using IH m by simp
    also have "\<dots> = (if m \<in> (\<lambda>i. i mod ?n) ` set (i # is) then drop (stolen cnt (qs ! m)) (qs ! m) else qs ! m)"
      by (cases "m = ?j") (use new m in simp_all)
    finally show ?thesis .
  qed
  with own IH show ?case by (simp add: Let_def)
qed simp

lemma visited_once:
  assumes "k < n"
  shows "distinct (map (\<lambda>i. i mod n) [k + 1 ..< k + n])" "(\<lambda>i. i mod n) ` {k + 1 ..< k + n} = {0 ..< n} - {k}"
proof -
  have eq: "i mod n = (if i < n then i else i - n)" if "i \<in> {k + 1 ..< k + n}" for i
    using that assms by (auto simp: mod_if)
  have "inj_on (\<lambda>i. i mod n) {k + 1 ..< k + n}" using eq by (intro inj_onI) (auto split: if_splits)
  then show "distinct (map (\<lambda>i. i mod n) [k + 1 ..< k + n])" by (simp add: distinct_map)
  show "(\<lambda>i. i mod n) ` {k + 1 ..< k + n} = {0 ..< n} - {k}"
  proof (intro equalityI subsetI)
    fix x assume "x \<in> (\<lambda>i. i mod n) ` {k + 1 ..< k + n}"
    then show "x \<in> {0 ..< n} - {k}" using eq assms by (auto split: if_splits)
  next
    fix x assume x: "x \<in> {0 ..< n} - {k}"
    show "x \<in> (\<lambda>i. i mod n) ` {k + 1 ..< k + n}"
    proof (cases "x < k")
      case True
      with eq [of "x + n"] assms show ?thesis by (intro image_eqI [of _ _ "x + n"]) auto
    next
      case False
      with x show ?thesis by (intro image_eqI [of _ _ x]) auto
    qed
  qed
qed

lemma rebalance_set:
  "k < length q \<Longrightarrow> \<forall>i \<in> set is. i mod length q \<noteq> k \<Longrightarrow> set (concat (rebalance is cnt k q)) = set (concat q)"
proof (induction "is" arbitrary: q)
  case (Cons i "is")
  let ?j = "i mod length q" and ?m = "stolen cnt (q ! (i mod length q))"
  let ?q = "q[?j := drop ?m (q ! ?j), k := q ! k @ take ?m (q ! ?j)]"
  have j: "?j < length q" "k \<noteq> ?j" using Cons.prems by (auto intro: mod_less_divisor)
  have 1: "mset (concat ?q) + mset (q ! k) = mset (concat (q[?j := drop ?m (q ! ?j)])) + mset (q ! k @ take ?m (q ! ?j))"
    using mset_concat_update [of k "q[?j := drop ?m (q ! ?j)]" "q ! k @ take ?m (q ! ?j)"] Cons.prems(1) j by simp
  have 2: "mset (concat (q[?j := drop ?m (q ! ?j)])) + mset (q ! ?j) = mset (concat q) + mset (drop ?m (q ! ?j))"
    using mset_concat_update [OF j(1)] .
  have "mset (q ! ?j) = mset (take ?m (q ! ?j)) + mset (drop ?m (q ! ?j))" by (metis append_take_drop_id mset_append)
  with 1 2 have "mset (concat ?q) = mset (concat q)" by (simp add: union_assoc)
  from mset_eq_setD [OF this] Cons.IH [of ?q] Cons.prems show ?case by (simp add: Let_def)
qed simp

text \<open>
  C20: balancing the load of a processor. The queues of the other processors are visited once each; from
  a queue that is longer than the own one was at the start, half of the difference is taken from the
  front, in order, and put at the end of the own queue; no assertion fails, nothing else changes, no
  task is lost and none is in two queues.
\<close>

theorem sched_load_balance_correct:
  assumes "sched_ok s" "k < length (sched_queues s)"
  defines "qs \<equiv> sched_queues s"
  defines "n \<equiv> \<lambda>q. nat ((int (length q) - int (length (qs ! k))) sdiv 2)"
  shows "\<exists>s'. sched_load_balance s k = Inr s' \<and> sched_ok s' \<and> length (sched_queues s') = length qs \<and>
    sched_queues s' ! k = qs ! k @ concat (map (\<lambda>i. take (n (qs ! (i mod length qs))) (qs ! (i mod length qs))) [k + 1 ..< k + length qs]) \<and>
    (\<forall>j < length qs. j \<noteq> k \<longrightarrow> sched_queues s' ! j = drop (n (qs ! j)) (qs ! j)) \<and>
    distinct (concat (sched_queues s')) \<and> set (concat (sched_queues s')) = set (concat qs)"
proof -
  let ?is = "[k + 1 ..< k + length qs]" and ?cnt = "int (length (qs ! k))"
  note once = visited_once [OF assms(2), folded qs_def]
  have n: "n = stolen ?cnt" by (simp add: n_def stolen_def fun_eq_iff)
  have own: "\<forall>i \<in> set ?is. i mod length qs \<noteq> k" using once(2) by (metis DiffE image_eqI insertI1 set_upt)
  obtain s' where s': "balance_loop ?is ?cnt k s = Inr s'" "sched_ok s'" "sched_queues s' = rebalance ?is ?cnt k qs"
    using balance_loop_spec [OF assms(1,2) own [unfolded qs_def], of ?cnt] by (auto simp: qs_def)
  have "sched_load_balance s k = Inr s'"
    using s'(1) count_queue [OF assms(1,2)] length_queues [OF assms(1)] by (simp add: sched_load_balance_def qs_def)
  moreover note rebalance_closed [OF assms(2) [folded qs_def] own once(1), of ?cnt] s'(2)
  moreover have "set (concat (rebalance ?is ?cnt k qs)) = set (concat qs)"
    by (rule rebalance_set) (use assms(2) own in \<open>simp_all add: qs_def\<close>)
  ultimately show ?thesis
    using sched_distinct [OF s'(2)] once(2) own s'(3) assms(2) by (auto simp: n qs_def)
qed

definition sample_sched :: "nat Sched" where
  "sample_sched = foldl (\<lambda>s t. schedule s 1 t) (init_scheduler 2) [11, 12, 13, 14]"

lemma sample_sched: "sched_ok sample_sched" "sched_queues sample_sched = [[], [11, 12, 13, 14]]"
proof -
  have two: "sched_queues (init_scheduler 2 :: nat Sched) = [[], []]" by (simp add: init_ok numeral_2_eq_2)
  have step: "sched_ok (schedule s 1 t) \<and> sched_queues (schedule s 1 t) = [[], q @ [t]]"
    if "sched_ok s" "sched_queues s = [[], q]" "t \<notin> set q" for s :: "nat Sched" and t q
    using tq.put_last [of s 1 t] that by simp
  let ?s0 = "init_scheduler 2 :: nat Sched"
  have 1: "sched_ok (schedule ?s0 1 11) \<and> sched_queues (schedule ?s0 1 11) = [[], [11]]"
    using step [OF init_ok(1) two, of 11] by simp
  have 2: "sched_ok (schedule (schedule ?s0 1 11) 1 12) \<and> sched_queues (schedule (schedule ?s0 1 11) 1 12) = [[], [11, 12]]"
    using step [of "schedule ?s0 1 11" "[11]" 12] 1 by simp
  let ?s2 = "schedule (schedule ?s0 1 11) 1 12"
  have 3: "sched_ok (schedule ?s2 1 13) \<and> sched_queues (schedule ?s2 1 13) = [[], [11, 12, 13]]"
    using step [of ?s2 "[11, 12]" 13] 2 by simp
  then have "sched_ok (schedule (schedule ?s2 1 13) 1 14) \<and> sched_queues (schedule (schedule ?s2 1 13) 1 14) = [[], [11, 12, 13, 14]]"
    using step [of "schedule ?s2 1 13" "[11, 12, 13]" 14] by simp
  then show "sched_ok sample_sched" "sched_queues sample_sched = [[], [11, 12, 13, 14]]" by (simp_all add: sample_sched_def)
qed

theorem sched_load_balance_correct_witness:
  "\<exists>s'. sched_load_balance sample_sched 0 = Inr s' \<and> sched_queues s' = [[11, 12], [13, 14]]"
proof -
  have k: "0 < length (sched_queues sample_sched)" by (simp add: sample_sched(2))
  from sched_load_balance_correct [OF sample_sched(1) k] obtain s' where
    "sched_load_balance sample_sched 0 = Inr s'" "length (sched_queues s') = 2"
    "sched_queues s' ! 0 = [11, 12]" "sched_queues s' ! 1 = [13, 14]"
    by (auto simp: sample_sched(2) upt_rec signed_divide_int_def)
  moreover from this have "sched_queues s' = [[11, 12], [13, 14]]"
    by (auto simp: list_eq_iff_nth_eq less_Suc_eq numeral_2_eq_2)
  ultimately show ?thesis by blast
qed

text \<open>
  C19: the queues on the store are first in, first out. Putting a task that is in no queue into the queue
  of a processor appends it there; taking a task gives the first one of the queue, or null from an
  empty queue; the other queues stay as they are, and the invariant of the store is kept.
\<close>

theorem schedule_refines_fifo:
  assumes "sched_ok s" "k < length (sched_queues s)" "t \<notin> set (concat (sched_queues s))"
  shows "sched_ok (schedule s k t) \<and> sched_queues (schedule s k t) = (sched_queues s)[k := sched_queues s ! k @ [t]] \<and>
    (\<exists>r s'. sched_get_task s k = (r, s') \<and> sched_ok s' \<and> r = (case sched_queues s ! k of [] \<Rightarrow> None | u # us \<Rightarrow> Some u) \<and>
      sched_queues s' = (sched_queues s)[k := tl (sched_queues s ! k)])"
proof -
  have "\<exists>r s'. sched_get_task s k = (r, s') \<and> sched_ok s' \<and> r = (case sched_queues s ! k of [] \<Rightarrow> None | u # us \<Rightarrow> Some u) \<and>
      sched_queues s' = (sched_queues s)[k := tl (sched_queues s ! k)]"
  proof (cases "sched_queues s ! k")
    case Nil
    have "(sched_queues s)[k := []] = sched_queues s" unfolding Nil [symmetric] by (rule list_update_id)
    with tq.get_none [OF assms(1,2) Nil] assms(1) Nil show ?thesis by simp
  next
    case (Cons u us)
    with tq.get_first [OF assms(1,2) Cons] show ?thesis by auto
  qed
  with tq.put_last [OF assms] show ?thesis by blast
qed

theorem schedule_refines_fifo_witness:
  "sched_queues (schedule sample_sched 0 9) = [[9], [11, 12, 13, 14]] \<and>
   (\<exists>s'. sched_get_task sample_sched 1 = (Some 11, s') \<and> sched_queues s' = [[], [12, 13, 14]])"
  using schedule_refines_fifo [OF sample_sched(1), of 0 9] schedule_refines_fifo [OF sample_sched(1), of 1 9]
  by (auto simp: sample_sched(2))

end
