(* ===== verification/Task.thy ===== *)
theory Task
  imports TaskQueue
begin

text \<open>
  Tasks (\<^verbatim>\<open>src/libtask/task.c\<close>): creation, yielding, joining and the end of a task, on any number
  of processors, each operation as one step of the processor that runs it; and what holds on one
  processor, the configuration the virtual machine uses (\<^verbatim>\<open>task_init_procs(1)\<close>). Switching stacks is
  the change of the current task. A task is its address.
\<close>

subsection \<open>Data\<close>

datatype task_state = TASK_STATE_RUNNING | TASK_STATE_READY | TASK_STATE_WAITING | TASK_STATE_DONE

datatype join_state = TASK_JOINABLE | TASK_WAIT_FOR_JOINER | TASK_WAIT_TO_JOIN | TASK_DETACHED

record 'r task =
  tk_state :: task_state
  tk_result :: "'r option"
  tk_join_state :: join_state
  tk_join_task :: "nat option"

text \<open>The processors are numbered; \<open>wd_next\<close> is the address of the next task.\<close>

record 'r world =
  wd_sched :: "nat Sched"
  wd_tasks :: "nat \<Rightarrow> 'r task"
  wd_next :: nat
  wd_idle :: "nat list"
  wd_current :: "nat list"

abbreviation task_of :: "'r world \<Rightarrow> nat \<Rightarrow> 'r task" where
  "task_of w t \<equiv> wd_tasks w t"

definition set_task :: "'r world \<Rightarrow> nat \<Rightarrow> ('r task \<Rightarrow> 'r task) \<Rightarrow> 'r world" where
  "set_task w t f = w\<lparr>wd_tasks := (wd_tasks w)(t := f (wd_tasks w t))\<rparr>"

definition set_state :: "task_state \<Rightarrow> 'r task \<Rightarrow> 'r task" where
  "set_state st tk = tk\<lparr>tk_state := st\<rparr>"

definition put_task :: "'r world \<Rightarrow> nat \<Rightarrow> nat \<Rightarrow> 'r world" where
  "put_task w p t = w\<lparr>wd_sched := schedule (wd_sched w) p t\<rparr>"

definition new_task :: "task_state \<Rightarrow> 'r task" where
  "new_task st = \<lparr>tk_state = st, tk_result = None, tk_join_state = TASK_JOINABLE, tk_join_task = None\<rparr>"

text \<open>Every processor starts with its idle task, which is the thread itself.\<close>

definition task_init_procs :: "nat \<Rightarrow> 'r world" where
  "task_init_procs num_threads = \<lparr>wd_sched = init_scheduler num_threads, wd_tasks = (\<lambda>_. new_task TASK_STATE_RUNNING),
     wd_next = num_threads, wd_idle = [0 ..< num_threads], wd_current = [0 ..< num_threads]\<rparr>"

subsection \<open>Operations\<close>

definition task_switch_to :: "'r world \<Rightarrow> nat \<Rightarrow> nat \<Rightarrow> 'r world run" where
  "task_switch_to w p to_task = (let from_task = wd_current w ! p in
     bind_run
      (case tk_state (task_of w from_task) of
         TASK_STATE_RUNNING \<Rightarrow>
           (let w1 = set_task w from_task (set_state TASK_STATE_READY) in
            Inr (if from_task \<noteq> wd_idle w ! p then put_task w1 p from_task else w1))
       | TASK_STATE_DONE \<Rightarrow> Inr w
       | TASK_STATE_WAITING \<Rightarrow> Inr w
       | TASK_STATE_READY \<Rightarrow> Inl Assert_Failed)
      (\<lambda>w1. if tk_state (task_of w1 to_task) \<noteq> TASK_STATE_READY then Inl Assert_Failed
        else Inr ((set_task w1 to_task (set_state TASK_STATE_RUNNING))\<lparr>wd_current := (wd_current w1)[p := to_task]\<rparr>)))"

definition task_yield :: "'r world \<Rightarrow> nat \<Rightarrow> 'r world run" where
  "task_yield w p =
     bind_run (sched_load_balance (wd_sched w) p) (\<lambda>s1.
     case sched_get_task s1 p of (r, s2) \<Rightarrow>
       let w1 = w\<lparr>wd_sched := s2\<rparr> in
       case r of
         None \<Rightarrow>
           let st = tk_state (task_of w1 (wd_current w1 ! p)) in
           if st = TASK_STATE_DONE \<or> st = TASK_STATE_WAITING then task_switch_to w1 p (wd_idle w1 ! p) else Inr w1
       | Some task \<Rightarrow> task_switch_to w1 p task)"

definition task_create :: "'r world \<Rightarrow> nat \<Rightarrow> nat \<times> 'r world" where
  "task_create w p = (let task = wd_next w in
     (task, put_task (w\<lparr>wd_next := task + 1, wd_tasks := (wd_tasks w)(task := new_task TASK_STATE_READY)\<rparr>) p task))"

text \<open>
  The first part of \<open>task_join\<close>, up to the call of \<open>task_yield\<close> when the task has to wait: the code
  returned, the result it stores, and whether it waits. When the joining task runs again it stores
  its own result.
\<close>

datatype 'r joined = Join_Error | Joined "'r option" | Join_Waits

definition task_join :: "'r world \<Rightarrow> nat \<Rightarrow> nat \<Rightarrow> ('r joined \<times> 'r world) run" where
  "task_join w p task = (
     if tk_join_state (task_of w task) = TASK_DETACHED then Inr (Join_Error, w)
     else
       let old_state = tk_join_state (task_of w task);
           w1 = set_task w task (\<lambda>tk. tk\<lparr>tk_join_state := TASK_WAIT_TO_JOIN\<rparr>)
       in case old_state of
         TASK_JOINABLE \<Rightarrow>
           let cur = wd_current w1 ! p;
               w2 = set_task w1 cur (set_state TASK_STATE_WAITING);
               w3 = set_task w2 task (\<lambda>tk. tk\<lparr>tk_join_task := Some cur\<rparr>)
           in bind_run (task_yield w3 p) (\<lambda>w4. Inr (Join_Waits, w4))
       | TASK_WAIT_FOR_JOINER \<Rightarrow> Inr (Joined (tk_result (task_of w1 task)), w1)
       | _ \<Rightarrow> Inl Assert_Failed)"

text \<open>
  The end of a task in \<open>task_go_routine\<close>. The loop that takes the joining task spins while there is
  none: without another processor that sets it, it does not end (\<open>None\<close>).
\<close>

definition wake_joiner :: "'r world \<Rightarrow> nat \<Rightarrow> nat \<Rightarrow> 'r option \<Rightarrow> 'r world run option" where
  "wake_joiner w p task result = (
     case tk_join_task (task_of w task) of
       None \<Rightarrow> None
     | Some join_task \<Rightarrow> Some (
         let w1 = set_task w task (\<lambda>tk. tk\<lparr>tk_join_task := None\<rparr>) in
         if tk_state (task_of w1 join_task) \<noteq> TASK_STATE_WAITING then Inl Assert_Failed
         else Inr (put_task (set_task w1 join_task (\<lambda>tk. tk\<lparr>tk_state := TASK_STATE_READY, tk_result := result\<rparr>)) p join_task)))"

definition task_finish :: "'r world \<Rightarrow> nat \<Rightarrow> 'r option \<Rightarrow> 'r world run option" where
  "task_finish w p result = (
     let task = wd_current w ! p;
         w1 = set_task w task (\<lambda>tk. tk\<lparr>tk_result := result\<rparr>)
     in then_do
       (if tk_join_state (task_of w1 task) \<noteq> TASK_DETACHED then
          let old_state = tk_join_state (task_of w1 task);
              w2 = set_task w1 task (\<lambda>tk. tk\<lparr>tk_join_state := TASK_WAIT_FOR_JOINER\<rparr>)
          in case old_state of
            TASK_JOINABLE \<Rightarrow> Some (if tk_join_task (task_of w2 task) \<noteq> None then Inl Assert_Failed else Inr w2)
          | TASK_WAIT_TO_JOIN \<Rightarrow> wake_joiner w2 p task result
          | _ \<Rightarrow> Some (Inl Assert_Failed)
        else Some (Inr w1))
       (\<lambda>w3. Some (task_yield (set_task w3 task (set_state TASK_STATE_DONE)) p)))"

text \<open>One round of the loop of a processor's thread (\<open>pthread_routine\<close>), which runs as its idle task.\<close>

definition pthread_step :: "'r world \<Rightarrow> nat \<Rightarrow> 'r world run" where
  "pthread_step w p =
     bind_run (sched_load_balance (wd_sched w) p) (\<lambda>s1.
     case sched_get_task s1 p of (r, s2) \<Rightarrow>
       let w1 = w\<lparr>wd_sched := s2\<rparr> in
       case r of
         Some task \<Rightarrow> task_switch_to w1 p task
       | None \<Rightarrow>
           if wd_current w1 ! p \<noteq> wd_idle w1 ! p then Inl Assert_Failed
           else if tk_state (task_of w1 (wd_current w1 ! p)) \<noteq> TASK_STATE_RUNNING then Inl Assert_Failed
           else Inr w1)"

subsection \<open>The steps of one processor\<close>

text \<open>
  What the running task does: it creates a task, yields, joins a task, or its routine returns.
  \<open>None\<close> is a call that does not return to any task.
\<close>

datatype 'r action = Create | Yield | Join nat | Finish "'r option"

fun task_step :: "'r action \<Rightarrow> 'r world \<Rightarrow> 'r world run option" where
  "task_step Create w = Some (Inr (snd (task_create w 0)))"
| "task_step Yield w = Some (task_yield w 0)"
| "task_step (Join t) w = Some (bind_run (task_join w 0 t) (\<lambda>r. Inr (snd r)))"
| "task_step (Finish r) w = task_finish w 0 r"

text \<open>
  A program joins a task it has, at most once, and the idle task, which is the main thread, does not
  return through \<open>task_go_routine\<close>.
\<close>

fun allowed :: "'r action \<Rightarrow> 'r world \<Rightarrow> bool" where
  "allowed (Join t) w \<longleftrightarrow> t < wd_next w \<and> tk_join_state (task_of w t) \<noteq> TASK_WAIT_TO_JOIN"
| "allowed (Finish r) w \<longleftrightarrow> wd_current w ! 0 \<noteq> wd_idle w ! 0"
| "allowed _ w \<longleftrightarrow> True"

inductive task_reachable :: "'r world \<Rightarrow> bool" where
  task_reachable_init: "task_reachable (task_init_procs 1)"
| task_reachable_step: "task_reachable w \<Longrightarrow> allowed a w \<Longrightarrow> task_step a w = Some (Inr w') \<Longrightarrow> task_reachable w'"

subsection \<open>One processor, seen as a queue\<close>

definition one_proc :: "'r world \<Rightarrow> (nat \<Rightarrow> 'r task) \<Rightarrow> nat \<Rightarrow> nat \<Rightarrow> nat \<Rightarrow> nat list \<Rightarrow> bool" where
  "one_proc w T n i c q \<longleftrightarrow> sched_ok (wd_sched w) \<and> sched_queues (wd_sched w) = [q] \<and>
     wd_tasks w = T \<and> wd_next w = n \<and> wd_idle w = [i] \<and> wd_current w = [c]"

text \<open>
  The invariant of the tasks, in three parts; \<open>run\<close> is the running task, \<open>None\<close> between two of them.
  A task runs, is in the queue, waits or is done, and only the idle task can be ready outside the
  queue; a task waits exactly when it is the joining task of one other; and the join state of a task
  tells whether it has a joining task.
\<close>

definition states_ok :: "(nat \<Rightarrow> 'r task) \<Rightarrow> nat \<Rightarrow> nat \<Rightarrow> nat list \<Rightarrow> nat option \<Rightarrow> bool" where
  "states_ok T n i q run \<longleftrightarrow>
     i < n \<and> tk_state (T i) \<noteq> TASK_STATE_DONE \<and> (\<forall>r. run = Some r \<longrightarrow> r < n) \<and>
     (\<forall>t \<in> set q. t < n \<and> tk_state (T t) = TASK_STATE_READY) \<and>
     (\<forall>t < n. tk_state (T t) = TASK_STATE_RUNNING \<longleftrightarrow> run = Some t) \<and>
     (\<forall>t < n. tk_state (T t) = TASK_STATE_READY \<longrightarrow> t \<in> set q \<or> t = i)"

definition waits_ok :: "(nat \<Rightarrow> 'r task) \<Rightarrow> nat \<Rightarrow> bool" where
  "waits_ok T n \<longleftrightarrow>
     (\<forall>t < n. tk_state (T t) = TASK_STATE_WAITING \<longrightarrow> (\<exists>u < n. tk_join_task (T u) = Some t)) \<and>
     (\<forall>t < n. \<forall>j. tk_join_task (T t) = Some j \<longrightarrow> j < n \<and> tk_state (T j) = TASK_STATE_WAITING) \<and>
     (\<forall>t < n. \<forall>u < n. \<forall>j. tk_join_task (T t) = Some j \<longrightarrow> tk_join_task (T u) = Some j \<longrightarrow> t = u)"

definition joins_ok :: "(nat \<Rightarrow> 'r task) \<Rightarrow> nat \<Rightarrow> bool" where
  "joins_ok T n \<longleftrightarrow>
     (\<forall>t < n. if tk_state (T t) = TASK_STATE_DONE
       then tk_join_task (T t) = None \<and> tk_join_state (T t) \<in> {TASK_WAIT_FOR_JOINER, TASK_WAIT_TO_JOIN}
       else tk_join_state (T t) = (if tk_join_task (T t) = None then TASK_JOINABLE else TASK_WAIT_TO_JOIN))"

definition tasks_inv :: "(nat \<Rightarrow> 'r task) \<Rightarrow> nat \<Rightarrow> nat \<Rightarrow> nat list \<Rightarrow> nat option \<Rightarrow> bool" where
  "tasks_inv T n i q run \<longleftrightarrow> states_ok T n i q run \<and> waits_ok T n \<and> joins_ok T n"

definition tasks_ok :: "'r world \<Rightarrow> bool" where
  "tasks_ok w \<longleftrightarrow> (\<exists>T n i c q. one_proc w T n i c q \<and> tasks_inv T n i q (Some c))"

abbreviation run_queue :: "'r world \<Rightarrow> nat list" where
  "run_queue w \<equiv> sched_queues (wd_sched w) ! 0"

lemma tasks_okI: "one_proc w T n i c q \<Longrightarrow> tasks_inv T n i q (Some c) \<Longrightarrow> tasks_ok w"
  unfolding tasks_ok_def by blast

lemma tasks_okE:
  assumes "tasks_ok w"
  obtains T n i c q where "one_proc w T n i c q" "tasks_inv T n i q (Some c)"
  using assms by (auto simp: tasks_ok_def)

subsubsection \<open>What the steps do to the invariant\<close>

lemma waits_okI:
  assumes "\<And>t. t < n \<Longrightarrow> tk_state (T t) = TASK_STATE_WAITING \<Longrightarrow> \<exists>u < n. tk_join_task (T u) = Some t"
    and "\<And>t j. t < n \<Longrightarrow> tk_join_task (T t) = Some j \<Longrightarrow> j < n \<and> tk_state (T j) = TASK_STATE_WAITING"
    and "\<And>t u j. t < n \<Longrightarrow> u < n \<Longrightarrow> tk_join_task (T t) = Some j \<Longrightarrow> tk_join_task (T u) = Some j \<Longrightarrow> t = u"
  shows "waits_ok T n"
  using assms unfolding waits_ok_def by blast

lemma waits_okD:
  assumes "waits_ok T n"
  shows "t < n \<Longrightarrow> tk_state (T t) = TASK_STATE_WAITING \<Longrightarrow> \<exists>u < n. tk_join_task (T u) = Some t"
    and "t < n \<Longrightarrow> tk_join_task (T t) = Some j \<Longrightarrow> j < n \<and> tk_state (T j) = TASK_STATE_WAITING"
    and "t < n \<Longrightarrow> u < n \<Longrightarrow> tk_join_task (T t) = Some j \<Longrightarrow> tk_join_task (T u) = Some j \<Longrightarrow> t = u"
  using assms unfolding waits_ok_def by blast+

lemma joins_okD:
  assumes "joins_ok T n" "t < n"
  shows "tk_join_state (T t) = TASK_JOINABLE \<Longrightarrow> tk_state (T t) \<noteq> TASK_STATE_DONE \<and> tk_join_task (T t) = None"
    and "tk_join_state (T t) = TASK_WAIT_FOR_JOINER \<Longrightarrow> tk_state (T t) = TASK_STATE_DONE \<and> tk_join_task (T t) = None"
    and "tk_join_state (T t) \<noteq> TASK_DETACHED"
    and "tk_state (T t) \<noteq> TASK_STATE_DONE \<Longrightarrow>
      tk_join_state (T t) = (if tk_join_task (T t) = None then TASK_JOINABLE else TASK_WAIT_TO_JOIN)"
  using spec [OF assms(1) [unfolded joins_ok_def], of t] assms(2) by (auto split: if_splits)

text \<open>Changing a state that is neither waiting nor done leaves the joins as they are.\<close>

lemma waits_set_state:
  assumes "waits_ok T n" "tk_state (T c) \<noteq> TASK_STATE_WAITING" "st \<noteq> TASK_STATE_WAITING"
  shows "waits_ok (T(c := set_state st (T c))) n"
proof -
  let ?T = "T(c := set_state st (T c))"
  have j: "tk_join_task (?T t) = tk_join_task (T t)" for t by (simp add: set_state_def)
  have s: "tk_state (?T t) = TASK_STATE_WAITING \<longleftrightarrow> tk_state (T t) = TASK_STATE_WAITING" for t
    using assms(2,3) by (simp add: set_state_def)
  show ?thesis using assms(1) unfolding waits_ok_def j s .
qed

lemma joins_set_state:
  assumes "joins_ok T n" "tk_state (T c) \<noteq> TASK_STATE_DONE" "st \<noteq> TASK_STATE_DONE"
  shows "joins_ok (T(c := set_state st (T c))) n"
proof -
  let ?T = "T(c := set_state st (T c))"
  have j: "tk_join_task (?T t) = tk_join_task (T t)" "tk_join_state (?T t) = tk_join_state (T t)" for t by (simp_all add: set_state_def)
  have s: "tk_state (?T t) = TASK_STATE_DONE \<longleftrightarrow> tk_state (T t) = TASK_STATE_DONE" for t
    using assms(2,3) by (simp add: set_state_def)
  show ?thesis using assms(1) unfolding joins_ok_def j s .
qed

lemma inv_ready:
  assumes "tasks_inv T n i q (Some c)"
  shows "tasks_inv (T(c := set_state TASK_STATE_READY (T c))) n i (if c \<noteq> i then q @ [c] else q) None"
proof -
  have c: "tk_state (T c) = TASK_STATE_RUNNING" using assms by (simp add: tasks_inv_def states_ok_def)
  have "states_ok (T(c := set_state TASK_STATE_READY (T c))) n i (if c \<noteq> i then q @ [c] else q) None"
    using assms by (auto simp: tasks_inv_def states_ok_def set_state_def)
  then show ?thesis using assms c by (simp add: tasks_inv_def waits_set_state joins_set_state)
qed

lemma inv_start:
  assumes "tasks_inv T n i (t # q) None" "t \<notin> set q"
  shows "tasks_inv (T(t := set_state TASK_STATE_RUNNING (T t))) n i q (Some t)"
proof -
  have c: "tk_state (T t) = TASK_STATE_READY" using assms by (simp add: tasks_inv_def states_ok_def)
  have "states_ok (T(t := set_state TASK_STATE_RUNNING (T t))) n i q (Some t)"
    using assms by (auto simp: tasks_inv_def states_ok_def set_state_def)
  then show ?thesis using assms c by (simp add: tasks_inv_def waits_set_state joins_set_state)
qed

lemma inv_start_idle:
  assumes "tasks_inv T n i [] None" "tk_state (T i) = TASK_STATE_READY"
  shows "tasks_inv (T(i := set_state TASK_STATE_RUNNING (T i))) n i [] (Some i)"
proof -
  have "states_ok (T(i := set_state TASK_STATE_RUNNING (T i))) n i [] (Some i)"
    using assms by (auto simp: tasks_inv_def states_ok_def set_state_def)
  then show ?thesis using assms by (simp add: tasks_inv_def waits_set_state joins_set_state)
qed

lemma inv_create:
  assumes "tasks_inv T n i q (Some c)"
  shows "tasks_inv (T(n := new_task TASK_STATE_READY)) (n + 1) i (q @ [n]) (Some c)"
proof -
  let ?T = "T(n := new_task TASK_STATE_READY)"
  have "states_ok ?T (n + 1) i (q @ [n]) (Some c)"
    using assms by (auto simp: tasks_inv_def states_ok_def new_task_def less_Suc_eq)
  moreover have "joins_ok ?T (n + 1)"
    using assms by (auto simp: tasks_inv_def joins_ok_def new_task_def less_Suc_eq)
  moreover have "waits_ok ?T (n + 1)"
  proof (rule waits_okI)
    have w: "waits_ok T n" using assms by (simp add: tasks_inv_def)
    have old: "t < n" "tk_join_task (T t) = Some j" if g: "t < n + 1" "tk_join_task (?T t) = Some j" for t j
      using g by (auto simp: new_task_def less_Suc_eq split: if_splits)
    show "\<exists>u < n + 1. tk_join_task (?T u) = Some t" if g: "t < n + 1" "tk_state (?T t) = TASK_STATE_WAITING" for t
    proof -
      have "t < n" "tk_state (T t) = TASK_STATE_WAITING" using g by (auto simp: new_task_def less_Suc_eq split: if_splits)
      from waits_okD(1) [OF w this] obtain u where "u < n" "tk_join_task (T u) = Some t" by blast
      then show ?thesis by (intro exI [of _ u]) simp
    qed
    show "j < n + 1 \<and> tk_state (?T j) = TASK_STATE_WAITING" if g: "t < n + 1" "tk_join_task (?T t) = Some j" for t j
      using waits_okD(2) [OF w old [OF g]] by simp
    show "t = u" if g: "t < n + 1" "u < n + 1" "tk_join_task (?T t) = Some j" "tk_join_task (?T u) = Some j" for t u j
      using waits_okD(3) [OF w old(1) [OF g(1,3)] old(1) [OF g(2,4)] old(2) [OF g(1,3)] old(2) [OF g(2,4)]] .
  qed
  ultimately show ?thesis by (simp add: tasks_inv_def)
qed

text \<open>The running task waits for \<open>u\<close>.\<close>

lemma inv_wait:
  assumes "tasks_inv T n i q (Some c)" "u < n" "tk_join_state (T u) = TASK_JOINABLE"
    and T': "T' = (T(u := (T u)\<lparr>tk_join_state := TASK_WAIT_TO_JOIN\<rparr>))"
    and T'': "T'' = T'(c := set_state TASK_STATE_WAITING (T' c))"
    and S: "S = T''(u := (T'' u)\<lparr>tk_join_task := Some c\<rparr>)"
  shows "tasks_inv S n i q None"
proof -
  have c: "c < n" "tk_state (T c) = TASK_STATE_RUNNING" using assms(1) by (auto simp: tasks_inv_def states_ok_def)
  have st: "tk_state (S t) = (if t = c then TASK_STATE_WAITING else tk_state (T t))" for t
    by (simp add: S T' T'' set_state_def)
  have jt: "tk_join_task (S t) = (if t = u then Some c else tk_join_task (T t))" for t
    by (simp add: S T' T'' set_state_def)
  have js: "tk_join_state (S t) = (if t = u then TASK_WAIT_TO_JOIN else tk_join_state (T t))" for t
    by (simp add: S T' T'' set_state_def)
  have u: "tk_state (T u) \<noteq> TASK_STATE_DONE" "tk_join_task (T u) = None"
    using joins_okD(1) [of T n u] assms(2,3) assms(1) by (auto simp: tasks_inv_def)
  have "states_ok S n i q None"
    using assms(1) c by (auto simp: tasks_inv_def states_ok_def st)
  moreover have "joins_ok S n"
    using assms(1) u(1) c unfolding joins_ok_def tasks_inv_def st jt js by auto
  moreover have w: "waits_ok T n" using assms(1) by (simp add: tasks_inv_def)
  have old: "tk_join_task (T t) \<noteq> Some c" if "t < n" for t using waits_okD(2) [OF w that] c(2) by fastforce
  have "waits_ok S n"
  proof (rule waits_okI)
    show "\<exists>v < n. tk_join_task (S v) = Some t" if g: "t < n" "tk_state (S t) = TASK_STATE_WAITING" for t
    proof (cases "t = c")
      case True
      then show ?thesis using assms(2) by (auto simp: jt)
    next
      case False
      from waits_okD(1) [OF w g(1)] g(2) False obtain v where "v < n" "tk_join_task (T v) = Some t" by (auto simp: st)
      then show ?thesis using u(2) by (intro exI [of _ v]) (auto simp: jt)
    qed
    show "j < n \<and> tk_state (S j) = TASK_STATE_WAITING" if g: "t < n" "tk_join_task (S t) = Some j" for t j
      using g c waits_okD(2) [OF w g(1), of j] by (auto simp: jt st split: if_splits)
    show "t = v" if g: "t < n" "v < n" "tk_join_task (S t) = Some j" "tk_join_task (S v) = Some j" for t v j
      using g old [OF g(1)] old [OF g(2)] waits_okD(3) [OF w g(1,2), of j] by (auto simp: jt split: if_splits)
  qed
  ultimately show ?thesis by (simp add: tasks_inv_def)
qed

text \<open>The running task is done; \<open>f\<close> is the task that waited for it.\<close>

lemma inv_done:
  assumes "tasks_inv T n i q (Some c)" "c \<noteq> i" "tk_join_task (T c) = None"
    and st: "\<And>t. tk_state (S t) = (if t = c then TASK_STATE_DONE else tk_state (T t))"
    and jt: "\<And>t. tk_join_task (S t) = tk_join_task (T t)"
    and js: "\<And>t. tk_join_state (S t) = (if t = c then TASK_WAIT_FOR_JOINER else tk_join_state (T t))"
  shows "tasks_inv S n i q None"
proof -
  have c: "c < n" "tk_state (T c) = TASK_STATE_RUNNING" using assms(1) by (auto simp: tasks_inv_def states_ok_def)
  have "states_ok S n i q None"
    using assms(1,2) c by (auto simp: tasks_inv_def states_ok_def st)
  moreover have "joins_ok S n"
    using assms(1,3) c unfolding joins_ok_def tasks_inv_def st jt js by auto
  moreover have w: "waits_ok T n" using assms(1) by (simp add: tasks_inv_def)
  have s: "tk_state (S t) = TASK_STATE_WAITING \<longleftrightarrow> tk_state (T t) = TASK_STATE_WAITING" for t using c by (simp add: st)
  have "waits_ok S n" using w unfolding waits_ok_def jt s .
  ultimately show ?thesis by (simp add: tasks_inv_def)
qed

lemma inv_done_joined:
  assumes "tasks_inv T n i q (Some c)" "c \<noteq> i" "tk_join_task (T c) = Some j"
    and st: "\<And>t. tk_state (S t) = (if t = c then TASK_STATE_DONE else if t = j then TASK_STATE_READY else tk_state (T t))"
    and jt: "\<And>t. tk_join_task (S t) = (if t = c then None else tk_join_task (T t))"
    and js: "\<And>t. tk_join_state (S t) = (if t = c then TASK_WAIT_FOR_JOINER else tk_join_state (T t))"
  shows "tasks_inv S n i (q @ [j]) None"
proof -
  have c: "c < n" "tk_state (T c) = TASK_STATE_RUNNING" using assms(1) by (auto simp: tasks_inv_def states_ok_def)
  have w: "waits_ok T n" using assms(1) by (simp add: tasks_inv_def)
  note j = waits_okD(2) [OF w c(1) assms(3)]
  have jc: "j \<noteq> c" using j c by auto
  have "states_ok S n i (q @ [j]) None"
    using assms(1,2) c j jc by (auto simp: tasks_inv_def states_ok_def st)
  moreover have "joins_ok S n"
    using assms(1) c j jc unfolding joins_ok_def tasks_inv_def st jt js by auto
  moreover have "waits_ok S n"
  proof (rule waits_okI)
    show "\<exists>v < n. tk_join_task (S v) = Some t" if g: "t < n" "tk_state (S t) = TASK_STATE_WAITING" for t
    proof -
      have t: "t \<noteq> c" "t \<noteq> j" "tk_state (T t) = TASK_STATE_WAITING" using g(2) by (auto simp: st split: if_splits)
      from waits_okD(1) [OF w g(1) t(3)] obtain v where "v < n" "tk_join_task (T v) = Some t" by blast
      then show ?thesis using assms(3) t by (intro exI [of _ v]) (auto simp: jt)
    qed
    show "k < n \<and> tk_state (S k) = TASK_STATE_WAITING" if g: "t < n" "tk_join_task (S t) = Some k" for t k
    proof -
      have t: "t \<noteq> c" "tk_join_task (T t) = Some k" using g(2) by (auto simp: jt split: if_splits)
      have "k \<noteq> j" using waits_okD(3) [OF w g(1) c(1)] t assms(3) by auto
      then show ?thesis using waits_okD(2) [OF w g(1) t(2)] c by (auto simp: st)
    qed
    show "t = v" if g: "t < n" "v < n" "tk_join_task (S t) = Some k" "tk_join_task (S v) = Some k" for t v k
      using g waits_okD(3) [OF w g(1,2), of k] by (auto simp: jt split: if_splits)
  qed
  ultimately show ?thesis by (simp add: tasks_inv_def)
qed

lemma inv_joined:
  assumes "tasks_inv T n i q (Some c)" "u < n" "tk_join_state (T u) = TASK_WAIT_FOR_JOINER"
  shows "tasks_inv (T(u := (T u)\<lparr>tk_join_state := TASK_WAIT_TO_JOIN\<rparr>)) n i q (Some c)"
proof -
  have u: "tk_state (T u) = TASK_STATE_DONE" using joins_okD(2) [of T n u] assms(2,3) assms(1) by (auto simp: tasks_inv_def)
  let ?S = "T(u := (T u)\<lparr>tk_join_state := TASK_WAIT_TO_JOIN\<rparr>)"
  have s: "tk_state (?S t) = tk_state (T t)" "tk_join_task (?S t) = tk_join_task (T t)" for t by simp_all
  have j: "\<forall>t < n. if tk_state (T t) = TASK_STATE_DONE
      then tk_join_task (T t) = None \<and> tk_join_state (T t) \<in> {TASK_WAIT_FOR_JOINER, TASK_WAIT_TO_JOIN}
      else tk_join_state (T t) = (if tk_join_task (T t) = None then TASK_JOINABLE else TASK_WAIT_TO_JOIN)"
    using assms(1) unfolding tasks_inv_def joins_ok_def by blast
  have "joins_ok ?S n" unfolding joins_ok_def
  proof (intro allI impI)
    fix t assume "t < n"
    then show "if tk_state (?S t) = TASK_STATE_DONE
        then tk_join_task (?S t) = None \<and> tk_join_state (?S t) \<in> {TASK_WAIT_FOR_JOINER, TASK_WAIT_TO_JOIN}
        else tk_join_state (?S t) = (if tk_join_task (?S t) = None then TASK_JOINABLE else TASK_WAIT_TO_JOIN)"
      using spec [OF j, of t] u by (cases "t = u") auto
  qed
  moreover have "states_ok ?S n i q (Some c)" using assms(1) unfolding tasks_inv_def states_ok_def s by (elim conjE) (intro conjI)
  moreover have "waits_ok ?S n" using assms(1) unfolding tasks_inv_def waits_ok_def s by (elim conjE) (intro conjI)
  ultimately show ?thesis by (simp only: tasks_inv_def)
qed

subsubsection \<open>The operations on one queue\<close>

lemma one_balance: "one_proc w T n i c q \<Longrightarrow> sched_load_balance (wd_sched w) 0 = Inr (wd_sched w)"
  using length_queues [of "wd_sched w"] by (auto simp: one_proc_def sched_load_balance_def)

lemma one_proc_put:
  assumes "one_proc w T n i c q" "t \<notin> set q"
  shows "one_proc (put_task w 0 t) T n i c (q @ [t])"
  using assms tq.one_put [of "wd_sched w" q t] by (simp add: one_proc_def put_task_def)

lemma one_set: "one_proc w T n i c q \<Longrightarrow> one_proc (set_task w t f) (T(t := f (T t))) n i c q"
  by (auto simp: one_proc_def set_task_def)

lemma one_tasks: "one_proc w T n i c q \<Longrightarrow> wd_tasks w = T \<and> wd_next w = n \<and> wd_idle w = [i] \<and> wd_current w = [c] \<and>
  sched_queues (wd_sched w) = [q]"
  by (simp add: one_proc_def)

lemma one_distinct: "one_proc w T n i c q \<Longrightarrow> distinct q"
  using tq.queued_once [of "wd_sched w"] by (auto simp: one_proc_def)

text \<open>The running task stops, and \<open>t\<close> starts.\<close>

definition stopped :: "(nat \<Rightarrow> 'r task) \<Rightarrow> nat \<Rightarrow> (nat \<Rightarrow> 'r task)" where
  "stopped T c = (if tk_state (T c) = TASK_STATE_RUNNING then T(c := set_state TASK_STATE_READY (T c)) else T)"

definition requeued :: "(nat \<Rightarrow> 'r task) \<Rightarrow> nat \<Rightarrow> nat \<Rightarrow> nat list" where
  "requeued T i c = (if tk_state (T c) = TASK_STATE_RUNNING \<and> c \<noteq> i then [c] else [])"

lemma one_switch:
  assumes "one_proc w T n i c q" "c \<notin> set q" "tk_state (T c) \<noteq> TASK_STATE_READY" "tk_state (T t) = TASK_STATE_READY"
  shows "\<exists>w'. task_switch_to w 0 t = Inr w' \<and>
    one_proc w' ((stopped T c)(t := set_state TASK_STATE_RUNNING (T t))) n i t (q @ requeued T i c)"
proof -
  have tc: "t \<noteq> c" using assms(3,4) by auto
  note w = one_tasks [OF assms(1)]
  have go: "one_proc ((set_task w1 t (set_state TASK_STATE_RUNNING))\<lparr>wd_current := (wd_current w1)[0 := t]\<rparr>)
      (S(t := set_state TASK_STATE_RUNNING (S t))) n i t q'" if "one_proc w1 S n i c q'" for w1 S q'
    using one_set [OF that, of t] one_tasks [OF that] by (simp add: one_proc_def set_task_def)
  show ?thesis
  proof (cases "tk_state (T c) = TASK_STATE_RUNNING")
    case True
    let ?w1 = "set_task w c (set_state TASK_STATE_READY)"
    let ?w2 = "if c \<noteq> i then put_task ?w1 0 c else ?w1"
    have 1: "one_proc ?w1 (stopped T c) n i c q" using one_set [OF assms(1), of c] True by (simp add: stopped_def)
    then have 2: "one_proc ?w2 (stopped T c) n i c (q @ requeued T i c)"
      using one_proc_put [OF 1 assms(2)] True by (cases "c = i") (simp_all add: requeued_def)
    have 3: "stopped T c t = T t" using tc by (simp add: stopped_def)
    have r: "tk_state (task_of ?w2 t) = TASK_STATE_READY" using one_tasks [OF 2] 3 assms(4) by metis
    have "task_switch_to w 0 t = Inr ((set_task ?w2 t (set_state TASK_STATE_RUNNING))\<lparr>wd_current := (wd_current ?w2)[0 := t]\<rparr>)"
    proof (cases "c = i")
      case ci: True
      show ?thesis using w True r by (simp add: task_switch_to_def Let_def ci)
    next
      case ci: False
      show ?thesis using w True r by (simp add: task_switch_to_def Let_def ci)
    qed
    then show ?thesis using go [OF 2, unfolded 3] by blast
  next
    case False
    then have "task_switch_to w 0 t = Inr ((set_task w t (set_state TASK_STATE_RUNNING))\<lparr>wd_current := (wd_current w)[0 := t]\<rparr>)"
      using w assms(3,4) by (cases "tk_state (T c)") (simp_all add: task_switch_to_def)
    then show ?thesis using go [OF assms(1)] False by (auto simp: stopped_def requeued_def)
  qed
qed

lemma one_yield_first:
  assumes "one_proc w T n i c (t # q)" "c \<notin> set q" "tk_state (T c) \<noteq> TASK_STATE_READY" "tk_state (T t) = TASK_STATE_READY"
  shows "\<exists>w'. task_yield w 0 = Inr w' \<and>
    one_proc w' ((stopped T c)(t := set_state TASK_STATE_RUNNING (T t))) n i t (q @ requeued T i c)"
proof -
  obtain s where s: "sched_get_task (wd_sched w) 0 = (Some t, s)" "sched_ok s" "sched_queues s = [q]"
    using tq.one_first [of "wd_sched w" t q] assms(1) by (auto simp: one_proc_def)
  have "one_proc (w\<lparr>wd_sched := s\<rparr>) T n i c q" using assms(1) s by (simp add: one_proc_def)
  from one_switch [OF this assms(2-4)] show ?thesis
    using s(1) one_balance [OF assms(1)] by (simp add: task_yield_def)
qed

lemma one_yield_none:
  assumes "one_proc w T n i c []"
  shows "task_yield w 0 = (if tk_state (T c) \<in> {TASK_STATE_DONE, TASK_STATE_WAITING} then task_switch_to w 0 i else Inr w)"
proof -
  have "sched_get_task (wd_sched w) 0 = (None, wd_sched w)" using tq.one_none [of "wd_sched w"] assms by (simp add: one_proc_def)
  then show ?thesis using one_balance [OF assms] one_tasks [OF assms] by (simp add: task_yield_def Let_def)
qed

subsubsection \<open>A step keeps the invariant\<close>

text \<open>The next task of the queue runs; the tasks behind it keep their order.\<close>

definition moved :: "nat list \<Rightarrow> 'r world \<Rightarrow> bool" where
  "moved q w' \<longleftrightarrow> (case q of [] \<Rightarrow> True | t # q' \<Rightarrow> wd_current w' = [t] \<and> (\<exists>z. run_queue w' = q' @ z))"

lemma movedI: "one_proc w' S n i t (q' @ z) \<Longrightarrow> moved (t # q') w'"
  by (auto simp: moved_def one_proc_def)

lemma moved_append: "moved (q @ z) w' \<Longrightarrow> moved q w'"
  by (cases q) (auto simp: moved_def)

lemma yield_running:
  assumes "one_proc w T n i c q" "tasks_inv T n i q (Some c)"
  shows "\<exists>w'. task_yield w 0 = Inr w' \<and> tasks_ok w' \<and> moved q w'"
proof (cases q)
  case Nil
  have "tk_state (T c) = TASK_STATE_RUNNING" using assms(2) by (auto simp: tasks_inv_def states_ok_def)
  then have "task_yield w 0 = Inr w" using one_yield_none [of w T n i c] assms(1) Nil by simp
  then show ?thesis using tasks_okI [OF assms] Nil by (simp add: moved_def)
next
  case (Cons t q')
  have c: "tk_state (T c) = TASK_STATE_RUNNING" and t: "tk_state (T t) = TASK_STATE_READY" and "c \<notin> set q"
    using assms(2) Cons by (auto simp: tasks_inv_def states_ok_def)
  have tc: "t \<noteq> c" using c t by auto
  let ?S = "(stopped T c)(t := set_state TASK_STATE_RUNNING (T t))"
  obtain w' where w': "task_yield w 0 = Inr w'" "one_proc w' ?S n i t (q' @ requeued T i c)"
    using one_yield_first [of w T n i c t q'] assms(1) Cons c t \<open>c \<notin> set q\<close> by auto
  have 1: "tasks_inv (stopped T c) n i (t # (q' @ requeued T i c)) None"
    using inv_ready [OF assms(2)] c Cons by (auto simp: stopped_def requeued_def split: if_splits)
  have "t \<notin> set (q' @ requeued T i c)" using one_distinct [OF assms(1)] Cons tc by (auto simp: requeued_def)
  moreover have "stopped T c t = T t" using tc by (simp add: stopped_def)
  ultimately have "tasks_inv ?S n i (q' @ requeued T i c) (Some t)" using inv_start [OF 1] by simp
  from tasks_okI [OF w'(2) this] show ?thesis using w'(1) movedI [OF w'(2)] Cons by auto
qed

lemma yield_stopped:
  assumes "one_proc w T n i c q" "tasks_inv T n i q None" "tk_state (T c) = TASK_STATE_DONE \<or> tk_state (T c) = TASK_STATE_WAITING"
  shows "(\<exists>w' t. task_yield w 0 = Inr w' \<and> tasks_ok w' \<and> moved q w' \<and> (t = i \<or> t \<in> set q) \<and>
      wd_tasks w' = T(t := set_state TASK_STATE_RUNNING (T t)) \<and> wd_next w' = n \<and> wd_idle w' = [i] \<and>
      (q \<noteq> [] \<longrightarrow> q = wd_current w' ! 0 # run_queue w')) \<or>
    (task_yield w 0 = Inl Assert_Failed \<and> (\<forall>t < n. tk_state (T t) \<noteq> TASK_STATE_READY))"
proof (cases q)
  case Nil
  have y: "task_yield w 0 = task_switch_to w 0 i" using one_yield_none [of w T n i c] assms(1,3) Nil by auto
  show ?thesis
  proof (cases "tk_state (T i) = TASK_STATE_READY")
    case True
    have s: "stopped T c = T" "requeued T i c = []" using assms(3) by (auto simp: stopped_def requeued_def)
    obtain w' where w': "task_switch_to w 0 i = Inr w'" "one_proc w' (T(i := set_state TASK_STATE_RUNNING (T i))) n i i []"
      using one_switch [of w T n i c "[]" i] assms(1,3) Nil True s by auto
    moreover have inv: "tasks_inv (T(i := set_state TASK_STATE_RUNNING (T i))) n i [] (Some i)"
      using inv_start_idle [of T n i] True assms(2) Nil by simp
    moreover note one_tasks [OF w'(2)]
    moreover note tasks_okI [OF w'(2) inv]
    ultimately show ?thesis unfolding y using Nil
      by (intro disjI1 exI [of _ w'] exI [of _ i]) (simp add: moved_def)
  next
    case False
    have "task_switch_to w 0 i = Inl Assert_Failed"
      using one_tasks [OF assms(1)] assms(3) False by (auto simp: task_switch_to_def)
    moreover have "\<forall>t < n. tk_state (T t) \<noteq> TASK_STATE_READY"
      using assms(2) Nil False by (auto simp: tasks_inv_def states_ok_def)
    ultimately show ?thesis by (simp add: y)
  qed
next
  case (Cons t q')
  have s: "stopped T c = T" "requeued T i c = []" using assms(3) by (auto simp: stopped_def requeued_def)
  have t: "tk_state (T t) = TASK_STATE_READY" and "c \<notin> set q"
    using assms(2,3) Cons by (auto simp: tasks_inv_def states_ok_def)
  obtain w' where w': "task_yield w 0 = Inr w'" "one_proc w' (T(t := set_state TASK_STATE_RUNNING (T t))) n i t q'"
    using one_yield_first [of w T n i c t q'] assms(1,3) Cons t \<open>c \<notin> set q\<close> s by auto
  have "tasks_inv (T(t := set_state TASK_STATE_RUNNING (T t))) n i q' (Some t)"
    using inv_start [of T n i t q'] assms(2) one_distinct [OF assms(1)] Cons by simp
  from tasks_okI [OF w'(2) this] have "tasks_ok w'" .
  moreover have "moved q w'" using movedI [of w' _ n i t q' "[]"] w'(2) Cons by auto
  ultimately show ?thesis using w' one_tasks [OF w'(2)] Cons
    by (intro disjI1 exI [of _ w'] exI [of _ t]) simp
qed

subsubsection \<open>Every step\<close>

fun switching :: "'r action \<Rightarrow> 'r world \<Rightarrow> bool" where
  "switching Create w \<longleftrightarrow> False"
| "switching (Join t) w \<longleftrightarrow> tk_join_state (task_of w t) = TASK_JOINABLE"
| "switching _ w \<longleftrightarrow> True"

text \<open>No task but the running one is ready: when that one stops, none can run.\<close>

definition deadlocked :: "'r world \<Rightarrow> bool" where
  "deadlocked w \<longleftrightarrow> (\<forall>t < wd_next w. t \<noteq> wd_current w ! 0 \<longrightarrow> tk_state (task_of w t) \<noteq> TASK_STATE_READY)"

definition good_step :: "'r action \<Rightarrow> 'r world \<Rightarrow> bool" where
  "good_step a w \<longleftrightarrow>
     (\<exists>w'. task_step a w = Some (Inr w') \<and> tasks_ok w' \<and>
        (if switching a w then moved (run_queue w) w' else \<exists>z. run_queue w' = run_queue w @ z)) \<or>
     (task_step a w = Some (Inl Assert_Failed) \<and> deadlocked w)"

lemma create_step:
  assumes "tasks_ok w"
  shows "good_step Create w"
proof -
  from assms obtain T n i c q where w: "one_proc w T n i c q" "tasks_inv T n i q (Some c)" by (rule tasks_okE)
  have "n \<notin> set q" using w(2) by (auto simp: tasks_inv_def states_ok_def)
  moreover have "one_proc (w\<lparr>wd_next := n + 1, wd_tasks := T(n := new_task TASK_STATE_READY)\<rparr>) (T(n := new_task TASK_STATE_READY)) (n + 1) i c q"
    using w(1) by (simp add: one_proc_def)
  ultimately have 1: "one_proc (snd (task_create w 0)) (T(n := new_task TASK_STATE_READY)) (n + 1) i c (q @ [n])"
    using one_proc_put one_tasks [OF w(1)] by (simp add: task_create_def)
  from tasks_okI [OF this inv_create [OF w(2)]] show ?thesis
    using one_tasks [OF 1] one_tasks [OF w(1)] by (auto simp: good_step_def)
qed

lemma yield_step:
  assumes "tasks_ok w"
  shows "good_step Yield w"
proof -
  from assms obtain T n i c q where w: "one_proc w T n i c q" "tasks_inv T n i q (Some c)" by (rule tasks_okE)
  from yield_running [OF w] show ?thesis using one_tasks [OF w(1)] by (auto simp: good_step_def)
qed

lemma join_step:
  assumes "tasks_ok w" "allowed (Join u) w"
  shows "good_step (Join u) w"
proof -
  from assms(1) obtain T n i c q where w: "one_proc w T n i c q" "tasks_inv T n i q (Some c)" by (rule tasks_okE)
  note t = one_tasks [OF w(1)]
  have u: "u < n" "tk_join_state (T u) \<noteq> TASK_WAIT_TO_JOIN" using assms(2) t by auto
  have "tk_join_state (T u) \<noteq> TASK_DETACHED" using joins_okD(3) [of T n u] w(2) u by (simp add: tasks_inv_def)
  with u consider "tk_join_state (T u) = TASK_JOINABLE" | "tk_join_state (T u) = TASK_WAIT_FOR_JOINER"
    by (cases "tk_join_state (T u)") auto
  then show ?thesis
  proof cases
    case 1
    let ?T1 = "T(u := (T u)\<lparr>tk_join_state := TASK_WAIT_TO_JOIN\<rparr>)"
    let ?T2 = "?T1(c := set_state TASK_STATE_WAITING (?T1 c))"
    let ?S = "?T2(u := (?T2 u)\<lparr>tk_join_task := Some c\<rparr>)"
    let ?w1 = "set_task w u (\<lambda>tk. tk\<lparr>tk_join_state := TASK_WAIT_TO_JOIN\<rparr>)"
    let ?w2 = "set_task ?w1 c (set_state TASK_STATE_WAITING)"
    let ?w3 = "set_task ?w2 u (\<lambda>tk. tk\<lparr>tk_join_task := Some c\<rparr>)"
    have w3: "one_proc ?w3 ?S n i c q" by (rule one_set [OF one_set [OF one_set [OF w(1)]]])
    have inv: "tasks_inv ?S n i q None" by (rule inv_wait [OF w(2) u(1) 1 refl refl refl])
    have st: "tk_state (?S c) = TASK_STATE_WAITING" by (simp add: set_state_def)
    have ready: "tk_state (T x) = tk_state (?S x)" if "x \<noteq> c" for x using that by (simp add: set_state_def)
    have step: "task_step (Join u) w = Some (task_yield ?w3 0)"
      using t 1 one_tasks [OF one_set [OF w(1)]]
      by (cases "task_yield ?w3 0") (simp_all add: task_join_def Let_def)
    from yield_stopped [OF w3 inv] st consider w' where "task_yield ?w3 0 = Inr w'" "tasks_ok w'" "moved q w'"
      | "task_yield ?w3 0 = Inl Assert_Failed" "\<forall>x < n. tk_state (?S x) \<noteq> TASK_STATE_READY" by blast
    then show ?thesis
    proof cases
      case 1
      then show ?thesis using step t \<open>tk_join_state (T u) = TASK_JOINABLE\<close> by (auto simp: good_step_def)
    next
      case 2
      then have "deadlocked w" using t ready by (auto simp: deadlocked_def)
      with 2 step show ?thesis by (simp add: good_step_def)
    qed
  next
    case 2
    let ?w1 = "set_task w u (\<lambda>tk. tk\<lparr>tk_join_state := TASK_WAIT_TO_JOIN\<rparr>)"
    note 1 = one_set [OF w(1), of u "\<lambda>tk. tk\<lparr>tk_join_state := TASK_WAIT_TO_JOIN\<rparr>"]
    have "task_step (Join u) w = Some (Inr ?w1)" using t 2 by (simp add: task_join_def Let_def)
    with tasks_okI [OF 1 inv_joined [OF w(2) u(1) 2]] show ?thesis using one_tasks [OF 1] t 2 by (auto simp: good_step_def)
  qed
qed

text \<open>The end of a task: the task that waits for it is woken with the result, at the end of the queue.\<close>

definition finished :: "(nat \<Rightarrow> 'r task) \<Rightarrow> nat \<Rightarrow> 'r option \<Rightarrow> (nat \<Rightarrow> 'r task)" where
  "finished T c r = (case tk_join_task (T c) of
     None \<Rightarrow> T(c := (T c)\<lparr>tk_result := r, tk_join_state := TASK_WAIT_FOR_JOINER, tk_state := TASK_STATE_DONE\<rparr>)
   | Some j \<Rightarrow> T(c := (T c)\<lparr>tk_result := r, tk_join_state := TASK_WAIT_FOR_JOINER, tk_join_task := None, tk_state := TASK_STATE_DONE\<rparr>,
       j := (T j)\<lparr>tk_state := TASK_STATE_READY, tk_result := r\<rparr>))"

lemma finish_yield:
  assumes w: "one_proc w T n i c q" "tasks_inv T n i q (Some c)"
  shows "\<exists>w'. task_finish w 0 r = Some (task_yield w' 0) \<and>
    one_proc w' (finished T c r) n i c (case tk_join_task (T c) of None \<Rightarrow> q | Some j \<Rightarrow> q @ [j])"
proof -
  note t = one_tasks [OF w(1)]
  have c: "c < n" "tk_state (T c) = TASK_STATE_RUNNING" using w(2) by (auto simp: tasks_inv_def states_ok_def)
  have js: "tk_join_state (T c) = (if tk_join_task (T c) = None then TASK_JOINABLE else TASK_WAIT_TO_JOIN)"
    using joins_okD(4) [of T n c] w(2) c by (simp add: tasks_inv_def)
  let ?w1 = "set_task w c (\<lambda>tk. tk\<lparr>tk_result := r\<rparr>)"
  let ?w2 = "set_task ?w1 c (\<lambda>tk. tk\<lparr>tk_join_state := TASK_WAIT_FOR_JOINER\<rparr>)"
  note w1 = one_set [OF w(1), of c "\<lambda>tk. tk\<lparr>tk_result := r\<rparr>"]
  note w2 = one_set [OF w1, of c "\<lambda>tk. tk\<lparr>tk_join_state := TASK_WAIT_FOR_JOINER\<rparr>"]
  show ?thesis
  proof (cases "tk_join_task (T c)")
    case None
    let ?w3 = "set_task ?w2 c (set_state TASK_STATE_DONE)"
    have "task_finish w 0 r = Some (task_yield ?w3 0)"
      using t js None one_tasks [OF w2] one_tasks [OF w1] by (simp add: task_finish_def Let_def)
    moreover have "one_proc ?w3 (finished T c r) n i c q"
      using one_set [OF w2, of c "set_state TASK_STATE_DONE"] None by (simp add: finished_def set_state_def)
    ultimately show ?thesis using None by auto
  next
    case (Some j)
    have wt: "waits_ok T n" using w(2) by (simp add: tasks_inv_def)
    note j = waits_okD(2) [OF wt c(1) Some]
    have jc: "j \<noteq> c" "j \<notin> set q" using j c w(2) by (auto simp: tasks_inv_def states_ok_def)
    let ?w3 = "set_task ?w2 c (\<lambda>tk. tk\<lparr>tk_join_task := None\<rparr>)"
    let ?w4 = "set_task ?w3 j (\<lambda>tk. tk\<lparr>tk_state := TASK_STATE_READY, tk_result := r\<rparr>)"
    let ?w5 = "set_task (put_task ?w4 0 j) c (set_state TASK_STATE_DONE)"
    note w3 = one_set [OF w2, of c "\<lambda>tk. tk\<lparr>tk_join_task := None\<rparr>"]
    note w4 = one_set [OF w3, of j "\<lambda>tk. tk\<lparr>tk_state := TASK_STATE_READY, tk_result := r\<rparr>"]
    note w5 = one_set [OF one_proc_put [OF w4 jc(2)], of c "set_state TASK_STATE_DONE"]
    have "wake_joiner ?w2 0 c r = Some (Inr (put_task ?w4 0 j))"
      using one_tasks [OF w2] one_tasks [OF w3] Some j jc by (simp add: wake_joiner_def Let_def)
    then have "task_finish w 0 r = Some (task_yield ?w5 0)"
      using t js Some one_tasks [OF w1] by (simp add: task_finish_def Let_def)
    moreover have "one_proc ?w5 (finished T c r) n i c (q @ [j])"
      using w5 Some jc by (simp add: finished_def set_state_def fun_upd_twist)
    ultimately show ?thesis using Some by auto
  qed
qed

lemma inv_finished:
  assumes "tasks_inv T n i q (Some c)" "c \<noteq> i"
  shows "tasks_inv (finished T c r) n i (case tk_join_task (T c) of None \<Rightarrow> q | Some j \<Rightarrow> q @ [j]) None"
proof (cases "tk_join_task (T c)")
  case None
  then show ?thesis using inv_done [OF assms None, of "finished T c r"] by (simp add: finished_def)
next
  case (Some j)
  have c: "c < n" "tk_state (T c) = TASK_STATE_RUNNING" and wt: "waits_ok T n"
    using assms(1) by (auto simp: tasks_inv_def states_ok_def)
  have "j \<noteq> c" using waits_okD(2) [OF wt c(1) Some] c by auto
  then show ?thesis using inv_done_joined [OF assms Some, of "finished T c r"] Some by (simp add: finished_def)
qed

text \<open>What a finishing task leaves behind.\<close>

lemma finish_cases:
  assumes "tasks_ok w" "allowed (Finish r) w" "T = wd_tasks w" "c = wd_current w ! 0" "i = wd_idle w ! 0" "n = wd_next w"
    and "q = (case tk_join_task (T c) of None \<Rightarrow> run_queue w | Some j \<Rightarrow> run_queue w @ [j])"
  shows "(\<exists>w' t. task_finish w 0 r = Some (Inr w') \<and> tasks_ok w' \<and> moved q w' \<and> (t = i \<or> t \<in> set q) \<and>
      wd_tasks w' = (finished T c r)(t := set_state TASK_STATE_RUNNING (finished T c r t)) \<and>
      (q \<noteq> [] \<longrightarrow> q = wd_current w' ! 0 # run_queue w')) \<or>
    (task_finish w 0 r = Some (Inl Assert_Failed) \<and> (\<forall>t < n. tk_state (finished T c r t) \<noteq> TASK_STATE_READY))"
proof -
  from assms(1) obtain U m k d p where w: "one_proc w U m k d p" "tasks_inv U m k p (Some d)" by (rule tasks_okE)
  note t = one_tasks [OF w(1)]
  have eq: "T = U" "c = d" "i = k" "n = m" "q = (case tk_join_task (U d) of None \<Rightarrow> p | Some j \<Rightarrow> p @ [j])"
    using assms(3-7) t by (simp_all split: option.split)
  obtain w1 where w1: "task_finish w 0 r = Some (task_yield w1 0)" "one_proc w1 (finished U d r) m k d q"
    using finish_yield [OF w, of r] eq by auto
  have inv: "tasks_inv (finished U d r) m k q None" using inv_finished [OF w(2)] assms(2) t eq by auto
  have d: "d < m" "tk_state (U d) = TASK_STATE_RUNNING" and wt: "waits_ok U m" using w(2) by (auto simp: tasks_inv_def states_ok_def)
  have "tk_join_task (U d) \<noteq> Some d" using waits_okD(2) [OF wt d(1), of d] d(2) by auto
  then have "tk_state (finished U d r d) = TASK_STATE_DONE" by (auto simp: finished_def Let_def split: option.split)
  with yield_stopped [OF w1(2) inv] show ?thesis using w1(1) unfolding eq(1-4) by auto
qed

lemma finish_step:
  assumes "tasks_ok w" "allowed (Finish r) w"
  shows "good_step (Finish r) w"
proof -
  let ?T = "wd_tasks w" and ?c = "wd_current w ! 0"
  let ?q = "case tk_join_task (?T ?c) of None \<Rightarrow> run_queue w | Some j \<Rightarrow> run_queue w @ [j]"
  from finish_cases [OF assms refl refl refl refl refl]
  consider w' where "task_finish w 0 r = Some (Inr w')" "tasks_ok w'" "moved ?q w'"
    | "task_finish w 0 r = Some (Inl Assert_Failed)" "\<forall>t < wd_next w. tk_state (finished ?T ?c r t) \<noteq> TASK_STATE_READY" by blast
  then show ?thesis
  proof cases
    case 1
    then have "moved (run_queue w) w'" by (cases "tk_join_task (?T ?c)") (auto intro: moved_append)
    with 1 show ?thesis by (simp add: good_step_def)
  next
    case 2
    have "tk_state (finished ?T ?c r t) = TASK_STATE_READY" if "tk_state (?T t) = TASK_STATE_READY" "t \<noteq> ?c" for t
      using that by (simp add: finished_def Let_def split: option.split)
    with 2 show ?thesis by (auto simp: good_step_def deadlocked_def)
  qed
qed

lemma every_step: "tasks_ok w \<Longrightarrow> allowed a w \<Longrightarrow> good_step a w"
  by (cases a) (simp_all add: create_step yield_step join_step finish_step)


lemma reachable_ok: "task_reachable w \<Longrightarrow> tasks_ok w"
proof (induction rule: task_reachable.induct)
  case task_reachable_init
  have "one_proc (task_init_procs 1 :: 'a world) (\<lambda>_. new_task TASK_STATE_RUNNING) 1 0 0 []"
    by (simp add: one_proc_def task_init_procs_def init_ok)
  then show ?case
    by (rule tasks_okI) (simp add: tasks_inv_def states_ok_def waits_ok_def joins_ok_def new_task_def)
next
  case (task_reachable_step w a w')
  from every_step [OF this(4,2)] this(3) show ?case by (auto simp: good_step_def)
qed

text \<open>
  C9: the task states on one processor. In every world that a program reaches from
  \<open>task_init_procs(1)\<close>, the running task is the only one in state RUNNING, the tasks of the ready
  queue are READY and in it once, every task that waits is the joining task of exactly one other task,
  and a next step either leads to such a world again or fails an assertion; it does so only when no
  other task is ready (a deadlock of the joins). The loop that waits for the joining task never spins.
\<close>

theorem one_processor_safe:
  assumes "task_reachable w" "allowed a w"
  shows "(\<exists>c. wd_current w = [c] \<and> (\<forall>t < wd_next w. tk_state (task_of w t) = TASK_STATE_RUNNING \<longleftrightarrow> t = c)) \<and>
    distinct (run_queue w) \<and> (\<forall>t \<in> set (run_queue w). t < wd_next w \<and> tk_state (task_of w t) = TASK_STATE_READY) \<and>
    (\<forall>t < wd_next w. tk_state (task_of w t) = TASK_STATE_WAITING \<longrightarrow> (\<exists>!u. u < wd_next w \<and> tk_join_task (task_of w u) = Some t)) \<and>
    ((\<exists>w'. task_step a w = Some (Inr w') \<and> task_reachable w') \<or>
     (task_step a w = Some (Inl Assert_Failed) \<and>
      (\<forall>t < wd_next w. t \<noteq> wd_current w ! 0 \<longrightarrow> tk_state (task_of w t) \<noteq> TASK_STATE_READY)))"
proof -
  note ok = reachable_ok [OF assms(1)]
  from ok obtain T n i c q where w: "one_proc w T n i c q" "tasks_inv T n i q (Some c)" by (rule tasks_okE)
  have wt: "waits_ok T n" and st: "states_ok T n i q (Some c)" using w(2) by (simp_all add: tasks_inv_def)
  note t = one_tasks [OF w(1)]
  have "(\<exists>c. wd_current w = [c] \<and> (\<forall>t < wd_next w. tk_state (task_of w t) = TASK_STATE_RUNNING \<longleftrightarrow> t = c))"
    "\<forall>t \<in> set (run_queue w). t < wd_next w \<and> tk_state (task_of w t) = TASK_STATE_READY"
    using t st by (auto simp: states_ok_def)
  moreover have "distinct (run_queue w)" using one_distinct [OF w(1)] t by simp
  moreover have "\<exists>!u. u < wd_next w \<and> tk_join_task (task_of w u) = Some t"
    if "t < wd_next w" "tk_state (task_of w t) = TASK_STATE_WAITING" for t
    using waits_okD(1) [OF wt, of t] waits_okD(3) [OF wt, of _ _ t] that t by auto
  moreover have "(\<exists>w'. task_step a w = Some (Inr w') \<and> task_reachable w') \<or>
     (task_step a w = Some (Inl Assert_Failed) \<and> deadlocked w)"
    using every_step [OF ok assms(2)] task_reachable_step [OF assms] by (auto simp: good_step_def)
  ultimately show ?thesis unfolding deadlocked_def by blast
qed

theorem one_processor_safe_witness:
  "\<exists>w'. task_step Create (task_init_procs 1 :: nat world) = Some (Inr w') \<and> task_reachable w'"
  using one_processor_safe [OF task_reachable_init, of Create] by auto

subsection \<open>Progress\<close>

text \<open>A run of the processor: the actions with the worlds they lead to.\<close>

fun task_run :: "'r world \<Rightarrow> ('r action \<times> 'r world) list \<Rightarrow> bool" where
  "task_run w [] \<longleftrightarrow> True"
| "task_run w ((a, w') # rest) \<longleftrightarrow> allowed a w \<and> task_step a w = Some (Inr w') \<and> task_run w' rest"

fun switches :: "'r world \<Rightarrow> ('r action \<times> 'r world) list \<Rightarrow> nat" where
  "switches w [] = 0"
| "switches w ((a, w') # rest) = (if switching a w then 1 else 0) + switches w' rest"

lemma run_from_ok:
  "tasks_ok w \<Longrightarrow> task_run w rest \<Longrightarrow> k < length (run_queue w) \<Longrightarrow> k < switches w rest \<Longrightarrow>
   \<exists>(a, w') \<in> set rest. wd_current w' = [run_queue w ! k]"
proof (induction rest arbitrary: w k)
  case Nil
  then show ?case by simp
next
  case (Cons aw rest)
  obtain a w' where aw: "aw = (a, w')" by (cases aw)
  have step: "allowed a w" "task_step a w = Some (Inr w')" "task_run w' rest" using Cons.prems(2) aw by auto
  have ok: "tasks_ok w'"
    and mv: "if switching a w then moved (run_queue w) w' else \<exists>z. run_queue w' = run_queue w @ z"
    using every_step [OF Cons.prems(1) step(1)] step(2) by (auto simp: good_step_def)
  show ?case
  proof (cases "switching a w")
    case True
    obtain t q' z where q: "run_queue w = t # q'" "wd_current w' = [t]" "run_queue w' = q' @ z"
      using mv True Cons.prems(3) by (cases "run_queue w") (auto simp: moved_def)
    show ?thesis
    proof (cases k)
      case 0
      then show ?thesis using q aw by auto
    next
      case (Suc m)
      then have m: "m < length q'" "m < switches w' rest" using Cons.prems(3,4) q aw True by auto
      from Cons.IH [OF ok step(3) _ m(2)] m q(3) obtain b v where "(b, v) \<in> set rest" "wd_current v = [run_queue w' ! m]"
        by auto
      then show ?thesis using q m(1) Suc aw by (auto simp: nth_append)
    qed
  next
    case False
    then obtain z where z: "run_queue w' = run_queue w @ z" using mv by auto
    from Cons.IH [OF ok step(3), of k] z Cons.prems(3,4) False aw obtain b v where "(b, v) \<in> set rest" "wd_current v = [run_queue w' ! k]"
      by auto
    then show ?thesis using z Cons.prems(3) aw by (auto simp: nth_append)
  qed
qed

text \<open>
  C18: no ready task starves. A task at position \<open>k\<close> of the ready queue runs after at most \<open>k + 1\<close> steps
  that give the processor away (a yield, the end of a task, or joining a task that is not finished),
  whatever the tasks do and however many tasks are created meanwhile.
\<close>

theorem ready_task_runs:
  assumes "task_reachable w" "task_run w rest" "k < length (run_queue w)" "switches w rest = k + 1"
  shows "\<exists>(a, w') \<in> set rest. wd_current w' = [run_queue w ! k]"
  using run_from_ok [OF reachable_ok [OF assms(1)] assms(2,3)] assms(4) by simp

text \<open>The main thread creates task 1 and joins it.\<close>

definition one_created :: "nat world" where
  "one_created = snd (task_create (task_init_procs 1) 0)"

definition one_joined :: "nat world" where
  "one_joined = (case task_join one_created 0 1 of Inr (_, w) \<Rightarrow> w | _ \<Rightarrow> one_created)"

lemmas queue_defs = init_scheduler_def put_task_def schedule_def lldq_push_tail_def push_node_def lldq_init_def
  set_ln_next_def sched_get_task_def pop_node_def lldq_pop_head_def sched_load_balance_def

lemmas task_defs = task_init_procs_def task_create_def task_join_def task_yield_def task_switch_to_def
  set_task_def set_state_def new_task_def

lemma one_created: "task_step Create (task_init_procs 1) = Some (Inr one_created)" "sched_queues (wd_sched one_created) = [[1]]"
  by (simp_all add: one_created_def, simp add: sched_queues_def the_tasks_def queue_defs task_defs Let_def)

lemma one_joined: "task_step (Join 1) one_created = Some (Inr one_joined)" "wd_current one_joined = [1]"
  "tk_join_task (task_of one_joined 1) = Some 0" "wd_idle one_joined = [0]" "sched_queues (wd_sched one_joined) = [[]]"
  "allowed (Join 1) one_created" "switching (Join 1) one_created"
  by (simp_all add: one_joined_def one_created_def queue_defs task_defs Let_def sched_queues_def the_tasks_def)

lemma one_reachable: "task_reachable one_created" "task_reachable one_joined"
proof -
  show 1: "task_reachable one_created"
    using task_reachable_step [OF task_reachable_init _ one_created(1)] by simp
  show "task_reachable one_joined" by (rule task_reachable_step [OF 1 one_joined(6,1)])
qed

theorem ready_task_runs_witness:
  "task_step (Join 1) one_created = Some (Inr one_joined) \<and> wd_current one_joined = [1]"
  using ready_task_runs [OF one_reachable(1), of "[(Join 1, one_joined)]" 0] one_created one_joined by simp



subsection \<open>Two processors\<close>

text \<open>
  On more than one processor an assertion fails although nothing is deadlocked. The main thread creates
  tasks 2 and 3, the second processor takes task 2 and runs it, the main thread joins task 2 and so waits, and
  task 3, which runs in its place, returns. The queue of the processor is then empty and its idle task,
  the main thread, waits: \<open>task_yield\<close> switches to it all the same, and \<open>task_switch_to\<close> asserts that it
  is ready.
\<close>

definition two_created :: "nat world" where
  "two_created = snd (task_create (snd (task_create (task_init_procs 2) 0)) 0)"

definition two_stolen :: "nat world" where
  "two_stolen = (case pthread_step two_created 1 of Inr w \<Rightarrow> w | _ \<Rightarrow> two_created)"

definition two_joined :: "nat world" where
  "two_joined = (case task_join two_stolen 0 2 of Inr (_, w) \<Rightarrow> w | _ \<Rightarrow> two_stolen)"

lemma join_stolen_task_fails:
  "pthread_step two_created 1 = Inr two_stolen" "wd_current two_stolen = [0, 2]"
  "task_join two_stolen 0 2 = Inr (Join_Waits, two_joined)" "wd_current two_joined = [3, 2]"
  "tk_state (task_of two_joined 2) = TASK_STATE_RUNNING"
  "task_finish two_joined 0 None = Some (Inl Assert_Failed)"
proof -
  note ds = queue_defs task_defs pthread_step_def Let_def numeral_2_eq_2 signed_divide_int_def
  show 1: "pthread_step two_created 1 = Inr two_stolen" "wd_current two_stolen = [0, 2]"
    by (simp_all add: two_stolen_def two_created_def ds)
  show "task_join two_stolen 0 2 = Inr (Join_Waits, two_joined)" "wd_current two_joined = [3, 2]"
    "tk_state (task_of two_joined 2) = TASK_STATE_RUNNING"
    by (simp_all add: two_joined_def two_stolen_def two_created_def ds)
  show "task_finish two_joined 0 None = Some (Inl Assert_Failed)"
    by (simp add: two_joined_def two_stolen_def two_created_def task_finish_def ds)
qed

end
