(* ===== verification/ObjectModel.thy ===== *)
theory ObjectModel
  imports NameTable TypeDesc
begin

text \<open>
  Classes and objects of the virtual machine (\<^verbatim>\<open>src/object.c\<close>, \<^verbatim>\<open>include/object.h\<close>): member tables, the
  line resolution order of a class, the layout of the fields of an object, and the search of a member.
  Reference counts are in the theory ObjectRefs.
\<close>

subsection \<open>Data\<close>

datatype MemberKind = CONST_KIND | VAR_KIND | FUNC_KIND | PROTO_KIND | CLASS_KIND | TRAIT_KIND

text \<open>The union of a member node: the offset of a variable, the code of a function; both are zero when new.\<close>

record MNode =
  mn_name :: string
  mn_kind :: MemberKind
  mn_desc :: "TypeDesc option"
  mn_offset :: nat
  mn_code :: "addr option"

record LRONode =
  lr_klazz :: addr
  lr_offset :: nat

record Klass =
  kl_name :: string
  kl_totalvars :: nat
  kl_lro :: "LRONode list"
  kl_mtbl :: "MNode NameTable"
  kl_nrvars :: nat
  kl_consts :: "addr option"

text \<open>The code objects, of which a class only touches the constant pool of those written in Koala.\<close>

record CodeObject =
  co_name :: string
  co_proto :: "TypeDesc option"
  co_kcode :: bool
  co_consts :: "addr option"

text \<open>Classes are shared by pointer: they live in a store. \<open>Any_Klass\<close> is a static of the program.\<close>

type_synonym klasses = "addr \<Rightarrow> Klass"

definition Any_Klass :: addr where
  "Any_Klass = 1"

subsection \<open>Member tables\<close>

definition MNode_New :: "MemberKind \<Rightarrow> string \<Rightarrow> TypeDesc option \<Rightarrow> MNode" where
  "MNode_New kind name desc = \<lparr>mn_name = name, mn_kind = kind, mn_desc = desc, mn_offset = 0, mn_code = None\<rparr>"

definition Find_MNode :: "MNode NameTable \<Rightarrow> string \<Rightarrow> MNode option" where
  "Find_MNode table name = nt_get table name"

text \<open>The result of \<open>HashTable_Insert\<close> is not looked at: a member whose name is taken is dropped.\<close>

definition insert_m :: "MNode NameTable \<Rightarrow> MNode \<Rightarrow> MNode NameTable" where
  "insert_m table m = (case nt_add table (mn_name m) m of Some t \<Rightarrow> t | None \<Rightarrow> table)"

subsection \<open>The line resolution order\<close>

definition LRONode_New :: "nat \<Rightarrow> addr \<Rightarrow> LRONode" where
  "LRONode_New offset klazz = \<lparr>lr_klazz = klazz, lr_offset = offset\<rparr>"

primrec lro_find :: "LRONode list \<Rightarrow> addr \<Rightarrow> bool" where
  "lro_find [] klazz \<longleftrightarrow> False"
| "lro_find (node # lro) klazz \<longleftrightarrow> (if lr_klazz node = klazz then True else lro_find lro klazz)"

text \<open>The inner loop of \<open>lro_build\<close> over the nodes of one base, and the loop over the bases.\<close>

primrec lro_add_line :: "klasses \<Rightarrow> LRONode list \<Rightarrow> LRONode list \<times> nat \<Rightarrow> LRONode list \<times> nat" where
  "lro_add_line kls [] st = st"
| "lro_add_line kls (node # line) st = (case st of (lro, offset) \<Rightarrow>
     lro_add_line kls line
      (if \<not> lro_find lro (lr_klazz node)
       then (lro @ [LRONode_New offset (lr_klazz node)], offset + kl_nrvars (kls (lr_klazz node)))
       else (lro, offset)))"

primrec lro_add_bases :: "klasses \<Rightarrow> addr list \<Rightarrow> LRONode list \<times> nat \<Rightarrow> LRONode list \<times> nat" where
  "lro_add_bases kls [] st = st"
| "lro_add_bases kls (line # bases) st = lro_add_bases kls bases (lro_add_line kls (kl_lro (kls line)) st)"

definition lro_build :: "klasses \<Rightarrow> addr \<Rightarrow> addr list \<Rightarrow> klasses" where
  "lro_build kls klazz bases = (
     let lro0 = kl_lro (kls klazz) @ [LRONode_New 0 Any_Klass];
         (lro, offset) = lro_add_bases kls bases (lro0, kl_nrvars (kls Any_Klass))
     in kls(klazz := (kls klazz)\<lparr>kl_lro := lro @ [LRONode_New offset klazz], kl_totalvars := offset\<rparr>))"

definition Init_Klass :: "klasses \<Rightarrow> addr \<Rightarrow> addr list \<Rightarrow> klasses" where
  "Init_Klass kls klazz bases =
     lro_build (kls(klazz := (kls klazz)\<lparr>kl_mtbl := NameTable_Init, kl_lro := []\<rparr>)) klazz bases"

text \<open>\<open>klazz\<close> is the address the allocator gives.\<close>

definition Klass_New :: "klasses \<Rightarrow> addr \<Rightarrow> string \<Rightarrow> addr list \<Rightarrow> klasses" where
  "Klass_New kls klazz name bases =
     Init_Klass (kls(klazz := \<lparr>kl_name = name, kl_totalvars = 0, kl_lro = [], kl_mtbl = NameTable_Init,
       kl_nrvars = 0, kl_consts = None\<rparr>)) klazz bases"

subsection \<open>Members of a class\<close>

definition Klass_Add_Field :: "klasses \<Rightarrow> addr \<Rightarrow> string \<Rightarrow> TypeDesc option \<Rightarrow> klasses" where
  "Klass_Add_Field kls klazz name desc = (
     let k = kls klazz;
         m = (MNode_New VAR_KIND name desc)\<lparr>mn_offset := kl_nrvars k\<rparr>
     in kls(klazz := k\<lparr>kl_mtbl := insert_m (kl_mtbl k) m, kl_nrvars := kl_nrvars k + 1, kl_totalvars := kl_totalvars k + 1\<rparr>))"

definition Klass_Add_Method ::
  "(addr \<Rightarrow> CodeObject) \<Rightarrow> klasses \<Rightarrow> addr \<Rightarrow> addr \<Rightarrow> (addr \<Rightarrow> CodeObject) \<times> klasses" where
  "Klass_Add_Method codes kls klazz code = (
     let co = codes code;
         k = kls klazz;
         m = (MNode_New FUNC_KIND (co_name co) (co_proto co))\<lparr>mn_code := Some code\<rparr>
     in (if co_kcode co then codes(code := co\<lparr>co_consts := kl_consts k\<rparr>) else codes,
         kls(klazz := k\<lparr>kl_mtbl := insert_m (kl_mtbl k) m\<rparr>)))"

definition Klass_Add_Proto :: "klasses \<Rightarrow> addr \<Rightarrow> string \<Rightarrow> TypeDesc option \<Rightarrow> klasses" where
  "Klass_Add_Proto kls klazz name proto = (
     let k = kls klazz in kls(klazz := k\<lparr>kl_mtbl := insert_m (kl_mtbl k) (MNode_New PROTO_KIND name proto)\<rparr>))"

subsection \<open>Searching a member\<close>

text \<open>The two loops of \<open>__get_m\<close>. Index 0 is the class \<open>Any\<close>, which has no members.\<close>

fun seek_base :: "LRONode list \<Rightarrow> addr \<Rightarrow> nat \<Rightarrow> nat" where
  "seek_base vec klazz 0 = 0"
| "seek_base vec klazz (Suc index) = (if lr_klazz (vec ! Suc index) = klazz then Suc index else seek_base vec klazz index)"

fun search_m :: "klasses \<Rightarrow> LRONode list \<Rightarrow> string \<Rightarrow> nat \<Rightarrow> (MNode \<times> LRONode) option" where
  "search_m kls vec name 0 = None"
| "search_m kls vec name (Suc index) = (
     let lro = vec ! Suc index in
     case Find_MNode (kl_mtbl (kls (lr_klazz lro))) name of
       Some m \<Rightarrow> Some (m, lro)
     | None \<Rightarrow> search_m kls vec name index)"

definition get_m :: "klasses \<Rightarrow> addr \<Rightarrow> string \<Rightarrow> addr \<Rightarrow> (MNode \<times> LRONode) option" where
  "get_m kls ob_klass name base = (
     let vec = kl_lro (kls ob_klass);
         index = seek_base vec base (length vec - 1)
     in if take 6 name = ''super.'' then search_m kls vec (drop 6 name) (index - 1)
        else search_m kls vec name index)"

subsection \<open>Well-formed classes\<close>

abbreviation line_of :: "klasses \<Rightarrow> addr \<Rightarrow> addr list" where
  "line_of kls k \<equiv> map lr_klazz (kl_lro (kls k))"

definition nrvars_of :: "klasses \<Rightarrow> addr list \<Rightarrow> nat" where
  "nrvars_of kls ks = sum_list (map (\<lambda>k. kl_nrvars (kls k)) ks)"

text \<open>Every class of the list comes after the classes of its own order.\<close>

definition ancestors_first :: "klasses \<Rightarrow> addr list \<Rightarrow> bool" where
  "ancestors_first kls ks \<longleftrightarrow>
     (\<forall>xs k ys. ks = xs @ k # ys \<longrightarrow> k \<noteq> Any_Klass \<longrightarrow> set (line_of kls k) \<subseteq> insert k (set xs))"

text \<open>Each node of an order has the number of fields before it as its offset.\<close>

definition offsets_ok :: "klasses \<Rightarrow> LRONode list \<Rightarrow> bool" where
  "offsets_ok kls ns \<longleftrightarrow> (\<forall>i < length ns. lr_offset (ns ! i) = nrvars_of kls (map lr_klazz (take i ns)))"

definition lro_ok :: "klasses \<Rightarrow> addr \<Rightarrow> bool" where
  "lro_ok kls k \<longleftrightarrow> (\<exists>ks. line_of kls k = Any_Klass # ks @ [k]) \<and> distinct (line_of kls k) \<and>
     ancestors_first kls (line_of kls k) \<and> offsets_ok kls (kl_lro (kls k)) \<and>
     kl_totalvars (kls k) = nrvars_of kls (line_of kls k)"

definition fields_ok :: "Klass \<Rightarrow> bool" where
  "fields_ok k \<longleftrightarrow> nt_ok (kl_mtbl k) \<and>
     (\<forall>p \<in> set (nt_members (kl_mtbl k)). mn_kind (snd p) = VAR_KIND \<longrightarrow> mn_offset (snd p) < kl_nrvars k) \<and>
     (\<forall>p \<in> set (nt_members (kl_mtbl k)). \<forall>q \<in> set (nt_members (kl_mtbl k)).
        mn_kind (snd p) = VAR_KIND \<longrightarrow> mn_kind (snd q) = VAR_KIND \<longrightarrow> mn_offset (snd p) = mn_offset (snd q) \<longrightarrow> p = q)"

definition klasses_ok :: "klasses \<Rightarrow> addr set \<Rightarrow> bool" where
  "klasses_ok kls ks \<longleftrightarrow> Any_Klass \<notin> ks \<and>
     (\<forall>k \<in> ks. lro_ok kls k \<and> fields_ok (kls k) \<and> set (line_of kls k) \<subseteq> insert Any_Klass ks)"

lemma lro_find_iff [simp]: "lro_find lro k \<longleftrightarrow> k \<in> lr_klazz ` set lro"
  by (induction lro) auto

lemma nrvars_of_simps [simp]:
  "nrvars_of kls [] = 0" "nrvars_of kls (k # ks) = kl_nrvars (kls k) + nrvars_of kls ks"
  "nrvars_of kls (xs @ ys) = nrvars_of kls xs + nrvars_of kls ys"
  by (simp_all add: nrvars_of_def)

lemma offsets_ok_snoc:
  "offsets_ok kls (ns @ [n]) \<longleftrightarrow> offsets_ok kls ns \<and> lr_offset n = nrvars_of kls (map lr_klazz ns)"
  by (auto simp: offsets_ok_def nth_append less_Suc_eq)

lemma ancestors_first_snoc:
  "ancestors_first kls (ks @ [k]) \<longleftrightarrow> ancestors_first kls ks \<and> (k \<noteq> Any_Klass \<longrightarrow> set (line_of kls k) \<subseteq> insert k (set ks))"
proof -
  have "(\<exists>ys. ks @ [k] = xs @ j # ys) \<longleftrightarrow> (\<exists>ys. ks = xs @ j # ys) \<or> (ks = xs \<and> k = j)" for xs j
  proof
    assume "\<exists>ys. ks @ [k] = xs @ j # ys"
    then obtain ys where "ks @ [k] = xs @ j # ys" by blast
    then show "(\<exists>ys. ks = xs @ j # ys) \<or> (ks = xs \<and> k = j)" by (cases ys rule: rev_cases) auto
  qed auto
  then show ?thesis unfolding ancestors_first_def by blast
qed

text \<open>What the loops keep: \<open>(lro, offset)\<close> is the order so far.\<close>

definition building :: "klasses \<Rightarrow> LRONode list \<times> nat \<Rightarrow> bool" where
  "building kls st \<longleftrightarrow> (case st of (ns, off) \<Rightarrow> distinct (map lr_klazz ns) \<and> ancestors_first kls (map lr_klazz ns) \<and>
     offsets_ok kls ns \<and> off = nrvars_of kls (map lr_klazz ns))"

lemma building_snoc:
  assumes "building kls (ns, off)" "k \<notin> lr_klazz ` set ns" "k \<noteq> Any_Klass \<longrightarrow> set (line_of kls k) \<subseteq> insert k (lr_klazz ` set ns)"
  shows "building kls (ns @ [LRONode_New off k], off + kl_nrvars (kls k))"
  using assms by (simp add: building_def offsets_ok_snoc ancestors_first_snoc LRONode_New_def)

lemma lro_add_line_spec:
  assumes "building kls (ns, off)" "ancestors_first kls (pre @ map lr_klazz line)" "set pre \<subseteq> lr_klazz ` set ns"
  shows "case lro_add_line kls line (ns, off) of (ns', off') \<Rightarrow> building kls (ns', off') \<and>
    (\<exists>zs. map lr_klazz ns' = map lr_klazz ns @ zs) \<and> lr_klazz ` set ns' = lr_klazz ` set ns \<union> lr_klazz ` set line"
  using assms
proof (induction line arbitrary: ns off pre)
  case (Cons n line)
  let ?k = "lr_klazz n"
  have own: "?k \<noteq> Any_Klass \<longrightarrow> set (line_of kls ?k) \<subseteq> insert ?k (set pre)"
    using Cons.prems(2) [unfolded ancestors_first_def, rule_format, of pre ?k "map lr_klazz line"] by simp
  show ?case
  proof (cases "?k \<in> lr_klazz ` set ns")
    case True
    with Cons.IH [OF Cons.prems(1), of "pre @ [?k]"] Cons.prems(2,3) show ?thesis by (auto split: prod.splits)
  next
    case False
    have 1: "building kls (ns @ [LRONode_New off ?k], off + kl_nrvars (kls ?k))"
      by (rule building_snoc [OF Cons.prems(1) False]) (use own Cons.prems(3) in blast)
    have 2: "ancestors_first kls ((pre @ [?k]) @ map lr_klazz line)" using Cons.prems(2) by simp
    have 3: "set (pre @ [?k]) \<subseteq> lr_klazz ` set (ns @ [LRONode_New off ?k])"
      using Cons.prems(3) by (auto simp: LRONode_New_def)
    from Cons.IH [OF 1 2 3] False show ?thesis by (auto simp: LRONode_New_def split: prod.splits)
  qed
qed simp

lemma lro_add_bases_spec:
  assumes "building kls (ns, off)" "\<forall>b \<in> set bases. ancestors_first kls (line_of kls b)"
  shows "case lro_add_bases kls bases (ns, off) of (ns', off') \<Rightarrow> building kls (ns', off') \<and>
    (\<exists>zs. map lr_klazz ns' = map lr_klazz ns @ zs) \<and>
    lr_klazz ` set ns' = lr_klazz ` set ns \<union> (\<Union>b \<in> set bases. set (line_of kls b))"
  using assms
proof (induction bases arbitrary: ns off)
  case (Cons b bases)
  obtain ns1 off1 where 1: "lro_add_line kls (kl_lro (kls b)) (ns, off) = (ns1, off1)" by (cases "lro_add_line kls (kl_lro (kls b)) (ns, off)")
  have b: "ancestors_first kls ([] @ map lr_klazz (kl_lro (kls b)))" using Cons.prems(2) by simp
  note line = lro_add_line_spec [OF Cons.prems(1) b, simplified 1, simplified]
  from line Cons.IH [of ns1 off1] Cons.prems(2) 1 show ?case by (auto split: prod.splits)
qed simp

text \<open>The properties of an order depend on the classes in it only.\<close>

lemma nrvars_of_cong: "\<forall>k \<in> set ks. kl_nrvars (kls' k) = kl_nrvars (kls k) \<Longrightarrow> nrvars_of kls' ks = nrvars_of kls ks"
  by (simp add: nrvars_of_def cong: map_cong)

lemma offsets_ok_cong:
  assumes "\<forall>k \<in> lr_klazz ` set ns. kl_nrvars (kls' k) = kl_nrvars (kls k)" "offsets_ok kls ns"
  shows "offsets_ok kls' ns"
proof -
  have "nrvars_of kls' (map lr_klazz (take i ns)) = nrvars_of kls (map lr_klazz (take i ns))" for i
    using assms(1) by (intro nrvars_of_cong) (auto dest: in_set_takeD)
  then show ?thesis using assms(2) by (simp add: offsets_ok_def)
qed

lemma ancestors_first_cong:
  "\<forall>k \<in> set ks. kl_lro (kls' k) = kl_lro (kls k) \<Longrightarrow> ancestors_first kls ks \<Longrightarrow> ancestors_first kls' ks"
  by (auto simp: ancestors_first_def)

lemma lro_ok_cong:
  assumes "lro_ok kls k" "kl_totalvars (kls' k) = kl_totalvars (kls k)"
    and "\<forall>j \<in> insert k (set (line_of kls k)). kl_lro (kls' j) = kl_lro (kls j) \<and> kl_nrvars (kls' j) = kl_nrvars (kls j)"
  shows "lro_ok kls' k"
proof -
  have l: "kl_lro (kls' k) = kl_lro (kls k)" using assms(3) by simp
  have "ancestors_first kls' (line_of kls k)" "offsets_ok kls' (kl_lro (kls k))" "nrvars_of kls' (line_of kls k) = nrvars_of kls (line_of kls k)"
    using assms ancestors_first_cong [of "line_of kls k" kls' kls] offsets_ok_cong [of "kl_lro (kls k)" kls' kls]
      nrvars_of_cong [of "line_of kls k" kls' kls] by (auto simp: lro_ok_def)
  then show ?thesis using assms(1,2) unfolding lro_ok_def l by simp
qed

lemma fields_okD:
  assumes "fields_ok k"
  shows "nt_ok (kl_mtbl k)"
    and "p \<in> set (nt_members (kl_mtbl k)) \<Longrightarrow> mn_kind (snd p) = VAR_KIND \<Longrightarrow> mn_offset (snd p) < kl_nrvars k"
    and "p \<in> set (nt_members (kl_mtbl k)) \<Longrightarrow> q \<in> set (nt_members (kl_mtbl k)) \<Longrightarrow> mn_kind (snd p) = VAR_KIND \<Longrightarrow>
      mn_kind (snd q) = VAR_KIND \<Longrightarrow> mn_offset (snd p) = mn_offset (snd q) \<Longrightarrow> p = q"
  using assms by (auto simp: fields_ok_def)

lemma insert_m_cases:
  assumes "nt_ok t"
  shows "nt_ok (insert_m t m)"
    and "nt_members (insert_m t m) = nt_members t @ (if nt_get t (mn_name m) = None then [(mn_name m, m)] else [])"
  using nt.add_cases [OF assms, of "mn_name m" m] assms by (auto simp: insert_m_def)

text \<open>A member that is no variable, and a new variable behind the others.\<close>

lemma fields_ok_insert:
  assumes "fields_ok k" "mn_kind m = VAR_KIND \<longrightarrow> mn_offset m = kl_nrvars k \<and> n = kl_nrvars k + 1" "kl_nrvars k \<le> n"
  shows "fields_ok (k\<lparr>kl_mtbl := insert_m (kl_mtbl k) m, kl_nrvars := n, kl_totalvars := v\<rparr>)"
proof -
  note f = fields_okD [OF assms(1)]
  have old: "mn_offset (snd p) < n" "mn_offset (snd p) < kl_nrvars k"
    if "p \<in> set (nt_members (kl_mtbl k))" "mn_kind (snd p) = VAR_KIND" for p
    using f(2) [OF that] assms(3) by simp_all
  show ?thesis
    unfolding fields_ok_def using insert_m_cases [OF f(1), of m] f(3) old assms(2)
    by (auto split: if_splits) (metis less_irrefl snd_conv)+
qed

lemma klasses_okD:
  assumes "klasses_ok kls ks" "k \<in> ks"
  shows "lro_ok kls k" "fields_ok (kls k)" "set (line_of kls k) \<subseteq> insert Any_Klass ks" "k \<noteq> Any_Klass"
  using assms by (auto simp: klasses_ok_def)

lemma klass_new_ok:
  assumes "klasses_ok kls ks" "k \<notin> ks" "k \<noteq> Any_Klass" "set bases \<subseteq> ks"
  shows "klasses_ok (Klass_New kls k name bases) (insert k ks)"
proof -
  let ?k0 = "\<lparr>kl_name = name, kl_totalvars = 0, kl_lro = [], kl_mtbl = NameTable_Init, kl_nrvars = 0, kl_consts = None\<rparr>"
  define kls0 where "kls0 = kls(k := ?k0)"
  have kls0: "kls0 j = kls j" if "j \<noteq> k" for j using that by (simp add: kls0_def)
  let ?st0 = "([LRONode_New 0 Any_Klass], kl_nrvars (kls Any_Klass))"
  have line: "set (line_of kls b) \<subseteq> insert Any_Klass ks" if "b \<in> ks" for b using klasses_okD(3) [OF assms(1) that] .
  have bases: "ancestors_first kls0 (line_of kls0 b)" if "b \<in> set bases" for b
  proof -
    have b: "b \<in> ks" using assms(4) that by blast
    then have "ancestors_first kls (line_of kls b)" using klasses_okD(1) [OF assms(1) b] by (simp add: lro_ok_def)
    moreover have "k \<notin> set (line_of kls b)" "b \<noteq> k" using line [OF b] assms(2,3) b by auto
    ultimately show ?thesis using ancestors_first_cong [of "line_of kls b" kls0 kls] kls0 by (metis kls0)
  qed
  have st0: "building kls0 ([LRONode_New 0 Any_Klass], kl_nrvars (kls0 Any_Klass))"
    using building_snoc [of kls0 "[]" 0 Any_Klass] assms(3)
    by (simp add: building_def LRONode_New_def offsets_ok_def ancestors_first_def)
  obtain ns off where built: "lro_add_bases kls0 bases ?st0 = (ns, off)" by (cases "lro_add_bases kls0 bases ?st0")
  have any: "kls0 Any_Klass = kls Any_Klass" by (rule kls0) (use assms(3) in simp)
  from lro_add_bases_spec [OF st0, of bases] bases built obtain zs where
    b: "building kls0 (ns, off)" and zs: "map lr_klazz ns = Any_Klass # zs" and
    set: "lr_klazz ` set ns = insert Any_Klass (\<Union>b \<in> set bases. set (line_of kls0 b))"
    unfolding any by (auto simp: LRONode_New_def)
  have lines: "set (line_of kls0 b) \<subseteq> insert Any_Klass ks" if "b \<in> set bases" for b
  proof -
    have "b \<in> ks" "b \<noteq> k" using that assms(2,4) by auto
    then show ?thesis using line [of b] kls0 [of b] by simp
  qed
  then have in_ks: "lr_klazz ` set ns \<subseteq> insert Any_Klass ks" using set by blast
  then have kns: "k \<notin> lr_klazz ` set ns" using assms(2,3) by blast
  have kls: "Klass_New kls k name bases = kls(k := ?k0\<lparr>kl_lro := ns @ [LRONode_New off k], kl_totalvars := off\<rparr>)"
    using built any by (simp add: Klass_New_def Init_Klass_def lro_build_def kls0_def)
  let ?kls = "kls(k := ?k0\<lparr>kl_lro := ns @ [LRONode_New off k], kl_totalvars := off\<rparr>)"
  have nr: "kl_nrvars (?kls j) = kl_nrvars (kls0 j)" for j by (simp add: kls0_def)
  have "lro_ok ?kls k"
    unfolding lro_ok_def
  proof (intro conjI)
    show "\<exists>ks. line_of ?kls k = Any_Klass # ks @ [k]" using zs by (simp add: LRONode_New_def)
    show "distinct (line_of ?kls k)" using b kns by (simp add: building_def LRONode_New_def)
    have "ancestors_first kls0 (map lr_klazz ns)" using b by (simp add: building_def)
    then have "ancestors_first ?kls (map lr_klazz ns)"
      by (rule ancestors_first_cong [rotated]) (use kns in \<open>auto simp: kls0_def\<close>)
    then show "ancestors_first ?kls (line_of ?kls k)"
      by (simp add: LRONode_New_def ancestors_first_snoc)
    have "offsets_ok kls0 ns" using b by (simp add: building_def)
    then have "offsets_ok ?kls ns" by (rule offsets_ok_cong [rotated]) (use nr in blast)
    moreover have off: "off = nrvars_of ?kls (map lr_klazz ns)"
    proof -
      have "nrvars_of ?kls (map lr_klazz ns) = nrvars_of kls0 (map lr_klazz ns)" by (rule nrvars_of_cong) (use nr in blast)
      then show ?thesis using b by (simp add: building_def)
    qed
    ultimately show "offsets_ok ?kls (kl_lro (?kls k))" by (simp add: offsets_ok_snoc LRONode_New_def)
    show "kl_totalvars (?kls k) = nrvars_of ?kls (line_of ?kls k)" using off by (simp add: LRONode_New_def)
  qed
  moreover have "fields_ok (?kls k)" by (simp add: fields_ok_def)
  moreover have "set (line_of ?kls k) \<subseteq> insert Any_Klass (insert k ks)" using in_ks by (auto simp: LRONode_New_def)
  moreover have "lro_ok ?kls j \<and> fields_ok (?kls j) \<and> set (line_of ?kls j) \<subseteq> insert Any_Klass (insert k ks)" if j: "j \<in> ks" for j
  proof -
    have jk: "j \<noteq> k" "k \<notin> set (line_of kls j)" using j line [OF j] assms(2,3) by auto
    have "lro_ok ?kls j" by (rule lro_ok_cong [OF klasses_okD(1) [OF assms(1) j]]) (use jk in auto)
    then show ?thesis using klasses_okD(2,3) [OF assms(1) j] jk by auto
  qed
  ultimately show ?thesis using assms(1,3) unfolding kls klasses_ok_def by blast
qed

lemma klass_update_ok:
  assumes "klasses_ok kls ks" "k \<in> ks" "fields_ok k'" "kl_lro k' = kl_lro (kls k)" "kl_nrvars k' = kl_nrvars (kls k) + d"
    "kl_totalvars k' = kl_totalvars (kls k) + d" "d \<noteq> 0 \<longrightarrow> (\<forall>j \<in> ks - {k}. k \<notin> set (line_of kls j))"
  shows "klasses_ok (kls(k := k')) ks"
proof -
  let ?kls = "kls(k := k')"
  have l: "kl_lro (?kls j) = kl_lro (kls j)" for j using assms(4) by simp
  have lo: "lro_ok kls k" by (rule klasses_okD(1) [OF assms(1,2)])
  obtain zs where zs: "line_of kls k = Any_Klass # zs @ [k]" "k \<notin> set (Any_Klass # zs)"
    using lo by (auto simp: lro_ok_def)
  have nr: "nrvars_of ?kls (Any_Klass # zs) = nrvars_of kls (Any_Klass # zs)"
    by (rule nrvars_of_cong) (use zs(2) in auto)
  obtain ns n where ns: "kl_lro (kls k) = ns @ [n]" "lr_klazz n = k" "map lr_klazz ns = Any_Klass # zs"
    using zs(1) by (cases "kl_lro (kls k)" rule: rev_cases) auto
  have "lro_ok ?kls k"
    unfolding lro_ok_def l
  proof (intro conjI)
    show "\<exists>ks. line_of kls k = Any_Klass # ks @ [k]" "distinct (line_of kls k)" using lo by (auto simp: lro_ok_def)
    show "ancestors_first ?kls (line_of kls k)"
      by (rule ancestors_first_cong [of _ _ kls]) (use lo l in \<open>auto simp: lro_ok_def\<close>)
    have o: "offsets_ok kls ns" "lr_offset n = nrvars_of kls (Any_Klass # zs)"
      using lo ns by (auto simp: lro_ok_def offsets_ok_snoc)
    have "offsets_ok ?kls ns" by (rule offsets_ok_cong [OF _ o(1)]) (use ns(3) zs(2) in \<open>auto simp flip: set_map\<close>)
    then show "offsets_ok ?kls (kl_lro (kls k))" using o(2) nr ns by (simp add: offsets_ok_snoc)
    show "kl_totalvars (?kls k) = nrvars_of ?kls (line_of kls k)"
      using lo nr assms(5,6) zs by (simp add: lro_ok_def)
  qed
  moreover have "lro_ok ?kls j" if "j \<in> ks - {k}" for j
  proof (rule lro_ok_cong [OF klasses_okD(1) [OF assms(1)]])
    show "j \<in> ks" "kl_totalvars (?kls j) = kl_totalvars (kls j)" using that by simp_all
    show "\<forall>i \<in> insert j (set (line_of kls j)). kl_lro (?kls i) = kl_lro (kls i) \<and> kl_nrvars (?kls i) = kl_nrvars (kls i)"
      using assms(4,5,7) that by (cases "d = 0") auto
  qed
  moreover have "fields_ok (?kls j)" if "j \<in> ks" for j using klasses_okD(2) [OF assms(1) that] assms(3) by simp
  ultimately show ?thesis using assms(1) unfolding klasses_ok_def l by auto
qed

lemma klass_add_field_ok:
  assumes "klasses_ok kls ks" "k \<in> ks" "\<forall>j \<in> ks - {k}. k \<notin> set (line_of kls j)"
  shows "klasses_ok (Klass_Add_Field kls k name desc) ks"
  unfolding Klass_Add_Field_def Let_def
  by (rule klass_update_ok [OF assms(1,2), where d = 1])
    (use assms(3) klasses_okD(2) [OF assms(1,2)] in \<open>auto intro!: fields_ok_insert\<close>)

lemma klass_add_other_ok:
  assumes "klasses_ok kls ks" "k \<in> ks" "mn_kind m \<noteq> VAR_KIND"
  shows "klasses_ok (kls(k := (kls k)\<lparr>kl_mtbl := insert_m (kl_mtbl (kls k)) m\<rparr>)) ks"
proof (rule klass_update_ok [OF assms(1,2), where d = 0])
  have "(kls k)\<lparr>kl_mtbl := insert_m (kl_mtbl (kls k)) m\<rparr> =
      (kls k)\<lparr>kl_mtbl := insert_m (kl_mtbl (kls k)) m, kl_nrvars := kl_nrvars (kls k), kl_totalvars := kl_totalvars (kls k)\<rparr>" by simp
  then show "fields_ok ((kls k)\<lparr>kl_mtbl := insert_m (kl_mtbl (kls k)) m\<rparr>)"
    using fields_ok_insert [OF klasses_okD(2) [OF assms(1,2)], of m "kl_nrvars (kls k)" "kl_totalvars (kls k)"] assms(3) by simp
qed simp_all

text \<open>
  C14: well-formed classes. A new class over existing bases, and a new field, method or prototype of an
  existing class, keep the classes well-formed: the order of a class starts with \<open>Any\<close>, ends with the
  class itself, names no class twice and each after its own bases; every class of it has as its offset the
  number of fields of the classes before it; \<open>totalvars\<close> is the number of all its fields; and the fields
  of a class have different offsets below its own number of fields. A field may only be added while no
  other class inherits from the class.
\<close>

theorem klasses_stay_well_formed:
  assumes "klasses_ok kls ks"
  shows "(k \<notin> ks \<and> k \<noteq> Any_Klass \<and> set bases \<subseteq> ks \<longrightarrow> klasses_ok (Klass_New kls k name bases) (insert k ks)) \<and>
    (k \<in> ks \<and> (\<forall>j \<in> ks - {k}. k \<notin> set (line_of kls j)) \<longrightarrow> klasses_ok (Klass_Add_Field kls k name desc) ks) \<and>
    (k \<in> ks \<longrightarrow> klasses_ok (snd (Klass_Add_Method codes kls k code)) ks \<and> klasses_ok (Klass_Add_Proto kls k name proto) ks)"
  using klass_new_ok [OF assms] klass_add_field_ok [OF assms] klass_add_other_ok [OF assms]
  by (simp_all add: Klass_Add_Method_def Klass_Add_Proto_def MNode_New_def Let_def)

text \<open>Two classes: \<open>Animal\<close> with a field, \<open>Dog\<close> over it with one of its own.\<close>

definition animal_klasses :: klasses where
  "animal_klasses = Klass_Add_Field (Klass_New (\<lambda>_. \<lparr>kl_name = [], kl_totalvars = 0, kl_lro = [], kl_mtbl = NameTable_Init,
     kl_nrvars = 0, kl_consts = None\<rparr>) 2 ''Animal'' []) 2 ''Name'' None"

definition dog_klasses :: klasses where
  "dog_klasses = Klass_Add_Field (Klass_New animal_klasses 3 ''Dog'' [2]) 3 ''Age'' None"

lemma klasses_ok_empty: "klasses_ok kls {}"
  by (simp add: klasses_ok_def)

lemmas klass_defs = Klass_Add_Field_def Klass_New_def Init_Klass_def lro_build_def LRONode_New_def Any_Klass_def Let_def

lemma animal_lro: "kl_lro (animal_klasses 2) = [\<lparr>lr_klazz = 1, lr_offset = 0\<rparr>, \<lparr>lr_klazz = 2, lr_offset = 0\<rparr>]"
  "kl_nrvars (animal_klasses 2) = 1" "kl_nrvars (animal_klasses (Suc 0)) = 0"
  by (simp_all add: animal_klasses_def klass_defs)

lemma dog_lro: "kl_lro (dog_klasses 2) = kl_lro (animal_klasses 2)"
  "kl_lro (dog_klasses 3) = kl_lro (animal_klasses 2) @ [\<lparr>lr_klazz = 3, lr_offset = 1\<rparr>]" "kl_totalvars (dog_klasses 3) = 2"
  by (simp_all add: dog_klasses_def klass_defs animal_lro)

lemma dog_line: "line_of dog_klasses 2 = [Any_Klass, 2]" "line_of dog_klasses 3 = [Any_Klass, 2, 3]"
  by (simp_all add: dog_lro animal_lro Any_Klass_def)

lemma animals_ok: "klasses_ok animal_klasses {2}" "klasses_ok dog_klasses {2, 3}"
proof -
  show 2: "klasses_ok animal_klasses {2}"
    unfolding animal_klasses_def
    by (rule klass_add_field_ok [OF klass_new_ok [OF klasses_ok_empty]]) (auto simp: Any_Klass_def)
  have n: "klasses_ok (Klass_New animal_klasses 3 ''Dog'' [2]) {3, 2}"
    by (rule klass_new_ok [OF 2]) (auto simp: Any_Klass_def)
  have l: "3 \<notin> set (line_of (Klass_New animal_klasses 3 ''Dog'' [2]) 2)"
    using dog_line(1) by (simp add: dog_klasses_def Klass_Add_Field_def Let_def Any_Klass_def)
  have "klasses_ok dog_klasses {3, 2}"
    unfolding dog_klasses_def by (rule klass_add_field_ok [OF n]) (use l in simp_all)
  then show "klasses_ok dog_klasses {2, 3}" by (simp add: insert_commute)
qed

theorem klasses_stay_well_formed_witness:
  "klasses_ok (Klass_New animal_klasses 3 ''Dog'' [2]) {3, 2} \<and> klasses_ok (Klass_Add_Field dog_klasses 3 ''Tail'' None) {2, 3} \<and>
   klasses_ok (snd (Klass_Add_Method (\<lambda>_. \<lparr>co_name = ''Run'', co_proto = None, co_kcode = True, co_consts = None\<rparr>) dog_klasses 3 7)) {2, 3} \<and>
   klasses_ok (Klass_Add_Proto dog_klasses 2 ''Eat'' None) {2, 3}"
proof -
  have "\<forall>j \<in> {2, 3} - {3}. 3 \<notin> set (line_of dog_klasses j)" by (auto simp: dog_lro animal_lro)
  then show ?thesis
    using klasses_stay_well_formed [OF animals_ok(1), of 3 "[2]"] klasses_stay_well_formed [OF animals_ok(2)]
    by (simp add: Any_Klass_def)
qed

subsection \<open>The search of a member\<close>

lemma search_m_find:
  assumes "index < length vec"
  shows "map_option (\<lambda>(m, n). (m, lr_klazz n)) (search_m kls vec name index) =
    (case find (\<lambda>k. Find_MNode (kl_mtbl (kls k)) name \<noteq> None) (rev (map lr_klazz (take index (tl vec)))) of
       None \<Rightarrow> None | Some k \<Rightarrow> Some (the (Find_MNode (kl_mtbl (kls k)) name), k))"
  using assms
proof (induction index)
  case (Suc i)
  have "take (Suc i) (tl vec) = take i (tl vec) @ [vec ! Suc i]"
    using Suc.prems by (simp add: take_Suc_conv_app_nth nth_tl)
  with Suc show ?case by (auto simp: Let_def split: option.split)
qed simp

lemma search_m_node: "search_m kls vec name index = Some (m, n) \<Longrightarrow> index < length vec \<Longrightarrow>
    n \<in> set (tl vec) \<and> Find_MNode (kl_mtbl (kls (lr_klazz n))) name = Some m"
proof (induction index)
  case (Suc i)
  have "vec ! Suc i \<in> set (tl vec)" using Suc.prems(2) by (metis Suc_less_eq2 length_tl nth_mem nth_tl diff_Suc_1)
  with Suc show ?case by (auto simp: Let_def split: option.splits)
qed simp

lemma seek_base_at:
  assumes "map lr_klazz vec = any # xs @ b # ys" "b \<notin> set ys" "index = length (xs @ b # ys)"
  shows "seek_base vec b index = Suc (length xs)"
proof -
  have at: "lr_klazz (vec ! Suc i) = (xs @ b # ys) ! i" if "i < length (xs @ b # ys)" for i
  proof -
    have "length vec = Suc (length (xs @ b # ys))" using assms(1) by (metis length_Cons length_map)
    then have "lr_klazz (vec ! Suc i) = map lr_klazz vec ! Suc i" using that by (subst nth_map) simp_all
    then show ?thesis by (simp add: assms(1))
  qed
  have "seek_base vec b (Suc (length xs + j)) = Suc (length xs)" if "j \<le> length ys" for j
    using that
  proof (induction j)
    case 0
    then show ?case using at [of "length xs"] by simp
  next
    case (Suc j)
    have "lr_klazz (vec ! Suc (length xs + Suc j)) = ys ! j" using at [of "length xs + Suc j"] Suc.prems by (simp add: nth_append)
    moreover have "ys ! j \<noteq> b" using assms(2) Suc.prems nth_mem [of j ys] by auto
    ultimately show ?case using Suc by simp
  qed
  from this [of "length ys"] show ?thesis using assms(3) by simp
qed

lemma get_m_find:
  assumes "line_of kls k = Any_Klass # xs @ b # ys" "distinct (line_of kls k)"
  shows "map_option (\<lambda>(m, n). (m, lr_klazz n)) (get_m kls k name b) =
    (let s = take 6 name = ''super.''; nm = if s then drop 6 name else name;
         cs = if s then xs else xs @ [b]
     in map_option (\<lambda>c. (the (Find_MNode (kl_mtbl (kls c)) nm), c)) (find (\<lambda>c. Find_MNode (kl_mtbl (kls c)) nm \<noteq> None) (rev cs)))"
proof -
  let ?vec = "kl_lro (kls k)"
  have len: "length ?vec = Suc (length (xs @ b # ys))" using assms(1) by (metis length_Cons length_map)
  have base: "seek_base ?vec b (length ?vec - 1) = Suc (length xs)"
    by (rule seek_base_at [OF assms(1)]) (use assms len in auto)
  have tl: "map lr_klazz (tl ?vec) = xs @ b # ys" using assms(1) by (simp add: map_tl)
  have "map lr_klazz (take (Suc (length xs)) (tl ?vec)) = xs @ [b]" "map lr_klazz (take (length xs) (tl ?vec)) = xs"
    by (simp_all add: take_map [symmetric] tl)
  moreover have "Suc (length xs) < length ?vec" "length xs < length ?vec" using len by simp_all
  ultimately show ?thesis
    using search_m_find [of "Suc (length xs)" ?vec kls name] search_m_find [of "length xs" ?vec kls "drop 6 name"] base
    by (simp add: get_m_def Let_def split: option.split)
qed

lemma nth_in_drop: "i < j \<Longrightarrow> j < length zs \<Longrightarrow> zs ! j \<in> set (drop (Suc i) zs)"
  unfolding in_set_conv_nth by (intro exI [of _ "j - Suc i"]) auto

lemma get_m_nearest:
  assumes "klasses_ok kls ks" "k \<in> ks" "line_of kls k = Any_Klass # xs @ b # ys" "take 6 name \<noteq> ''super.''"
  shows "map_option (\<lambda>(m, n). (m, lr_klazz n)) (get_m kls k name b) =
      map_option (\<lambda>c. (the (Find_MNode (kl_mtbl (kls c)) name), c)) (find (\<lambda>c. Find_MNode (kl_mtbl (kls c)) name \<noteq> None) (rev (xs @ [b])))"
    and "map_option (\<lambda>(m, n). (m, lr_klazz n)) (get_m kls k (''super.'' @ name) b) =
      map_option (\<lambda>c. (the (Find_MNode (kl_mtbl (kls c)) name), c)) (find (\<lambda>c. Find_MNode (kl_mtbl (kls c)) name \<noteq> None) (rev xs))"
    and "get_m kls k name b = Some (m, n) \<Longrightarrow> d \<in> set (xs @ [b]) \<Longrightarrow> lr_klazz n \<in> set (line_of kls d) \<Longrightarrow> d \<noteq> lr_klazz n \<Longrightarrow>
      Find_MNode (kl_mtbl (kls d)) name = None"
proof -
  note lo = klasses_okD(1) [OF assms(1,2)]
  have dist: "distinct (line_of kls k)" using lo by (simp add: lro_ok_def)
  note get = get_m_find [of kls k xs b ys, OF assms(3) dist]
  show 1: "map_option (\<lambda>(m, n). (m, lr_klazz n)) (get_m kls k name b) =
      map_option (\<lambda>c. (the (Find_MNode (kl_mtbl (kls c)) name), c)) (find (\<lambda>c. Find_MNode (kl_mtbl (kls c)) name \<noteq> None) (rev (xs @ [b])))"
    using get [of name] assms(4) by (simp add: Let_def)
  show "map_option (\<lambda>(m, n). (m, lr_klazz n)) (get_m kls k (''super.'' @ name) b) =
      map_option (\<lambda>c. (the (Find_MNode (kl_mtbl (kls c)) name), c)) (find (\<lambda>c. Find_MNode (kl_mtbl (kls c)) name \<noteq> None) (rev xs))"
    using get [of "''super.'' @ name"] by (simp add: Let_def)
  show "Find_MNode (kl_mtbl (kls d)) name = None" if g: "get_m kls k name b = Some (m, n)" "d \<in> set (xs @ [b])"
    "lr_klazz n \<in> set (line_of kls d)" "d \<noteq> lr_klazz n"
  proof -
    let ?F = "find (\<lambda>c. Find_MNode (kl_mtbl (kls c)) name \<noteq> None) (rev (xs @ [b]))"
    from 1 g(1) have "map_option (\<lambda>c. (the (Find_MNode (kl_mtbl (kls c)) name), c)) ?F = Some (m, lr_klazz n)"
      by (simp only: option.map prod.case)
    then have "?F = Some (lr_klazz n)" unfolding map_option_eq_Some by blast
    then obtain i where i: "i < length (rev (xs @ [b]))" "lr_klazz n = rev (xs @ [b]) ! i"
      "\<forall>j < i. \<not> Find_MNode (kl_mtbl (kls (rev (xs @ [b]) ! j))) name \<noteq> None"
      unfolding find_Some_iff by blast
    from g(2) have "d \<in> set (rev (xs @ [b]))" by simp
    then obtain j where j: "j < length (rev (xs @ [b]))" "d = rev (xs @ [b]) ! j" by (metis in_set_conv_nth)
    have "j < i"
    proof (rule ccontr)
      assume "\<not> j < i"
      with g(4) i(2) j(2) have ij: "i < j" by (metis nat_neq_iff)
      let ?zs = "xs @ [b]" and ?l = "length (xs @ [b])"
      have di: "d = ?zs ! (?l - Suc j)" "lr_klazz n = ?zs ! (?l - Suc i)" using i j by (simp_all only: rev_nth length_rev)
      have pos: "?l - Suc j < ?l - Suc i" "?l - Suc i < ?l" using ij i(1) j(1) by auto
      have zs: "line_of kls k = (Any_Klass # take (?l - Suc j) ?zs) @ d # drop (Suc (?l - Suc j)) ?zs @ ys"
        using id_take_nth_drop [of "?l - Suc j" ?zs] pos assms(3) di by simp
      have "d \<noteq> Any_Klass" using dist zs by auto
      then have sub: "set (line_of kls d) \<subseteq> insert d (set (Any_Klass # take (?l - Suc j) ?zs))"
        using lo zs unfolding lro_ok_def ancestors_first_def by blast
      have "lr_klazz n \<in> set (drop (Suc (?l - Suc j)) ?zs)"
        unfolding di(2) by (rule nth_in_drop) (use pos in simp_all)
      with sub g(3,4) dist zs show False by auto
    qed
    then show ?thesis using i(3) j(2) by simp
  qed
qed

text \<open>
  C15: the member that an object of class \<open>k\<close> gives for a name, seen from its class \<open>b\<close>. When the order of
  \<open>k\<close> is \<open>Any\<close>, the classes \<open>xs\<close>, \<open>b\<close>, and the classes \<open>ys\<close>, the search gives the member of the last class
  of \<open>xs\<close> and \<open>b\<close> that has the name; with \<open>super.\<close> before the name, of the last class of \<open>xs\<close> (a plain name
  does not begin so). A class that inherits from the class found and stands among the classes searched
  does not have the name: the member of a class hides those of its bases.
\<close>

theorem get_m_nearest_class:
  assumes "klasses_ok kls ks" "k \<in> ks" "line_of kls k = Any_Klass # xs @ b # ys" "take 6 name \<noteq> ''super.''"
  defines "nearest \<equiv> \<lambda>cs. map_option (\<lambda>c. (the (Find_MNode (kl_mtbl (kls c)) name), c))
    (find (\<lambda>c. Find_MNode (kl_mtbl (kls c)) name \<noteq> None) (rev cs))"
  shows "map_option (\<lambda>(m, n). (m, lr_klazz n)) (get_m kls k name b) = nearest (xs @ [b]) \<and>
    map_option (\<lambda>(m, n). (m, lr_klazz n)) (get_m kls k (''super.'' @ name) b) = nearest xs \<and>
    (\<forall>m n d. get_m kls k name b = Some (m, n) \<and> d \<in> set (xs @ [b]) \<and> lr_klazz n \<in> set (line_of kls d) \<and> d \<noteq> lr_klazz n \<longrightarrow>
      Find_MNode (kl_mtbl (kls d)) name = None)"
  unfolding nearest_def using get_m_nearest [OF assms(1-4)] by blast

theorem get_m_nearest_class_witness:
  "map_option (\<lambda>(m, n). (m, lr_klazz n)) (get_m dog_klasses 3 ''super.Age'' 3) =
     (if Find_MNode (kl_mtbl (dog_klasses 2)) ''Age'' = None then None else Some (the (Find_MNode (kl_mtbl (dog_klasses 2)) ''Age''), 2))"
proof -
  note k = animals_ok(2)
  have l: "line_of dog_klasses 3 = Any_Klass # [2] @ 3 # []" by (simp add: dog_line)
  have "take 6 ''Age'' \<noteq> ''super.''" by simp
  with get_m_nearest_class [OF k _ l, of "''Age''"] show ?thesis by (simp add: Any_Klass_def)
qed

end
