(* ===== verification/ObjectRefs.thy ===== *)
theory ObjectRefs
  imports ObjectModel
begin

text \<open>
  Objects with reference counts (\<^verbatim>\<open>src/object.c\<close>, the macros of \<^verbatim>\<open>include/object.h\<close>): allocation, the
  fields, taking and dropping references, and freeing. The objects are those of the classes that a
  program declares, whose \<open>ob_free\<close> is \<open>object_free\<close>.
\<close>

subsection \<open>The heap\<close>

text \<open>An object is its index in the heap; a freed object is \<open>None\<close> there. A field holds an object or \<open>NULL\<close>.\<close>

record Object =
  ob_klass :: addr
  ob_refcnt :: int
  ob_value :: "nat option list"

type_synonym heap = "Object option list"

definition heap_at :: "heap \<Rightarrow> nat \<Rightarrow> Object option" where
  "heap_at h a = (if a < length h then h ! a else None)"

definition object_alloc :: "klasses \<Rightarrow> heap \<Rightarrow> addr \<Rightarrow> heap \<times> nat" where
  "object_alloc kls h klazz =
     (h @ [Some \<lparr>ob_klass = klazz, ob_refcnt = 1, ob_value = replicate (kl_totalvars (kls klazz)) None\<rparr>], length h)"

definition OB_INCREF :: "heap \<Rightarrow> nat option \<Rightarrow> heap run" where
  "OB_INCREF h ob = (case ob of None \<Rightarrow> Inl Null_Deref
     | Some a \<Rightarrow> (case heap_at h a of None \<Rightarrow> Inl Null_Deref
        | Some x \<Rightarrow> Inr (h[a := Some (x\<lparr>ob_refcnt := ob_refcnt x + 1\<rparr>)])))"

text \<open>
  \<open>OB_DECREF\<close>, which frees the object when its count is zero, and \<open>object_free\<close>, which drops the
  references of the fields before it frees the memory: the calls that are still to be made, in their
  order, are a list of work. Dropping a reference to a freed object reads freed memory.
\<close>

datatype work = Dec "nat option" | Free nat

definition count_sum :: "heap \<Rightarrow> nat" where
  "count_sum h = sum_list (map (\<lambda>x. case x of None \<Rightarrow> 0 | Some ob \<Rightarrow> nat (ob_refcnt ob)) h)"

lemma sum_map_update:
  fixes f :: "'a \<Rightarrow> nat"
  assumes "a < length h"
  shows "sum_list (map f (h[a := x])) + f (h ! a) = sum_list (map f h) + f x"
proof -
  have "f (h ! a) \<le> sum_list (map f h)" using elem_le_sum_list [of a "map f h"] assms by simp
  moreover have "sum_list (map f (h[a := x])) = sum_list (map f h) + f x - f (h ! a)"
    unfolding map_update using sum_list_update [of a "map f h" "f x"] assms by simp
  ultimately show ?thesis by simp
qed

lemma count_sum_update:
  assumes "heap_at h a = Some ob"
  shows "count_sum (h[a := x]) + nat (ob_refcnt ob) = count_sum h + (case x of None \<Rightarrow> 0 | Some ob' \<Rightarrow> nat (ob_refcnt ob'))"
proof -
  have a: "a < length h" "h ! a = Some ob" using assms by (auto simp: heap_at_def split: if_splits)
  show ?thesis
    using sum_map_update [OF a(1), of "\<lambda>x. case x of None \<Rightarrow> 0 | Some ob \<Rightarrow> nat (ob_refcnt ob)" x]
    unfolding count_sum_def a(2) by simp
qed

lemma count_sum_free: "count_sum (h[a := None]) \<le> count_sum h"
proof (cases "heap_at h a")
  case None
  then have "h[a := None] = h" by (auto simp: heap_at_def list_update_beyond split: if_splits) (metis list_update_id)
  then show ?thesis by simp
next
  case (Some ob)
  from count_sum_update [OF Some, of None] show ?thesis by simp
qed

function ob_release :: "klasses \<Rightarrow> heap \<Rightarrow> work list \<Rightarrow> heap run" where
  "ob_release kls h [] = Inr h"
| "ob_release kls h (Free a # ws) = ob_release kls (h[a := None]) ws"
| "ob_release kls h (Dec None # ws) = ob_release kls h ws"
| "ob_release kls h (Dec (Some a) # ws) = (case heap_at h a of
     None \<Rightarrow> Inl Null_Deref
   | Some ob \<Rightarrow>
       let h' = h[a := Some (ob\<lparr>ob_refcnt := ob_refcnt ob - 1\<rparr>)] in
       if ob_refcnt ob - 1 \<noteq> 0
       then if 0 < ob_refcnt ob - 1 then ob_release kls h' ws else Inl Assert_Failed
       else if length (ob_value ob) < kl_totalvars (kls (ob_klass ob)) then Inl Out_Of_Bounds
       else ob_release kls h' (map Dec (take (kl_totalvars (kls (ob_klass ob))) (ob_value ob)) @ Free a # ws))"
  by pat_completeness auto
termination
proof (relation "measures [\<lambda>(kls, h, ws). count_sum h, \<lambda>(kls, h, ws). length ws]", goal_cases)
  case (2 kls h a ws)
  then show ?case using count_sum_free [of h a] by (simp add: le_less)
next
  case (4 kls h a ws ob h')
  have "nat (ob_refcnt ob) = Suc (nat (ob_refcnt ob - 1))" using 4(4) by simp
  then have "count_sum h' < count_sum h"
    using count_sum_update [OF 4(1), of "Some (ob\<lparr>ob_refcnt := ob_refcnt ob - 1\<rparr>)"] by (simp add: 4(2))
  then show ?case by simp
next
  case (5 kls h a ws ob h')
  then have "nat (ob_refcnt ob) = Suc (nat (ob_refcnt ob - 1))" by simp
  then have "count_sum h' < count_sum h"
    using count_sum_update [OF 5(1), of "Some (ob\<lparr>ob_refcnt := ob_refcnt ob - 1\<rparr>)"] by (simp add: 5(2))
  then show ?case by simp
qed simp_all

definition OB_DECREF :: "klasses \<Rightarrow> heap \<Rightarrow> nat option \<Rightarrow> heap run" where
  "OB_DECREF kls h ob = ob_release kls h [Dec ob]"

subsection \<open>Fields and methods\<close>

text \<open>What \<open>Get_Field\<close> and \<open>Set_Field\<close> share: the object and the index of the field in it. \<open>base\<close> may be \<open>NULL\<close>.\<close>

definition field_index :: "klasses \<Rightarrow> Object \<Rightarrow> addr option \<Rightarrow> string \<Rightarrow> nat run" where
  "field_index kls ob base name = (
     let base = (case base of None \<Rightarrow> ob_klass ob | Some b \<Rightarrow> b) in
     case get_m kls (ob_klass ob) name base of
       None \<Rightarrow> Inl Assert_Failed
     | Some (mnode, lro) \<Rightarrow>
         if mn_kind mnode \<noteq> VAR_KIND then Inl Assert_Failed
         else if lr_offset lro + mn_offset mnode < length (ob_value ob) then Inr (lr_offset lro + mn_offset mnode)
         else Inl Out_Of_Bounds)"

definition Get_Field :: "klasses \<Rightarrow> heap \<Rightarrow> nat \<Rightarrow> addr option \<Rightarrow> string \<Rightarrow> nat option run" where
  "Get_Field kls h ob base name = (case heap_at h ob of None \<Rightarrow> Inl Null_Deref
     | Some x \<Rightarrow> bind_run (field_index kls x base name) (\<lambda>index. Inr (ob_value x ! index)))"

definition Set_Field :: "klasses \<Rightarrow> heap \<Rightarrow> nat \<Rightarrow> addr option \<Rightarrow> string \<Rightarrow> nat option \<Rightarrow> heap run" where
  "Set_Field kls h ob base name val = (case heap_at h ob of None \<Rightarrow> Inl Null_Deref
     | Some x \<Rightarrow> bind_run (field_index kls x base name) (\<lambda>index.
         let old = ob_value x ! index;
             h1 = h[ob := Some (x\<lparr>ob_value := (ob_value x)[index := val]\<rparr>)]
         in bind_run (OB_INCREF h1 val) (\<lambda>h2. OB_DECREF kls h2 old)))"

definition Get_Method :: "klasses \<Rightarrow> heap \<Rightarrow> nat \<Rightarrow> addr option \<Rightarrow> string \<Rightarrow> addr option run" where
  "Get_Method kls h ob base name = (case heap_at h ob of None \<Rightarrow> Inl Null_Deref
     | Some x \<Rightarrow> (
         let base = (case base of None \<Rightarrow> ob_klass x | Some b \<Rightarrow> b) in
         case get_m kls (ob_klass x) name base of
           None \<Rightarrow> Inl Assert_Failed
         | Some (mnode, lro) \<Rightarrow> if mn_kind mnode \<noteq> FUNC_KIND then Inl Assert_Failed else Inr (mn_code mnode)))"

subsection \<open>The invariant of the counts\<close>

definition refcnt_at :: "heap \<Rightarrow> nat \<Rightarrow> int" where
  "refcnt_at h a = (case heap_at h a of None \<Rightarrow> 0 | Some ob \<Rightarrow> ob_refcnt ob)"

text \<open>The fields that hold \<open>a\<close>, in the objects that are not being freed.\<close>

definition holds_in :: "nat \<Rightarrow> Object option \<Rightarrow> nat" where
  "holds_in a x = (case x of None \<Rightarrow> 0 | Some ob \<Rightarrow> if 0 < ob_refcnt ob then count_list (ob_value ob) (Some a) else 0)"

definition slots :: "heap \<Rightarrow> nat \<Rightarrow> nat" where
  "slots h a = sum_list (map (holds_in a) h)"

text \<open>An object has the fields of its class.\<close>

definition heap_ok :: "klasses \<Rightarrow> heap \<Rightarrow> bool" where
  "heap_ok kls h \<longleftrightarrow> (\<forall>a ob. heap_at h a = Some ob \<longrightarrow> length (ob_value ob) = kl_totalvars (kls (ob_klass ob)))"

text \<open>
  \<open>E a\<close> is the number of references to \<open>a\<close> from outside of the heap: variables, stacks, callers. The
  count of an object is the number of its references, and an object with none is freed.
\<close>

definition counts_ok :: "heap \<Rightarrow> (nat \<Rightarrow> nat) \<Rightarrow> bool" where
  "counts_ok h E \<longleftrightarrow> (\<forall>a. refcnt_at h a = int (E a + slots h a)) \<and> (\<forall>a. heap_at h a \<noteq> None \<longrightarrow> 0 < refcnt_at h a)"

text \<open>The same while there is work to do.\<close>

definition releasing :: "heap \<Rightarrow> work list \<Rightarrow> (nat \<Rightarrow> nat) \<Rightarrow> bool" where
  "releasing h ws E \<longleftrightarrow> (\<forall>a. refcnt_at h a = int (E a + slots h a + count_list ws (Dec (Some a)))) \<and>
     (\<forall>a. heap_at h a \<noteq> None \<and> refcnt_at h a = 0 \<longleftrightarrow> Free a \<in> set ws) \<and> (\<forall>a. count_list ws (Free a) \<le> 1)"

lemma counts_ok_releasing: "counts_ok h E \<longleftrightarrow> releasing h [] E"
proof -
  have pos: "0 < refcnt_at h a \<longleftrightarrow> refcnt_at h a \<noteq> 0" if "\<forall>a. refcnt_at h a = int (E a + slots h a)" for a
    using spec [OF that, of a] by linarith
  have "(\<forall>a. heap_at h a \<noteq> None \<longrightarrow> 0 < refcnt_at h a) \<longleftrightarrow> (\<forall>a. \<not> (heap_at h a \<noteq> None \<and> refcnt_at h a = 0))"
    if "\<forall>a. refcnt_at h a = int (E a + slots h a)"
    unfolding pos [OF that] by blast
  then show ?thesis unfolding counts_ok_def releasing_def list.set empty_iff count_list.simps add_0_right by blast
qed

lemma heap_at_update: "heap_at (h[a := x]) b = (if b = a \<and> a < length h then x else heap_at h b)"
  by (auto simp: heap_at_def)

lemma refcnt_at_update: "a < length h \<Longrightarrow>
    refcnt_at (h[a := x]) b = (if b = a then (case x of None \<Rightarrow> 0 | Some ob \<Rightarrow> ob_refcnt ob) else refcnt_at h b)"
  by (simp add: refcnt_at_def heap_at_update)

lemma slots_update:
  assumes "heap_at h a = Some ob"
  shows "slots (h[a := x]) b + holds_in b (Some ob) = slots h b + holds_in b x"
proof -
  have a: "a < length h" "h ! a = Some ob" using assms by (auto simp: heap_at_def split: if_splits)
  from sum_map_update [OF a(1), of "holds_in b" x] show ?thesis by (simp add: slots_def a(2))
qed

lemma heap_at_length: "heap_at h a = Some ob \<Longrightarrow> a < length h"
  by (auto simp: heap_at_def split: if_splits)

lemma count_list_Dec: "count_list (map Dec vs) (Dec v) = count_list vs v" "count_list (map Dec vs) (Free a) = 0"
  by (induction vs) auto

lemma count_list_append: "count_list (xs @ ys) x = count_list xs x + count_list ys x"
  by (induction xs) auto

lemma releasing_Free:
  assumes "releasing h (Free a # ws) E"
  shows "releasing (h[a := None]) ws E"
proof -
  obtain ob where ob: "heap_at h a = Some ob" "ob_refcnt ob = 0"
    using assms by (auto simp: releasing_def refcnt_at_def split: option.splits dest!: spec [of _ a])
  have s: "slots (h[a := None]) b = slots h b" for b using slots_update [OF ob(1), of None b] ob(2) by (simp add: holds_in_def)
  have r: "refcnt_at (h[a := None]) b = refcnt_at h b" for b
    using refcnt_at_update [OF heap_at_length [OF ob(1)], of None b] ob by (simp add: refcnt_at_def)
  have at: "heap_at (h[a := None]) b = (if b = a then None else heap_at h b)" for b
    using heap_at_length [OF ob(1)] by (auto simp: heap_at_update)
  have fr: "Free a \<notin> set ws" "count_list ws (Free b) \<le> 1" for b
  proof -
    have c: "count_list (Free a # ws) (Free b) \<le> 1" for b using assms by (simp only: releasing_def)
    show "Free a \<notin> set ws" using c [of a] by (simp add: count_list_0_iff)
    show "count_list ws (Free b) \<le> 1" using c [of b] by (simp split: if_splits)
  qed
  show ?thesis
    unfolding releasing_def
  proof (intro conjI allI)
    fix b
    show "refcnt_at (h[a := None]) b = int (E b + slots (h[a := None]) b + count_list ws (Dec (Some b)))"
      using assms by (simp add: releasing_def s r)
    show "(heap_at (h[a := None]) b \<noteq> None \<and> refcnt_at (h[a := None]) b = 0) \<longleftrightarrow> Free b \<in> set ws"
      using assms fr(1) by (cases "b = a") (auto simp: releasing_def r at)
    show "count_list ws (Free b) \<le> 1" by (rule fr(2))
  qed
qed

lemma releasing_Dec:
  assumes "releasing h (Dec (Some a) # ws) E"
  defines "dec \<equiv> \<lambda>ob. ob\<lparr>ob_refcnt := ob_refcnt ob - 1\<rparr>"
  obtains ob where "heap_at h a = Some ob" "1 \<le> ob_refcnt ob"
    "ob_refcnt ob \<noteq> 1 \<Longrightarrow> releasing (h[a := Some (dec ob)]) ws E"
    "ob_refcnt ob = 1 \<Longrightarrow> releasing (h[a := Some (dec ob)]) (map Dec (ob_value ob) @ Free a # ws) E"
proof -
  have cnt: "refcnt_at h b = int (E b + slots h b + count_list (Dec (Some a) # ws) (Dec (Some b)))"
    and fre: "(heap_at h b \<noteq> None \<and> refcnt_at h b = 0) \<longleftrightarrow> Free b \<in> set ws" "count_list ws (Free b) \<le> 1" for b
  proof -
    from assms(1) show "refcnt_at h b = int (E b + slots h b + count_list (Dec (Some a) # ws) (Dec (Some b)))"
      unfolding releasing_def by blast
    from assms(1) have "(heap_at h b \<noteq> None \<and> refcnt_at h b = 0) \<longleftrightarrow> Free b \<in> set (Dec (Some a) # ws)"
      "count_list (Dec (Some a) # ws) (Free b) \<le> 1" unfolding releasing_def by blast+
    then show "(heap_at h b \<noteq> None \<and> refcnt_at h b = 0) \<longleftrightarrow> Free b \<in> set ws" "count_list ws (Free b) \<le> 1" by simp_all
  qed
  have "1 \<le> refcnt_at h a" using cnt [of a] by simp
  then obtain ob where ob: "heap_at h a = Some ob" "1 \<le> ob_refcnt ob" by (auto simp: refcnt_at_def split: option.splits)
  let ?h = "h[a := Some (dec ob)]"
  have len: "a < length h" by (rule heap_at_length [OF ob(1)])
  have r: "refcnt_at ?h b = (if b = a then ob_refcnt ob - 1 else refcnt_at h b)" for b
    using refcnt_at_update [OF len] by (simp add: dec_def)
  have at: "heap_at ?h b \<noteq> None \<longleftrightarrow> heap_at h b \<noteq> None" for b using ob(1) len by (auto simp: heap_at_update)
  have s: "slots ?h b + (if ob_refcnt ob = 1 then count_list (ob_value ob) (Some b) else 0) = slots h b" for b
    using slots_update [OF ob(1), of "Some (dec ob)" b] ob(2) by (simp add: holds_in_def dec_def split: if_splits)
  have ra: "refcnt_at h a = ob_refcnt ob" using ob(1) by (simp add: refcnt_at_def)
  have fa: "Free a \<notin> set ws" using fre(1) [of a] ra ob(2) by auto
  show thesis
  proof (rule that [OF ob])
    assume n1: "ob_refcnt ob \<noteq> 1"
    show "releasing ?h ws E" unfolding releasing_def
    proof (intro conjI allI)
      fix b
      show "refcnt_at ?h b = int (E b + slots ?h b + count_list ws (Dec (Some b)))"
        using cnt [of b] s [of b] ra n1 by (simp add: r split: if_splits)
      show "(heap_at ?h b \<noteq> None \<and> refcnt_at ?h b = 0) \<longleftrightarrow> Free b \<in> set ws"
        using fre(1) [of b] n1 fa unfolding at r by auto
      show "count_list ws (Free b) \<le> 1" by (rule fre(2))
    qed
  next
    assume n1: "ob_refcnt ob = 1"
    show "releasing ?h (map Dec (ob_value ob) @ Free a # ws) E" unfolding releasing_def
    proof (intro conjI allI)
      fix b
      show "refcnt_at ?h b = int (E b + slots ?h b + count_list (map Dec (ob_value ob) @ Free a # ws) (Dec (Some b)))"
        using cnt [of b] s [of b] ra n1 by (simp add: r count_list_append count_list_Dec split: if_splits)
      show "(heap_at ?h b \<noteq> None \<and> refcnt_at ?h b = 0) \<longleftrightarrow> Free b \<in> set (map Dec (ob_value ob) @ Free a # ws)"
        using fre(1) [of b] n1 ob(1) unfolding at r by auto
      show "count_list (map Dec (ob_value ob) @ Free a # ws) (Free b) \<le> 1"
        using fre(2) [of b] fa by (cases "a = b") (simp_all add: count_list_append count_list_Dec count_list_0_iff)
    qed
  qed
qed

text \<open>What is left of the heap: the objects that are not freed keep their class and fields.\<close>

definition kept :: "heap \<Rightarrow> heap \<Rightarrow> bool" where
  "kept h h' \<longleftrightarrow> (\<forall>a ob'. heap_at h' a = Some ob' \<longrightarrow>
     (\<exists>ob. heap_at h a = Some ob \<and> ob_value ob' = ob_value ob \<and> ob_klass ob' = ob_klass ob))"

lemma kept_refl: "kept h h"
  by (simp add: kept_def)

lemma kept_trans: "kept h h' \<Longrightarrow> kept h' h'' \<Longrightarrow> kept h h''"
  unfolding kept_def by metis

lemma kept_free: "kept h (h[a := None])"
  by (simp add: kept_def heap_at_update)

lemma kept_count: "heap_at h a = Some ob \<Longrightarrow> kept h (h[a := Some (ob\<lparr>ob_refcnt := n\<rparr>)])"
  by (simp add: kept_def heap_at_update)

lemma heap_ok_kept: "heap_ok kls h \<Longrightarrow> kept h h' \<Longrightarrow> heap_ok kls h'"
  unfolding heap_ok_def kept_def by metis

text \<open>Only the number of references and the frees matter.\<close>

lemma releasing_same:
  assumes "releasing h ws E" "\<And>a. E' a + count_list ws' (Dec (Some a)) = E a + count_list ws (Dec (Some a))"
    and "\<And>a. count_list ws' (Free a) = count_list ws (Free a)"
  shows "releasing h ws' E'"
proof -
  have free: "Free a \<in> set ws' \<longleftrightarrow> Free a \<in> set ws" for a
    using assms(3) [of a] count_list_0_iff [of ws' "Free a"] count_list_0_iff [of ws "Free a"] by simp
  have eq: "E' a + slots h a + count_list ws' (Dec (Some a)) = E a + slots h a + count_list ws (Dec (Some a))" for a
    using assms(2) [of a] by simp
  from assms(1) show ?thesis unfolding releasing_def free assms(3) eq .
qed

lemma release_ok:
  "heap_ok kls h \<Longrightarrow> releasing h ws E \<Longrightarrow>
   \<exists>h'. ob_release kls h ws = Inr h' \<and> heap_ok kls h' \<and> counts_ok h' E \<and> kept h h'"
proof (induction kls h ws rule: ob_release.induct)
  case (1 kls h)
  then show ?case by (simp add: counts_ok_releasing kept_refl)
next
  case (2 kls h a ws)
  from 2(1) [OF heap_ok_kept [OF 2(2) kept_free] releasing_Free [OF 2(3)]] show ?case
    using kept_trans [OF kept_free] by auto
next
  case (3 kls h ws)
  have "releasing h ws E" by (rule releasing_same [OF 3(3)]) simp_all
  from 3(1) [OF 3(2) this] show ?case by simp
next
  case (4 kls h a ws)
  obtain ob where ob: "heap_at h a = Some ob" "1 \<le> ob_refcnt ob"
    "ob_refcnt ob \<noteq> 1 \<Longrightarrow> releasing (h[a := Some (ob\<lparr>ob_refcnt := ob_refcnt ob - 1\<rparr>)]) ws E"
    "ob_refcnt ob = 1 \<Longrightarrow> releasing (h[a := Some (ob\<lparr>ob_refcnt := ob_refcnt ob - 1\<rparr>)]) (map Dec (ob_value ob) @ Free a # ws) E"
    using releasing_Dec [OF 4(4)] by blast
  note k = kept_count [OF ob(1), of "ob_refcnt ob - 1"]
  note h' = heap_ok_kept [OF 4(3) k]
  have len: "length (ob_value ob) = kl_totalvars (kls (ob_klass ob))" using 4(3) ob(1) by (simp add: heap_ok_def)
  show ?case
  proof (cases "ob_refcnt ob = 1")
    case True
    with 4(2) [OF ob(1) refl _ _ h'] ob(4) len
    show ?thesis using kept_trans [OF k] ob(1) True by (auto simp: Let_def)
  next
    case False
    with 4(1) [OF ob(1) refl _ _ h' ob(3)] ob(2)
    show ?thesis using kept_trans [OF k] ob(1) by (auto simp: Let_def)
  qed
qed

lemma release_one:
  assumes "heap_ok kls h" "counts_ok h E" "0 < E a"
  shows "\<exists>h'. OB_DECREF kls h (Some a) = Inr h' \<and> heap_ok kls h' \<and> counts_ok h' (E(a := E a - 1)) \<and> kept h h'"
proof -
  have "releasing h [Dec (Some a)] (E(a := E a - 1))"
    by (rule releasing_same [OF assms(2) [unfolded counts_ok_releasing]]) (use assms(3) in auto)
  from release_ok [OF assms(1) this] show ?thesis by (simp add: OB_DECREF_def)
qed

text \<open>
  An example: two dogs, which have the name, a field of \<open>Animal\<close>, first, and then the age.
\<close>

lemma dog_fields:
  "get_m dog_klasses 3 ''Age'' 3 = Some (\<lparr>mn_name = ''Age'', mn_kind = VAR_KIND, mn_desc = None, mn_offset = 0, mn_code = None\<rparr>,
     \<lparr>lr_klazz = 3, lr_offset = 1\<rparr>)"
  "get_m dog_klasses 3 ''Name'' 3 = Some (\<lparr>mn_name = ''Name'', mn_kind = VAR_KIND, mn_desc = None, mn_offset = 0, mn_code = None\<rparr>,
     \<lparr>lr_klazz = 2, lr_offset = 0\<rparr>)"
proof -
  have add: "nt_get (insert_m NameTable_Init x) s = (if str_eq (mn_name x) s then Some x else None)" for x :: MNode and s
    using nt.add_cases [of "NameTable_Init :: MNode NameTable" "mn_name x" x] nt.get_add [of "NameTable_Init :: MNode NameTable" "mn_name x" x]
    by (auto simp: insert_m_def nt.get_None)
  have t: "kl_mtbl (dog_klasses 3) = insert_m NameTable_Init \<lparr>mn_name = ''Age'', mn_kind = VAR_KIND, mn_desc = None, mn_offset = 0, mn_code = None\<rparr>"
    "kl_mtbl (dog_klasses 2) = insert_m NameTable_Init \<lparr>mn_name = ''Name'', mn_kind = VAR_KIND, mn_desc = None, mn_offset = 0, mn_code = None\<rparr>"
    by (simp_all add: dog_klasses_def animal_klasses_def klass_defs MNode_New_def lro_add_line_def)
  have two: "seek_base vec k 2 = (if lr_klazz (vec ! 2) = k then 2 else seek_base vec k (Suc 0))"
    "search_m kls vec name 2 = (case Find_MNode (kl_mtbl (kls (lr_klazz (vec ! 2)))) name of
       Some m \<Rightarrow> Some (m, vec ! 2) | None \<Rightarrow> search_m kls vec name (Suc 0))" for vec k kls name
    by (simp_all add: numeral_2_eq_2 Let_def split: option.split)
  show "get_m dog_klasses 3 ''Age'' 3 = Some (\<lparr>mn_name = ''Age'', mn_kind = VAR_KIND, mn_desc = None, mn_offset = 0, mn_code = None\<rparr>,
       \<lparr>lr_klazz = 3, lr_offset = 1\<rparr>)"
    "get_m dog_klasses 3 ''Name'' 3 = Some (\<lparr>mn_name = ''Name'', mn_kind = VAR_KIND, mn_desc = None, mn_offset = 0, mn_code = None\<rparr>,
       \<lparr>lr_klazz = 2, lr_offset = 0\<rparr>)"
    by (simp_all add: get_m_def dog_lro animal_lro Let_def Find_MNode_def two t add str_eq_def cstr_def)
qed

definition dogs :: heap where
  "dogs = fst (object_alloc dog_klasses (fst (object_alloc dog_klasses [] 3)) 3)"

definition dogs_held :: "nat \<Rightarrow> nat" where
  "dogs_held a = (if a < 2 then 1 else 0)"

lemma dogs: "dogs = replicate 2 (Some \<lparr>ob_klass = 3, ob_refcnt = 1, ob_value = [None, None]\<rparr>)"
  by (simp add: dogs_def object_alloc_def dog_lro(3) numeral_2_eq_2)

lemma dogs_ok: "heap_ok dog_klasses dogs" "counts_ok dogs dogs_held"
  by (auto simp: dogs heap_ok_def counts_ok_def heap_at_def refcnt_at_def slots_def holds_in_def dog_lro(3) dogs_held_def
    split: if_splits)

text \<open>
  C12: dropping a reference that one holds is safe. When every object has the fields of its class and its
  count is the number of references to it, then dropping a reference (\<open>OB_DECREF\<close>) and all the frees that
  follow from it never use a freed object, never fail the assertion on the count and end; afterwards the
  counts are again the numbers of references, every object left has one, and it has the fields it had.
\<close>

theorem decref_safe:
  assumes "heap_ok kls h" "counts_ok h E" "0 < E a"
  shows "\<exists>h'. OB_DECREF kls h (Some a) = Inr h' \<and> heap_ok kls h' \<and> counts_ok h' (E(a := E a - 1)) \<and>
    (\<forall>b ob'. heap_at h' b = Some ob' \<longrightarrow> 0 < E b + slots h' b \<and>
      (\<exists>ob. heap_at h b = Some ob \<and> ob_value ob' = ob_value ob \<and> ob_klass ob' = ob_klass ob))"
proof -
  from release_one [OF assms] obtain h' where h': "OB_DECREF kls h (Some a) = Inr h'" "heap_ok kls h'"
    "counts_ok h' (E(a := E a - 1))" "kept h h'" by blast
  have "0 < E b + slots h' b" if "heap_at h' b = Some ob'" for b ob'
  proof -
    have "0 < refcnt_at h' b" "refcnt_at h' b = int ((E(a := E a - 1)) b + slots h' b)"
      using h'(3) that unfolding counts_ok_def by blast+
    then have "0 < (E(a := E a - 1)) b + slots h' b" by linarith
    then show ?thesis by (cases "b = a") auto
  qed
  moreover have "\<exists>ob. heap_at h b = Some ob \<and> ob_value ob' = ob_value ob \<and> ob_klass ob' = ob_klass ob" if "heap_at h' b = Some ob'" for b ob'
    using h'(4) that by (simp add: kept_def)
  ultimately show ?thesis using h'(1-3) by (intro exI [of _ h'] conjI allI impI) simp_all
qed

theorem decref_safe_witness: "\<exists>h'. OB_DECREF dog_klasses dogs (Some 0) = Inr h' \<and> counts_ok h' (dogs_held(0 := 0))"
  using decref_safe [OF dogs_ok, of 0] by (auto simp: dogs_held_def)

subsection \<open>The fields of an object\<close>

lemma nrvars_step:
  assumes "i < j" "j \<le> length ns"
  shows "nrvars_of kls (map lr_klazz (take i ns)) + kl_nrvars (kls (lr_klazz (ns ! i))) \<le> nrvars_of kls (map lr_klazz (take j ns))"
proof -
  have "take j ns = take i ns @ ns ! i # take (j - Suc i) (drop (Suc i) ns)"
    using assms id_take_nth_drop [of i "take j ns"] by (simp add: min_def drop_take)
  then show ?thesis by simp
qed

text \<open>The fields of the class of one node end where those of a later node begin.\<close>

lemma offsets_apart:
  assumes "offsets_ok kls ns" "i < j" "j < length ns"
  shows "lr_offset (ns ! i) + kl_nrvars (kls (lr_klazz (ns ! i))) \<le> lr_offset (ns ! j)"
  using nrvars_step [OF assms(2), of ns kls] assms by (simp add: offsets_ok_def)

lemma field_slot:
  assumes "klasses_ok kls ks" "k \<in> ks" "n \<in> set (tl (kl_lro (kls k)))"
  shows "lr_klazz n \<in> ks" "lr_offset n + kl_nrvars (kls (lr_klazz n)) \<le> kl_totalvars (kls k)"
proof -
  note lo = klasses_okD(1) [OF assms(1,2)]
  let ?ns = "kl_lro (kls k)"
  have ne: "?ns \<noteq> []" using assms(3) by auto
  moreover obtain j where "j < length (tl ?ns)" "n = tl ?ns ! j" using assms(3) by (auto simp: in_set_conv_nth)
  ultimately have "Suc j < length ?ns \<and> n = ?ns ! Suc j \<and> 0 < Suc j" by (simp add: nth_tl)
  then obtain i where i: "i < length ?ns" "n = ?ns ! i" "0 < i" by blast
  have d: "distinct (line_of kls k)" "line_of kls k ! 0 = Any_Klass" using lo by (auto simp: lro_ok_def)
  have at: "line_of kls k ! i = lr_klazz n" using i by simp
  have "lr_klazz n \<noteq> Any_Klass" using nth_eq_iff_index_eq [OF d(1), of i 0] d(2) i(1,3) at ne by auto
  moreover have "lr_klazz n \<in> set (line_of kls k)" using i by simp
  ultimately show "lr_klazz n \<in> ks" using klasses_okD(3) [OF assms(1,2)] by blast
  show "lr_offset n + kl_nrvars (kls (lr_klazz n)) \<le> kl_totalvars (kls k)"
    using nrvars_step [of i "length ?ns" ?ns kls] i lo by (simp add: lro_ok_def offsets_ok_def)
qed

lemma slots_differ:
  assumes "klasses_ok kls ks" "k \<in> ks" "n \<in> set (tl (kl_lro (kls k)))" "n' \<in> set (tl (kl_lro (kls k)))"
    and "p \<in> set (nt_members (kl_mtbl (kls (lr_klazz n))))" "p' \<in> set (nt_members (kl_mtbl (kls (lr_klazz n'))))"
    and "mn_kind (snd p) = VAR_KIND" "mn_kind (snd p') = VAR_KIND"
    and "lr_offset n + mn_offset (snd p) = lr_offset n' + mn_offset (snd p')"
  shows "n = n' \<and> p = p'"
proof -
  let ?ns = "kl_lro (kls k)"
  have o: "offsets_ok kls ?ns" using klasses_okD(1) [OF assms(1,2)] by (simp add: lro_ok_def)
  have f: "fields_ok (kls (lr_klazz n))" "fields_ok (kls (lr_klazz n'))"
    using klasses_okD(2) [OF assms(1)] field_slot(1) [OF assms(1,2)] assms(3,4) by blast+
  have lt: "mn_offset (snd p) < kl_nrvars (kls (lr_klazz n))" "mn_offset (snd p') < kl_nrvars (kls (lr_klazz n'))"
    using fields_okD(2) [OF f(1) assms(5,7)] fields_okD(2) [OF f(2) assms(6,8)] by simp_all
  obtain i j where ij: "i < length ?ns" "n = ?ns ! i" "j < length ?ns" "n' = ?ns ! j"
    using assms(3,4) by (metis in_set_conv_nth list.set_sel(2) tl_Nil)
  have "i = j"
  proof (rule ccontr)
    assume "i \<noteq> j"
    then consider "i < j" | "j < i" by linarith
    then show False
    proof cases
      case 1
      from offsets_apart [OF o 1 ij(3)] show False using lt assms(9) ij by simp
    next
      case 2
      from offsets_apart [OF o 2 ij(1)] show False using lt assms(9) ij by simp
    qed
  qed
  then have "n = n'" using ij by simp
  moreover have "p = p'" using fields_okD(3) [OF f(1) assms(5) _ assms(7,8)] assms(6,9) calculation by simp
  ultimately show ?thesis by simp
qed

text \<open>The member that the search finds is a member of its class.\<close>

lemma seek_base_le: "seek_base vec b index \<le> index"
  by (induction index) auto

lemma get_m_member:
  assumes "klasses_ok kls ks" "k \<in> ks" "get_m kls k name b = Some (m, n)"
  obtains s where "n \<in> set (tl (kl_lro (kls k)))" "(s, m) \<in> set (nt_members (kl_mtbl (kls (lr_klazz n))))"
proof -
  let ?vec = "kl_lro (kls k)"
  have "?vec \<noteq> []" using klasses_okD(1) [OF assms(1,2)] by (auto simp: lro_ok_def)
  then have i: "seek_base ?vec b (length ?vec - 1) < length ?vec"
    using seek_base_le [of ?vec b "length ?vec - 1"] by (simp add: less_le_trans le_less_trans)
  obtain nm where "n \<in> set (tl ?vec)" "Find_MNode (kl_mtbl (kls (lr_klazz n))) nm = Some m"
  proof (cases "take 6 name = ''super.''")
    case True
    then have "search_m kls ?vec (drop 6 name) (seek_base ?vec b (length ?vec - 1) - 1) = Some (m, n)"
      using assms(3) by (simp add: get_m_def Let_def)
    moreover have "seek_base ?vec b (length ?vec - 1) - 1 < length ?vec" using i by linarith
    ultimately show ?thesis using search_m_node that by blast
  next
    case False
    then have "search_m kls ?vec name (seek_base ?vec b (length ?vec - 1)) = Some (m, n)"
      using assms(3) by (simp add: get_m_def Let_def)
    from search_m_node [OF this i] show ?thesis using that by auto
  qed
  moreover from this(1) have "nt_ok (kl_mtbl (kls (lr_klazz n)))"
    using field_slot(1) [OF assms(1,2)] klasses_okD(2) [OF assms(1)] fields_okD(1) by blast
  ultimately show thesis using nt.get_Some that by (metis Find_MNode_def)
qed

text \<open>
  C24: the layout of the fields. In an object of a class \<open>k\<close>, a field of a class of its order has its slot
  within the \<open>totalvars\<close> slots of the object, and two different fields, of the same class or of two
  classes, even with the same name, have different slots.
\<close>

theorem field_slots_disjoint:
  assumes "klasses_ok kls ks" "k \<in> ks"
    and "get_m kls k name b = Some (m, n)" "get_m kls k name' b' = Some (m', n')"
    and "mn_kind m = VAR_KIND" "mn_kind m' = VAR_KIND"
  shows "lr_offset n + mn_offset m < kl_totalvars (kls k) \<and>
    (lr_offset n + mn_offset m = lr_offset n' + mn_offset m' \<longleftrightarrow> n = n' \<and> m = m')"
proof
  obtain s where s: "n \<in> set (tl (kl_lro (kls k)))" "(s, m) \<in> set (nt_members (kl_mtbl (kls (lr_klazz n))))"
    by (rule get_m_member [OF assms(1-3)])
  obtain s' where s': "n' \<in> set (tl (kl_lro (kls k)))" "(s', m') \<in> set (nt_members (kl_mtbl (kls (lr_klazz n'))))"
    by (rule get_m_member [OF assms(1,2,4)])
  have "fields_ok (kls (lr_klazz n))" using klasses_okD(2) [OF assms(1) field_slot(1) [OF assms(1,2) s(1)]] .
  then have "mn_offset m < kl_nrvars (kls (lr_klazz n))" using fields_okD(2) [of _ "(s, m)"] s(2) assms(5) by auto
  with field_slot(2) [OF assms(1,2) s(1)] show "lr_offset n + mn_offset m < kl_totalvars (kls k)" by simp
  show "lr_offset n + mn_offset m = lr_offset n' + mn_offset m' \<longleftrightarrow> n = n' \<and> m = m'"
    using slots_differ [OF assms(1,2) s(1) s'(1) s(2) s'(2)] assms(5,6) by auto
qed

theorem field_slots_disjoint_witness:
  "\<exists>m n m' n'. get_m dog_klasses 3 ''Age'' 3 = Some (m, n) \<and> get_m dog_klasses 3 ''Name'' 3 = Some (m', n') \<and>
     lr_offset n + mn_offset m < kl_totalvars (dog_klasses 3) \<and> lr_offset n + mn_offset m \<noteq> lr_offset n' + mn_offset m'"
  using field_slots_disjoint [OF animals_ok(2) _ dog_fields(1,2)]
  by (simp add: dog_fields)

lemma field_index_found:
  assumes "klasses_ok kls ks" "heap_ok kls h" "heap_at h ob = Some x" "ob_klass x \<in> ks"
    and "get_m kls (ob_klass x) name (case base of None \<Rightarrow> ob_klass x | Some b \<Rightarrow> b) = Some (m, n)" "mn_kind m = VAR_KIND"
  shows "field_index kls x base name = Inr (lr_offset n + mn_offset m)" "lr_offset n + mn_offset m < length (ob_value x)"
proof -
  obtain s where s: "n \<in> set (tl (kl_lro (kls (ob_klass x))))" "(s, m) \<in> set (nt_members (kl_mtbl (kls (lr_klazz n))))"
    by (rule get_m_member [OF assms(1,4,5)])
  have "fields_ok (kls (lr_klazz n))" using klasses_okD(2) [OF assms(1) field_slot(1) [OF assms(1,4) s(1)]] .
  then have "mn_offset m < kl_nrvars (kls (lr_klazz n))" using fields_okD(2) [of _ "(s, m)"] s(2) assms(6) by auto
  with field_slot(2) [OF assms(1,4) s(1)] assms(2,3)
  show "lr_offset n + mn_offset m < length (ob_value x)" by (simp add: heap_ok_def)
  then show "field_index kls x base name = Inr (lr_offset n + mn_offset m)"
    using assms(5,6) by (simp add: field_index_def Let_def)
qed

lemma count_list_update:
  "i < length xs \<Longrightarrow> count_list (xs[i := y]) x + (if xs ! i = x then 1 else 0) = count_list xs x + (if y = x then 1 else 0)"
proof (induction xs arbitrary: i)
  case (Cons a xs)
  then show ?case
  proof (cases i)
    case (Suc j)
    then show ?thesis using Cons.IH [of j] Cons.prems by auto
  qed simp
qed simp

text \<open>Storing a reference in a field and counting it: the old reference is left over.\<close>

lemma store_ok:
  assumes "heap_ok kls h" "counts_ok h E" "heap_at h ob = Some x" "i < length (ob_value x)" "heap_at h v = Some y"
  defines "h1 \<equiv> h[ob := Some (x\<lparr>ob_value := (ob_value x)[i := Some v]\<rparr>)]"
  shows "\<exists>h2. OB_INCREF h1 (Some v) = Inr h2 \<and> heap_ok kls h2 \<and> releasing h2 [Dec (ob_value x ! i)] E \<and> kept h1 h2"
proof -
  let ?x1 = "x\<lparr>ob_value := (ob_value x)[i := Some v]\<rparr>"
  have len: "ob < length h" by (rule heap_at_length [OF assms(3)])
  have px: "0 < ob_refcnt x" using assms(2,3) by (auto simp: counts_ok_def refcnt_at_def dest!: spec [of _ ob])
  have at1: "heap_at h1 b = (if b = ob then Some ?x1 else heap_at h b)" for b
    using len by (simp add: h1_def heap_at_update)
  have r1: "refcnt_at h1 b = refcnt_at h b" for b using at1 [of b] assms(3) by (simp add: refcnt_at_def)
  have s1: "slots h1 b + (if ob_value x ! i = Some b then 1 else 0) = slots h b + (if b = v then 1 else 0)" for b
    using slots_update [OF assms(3), of "Some ?x1" b] count_list_update [OF assms(4), of "Some v" "Some b"] px
    by (simp add: holds_in_def h1_def split: if_splits)
  obtain z where z: "heap_at h1 v = Some z" using at1 [of v] assms(5) by (cases "v = ob") auto
  let ?h2 = "h1[v := Some (z\<lparr>ob_refcnt := ob_refcnt z + 1\<rparr>)]"
  have pz: "0 < ob_refcnt z" "refcnt_at h1 v = ob_refcnt z"
    using assms(2) r1 [of v] z assms(5) by (auto simp: counts_ok_def refcnt_at_def dest!: spec [of _ v])
  have r2: "refcnt_at ?h2 b = refcnt_at h b + (if b = v then 1 else 0)" for b
    using refcnt_at_update [OF heap_at_length [OF z]] pz(2) r1 by simp
  have s2: "slots ?h2 b = slots h1 b" for b
    using slots_update [OF z, of "Some (z\<lparr>ob_refcnt := ob_refcnt z + 1\<rparr>)" b] pz(1) by (simp add: holds_in_def)
  have at2: "heap_at ?h2 b \<noteq> None \<longleftrightarrow> heap_at h b \<noteq> None" for b
    using at1 z assms(3,5) heap_at_length [OF z] by (auto simp: heap_at_update)
  have "refcnt_at ?h2 b = int (E b + slots ?h2 b + count_list [Dec (ob_value x ! i)] (Dec (Some b)))" for b
  proof -
    have "refcnt_at h b = int (E b + slots h b)" using assms(2) unfolding counts_ok_def by blast
    then show ?thesis using s1 [of b] unfolding r2 s2 by (simp split: if_splits)
  qed
  moreover have "\<not> (heap_at ?h2 b \<noteq> None \<and> refcnt_at ?h2 b = 0)" for b
  proof -
    have "heap_at h b \<noteq> None \<longrightarrow> 0 < refcnt_at h b" using assms(2) unfolding counts_ok_def by blast
    then show ?thesis unfolding at2 r2 by auto
  qed
  ultimately have rel: "releasing ?h2 [Dec (ob_value x ! i)] E" by (simp add: releasing_def)
  have "heap_ok kls h1" unfolding heap_ok_def
  proof (intro allI impI)
    fix a o' assume "heap_at h1 a = Some o'"
    then show "length (ob_value o') = kl_totalvars (kls (ob_klass o'))"
      using assms(1,3) by (cases "a = ob") (auto simp: at1 heap_ok_def)
  qed
  from heap_ok_kept [OF this kept_count [OF z]] have "heap_ok kls ?h2" .
  then show ?thesis using rel z kept_count [OF z] by (auto simp: OB_INCREF_def)
qed

text \<open>
  C22: reading a field after writing one. When an object and a value are alive and the search finds a
  variable, \<open>Set_Field\<close> ends without a fault, keeps every object in the shape of its class and every count
  the number of references, and the field then holds the value; every other field of the object holds
  what it did.
\<close>

theorem Set_Field_Get_Field:
  assumes "klasses_ok kls ks" "heap_ok kls h" "counts_ok h E" "heap_at h ob = Some x" "ob_klass x \<in> ks" "0 < E ob" "0 < E v"
    and "get_m kls (ob_klass x) name (case base of None \<Rightarrow> ob_klass x | Some b \<Rightarrow> b) = Some (m, n)" "mn_kind m = VAR_KIND"
  shows "\<exists>h'. Set_Field kls h ob base name (Some v) = Inr h' \<and> heap_ok kls h' \<and> counts_ok h' E \<and>
    Get_Field kls h' ob base name = Inr (Some v) \<and>
    (\<forall>base' name' m' n'. get_m kls (ob_klass x) name' (case base' of None \<Rightarrow> ob_klass x | Some b \<Rightarrow> b) = Some (m', n') \<longrightarrow>
       mn_kind m' = VAR_KIND \<longrightarrow> (n', m') \<noteq> (n, m) \<longrightarrow> Get_Field kls h' ob base' name' = Get_Field kls h ob base' name')"
proof -
  let ?i = "lr_offset n + mn_offset m"
  note idx = field_index_found [OF assms(1,2,4,5,8,9)]
  have alive: "heap_at g a \<noteq> None" if "counts_ok g E" "0 < E a" for g a
  proof
    assume "heap_at g a = None"
    then have "refcnt_at g a = 0" by (simp add: refcnt_at_def)
    moreover have "refcnt_at g a = int (E a + slots g a)" using that(1) unfolding counts_ok_def by blast
    ultimately show False using that(2) by simp
  qed
  obtain y where y: "heap_at h v = Some y" using alive [OF assms(3,7)] by blast
  let ?x1 = "x\<lparr>ob_value := (ob_value x)[?i := Some v]\<rparr>"
  let ?h1 = "h[ob := Some ?x1]"
  obtain h2 where h2: "OB_INCREF ?h1 (Some v) = Inr h2" "heap_ok kls h2" "releasing h2 [Dec (ob_value x ! ?i)] E" "kept ?h1 h2"
    using store_ok [OF assms(2-4) idx(2) y] by blast
  obtain h' where h': "ob_release kls h2 [Dec (ob_value x ! ?i)] = Inr h'" "heap_ok kls h'" "counts_ok h' E" "kept h2 h'"
    using release_ok [OF h2(2,3)] by blast
  have set: "Set_Field kls h ob base name (Some v) = Inr h'"
    using assms(4) idx(1) h2(1) h'(1) by (simp add: Set_Field_def OB_DECREF_def Let_def)
  obtain x' where x': "heap_at h' ob = Some x'" using alive [OF h'(3) assms(6)] by blast
  have "heap_at ?h1 ob = Some ?x1" using heap_at_length [OF assms(4)] by (simp add: heap_at_update)
  moreover obtain z where "heap_at ?h1 ob = Some z" "ob_value x' = ob_value z" "ob_klass x' = ob_klass z"
    using kept_trans [OF h2(4) h'(4)] x' unfolding kept_def by blast
  ultimately have v': "ob_value x' = (ob_value x)[?i := Some v]" "ob_klass x' = ob_klass x" by auto
  have get: "Get_Field kls h' ob base' name' = Inr ((ob_value x)[?i := Some v] ! (lr_offset n' + mn_offset m'))"
    if "get_m kls (ob_klass x) name' (case base' of None \<Rightarrow> ob_klass x | Some b \<Rightarrow> b) = Some (m', n')" "mn_kind m' = VAR_KIND"
    for base' name' m' n'
    using field_index_found(1) [OF assms(1) h'(2) x', unfolded v'(2), OF assms(5) that] x' by (simp add: Get_Field_def v'(1))
  have "Get_Field kls h' ob base' name' = Get_Field kls h ob base' name'"
    if g: "get_m kls (ob_klass x) name' (case base' of None \<Rightarrow> ob_klass x | Some b \<Rightarrow> b) = Some (m', n')" "mn_kind m' = VAR_KIND"
      "(n', m') \<noteq> (n, m)" for base' name' m' n'
  proof -
    obtain s where s: "n \<in> set (tl (kl_lro (kls (ob_klass x))))" "(s, m) \<in> set (nt_members (kl_mtbl (kls (lr_klazz n))))"
      by (rule get_m_member [OF assms(1,5,8)])
    obtain s' where s': "n' \<in> set (tl (kl_lro (kls (ob_klass x))))" "(s', m') \<in> set (nt_members (kl_mtbl (kls (lr_klazz n'))))"
      by (rule get_m_member [OF assms(1,5) g(1)])
    have "lr_offset n' + mn_offset m' \<noteq> ?i"
      using slots_differ [OF assms(1,5) s(1) s'(1) s(2) s'(2)] g(2,3) assms(9) by auto
    moreover have "Get_Field kls h ob base' name' = Inr (ob_value x ! (lr_offset n' + mn_offset m'))"
      using field_index_found [OF assms(1,2,4,5) g(1,2)] assms(4) by (simp add: Get_Field_def)
    ultimately show ?thesis using get [OF g(1,2)] by simp
  qed
  moreover have "Get_Field kls h' ob base name = Inr (Some v)" using get [OF assms(8,9)] idx(2) by simp
  ultimately show ?thesis using set h'(2,3) by blast
qed

theorem Set_Field_Get_Field_witness:
  "\<exists>h'. Set_Field dog_klasses dogs 0 None ''Age'' (Some 1) = Inr h' \<and> Get_Field dog_klasses h' 0 None ''Age'' = Inr (Some 1) \<and>
     Get_Field dog_klasses h' 0 None ''Name'' = Get_Field dog_klasses dogs 0 None ''Name''"
proof -
  have h: "heap_at dogs 0 = Some \<lparr>ob_klass = 3, ob_refcnt = 1, ob_value = [None, None]\<rparr>" by (simp add: dogs heap_at_def)
  have E: "0 < dogs_held 0" "0 < dogs_held 1" by (simp_all add: dogs_held_def)
  have g: "get_m dog_klasses 3 ''Age'' (case None of None \<Rightarrow> 3 | Some b \<Rightarrow> b) = Some (\<lparr>mn_name = ''Age'', mn_kind = VAR_KIND,
      mn_desc = None, mn_offset = 0, mn_code = None\<rparr>, \<lparr>lr_klazz = 3, lr_offset = 1\<rparr>)" by (simp add: dog_fields)
  have g': "get_m dog_klasses 3 ''Name'' (case None of None \<Rightarrow> 3 | Some b \<Rightarrow> b) = Some (\<lparr>mn_name = ''Name'', mn_kind = VAR_KIND,
      mn_desc = None, mn_offset = 0, mn_code = None\<rparr>, \<lparr>lr_klazz = 2, lr_offset = 0\<rparr>)" by (simp add: dog_fields)
  have "\<exists>h'. Set_Field dog_klasses dogs 0 None ''Age'' (Some 1) = Inr h' \<and> heap_ok dog_klasses h' \<and> counts_ok h' dogs_held \<and>
      Get_Field dog_klasses h' 0 None ''Age'' = Inr (Some 1) \<and>
      (\<forall>base' name' m' n'. get_m dog_klasses 3 name' (case base' of None \<Rightarrow> 3 | Some b \<Rightarrow> b) = Some (m', n') \<longrightarrow>
       mn_kind m' = VAR_KIND \<longrightarrow> (n', m') \<noteq> (\<lparr>lr_klazz = 3, lr_offset = 1\<rparr>, \<lparr>mn_name = ''Age'', mn_kind = VAR_KIND,
      mn_desc = None, mn_offset = 0, mn_code = None\<rparr>) \<longrightarrow> Get_Field dog_klasses h' 0 base' name' = Get_Field dog_klasses dogs 0 base' name')"
    using Set_Field_Get_Field [OF animals_ok(2) dogs_ok h _ E, of "''Age''" None, unfolded Object.select_convs, OF _ g] by simp
  then obtain h' where h': "Set_Field dog_klasses dogs 0 None ''Age'' (Some 1) = Inr h'" "Get_Field dog_klasses h' 0 None ''Age'' = Inr (Some 1)"
    and other: "get_m dog_klasses 3 name' (case base' of None \<Rightarrow> 3 | Some b \<Rightarrow> b) = Some (m', n') \<Longrightarrow>
       mn_kind m' = VAR_KIND \<Longrightarrow> (n', m') \<noteq> (\<lparr>lr_klazz = 3, lr_offset = 1\<rparr>, \<lparr>mn_name = ''Age'', mn_kind = VAR_KIND,
      mn_desc = None, mn_offset = 0, mn_code = None\<rparr>) \<Longrightarrow> Get_Field dog_klasses h' 0 base' name' = Get_Field dog_klasses dogs 0 base' name'"
    for base' name' m' n' by blast
  from other [OF g'] h' show ?thesis by simp
qed

end
