(* ===== verification/PkgTree.thy ===== *)
theory PkgTree
  imports HashTable
begin

text \<open>
  The tree of packages (\<^verbatim>\<open>src/pkgnode.c\<close>): a path of the file system names a node, the nodes are found
  in one hash table by their parent and their name, and the packages are the leaves.
\<close>

subsection \<open>Data\<close>

text \<open>A node is its address; the root, which is embedded in the state, has address 0.\<close>

datatype 'd node_data = No_Data | Children "addr list" | Payload 'd

record 'd PkgNode =
  pn_name :: string
  pn_parent :: addr
  pn_leaf :: bool
  pn_data :: "'d node_data"

record 'd PkgState =
  ps_table :: "(addr \<times> string) HashTable"
  ps_nodes :: "addr \<Rightarrow> 'd PkgNode"
  ps_next :: addr

definition node_hash_func :: "addr \<times> string \<Rightarrow> uint32" where
  "node_hash_func node = hash_string (snd node)"

definition node_equal_func :: "addr \<times> string \<Rightarrow> addr \<times> string \<Rightarrow> bool" where
  "node_equal_func node1 node2 \<longleftrightarrow> (if fst node1 \<noteq> fst node2 then False else str_eq (snd node1) (snd node2))"

interpretation node_keys: hash_contract node_hash_func node_equal_func "\<lambda>_. True"
  by unfold_locales (auto simp: node_equal_func_def node_hash_func_def str_eq_def intro: hash_string_str_eq split: if_splits)

definition init_pkgnode :: "string \<Rightarrow> addr \<Rightarrow> 'd PkgNode" where
  "init_pkgnode name parent = \<lparr>pn_name = name, pn_parent = parent, pn_leaf = False, pn_data = No_Data\<rparr>"

definition Init_PkgState :: "'d PkgState" where
  "Init_PkgState = \<lparr>ps_table = the (HashTable_Init True node_hash_func node_equal_func),
     ps_nodes = (\<lambda>_. (init_pkgnode ''/'' 0)\<lparr>pn_data := Children []\<rparr>), ps_next = 1\<rparr>"

definition find_node :: "'d PkgState \<Rightarrow> string \<Rightarrow> addr \<Rightarrow> addr option" where
  "find_node ps name parent = map_option hn_addr (HashTable_Find (ps_table ps) (parent, name))"

text \<open>The node is new whether or not the insertion succeeds.\<close>

definition add_node :: "'d PkgState \<Rightarrow> string \<Rightarrow> addr \<Rightarrow> addr \<times> 'd PkgState" where
  "add_node ps name parent = (
     let node = ps_next ps;
         (res, tbl, hn) = HashTable_Insert True (ps_table ps) (Init_HashNode node (parent, name))
     in (node, ps\<lparr>ps_table := tbl, ps_nodes := (ps_nodes ps)(node := init_pkgnode name parent), ps_next := node + 1\<rparr>))"

text \<open>
  What both branches of \<open>Add_PkgNode\<close> do with a new node: its flag and data are set and it is appended to
  the children of the parent, which must not be a leaf.
\<close>

definition fill_node :: "'d PkgState \<Rightarrow> addr \<Rightarrow> bool \<Rightarrow> 'd node_data \<Rightarrow> addr \<Rightarrow> 'd PkgState run" where
  "fill_node ps node leaf data parent = (
     let nodes = (ps_nodes ps)(node := (ps_nodes ps node)\<lparr>pn_leaf := leaf, pn_data := data\<rparr>) in
     if pn_leaf (nodes parent) then Inl Assert_Failed
     else (case pn_data (nodes parent) of
       Children vec \<Rightarrow> Inr (ps\<lparr>ps_nodes := nodes(parent := (nodes parent)\<lparr>pn_data := Children (vec @ [node])\<rparr>)\<rparr>)
     | _ \<Rightarrow> Inl Null_Deref))"

subsection \<open>Paths\<close>

text \<open>
  The first component of a path and what follows the slashes behind it. The first character belongs to
  the component whatever it is, and is read although the path may be empty.
\<close>

definition next_component :: "string \<Rightarrow> (string \<times> string) run" where
  "next_component path = (case path of
     [] \<Rightarrow> Inl Out_Of_Bounds
   | c # cs \<Rightarrow> Inr (c # takeWhile (\<lambda>ch. ch \<noteq> CHR ''/'') cs, dropWhile (\<lambda>ch. ch = CHR ''/'') (dropWhile (\<lambda>ch. ch \<noteq> CHR ''/'') cs)))"

lemma next_component_shorter: "next_component path = Inr (s, rest) \<Longrightarrow> length rest < length path"
  by (cases path) (auto simp: next_component_def less_Suc_eq_le intro!: order_trans [OF length_dropWhile_le length_dropWhile_le])

function add_path :: "'d PkgState \<Rightarrow> string \<Rightarrow> addr \<Rightarrow> 'd \<Rightarrow> (addr option \<times> 'd PkgState) run" where
  "add_path ps path parent data = (case next_component path of
     Inl e \<Rightarrow> Inl e
   | Inr (s, rest) \<Rightarrow>
       if rest = [] then
         (case find_node ps s parent of
            None \<Rightarrow> (case add_node ps s parent of (node, ps1) \<Rightarrow>
              bind_run (fill_node ps1 node True (Payload data) parent) (\<lambda>ps2. Inr (Some node, ps2)))
          | Some node \<Rightarrow> Inr (None, ps))
       else
         (case find_node ps s parent of
            None \<Rightarrow> (case add_node ps s parent of (node, ps1) \<Rightarrow>
              (case fill_node ps1 node False (Children []) parent of
                 Inl e \<Rightarrow> Inl e
               | Inr ps2 \<Rightarrow> add_path ps2 rest node data))
          | Some node \<Rightarrow> add_path ps rest node data))"
  by pat_completeness auto
termination
  by (relation "measure (\<lambda>(ps, path, parent, data). length path)") (auto dest: next_component_shorter)

definition Add_PkgNode :: "'d PkgState \<Rightarrow> string \<Rightarrow> 'd \<Rightarrow> (addr option \<times> 'd PkgState) run" where
  "Add_PkgNode ps path data = add_path ps path 0 data"

function find_path :: "'d PkgState \<Rightarrow> string \<Rightarrow> addr \<Rightarrow> addr option run" where
  "find_path ps path parent = (case next_component path of
     Inl e \<Rightarrow> Inl e
   | Inr (s, rest) \<Rightarrow> (case find_node ps s parent of
       None \<Rightarrow> Inr None
     | Some node \<Rightarrow> if rest = [] then Inr (Some node) else find_path ps rest node))"
  by pat_completeness auto
termination
  by (relation "measure (\<lambda>(ps, path, parent). length path)") (auto dest: next_component_shorter)

definition Find_PkgNode :: "'d PkgState \<Rightarrow> string \<Rightarrow> addr option run" where
  "Find_PkgNode ps path = find_path ps path 0"

text \<open>The components of a path.\<close>

function components :: "string \<Rightarrow> string list" where
  "components path = (case next_component path of Inl e \<Rightarrow> [] | Inr (s, rest) \<Rightarrow> s # components rest)"
  by pat_completeness auto
termination
  by (relation "measure length") (auto dest: next_component_shorter)

declare add_path.simps [simp del] find_path.simps [simp del] components.simps [simp del]

lemma components_Nil [simp]: "components [] = []"
  by (simp add: components.simps next_component_def)

lemma components_Cons:
  "components (c # cs) = (c # takeWhile (\<lambda>ch. ch \<noteq> CHR ''/'') cs) #
     components (dropWhile (\<lambda>ch. ch = CHR ''/'') (dropWhile (\<lambda>ch. ch \<noteq> CHR ''/'') cs))"
  by (simp add: components.simps [of "c # cs"] next_component_def)

lemma next_component_cases:
  assumes "path \<noteq> []"
  obtains s rest where "next_component path = Inr (s, rest)" "components path = s # components rest" "s \<noteq> []"
    "length rest < length path" "no_nul path \<Longrightarrow> no_nul s \<and> no_nul rest"
proof -
  obtain c cs where p: "path = c # cs" using assms by (cases path) auto
  let ?s = "c # takeWhile (\<lambda>ch. ch \<noteq> CHR ''/'') cs"
    and ?r = "dropWhile (\<lambda>ch. ch = CHR ''/'') (dropWhile (\<lambda>ch. ch \<noteq> CHR ''/'') cs)"
  have n: "next_component path = Inr (?s, ?r)" by (simp add: next_component_def p)
  show thesis
  proof (rule that [OF n])
    show "components path = ?s # components ?r" by (simp add: p components_Cons)
    show "length ?r < length path" by (rule next_component_shorter [OF n])
    assume "no_nul path"
    then show "no_nul ?s \<and> no_nul ?r"
      by (auto simp: p no_nul_def dest: set_takeWhileD set_dropWhileD)
  qed simp
qed

subsection \<open>The tree as a map from paths\<close>

text \<open>
  The contract of a tree of named children: each node but the root is the child of one older node under
  one name. A client adds children and walks down the tree.
\<close>

locale child_map =
  fixes ok :: "'s \<Rightarrow> bool"
    and child :: "'s \<Rightarrow> addr \<Rightarrow> string \<Rightarrow> addr option"
    and bound :: "'s \<Rightarrow> addr"
    and add_child :: "'s \<Rightarrow> addr \<Rightarrow> string \<Rightarrow> 's"
  assumes older: "ok t \<Longrightarrow> child t p s = Some a \<Longrightarrow> p < a \<and> a < bound t"
    and one_parent: "ok t \<Longrightarrow> child t p s = Some a \<Longrightarrow> child t q r = Some a \<Longrightarrow> p = q \<and> cstr s = cstr r"
    and by_content: "ok t \<Longrightarrow> cstr s = cstr r \<Longrightarrow> child t p s = child t p r"
    and added: "ok t \<Longrightarrow> p < bound t \<Longrightarrow> child t p s = None \<Longrightarrow> ok (add_child t p s) \<and> bound (add_child t p s) = bound t + 1 \<and>
      (\<forall>q r. child (add_child t p s) q r = (if q = p \<and> str_eq s r then Some (bound t) else child t q r))"
begin

primrec walk_down :: "'s \<Rightarrow> addr \<Rightarrow> string list \<Rightarrow> addr option" where
  "walk_down t a [] = Some a"
| "walk_down t a (s # ss) = (case child t a s of None \<Rightarrow> None | Some b \<Rightarrow> walk_down t b ss)"

lemma walk_append: "walk_down t a (ss @ rs) = (case walk_down t a ss of None \<Rightarrow> None | Some b \<Rightarrow> walk_down t b rs)"
  by (induction ss arbitrary: a) (auto split: option.split)

lemma walk_snoc: "walk_down t a (ss @ [s]) = (case walk_down t a ss of None \<Rightarrow> None | Some b \<Rightarrow> child t b s)"
  by (simp add: walk_append split: option.split)

lemma walk_ge: "ok t \<Longrightarrow> walk_down t a ss = Some b \<Longrightarrow> a \<le> b \<and> (ss \<noteq> [] \<longrightarrow> a < b \<and> b < bound t)"
proof (induction ss arbitrary: a)
  case (Cons s ss)
  obtain c where c: "child t a s = Some c" "walk_down t c ss = Some b" using Cons.prems(2) by (auto split: option.splits)
  from older [OF Cons.prems(1) c(1)] Cons.IH [OF Cons.prems(1) c(2)] c(2) show ?case by (cases ss) auto
qed simp

text \<open>A node has one path.\<close>

lemma walk_inj:
  "ok t \<Longrightarrow> walk_down t a ss = Some b \<Longrightarrow> walk_down t a rs = Some b \<Longrightarrow> map cstr ss = map cstr rs"
proof (induction ss arbitrary: rs b rule: rev_induct)
  case Nil
  then show ?case using walk_ge [of t a rs b] by (cases rs) auto
next
  case (snoc s ss)
  obtain c where c: "walk_down t a ss = Some c" "child t c s = Some b"
    using snoc.prems(2) by (auto simp: walk_append split: option.splits)
  have "rs \<noteq> []" using walk_ge [OF snoc.prems(1,2)] snoc.prems(3) by auto
  then obtain rs' r where rs: "rs = rs' @ [r]" by (cases rs rule: rev_cases) auto
  obtain d where d: "walk_down t a rs' = Some d" "child t d r = Some b"
    using snoc.prems(3) by (auto simp: rs walk_append split: option.splits)
  from one_parent [OF snoc.prems(1) c(2) d(2)] have "c = d" "cstr s = cstr r" by auto
  with snoc.IH [OF snoc.prems(1) c(1), of rs'] d(1) show ?case by (simp add: rs)
qed

lemma walk_content: "ok t \<Longrightarrow> map cstr ss = map cstr rs \<Longrightarrow> walk_down t a ss = walk_down t a rs"
proof (induction ss arbitrary: rs a)
  case (Cons s ss)
  obtain r rs' where rs: "rs = r # rs'" "cstr s = cstr r" "map cstr ss = map cstr rs'" using Cons.prems(2) by (cases rs) auto
  show ?case using by_content [OF Cons.prems(1) rs(2), of a] Cons.IH [OF Cons.prems(1) rs(3)] by (simp add: rs(1) split: option.split)
qed simp

text \<open>A new child adds one path.\<close>

lemma walk_add:
  assumes "ok t" "walk_down t 0 ps = Some p" "p < bound t" "child t p s = None"
  shows "walk_down (add_child t p s) 0 rs = (if map cstr rs = map cstr (ps @ [s]) then Some (bound t) else walk_down t 0 rs)"
proof (induction rs rule: rev_induct)
  case Nil
  show ?case by simp
next
  case (snoc r rs)
  note add = added [OF assms(1,3,4)]
  have new: "child t (bound t) x = None" for x using older [OF assms(1), of "bound t" x] by (cases "child t (bound t) x") auto
  show ?case
  proof (cases "map cstr rs = map cstr (ps @ [s])")
    case True
    have "walk_down t 0 rs = None" using walk_content [OF assms(1) True, of 0] assms(2,4) by (simp add: walk_snoc)
    then show ?thesis using snoc.IH True add new assms(3) by (auto simp: walk_snoc dest: arg_cong [where f = length])
  next
    case False
    then have w: "walk_down (add_child t p s) 0 rs = walk_down t 0 rs" using snoc.IH by simp
    show ?thesis
    proof (cases "walk_down t 0 rs")
      case None
      moreover have "map cstr rs \<noteq> map cstr ps" using None walk_content [OF assms(1), of rs ps 0] assms(2) by auto
      ultimately show ?thesis using w by (simp add: walk_snoc)
    next
      case (Some q)
      have "q = p \<longleftrightarrow> map cstr rs = map cstr ps"
        using walk_inj [OF assms(1) Some, of ps] walk_content [OF assms(1), of rs ps 0] assms(2) Some by auto
      moreover have "child (add_child t p s) q r = (if q = p \<and> str_eq s r then Some (bound t) else child t q r)"
        using add by blast
      ultimately show ?thesis using w Some by (auto simp: walk_snoc str_eq_def)
    qed
  qed
qed

end

subsection \<open>The package tree keeps the contract\<close>

definition table_ok :: "'d PkgState \<Rightarrow> bool" where
  "table_ok ps \<longleftrightarrow> ht_ok node_hash_func node_equal_func (\<lambda>_. True) (ps_table ps) \<and>
     (\<forall>n \<in> set (ht_head (ps_table ps)). fst (hn_key n) < hn_addr n \<and> hn_addr n < ps_next ps)"

lemma find_node_iff:
  assumes "table_ok ps"
  shows "find_node ps s p = Some a \<longleftrightarrow>
    (\<exists>n \<in> set (ht_head (ps_table ps)). hn_addr n = a \<and> fst (hn_key n) = p \<and> str_eq (snd (hn_key n)) s)"
  using assms node_keys.Find_Some_iff [of "ps_table ps" "(p, s)"]
  by (auto simp: find_node_def table_ok_def node_equal_func_def split: if_splits)

lemma add_node_spec:
  assumes "table_ok ps" "p < ps_next ps" "find_node ps s p = None"
  shows "table_ok (snd (add_node ps s p))" "fst (add_node ps s p) = ps_next ps" "ps_next (snd (add_node ps s p)) = ps_next ps + 1"
    and "find_node (snd (add_node ps s p)) r q = (if q = p \<and> str_eq s r then Some (ps_next ps) else find_node ps r q)"
    and "ps_nodes (snd (add_node ps s p)) = (ps_nodes ps)(ps_next ps := init_pkgnode s p)"
proof -
  let ?n = "Init_HashNode (ps_next ps) (p, s)"
  have g: "ht_ok node_hash_func node_equal_func (\<lambda>_. True) (ps_table ps)" using assms(1) by (simp add: table_ok_def)
  have n: "\<not> hn_linked ?n" "hn_key ?n = (p, s)" "hn_addr ?n = ps_next ps" by (simp_all add: Init_HashNode_def)
  have fresh: "hn_addr ?n \<notin> hn_addr ` set (ht_head (ps_table ps))" using assms(1) n(3) by (auto simp: table_ok_def)
  obtain res t' n' where ins: "HashTable_Insert True (ps_table ps) ?n = (res, t', n')" by (metis prod_cases3)
  note spec = node_keys.Insert_spec [OF g n(1) TrueI fresh ins]
  have none: "HashTable_Find (ps_table ps) (hn_key ?n) = None" using assms(3) n(2) by (simp add: find_node_def)
  have add: "add_node ps s p = (ps_next ps, ps\<lparr>ps_table := t', ps_nodes := (ps_nodes ps)(ps_next ps := init_pkgnode s p), ps_next := ps_next ps + 1\<rparr>)"
    using ins by (simp add: add_node_def Let_def)
  have h: "ht_head t' = ht_head (ps_table ps) @ [?n\<lparr>hn_hash := node_hash_func (hn_key ?n), hn_linked := True\<rparr>]"
    using spec(3) none by simp
  have r0: "res = 0" using spec(2) none by simp
  show "table_ok (snd (add_node ps s p))"
    using spec(1) assms(1,2) h n by (auto simp: table_ok_def add less_Suc_eq)
  show "fst (add_node ps s p) = ps_next ps" "ps_next (snd (add_node ps s p)) = ps_next ps + 1"
    "ps_nodes (snd (add_node ps s p)) = (ps_nodes ps)(ps_next ps := init_pkgnode s p)" by (simp_all add: add)
  show "find_node (snd (add_node ps s p)) r q = (if q = p \<and> str_eq s r then Some (ps_next ps) else find_node ps r q)"
    using node_keys.Find_after_Insert [OF g n(1) TrueI fresh ins [unfolded r0] TrueI, of "(q, r)"] n
    by (auto simp: find_node_def add node_equal_func_def)
qed

interpretation pkg: child_map table_ok "\<lambda>ps p s. find_node ps s p" ps_next "\<lambda>ps p s. snd (add_node ps s p)"
proof (unfold_locales, goal_cases)
  case (1 t p s a)
  then show ?case by (auto simp: find_node_iff table_ok_def)
next
  case (2 t p s a q r)
  then obtain n m where n: "n \<in> set (ht_head (ps_table t))" "hn_addr n = a" "fst (hn_key n) = p" "str_eq (snd (hn_key n)) s"
    and m: "m \<in> set (ht_head (ps_table t))" "hn_addr m = a" "fst (hn_key m) = q" "str_eq (snd (hn_key m)) r"
    by (auto simp: find_node_iff)
  have "distinct (map hn_addr (ht_head (ps_table t)))" using 2(1) by (simp add: table_ok_def ht_ok_def ht_inv_def)
  then have "n = m" using n(1,2) m(1,2) by (auto simp: distinct_map inj_on_def)
  with n m show ?case by (auto simp: str_eq_def)
next
  case (3 t s r p)
  have "find_node t s p = Some a \<longleftrightarrow> find_node t r p = Some a" for a
    unfolding find_node_iff [OF 3(1)] str_eq_def 3(2) ..
  then show ?case by (metis option.exhaust)
next
  case (4 t p s)
  from add_node_spec [OF 4] show ?case by simp
qed

subsection \<open>Files and directories\<close>

text \<open>What the tree says of a path: nothing, a directory, or a package with its data.\<close>

datatype 'd entry = Dir | Pkg 'd

definition entry_of :: "'d PkgNode \<Rightarrow> 'd entry" where
  "entry_of node = (case pn_data node of Payload d \<Rightarrow> Pkg d | _ \<Rightarrow> Dir)"

definition abs_tree :: "'d PkgState \<Rightarrow> string list \<Rightarrow> 'd entry option" where
  "abs_tree ps ss = map_option (\<lambda>a. entry_of (ps_nodes ps a)) (pkg.walk_down ps 0 ss)"

definition tree_ok :: "'d PkgState \<Rightarrow> bool" where
  "tree_ok ps \<longleftrightarrow> table_ok ps \<and> 0 < ps_next ps \<and>
     (\<forall>a < ps_next ps. if pn_leaf (ps_nodes ps a) then \<exists>d. pn_data (ps_nodes ps a) = Payload d
        else \<exists>vec. pn_data (ps_nodes ps a) = Children vec) \<and>
     (\<forall>a s b. find_node ps s a = Some b \<longrightarrow> \<not> pn_leaf (ps_nodes ps a)) \<and> \<not> pn_leaf (ps_nodes ps 0)"

text \<open>Adding a new node to a directory, and to a package.\<close>

definition new_child :: "'d PkgState \<Rightarrow> string \<Rightarrow> addr \<Rightarrow> bool \<Rightarrow> 'd node_data \<Rightarrow> 'd PkgState run" where
  "new_child ps s p leaf data = (case add_node ps s p of (node, ps1) \<Rightarrow> fill_node ps1 node leaf data p)"

definition good_data :: "bool \<Rightarrow> 'd node_data \<Rightarrow> bool" where
  "good_data leaf data \<longleftrightarrow> (if leaf then \<exists>d. data = Payload d else \<exists>vec. data = Children vec)"

lemma tree_ok_data: "tree_ok ps \<Longrightarrow> a < ps_next ps \<Longrightarrow>
    if pn_leaf (ps_nodes ps a) then \<exists>d. pn_data (ps_nodes ps a) = Payload d else \<exists>vec. pn_data (ps_nodes ps a) = Children vec"
  unfolding tree_ok_def by blast

lemma tree_ok_dir: "tree_ok ps \<Longrightarrow> find_node ps s a = Some b \<Longrightarrow> \<not> pn_leaf (ps_nodes ps a)"
  unfolding tree_ok_def by blast

lemma walk_table: "ps_table ps' = ps_table ps \<Longrightarrow> pkg.walk_down ps' a ss = pkg.walk_down ps a ss"
proof -
  assume "ps_table ps' = ps_table ps"
  then have "find_node ps' s a = find_node ps s a" for s a by (simp add: find_node_def)
  then show ?thesis by (induction ss arbitrary: a) (auto split: option.split)
qed

lemma new_child_dir:
  assumes "tree_ok ps" "pkg.walk_down ps 0 cs = Some p" "find_node ps s p = None" "\<not> pn_leaf (ps_nodes ps p)" "good_data leaf data"
  shows "\<exists>ps'. new_child ps s p leaf data = Inr ps' \<and> tree_ok ps' \<and>
    (\<forall>rs. pkg.walk_down ps' 0 rs = (if map cstr rs = map cstr (cs @ [s]) then Some (ps_next ps) else pkg.walk_down ps 0 rs)) \<and>
    (\<forall>rs. abs_tree ps' rs = (if map cstr rs = map cstr (cs @ [s]) then Some (case data of Payload d \<Rightarrow> Pkg d | _ \<Rightarrow> Dir) else abs_tree ps rs)) \<and>
    find_node ps' s p = Some (ps_next ps) \<and> pn_leaf (ps_nodes ps' (ps_next ps)) = leaf"
proof -
  have ok: "table_ok ps" "0 < ps_next ps" using assms(1) by (simp_all add: tree_ok_def)
  have p: "p < ps_next ps" using pkg.walk_ge [OF ok(1) assms(2)] assms(2) ok(2) by (cases cs) auto
  note add = add_node_spec [OF ok(1) p assms(3)]
  let ?new = "ps_next ps" and ?ps1 = "snd (add_node ps s p)"
  obtain vec where vec: "pn_data (ps_nodes ps p) = Children vec" using tree_ok_data [OF assms(1) p] assms(4) by auto
  let ?nodes = "(ps_nodes ps)(?new := (init_pkgnode s p)\<lparr>pn_leaf := leaf, pn_data := data\<rparr>, p := (ps_nodes ps p)\<lparr>pn_data := Children (vec @ [?new])\<rparr>)"
  let ?ps2 = "?ps1\<lparr>ps_nodes := ?nodes\<rparr>"
  have c: "new_child ps s p leaf data = Inr ?ps2"
    using p add(2,5) vec assms(4) by (simp add: new_child_def fill_node_def Let_def split_beta)
  have t: "ps_table ?ps2 = ps_table ?ps1" by simp
  have fnd: "find_node ?ps2 r q = (if q = p \<and> str_eq s r then Some ?new else find_node ps r q)" for r q
    using add(4) by (simp add: find_node_def)
  have w: "pkg.walk_down ?ps2 0 rs = (if map cstr rs = map cstr (cs @ [s]) then Some ?new else pkg.walk_down ps 0 rs)" for rs
    using pkg.walk_add [OF ok(1) assms(2) p assms(3)] walk_table [OF t] by simp
  have old: "a < ?new" if "pkg.walk_down ps 0 rs = Some a" for rs a using pkg.walk_ge [OF ok(1) that] that ok(2) by (cases rs) auto
  have "tree_ok ?ps2"
    unfolding tree_ok_def
  proof (intro conjI allI impI)
    show "table_ok ?ps2" using add(1) by (simp add: table_ok_def)
    show "0 < ps_next ?ps2" by (simp add: add(3))
    show "if pn_leaf (ps_nodes ?ps2 a) then \<exists>d. pn_data (ps_nodes ?ps2 a) = Payload d else \<exists>vec. pn_data (ps_nodes ?ps2 a) = Children vec"
      if "a < ps_next ?ps2" for a
      using that assms(1,4,5) p vec add(3) by (auto simp: tree_ok_def good_data_def less_Suc_eq)
    show "\<not> pn_leaf (ps_nodes ?ps2 a)" if "find_node ?ps2 r a = Some b" for a r b
    proof -
      have "find_node ps r a \<noteq> Some b" if "a = ?new" for b
        using pkg.older [OF ok(1)] that by fastforce
      then have "a \<noteq> ?new" using that p fnd by (auto split: if_splits)
      moreover have "\<not> pn_leaf (ps_nodes ps a)"
        using that tree_ok_dir [OF assms(1), of r a b] assms(4) unfolding fnd by (auto split: if_splits)
      ultimately show ?thesis by (cases "a = p") simp_all
    qed
    show "\<not> pn_leaf (ps_nodes ?ps2 0)" using assms(1,4) ok(2) by (auto simp: tree_ok_def)
  qed
  moreover have "abs_tree ?ps2 rs = (if map cstr rs = map cstr (cs @ [s]) then Some (case data of Payload d \<Rightarrow> Pkg d | _ \<Rightarrow> Dir) else abs_tree ps rs)" for rs
  proof (cases "map cstr rs = map cstr (cs @ [s])")
    case True
    then show ?thesis using w [of rs] p by (simp add: abs_tree_def entry_of_def)
  next
    case False
    show ?thesis
    proof (cases "pkg.walk_down ps 0 rs")
      case None
      then show ?thesis using False w [of rs] by (simp add: abs_tree_def)
    next
      case (Some a)
      then have "entry_of (ps_nodes ?ps2 a) = entry_of (ps_nodes ps a)" using old [OF Some] vec by (auto simp: entry_of_def)
      then show ?thesis using False w [of rs] Some by (simp add: abs_tree_def)
    qed
  qed
  moreover have "find_node ?ps2 s p = Some ?new" "pn_leaf (ps_nodes ?ps2 ?new) = leaf" using fnd p by simp_all
  ultimately show ?thesis using c w by blast
qed

lemma new_child_leaf:
  assumes "tree_ok ps" "p < ps_next ps" "pn_leaf (ps_nodes ps p)"
  shows "new_child ps s p leaf data = Inl Assert_Failed"
proof -
  have "find_node ps s p = None" using assms(1,3) by (cases "find_node ps s p") (auto simp: tree_ok_def)
  from add_node_spec(2,5) [OF _ assms(2) this] assms show ?thesis
    by (simp add: tree_ok_def new_child_def fill_node_def Let_def split_beta)
qed

text \<open>The loops, in terms of the components.\<close>

lemma add_path_step:
  assumes "next_component path = Inr (s, rest)"
  shows "add_path ps path p data = (case find_node ps s p of
     None \<Rightarrow> if rest = [] then bind_run (new_child ps s p True (Payload data)) (\<lambda>ps2. Inr (Some (ps_next ps), ps2))
       else (case new_child ps s p False (Children []) of Inl e \<Rightarrow> Inl e | Inr ps2 \<Rightarrow> add_path ps2 rest (ps_next ps) data)
   | Some node \<Rightarrow> if rest = [] then Inr (None, ps) else add_path ps rest node data)"
proof -
  obtain ps1 where "add_node ps s p = (ps_next ps, ps1)" by (simp add: add_node_def Let_def split_beta)
  then show ?thesis by (subst add_path.simps) (simp add: assms new_child_def split: option.split)
qed

lemma find_path_walk:
  assumes "path \<noteq> []"
  shows "find_path ps path p = Inr (pkg.walk_down ps p (components path))"
  using assms
proof (induction path arbitrary: p rule: length_induct)
  case (1 path)
  obtain s rest where n: "next_component path = Inr (s, rest)" "components path = s # components rest" "length rest < length path"
    by (rule next_component_cases [OF 1(2)])
  then show ?case using 1(1) by (subst find_path.simps) (auto split: option.split)
qed

text \<open>The prefixes of a path that become directories.\<close>

definition proper_prefix :: "'a list \<Rightarrow> 'a list \<Rightarrow> bool" where
  "proper_prefix xs ys \<longleftrightarrow> (\<exists>z zs. ys = xs @ z # zs)"

lemma proper_prefix_Cons: "proper_prefix xs (y # ys) \<longleftrightarrow> xs = [] \<or> (\<exists>xs'. xs = y # xs' \<and> proper_prefix xs' ys)"
  by (cases xs) (auto simp: proper_prefix_def)

text \<open>The map after a path is added below \<open>cs\<close>.\<close>

definition tree_with :: "(string list \<Rightarrow> 'd entry option) \<Rightarrow> string list \<Rightarrow> string list \<Rightarrow> 'd \<Rightarrow> string list \<Rightarrow> 'd entry option" where
  "tree_with f cs ss data rs =
     (if map cstr rs = map cstr (cs @ ss) then Some (Pkg data)
      else if \<exists>qs. qs \<noteq> [] \<and> proper_prefix qs ss \<and> map cstr rs = map cstr (cs @ qs) then Some Dir
      else f rs)"

lemma abs_below: "pkg.walk_down ps 0 cs = Some p \<Longrightarrow> abs_tree ps (cs @ ss) = map_option (\<lambda>a. entry_of (ps_nodes ps a)) (pkg.walk_down ps p ss)"
  by (simp add: abs_tree_def pkg.walk_append)

lemma walk_bound: "tree_ok ps \<Longrightarrow> pkg.walk_down ps 0 cs = Some p \<Longrightarrow> p < ps_next ps"
  using pkg.walk_ge [of ps 0 cs p] by (cases cs) (auto simp: tree_ok_def)

lemma entry_leaf: "tree_ok ps \<Longrightarrow> a < ps_next ps \<Longrightarrow> (\<exists>d. entry_of (ps_nodes ps a) = Pkg d) \<longleftrightarrow> pn_leaf (ps_nodes ps a)"
  using tree_ok_data [of ps a] by (auto simp: entry_of_def split: if_splits node_data.splits)

lemma proper_prefix_simps [simp]:
  "proper_prefix [] (y # ys)" "\<not> proper_prefix xs []" "proper_prefix (x # xs) (y # ys) \<longleftrightarrow> x = y \<and> proper_prefix xs ys"
  by (auto simp: proper_prefix_def)

text \<open>The path taken one component further.\<close>

lemma tree_with_step:
  assumes "ss \<noteq> []" "\<And>rs. map cstr rs = map cstr (cs @ [s]) \<Longrightarrow> g rs = Some Dir"
    and "\<And>rs. map cstr rs \<noteq> map cstr (cs @ [s]) \<Longrightarrow> g rs = f rs"
  shows "tree_with g (cs @ [s]) ss data = tree_with f cs (s # ss) data"
proof
  fix rs
  have q: "(\<exists>qs. qs \<noteq> [] \<and> proper_prefix qs (s # ss) \<and> map cstr rs = map cstr (cs @ qs)) \<longleftrightarrow>
    map cstr rs = map cstr (cs @ [s]) \<or> (\<exists>qs. qs \<noteq> [] \<and> proper_prefix qs ss \<and> map cstr rs = map cstr ((cs @ [s]) @ qs))"
    (is "?l \<longleftrightarrow> ?r")
  proof
    assume ?l
    then obtain qs where "qs \<noteq> []" "proper_prefix qs (s # ss)" "map cstr rs = map cstr (cs @ qs)" by blast
    then show ?r by (cases qs; cases "tl qs") auto
  next
    assume ?r
    moreover have "proper_prefix [s] (s # ss)" using assms(1) by (cases ss) auto
    ultimately show ?l by (metis append.assoc append_Cons append_Nil list.distinct(1) proper_prefix_simps(3))
  qed
  show "tree_with g (cs @ [s]) ss data rs = tree_with f cs (s # ss) data rs"
    unfolding tree_with_def q using assms(2) [of rs] assms(3) [of rs] by auto
qed

lemma add_path_spec:
  assumes "tree_ok ps" "pkg.walk_down ps 0 cs = Some p" "path \<noteq> []"
  shows "if \<exists>qs. proper_prefix qs (components path) \<and> (\<exists>d. abs_tree ps (cs @ qs) = Some (Pkg d))
      then add_path ps path p data = Inl Assert_Failed
    else if abs_tree ps (cs @ components path) \<noteq> None
      then add_path ps path p data = Inr (None, ps)
    else \<exists>ps' node. add_path ps path p data = Inr (Some node, ps') \<and> tree_ok ps' \<and>
      pkg.walk_down ps' 0 (cs @ components path) = Some node \<and> abs_tree ps' = tree_with (abs_tree ps) cs (components path) data"
  using assms
proof (induction path arbitrary: ps cs p rule: length_induct)
  case (1 path)
  note ok = 1(2) and walk_down = 1(3)
  note bound = walk_bound [OF ok walk_down] and below = abs_below [OF walk_down]
  obtain s rest where n: "next_component path = Inr (s, rest)" "components path = s # components rest" "length rest < length path"
    by (rule next_component_cases [OF 1(4)])
  note step = add_path_step [OF n(1), of ps p data]
  have root: "(\<exists>d. abs_tree ps (cs @ []) = Some (Pkg d)) \<longleftrightarrow> pn_leaf (ps_nodes ps p)"
    using entry_leaf [OF ok bound] unfolding below by simp
  have pre: "(\<exists>qs. proper_prefix qs (s # ss) \<and> P qs) \<longleftrightarrow> P [] \<or> (\<exists>qs. proper_prefix qs ss \<and> P (s # qs))" for ss P
    by (metis proper_prefix_Cons)
  show ?case
  proof (cases "pn_leaf (ps_nodes ps p)")
    case True
    then have "find_node ps s p = None" using ok by (cases "find_node ps s p") (auto simp: tree_ok_def)
    then have "add_path ps path p data = Inl Assert_Failed"
      using new_child_leaf [OF ok bound True] step by simp
    then show ?thesis using root True unfolding n(2) pre by simp
  next
    case dir: False
    show ?thesis
    proof (cases "find_node ps s p")
      case (Some node)
      have w: "pkg.walk_down ps 0 (cs @ [s]) = Some node" using walk_down Some by (simp add: pkg.walk_snoc)
      show ?thesis
      proof (cases "rest = []")
        case True
        then show ?thesis using step Some root dir below [of "[s]"] unfolding n(2) pre by simp
      next
        case False
        note ih = 1(1) [rule_format, OF n(3) ok w False]
        have f: "(\<exists>qs. proper_prefix qs (s # components rest) \<and> (\<exists>d. abs_tree ps (cs @ qs) = Some (Pkg d))) \<longleftrightarrow>
            (\<exists>qs. proper_prefix qs (components rest) \<and> (\<exists>d. abs_tree ps ((cs @ [s]) @ qs) = Some (Pkg d)))"
          unfolding pre root using dir by simp
        have go: "add_path ps path p data = add_path ps rest node data" using step Some False by simp
        have ne: "components rest \<noteq> []" using False by (cases rest) (simp_all add: components_Cons)
        have "tree_with (abs_tree ps) (cs @ [s]) (components rest) data = tree_with (abs_tree ps) cs (s # components rest) data"
          if "\<not> (\<exists>qs. proper_prefix qs (components rest) \<and> (\<exists>d. abs_tree ps ((cs @ [s]) @ qs) = Some (Pkg d)))"
        proof (rule tree_with_step [OF ne])
          fix rs assume rs: "map cstr rs = map cstr (cs @ [s])"
          have "proper_prefix [] (components rest)" using ne by (cases "components rest") auto
          then have "\<nexists>d. abs_tree ps (cs @ [s]) = Some (Pkg d)" using that by fastforce
          moreover have "abs_tree ps (cs @ [s]) = Some (entry_of (ps_nodes ps node))" by (simp add: abs_tree_def w)
          ultimately have "abs_tree ps (cs @ [s]) = Some Dir" by (cases "entry_of (ps_nodes ps node)") auto
          then show "abs_tree ps rs = Some Dir"
            using pkg.walk_content [of ps rs "cs @ [s]"] rs ok by (simp add: abs_tree_def tree_ok_def)
        qed simp
        with ih show ?thesis unfolding n(2) f go by (auto split: if_splits)
      qed
    next
      case None
      have empty: "pkg.walk_down ps p (s # ss) = None" for ss using None by simp
      have f: "\<not> (\<exists>qs. proper_prefix qs (s # ss) \<and> (\<exists>d. abs_tree ps (cs @ qs) = Some (Pkg d)))" for ss
        unfolding pre root using dir below empty by simp
      have t: "abs_tree ps (cs @ s # ss) = None" for ss unfolding below empty by simp
      show ?thesis
      proof (cases "rest = []")
        case True
        have g: "good_data True (Payload data)" by (simp add: good_data_def)
        from new_child_dir [OF ok walk_down None dir g] obtain ps2 where ps2: "new_child ps s p True (Payload data) = Inr ps2" "tree_ok ps2"
          "\<forall>rs. pkg.walk_down ps2 0 rs = (if map cstr rs = map cstr (cs @ [s]) then Some (ps_next ps) else pkg.walk_down ps 0 rs)"
          "\<forall>rs. abs_tree ps2 rs = (if map cstr rs = map cstr (cs @ [s]) then Some (Pkg data) else abs_tree ps rs)" by auto
        have "abs_tree ps2 = tree_with (abs_tree ps) cs [s] data"
          using ps2(4) by (auto simp: tree_with_def proper_prefix_Cons fun_eq_iff)
        then show ?thesis using ps2 step None True f [of "[]"] t [of "[]"] by (simp add: n(2))
      next
        case False
        have g: "good_data False (Children [])" by (simp add: good_data_def)
        from new_child_dir [OF ok walk_down None dir g] obtain ps2 where ps2: "new_child ps s p False (Children []) = Inr ps2" "tree_ok ps2"
          "\<forall>rs. pkg.walk_down ps2 0 rs = (if map cstr rs = map cstr (cs @ [s]) then Some (ps_next ps) else pkg.walk_down ps 0 rs)"
          "\<forall>rs. abs_tree ps2 rs = (if map cstr rs = map cstr (cs @ [s]) then Some Dir else abs_tree ps rs)" by auto
        have w2: "pkg.walk_down ps2 0 (cs @ [s]) = Some (ps_next ps)" using ps2(3) by simp
        note ih = 1(1) [rule_format, OF n(3) ps2(2) w2 False]
        have ne: "components rest \<noteq> []" using False by (cases rest) (simp_all add: components_Cons)
        have below2: "abs_tree ps2 ((cs @ [s]) @ qs) = (if qs = [] then Some Dir else None)" for qs
          using ps2(4) t [of qs] by (cases qs) auto
        have n1: "\<not> (\<exists>qs. proper_prefix qs (components rest) \<and> (\<exists>d. abs_tree ps2 ((cs @ [s]) @ qs) = Some (Pkg d)))"
          and n2: "\<not> abs_tree ps2 ((cs @ [s]) @ components rest) \<noteq> None"
          unfolding below2 using ne by (auto split: if_splits)
        from ih [unfolded if_not_P [OF n1] if_not_P [OF n2]] obtain ps' node where r: "add_path ps2 rest (ps_next ps) data = Inr (Some node, ps')" "tree_ok ps'"
          "pkg.walk_down ps' 0 ((cs @ [s]) @ components rest) = Some node"
          "abs_tree ps' = tree_with (abs_tree ps2) (cs @ [s]) (components rest) data" by blast
        have "tree_with (abs_tree ps2) (cs @ [s]) (components rest) data = tree_with (abs_tree ps) cs (s # components rest) data"
          by (rule tree_with_step [OF ne]) (use ps2(4) in simp_all)
        moreover have "add_path ps path p data = add_path ps2 rest (ps_next ps) data" using step None False ps2(1) by simp
        ultimately show ?thesis using r f [of "components rest"] t [of "components rest"] by (simp add: n(2))
      qed
    qed
  qed
qed

lemma Add_PkgNode_cases:
  assumes "tree_ok ps" "path \<noteq> []"
  defines "ss \<equiv> components path"
  shows "map_option (\<lambda>a. entry_of (ps_nodes ps a)) (case Find_PkgNode ps path of Inr r \<Rightarrow> r | Inl e \<Rightarrow> None) = abs_tree ps ss"
    and "\<exists>qs d. proper_prefix qs ss \<and> abs_tree ps qs = Some (Pkg d) \<Longrightarrow> Add_PkgNode ps path data = Inl Assert_Failed"
    and "\<lbrakk>\<nexists>qs d. proper_prefix qs ss \<and> abs_tree ps qs = Some (Pkg d); abs_tree ps ss \<noteq> None\<rbrakk> \<Longrightarrow>
      Add_PkgNode ps path data = Inr (None, ps)"
    and "\<lbrakk>\<nexists>qs d. proper_prefix qs ss \<and> abs_tree ps qs = Some (Pkg d); abs_tree ps ss = None\<rbrakk> \<Longrightarrow>
      \<exists>ps' node. Add_PkgNode ps path data = Inr (Some node, ps') \<and> tree_ok ps' \<and> Find_PkgNode ps' path = Inr (Some node) \<and>
        (\<forall>rs. abs_tree ps' rs = (if map cstr rs = map cstr ss then Some (Pkg data)
          else if \<exists>qs. qs \<noteq> [] \<and> proper_prefix qs ss \<and> map cstr rs = map cstr qs then Some Dir else abs_tree ps rs))"
proof -
  have f: "Find_PkgNode q path = Inr (pkg.walk_down q 0 ss)" for q :: "'a PkgState"
    using find_path_walk [OF assms(2)] by (simp add: Find_PkgNode_def ss_def)
  then show "map_option (\<lambda>a. entry_of (ps_nodes ps a)) (case Find_PkgNode ps path of Inr r \<Rightarrow> r | Inl e \<Rightarrow> None) = abs_tree ps ss"
    by (simp add: abs_tree_def)
  note spec = add_path_spec [OF assms(1) pkg.walk_down.simps(1) assms(2), of data, folded ss_def Add_PkgNode_def, unfolded append_Nil]
  show "Add_PkgNode ps path data = Inl Assert_Failed" if "\<exists>qs d. proper_prefix qs ss \<and> abs_tree ps qs = Some (Pkg d)"
    using spec that by (auto split: if_splits)
  show "Add_PkgNode ps path data = Inr (None, ps)"
    if "\<nexists>qs d. proper_prefix qs ss \<and> abs_tree ps qs = Some (Pkg d)" "abs_tree ps ss \<noteq> None"
    using spec that by (auto split: if_splits)
  assume n: "\<nexists>qs d. proper_prefix qs ss \<and> abs_tree ps qs = Some (Pkg d)" "abs_tree ps ss = None"
  then have "\<not> (\<exists>qs. proper_prefix qs ss \<and> (\<exists>d. abs_tree ps qs = Some (Pkg d)))" by blast
  with spec n(2) obtain ps' node where r: "Add_PkgNode ps path data = Inr (Some node, ps')" "tree_ok ps'"
    "pkg.walk_down ps' 0 ss = Some node" "abs_tree ps' = tree_with (abs_tree ps) [] ss data" by auto
  then show "\<exists>ps' node. Add_PkgNode ps path data = Inr (Some node, ps') \<and> tree_ok ps' \<and> Find_PkgNode ps' path = Inr (Some node) \<and>
      (\<forall>rs. abs_tree ps' rs = (if map cstr rs = map cstr ss then Some (Pkg data)
        else if \<exists>qs. qs \<noteq> [] \<and> proper_prefix qs ss \<and> map cstr rs = map cstr qs then Some Dir else abs_tree ps rs))"
    by (intro exI [of _ ps'] exI [of _ node]) (simp add: f tree_with_def)
qed

lemma Init_PkgState_ok: "tree_ok Init_PkgState"
proof -
  have i: "HashTable_Init True node_hash_func node_equal_func = Some (ps_table (Init_PkgState :: 'a PkgState))"
    by (simp add: Init_PkgState_def HashTable_Init_def new_entries_def)
  have h: "ht_head (ps_table (Init_PkgState :: 'a PkgState)) = []" using ht_Init_fields [OF i] by simp
  have "table_ok (Init_PkgState :: 'a PkgState)"
    using node_keys.good_Init [OF i] h by (simp add: table_ok_def)
  moreover from this have "find_node (Init_PkgState :: 'a PkgState) s a = None" for s a
    using find_node_iff [of "Init_PkgState :: 'a PkgState" s a] h by (cases "find_node (Init_PkgState :: 'a PkgState) s a") auto
  moreover have "pn_data (ps_nodes (Init_PkgState :: 'a PkgState) a) = Children []" "\<not> pn_leaf (ps_nodes (Init_PkgState :: 'a PkgState) a)" for a
    by (simp_all add: Init_PkgState_def init_pkgnode_def)
  ultimately show ?thesis by (simp add: tree_ok_def) (simp add: Init_PkgState_def)
qed

lemma abs_tree_Init: "ss \<noteq> [] \<Longrightarrow> abs_tree (Init_PkgState :: 'd PkgState) ss = None" "abs_tree (Init_PkgState :: 'd PkgState) [] = Some Dir"
proof -
  have i: "HashTable_Init True node_hash_func node_equal_func = Some (ps_table (Init_PkgState :: 'd PkgState))"
    by (simp add: Init_PkgState_def HashTable_Init_def new_entries_def)
  have "find_node (Init_PkgState :: 'd PkgState) s a = None" for s a
    using find_node_iff [of "Init_PkgState :: 'd PkgState" s a] ht_Init_fields [OF i] Init_PkgState_ok [where ?'a = 'd]
    by (cases "find_node (Init_PkgState :: 'd PkgState) s a") (auto simp: tree_ok_def)
  then show "ss \<noteq> [] \<Longrightarrow> abs_tree (Init_PkgState :: 'd PkgState) ss = None" by (cases ss) (simp_all add: abs_tree_def)
  show "abs_tree (Init_PkgState :: 'd PkgState) [] = Some Dir"
    by (simp add: abs_tree_def entry_of_def Init_PkgState_def init_pkgnode_def)
qed

text \<open>
  C21: the package tree is a map from paths. For a path, not empty, of the components \<open>ss\<close>,
  \<open>Find_PkgNode\<close> gives the node of \<open>ss\<close>, or null when the tree has none. \<open>Add_PkgNode\<close> fails an
  assertion when a proper prefix of \<open>ss\<close> is a package; it gives null and changes nothing when the path is
  there already; otherwise it makes \<open>ss\<close> a package with the data and its proper prefixes directories,
  leaves every other path as it was, and gives a node that \<open>Find_PkgNode\<close> then finds.
\<close>

theorem Add_PkgNode_refines_map:
  assumes "tree_ok ps" "path \<noteq> []"
  defines "ss \<equiv> components path"
  shows "map_option (\<lambda>a. entry_of (ps_nodes ps a)) (case Find_PkgNode ps path of Inr r \<Rightarrow> r | Inl e \<Rightarrow> None) = abs_tree ps ss \<and>
    (if \<exists>qs d. proper_prefix qs ss \<and> abs_tree ps qs = Some (Pkg d) then Add_PkgNode ps path data = Inl Assert_Failed
     else if abs_tree ps ss \<noteq> None then Add_PkgNode ps path data = Inr (None, ps)
     else \<exists>ps' node. Add_PkgNode ps path data = Inr (Some node, ps') \<and> tree_ok ps' \<and> Find_PkgNode ps' path = Inr (Some node) \<and>
        (\<forall>rs. abs_tree ps' rs = (if map cstr rs = map cstr ss then Some (Pkg data)
          else if \<exists>qs. qs \<noteq> [] \<and> proper_prefix qs ss \<and> map cstr rs = map cstr qs then Some Dir else abs_tree ps rs)))"
proof -
  note parts = Add_PkgNode_cases [OF assms(1,2), folded ss_def]
  show ?thesis
    by (intro conjI, rule parts(1), split if_split, intro conjI impI, erule parts(2), split if_split, intro conjI impI)
      (rule parts(3), assumption+, rule parts(4), assumption, simp)
qed

theorem Add_PkgNode_refines_map_witness:
  "\<exists>ps node. Add_PkgNode Init_PkgState ''lang/io'' (7::nat) = Inr (Some node, ps) \<and> Find_PkgNode ps ''lang/io'' = Inr (Some node) \<and>
     abs_tree ps [''lang''] = Some Dir \<and> abs_tree ps [''lang'', ''io''] = Some (Pkg 7) \<and>
     Add_PkgNode ps ''lang//io/'' 8 = Inr (None, ps) \<and> Add_PkgNode ps ''lang/io/file'' 9 = Inl Assert_Failed \<and>
     (case Find_PkgNode ps ''lang'' of Inr r \<Rightarrow> r \<noteq> None | Inl e \<Rightarrow> False)"
proof -
  have c: "components ''lang/io'' = [''lang'', ''io'']" "components ''lang//io/'' = [''lang'', ''io'']"
    "components ''lang/io/file'' = [''lang'', ''io'', ''file'']" "components ''lang'' = [''lang'']"
    by (simp_all add: components_Cons)
  have p: "proper_prefix qs [''lang'', ''io''] \<longleftrightarrow> qs = [] \<or> qs = [''lang'']" for qs
    by (auto simp: proper_prefix_Cons)
  have none: "\<nexists>qs d. proper_prefix qs [''lang'', ''io''] \<and> abs_tree (Init_PkgState :: nat PkgState) qs = Some (Pkg d)"
    by (auto simp: p abs_tree_Init)
  from Add_PkgNode_cases(4) [OF Init_PkgState_ok, of "''lang/io''" "7::nat"] none obtain ps node where
    ps: "Add_PkgNode Init_PkgState ''lang/io'' (7::nat) = Inr (Some node, ps)" "tree_ok ps" "Find_PkgNode ps ''lang/io'' = Inr (Some node)"
    and abs: "abs_tree ps rs = (if map cstr rs = map cstr [''lang'', ''io''] then Some (Pkg 7)
          else if \<exists>qs. qs \<noteq> [] \<and> proper_prefix qs [''lang'', ''io''] \<and> map cstr rs = map cstr qs then Some Dir else abs_tree Init_PkgState rs)" for rs
    unfolding c by (auto simp: abs_tree_Init)
  have l1: "map cstr [''lang''] \<noteq> map cstr [''lang'', ''io'']" "map cstr [] \<noteq> map cstr [''lang'', ''io'']" by simp_all
  have l2: "\<exists>qs. qs \<noteq> [] \<and> proper_prefix qs [''lang'', ''io''] \<and> map cstr [''lang''] = map cstr qs"
    by (intro exI [of _ "[''lang'']"]) (simp add: p)
  have l3: "\<not> (\<exists>qs. qs \<noteq> [] \<and> proper_prefix qs [''lang'', ''io''] \<and> map cstr [] = map cstr qs)" by auto
  have a: "abs_tree ps [''lang''] = Some Dir" "abs_tree ps [''lang'', ''io''] = Some (Pkg 7)" "abs_tree ps [] = Some Dir"
    using abs [of "[''lang'']", unfolded if_not_P [OF l1(1)] if_P [OF l2]] abs [of "[''lang'', ''io'']", unfolded if_P [OF refl]]
      abs [of "[]", unfolded if_not_P [OF l1(2)] if_not_P [OF l3]] abs_tree_Init(2) by simp_all
  have old: "\<nexists>qs d. proper_prefix qs [''lang'', ''io''] \<and> abs_tree ps qs = Some (Pkg d)" using a by (auto simp: p)
  have again: "Add_PkgNode ps ''lang//io/'' 8 = Inr (None, ps)"
    by (rule Add_PkgNode_cases(3) [OF ps(2)]) (use old a(2) in \<open>simp_all add: c del: not_ex\<close>)
  have "proper_prefix [''lang'', ''io''] [''lang'', ''io'', ''file'']" by (auto simp: proper_prefix_Cons)
  then have below: "Add_PkgNode ps ''lang/io/file'' 9 = Inl Assert_Failed"
    using Add_PkgNode_refines_map [OF ps(2), of "''lang/io/file''" 9, THEN conjunct2] a(2) unfolding c by (metis list.discI)
  have "map_option (\<lambda>a. entry_of (ps_nodes ps a)) (case Find_PkgNode ps ''lang'' of Inr r \<Rightarrow> r | Inl e \<Rightarrow> None) = Some Dir"
    using Add_PkgNode_refines_map [OF ps(2), of "''lang''", THEN conjunct1] a(1) by (simp add: c)
  then have "case Find_PkgNode ps ''lang'' of Inr r \<Rightarrow> r \<noteq> None | Inl e \<Rightarrow> False" by (cases "Find_PkgNode ps ''lang''") auto
  with ps a again below show ?thesis by blast
qed

end
