(* ===== verification/Ast.thy ===== *)
theory Ast
  imports Symbol
begin

text \<open>
  The syntax tree (\<^verbatim>\<open>include/ast.h\<close>, \<^verbatim>\<open>src/ast.c\<close>): expressions and statements, their constructors, and
  the functions the grammar calls for declarations and assignments. The head of an expression holds what
  the semantic analysis fills in. \<open>left->right\<close>, the pointer of an expression to the one it is the left
  part of, is only asked whether that is a call and for its arguments: it is the number of arguments.
\<close>

subsection \<open>Data\<close>

text \<open>Row and column.\<close>

type_synonym Position = "int \<times> int"

record Ident =
  id_name :: string
  id_pos :: Position

record TypeWrapper =
  tw_desc :: "TypeDesc option"
  tw_pos :: Position

record IdType =
  it_id :: "Ident option"
  it_type :: TypeWrapper

datatype UnaryOpKind = UNARY_PLUS | UNARY_NEG | UNARY_BIT_NOT | UNARY_LNOT

datatype BinaryOpKind =
    BINARY_ADD | BINARY_SUB | BINARY_MULT | BINARY_DIV | BINARY_MOD | BINARY_QUOT | BINARY_POWER
  | BINARY_LSHIFT | BINARY_RSHIFT
  | BINARY_GT | BINARY_GE | BINARY_LT | BINARY_LE | BINARY_EQ | BINARY_NEQ
  | BINARY_BIT_AND | BINARY_BIT_XOR | BINARY_BIT_OR
  | BINARY_LAND | BINARY_LOR

datatype ExprCtx = EXPR_INVALID | EXPR_LOAD | EXPR_STORE | EXPR_CALL_FUNC | EXPR_LOAD_FUNC

datatype Right = No_Right | Right_Call nat | Right_Other

datatype ScopeKind = SCOPE_MODULE | SCOPE_CLASS | SCOPE_FUNCTION | SCOPE_BLOCK | SCOPE_CLOSURE

text \<open>Where an identifier was found, with the kind of the scope above.\<close>

datatype Where = Nowhere | CURRENT_SCOPE | UP_SCOPE ScopeKind

record ExprHead =
  eh_pos :: Position
  eh_desc :: "TypeDesc option"
  eh_sym :: "unit STable Symbol option"
  eh_right :: Right
  eh_ctx :: ExprCtx

datatype AssignOpKind = OP_ASSIGN | OP_PLUS_ASSIGN | OP_MINUS_ASSIGN | OP_MULT_ASSIGN | OP_DIV_ASSIGN | OP_MOD_ASSIGN
  | OP_AND_ASSIGN | OP_OR_ASSIGN | OP_XOR_ASSIGN | OP_RSHIFT_ASSIGN | OP_LSHIFT_ASSIGN

datatype Expr = Expr (exp_head: ExprHead) (exp_node: Node)
and Node =
    Nil_Expr | Self_Expr | Super_Expr
  | Const_Expr ConstValue
  | Ident_Expr string Where
  | Unary_Expr UnaryOpKind Expr ConstValue
  | Binary_Expr BinaryOpKind Expr Expr ConstValue
  | Attribute_Expr Ident Expr
  | SubScript_Expr Expr Expr
  | Call_Expr "Expr list" Expr
  | Slice_Expr "Expr option" "Expr option" Expr
  | ArrayList_Expr int "Expr list"
  | MapList_Expr int "Expr list"
  | MapEntry_Expr Expr Expr
  | Array_Expr "Expr option list" TypeWrapper "Expr option"
  | Map_Expr TypeWrapper "Expr option"
  | Set_Expr TypeWrapper "Expr option"
  | Anony_Expr "IdType list" "IdType list" "Stmt list"
and Stmt =
    VarDecl_Stmt Ident TypeWrapper "Expr option" bool
  | VarListDecl_Stmt "Ident list" TypeWrapper Expr bool
  | Assign_Stmt AssignOpKind Expr Expr
  | AssignList_Stmt "Expr list" Expr
  | FuncDecl_Stmt Ident "IdType list" "IdType list" "Stmt list"
  | ProtoDecl_Stmt bool Ident "IdType list" "IdType list"
  | Expr_Stmt Expr
  | Return_Stmt Position "Expr list"
  | List_Stmt bool "Stmt list"
  | Klass_Stmt Ident "TypeDesc list" "Stmt list"
  | Trait_Stmt Ident "TypeDesc list" "Stmt list"

definition new_head :: ExprHead where
  "new_head = \<lparr>eh_pos = (0, 0), eh_desc = None, eh_sym = None, eh_right = No_Right, eh_ctx = EXPR_INVALID\<rparr>"

definition exp_pos :: "Expr \<Rightarrow> Position" where "exp_pos e = eh_pos (exp_head e)"
definition exp_desc :: "Expr \<Rightarrow> TypeDesc option" where "exp_desc e = eh_desc (exp_head e)"
definition exp_sym :: "Expr \<Rightarrow> unit STable Symbol option" where "exp_sym e = eh_sym (exp_head e)"

fun set_head :: "(ExprHead \<Rightarrow> ExprHead) \<Rightarrow> Expr \<Rightarrow> Expr" where
  "set_head f (Expr h n) = Expr (f h) n"

subsection \<open>Constructors\<close>

definition New_Ident :: "string \<Rightarrow> Ident" where
  "New_Ident name = \<lparr>id_name = name, id_pos = (0, 0)\<rparr>"

definition New_IdType :: "Ident option \<Rightarrow> TypeWrapper \<Rightarrow> IdType" where
  "New_IdType ident type = \<lparr>it_id = ident, it_type = type\<rparr>"

definition Expr_From_Nil :: Expr where "Expr_From_Nil = Expr new_head Nil_Expr"
definition Expr_From_Self :: Expr where "Expr_From_Self = Expr new_head Self_Expr"
definition Expr_From_Super :: Expr where "Expr_From_Super = Expr new_head Super_Expr"

text \<open>What the constant constructors share.\<close>

definition const_expr :: "char \<Rightarrow> uint64 \<Rightarrow> string option \<Rightarrow> Expr run" where
  "const_expr kind raw str = bind_run (TypeDesc_Get_Base kind) (\<lambda>desc.
     Inr (Expr (new_head\<lparr>eh_desc := Some desc\<rparr>) (Const_Expr \<lparr>cv_kind = kind, cv_raw = raw, cv_str = str\<rparr>)))"

definition Expr_From_Integer :: "uint64 \<Rightarrow> Expr run" where
  "Expr_From_Integer val = const_expr BASE_INT val None"

definition Expr_From_Float :: "uint64 \<Rightarrow> Expr run" where
  "Expr_From_Float val = const_expr BASE_FLOAT val None"

definition Expr_From_Bool :: "uint32 \<Rightarrow> Expr run" where
  "Expr_From_Bool val = const_expr BASE_BOOL (ucast val) None"

definition Expr_From_String :: "string \<Rightarrow> Expr run" where
  "Expr_From_String val = const_expr BASE_STRING 0 (Some val)"

definition Expr_From_Char :: "uint32 \<Rightarrow> Expr run" where
  "Expr_From_Char val = const_expr BASE_CHAR (ucast val) None"

definition Expr_From_Ident :: "string \<Rightarrow> Expr" where
  "Expr_From_Ident val = Expr new_head (Ident_Expr val Nowhere)"

definition Expr_Is_Const :: "Expr \<Rightarrow> bool" where
  "Expr_Is_Const e = (case exp_node e of
     Const_Expr v \<Rightarrow> True
   | Ident_Expr name w \<Rightarrow> (case exp_sym e of None \<Rightarrow> False | Some s \<Rightarrow> sym_kind s = SYM_CONST)
   | Unary_Expr u exp val \<Rightarrow> cv_kind val \<noteq> NUL
   | Binary_Expr b l r val \<Rightarrow> cv_kind val \<noteq> NUL
   | _ \<Rightarrow> False)"

definition Expr_From_Unary :: "UnaryOpKind \<Rightarrow> Expr \<Rightarrow> Expr" where
  "Expr_From_Unary u exp = Expr (new_head\<lparr>eh_desc := exp_desc exp\<rparr>) (Unary_Expr u exp no_const)"

definition Expr_From_Binary :: "BinaryOpKind \<Rightarrow> Expr \<Rightarrow> Expr \<Rightarrow> Expr" where
  "Expr_From_Binary b left right = Expr (new_head\<lparr>eh_desc := exp_desc left\<rparr>) (Binary_Expr b left right no_const)"

definition Expr_From_Attribute :: "Ident \<Rightarrow> Expr \<Rightarrow> Expr" where
  "Expr_From_Attribute ident left = Expr new_head (Attribute_Expr ident (set_head (\<lambda>h. h\<lparr>eh_right := Right_Other\<rparr>) left))"

definition Expr_From_SubScript :: "Expr \<Rightarrow> Expr \<Rightarrow> Expr" where
  "Expr_From_SubScript index left = Expr new_head (SubScript_Expr index (set_head (\<lambda>h. h\<lparr>eh_right := Right_Other\<rparr>) left))"

definition Expr_From_Call :: "Expr list \<Rightarrow> Expr \<Rightarrow> Expr" where
  "Expr_From_Call args left = Expr new_head (Call_Expr args (set_head (\<lambda>h. h\<lparr>eh_right := Right_Call (length args)\<rparr>) left))"

definition Expr_From_Slice :: "Expr option \<Rightarrow> Expr option \<Rightarrow> Expr \<Rightarrow> Expr" where
  "Expr_From_Slice a b left = Expr new_head (Slice_Expr a b (set_head (\<lambda>h. h\<lparr>eh_right := Right_Other\<rparr>) left))"

text \<open>The nesting of array and map lists: one more than the deepest list in it.\<close>

fun arraylist_get_nesting :: "Expr list \<Rightarrow> int \<Rightarrow> int" where
  "arraylist_get_nesting [] mx = mx"
| "arraylist_get_nesting (e # es) mx = arraylist_get_nesting es
     (case exp_node e of ArrayList_Expr nesting vec \<Rightarrow> if mx < nesting then nesting else mx | _ \<Rightarrow> mx)"

definition Expr_From_ArrayListExpr :: "Expr list \<Rightarrow> Expr" where
  "Expr_From_ArrayListExpr vec = Expr new_head (ArrayList_Expr (arraylist_get_nesting vec 0 + 1) vec)"

fun maplist_get_nesting :: "Expr list \<Rightarrow> int \<Rightarrow> int run" where
  "maplist_get_nesting [] mx = Inr mx"
| "maplist_get_nesting (e # es) mx = (case exp_node e of
     MapEntry_Expr k v \<Rightarrow> maplist_get_nesting es
       (case exp_node v of MapList_Expr nesting vec \<Rightarrow> if mx < nesting then nesting else mx | _ \<Rightarrow> mx)
   | _ \<Rightarrow> Inl Assert_Failed)"

definition Expr_From_MapListExpr :: "Expr list \<Rightarrow> Expr run" where
  "Expr_From_MapListExpr vec = bind_run (maplist_get_nesting vec 0) (\<lambda>n. Inr (Expr new_head (MapList_Expr (n + 1) vec)))"

definition Expr_From_MapEntry :: "Expr \<Rightarrow> Expr \<Rightarrow> Expr" where
  "Expr_From_MapEntry k v = Expr new_head (MapEntry_Expr k v)"

definition is_array_list :: "Expr option \<Rightarrow> bool" where
  "is_array_list e = (case e of None \<Rightarrow> True | Some x \<Rightarrow> (case exp_node x of ArrayList_Expr n vec \<Rightarrow> True | _ \<Rightarrow> False))"

definition is_map_list :: "Expr option \<Rightarrow> bool" where
  "is_map_list e = (case e of None \<Rightarrow> True | Some x \<Rightarrow> (case exp_node x of MapList_Expr n vec \<Rightarrow> True | _ \<Rightarrow> False))"

definition Expr_From_Array :: "Expr option list \<Rightarrow> TypeWrapper \<Rightarrow> Expr option \<Rightarrow> Expr run" where
  "Expr_From_Array dims base listExp = (if \<not> is_array_list listExp then Inl Assert_Failed
     else Inr (Expr new_head (Array_Expr dims base listExp)))"

text \<open>
  \<open>vec\<close> are the dimensions given, or \<open>NULL\<close> and \<open>dims\<close> is their number. A type that is itself an array adds
  its dimensions to those given.
\<close>

definition Parser_New_Array :: "Expr option list option \<Rightarrow> int \<Rightarrow> TypeWrapper \<Rightarrow> Expr option \<Rightarrow> Expr run" where
  "Parser_New_Array vec dims type listExp = (case tw_desc type of None \<Rightarrow> Inl Null_Deref
   | Some desc \<Rightarrow>
     (case vec of
        Some dimsVec \<Rightarrow>
          if dims \<noteq> 0 then Inl Assert_Failed
          else (case desc of
             TD_Array n base \<Rightarrow> Expr_From_Array (dimsVec @ replicate (nat n) None) \<lparr>tw_desc = Some base, tw_pos = tw_pos type\<rparr> listExp
           | base \<Rightarrow> Expr_From_Array dimsVec \<lparr>tw_desc = Some base, tw_pos = tw_pos type\<rparr> listExp)
      | None \<Rightarrow>
          if dims = 0 then Inl Assert_Failed
          else (case desc of
             TD_Array n base \<Rightarrow> Inl Assert_Failed
           | base \<Rightarrow> Expr_From_Array (replicate (nat dims) None) \<lparr>tw_desc = Some base, tw_pos = tw_pos type\<rparr> listExp)))"

definition Expr_From_Map :: "TypeWrapper \<Rightarrow> Expr option \<Rightarrow> Expr run" where
  "Expr_From_Map type listExp = (if \<not> is_map_list listExp then Inl Assert_Failed else Inr (Expr new_head (Map_Expr type listExp)))"

definition Expr_From_Set :: "TypeWrapper \<Rightarrow> Expr option \<Rightarrow> Expr run" where
  "Expr_From_Set type listExp = (if \<not> is_array_list listExp then Inl Assert_Failed else Inr (Expr new_head (Set_Expr type listExp)))"

definition Expr_From_Anony :: "IdType list \<Rightarrow> IdType list \<Rightarrow> Stmt list \<Rightarrow> Expr" where
  "Expr_From_Anony args rets body = Expr new_head (Anony_Expr args rets body)"

definition Expr_Maybe_Stored :: "Expr \<Rightarrow> bool" where
  "Expr_Maybe_Stored e = (case exp_node e of
     Ident_Expr name w \<Rightarrow> True | Attribute_Expr ident l \<Rightarrow> True | SubScript_Expr i l \<Rightarrow> True | _ \<Rightarrow> False)"

definition is_ident :: "Expr \<Rightarrow> bool" where
  "is_ident e = (case exp_node e of Ident_Expr name w \<Rightarrow> True | _ \<Rightarrow> False)"

definition is_call :: "Expr \<Rightarrow> bool" where
  "is_call e = (case exp_node e of Call_Expr args l \<Rightarrow> True | _ \<Rightarrow> False)"

definition Stmt_From_VarDecl :: "Ident \<Rightarrow> TypeWrapper \<Rightarrow> Expr option \<Rightarrow> bool \<Rightarrow> Stmt" where
  "Stmt_From_VarDecl ident type exp konst = VarDecl_Stmt ident type exp konst"

definition Stmt_From_VarListDecl :: "Ident list \<Rightarrow> TypeWrapper \<Rightarrow> Expr \<Rightarrow> bool \<Rightarrow> Stmt" where
  "Stmt_From_VarListDecl ids type exp konst = VarListDecl_Stmt ids type exp konst"

definition Stmt_From_Assign :: "AssignOpKind \<Rightarrow> Expr \<Rightarrow> Expr \<Rightarrow> Stmt" where
  "Stmt_From_Assign a left right = Assign_Stmt a left right"

definition Stmt_From_AssignList :: "Expr list \<Rightarrow> Expr \<Rightarrow> Stmt" where
  "Stmt_From_AssignList left right = AssignList_Stmt left right"

definition Stmt_From_FuncDecl :: "Ident \<Rightarrow> IdType list \<Rightarrow> IdType list \<Rightarrow> Stmt list \<Rightarrow> Stmt" where
  "Stmt_From_FuncDecl ident args rets stmts = FuncDecl_Stmt ident args rets stmts"

definition Stmt_From_ProtoDecl :: "Ident \<Rightarrow> IdType list \<Rightarrow> IdType list \<Rightarrow> Stmt" where
  "Stmt_From_ProtoDecl ident args rets = ProtoDecl_Stmt False ident args rets"

definition Stmt_From_Expr :: "Expr \<Rightarrow> Stmt" where
  "Stmt_From_Expr exp = Expr_Stmt exp"

definition Stmt_From_Return :: "Expr list \<Rightarrow> Stmt" where
  "Stmt_From_Return exps = Return_Stmt (0, 0) exps"

definition Stmt_From_List :: "Stmt list \<Rightarrow> Stmt" where
  "Stmt_From_List vec = List_Stmt False vec"

definition Stmt_From_Klass :: "Ident \<Rightarrow> bool \<Rightarrow> TypeDesc list \<Rightarrow> Stmt list \<Rightarrow> Stmt" where
  "Stmt_From_Klass ident trait super body = (if trait then Trait_Stmt ident super body else Klass_Stmt ident super body)"

subsection \<open>Freeing\<close>

text \<open>
  The expressions that are freed, in the order in which they are. The statements in the body of a class are
  not freed with it.
\<close>

fun Free_Expr :: "Expr \<Rightarrow> Expr list"
and free_exprlist :: "Expr list \<Rightarrow> Expr list"
and free_optional :: "Expr option \<Rightarrow> Expr list"
and free_dims :: "Expr option list \<Rightarrow> Expr list"
and Free_Stmt_Func :: "Stmt \<Rightarrow> Expr list"
and free_stmtlist :: "Stmt list \<Rightarrow> Expr list" where
  "Free_Expr (Expr h (Unary_Expr u e v)) = Free_Expr e @ [Expr h (Unary_Expr u e v)]"
| "Free_Expr (Expr h (Binary_Expr b l r v)) = Free_Expr l @ Free_Expr r @ [Expr h (Binary_Expr b l r v)]"
| "Free_Expr (Expr h (Attribute_Expr i l)) = Free_Expr l @ [Expr h (Attribute_Expr i l)]"
| "Free_Expr (Expr h (SubScript_Expr i l)) = Free_Expr i @ Free_Expr l @ [Expr h (SubScript_Expr i l)]"
| "Free_Expr (Expr h (Call_Expr args l)) = free_exprlist args @ Free_Expr l @ [Expr h (Call_Expr args l)]"
| "Free_Expr (Expr h (Slice_Expr a b l)) = free_optional a @ free_optional b @ Free_Expr l @ [Expr h (Slice_Expr a b l)]"
| "Free_Expr (Expr h (ArrayList_Expr n vec)) = free_exprlist vec @ [Expr h (ArrayList_Expr n vec)]"
| "Free_Expr (Expr h (MapList_Expr n vec)) = free_exprlist vec @ [Expr h (MapList_Expr n vec)]"
| "Free_Expr (Expr h (MapEntry_Expr k v)) = Free_Expr k @ Free_Expr v @ [Expr h (MapEntry_Expr k v)]"
| "Free_Expr (Expr h (Array_Expr dims t l)) = free_dims dims @ free_optional l @ [Expr h (Array_Expr dims t l)]"
| "Free_Expr (Expr h (Map_Expr t l)) = free_optional l @ [Expr h (Map_Expr t l)]"
| "Free_Expr (Expr h (Set_Expr t l)) = free_optional l @ [Expr h (Set_Expr t l)]"
| "Free_Expr (Expr h (Anony_Expr args rets body)) = free_stmtlist body @ [Expr h (Anony_Expr args rets body)]"
| "Free_Expr (Expr h Nil_Expr) = [Expr h Nil_Expr]"
| "Free_Expr (Expr h Self_Expr) = [Expr h Self_Expr]"
| "Free_Expr (Expr h Super_Expr) = [Expr h Super_Expr]"
| "Free_Expr (Expr h (Const_Expr v)) = [Expr h (Const_Expr v)]"
| "Free_Expr (Expr h (Ident_Expr n w)) = [Expr h (Ident_Expr n w)]"
| "free_exprlist [] = []"
| "free_exprlist (e # es) = Free_Expr e @ free_exprlist es"
| "free_optional None = []"
| "free_optional (Some e) = Free_Expr e"
| "free_dims [] = []"
| "free_dims (e # es) = free_optional e @ free_dims es"
| "Free_Stmt_Func (VarDecl_Stmt i t e k) = free_optional e"
| "Free_Stmt_Func (VarListDecl_Stmt is t e k) = Free_Expr e"
| "Free_Stmt_Func (Assign_Stmt a l r) = Free_Expr l @ Free_Expr r"
| "Free_Stmt_Func (AssignList_Stmt ls r) = free_exprlist ls @ Free_Expr r"
| "Free_Stmt_Func (FuncDecl_Stmt i args rets body) = free_stmtlist body"
| "Free_Stmt_Func (ProtoDecl_Stmt native i args rets) = []"
| "Free_Stmt_Func (Expr_Stmt e) = Free_Expr e"
| "Free_Stmt_Func (Return_Stmt p es) = free_exprlist es"
| "Free_Stmt_Func (List_Stmt block vec) = free_stmtlist vec"
| "Free_Stmt_Func (Klass_Stmt i supers body) = []"
| "Free_Stmt_Func (Trait_Stmt i supers body) = []"
| "free_stmtlist [] = []"
| "free_stmtlist (s # ss) = Free_Stmt_Func s @ free_stmtlist ss"

subsection \<open>Errors\<close>

text \<open>
  \<open>Syntax_Error\<close> counts the errors and prints the first eight of them; a message is its position and its
  format.
\<close>

definition MAX_ERRORS :: int where "MAX_ERRORS = 8"

record ErrorLog =
  er_num :: int
  er_shown :: "(Position \<times> string) list"

definition Syntax_Error :: "Position \<Rightarrow> string \<Rightarrow> ErrorLog \<Rightarrow> ErrorLog" where
  "Syntax_Error pos fmt log = (let n = er_num log + 1 in
     if n > MAX_ERRORS then \<lparr>er_num = n, er_shown = er_shown log @ [(pos, ''too many errors'')]\<rparr>
     else \<lparr>er_num = n, er_shown = er_shown log @ [(pos, fmt)]\<rparr>)"

subsection \<open>Declarations and assignments\<close>

definition validate_count :: "nat \<Rightarrow> nat \<Rightarrow> bool" where
  "validate_count lsz rsz = (if lsz < rsz then False else if lsz > rsz \<and> rsz > 1 then False else True)"

text \<open>
  What the grammar calls when it has read the two sides: answers the statement, or \<open>None\<close> after an error,
  and the expressions that were freed.
\<close>

type_synonym made = "ErrorLog \<times> Stmt option \<times> Expr list"

definition Parser_Do_Variables :: "ErrorLog \<Rightarrow> Ident list \<Rightarrow> TypeWrapper \<Rightarrow> Expr list option \<Rightarrow> bool \<Rightarrow> made run" where
  "Parser_Do_Variables log ids type exps konst =
     (let es = (case exps of None \<Rightarrow> [] | Some es \<Rightarrow> es); isz = length ids; esz = length es in
      if \<not> validate_count isz esz then
        Inr (Syntax_Error (exp_pos (hd es)) ''left and right are not matched'' log, None, free_exprlist es)
      else if isz = esz then
        Inr (log, Some (if isz = 1 then Stmt_From_VarDecl (hd ids) type (Some (hd es)) konst
          else Stmt_From_List (map2 (\<lambda>i e. Stmt_From_VarDecl i type (Some e) konst) ids es)), [])
      else if \<not> (isz > esz \<and> esz \<le> 1) then Inl Assert_Failed
      else if esz = 1 then Inr (log, Some (Stmt_From_VarListDecl ids type (hd es) konst), [])
      else if exps \<noteq> None then Inl Assert_Failed
      else Inr (log, Some (if isz = 1 then Stmt_From_VarDecl (hd ids) type None konst
        else Stmt_From_List (map (\<lambda>i. Stmt_From_VarDecl i type None konst) ids)), []))"

definition null_type :: TypeWrapper where "null_type = \<lparr>tw_desc = None, tw_pos = (0, 0)\<rparr>"

text \<open>The identifier an identifier expression is.\<close>

definition ident_of :: "Expr \<Rightarrow> Ident option" where
  "ident_of e = (case exp_node e of Ident_Expr name w \<Rightarrow> Some \<lparr>id_name = name, id_pos = exp_pos e\<rparr> | _ \<Rightarrow> None)"

text \<open>The loop over several left sides: \<open>Inl\<close> the place of the error and the statements made before it.\<close>

fun typeless_list :: "Expr list \<Rightarrow> Expr list \<Rightarrow> Stmt list \<Rightarrow> (Position \<times> Stmt list) + Stmt list" where
  "typeless_list (l # ls) (r # rs) made = (case ident_of l of
     None \<Rightarrow> Inl (exp_pos l, made)
   | Some i \<Rightarrow> typeless_list ls rs (made @ [Stmt_From_VarDecl i null_type (Some r) False]))"
| "typeless_list _ _ made = Inr made"

fun typeless_idents :: "Expr list \<Rightarrow> Ident list \<Rightarrow> Position + Ident list" where
  "typeless_idents (l # ls) made = (case ident_of l of
     None \<Rightarrow> Inl (exp_pos l)
   | Some i \<Rightarrow> typeless_idents ls (made @ [i]))"
| "typeless_idents [] made = Inr made"

definition Parser_Do_Typeless_Variables :: "ErrorLog \<Rightarrow> Expr list \<Rightarrow> Expr list \<Rightarrow> made run" where
  "Parser_Do_Typeless_Variables log ids exps =
     (let isz = length ids; esz = length exps;
          fail = (\<lambda>pos freed. Inr (Syntax_Error pos ''needs an identifier'' log, None, freed @ free_exprlist ids @ free_exprlist exps)) in
      if \<not> validate_count isz esz then
        if ids = [] then Inl Null_Deref
        else Inr (Syntax_Error (exp_pos (hd ids)) ''left and expr are not matched'' log, None, free_exprlist ids @ free_exprlist exps)
      else if isz = esz then
        (if isz = 1 then
           (case ident_of (hd ids) of
              None \<Rightarrow> fail (exp_pos (hd ids)) []
            | Some i \<Rightarrow> Inr (log, Some (Stmt_From_VarDecl i null_type (Some (hd exps)) False), free_exprlist ids))
         else
           (case typeless_list ids exps [] of
              Inl (pos, made) \<Rightarrow> fail pos (Free_Stmt_Func (Stmt_From_List made))
            | Inr made \<Rightarrow> Inr (log, Some (Stmt_From_List made), free_exprlist ids)))
      else if esz \<noteq> 1 then Inl Assert_Failed
      else
        (case typeless_idents ids [] of
           Inl pos \<Rightarrow> fail pos []
         | Inr is \<Rightarrow> Inr (log, Some (Stmt_From_VarListDecl is null_type (hd exps) False), free_exprlist ids)))"

text \<open>\<open>Inl\<close> the place of the first left side that cannot be stored to.\<close>

fun assign_list :: "Expr list \<Rightarrow> Expr list \<Rightarrow> Stmt list \<Rightarrow> Position + Stmt list" where
  "assign_list (l # ls) (r # rs) made =
     (if \<not> Expr_Maybe_Stored l then Inl (exp_pos l) else assign_list ls rs (made @ [Stmt_From_Assign OP_ASSIGN l r]))"
| "assign_list _ _ made = Inr made"

definition Parser_Do_Assignments :: "ErrorLog \<Rightarrow> Expr list \<Rightarrow> Expr list \<Rightarrow> made run" where
  "Parser_Do_Assignments log left right =
     (let lsz = length left; rsz = length right;
          fail = (\<lambda>pos fmt. Inr (Syntax_Error pos fmt log, None, free_exprlist left @ free_exprlist right)) in
      if \<not> validate_count lsz rsz then fail (exp_pos (hd right)) ''left and right are not matched''
      else if lsz = rsz then
        (if lsz = 1 then
           if \<not> Expr_Maybe_Stored (hd left) then fail (exp_pos (hd left)) ''expr is not left expr''
           else Inr (log, Some (Stmt_From_Assign OP_ASSIGN (hd left) (hd right)), [])
         else
           (case assign_list left right [] of
              Inl pos \<Rightarrow> fail pos ''expr is not left expr''
            | Inr made \<Rightarrow> Inr (log, Some (Stmt_From_List made), [])))
      else if rsz \<noteq> 1 then Inl Assert_Failed
      else
        (case find (\<lambda>l. \<not> Expr_Maybe_Stored l) left of
           Some l \<Rightarrow> fail (exp_pos l) ''expr is not left expr''
         | None \<Rightarrow> Inr (log, Some (Stmt_From_AssignList left (hd right)), [])))"

subsection \<open>Every expression has one owner\<close>

definition owned :: "Stmt option \<Rightarrow> Expr list" where
  "owned s = (case s of None \<Rightarrow> [] | Some s \<Rightarrow> Free_Stmt_Func s)"

lemma free_pairs:
  "length ids = length es \<Longrightarrow>
     free_stmtlist (map2 (\<lambda>i e. Stmt_From_VarDecl i type (Some e) konst) ids es) = free_exprlist es"
  by (induction ids es rule: list_induct2) (simp_all add: Stmt_From_VarDecl_def)

lemma free_undefined: "free_stmtlist (map (\<lambda>i. Stmt_From_VarDecl i type None konst) ids) = []"
  by (induction ids) (simp_all add: Stmt_From_VarDecl_def)

lemma assign_list_spec:
  "length left = length right \<Longrightarrow> assign_list left right made =
     (case find (\<lambda>l. \<not> Expr_Maybe_Stored l) left of
        Some l \<Rightarrow> Inl (exp_pos l) | None \<Rightarrow> Inr (made @ map2 (Stmt_From_Assign OP_ASSIGN) left right))"
  by (induction left right arbitrary: made rule: list_induct2) (simp_all split: option.split)

lemma free_assigns:
  "length left = length right \<Longrightarrow>
     mset (free_stmtlist (map2 (Stmt_From_Assign OP_ASSIGN) left right)) = mset (free_exprlist left) + mset (free_exprlist right)"
  by (induction left right rule: list_induct2) (simp_all add: Stmt_From_Assign_def)

lemma validate_count_iff: "validate_count l r \<longleftrightarrow> l = r \<or> (l > r \<and> r \<le> 1)"
  by (auto simp: validate_count_def)

lemma one_elem: "length xs = Suc 0 \<Longrightarrow> xs = [hd xs]"
  by (cases xs) simp_all

text \<open>An error is reported once, and nothing is made; otherwise nothing is reported.\<close>

definition reported :: "ErrorLog \<Rightarrow> ErrorLog \<Rightarrow> Stmt option \<Rightarrow> bool" where
  "reported log log' s = (case s of
     None \<Rightarrow> er_num log' = er_num log + 1 \<and> length (er_shown log') = length (er_shown log) + 1
   | Some _ \<Rightarrow> log' = log)"

lemma reported_error [simp]: "reported log (Syntax_Error pos fmt log) None"
  by (simp add: reported_def Syntax_Error_def Let_def)

lemma reported_made [simp]: "reported log log (Some s)"
  by (simp add: reported_def)

lemma variables_owned:
  assumes "Parser_Do_Variables log ids type exps konst = Inr (log', s, freed)"
  shows "mset freed + mset (owned s) = mset (free_exprlist (case exps of None \<Rightarrow> [] | Some es \<Rightarrow> es))" "reported log log' s"
proof -
  define es where "es = (case exps of None \<Rightarrow> [] | Some es \<Rightarrow> es)"
  have d: "Parser_Do_Variables log ids type exps konst =
     (if \<not> validate_count (length ids) (length es) then
        Inr (Syntax_Error (exp_pos (hd es)) ''left and right are not matched'' log, None, free_exprlist es)
      else if length ids = length es then
        Inr (log, Some (if length ids = 1 then Stmt_From_VarDecl (hd ids) type (Some (hd es)) konst
          else Stmt_From_List (map2 (\<lambda>i e. Stmt_From_VarDecl i type (Some e) konst) ids es)), [])
      else if \<not> (length ids > length es \<and> length es \<le> 1) then Inl Assert_Failed
      else if length es = 1 then Inr (log, Some (Stmt_From_VarListDecl ids type (hd es) konst), [])
      else if exps \<noteq> None then Inl Assert_Failed
      else Inr (log, Some (if length ids = 1 then Stmt_From_VarDecl (hd ids) type None konst
        else Stmt_From_List (map (\<lambda>i. Stmt_From_VarDecl i type None konst) ids)), []))"
    by (simp add: Parser_Do_Variables_def es_def Let_def)
  have one: "free_exprlist es = Free_Expr (hd es)" if "length es = Suc 0"
    using one_elem [OF that] by (cases es) simp_all
  have es_none: "exps = None \<Longrightarrow> es = []" by (simp add: es_def)
  have pairs: "free_exprlist es = free_stmtlist (map2 (\<lambda>i e. Stmt_From_VarDecl i type (Some e) konst) ids es)"
    if "length ids = length es" using free_pairs [OF that] by simp
  show "mset freed + mset (owned s) = mset (free_exprlist (case exps of None \<Rightarrow> [] | Some es \<Rightarrow> es))"
    using assms one pairs free_undefined [of type konst ids] es_none unfolding d es_def [symmetric]
    by (auto simp: owned_def Stmt_From_VarDecl_def Stmt_From_VarListDecl_def Stmt_From_List_def split: if_splits)
  show "reported log log' s" using assms unfolding d by (auto split: if_splits)
qed

text \<open>
  C26: An assignment is made into a statement only if every left side can be stored to, and then nothing is
  reported; otherwise one error is reported. Either way no expression is lost and none is freed twice: what
  is freed now and what freeing the statement frees later are the expressions of both sides.
\<close>

theorem assignments_own_expressions:
  assumes "Parser_Do_Assignments log left right = Inr (log', s, freed)"
  shows "mset freed + mset (owned s) = mset (free_exprlist left) + mset (free_exprlist right) \<and> reported log log' s \<and>
    (s \<noteq> None \<longrightarrow> list_all Expr_Maybe_Stored left)"
proof -
  have none: "find (\<lambda>l. \<not> Expr_Maybe_Stored l) left = None \<longleftrightarrow> list_all Expr_Maybe_Stored left"
    by (auto simp: find_None_iff list_all_iff)
  consider (bad) "\<not> validate_count (length left) (length right)"
    | (one) l r where "left = [l]" "right = [r]"
    | (pairs) "length left = length right" "length left \<noteq> 1"
    | (lists) "validate_count (length left) (length right)" "length left \<noteq> length right"
    by (cases left; cases right; force)
  then show ?thesis
  proof cases
    case bad
    with assms show ?thesis by (auto simp: Parser_Do_Assignments_def Let_def owned_def)
  next
    case one
    with assms show ?thesis
      by (auto simp: Parser_Do_Assignments_def Let_def owned_def validate_count_def Stmt_From_Assign_def split: if_splits)
  next
    case pairs
    with assms none free_assigns [OF pairs(1)] show ?thesis
      by (auto simp: Parser_Do_Assignments_def Let_def owned_def validate_count_def Stmt_From_List_def
          assign_list_spec [OF pairs(1)] split: option.splits)
  next
    case lists
    then have r: "\<not> length right \<noteq> 1 \<Longrightarrow> right = [hd right]" by (simp add: one_elem)
    from lists assms none r show ?thesis
      by (cases right) (auto simp: Parser_Do_Assignments_def Let_def owned_def Stmt_From_AssignList_def split: option.splits if_splits)
  qed
qed

lemma assignments_own_expressions_witness:
  "\<exists>s. Parser_Do_Assignments \<lparr>er_num = 0, er_shown = []\<rparr> [Expr_From_Ident ''a'', Expr_From_Ident ''b'']
      [Expr_From_Ident ''b'', Expr_From_Ident ''a''] = Inr (\<lparr>er_num = 0, er_shown = []\<rparr>, Some s, []) \<and>
    mset (Free_Stmt_Func s) = {#Expr_From_Ident ''a'', Expr_From_Ident ''b'', Expr_From_Ident ''b'', Expr_From_Ident ''a''#}"
proof -
  let ?log = "\<lparr>er_num = 0, er_shown = []\<rparr>"
  let ?a = "Expr_From_Ident ''a''" and ?b = "Expr_From_Ident ''b''"
  let ?s = "List_Stmt False [Assign_Stmt OP_ASSIGN ?a ?b, Assign_Stmt OP_ASSIGN ?b ?a]"
  have r: "Parser_Do_Assignments ?log [?a, ?b] [?b, ?a] = Inr (?log, Some ?s, [])"
    by (simp add: Parser_Do_Assignments_def Let_def validate_count_def Expr_Maybe_Stored_def Expr_From_Ident_def
        Stmt_From_List_def Stmt_From_Assign_def)
  from assignments_own_expressions [OF r] have "mset (Free_Stmt_Func ?s) = {#?a, ?b, ?b, ?a#}"
    by (simp add: owned_def Expr_From_Ident_def)
  with r show ?thesis by blast
qed

text \<open>
  A declaration without types whose second left side is not an identifier frees the right side of the first
  twice: with the statement made for it and with the list of the right sides.
\<close>

lemma typeless_frees_twice:
  "\<exists>log' freed. Parser_Do_Typeless_Variables \<lparr>er_num = 0, er_shown = []\<rparr> [Expr_From_Ident ''a'', Expr_From_Nil]
      [Expr_From_Ident ''x'', Expr_From_Ident ''y''] = Inr (log', None, freed) \<and> count (mset freed) (Expr_From_Ident ''x'') = 2"
  by (simp add: Parser_Do_Typeless_Variables_def Let_def validate_count_def Expr_From_Ident_def Expr_From_Nil_def ident_of_def
      Stmt_From_List_def Stmt_From_VarDecl_def)

end
