(* ===== verification/ParserState.thy ===== *)
theory ParserState
  imports Ast SymbolModule
begin

text \<open>
  The state of the parser (\<^verbatim>\<open>include/parser.h\<close>, the scopes of \<^verbatim>\<open>src/parser.c\<close>, the imports and
  declarations of \<^verbatim>\<open>src/ast.c\<close>, the packages of \<^verbatim>\<open>src/koalac.c\<close>). The symbol table a scope points to is the
  table of the package that is compiled, the table of one of its classes, or a table of its own. A pointer
  to a symbol is the class whose table it is in, if any, and its name. The counts of the uses of symbols are
  not modelled, since the checks for unused symbols are not written. What is printed is not modelled, but the
  buffers of 64 bytes that texts are printed into before are.
\<close>

subsection \<open>Data\<close>

datatype UnitTable = No_Table | Pkg_Table | Class_Table string | Own_Table Module

type_synonym SymRef = "string option \<times> string"

record ParserUnit =
  pu_scope :: ScopeKind
  pu_sym :: "SymRef option"
  pu_stbl :: UnitTable
  pu_block :: "CodeBlock option"

record Import =
  im_id :: "string option"
  im_idpos :: Position
  im_path :: string
  im_pathpos :: Position

record Package =
  pk_pkgname :: "string option"
  pk_stbl :: "Module option"

datatype FileKind = Regular | Directory | Other_File

text \<open>
  What the compiler is given: the options, the file system (\<open>en_files\<close> the bytes of a file, \<open>en_stat\<close>,
  \<open>en_entries\<close> and \<open>en_mtime\<close> what \<open>stat\<close> and \<open>readdir\<close> answer), the fuel for reading the types of an image,
  and of the machine the text of a double, the sum of an integer and a double as an integer, the address of a
  string and what a variable that is not initialised holds.
\<close>

record Env =
  en_srcpath :: "string option"
  en_pathes :: "string list"
  en_stat :: "string \<Rightarrow> FileKind option"
  en_entries :: "string \<Rightarrow> string list"
  en_mtime :: "string \<Rightarrow> int option"
  en_files :: "string \<Rightarrow> uint8 list option"
  en_fuel :: nat
  en_text :: "uint64 \<Rightarrow> string"
  en_fadd :: "uint64 \<Rightarrow> uint64 \<Rightarrow> uint64"
  en_addr :: "string \<Rightarrow> uint64"
  en_junk :: uint64

record ParserState =
  ps_pkgname :: "string option"
  ps_path :: string
  ps_grpname :: "string option"
  ps_module :: Module
  ps_stmts :: "Stmt list"
  ps_symbols :: "(SymRef \<times> Position) list"
  ps_imports :: "Import list"
  ps_extstbl :: Module
  ps_extpkg :: "string \<rightharpoonup> string"
  ps_extdots :: Module
  ps_dotpath :: "string \<rightharpoonup> string"
  ps_u :: "ParserUnit option"
  ps_depth :: int
  ps_ustack :: "ParserUnit list"
  ps_log :: ErrorLog
  ps_types :: DescTable
  ps_packages :: "string \<rightharpoonup> Package"
  ps_groups :: "string list"
  ps_env :: Env

definition New_Parser :: "string \<Rightarrow> string option \<Rightarrow> Module \<Rightarrow> DescTable \<Rightarrow> (string \<rightharpoonup> Package) \<Rightarrow> string list \<Rightarrow> Env \<Rightarrow> ParserState" where
  "New_Parser path grpname stbl types pkgs grps env =
     \<lparr>ps_pkgname = None, ps_path = path, ps_grpname = grpname, ps_module = stbl, ps_stmts = [], ps_symbols = [],
      ps_imports = [], ps_extstbl = STable_New, ps_extpkg = Map.empty, ps_extdots = STable_New, ps_dotpath = Map.empty,
      ps_u = None, ps_depth = 0, ps_ustack = [], ps_log = \<lparr>er_num = 0, er_shown = []\<rparr>, ps_types = types,
      ps_packages = pkgs, ps_groups = grps, ps_env = env\<rparr>"

definition error :: "Position \<Rightarrow> string \<Rightarrow> ParserState \<Rightarrow> ParserState" where
  "error pos fmt ps = ps\<lparr>ps_log := Syntax_Error pos fmt (ps_log ps)\<rparr>"

definition too_many :: "ParserState \<Rightarrow> bool" where
  "too_many ps \<longleftrightarrow> er_num (ps_log ps) > MAX_ERRORS"

definition with_unit :: "ParserState \<Rightarrow> (ParserUnit \<Rightarrow> 'a run) \<Rightarrow> 'a run" where
  "with_unit ps f = (case ps_u ps of None \<Rightarrow> Inl Null_Deref | Some u \<Rightarrow> f u)"

subsection \<open>Tables and symbols\<close>

text \<open>A member of a class as a symbol of a table of the parser.\<close>

definition member_symbol :: "Member \<Rightarrow> unit STable Symbol" where
  "member_symbol m = \<lparr>sym_kind = sym_kind m, sym_name = sym_name m, sym_desc = sym_desc m, sym_refcnt = sym_refcnt m,
     sym_index = sym_index m, sym_locvec = sym_locvec m, sym_code = sym_code m, sym_supers = sym_supers m,
     sym_stbl = None, sym_value = sym_value m\<rparr>"

definition class_table :: "Module \<Rightarrow> string \<Rightarrow> unit STable option" where
  "class_table t cls = (case STable_Get (Some t) cls of None \<Rightarrow> None | Some s \<Rightarrow> sym_stbl s)"

definition table_get :: "Module \<Rightarrow> UnitTable \<Rightarrow> string \<Rightarrow> unit STable Symbol option" where
  "table_get pkg t name = (case t of
     No_Table \<Rightarrow> None
   | Pkg_Table \<Rightarrow> STable_Get (Some pkg) name
   | Class_Table cls \<Rightarrow> map_option member_symbol (STable_Get (class_table pkg cls) name)
   | Own_Table own \<Rightarrow> STable_Get (Some own) name)"

definition unit_get :: "ParserState \<Rightarrow> ParserUnit \<Rightarrow> string \<Rightarrow> unit STable Symbol option" where
  "unit_get ps u name = table_get (ps_module ps) (pu_stbl u) name"

definition ref_get :: "Module \<Rightarrow> SymRef \<Rightarrow> unit STable Symbol option" where
  "ref_get pkg r = (case fst r of None \<Rightarrow> STable_Get (Some pkg) (snd r)
     | Some cls \<Rightarrow> map_option member_symbol (STable_Get (class_table pkg cls) (snd r)))"

definition update_symbol :: "'t STable \<Rightarrow> string \<Rightarrow> ('t Symbol \<Rightarrow> 't Symbol) \<Rightarrow> 't STable" where
  "update_symbol t name f = t\<lparr>st_table := nt_update (st_table t) name f\<rparr>"

definition update_class :: "Module \<Rightarrow> string \<Rightarrow> (unit STable \<Rightarrow> unit STable) \<Rightarrow> Module" where
  "update_class t cls f = update_symbol t cls (\<lambda>s. s\<lparr>sym_stbl := map_option f (sym_stbl s)\<rparr>)"

text \<open>Storing into a symbol; \<open>g\<close> is the same store for the members of a class.\<close>

definition ref_update ::
  "Module \<Rightarrow> SymRef \<Rightarrow> (unit STable Symbol \<Rightarrow> unit STable Symbol) \<Rightarrow> (Member \<Rightarrow> Member) \<Rightarrow> Module" where
  "ref_update pkg r f g = (case fst r of None \<Rightarrow> update_symbol pkg (snd r) f
     | Some cls \<Rightarrow> update_class pkg cls (\<lambda>t. update_symbol t (snd r) g))"

text \<open>
  Adding a symbol to the table of the current scope with \<open>add\<close>, or \<open>addm\<close> for a class: \<open>None\<close> when the
  name is taken.
\<close>

definition unit_add :: "ParserState \<Rightarrow> (Module \<Rightarrow> Module option) \<Rightarrow> (unit STable \<Rightarrow> unit STable option) \<Rightarrow> ParserState option run" where
  "unit_add ps add addm = with_unit ps (\<lambda>u. case pu_stbl u of
     No_Table \<Rightarrow> Inl Null_Deref
   | Pkg_Table \<Rightarrow> Inr (map_option (\<lambda>t. ps\<lparr>ps_module := t\<rparr>) (add (ps_module ps)))
   | Class_Table cls \<Rightarrow> (case class_table (ps_module ps) cls of
       None \<Rightarrow> Inl Null_Deref
     | Some t \<Rightarrow> Inr (map_option (\<lambda>t'. ps\<lparr>ps_module := update_class (ps_module ps) cls (\<lambda>_. t')\<rparr>) (addm t)))
   | Own_Table own \<Rightarrow> Inr (map_option (\<lambda>t. ps\<lparr>ps_u := Some (u\<lparr>pu_stbl := Own_Table t\<rparr>)\<rparr>) (add own)))"

definition unit_update ::
  "ParserState \<Rightarrow> ParserUnit \<Rightarrow> string \<Rightarrow> (unit STable Symbol \<Rightarrow> unit STable Symbol) \<Rightarrow> (Member \<Rightarrow> Member) \<Rightarrow> ParserState" where
  "unit_update ps u name f g = (case pu_stbl u of
     No_Table \<Rightarrow> ps
   | Pkg_Table \<Rightarrow> ps\<lparr>ps_module := ref_update (ps_module ps) (None, name) f g\<rparr>
   | Class_Table cls \<Rightarrow> ps\<lparr>ps_module := ref_update (ps_module ps) (Some cls, name) f g\<rparr>
   | Own_Table own \<Rightarrow> ps\<lparr>ps_u := Some (u\<lparr>pu_stbl := Own_Table (update_symbol own name f)\<rparr>)\<rparr>)"

text \<open>The symbol the name is of in the table of a scope, as a pointer.\<close>

definition unit_ref :: "ParserUnit \<Rightarrow> string \<Rightarrow> SymRef" where
  "unit_ref u name = (case pu_stbl u of Class_Table cls \<Rightarrow> (Some cls, name) | _ \<Rightarrow> (None, name))"

subsection \<open>Printing\<close>

text \<open>A text that is written into \<open>char buf[64]\<close>.\<close>

definition in_64_bytes :: "string \<Rightarrow> unit run" where
  "in_64_bytes s = (if strlen s \<ge> 64 then Inl Out_Of_Bounds else Inr ())"

definition show_type :: "TypeDesc \<Rightarrow> unit run" where
  "show_type desc = in_64_bytes (TypeDesc_ToString desc)"

definition func_show :: "'t Symbol \<Rightarrow> unit run" where
  "func_show s = bind_run (proto_parts (sym_desc s)) (\<lambda>(arg, ret).
     bind_run (in_64_bytes (ProtoVec_ToString arg)) (\<lambda>_.
       if length ret > 0 then in_64_bytes (ProtoVec_ToString ret) else Inr ()))"

definition Show_Symbol :: "'t Symbol \<Rightarrow> unit run" where
  "Show_Symbol s = (case sym_kind s of
     SYM_CONST \<Rightarrow> const_show s
   | SYM_VAR \<Rightarrow> const_show s
   | SYM_FUNC \<Rightarrow> func_show s
   | SYM_CLASS \<Rightarrow> Inr ()
   | SYM_TRAIT \<Rightarrow> Inr ()
   | SYM_IFUNC \<Rightarrow> func_show s
   | SYM_NFUNC \<Rightarrow> func_show s
   | SYM_AFUNC \<Rightarrow> func_show s
   | SYM_PKG \<Rightarrow> Inl Null_Deref
   | SYM_REF \<Rightarrow> Inl Null_Deref)"

fun show_all :: "('s \<Rightarrow> unit run) \<Rightarrow> 's list \<Rightarrow> unit run" where
  "show_all f [] = Inr ()"
| "show_all f (s # ss) = bind_run (f s) (\<lambda>_. show_all f ss)"

definition STable_Show :: "'t STable option \<Rightarrow> unit run" where
  "STable_Show t = show_all Show_Symbol (STable_Visit t)"

definition Const_Show :: "Env \<Rightarrow> ConstValue \<Rightarrow> unit run" where
  "Const_Show env v = (
     if cv_kind v \<in> {NUL, BASE_INT, BASE_BOOL, BASE_CHAR} then Inr ()
     else if cv_kind v = BASE_FLOAT then in_64_bytes (en_text env (cv_raw v))
     else if cv_kind v = BASE_STRING then in_64_bytes (case cv_str v of None \<Rightarrow> ''(null)'' | Some s \<Rightarrow> s)
     else Inl Assert_Failed)"

definition CodeBlock_Show :: "Env \<Rightarrow> CodeBlock option \<Rightarrow> unit run" where
  "CodeBlock_Show env b = (case b of None \<Rightarrow> Inr () | Some b \<Rightarrow> show_all (\<lambda>i. Const_Show env (in_arg i)) (cb_insts b))"

text \<open>The module's symbols are shown at depth 1, the symbols of the scope at any other.\<close>

definition show_parser_unit :: "ParserState \<Rightarrow> unit run" where
  "show_parser_unit ps = with_unit ps (\<lambda>u.
     bind_run (if ps_depth ps = 1 then
         show_all (\<lambda>r. case ref_get (ps_module ps) (fst r) of None \<Rightarrow> Inl Null_Deref | Some s \<Rightarrow> Show_Symbol s) (ps_symbols ps)
       else (case pu_stbl u of
           No_Table \<Rightarrow> Inr ()
         | Pkg_Table \<Rightarrow> STable_Show (Some (ps_module ps))
         | Class_Table cls \<Rightarrow> STable_Show (class_table (ps_module ps) cls)
         | Own_Table own \<Rightarrow> STable_Show (Some own)))
       (\<lambda>_. CodeBlock_Show (ps_env ps) (pu_block u)))"

subsection \<open>Scopes\<close>

definition new_parser_unit :: "ScopeKind \<Rightarrow> ParserUnit" where
  "new_parser_unit scope = \<lparr>pu_scope = scope, pu_sym = None, pu_stbl = No_Table, pu_block = Some CodeBlock_New\<rparr>"

definition Parser_Enter_Scope :: "ParserState \<Rightarrow> ScopeKind \<Rightarrow> ParserState" where
  "Parser_Enter_Scope ps scope =
     ps\<lparr>ps_u := Some (new_parser_unit scope), ps_depth := ps_depth ps + 1,
        ps_ustack := (case ps_u ps of None \<Rightarrow> ps_ustack ps | Some u \<Rightarrow> u # ps_ustack ps)\<rparr>"

definition the_block :: "ParserUnit \<Rightarrow> CodeBlock run" where
  "the_block u = (case pu_block u of None \<Rightarrow> Inl Null_Deref | Some b \<Rightarrow> Inr b)"

definition init_name :: string where "init_name = ''__init__''"

text \<open>\<open>merge_parser_unit\<close>, one function for every kind of scope.\<close>

definition merge_module :: "ParserState \<Rightarrow> ParserUnit \<Rightarrow> ParserState run" where
  "merge_module ps u = (case unit_get ps u init_name of
     Some s \<Rightarrow> Inr (ps\<lparr>ps_u := Some (u\<lparr>pu_block := None, pu_stbl := No_Table\<rparr>)\<rparr>)
   | None \<Rightarrow> (case TypeDesc_Get_Proto [] [] (ps_types ps) of (proto, types) \<Rightarrow>
       bind_run (unit_add (ps\<lparr>ps_types := types\<rparr>) (\<lambda>t. STable_Add_Func t init_name (Some proto))
           (\<lambda>t. STable_Add_Func t init_name (Some proto))) (\<lambda>r. case r of
         None \<Rightarrow> Inl Assert_Failed
       | Some ps1 \<Rightarrow> with_unit ps1 (\<lambda>u1.
           let ps2 = unit_update ps1 u1 init_name (\<lambda>s. s\<lparr>sym_code := pu_block u\<rparr>) (\<lambda>s. s\<lparr>sym_code := pu_block u\<rparr>) in
           Inr (ps2\<lparr>ps_u := Some (u\<lparr>pu_block := None, pu_stbl := No_Table\<rparr>)\<rparr>)))))"

definition merge_class :: "ParserState \<Rightarrow> ParserUnit \<Rightarrow> ParserState run" where
  "merge_class ps u = (case pu_sym u of
     None \<Rightarrow> Inl Assert_Failed
   | Some r \<Rightarrow> (case ref_get (ps_module ps) r of
       None \<Rightarrow> Inl Null_Deref
     | Some s \<Rightarrow>
         if sym_kind s \<noteq> SYM_CLASS \<and> sym_kind s \<noteq> SYM_TRAIT then Inl Assert_Failed
         else if pu_stbl u \<noteq> Class_Table (snd r) then Inl Assert_Failed
         else if pu_block u \<noteq> None then Inl Assert_Failed
         else Inr (ps\<lparr>ps_u := Some (u\<lparr>pu_sym := None, pu_stbl := No_Table\<rparr>)\<rparr>)))"

definition merge_function :: "ParserState \<Rightarrow> ParserUnit \<Rightarrow> ParserState run" where
  "merge_function ps u = (case pu_sym u of
     None \<Rightarrow> Inl Assert_Failed
   | Some r \<Rightarrow> (case ref_get (ps_module ps) r of
       None \<Rightarrow> Inl Null_Deref
     | Some s \<Rightarrow>
         if sym_kind s \<noteq> SYM_FUNC then Inl Assert_Failed
         else bind_run (the_block u) (\<lambda>b.
           bind_run (if cb_ret b = 0 then Inst_Append_NoArg b RETURN else Inr b) (\<lambda>b1.
             Inr (ps\<lparr>ps_module := ref_update (ps_module ps) r (\<lambda>s. s\<lparr>sym_code := Some b1\<rparr>) (\<lambda>s. s\<lparr>sym_code := Some b1\<rparr>),
                     ps_u := Some (u\<lparr>pu_block := None, pu_stbl := No_Table, pu_sym := None\<rparr>)\<rparr>)))))"

definition merge_block :: "ParserState \<Rightarrow> ParserUnit \<Rightarrow> ParserState run" where
  "merge_block ps u = (case ps_ustack ps of
     [] \<Rightarrow> Inl Null_Deref
   | uu # stack \<Rightarrow>
       bind_run (the_block u) (\<lambda>b. bind_run (the_block uu) (\<lambda>bb.
         bind_run (CodeBlock_Merge b bb) (\<lambda>(_, bb1).
           Inr (ps\<lparr>ps_ustack := uu\<lparr>pu_block := Some bb1\<rparr> # stack,
                   ps_u := Some (u\<lparr>pu_block := None, pu_stbl := No_Table\<rparr>)\<rparr>)))))"

definition merge_parser_unit :: "ParserState \<Rightarrow> ParserState run" where
  "merge_parser_unit ps = with_unit ps (\<lambda>u. case pu_scope u of
     SCOPE_MODULE \<Rightarrow> merge_module ps u
   | SCOPE_CLASS \<Rightarrow> merge_class ps u
   | SCOPE_FUNCTION \<Rightarrow> merge_function ps u
   | SCOPE_BLOCK \<Rightarrow> merge_block ps u
   | SCOPE_CLOSURE \<Rightarrow> Inl Assert_Failed)"

definition free_parser_unit :: "ParserUnit \<Rightarrow> unit run" where
  "free_parser_unit u = (if pu_sym u \<noteq> None then Inl Assert_Failed
     else if pu_stbl u \<noteq> No_Table then Inl Assert_Failed
     else if pu_block u \<noteq> None then Inl Assert_Failed
     else Inr ())"

definition Parser_Exit_Scope :: "ParserState \<Rightarrow> ParserState run" where
  "Parser_Exit_Scope ps =
     bind_run (show_parser_unit ps) (\<lambda>_.
     bind_run (merge_parser_unit ps) (\<lambda>ps1.
     bind_run (with_unit ps1 free_parser_unit) (\<lambda>_.
       Inr (ps1\<lparr>ps_u := (case ps_ustack ps1 of [] \<Rightarrow> None | uu # _ \<Rightarrow> Some uu), ps_ustack := tl (ps_ustack ps1),
                ps_depth := ps_depth ps1 - 1\<rparr>))))"

subsection \<open>Packages\<close>

definition New_Package :: "string \<Rightarrow> Package" where
  "New_Package path = \<lparr>pk_pkgname = None, pk_stbl = None\<rparr>"

text \<open>Strings are compared to their terminator.\<close>

definition Find_Package :: "ParserState \<Rightarrow> string \<Rightarrow> Package option" where
  "Find_Package ps path = ps_packages ps (cstr path)"

definition add_package :: "ParserState \<Rightarrow> string \<Rightarrow> Package \<Rightarrow> ParserState run" where
  "add_package ps path pkg = (if ps_packages ps (cstr path) \<noteq> None then Inl Assert_Failed
     else Inr (ps\<lparr>ps_packages := (ps_packages ps)(cstr path \<mapsto> pkg)\<rparr>))"

definition Add_ParserGroup :: "ParserState \<Rightarrow> string \<Rightarrow> ParserState run" where
  "Add_ParserGroup ps pkgpath = (if \<exists>g \<in> set (ps_groups ps). str_eq g pkgpath then Inr ps
     else bind_run (add_package ps pkgpath ((New_Package pkgpath)\<lparr>pk_stbl := Some STable_New\<rparr>)) (\<lambda>ps1.
       Inr (ps1\<lparr>ps_groups := ps_groups ps1 @ [pkgpath]\<rparr>)))"

definition file_exist :: "Env \<Rightarrow> string \<Rightarrow> bool" where "file_exist env path \<longleftrightarrow> en_stat env path = Some Regular"
definition dir_exist :: "Env \<Rightarrow> string \<Rightarrow> bool" where "dir_exist env path \<longleftrightarrow> en_stat env path = Some Directory"

text \<open>The latest time of the files of a directory against the time of a file.\<close>

definition dir_later_file :: "Env \<Rightarrow> string \<Rightarrow> string \<Rightarrow> int" where
  "dir_later_file env dirpath filepath =
     (let mtime = foldl (\<lambda>m name. if name = ''.'' \<or> name = ''..'' then m
          else case en_mtime env (dirpath @ ''/'' @ name) of None \<Rightarrow> m | Some t \<Rightarrow> if m - t < 0 then t else m)
        0 (en_entries env dirpath) in
      case en_mtime env filepath of Some t \<Rightarrow> mtime - t | None \<Rightarrow> 1)"

text \<open>A new package with what \<open>STable_From_Image\<close> stored; its result is not looked at.\<close>

definition load_package :: "ParserState \<Rightarrow> string \<Rightarrow> string \<Rightarrow> ParserState run" where
  "load_package ps path klc =
     bind_run (STable_From_Image (en_fuel (ps_env ps)) (en_files (ps_env ps) klc) (ps_types ps)) (\<lambda>(res, pkgname, stbl).
       add_package ps path ((New_Package path)\<lparr>pk_pkgname := pkgname, pk_stbl := stbl\<rparr>))"

fun load_from_pathes :: "ParserState \<Rightarrow> Ident \<Rightarrow> string list \<Rightarrow> (ParserState \<times> bool) run" where
  "load_from_pathes ps path [] = Inr (error (id_pos path) ''cannot find '%s' package'' ps, False)"
| "load_from_pathes ps path (pre # rest) =
     (let klc = pre @ ''/'' @ id_name path @ ''.klc'' in
      if file_exist (ps_env ps) klc then bind_run (load_package ps (id_name path) klc) (\<lambda>ps1. Inr (ps1, True))
      else load_from_pathes ps path rest)"

definition find_import :: "ParserState \<Rightarrow> Ident \<Rightarrow> (ParserState \<times> bool) run" where
  "find_import ps path =
     (let env = ps_env ps;
          dir = (case en_srcpath env of None \<Rightarrow> id_name path | Some src \<Rightarrow> src @ ''/'' @ id_name path);
          klc = dir @ ''.klc'' in
      if Find_Package ps (id_name path) \<noteq> None then Inr (ps, True)
      else if dir_exist env dir then
        bind_run (if \<not> file_exist env klc \<or> dir_later_file env dir klc > 0 then Add_ParserGroup ps (id_name path)
          else load_package ps (id_name path) klc) (\<lambda>ps1. Inr (ps1, True))
      else load_from_pathes ps path (en_pathes env))"

text \<open>The loop over the imports before it: the error the new one makes, if any.\<close>

fun import_conflict :: "Import list \<Rightarrow> Ident option \<Rightarrow> Ident \<Rightarrow> (Position \<times> string) option" where
  "import_conflict [] ident path = None"
| "import_conflict (i # is) ident path =
     (if str_eq (im_path i) (id_name path) then Some (id_pos path, ''imported duplicately'')
      else case (ident, im_id i) of
        (Some d, Some name) \<Rightarrow>
          if (case cstr (id_name d) of c # _ \<Rightarrow> c \<noteq> CHR ''.'' | [] \<Rightarrow> True) \<and> str_eq name (id_name d)
          then Some (id_pos d, ''redeclared as imported package name'')
          else import_conflict is ident path
      | _ \<Rightarrow> import_conflict is ident path)"

definition new_import :: "Ident option \<Rightarrow> Ident \<Rightarrow> Import" where
  "new_import ident path = \<lparr>im_id = map_option id_name ident, im_idpos = (case ident of None \<Rightarrow> (0, 0) | Some d \<Rightarrow> id_pos d),
     im_path = id_name path, im_pathpos = id_pos path\<rparr>"

definition Parser_New_Import :: "ParserState \<Rightarrow> Ident option \<Rightarrow> Ident \<Rightarrow> ParserState run" where
  "Parser_New_Import ps ident path =
     (if str_eq (id_name path) (ps_path ps) then Inr (error (id_pos path) ''imported self-package'' ps)
      else case import_conflict (ps_imports ps) ident path of
        Some (pos, fmt) \<Rightarrow> Inr (error pos fmt ps)
      | None \<Rightarrow> bind_run (find_import ps path) (\<lambda>(ps1, found).
          Inr (if found then ps1\<lparr>ps_imports := ps_imports ps1 @ [new_import ident path]\<rparr> else ps1)))"

definition Parser_Set_PkgName :: "ParserState \<Rightarrow> Ident \<Rightarrow> ParserState" where
  "Parser_Set_PkgName ps ident =
     (let ps1 = ps\<lparr>ps_pkgname := Some (id_name ident)\<rparr> in
      case ps_grpname ps1 of
        None \<Rightarrow> ps1\<lparr>ps_grpname := Some (id_name ident)\<rparr>
      | Some g \<Rightarrow> if \<not> str_eq g (id_name ident) then error (id_pos ident) ''found different packages'' ps1 else ps1)"

text \<open>\<open>Parse_Imports\<close>: a name that is imported, or all the symbols of a package.\<close>

definition load_dotsym :: "string \<Rightarrow> Position \<Rightarrow> ParserState \<Rightarrow> string \<Rightarrow> ParserState" where
  "load_dotsym path pos ps name =
     (if too_many ps then ps
      else if STable_Get (Some (ps_extstbl ps)) name \<noteq> None then error pos ''redeclared during import'' ps
      else case STable_Add_Reference (ps_extdots ps) name of
        None \<Rightarrow> error pos ''redeclared during import'' ps
      | Some t \<Rightarrow> ps\<lparr>ps_extdots := t, ps_dotpath := (ps_dotpath ps)(cstr name \<mapsto> path)\<rparr>)"

definition import_name :: "string \<Rightarrow> Position \<Rightarrow> ParserState \<Rightarrow> string \<Rightarrow> ParserState" where
  "import_name path pos ps name =
     (if STable_Get (Some (ps_extdots ps)) name \<noteq> None then error pos ''redeclared as imported package name'' ps
      else case STable_Add_Package (ps_extstbl ps) name of
        None \<Rightarrow> error pos ''redeclared as imported package name'' ps
      | Some t \<Rightarrow> ps\<lparr>ps_extstbl := t, ps_extpkg := (ps_extpkg ps)(cstr name \<mapsto> path)\<rparr>)"

definition parse_import :: "ParserState \<Rightarrow> Import \<Rightarrow> ParserState run" where
  "parse_import ps i = (case Find_Package ps (im_path i) of
     None \<Rightarrow> Inl Assert_Failed
   | Some pkg \<Rightarrow> (case (case im_id i of None \<Rightarrow> pk_pkgname pkg | Some d \<Rightarrow> Some d) of
       None \<Rightarrow> Inl Null_Deref
     | Some name \<Rightarrow>
         if (case cstr name of c # _ \<Rightarrow> c \<noteq> CHR ''.'' | [] \<Rightarrow> True) then Inr (import_name (im_path i) (im_pathpos i) ps name)
         else Inr (foldl (load_dotsym (im_path i) (im_pathpos i)) ps (map sym_name (STable_Visit (pk_stbl pkg))))))"

fun parse_import_list :: "ParserState \<Rightarrow> Import list \<Rightarrow> ParserState run" where
  "parse_import_list ps [] = Inr ps"
| "parse_import_list ps (i # is) = bind_run (parse_import ps i) (\<lambda>ps1. parse_import_list ps1 is)"

definition Parse_Imports :: "ParserState \<Rightarrow> ParserState run" where
  "Parse_Imports ps = parse_import_list ps (ps_imports ps)"

definition CheckConflictWithExternal :: "ParserState \<Rightarrow> ParserState" where
  "CheckConflictWithExternal ps =
     foldl (\<lambda>ps (r, pos). if STable_Get (Some (ps_extstbl ps)) (snd r) \<noteq> None then error pos ''redeclared'' ps else ps) ps
       (ps_symbols ps)"

subsection \<open>Declarations\<close>

text \<open>What the declarations share: a symbol is added to the current table and to the symbols of the module.\<close>

definition declare_symbol ::
  "ParserState \<Rightarrow> Ident \<Rightarrow> (Module \<Rightarrow> Module option) \<Rightarrow> (unit STable \<Rightarrow> unit STable option) \<Rightarrow> ParserState run" where
  "declare_symbol ps ident add addm = with_unit ps (\<lambda>u.
     bind_run (unit_add ps add addm) (\<lambda>r. case r of
       Some ps1 \<Rightarrow> Inr (ps1\<lparr>ps_symbols := ps_symbols ps1 @ [(unit_ref u (id_name ident), id_pos ident)]\<rparr>)
     | None \<Rightarrow> Inr (error (id_pos ident) ''redeclared'' ps)))"

definition new_var :: "ParserState \<Rightarrow> Ident \<Rightarrow> TypeDesc option \<Rightarrow> bool \<Rightarrow> ParserState run" where
  "new_var ps ident desc konst =
     (if konst then declare_symbol ps ident (\<lambda>t. STable_Add_Const t (id_name ident) desc) (\<lambda>t. STable_Add_Const t (id_name ident) desc)
      else declare_symbol ps ident (\<lambda>t. STable_Add_Var t (id_name ident) desc) (\<lambda>t. STable_Add_Var t (id_name ident) desc))"

fun new_vars :: "ParserState \<Rightarrow> Ident list \<Rightarrow> TypeDesc option \<Rightarrow> bool \<Rightarrow> ParserState run" where
  "new_vars ps [] desc konst = Inr ps"
| "new_vars ps (i # is) desc konst = bind_run (new_var ps i desc konst) (\<lambda>ps1. new_vars ps1 is desc konst)"

definition add_stmt :: "ParserState \<Rightarrow> Stmt \<Rightarrow> ParserState" where
  "add_stmt ps stmt = ps\<lparr>ps_stmts := ps_stmts ps @ [stmt]\<rparr>"

fun new_var_stmts :: "ParserState \<Rightarrow> Stmt list \<Rightarrow> ParserState run" where
  "new_var_stmts ps [] = Inr ps"
| "new_var_stmts ps (VarDecl_Stmt ident type exp konst # ss) =
     bind_run (new_var (add_stmt ps (VarDecl_Stmt ident type exp konst)) ident (tw_desc type) konst) (\<lambda>ps1. new_var_stmts ps1 ss)"
| "new_var_stmts ps (_ # ss) = Inl Assert_Failed"

definition Parser_New_Variables :: "ParserState \<Rightarrow> Stmt option \<Rightarrow> ParserState run" where
  "Parser_New_Variables ps stmt = (case stmt of
     None \<Rightarrow> Inr ps
   | Some (VarDecl_Stmt ident type exp konst) \<Rightarrow>
       new_var (add_stmt ps (VarDecl_Stmt ident type exp konst)) ident (tw_desc type) konst
   | Some (List_Stmt block vec) \<Rightarrow> new_var_stmts ps vec
   | Some (VarListDecl_Stmt ids type exp konst) \<Rightarrow>
       new_vars (add_stmt ps (VarListDecl_Stmt ids type exp konst)) ids (tw_desc type) konst
   | _ \<Rightarrow> Inl Assert_Failed)"

definition get_proto :: "ParserState \<Rightarrow> IdType list \<Rightarrow> IdType list \<Rightarrow> (TypeDesc \<times> ParserState) run" where
  "get_proto ps args rets =
     (if \<exists>it \<in> set (args @ rets). tw_desc (it_type it) = None then Inl Null_Deref
      else case TypeDesc_Get_Proto (map (the \<circ> tw_desc \<circ> it_type) args) (map (the \<circ> tw_desc \<circ> it_type) rets) (ps_types ps) of
        (proto, types) \<Rightarrow> Inr (proto, ps\<lparr>ps_types := types\<rparr>))"

text \<open>\<open>__parse_funcdecl\<close>: the kinds of functions differ in the symbol that is added.\<close>

definition declare_func :: "ParserState \<Rightarrow> SymKind \<Rightarrow> Ident \<Rightarrow> IdType list \<Rightarrow> IdType list \<Rightarrow> ParserState run" where
  "declare_func ps kind ident args rets =
     bind_run (get_proto ps args rets) (\<lambda>(proto, ps1).
       case kind of
         SYM_NFUNC \<Rightarrow> declare_symbol ps1 ident (\<lambda>t. STable_Add_NFunc t (id_name ident) (Some proto)) (\<lambda>t. STable_Add_NFunc t (id_name ident) (Some proto))
       | SYM_IFUNC \<Rightarrow> declare_symbol ps1 ident (\<lambda>t. STable_Add_IFunc t (id_name ident) (Some proto)) (\<lambda>t. STable_Add_IFunc t (id_name ident) (Some proto))
       | _ \<Rightarrow> declare_symbol ps1 ident (\<lambda>t. STable_Add_Func t (id_name ident) (Some proto)) (\<lambda>t. STable_Add_Func t (id_name ident) (Some proto)))"

definition parse_funcdecl :: "ParserState \<Rightarrow> Stmt \<Rightarrow> ParserState run" where
  "parse_funcdecl ps stmt = (case stmt of
     ProtoDecl_Stmt native ident args rets \<Rightarrow> declare_func ps (if native then SYM_NFUNC else SYM_IFUNC) ident args rets
   | FuncDecl_Stmt ident args rets body \<Rightarrow> declare_func ps SYM_FUNC ident args rets
   | _ \<Rightarrow> Inl Assert_Failed)"

definition Parser_New_Function :: "ParserState \<Rightarrow> Stmt option \<Rightarrow> ParserState run" where
  "Parser_New_Function ps stmt = (case stmt of None \<Rightarrow> Inr ps | Some s \<Rightarrow> parse_funcdecl (add_stmt ps s) s)"

text \<open>The members of a class: the fields and the functions; the prototypes are passed over.\<close>

fun declare_members :: "ParserState \<Rightarrow> Stmt list \<Rightarrow> ParserState run" where
  "declare_members ps [] = Inr ps"
| "declare_members ps (s # ss) = bind_run (case s of
     VarDecl_Stmt ident type exp konst \<Rightarrow> if konst then Inl Assert_Failed else new_var ps ident (tw_desc type) False
   | FuncDecl_Stmt ident args rets body \<Rightarrow> parse_funcdecl ps s
   | _ \<Rightarrow> Inr ps) (\<lambda>ps1. declare_members ps1 ss)"

definition declare_class :: "ParserState \<Rightarrow> Stmt \<Rightarrow> Ident \<Rightarrow> Stmt list \<Rightarrow> (Module \<Rightarrow> Module option) \<Rightarrow> ParserState run" where
  "declare_class ps stmt ident body add = with_unit ps (\<lambda>u.
     bind_run (unit_add (add_stmt ps stmt) add (\<lambda>_. None)) (\<lambda>r. case r of
       None \<Rightarrow> Inl Null_Deref
     | Some ps1 \<Rightarrow>
         let ps2 = Parser_Enter_Scope (ps1\<lparr>ps_symbols := ps_symbols ps1 @ [(unit_ref u (id_name ident), id_pos ident)]\<rparr>) SCOPE_CLASS in
         with_unit ps2 (\<lambda>uu.
           bind_run (declare_members (ps2\<lparr>ps_u := Some (uu\<lparr>pu_sym := Some (None, id_name ident), pu_stbl := Class_Table (id_name ident)\<rparr>)\<rparr>) body)
             Parser_Exit_Scope)))"

definition Parser_New_ClassOrTrait :: "ParserState \<Rightarrow> Stmt option \<Rightarrow> ParserState run" where
  "Parser_New_ClassOrTrait ps stmt = (case stmt of
     None \<Rightarrow> Inr ps
   | Some (Klass_Stmt ident supers body) \<Rightarrow> declare_class ps (Klass_Stmt ident supers body) ident body (\<lambda>t. STable_Add_Class t (id_name ident))
   | Some (Trait_Stmt ident supers body) \<Rightarrow> declare_class ps (Trait_Stmt ident supers body) ident body (\<lambda>t. STable_Add_Trait t (id_name ident))
   | _ \<Rightarrow> Inl Assert_Failed)"

definition Parser_New_KlassType :: "ParserState \<Rightarrow> Ident option \<Rightarrow> Ident \<Rightarrow> (TypeDesc option \<times> ParserState) run" where
  "Parser_New_KlassType ps ident klazz =
     (let klass = (case TypeDesc_Get_Klass None (id_name klazz) (ps_types ps) of (d, types) \<Rightarrow> Inr (Some d, ps\<lparr>ps_types := types\<rparr>)) in
      case ident of
        None \<Rightarrow> klass
      | Some d \<Rightarrow> (case STable_Get (Some (ps_extstbl ps)) (id_name d) of
          None \<Rightarrow> Inr (None, error (id_pos d) ''undefined'' ps)
        | Some s \<Rightarrow> if sym_kind s \<noteq> SYM_PKG then Inl Assert_Failed else klass))"

subsection \<open>Storing into symbols\<close>

lemma find_map_snd:
  "(\<And>p. fst (g p) = fst p) \<Longrightarrow> find (\<lambda>p. P (fst p)) (map g ps) = map_option g (find (\<lambda>p. P (fst p)) ps)"
  by (induction ps) auto

lemma update_symbol_get:
  assumes "stable_ok t" "\<And>s. sym_name (f s) = sym_name s"
  shows "stable_ok (update_symbol t n f)" "st_varindex (update_symbol t n f) = st_varindex t"
    "STable_Get (Some (update_symbol t n f)) m =
      (if str_eq n m then map_option f (STable_Get (Some t) m) else STable_Get (Some t) m)"
proof -
  have ok: "nt_ok (st_table t)" using assms(1) by (simp add: stable_ok_def)
  note u = nt_update_members [OF ok, of n f]
  show "stable_ok (update_symbol t n f)"
    using assms u by (auto simp: stable_ok_def update_symbol_def split: if_splits)
  show "st_varindex (update_symbol t n f) = st_varindex t" by (simp add: update_symbol_def)
  let ?g = "\<lambda>p. if str_eq (fst p) n then (fst p, f (snd p)) else p"
  have "find (\<lambda>p. str_eq (fst p) m) (map ?g (nt_members (st_table t))) = map_option ?g (find (\<lambda>p. str_eq (fst p) m) (nt_members (st_table t)))"
    by (rule find_map_snd) simp
  moreover have "str_eq (fst p) n \<longleftrightarrow> str_eq n m" if "find (\<lambda>p. str_eq (fst p) m) (nt_members (st_table t)) = Some p" for p
    using that by (auto simp: find_Some_iff str_eq_def)
  ultimately show "STable_Get (Some (update_symbol t n f)) m =
      (if str_eq n m then map_option f (STable_Get (Some t) m) else STable_Get (Some t) m)"
    by (cases "find (\<lambda>p. str_eq (fst p) m) (nt_members (st_table t))")
      (auto simp: STable_Get_def update_symbol_def nt.get_members [OF u(1)] nt.get_members [OF ok] u(2))
qed

subsection \<open>Imported names\<close>

lemma insert_symbol_get:
  assumes "stable_ok t" "insert_symbol t s = Some t'"
  shows "stable_ok t'" "STable_Get (Some t) (sym_name s) = None"
    "STable_Get (Some t') n = (if str_eq (sym_name s) n then Some s else STable_Get (Some t) n)"
proof -
  show "stable_ok t'" by (rule insert_symbol_ok [OF assms])
  obtain u where u: "nt_add (st_table t) (sym_name s) s = Some u" "t' = t\<lparr>st_table := u\<rparr>"
    using assms(2) by (auto simp: insert_symbol_def split: option.splits)
  have "nt_ok (st_table t)" using assms(1) by (simp add: stable_ok_def)
  from nt.get_add [OF this u(1)] u(2)
  show "STable_Get (Some t) (sym_name s) = None"
    "STable_Get (Some t') n = (if str_eq (sym_name s) n then Some s else STable_Get (Some t) n)"
    by (simp_all add: STable_Get_def)
qed

lemma insert_symbol_None:
  assumes "stable_ok t"
  shows "insert_symbol t s = None \<longleftrightarrow> STable_Get (Some t) (sym_name s) \<noteq> None"
proof -
  have "nt_ok (st_table t)" using assms by (simp add: stable_ok_def)
  from nt.add_cases [OF this, of "sym_name s" s] show ?thesis
    by (auto simp: insert_symbol_def STable_Get_def)
qed

lemma STable_Get_New [simp]: "STable_Get (Some STable_New) n = None"
proof -
  have "nt_ok (st_table STable_New)" by (simp add: STable_New_def)
  then show ?thesis by (simp add: STable_Get_def STable_New_def nt.get_members)
qed

lemma Symbol_New_fields [simp]: "sym_name (Symbol_New k n) = n" "sym_kind (Symbol_New k n) = k"
  by (simp_all add: Symbol_New_def)

text \<open>
  The names imported and the symbols imported differ, and the package of each is known.
\<close>

definition imports_ok :: "ParserState \<Rightarrow> bool" where
  "imports_ok ps \<longleftrightarrow> stable_ok (ps_extstbl ps) \<and> stable_ok (ps_extdots ps) \<and>
     (\<forall>n s. STable_Get (Some (ps_extstbl ps)) n = Some s \<longrightarrow>
        sym_kind s = SYM_PKG \<and> ps_extpkg ps (cstr n) \<noteq> None \<and> STable_Get (Some (ps_extdots ps)) n = None) \<and>
     (\<forall>n s. STable_Get (Some (ps_extdots ps)) n = Some s \<longrightarrow> sym_kind s = SYM_REF \<and> ps_dotpath ps (cstr n) \<noteq> None)"

lemma imports_ok_New [simp]: "imports_ok (New_Parser path g stbl types pkgs grps env)"
  by (simp add: imports_ok_def New_Parser_def stable_ok_New)

lemma imports_ok_error [simp]: "imports_ok (error pos fmt ps) = imports_ok ps"
  by (simp add: imports_ok_def error_def)

lemma stable_get_cong: "stable_ok t \<Longrightarrow> str_eq m n \<Longrightarrow> STable_Get (Some t) m = STable_Get (Some t) n"
  by (simp add: STable_Get_def stable_ok_def nt.get_members str_eq_def)

lemma import_name_ok:
  assumes "imports_ok ps"
  shows "imports_ok (import_name path pos ps name)"
proof (cases "STable_Get (Some (ps_extdots ps)) name = None \<and> STable_Add_Package (ps_extstbl ps) name \<noteq> None")
  case False
  then show ?thesis using assms by (auto simp: import_name_def split: option.split)
next
  case True
  then obtain t where t: "insert_symbol (ps_extstbl ps) (Symbol_New SYM_PKG name) = Some t"
    by (auto simp: STable_Add_Package_def)
  have ok: "stable_ok (ps_extstbl ps)" "stable_ok (ps_extdots ps)" using assms by (simp_all add: imports_ok_def)
  note get = insert_symbol_get [OF ok(1) t, simplified]
  have dots: "STable_Get (Some (ps_extdots ps)) n = None" if "str_eq name n" for n
    using True stable_get_cong [OF ok(2) that] by simp
  have r: "import_name path pos ps name = ps\<lparr>ps_extstbl := t, ps_extpkg := (ps_extpkg ps)(cstr name \<mapsto> path)\<rparr>"
    using True t by (simp add: import_name_def STable_Add_Package_def)
  show ?thesis unfolding r using assms get dots
    by (auto simp: imports_ok_def str_eq_def split: if_splits)
qed

lemma load_dotsym_ok:
  assumes "imports_ok ps"
  shows "imports_ok (load_dotsym path pos ps name)"
proof (cases "too_many ps \<or> STable_Get (Some (ps_extstbl ps)) name \<noteq> None \<or> STable_Add_Reference (ps_extdots ps) name = None")
  case True
  then show ?thesis using assms by (auto simp: load_dotsym_def split: option.split)
next
  case False
  then obtain t where t: "insert_symbol (ps_extdots ps) (Symbol_New SYM_REF name) = Some t"
    by (auto simp: STable_Add_Reference_def)
  have ok: "stable_ok (ps_extstbl ps)" "stable_ok (ps_extdots ps)" using assms by (simp_all add: imports_ok_def)
  note get = insert_symbol_get [OF ok(2) t, simplified]
  have ext: "STable_Get (Some (ps_extstbl ps)) n = None" if "str_eq name n" for n
    using False stable_get_cong [OF ok(1) that] by simp
  have r: "load_dotsym path pos ps name = ps\<lparr>ps_extdots := t, ps_dotpath := (ps_dotpath ps)(cstr name \<mapsto> path)\<rparr>"
    using False t by (simp add: load_dotsym_def STable_Add_Reference_def)
  have "ps_dotpath ps (cstr n) \<noteq> None" if "STable_Get (Some (ps_extdots ps)) n \<noteq> None" for n
    using that assms by (auto simp: imports_ok_def)
  then show ?thesis unfolding r using assms get ext
    by (auto simp: imports_ok_def str_eq_def split: if_splits)
qed

lemma load_dotsyms_ok: "imports_ok ps \<Longrightarrow> imports_ok (foldl (load_dotsym path pos) ps ns)"
  by (induction ns arbitrary: ps) (simp_all add: load_dotsym_ok)

lemma parse_import_ok:
  "parse_import ps i = Inr ps' \<Longrightarrow> imports_ok ps \<Longrightarrow> imports_ok ps'"
  by (auto simp: parse_import_def load_dotsyms_ok import_name_ok split: option.splits if_splits)

lemma parse_import_list_ok:
  "parse_import_list ps is = Inr ps' \<Longrightarrow> imports_ok ps \<Longrightarrow> imports_ok ps'"
proof (induction "is" arbitrary: ps)
  case (Cons i "is")
  then obtain ps1 where "parse_import ps i = Inr ps1" "parse_import_list ps1 is = Inr ps'"
    by (auto simp: bind_run_def split: sum.splits)
  with Cons parse_import_ok show ?case by blast
qed simp

text \<open>
  C27: The imports of a module keep the tables of imported names consistent: no name is both the name of an
  imported package and a symbol imported with a dot, every imported name is a package and every symbol
  imported with a dot a reference, and the package of each is known.
\<close>

theorem imports_never_clash:
  assumes "Parse_Imports ps = Inr ps'" "imports_ok ps"
  shows "imports_ok ps' \<and> (STable_Get (Some (ps_extstbl ps')) n = None \<or> STable_Get (Some (ps_extdots ps')) n = None)"
proof -
  have ok: "imports_ok ps'" using assms parse_import_list_ok unfolding Parse_Imports_def by blast
  then show ?thesis by (cases "STable_Get (Some (ps_extstbl ps')) n") (auto simp: imports_ok_def)
qed

lemma imports_never_clash_witness:
  "\<exists>ps'. Parse_Imports ((New_Parser ''app'' None STable_New Map.empty
        [''io'' \<mapsto> \<lparr>pk_pkgname = Some ''io'', pk_stbl = Some STable_New\<rparr>] [''app''] undefined)
      \<lparr>ps_imports := [new_import None \<lparr>id_name = ''io'', id_pos = (1, 8)\<rparr>]\<rparr>) = Inr ps' \<and>
    imports_ok ps' \<and> STable_Get (Some (ps_extdots ps')) ''io'' = None"
proof -
  let ?ps = "(New_Parser ''app'' None STable_New Map.empty
        [''io'' \<mapsto> \<lparr>pk_pkgname = Some ''io'', pk_stbl = Some STable_New\<rparr>] [''app''] undefined)
      \<lparr>ps_imports := [new_import None \<lparr>id_name = ''io'', id_pos = (1, 8)\<rparr>]\<rparr>"
  let ?r = "import_name ''io'' (1, 8) ?ps ''io''"
  have c: "cstr ''io'' = ''io''" by (simp add: cstr_def)
  have r: "Parse_Imports ?ps = Inr ?r"
    by (simp add: Parse_Imports_def parse_import_def Find_Package_def New_Parser_def new_import_def c)
  have ok: "imports_ok ?ps" by (simp add: imports_ok_def New_Parser_def stable_ok_New)
  have "STable_Get (Some (ps_extdots ?r)) ''io'' = None"
    by (simp add: import_name_def New_Parser_def error_def split: option.split)
  with r imports_never_clash [OF r ok, of "''io''"] show ?thesis by blast
qed

subsection \<open>Scopes\<close>

text \<open>What an operation on the table of the current scope leaves as it is.\<close>

definition table_kind :: "UnitTable \<Rightarrow> UnitTable" where
  "table_kind t = (case t of Own_Table own \<Rightarrow> Own_Table STable_New | _ \<Rightarrow> t)"

definition unit_frame :: "ParserUnit \<Rightarrow> ScopeKind \<times> SymRef option \<times> UnitTable \<times> bool" where
  "unit_frame u = (pu_scope u, pu_sym u, table_kind (pu_stbl u), pu_block u \<noteq> None)"

definition same_scopes :: "ParserState \<Rightarrow> ParserState \<Rightarrow> bool" where
  "same_scopes ps ps' \<longleftrightarrow> ps_ustack ps' = ps_ustack ps \<and> ps_depth ps' = ps_depth ps \<and>
     map_option unit_frame (ps_u ps') = map_option unit_frame (ps_u ps)"

definition same_code :: "ParserState \<Rightarrow> ParserState \<Rightarrow> bool" where
  "same_code ps ps' \<longleftrightarrow> map_option pu_block (ps_u ps') = map_option pu_block (ps_u ps)"

lemma same_scopes_refl [simp]: "same_scopes ps ps"
  by (simp add: same_scopes_def)

lemma same_scopes_trans: "same_scopes a b \<Longrightarrow> same_scopes b c \<Longrightarrow> same_scopes a c"
  by (simp add: same_scopes_def)

lemma same_code_refl [simp]: "same_code ps ps" by (simp add: same_code_def)
lemma same_code_trans: "same_code a b \<Longrightarrow> same_code b c \<Longrightarrow> same_code a c" by (simp add: same_code_def)

lemma with_unit_Inr: "with_unit ps f = Inr r \<longleftrightarrow> (\<exists>u. ps_u ps = Some u \<and> f u = Inr r)"
  by (simp add: with_unit_def split: option.split)

lemma unit_add_frame:
  assumes "unit_add ps add addm = Inr (Some ps')"
  shows "same_scopes ps ps' \<and> same_code ps ps' \<and> ps_log ps' = ps_log ps"
proof -
  from assms obtain u where u: "ps_u ps = Some u" by (auto simp: unit_add_def with_unit_Inr)
  show ?thesis
  proof (cases "pu_stbl u")
    case (Class_Table cls)
    with u assms show ?thesis
      by (cases "class_table (ps_module ps) cls") (auto simp: unit_add_def with_unit_def same_scopes_def same_code_def)
  qed (use u assms in \<open>auto simp: unit_add_def with_unit_def same_scopes_def same_code_def unit_frame_def table_kind_def\<close>)
qed

lemma declare_symbol_frame:
  "declare_symbol ps i add addm = Inr ps' \<Longrightarrow> same_scopes ps ps' \<and> same_code ps ps'"
  using unit_add_frame [of ps add addm]
  by (auto simp: declare_symbol_def with_unit_Inr bind_run_eq_Inr_iff error_def same_scopes_def same_code_def split: option.splits)

lemma new_var_frame: "new_var ps i desc k = Inr ps' \<Longrightarrow> same_scopes ps ps' \<and> same_code ps ps'"
  using declare_symbol_frame by (auto simp: new_var_def split: if_splits)

lemma get_proto_frame: "get_proto ps args rets = Inr (d, ps') \<Longrightarrow> same_scopes ps ps' \<and> same_code ps ps'"
  by (auto simp: get_proto_def same_scopes_def same_code_def split: if_splits prod.splits option.splits)

lemma declare_func_frame: "declare_func ps k i args rets = Inr ps' \<Longrightarrow> same_scopes ps ps' \<and> same_code ps ps'"
proof -
  assume "declare_func ps k i args rets = Inr ps'"
  then obtain d ps1 where 1: "get_proto ps args rets = Inr (d, ps1)" and
    "\<exists>add addm. declare_symbol ps1 i add addm = Inr ps'"
    by (cases k) (auto simp: declare_func_def bind_run_eq_Inr_iff)
  with get_proto_frame [OF 1] declare_symbol_frame show ?thesis
    using same_scopes_trans same_code_trans by metis
qed

lemma parse_funcdecl_frame: "parse_funcdecl ps s = Inr ps' \<Longrightarrow> same_scopes ps ps' \<and> same_code ps ps'"
  using declare_func_frame by (auto simp: parse_funcdecl_def split: Stmt.splits)

lemma declare_members_frame: "declare_members ps body = Inr ps' \<Longrightarrow> same_scopes ps ps' \<and> same_code ps ps'"
proof (induction body arbitrary: ps)
  case (Cons s ss)
  then obtain ps1 where 1: "declare_members ps1 ss = Inr ps'" and
    "(\<exists>i d. new_var ps i d False = Inr ps1) \<or> parse_funcdecl ps s = Inr ps1 \<or> ps1 = ps"
    by (auto simp: bind_run_eq_Inr_iff split: Stmt.splits if_splits)
  then have "same_scopes ps ps1 \<and> same_code ps ps1" using new_var_frame parse_funcdecl_frame by auto
  with Cons.IH [OF 1] show ?case using same_scopes_trans same_code_trans by blast
qed simp

text \<open>
  The scope of a class always has a block of code, and leaving it asserts that it has none: a class or a
  trait cannot be declared.
\<close>

lemma class_scope_never_left:
  assumes "ps_u ps = Some u" "pu_scope u = SCOPE_CLASS" "pu_block u \<noteq> None"
  shows "Parser_Exit_Scope ps \<noteq> Inr ps'"
  using assms by (auto simp: Parser_Exit_Scope_def merge_parser_unit_def merge_class_def bind_run_eq_Inr_iff with_unit_Inr split: option.splits if_splits)

lemma class_declaration_aborts:
  shows "Parser_New_ClassOrTrait ps (Some (Klass_Stmt i supers body)) \<noteq> Inr ps'"
    and "Parser_New_ClassOrTrait ps (Some (Trait_Stmt i supers body)) \<noteq> Inr ps'"
proof -
  have never: "declare_class ps stmt i body add \<noteq> Inr ps'" for stmt add
  proof
    assume "declare_class ps stmt i body add = Inr ps'"
    then obtain u r where r: "unit_add (add_stmt ps stmt) add (\<lambda>_. None) = Inr r" and
      c: "(case r of None \<Rightarrow> Inl Null_Deref | Some ps1 \<Rightarrow>
         let ps2 = Parser_Enter_Scope (ps1\<lparr>ps_symbols := ps_symbols ps1 @ [(unit_ref u (id_name i), id_pos i)]\<rparr>) SCOPE_CLASS in
         with_unit ps2 (\<lambda>uu.
           bind_run (declare_members (ps2\<lparr>ps_u := Some (uu\<lparr>pu_sym := Some (None, id_name i), pu_stbl := Class_Table (id_name i)\<rparr>)\<rparr>) body)
             Parser_Exit_Scope)) = Inr ps'"
      unfolding declare_class_def with_unit_Inr bind_run_eq_Inr_iff by blast
    then obtain ps1 where ps1: "r = Some ps1" by (cases r) auto
    define ps2 where "ps2 = Parser_Enter_Scope (ps1\<lparr>ps_symbols := ps_symbols ps1 @ [(unit_ref u (id_name i), id_pos i)]\<rparr>) SCOPE_CLASS"
    let ?uu = "new_parser_unit SCOPE_CLASS"
    have "ps_u ps2 = Some ?uu" by (simp add: ps2_def Parser_Enter_Scope_def)
    then obtain ps3
      where m: "declare_members (ps2\<lparr>ps_u := Some (?uu\<lparr>pu_sym := Some (None, id_name i), pu_stbl := Class_Table (id_name i)\<rparr>)\<rparr>) body = Inr ps3"
        and e: "Parser_Exit_Scope ps3 = Inr ps'"
      using c ps1 by (auto simp: Let_def with_unit_Inr bind_run_eq_Inr_iff ps2_def [symmetric])
    have u: "pu_scope ?uu = SCOPE_CLASS" "pu_block ?uu \<noteq> None" by (simp_all add: new_parser_unit_def)
    from declare_members_frame [OF m] u obtain u3 where "ps_u ps3 = Some u3" "pu_scope u3 = SCOPE_CLASS" "pu_block u3 \<noteq> None"
      by (auto simp: same_scopes_def same_code_def unit_frame_def)
    from class_scope_never_left [OF this] e show False by blast
  qed
  then show "Parser_New_ClassOrTrait ps (Some (Klass_Stmt i supers body)) \<noteq> Inr ps'"
    "Parser_New_ClassOrTrait ps (Some (Trait_Stmt i supers body)) \<noteq> Inr ps'"
    by (simp_all add: Parser_New_ClassOrTrait_def)
qed

end
