(* ===== verification/ParserExpr.thy ===== *)
theory ParserExpr
  imports ParserState StringEx
begin

text \<open>
  The semantic analysis of expressions and the code generated for them (\<^verbatim>\<open>src/parser.c\<close>,
  \<^verbatim>\<open>src/parser_ident.c\<close>, \<^verbatim>\<open>src/parser_operator.c\<close>): the resolution of names, the check of the arguments of
  calls, and the folding of constants. Expressions are answered with what was stored into them. The symbol
  an expression points to is a copy of it taken when the expression is parsed. An overflow of a signed
  addition wraps around, as the compiled code does.
\<close>

subsection \<open>Identifiers\<close>

text \<open>\<open>idExp->where\<close>, \<open>->sym\<close> and \<open>->desc\<close>.\<close>

definition resolved :: "Expr \<Rightarrow> Where \<Rightarrow> unit STable Symbol \<Rightarrow> Expr" where
  "resolved e w s = (case exp_node e of
     Ident_Expr name w0 \<Rightarrow> Expr ((exp_head e)\<lparr>eh_sym := Some s, eh_desc := sym_desc s\<rparr>) (Ident_Expr name w)
   | _ \<Rightarrow> e)"

fun find_up :: "ParserState \<Rightarrow> ParserUnit list \<Rightarrow> string \<Rightarrow> (ScopeKind \<times> unit STable Symbol) option" where
  "find_up ps [] name = None"
| "find_up ps (uu # us) name = (case unit_get ps uu name of
     Some s \<Rightarrow> Some (pu_scope uu, s)
   | None \<Rightarrow> find_up ps us name)"

text \<open>The symbol a reference refers to.\<close>

definition ref_target :: "ParserState \<Rightarrow> string \<Rightarrow> unit STable Symbol run" where
  "ref_target ps name = (case ps_dotpath ps (cstr name) of
     None \<Rightarrow> Inl Null_Deref
   | Some path \<Rightarrow> (case Find_Package ps path of
       None \<Rightarrow> Inl Null_Deref
     | Some pkg \<Rightarrow> (case STable_Get (pk_stbl pkg) name of None \<Rightarrow> Inl Null_Deref | Some s \<Rightarrow> Inr s)))"

definition Parse_Ident_Expr :: "ParserState \<Rightarrow> Expr \<Rightarrow> string \<Rightarrow> (ParserState \<times> Expr) run" where
  "Parse_Ident_Expr ps e name =
     (if exp_sym e \<noteq> None \<or> exp_desc e \<noteq> None then Inl Assert_Failed
      else with_unit ps (\<lambda>u. case unit_get ps u name of
        Some s \<Rightarrow> Inr (ps, resolved e CURRENT_SCOPE s)
      | None \<Rightarrow> (case find_up ps (ps_ustack ps) name of
          Some (scope, s) \<Rightarrow> Inr (ps, resolved e (UP_SCOPE scope) s)
        | None \<Rightarrow> (case STable_Get (Some (ps_extstbl ps)) name of
            Some s \<Rightarrow> Inr (ps, resolved e CURRENT_SCOPE s)
          | None \<Rightarrow> (case STable_Get (Some (ps_extdots ps)) name of
              Some r \<Rightarrow> bind_run (ref_target ps name) (\<lambda>s. Inr (ps, resolved e CURRENT_SCOPE s))
            | None \<Rightarrow> Inr (error (exp_pos e) ''cannot find symbol'' ps, e))))))"

subsection \<open>Folding constants\<close>

definition op_number :: "BinaryOpKind \<Rightarrow> nat" where
  "op_number b = (case b of
     BINARY_ADD \<Rightarrow> 1 | BINARY_SUB \<Rightarrow> 2 | BINARY_MULT \<Rightarrow> 3 | BINARY_DIV \<Rightarrow> 4 | BINARY_MOD \<Rightarrow> 5 | BINARY_QUOT \<Rightarrow> 6
   | BINARY_POWER \<Rightarrow> 7 | BINARY_LSHIFT \<Rightarrow> 8 | BINARY_RSHIFT \<Rightarrow> 9 | BINARY_GT \<Rightarrow> 10 | BINARY_GE \<Rightarrow> 11
   | BINARY_LT \<Rightarrow> 12 | BINARY_LE \<Rightarrow> 13 | BINARY_EQ \<Rightarrow> 14 | BINARY_NEQ \<Rightarrow> 15 | BINARY_BIT_AND \<Rightarrow> 16
   | BINARY_BIT_XOR \<Rightarrow> 17 | BINARY_BIT_OR \<Rightarrow> 18 | BINARY_LAND \<Rightarrow> 19 | BINARY_LOR \<Rightarrow> 20)"

text \<open>\<open>binary_strings[op]\<close>, of which there are five.\<close>

definition op_string :: "BinaryOpKind \<Rightarrow> unit run" where
  "op_string b = (if op_number b < 5 then Inr () else Inl Out_Of_Bounds)"

definition get_constvalue :: "Expr \<Rightarrow> ConstValue run" where
  "get_constvalue e = (case exp_node e of
     Binary_Expr b l r val \<Rightarrow> Inr val
   | Unary_Expr u x val \<Rightarrow> Inr val
   | Ident_Expr name w \<Rightarrow> (case exp_sym e of
       None \<Rightarrow> Inl Null_Deref
     | Some s \<Rightarrow> if sym_kind s \<noteq> SYM_CONST then Inl Assert_Failed else Inr (sym_value s))
   | Const_Expr v \<Rightarrow> Inr v
   | _ \<Rightarrow> Inl Assert_Failed)"

text \<open>The field \<open>ival\<close> of the union, whatever the kind of the constant is.\<close>

definition ival :: "Env \<Rightarrow> ConstValue \<Rightarrow> uint64" where
  "ival env v = (case cv_str v of None \<Rightarrow> cv_raw v | Some s \<Rightarrow> en_addr env s)"

definition int_value :: "uint64 \<Rightarrow> ConstValue" where
  "int_value raw = \<lparr>cv_kind = BASE_INT, cv_raw = raw, cv_str = None\<rparr>"

definition optimize_int_add :: "ParserState \<Rightarrow> Expr \<Rightarrow> Expr \<Rightarrow> (ParserState \<times> ConstValue) run" where
  "optimize_int_add ps lexp rexp =
     bind_run (get_constvalue lexp) (\<lambda>lval. bind_run (get_constvalue rexp) (\<lambda>rval.
     let l = ival (ps_env ps) lval in
     if cv_kind rval = BASE_INT then Inr (ps, int_value (l + cv_raw rval))
     else if cv_kind rval = BASE_FLOAT then Inr (ps, int_value (en_fadd (ps_env ps) l (cv_raw rval)))
     else if cv_kind rval = BASE_BOOL then Inr (error (exp_pos rexp) ''cannot convert bool to int'' ps, int_value 0)
     else if cv_kind rval = BASE_STRING then
       (case cv_str rval of
          None \<Rightarrow> Inl Null_Deref
        | Some str \<Rightarrow> (case string_to_int64 str of
            Some n \<Rightarrow> Inr (ps, int_value (l + word_of_int n))
          | None \<Rightarrow> Inr (error (exp_pos rexp) ''cannot convert string to int'' ps, int_value 0)))
     else if cv_kind rval = BASE_CHAR then Inr (ps, int_value (l + take_bit 32 (cv_raw rval)))
     else Inl Assert_Failed))"

definition known_const :: "char \<Rightarrow> bool" where
  "known_const k \<longleftrightarrow> k \<in> {BASE_INT, BASE_FLOAT, BASE_BOOL, BASE_STRING, BASE_CHAR}"

text \<open>\<open>val\<close> is set for integers only.\<close>

definition optimize_int_sub :: "ParserState \<Rightarrow> Expr \<Rightarrow> Expr \<Rightarrow> (ParserState \<times> ConstValue) run" where
  "optimize_int_sub ps lexp rexp =
     bind_run (get_constvalue lexp) (\<lambda>lval. bind_run (get_constvalue rexp) (\<lambda>rval.
     if cv_kind rval = BASE_INT then Inr (ps, int_value (ival (ps_env ps) lval - cv_raw rval))
     else if known_const (cv_kind rval) then Inr (ps, int_value (en_junk (ps_env ps)))
     else Inl Assert_Failed))"

text \<open>\<open>__optimize_int_mul\<close> and \<open>__optimize_int_div\<close>, which are the same and store nothing.\<close>

definition optimize_int_none :: "ParserState \<Rightarrow> Expr \<Rightarrow> Expr \<Rightarrow> ConstValue \<Rightarrow> (ParserState \<times> ConstValue) run" where
  "optimize_int_none ps lexp rexp val =
     bind_run (get_constvalue lexp) (\<lambda>lval. bind_run (get_constvalue rexp) (\<lambda>rval.
     if known_const (cv_kind rval) then Inr (ps, val) else Inl Assert_Failed))"

text \<open>All the kinds of constants have the operations of the integers.\<close>

definition optimize_binary_expr ::
  "ParserState \<Rightarrow> TypeDesc \<Rightarrow> BinaryOpKind \<Rightarrow> Expr \<Rightarrow> Expr \<Rightarrow> ConstValue \<Rightarrow> (ParserState \<times> ConstValue) run" where
  "optimize_binary_expr ps desc b lexp rexp val = (case desc of
     TD_Base k \<Rightarrow>
       if k \<in> {CHR ''b'', BASE_CHAR, BASE_INT, BASE_FLOAT, BASE_BOOL, BASE_STRING} then
         (case b of
            BINARY_ADD \<Rightarrow> optimize_int_add ps lexp rexp
          | BINARY_SUB \<Rightarrow> optimize_int_sub ps lexp rexp
          | BINARY_MULT \<Rightarrow> optimize_int_none ps lexp rexp val
          | BINARY_DIV \<Rightarrow> optimize_int_none ps lexp rexp val
          | _ \<Rightarrow> Inl Assert_Failed)
       else Inr (ps, val)
   | _ \<Rightarrow> Inl Out_Of_Bounds)"

subsection \<open>Arguments\<close>

text \<open>The loop of \<open>__check_expr_types\<close>: \<open>varg\<close> is the type of the variable arguments, once they are reached.\<close>

fun check_types :: "TypeDesc list \<Rightarrow> nat \<Rightarrow> TypeDesc option \<Rightarrow> Expr list \<Rightarrow> bool run" where
  "check_types descs i varg [] = Inr True"
| "check_types descs i (Some desc) (e # es) =
     (if \<not> TypeDesc_Equal (Some desc) (exp_desc e) then Inr False else check_types descs (i + 1) (Some desc) es)"
| "check_types descs i None (e # es) =
     (if i \<ge> length descs then Inl Null_Deref
      else case descs ! i of
        TD_Varg base \<Rightarrow>
          if i + 1 \<noteq> length descs then Inl Assert_Failed
          else if \<not> TypeDesc_Equal (Some base) (exp_desc e) then Inr False
          else check_types descs (i + 1) (Some base) es
      | desc \<Rightarrow>
          if \<not> TypeDesc_Equal (Some desc) (exp_desc e) then Inr False
          else check_types descs (i + 1) None es)"

definition check_expr_types :: "TypeDesc list \<Rightarrow> Expr list \<Rightarrow> bool run" where
  "check_expr_types descs exps = (if length exps < length descs then Inr False else check_types descs 0 None exps)"

text \<open>A descriptor that is asserted to be a prototype.\<close>

definition assert_proto :: "TypeDesc option \<Rightarrow> (TypeDesc list \<times> TypeDesc list) run" where
  "assert_proto desc = (case desc of None \<Rightarrow> Inl Null_Deref | Some (TD_Proto arg ret) \<Rightarrow> Inr (arg, ret) | Some _ \<Rightarrow> Inl Assert_Failed)"

definition check_call_arguments :: "TypeDesc option \<Rightarrow> Expr list \<Rightarrow> bool run" where
  "check_call_arguments desc args = bind_run (assert_proto desc) (\<lambda>(arg, ret). check_expr_types arg args)"

subsection \<open>Parsing\<close>

text \<open>\<open>lexp->ctx = EXPR_LOAD\<close>, and \<open>lexp->right = exp\<close>.\<close>

definition loading :: "Expr \<Rightarrow> Expr" where
  "loading e = set_head (\<lambda>h. h\<lparr>eh_ctx := EXPR_LOAD\<rparr>) e"

definition left_of :: "Right \<Rightarrow> Expr \<Rightarrow> Expr" where
  "left_of r e = set_head (\<lambda>h. h\<lparr>eh_ctx := EXPR_LOAD, eh_right := r\<rparr>) e"

lemma size_set_head [simp]: "size (set_head f e) = size e" by (cases e) simp
lemma size_loading [simp, termination_simp]: "size (loading e) = size e" by (simp add: loading_def)
lemma size_left_of [simp, termination_simp]: "size (left_of r e) = size e" by (simp add: left_of_def)

text \<open>Calling \<open>super(...)\<close>, which is for the start of an \<open>__init__\<close> in a class.\<close>

definition super_allowed :: "ParserState \<Rightarrow> bool run" where
  "super_allowed ps = with_unit ps (\<lambda>u.
     if pu_scope u \<noteq> SCOPE_FUNCTION then Inr False
     else case ps_ustack ps of
       [] \<Rightarrow> Inl Null_Deref
     | uu # _ \<Rightarrow>
         if pu_scope uu \<noteq> SCOPE_CLASS then Inr False
         else case pu_sym u of
           None \<Rightarrow> Inl Null_Deref
         | Some r \<Rightarrow>
             if \<not> str_eq (snd r) init_name then Inr False
             else bind_run (the_block u) (\<lambda>b. Inr (cb_insts b = [])))"

definition is_super :: "Expr \<Rightarrow> bool" where
  "is_super e = (case exp_node e of Super_Expr \<Rightarrow> True | _ \<Rightarrow> False)"

text \<open>What is done with an attribute when its left side has been parsed.\<close>

definition attribute_of :: "ParserState \<Rightarrow> ExprHead \<Rightarrow> Ident \<Rightarrow> Expr \<Rightarrow> (ParserState \<times> ExprHead) run" where
  "attribute_of ps h ident l = (case exp_sym l of
     None \<Rightarrow> Inr (ps, h)
   | Some s \<Rightarrow>
       if sym_kind s \<in> {SYM_CONST, SYM_VAR} then
         (if sym_desc s = None then Inl Assert_Failed
          else bind_run (the_desc (exp_desc l)) (\<lambda>d. bind_run (show_type d) (\<lambda>_. Inr (ps, h))))
       else if sym_kind s \<in> {SYM_FUNC, SYM_NFUNC} then
         (if is_call l then
            bind_run (proto_parts (sym_desc s)) (\<lambda>(arg, ret).
              if length ret \<noteq> 1 then Inr (error (exp_pos l) ''multi-returns function'' ps, h) else Inr (ps, h))
          else Inr (ps, h))
       else if sym_kind s = SYM_PKG then
         (case ps_extpkg ps (cstr (sym_name s)) of
            None \<Rightarrow> Inl Null_Deref
          | Some path \<Rightarrow> (case Find_Package ps path of
              None \<Rightarrow> Inl Null_Deref
            | Some pkg \<Rightarrow> (case STable_Get (pk_stbl pkg) (id_name ident) of
                None \<Rightarrow> Inr (error (id_pos ident) ''is not found in'' ps, h)
              | Some m \<Rightarrow> bind_run (the_desc (sym_desc m)) (\<lambda>d. bind_run (show_type d) (\<lambda>_.
                  Inr (ps, h\<lparr>eh_sym := Some m, eh_desc := sym_desc m\<rparr>))))))
       else Inl Assert_Failed)"

text \<open>What is done with a call when its arguments and its left side have been parsed.\<close>

definition call_of :: "ParserState \<Rightarrow> ExprHead \<Rightarrow> Expr list \<Rightarrow> Expr \<Rightarrow> (ParserState \<times> ExprHead) run" where
  "call_of ps h args l = (case exp_sym l of
     None \<Rightarrow> Inr (ps, h)
   | Some s \<Rightarrow>
       (let h1 = h\<lparr>eh_desc := exp_desc l, eh_sym := Some s\<rparr>;
            check = (\<lambda>proto. bind_run (check_call_arguments proto args) (\<lambda>ok.
              if ok then Inr (ps, h1) else Inr (error (exp_pos l) ''argument of function are not matched'' ps, h1))) in
        if sym_kind s = SYM_CLASS then
          (case STable_Get (sym_stbl s) init_name of
             None \<Rightarrow> if length args > 0 then Inr (error (exp_pos l) ''__init__ function needs no arguments'' ps, h1) else Inl Null_Deref
           | Some i \<Rightarrow> check (sym_desc i))
        else check (eh_desc h1)))"

text \<open>What is done with a binary expression when both sides have been parsed.\<close>

definition binary_of ::
  "ParserState \<Rightarrow> ExprHead \<Rightarrow> BinaryOpKind \<Rightarrow> Expr \<Rightarrow> Expr \<Rightarrow> ConstValue \<Rightarrow> (ParserState \<times> ExprHead \<times> ConstValue) run" where
  "binary_of ps h b l r val =
     bind_run (if eh_desc h \<noteq> None then Inr h
       else bind_run (the_desc (exp_desc l)) (\<lambda>d. bind_run (show_type d) (\<lambda>_. Inr (h\<lparr>eh_desc := Some d\<rparr>)))) (\<lambda>h1.
     if Expr_Is_Const l \<and> Expr_Is_Const r then
       bind_run (the_desc (eh_desc h1)) (\<lambda>d.
       bind_run (optimize_binary_expr ps d b l r val) (\<lambda>(ps1, val1). Inr (ps1, h1, val1)))
     else Inr (ps, h1, val))"

text \<open>\<open>Parse_Expression\<close>.\<close>

fun parse_expr :: "ParserState \<Rightarrow> Expr \<Rightarrow> (ParserState \<times> Expr) run"
and parse_args :: "ParserState \<Rightarrow> Expr list \<Rightarrow> (ParserState \<times> Expr list) run" where
  "parse_expr ps (Expr h n) =
     (if too_many ps then Inr (ps, Expr h n)
      else case n of
        Nil_Expr \<Rightarrow> Inr (ps, Expr h n)
      | Const_Expr v \<Rightarrow> Inr (ps, Expr h n)
      | Ident_Expr name w \<Rightarrow> Parse_Ident_Expr ps (Expr h n) name
      | Unary_Expr u x v \<Rightarrow> Inr (ps, Expr h n)
      | Binary_Expr b l r v \<Rightarrow>
          bind_run (op_string b) (\<lambda>_.
          bind_run (parse_expr ps (loading l)) (\<lambda>(ps1, l1).
          if exp_desc l1 = None then Inl Assert_Failed
          else bind_run (parse_expr ps1 (loading r)) (\<lambda>(ps2, r1).
            if exp_desc r1 = None then Inl Assert_Failed
            else bind_run (binary_of ps2 h b l1 r1 v) (\<lambda>(ps3, h1, v1). Inr (ps3, Expr h1 (Binary_Expr b l1 r1 v1))))))
      | Attribute_Expr ident l \<Rightarrow>
          bind_run (parse_expr ps (left_of Right_Other l)) (\<lambda>(ps1, l1).
          bind_run (attribute_of ps1 h ident l1) (\<lambda>(ps2, h1). Inr (ps2, Expr h1 (Attribute_Expr ident l1))))
      | Call_Expr args l \<Rightarrow>
          bind_run (if is_super l then super_allowed ps else Inr True) (\<lambda>ok.
          if \<not> ok then Inr (error (exp_pos l) ''call super __init__ must be in __init__ of subclass'' ps, Expr h n)
          else bind_run (parse_args ps args) (\<lambda>(ps1, args1).
            bind_run (parse_expr ps1 (left_of (Right_Call (length args)) l)) (\<lambda>(ps2, l1).
            bind_run (call_of ps2 h args1 l1) (\<lambda>(ps3, h1). Inr (ps3, Expr h1 (Call_Expr args1 l1))))))
      | _ \<Rightarrow> Inl Assert_Failed)"
| "parse_args ps [] = Inr (ps, [])"
| "parse_args ps (e # es) =
     bind_run (parse_args ps es) (\<lambda>(ps1, es1).
     bind_run (parse_expr ps1 (loading e)) (\<lambda>(ps2, e1). Inr (ps2, e1 # es1)))"

subsection \<open>Code\<close>

text \<open>Appending to the code of the current scope.\<close>

definition emit :: "ParserState \<Rightarrow> (CodeBlock \<Rightarrow> CodeBlock run) \<Rightarrow> ParserState run" where
  "emit ps f = with_unit ps (\<lambda>u. bind_run (the_block u) (\<lambda>b. bind_run (f b) (\<lambda>b1.
     Inr (ps\<lparr>ps_u := Some (u\<lparr>pu_block := Some b1\<rparr>)\<rparr>))))"

definition is_proto :: "TypeDesc \<Rightarrow> bool" where
  "is_proto d = (case d of TD_Proto arg ret \<Rightarrow> True | _ \<Rightarrow> False)"

definition code_const_expr :: "ParserState \<Rightarrow> ExprCtx \<Rightarrow> ConstValue \<Rightarrow> ParserState run" where
  "code_const_expr ps ctx val = (if ctx \<noteq> EXPR_LOAD then Inl Assert_Failed
     else emit ps (\<lambda>b. Inst_Append b LOAD_CONST (Some val)))"

definition code_current_module_class :: "ParserState \<Rightarrow> ExprHead \<Rightarrow> unit STable Symbol \<Rightarrow> TypeDesc \<Rightarrow> ParserState run" where
  "code_current_module_class ps h s desc =
     (if eh_ctx h \<noteq> EXPR_LOAD then Inl Assert_Failed
      else if sym_kind s \<in> {SYM_CONST, SYM_VAR} then
        (case (is_proto desc, eh_right h) of
           (True, Right_Call argc) \<Rightarrow> emit ps (\<lambda>b. CODE_CALL b (sym_name s) (int argc))
         | _ \<Rightarrow> emit ps (\<lambda>b. CODE_LOAD_FIELD b (sym_name s)))
      else if sym_kind s \<noteq> SYM_FUNC then Inl Assert_Failed
      else (case eh_right h of
          Right_Call argc \<Rightarrow> emit ps (\<lambda>b. CODE_CALL b (sym_name s) (int argc))
        | _ \<Rightarrow> emit ps (\<lambda>b. CODE_LOAD_FIELD b (sym_name s))))"

definition code_current_function_block_closure ::
  "ParserState \<Rightarrow> ExprHead \<Rightarrow> unit STable Symbol \<Rightarrow> TypeDesc \<Rightarrow> ParserState run" where
  "code_current_function_block_closure ps h s desc =
     (if sym_kind s \<noteq> SYM_VAR then Inl Assert_Failed
      else case (is_proto desc, eh_right h) of
        (True, Right_Call argc) \<Rightarrow>
          if eh_ctx h \<noteq> EXPR_LOAD then Inl Assert_Failed else emit ps (\<lambda>b. CODE_CALL b (sym_name s) (int argc))
      | _ \<Rightarrow>
          if eh_ctx h = EXPR_LOAD then emit ps (\<lambda>b. CODE_LOAD b (sym_index s))
          else if eh_ctx h = EXPR_STORE then emit ps (\<lambda>b. CODE_STORE b (sym_index s))
          else Inl Assert_Failed)"

text \<open>The field declarations of a class: nothing is generated yet.\<close>

definition code_up_class :: "ParserState \<Rightarrow> ExprHead \<Rightarrow> unit STable Symbol \<Rightarrow> ScopeKind \<Rightarrow> ParserState run" where
  "code_up_class ps h s scope =
     (if scope \<noteq> SCOPE_MODULE then Inl Assert_Failed
      else if eh_ctx h \<noteq> EXPR_LOAD then Inl Assert_Failed
      else if sym_kind s \<notin> {SYM_CONST, SYM_VAR, SYM_FUNC} then Inl Assert_Failed
      else Inr ps)"

definition Code_Ident_Expr :: "ParserState \<Rightarrow> ExprHead \<Rightarrow> Where \<Rightarrow> ParserState run" where
  "Code_Ident_Expr ps h w = (case (eh_desc h, eh_sym h) of
     (Some desc, Some s) \<Rightarrow> with_unit ps (\<lambda>u. case w of
         CURRENT_SCOPE \<Rightarrow>
           if pu_scope u \<in> {SCOPE_MODULE, SCOPE_CLASS} then code_current_module_class ps h s desc
           else code_current_function_block_closure ps h s desc
       | UP_SCOPE scope \<Rightarrow> if pu_scope u = SCOPE_CLASS then code_up_class ps h s scope else Inr ps
       | Nowhere \<Rightarrow> Inl Assert_Failed)
   | _ \<Rightarrow> Inl Assert_Failed)"

text \<open>A binary expression has code only when it has been folded.\<close>

definition Code_Binary_Expr :: "ParserState \<Rightarrow> BinaryOpKind \<Rightarrow> ConstValue \<Rightarrow> ParserState run" where
  "Code_Binary_Expr ps b val = bind_run (op_string b) (\<lambda>_.
     if cv_kind val \<noteq> NUL then (if too_many ps then Inr ps else code_const_expr ps EXPR_LOAD val) else Inr ps)"

definition code_expr :: "ParserState \<Rightarrow> Expr \<Rightarrow> ParserState run" where
  "code_expr ps e = (case exp_node e of
     Const_Expr v \<Rightarrow> code_const_expr ps (eh_ctx (exp_head e)) v
   | Ident_Expr name w \<Rightarrow> Code_Ident_Expr ps (exp_head e) w
   | Binary_Expr b l r v \<Rightarrow> Code_Binary_Expr ps b v
   | _ \<Rightarrow> Inr ps)"

definition parser_visit_expr :: "ParserState \<Rightarrow> Expr \<Rightarrow> (ParserState \<times> Expr) run" where
  "parser_visit_expr ps e = bind_run (parse_expr ps e) (\<lambda>(ps1, e1).
     if too_many ps1 then Inr (ps1, e1) else bind_run (code_expr ps1 e1) (\<lambda>ps2. Inr (ps2, e1)))"

subsection \<open>Frames\<close>

text \<open>Parsing changes nothing but the errors; generating code nothing but the code of the current scope.\<close>

definition only_errors :: "ParserState \<Rightarrow> ParserState \<Rightarrow> bool" where
  "only_errors ps ps' \<longleftrightarrow> (\<exists>log. ps' = ps\<lparr>ps_log := log\<rparr> \<and> er_num (ps_log ps) \<le> er_num log)"

definition only_code :: "ParserState \<Rightarrow> ParserState \<Rightarrow> bool" where
  "only_code ps ps' \<longleftrightarrow> ps' = ps \<or>
     (\<exists>u b. ps_u ps = Some u \<and> pu_block u \<noteq> None \<and> ps' = ps\<lparr>ps_u := Some (u\<lparr>pu_block := Some b\<rparr>)\<rparr>)"

lemma only_errors_refl [simp]: "only_errors ps ps"
  unfolding only_errors_def by (intro exI [of _ "ps_log ps"]) simp

lemma only_errors_error [simp]: "only_errors ps (error pos fmt ps)"
  by (auto simp: only_errors_def error_def Syntax_Error_def Let_def)

lemma only_errors_trans: "only_errors a b \<Longrightarrow> only_errors b c \<Longrightarrow> only_errors a c"
  by (auto simp: only_errors_def)

lemma Parse_Ident_Expr_errors: "Parse_Ident_Expr ps e name = Inr (ps', e') \<Longrightarrow> only_errors ps ps'"
  by (auto simp: Parse_Ident_Expr_def with_unit_Inr bind_run_eq_Inr_iff split: option.splits if_splits)

lemma optimize_errors:
  assumes "optimize_binary_expr ps d b l r v = Inr (ps', v')"
  shows "only_errors ps ps'"
proof -
  have add: "optimize_int_add ps l r = Inr (ps', v') \<Longrightarrow> only_errors ps ps'"
    by (auto simp: optimize_int_add_def bind_run_eq_Inr_iff Let_def split: option.splits if_splits)
  have sub: "optimize_int_sub ps l r = Inr (ps', v') \<Longrightarrow> only_errors ps ps'"
    by (auto simp: optimize_int_sub_def bind_run_eq_Inr_iff split: if_splits)
  have none: "optimize_int_none ps l r v = Inr (ps', v') \<Longrightarrow> only_errors ps ps'"
    by (auto simp: optimize_int_none_def bind_run_eq_Inr_iff split: if_splits)
  from assms add sub none show ?thesis
    by (cases d; cases b) (auto simp: optimize_binary_expr_def split: if_splits)
qed

lemma binary_of_errors: "binary_of ps h b l r v = Inr (ps', h', v') \<Longrightarrow> only_errors ps ps'"
  by (auto simp: binary_of_def bind_run_eq_Inr_iff dest: optimize_errors split: if_splits)

lemma attribute_of_errors: "attribute_of ps h i l = Inr (ps', h') \<Longrightarrow> only_errors ps ps'"
  by (auto simp: attribute_of_def bind_run_eq_Inr_iff split: option.splits if_splits prod.splits)

lemma call_of_errors: "call_of ps h args l = Inr (ps', h') \<Longrightarrow> only_errors ps ps'"
  by (auto simp: call_of_def bind_run_eq_Inr_iff Let_def split: option.splits if_splits)

lemma parse_errors:
  "parse_expr ps e = Inr (ps', e') \<Longrightarrow> only_errors ps ps'"
  "parse_args ps es = Inr (ps', es') \<Longrightarrow> only_errors ps ps'"
proof (induction ps e and ps es arbitrary: ps' e' and ps' es' rule: parse_expr_parse_args.induct)
  case (1 ps h n)
  show ?case
  proof (cases "too_many ps")
    case True
    with "1.prems" show ?thesis by simp
  next
    case False
    show ?thesis
    proof (cases n)
      case (Ident_Expr name w)
      with False "1.prems" show ?thesis by (auto dest: Parse_Ident_Expr_errors)
    next
      case n: (Binary_Expr b l r v)
      obtain ps1 l1 ps2 r1 h1 v1 where
        s: "op_string b = Inr ()" "parse_expr ps (loading l) = Inr (ps1, l1)" "exp_desc l1 \<noteq> None"
        "parse_expr ps1 (loading r) = Inr (ps2, r1)" "binary_of ps2 h b l1 r1 v = Inr (ps', h1, v1)"
        using False n "1.prems" by (auto simp: bind_run_eq_Inr_iff split: if_splits)
      have "only_errors ps ps1" by (rule "1.IH"(1) [OF False n s(2)])
      moreover have "only_errors ps1 ps2" by (rule "1.IH"(2) [OF False n s(3,4)])
      ultimately show ?thesis using binary_of_errors [OF s(5)] only_errors_trans by blast
    next
      case n: (Attribute_Expr i l)
      obtain ps1 l1 h1 where s: "parse_expr ps (left_of Right_Other l) = Inr (ps1, l1)" "attribute_of ps1 h i l1 = Inr (ps', h1)"
        using False n "1.prems" by (auto simp: bind_run_eq_Inr_iff)
      have "only_errors ps ps1" by (rule "1.IH"(3) [OF False n s(1)])
      with attribute_of_errors [OF s(2)] show ?thesis using only_errors_trans by blast
    next
      case n: (Call_Expr args l)
      obtain ok where ok: "(if is_super l then super_allowed ps else Inr True) = Inr ok"
        using False n "1.prems" by (auto simp: bind_run_eq_Inr_iff)
      show ?thesis
      proof (cases ok)
        case True
        obtain ps1 args1 ps2 l1 h1 where s: "parse_args ps args = Inr (ps1, args1)"
          "parse_expr ps1 (left_of (Right_Call (length args)) l) = Inr (ps2, l1)" "call_of ps2 h args1 l1 = Inr (ps', h1)"
          using False n ok True "1.prems" by (auto simp: bind_run_eq_Inr_iff)
        have t: "\<not> \<not> ok" using True by simp
        have "only_errors ps ps1" by (rule "1.IH"(4) [OF False n t s(1)])
        moreover have "only_errors ps1 ps2" by (rule "1.IH"(5) [OF False n t s(2)])
        ultimately show ?thesis using call_of_errors [OF s(3)] only_errors_trans by blast
      next
        case f: False
        with False n ok "1.prems" show ?thesis by (auto simp: bind_run_eq_Inr_iff)
      qed
    qed (use False "1.prems" in auto)
  qed
next
  case (2 ps)
  then show ?case by simp
next
  case (3 ps e es)
  obtain ps1 es1 e1 where s: "parse_args ps es = Inr (ps1, es1)" "parse_expr ps1 (loading e) = Inr (ps', e1)"
    using "3.prems" by (auto simp: bind_run_eq_Inr_iff)
  have "only_errors ps ps1" by (rule "3.IH"(1) [OF s(1)])
  moreover have "only_errors ps1 ps'" by (rule "3.IH"(2) [OF s(2)])
  ultimately show ?case by (rule only_errors_trans)
qed

lemma emit_code: "emit ps f = Inr ps' \<Longrightarrow> only_code ps ps'"
  by (auto simp: emit_def with_unit_Inr the_block_def only_code_def split: option.splits)

lemma only_code_refl [simp]: "only_code ps ps" by (simp add: only_code_def)

lemma code_module_frame: "code_current_module_class ps h s d = Inr ps' \<Longrightarrow> only_code ps ps'"
  by (cases "is_proto d"; cases "eh_right h") (auto simp: code_current_module_class_def split: if_splits dest: emit_code)

lemma code_function_frame: "code_current_function_block_closure ps h s d = Inr ps' \<Longrightarrow> only_code ps ps'"
  by (cases "is_proto d"; cases "eh_right h") (auto simp: code_current_function_block_closure_def split: if_splits dest: emit_code)

lemma code_ident_frame:
  assumes "Code_Ident_Expr ps h w = Inr ps'"
  shows "only_code ps ps'"
proof (cases w)
  case (UP_SCOPE k)
  with assms show ?thesis
    by (auto simp: Code_Ident_Expr_def with_unit_Inr code_up_class_def split: option.splits if_splits)
next
  case CURRENT_SCOPE
  with assms show ?thesis
    by (auto simp: Code_Ident_Expr_def with_unit_Inr split: option.splits if_splits dest: code_module_frame code_function_frame)
qed (use assms in \<open>auto simp: Code_Ident_Expr_def with_unit_Inr split: option.splits\<close>)

lemma code_errors: "code_expr ps e = Inr ps' \<Longrightarrow> only_code ps ps'"
  by (cases "exp_node e") (auto simp: code_expr_def code_const_expr_def Code_Binary_Expr_def bind_run_eq_Inr_iff
      split: if_splits dest: emit_code code_ident_frame)

subsection \<open>The innermost declaration of a name\<close>

text \<open>The tables a name is looked up in, from the innermost.\<close>

definition visible :: "ParserState \<Rightarrow> (Where \<times> (string \<Rightarrow> unit STable Symbol option)) list" where
  "visible ps =
     (case ps_u ps of None \<Rightarrow> [] | Some u \<Rightarrow> [(CURRENT_SCOPE, unit_get ps u)]) @
     map (\<lambda>uu. (UP_SCOPE (pu_scope uu), unit_get ps uu)) (ps_ustack ps) @
     [(CURRENT_SCOPE, STable_Get (Some (ps_extstbl ps))),
      (CURRENT_SCOPE, \<lambda>n. case STable_Get (Some (ps_extdots ps)) n of None \<Rightarrow> None
         | Some r \<Rightarrow> (case ref_target ps n of Inl f \<Rightarrow> None | Inr s \<Rightarrow> Some s))]"

fun first_hit :: "(Where \<times> (string \<Rightarrow> 's option)) list \<Rightarrow> string \<Rightarrow> (Where \<times> 's) option" where
  "first_hit [] name = None"
| "first_hit ((w, get) # ts) name = (case get name of Some s \<Rightarrow> Some (w, s) | None \<Rightarrow> first_hit ts name)"

text \<open>Every symbol imported with a dot is in its package.\<close>

definition dots_ok :: "ParserState \<Rightarrow> bool" where
  "dots_ok ps \<longleftrightarrow> (\<forall>n r. STable_Get (Some (ps_extdots ps)) n = Some r \<longrightarrow> (\<exists>s. ref_target ps n = Inr s))"

lemma first_hit_append:
  "first_hit (xs @ ys) name = (case first_hit xs name of Some r \<Rightarrow> Some r | None \<Rightarrow> first_hit ys name)"
  by (induction xs name rule: first_hit.induct) (auto split: option.split)

lemma find_up_hit:
  "first_hit (map (\<lambda>uu. (UP_SCOPE (pu_scope uu), unit_get ps uu)) us) name =
     map_option (\<lambda>(k, s). (UP_SCOPE k, s)) (find_up ps us name)"
  by (induction us) (auto split: option.split)

text \<open>
  C10: An identifier denotes its innermost declaration: the first of the current scope, the scopes around it
  from the inside out, the imported packages and the symbols imported with a dot that declares it. An
  identifier that none of them declares is one error, and nothing else changes.
\<close>

theorem innermost_declaration:
  assumes "ps_u ps = Some u" "dots_ok ps" "\<not> too_many ps"
  shows "parse_expr ps (Expr_From_Ident name) = Inr (case first_hit (visible ps) name of
     Some (w, s) \<Rightarrow> (ps, Expr (new_head\<lparr>eh_sym := Some s, eh_desc := sym_desc s\<rparr>) (Ident_Expr name w))
   | None \<Rightarrow> (error (0, 0) ''cannot find symbol'' ps, Expr_From_Ident name))"
proof -
  let ?e = "Expr_From_Ident name"
  have e: "exp_sym ?e = None" "exp_desc ?e = None" "exp_pos ?e = (0, 0)" "?e = Expr new_head (Ident_Expr name Nowhere)"
    by (simp_all add: Expr_From_Ident_def exp_sym_def exp_desc_def exp_pos_def new_head_def)
  have r: "resolved ?e w s = Expr (new_head\<lparr>eh_sym := Some s, eh_desc := sym_desc s\<rparr>) (Ident_Expr name w)" for w s
    by (simp add: resolved_def Expr_From_Ident_def)
  have p: "parse_expr ps ?e = Parse_Ident_Expr ps ?e name"
    using assms(3) by (simp add: Expr_From_Ident_def)
  note d = Parse_Ident_Expr_def with_unit_def assms(1) e(1,2,3) visible_def first_hit_append find_up_hit bind_run_def
  consider (cur) s where "unit_get ps u name = Some s"
    | (up) k s where "unit_get ps u name = None" "find_up ps (ps_ustack ps) name = Some (k, s)"
    | (ext) "unit_get ps u name = None" "find_up ps (ps_ustack ps) name = None"
    by (cases "unit_get ps u name"; cases "find_up ps (ps_ustack ps) name") auto
  then show ?thesis
  proof cases
    case cur
    then show ?thesis unfolding p by (simp add: d r)
  next
    case up
    then show ?thesis unfolding p by (simp add: d r)
  next
    case ext
    show ?thesis
    proof (cases "STable_Get (Some (ps_extstbl ps)) name")
      case None
      show ?thesis
      proof (cases "STable_Get (Some (ps_extdots ps)) name")
        case None2: None
        with ext None show ?thesis unfolding p by (simp add: d)
      next
        case (Some rr)
        then obtain s where "ref_target ps name = Inr s" using assms(2) by (auto simp: dots_ok_def)
        with ext None Some show ?thesis unfolding p by (simp add: d r)
      qed
    next
      case (Some s)
      with ext show ?thesis unfolding p by (simp add: d r)
    qed
  qed
qed

lemma innermost_declaration_witness:
  "\<exists>ps s. parse_expr ps (Expr_From_Ident ''x'') =
     Inr (ps, Expr (new_head\<lparr>eh_sym := Some s, eh_desc := Some (TD_Base CHR ''i'')\<rparr>) (Ident_Expr ''x'' (UP_SCOPE SCOPE_FUNCTION)))"
proof -
  let ?s = "(Symbol_New SYM_VAR ''x'')\<lparr>sym_desc := Some (TD_Base CHR ''i''), sym_index := 1\<rparr>"
  obtain t where t: "insert_symbol (STable_New :: Module) ?s = Some t"
    using insert_symbol_None [OF stable_ok_New, of ?s] by auto
  let ?fn = "(new_parser_unit SCOPE_FUNCTION)\<lparr>pu_stbl := Own_Table t\<rparr>"
  let ?blk = "(new_parser_unit SCOPE_BLOCK)\<lparr>pu_stbl := Own_Table STable_New\<rparr>"
  let ?ps = "(New_Parser ''app'' None STable_New Map.empty Map.empty [] undefined)\<lparr>ps_u := Some ?blk, ps_ustack := [?fn]\<rparr>"
  have get: "STable_Get (Some t) ''x'' = Some ?s"
    using insert_symbol_get(3) [OF stable_ok_New t, of "''x''"] by (simp add: str_eq_def)
  have "dots_ok ?ps" by (simp add: dots_ok_def New_Parser_def)
  moreover have "\<not> too_many ?ps" by (simp add: too_many_def New_Parser_def MAX_ERRORS_def)
  ultimately have "parse_expr ?ps (Expr_From_Ident ''x'') = Inr (case first_hit (visible ?ps) ''x'' of
     Some (w, s) \<Rightarrow> (?ps, Expr (new_head\<lparr>eh_sym := Some s, eh_desc := sym_desc s\<rparr>) (Ident_Expr ''x'' w))
   | None \<Rightarrow> (error (0, 0) ''cannot find symbol'' ?ps, Expr_From_Ident ''x''))"
    by (intro innermost_declaration) (simp_all add: New_Parser_def)
  moreover have "first_hit (visible ?ps) ''x'' = Some (UP_SCOPE SCOPE_FUNCTION, ?s)"
    using get by (simp add: visible_def unit_get_def table_get_def New_Parser_def new_parser_unit_def)
  ultimately show ?thesis by (intro exI [of _ ?ps] exI [of _ ?s]) simp
qed

subsection \<open>The arguments of a call\<close>

text \<open>
  The types a list of expressions may have: one for one, where the last may be a type of variable arguments,
  of which there must be at least one.
\<close>

fun accepts :: "TypeDesc list \<Rightarrow> Expr list \<Rightarrow> bool" where
  "accepts [] es \<longleftrightarrow> es = []"
| "accepts [TD_Varg base] es \<longleftrightarrow> es \<noteq> [] \<and> (\<forall>e \<in> set es. TypeDesc_Equal (Some base) (exp_desc e))"
| "accepts (d # ds) [] \<longleftrightarrow> False"
| "accepts (d # ds) (e # es) \<longleftrightarrow> TypeDesc_Equal (Some d) (exp_desc e) \<and> accepts ds es"

definition varg_last :: "TypeDesc list \<Rightarrow> bool" where
  "varg_last ds \<longleftrightarrow> (\<forall>i b. i + 1 < length ds \<longrightarrow> ds ! i \<noteq> TD_Varg b)"

lemma check_types_varg:
  "check_types ds i (Some base) es = Inr (\<forall>e \<in> set es. TypeDesc_Equal (Some base) (exp_desc e))"
  by (induction es arbitrary: i) auto

lemma check_types_accepts:
  "varg_last (pre @ ds) \<Longrightarrow>
     check_types (pre @ ds) (length pre) None es = Inr True \<and> length ds \<le> length es \<longleftrightarrow> accepts ds es"
proof (induction es arbitrary: pre ds)
  case Nil
  show ?case
  proof (cases ds)
    case (Cons d ds')
    then show ?thesis by (cases d; cases ds') auto
  qed simp
next
  case (Cons e es)
  show ?case
  proof (cases ds)
    case Nil
    then show ?thesis by simp
  next
    case (Cons d ds')
    have nth: "(pre @ d # ds') ! length pre = d" by simp
    show ?thesis
    proof (cases "\<exists>b. d = TD_Varg b")
      case True
      then obtain b where d: "d = TD_Varg b" by blast
      have "ds' = []"
      proof (rule ccontr)
        assume "ds' \<noteq> []"
        then have "length pre + 1 < length (pre @ ds)" using Cons by (cases ds') auto
        with Cons.prems Cons d show False unfolding varg_last_def by (metis nth)
      qed
      with Cons d show ?thesis using check_types_varg [of "pre @ ds" "length pre + 1" b es] by auto
    next
      case False
      have ih: "check_types (pre @ d # ds') (Suc (length pre)) None es = Inr True \<and> length ds' \<le> length es \<longleftrightarrow> accepts ds' es"
        using Cons.IH [of "pre @ [d]" ds'] Cons.prems Cons by simp
      have "accepts (d # ds') (e # es) \<longleftrightarrow> TypeDesc_Equal (Some d) (exp_desc e) \<and> accepts ds' es"
        using False by (cases d; cases ds') auto
      with Cons False ih nth show ?thesis by (cases d) auto
    qed
  qed
qed

text \<open>
  C25: The check that call arguments and returned values go through accepts exactly the lists whose types are
  those declared, one for one, where a last declared type of variable arguments stands for one or more.
\<close>

theorem arguments_checked:
  assumes "varg_last descs"
  shows "check_expr_types descs exps = Inr True \<longleftrightarrow> accepts descs exps"
  using check_types_accepts [of "[]" descs exps] assms by (auto simp: check_expr_types_def)

lemma arguments_checked_witness:
  "check_expr_types [TD_Base CHR ''s'', TD_Varg (TD_Base CHR ''i'')]
     [Expr (new_head\<lparr>eh_desc := Some (TD_Base CHR ''s'')\<rparr>) Nil_Expr, Expr (new_head\<lparr>eh_desc := Some (TD_Base CHR ''i'')\<rparr>) Nil_Expr,
      Expr (new_head\<lparr>eh_desc := Some (TD_Base CHR ''i'')\<rparr>) Nil_Expr] = Inr True"
proof -
  have v: "varg_last [TD_Base CHR ''s'', TD_Varg (TD_Base CHR ''i'')]"
    by (auto simp: varg_last_def less_Suc_eq nth_Cons split: nat.splits)
  show ?thesis unfolding arguments_checked [OF v] by (simp add: exp_desc_def TypeDesc_Equal_def)
qed

text \<open>More arguments than parameters are not an error of the program but a null pointer of the compiler.\<close>

lemma extra_argument_fails:
  "check_expr_types [] [e] = Inl Null_Deref"
  by (simp add: check_expr_types_def)

subsection \<open>Sums and differences of integers\<close>

text \<open>The expressions the grammar makes of sums and differences of integer literals, and their values.\<close>

datatype sum = Lit uint64 | Add sum sum | Sub sum sum

fun value_of :: "sum \<Rightarrow> uint64" where
  "value_of (Lit n) = n"
| "value_of (Add a b) = value_of a + value_of b"
| "value_of (Sub a b) = value_of a - value_of b"

fun sum_expr :: "sum \<Rightarrow> Expr run" where
  "sum_expr (Lit n) = Expr_From_Integer n"
| "sum_expr (Add a b) = bind_run (sum_expr a) (\<lambda>l. bind_run (sum_expr b) (\<lambda>r. Inr (Expr_From_Binary BINARY_ADD l r)))"
| "sum_expr (Sub a b) = bind_run (sum_expr a) (\<lambda>l. bind_run (sum_expr b) (\<lambda>r. Inr (Expr_From_Binary BINARY_SUB l r)))"

definition folded :: "Expr \<Rightarrow> uint64 \<Rightarrow> bool" where
  "folded e n \<longleftrightarrow> get_constvalue e = Inr (int_value n) \<and> Expr_Is_Const e \<and> exp_desc e = Some (TD_Base BASE_INT) \<and>
     (case exp_node e of Const_Expr v \<Rightarrow> True | Binary_Expr b l r v \<Rightarrow> op_number b < 5 | _ \<Rightarrow> False)"

lemma fold_binary:
  assumes "folded l a" "folded r b" "eh_desc h = Some (TD_Base BASE_INT)"
  shows "binary_of ps h BINARY_ADD l r v = Inr (ps, h, int_value (a + b))"
    "binary_of ps h BINARY_SUB l r v = Inr (ps, h, int_value (a - b))"
  using assms by (simp_all add: binary_of_def folded_def the_desc_def optimize_binary_expr_def optimize_int_add_def
      optimize_int_sub_def Let_def ival_def int_value_def base_defs bind_run_def)

lemma folded_binary:
  assumes "eh_desc h = Some (TD_Base BASE_INT)" "op_number b < 5"
  shows "folded (Expr h (Binary_Expr b l r (int_value n))) n"
  using assms by (simp add: folded_def get_constvalue_def Expr_Is_Const_def exp_desc_def int_value_def base_defs)

definition keeps_type :: "(ExprHead \<Rightarrow> ExprHead) \<Rightarrow> bool" where
  "keeps_type f \<longleftrightarrow> (\<forall>h. eh_desc (f h) = eh_desc h \<and> eh_sym (f h) = eh_sym h)"

definition folds_to :: "ParserState \<Rightarrow> Expr \<Rightarrow> uint64 \<Rightarrow> bool" where
  "folds_to ps e n \<longleftrightarrow> exp_desc e = Some (TD_Base BASE_INT) \<and>
     (\<forall>f. keeps_type f \<longrightarrow> (\<exists>e'. parse_expr ps (set_head f e) = Inr (ps, e') \<and> folded e' n \<and> exp_head e' = f (exp_head e)))"

lemma folds_to_loading: "folds_to ps e n \<Longrightarrow> \<exists>e'. parse_expr ps (loading e) = Inr (ps, e') \<and> folded e' n \<and> eh_ctx (exp_head e') = EXPR_LOAD"
proof -
  let ?f = "\<lambda>h. h\<lparr>eh_ctx := EXPR_LOAD\<rparr>"
  assume "folds_to ps e n"
  moreover have "keeps_type ?f" by (simp add: keeps_type_def)
  ultimately obtain e' where "parse_expr ps (set_head ?f e) = Inr (ps, e')" "folded e' n" "exp_head e' = ?f (exp_head e)"
    unfolding folds_to_def by blast
  then show ?thesis by (intro exI [of _ e']) (simp add: loading_def)
qed

lemma binary_folds:
  assumes "\<not> too_many ps" "folds_to ps l a" "folds_to ps r b" "op_number bop < 5"
    "\<And>l' r' h v. folded l' a \<Longrightarrow> folded r' b \<Longrightarrow> eh_desc h = Some (TD_Base BASE_INT) \<Longrightarrow>
       binary_of ps h bop l' r' v = Inr (ps, h, int_value c)"
  shows "folds_to ps (Expr_From_Binary bop l r) c"
proof -
  obtain l' where l': "parse_expr ps (loading l) = Inr (ps, l')" "folded l' a" using folds_to_loading [OF assms(2)] by blast
  obtain r' where r': "parse_expr ps (loading r) = Inr (ps, r')" "folded r' b" using folds_to_loading [OF assms(3)] by blast
  have d: "exp_desc l' \<noteq> None" "exp_desc r' \<noteq> None" using l'(2) r'(2) by (simp_all add: folded_def)
  have l: "exp_desc l = Some (TD_Base BASE_INT)" using assms(2) by (simp add: folds_to_def)
  have "\<exists>e'. parse_expr ps (set_head f (Expr_From_Binary bop l r)) = Inr (ps, e') \<and> folded e' c \<and>
      exp_head e' = f (exp_head (Expr_From_Binary bop l r))" if "keeps_type f" for f
  proof -
    let ?h = "f (new_head\<lparr>eh_desc := exp_desc l\<rparr>)"
    have h: "eh_desc ?h = Some (TD_Base BASE_INT)" using that l by (simp add: keeps_type_def)
    have "parse_expr ps (set_head f (Expr_From_Binary bop l r)) = Inr (ps, Expr ?h (Binary_Expr bop l' r' (int_value c)))"
      using assms(1,4) l'(1) r'(1) d assms(5) [OF l'(2) r'(2) h]
      by (simp add: Expr_From_Binary_def op_string_def bind_run_def)
    with folded_binary [OF h assms(4)] show ?thesis by (auto simp: Expr_From_Binary_def)
  qed
  with l show ?thesis by (simp add: folds_to_def Expr_From_Binary_def exp_desc_def)
qed

lemma integer_folds:
  assumes "\<not> too_many ps"
  shows "\<exists>e. Expr_From_Integer n = Inr e \<and> folds_to ps e n"
proof -
  have "TypeDesc_Get_Base BASE_INT = Inr (TD_Base BASE_INT)"
    by (simp add: TypeDesc_Get_Base_def get_basic_def basic_types_def base_defs)
  with assms show ?thesis
    by (auto simp: Expr_From_Integer_def const_expr_def bind_run_def exp_desc_def folded_def get_constvalue_def
        Expr_Is_Const_def int_value_def folds_to_def keeps_type_def)
qed

lemma sum_folds:
  assumes "\<not> too_many ps"
  shows "\<exists>e. sum_expr t = Inr e \<and> folds_to ps e (value_of t)"
proof (induction t)
  case (Lit n)
  show ?case using integer_folds [OF assms] by simp
next
  case (Add a b)
  then obtain l r where "sum_expr a = Inr l" "folds_to ps l (value_of a)" "sum_expr b = Inr r" "folds_to ps r (value_of b)" by blast
  with binary_folds [OF assms, of l "value_of a" r "value_of b" BINARY_ADD "value_of a + value_of b"] fold_binary(1)
  show ?case by (simp add: bind_run_def op_number_def)
next
  case (Sub a b)
  then obtain l r where "sum_expr a = Inr l" "folds_to ps l (value_of a)" "sum_expr b = Inr r" "folds_to ps r (value_of b)" by blast
  with binary_folds [OF assms, of l "value_of a" r "value_of b" BINARY_SUB "value_of a - value_of b"] fold_binary(2)
  show ?case by (simp add: bind_run_def op_number_def)
qed

text \<open>
  C11: A sum or difference of integer literals, however nested, is folded: visiting it appends one instruction
  to the code of the scope, which loads the value of the expression with 64-bit wrap-around, and reports
  nothing.
\<close>

theorem integer_sums_folded:
  assumes "ps_u ps = Some u" "pu_block u = Some b" "\<not> too_many ps"
  shows "\<exists>e e' b'. sum_expr t = Inr e \<and> Inst_Append b LOAD_CONST (Some (int_value (value_of t))) = Inr b' \<and>
    parser_visit_expr ps (loading e) = Inr (ps\<lparr>ps_u := Some (u\<lparr>pu_block := Some b'\<rparr>)\<rparr>, e')"
proof -
  obtain e where e: "sum_expr t = Inr e" "folds_to ps e (value_of t)" using sum_folds [OF assms(3)] by blast
  obtain e' where e': "parse_expr ps (loading e) = Inr (ps, e')" "folded e' (value_of t)" "eh_ctx (exp_head e') = EXPR_LOAD"
    using folds_to_loading [OF e(2)] by blast
  have "OpCode_ArgCount LOAD_CONST = Inr 0" by (simp add: OpCode_ArgCount_def opcodes_def LOAD_CONST_def)
  then obtain b' where b': "Inst_Append b LOAD_CONST (Some (int_value (value_of t))) = Inr b'"
    by (cases b) (simp add: inst_new_def bind_run_def Let_def)
  have "code_expr ps e' = Inr (ps\<lparr>ps_u := Some (u\<lparr>pu_block := Some b'\<rparr>)\<rparr>)"
  proof -
    let ?v = "int_value (value_of t)"
    have em: "emit ps (\<lambda>b. Inst_Append b LOAD_CONST (Some ?v)) = Inr (ps\<lparr>ps_u := Some (u\<lparr>pu_block := Some b'\<rparr>)\<rparr>)"
      using assms(1,2) b' by (simp add: emit_def with_unit_def the_block_def bind_run_def)
    have k: "cv_kind ?v \<noteq> NUL" by (simp add: int_value_def base_defs)
    consider "exp_node e' = Const_Expr ?v" | bop l r where "exp_node e' = Binary_Expr bop l r ?v" "op_number bop < 5"
      using e'(2) by (cases "exp_node e'") (auto simp: folded_def get_constvalue_def)
    then show ?thesis
    proof cases
      case 1
      with em e'(3) show ?thesis by (simp add: code_expr_def code_const_expr_def)
    next
      case 2
      with em k assms(3) show ?thesis
        by (simp add: code_expr_def code_const_expr_def Code_Binary_Expr_def op_string_def bind_run_def)
    qed
  qed
  with e(1) e'(1) b' assms(3) show ?thesis by (simp add: parser_visit_expr_def bind_run_def)
qed

lemma integer_sums_folded_witness:
  "\<exists>ps e ps' e'. sum_expr (Sub (Add (Lit 40) (Lit 5)) (Lit 3)) = Inr e \<and> parser_visit_expr ps (loading e) = Inr (ps', e') \<and>
     map_option (\<lambda>u. map_option (map in_arg \<circ> cb_insts) (pu_block u)) (ps_u ps') = Some (Some [int_value 42])"
proof -
  let ?u = "new_parser_unit SCOPE_FUNCTION"
  let ?ps = "(New_Parser ''app'' None STable_New Map.empty Map.empty [] undefined)\<lparr>ps_u := Some ?u\<rparr>"
  let ?t = "Sub (Add (Lit 40) (Lit 5)) (Lit 3)"
  have u: "ps_u ?ps = Some ?u" "pu_block ?u = Some CodeBlock_New" "\<not> too_many ?ps"
    by (simp_all add: new_parser_unit_def too_many_def New_Parser_def MAX_ERRORS_def)
  obtain e e' b' where r: "sum_expr ?t = Inr e" "Inst_Append CodeBlock_New LOAD_CONST (Some (int_value (value_of ?t))) = Inr b'"
    "parser_visit_expr ?ps (loading e) = Inr (?ps\<lparr>ps_u := Some (?u\<lparr>pu_block := Some b'\<rparr>)\<rparr>, e')"
    using integer_sums_folded [OF u, of ?t] by blast
  have "map in_arg (cb_insts b') = [int_value 42]"
    using r(2) by (auto simp: CodeBlock_New_def bind_run_eq_Inr_iff inst_new_def Let_def)
  with r(1,3) show ?thesis
    by (intro exI [of _ ?ps] exI [of _ e] exI [of _ "?ps\<lparr>ps_u := Some (?u\<lparr>pu_block := Some b'\<rparr>)\<rparr>"] exI [of _ e'] conjI) simp_all
qed

text \<open>
  The sum of two doubles is an integer: the bits of the first, read as an integer, are added to the second and
  converted.
\<close>

lemma float_sum_is_integer:
  "optimize_binary_expr ps (TD_Base BASE_FLOAT) BINARY_ADD
     (Expr h (Const_Expr \<lparr>cv_kind = BASE_FLOAT, cv_raw = x, cv_str = None\<rparr>))
     (Expr h (Const_Expr \<lparr>cv_kind = BASE_FLOAT, cv_raw = y, cv_str = None\<rparr>)) v = Inr (ps, int_value (en_fadd (ps_env ps) x y))"
  by (simp add: optimize_binary_expr_def optimize_int_add_def get_constvalue_def bind_run_def Let_def ival_def base_defs)

text \<open>A product of constants has no value and no code.\<close>

lemma product_has_no_code:
  "optimize_binary_expr ps (TD_Base BASE_INT) BINARY_MULT
     (Expr h (Const_Expr (int_value x))) (Expr h (Const_Expr (int_value y))) no_const = Inr (ps, no_const)"
  "Code_Binary_Expr ps BINARY_MULT no_const = Inr ps"
  by (simp_all add: optimize_binary_expr_def optimize_int_none_def get_constvalue_def bind_run_def known_const_def
      int_value_def base_defs Code_Binary_Expr_def op_string_def op_number_def no_const_def)

text \<open>An undefined name on either side of a binary operation stops the compiler, after the error.\<close>

lemma undefined_operand_aborts:
  assumes "ps_u ps = Some u" "dots_ok ps" "\<not> too_many ps" "first_hit (visible ps) name = None" "op_number b < 5"
  shows "parse_expr ps (Expr h (Binary_Expr b (Expr_From_Ident name) r v)) = Inl Assert_Failed"
proof -
  have "Parse_Ident_Expr ps (loading (Expr_From_Ident name)) name = Inr (error (0, 0) ''cannot find symbol'' ps, loading (Expr_From_Ident name))"
    using assms(1-4)
    by (auto simp: Parse_Ident_Expr_def loading_def Expr_From_Ident_def exp_sym_def exp_desc_def exp_pos_def new_head_def
        with_unit_def visible_def first_hit_append find_up_hit dots_ok_def split: option.splits sum.splits)
  with assms(3,5) show ?thesis
    by (simp add: op_string_def bind_run_def loading_def Expr_From_Ident_def exp_desc_def new_head_def)
qed

end
