(* ===== verification/ParserStmt.thy ===== *)
theory ParserStmt
  imports ParserExpr
begin

text \<open>
  The semantic analysis of statements and the code generated for them (\<^verbatim>\<open>src/parser.c\<close>): the declaration of
  variables in modules, functions and blocks, assignments, functions, returns, blocks, and the parsing of a
  module. The statements are freed when they have been parsed; what is stored into them is not answered.
\<close>

subsection \<open>Declaring variables\<close>

text \<open>Appending a variable to the local variables of a function.\<close>

definition local_var :: "string \<Rightarrow> TypeDesc option \<Rightarrow> int \<Rightarrow> VarSymbol" where
  "local_var name desc index = \<lparr>vs_kind = SYM_VAR, vs_name = name, vs_desc = desc, vs_index = index\<rparr>"

definition add_locvec :: "ParserState \<Rightarrow> SymRef option \<Rightarrow> VarSymbol \<Rightarrow> ParserState run" where
  "add_locvec ps sr v = (case sr of
     None \<Rightarrow> Inl Null_Deref
   | Some r \<Rightarrow> (case ref_get (ps_module ps) r of
       None \<Rightarrow> Inl Null_Deref
     | Some s \<Rightarrow> if sym_kind s \<notin> {SYM_FUNC, SYM_AFUNC} then Inl Out_Of_Bounds
         else Inr (ps\<lparr>ps_module := ref_update (ps_module ps) r
           (\<lambda>s. s\<lparr>sym_locvec := sym_locvec s @ [v]\<rparr>) (\<lambda>s. s\<lparr>sym_locvec := sym_locvec s @ [v]\<rparr>)\<rparr>)))"

text \<open>
  The variables of modules and classes are in their tables since the syntax tree was built.
\<close>

definition update_variable :: "ParserState \<Rightarrow> ParserUnit \<Rightarrow> Ident \<Rightarrow> TypeDesc option \<Rightarrow> (ParserState \<times> unit STable Symbol option) run" where
  "update_variable ps u ident desc = (case unit_get ps u (id_name ident) of
     None \<Rightarrow> Inl Assert_Failed
   | Some s \<Rightarrow>
       if sym_kind s \<notin> {SYM_CONST, SYM_VAR} then Inl Assert_Failed
       else if sym_desc s \<noteq> None then Inr (ps, Some s)
       else bind_run (the_desc desc) (\<lambda>d. bind_run (show_type d) (\<lambda>_.
         Inr (unit_update ps u (id_name ident) (\<lambda>s. s\<lparr>sym_desc := desc\<rparr>) (\<lambda>s. s\<lparr>sym_desc := desc\<rparr>),
              Some (s\<lparr>sym_desc := desc\<rparr>)))))"

definition add_var :: "ParserState \<Rightarrow> Ident \<Rightarrow> TypeDesc option \<Rightarrow> ParserState option run" where
  "add_var ps ident desc = unit_add ps (\<lambda>t. STable_Add_Var t (id_name ident) desc) (\<lambda>t. STable_Add_Var t (id_name ident) desc)"

definition function_variable :: "ParserState \<Rightarrow> Ident \<Rightarrow> TypeDesc option \<Rightarrow> (ParserState \<times> unit STable Symbol option) run" where
  "function_variable ps ident desc = bind_run (add_var ps ident desc) (\<lambda>r. case r of
     None \<Rightarrow> Inr (error (id_pos ident) ''var is duplicated'' ps, None)
   | Some ps1 \<Rightarrow> with_unit ps1 (\<lambda>u. case unit_get ps1 u (id_name ident) of
       None \<Rightarrow> Inl Null_Deref
     | Some s \<Rightarrow> bind_run (add_locvec ps1 (pu_sym u) (local_var (id_name ident) desc (sym_index s))) (\<lambda>ps2.
         Inr (unit_update ps2 u (id_name ident) (\<lambda>s. s\<lparr>sym_refcnt := sym_refcnt s + 1\<rparr>) (\<lambda>s. s\<lparr>sym_refcnt := sym_refcnt s + 1\<rparr>),
              Some (s\<lparr>sym_refcnt := sym_refcnt s + 1\<rparr>)))))"

text \<open>
  \<open>parse_block_variable\<close>: the number of the scope of the function in the stack, \<open>None\<close> when there is none;
  \<open>Inl\<close> when a scope on the way declares the name.
\<close>

fun parse_block_variable :: "ParserState \<Rightarrow> ParserUnit list \<Rightarrow> nat \<Rightarrow> string \<Rightarrow> unit + nat option" where
  "parse_block_variable ps [] k name = Inr None"
| "parse_block_variable ps (uu # us) k name = (case unit_get ps uu name of
     Some s \<Rightarrow> Inl ()
   | None \<Rightarrow> if pu_scope uu \<in> {SCOPE_FUNCTION, SCOPE_CLOSURE} then Inr (Some k)
       else parse_block_variable ps us (k + 1) name)"

text \<open>\<open>uu->stbl->varindex++\<close>\<close>

definition next_index :: "UnitTable \<Rightarrow> (int \<times> UnitTable) run" where
  "next_index t = (case t of Own_Table own \<Rightarrow> Inr (st_varindex own, Own_Table (own\<lparr>st_varindex := st_varindex own + 1\<rparr>))
     | _ \<Rightarrow> Inl Null_Deref)"

definition block_variable :: "ParserState \<Rightarrow> Ident \<Rightarrow> TypeDesc option \<Rightarrow> (ParserState \<times> unit STable Symbol option) run" where
  "block_variable ps ident desc = (case parse_block_variable ps (ps_ustack ps) 0 (id_name ident) of
     Inl _ \<Rightarrow> Inr (error (id_pos ident) ''var is already declared'' ps, None)
   | Inr None \<Rightarrow> Inr (ps, None)
   | Inr (Some k) \<Rightarrow> bind_run (add_var ps ident desc) (\<lambda>r. case r of
       None \<Rightarrow> Inr (error (id_pos ident) ''var is duplicated'' ps, None)
     | Some ps1 \<Rightarrow> with_unit ps1 (\<lambda>u.
         let uu = ps_ustack ps1 ! k; name = id_name ident in
         bind_run (next_index (pu_stbl uu)) (\<lambda>(index, t).
         bind_run (add_locvec ps1 (pu_sym uu) (local_var name desc index)) (\<lambda>ps2.
         let ps3 = ps2\<lparr>ps_ustack := (ps_ustack ps2)[k := uu\<lparr>pu_stbl := t\<rparr>]\<rparr>;
             ps4 = unit_update ps3 u name (\<lambda>s. s\<lparr>sym_index := index, sym_refcnt := sym_refcnt s + 1\<rparr>)
               (\<lambda>s. s\<lparr>sym_index := index, sym_refcnt := sym_refcnt s + 1\<rparr>) in
         with_unit ps4 (\<lambda>u4. Inr (ps4, unit_get ps4 u4 name)))))))"

definition update_add_variable :: "ParserState \<Rightarrow> Ident \<Rightarrow> TypeDesc option \<Rightarrow> (ParserState \<times> unit STable Symbol option) run" where
  "update_add_variable ps ident desc = with_unit ps (\<lambda>u.
     if pu_scope u \<in> {SCOPE_MODULE, SCOPE_CLASS} then update_variable ps u ident desc
     else if pu_scope u = SCOPE_BLOCK then block_variable ps ident desc
     else function_variable ps ident desc)"

text \<open>\<open>__save_const_to_symbol\<close>: a constant that has been folded is not one of the expressions it knows.\<close>

definition const_of :: "Expr \<Rightarrow> ConstValue run" where
  "const_of e = (case exp_node e of
     Const_Expr v \<Rightarrow> Inr v
   | Ident_Expr name w \<Rightarrow> (case exp_sym e of
       None \<Rightarrow> Inl Assert_Failed
     | Some s \<Rightarrow> if sym_kind s \<noteq> SYM_CONST then Inl Assert_Failed else Inr (sym_value s))
   | _ \<Rightarrow> Inl Assert_Failed)"

definition save_const :: "ParserState \<Rightarrow> string \<Rightarrow> Expr option \<Rightarrow> ParserState run" where
  "save_const ps name rexp = (case rexp of
     None \<Rightarrow> Inl Null_Deref
   | Some e \<Rightarrow> bind_run (const_of e) (\<lambda>v. with_unit ps (\<lambda>u.
       Inr (unit_update ps u name (\<lambda>s. s\<lparr>sym_value := v\<rparr>) (\<lambda>s. s\<lparr>sym_value := v\<rparr>)))))"

text \<open>The type of a variable that is declared with a value: \<open>None\<close> after an error.\<close>

definition variable_type :: "ParserState \<Rightarrow> TypeDesc option \<Rightarrow> Expr \<Rightarrow> bool \<Rightarrow> (ParserState \<times> TypeDesc option) run" where
  "variable_type ps tdesc rexp konst = (case exp_desc rexp of
     None \<Rightarrow> Inr (error (exp_pos rexp) ''cannot resolve right expression type'' ps, None)
   | Some rdesc \<Rightarrow>
       if konst \<and> \<not> Expr_Is_Const rexp then Inr (error (exp_pos rexp) ''not a valid constant expression'' ps, None)
       else bind_run (if is_call rexp then
           bind_run (assert_proto (Some rdesc)) (\<lambda>(arg, ret). if length ret \<noteq> 1 then Inr None else Inr (Some (hd ret)))
         else Inr (Some rdesc)) (\<lambda>r. case r of
         None \<Rightarrow> Inr (error (exp_pos rexp) ''multiple-value in single-value context'' ps, None)
       | Some d \<Rightarrow> (case tdesc of
           None \<Rightarrow> bind_run (show_type d) (\<lambda>_. Inr (ps, Some d))
         | Some t \<Rightarrow> if TypeDesc_Equal (Some t) (Some d) then Inr (ps, Some t)
             else Inr (error (exp_pos rexp) ''right expression type is not compatible'' ps, None))))"

text \<open>The code that stores the value, which is on the stack, into the variable.\<close>

definition store_variable :: "ParserState \<Rightarrow> unit STable Symbol \<Rightarrow> ParserState run" where
  "store_variable ps s = with_unit ps (\<lambda>u.
     if pu_scope u \<in> {SCOPE_MODULE, SCOPE_CLASS} then emit ps (\<lambda>b. CODE_STORE_FIELD b (sym_name s))
     else emit ps (\<lambda>b. CODE_STORE b (sym_index s)))"

definition parse_variable :: "ParserState \<Rightarrow> Ident \<Rightarrow> TypeDesc option \<Rightarrow> Expr option \<Rightarrow> bool \<Rightarrow> ParserState run" where
  "parse_variable ps ident tdesc rexp konst =
     bind_run (case rexp of
         None \<Rightarrow> Inr (ps, None, tdesc, True)
       | Some e \<Rightarrow> bind_run (parser_visit_expr ps (loading e)) (\<lambda>(ps1, e1).
           bind_run (variable_type ps1 tdesc e1 konst) (\<lambda>(ps2, d). Inr (ps2, Some e1, d, d \<noteq> None)))) (\<lambda>(ps1, e, d, ok).
     if \<not> ok then Inr ps1
     else bind_run (update_add_variable ps1 ident d) (\<lambda>(ps2, r). case r of
       None \<Rightarrow> Inr ps2
     | Some s \<Rightarrow>
         bind_run (if konst then save_const ps2 (id_name ident) e else Inr ps2) (\<lambda>ps3.
           if e = None then Inr ps3 else store_variable ps3 s)))"

text \<open>Several variables and a call that returns several values; no code is generated yet.\<close>

fun update_add_variables :: "ParserState \<Rightarrow> Ident list \<Rightarrow> TypeDesc list \<Rightarrow> ParserState run" where
  "update_add_variables ps (i # is) (d # ds) =
     bind_run (update_add_variable ps i (Some d)) (\<lambda>(ps1, r). case r of None \<Rightarrow> Inr ps1 | Some s \<Rightarrow> update_add_variables ps1 is ds)"
| "update_add_variables ps _ _ = Inr ps"

definition parse_varlistdecl :: "ParserState \<Rightarrow> Ident list \<Rightarrow> TypeDesc option \<Rightarrow> Expr \<Rightarrow> bool \<Rightarrow> ParserState run" where
  "parse_varlistdecl ps ids tdesc rexp konst =
     (if konst then Inl Assert_Failed
      else if \<not> is_call rexp then Inr (error (exp_pos rexp) ''right expression is not a multi-value'' ps)
      else bind_run (parser_visit_expr ps (loading rexp)) (\<lambda>(ps1, e).
        if exp_desc e = None then Inr ps1
        else bind_run (assert_proto (exp_desc e)) (\<lambda>(arg, ret).
          if length ret \<noteq> length ids then Inr (error (exp_pos e) ''assignment mismatch'' ps1)
          else if tdesc \<noteq> None \<and> \<not> (\<forall>d \<in> set ret. TypeDesc_Equal tdesc (Some d)) then
            Inr (error (exp_pos e) ''right expression type is not compatible'' ps1)
          else with_unit ps1 (\<lambda>u. if pu_scope u = SCOPE_CLASS then Inl Assert_Failed else update_add_variables ps1 ids ret))))"

subsection \<open>Assignments and returns\<close>

definition storing :: "Expr \<Rightarrow> Expr" where
  "storing e = set_head (\<lambda>h. h\<lparr>eh_ctx := EXPR_STORE\<rparr>) e"

definition parse_assign :: "ParserState \<Rightarrow> AssignOpKind \<Rightarrow> Expr \<Rightarrow> Expr \<Rightarrow> ParserState run" where
  "parse_assign ps a lexp rexp =
     (if a \<noteq> OP_ASSIGN then Inl Assert_Failed
      else bind_run (parser_visit_expr ps (loading rexp)) (\<lambda>(ps1, r).
        bind_run (parser_visit_expr ps1 (storing lexp)) (\<lambda>(ps2, l).
        case exp_desc r of
          None \<Rightarrow> Inr (error (exp_pos r) ''cannot resolve right expression type'' ps2)
        | Some d \<Rightarrow> (case (case d of TD_Proto arg ret \<Rightarrow> if length ret \<noteq> 1 then None else Some (hd ret) | _ \<Rightarrow> Some d) of
            None \<Rightarrow> Inr (error (exp_pos r) ''multiple-value in single-value context'' ps2)
          | Some rdesc \<Rightarrow>
              if \<not> TypeDesc_Equal (exp_desc l) (Some rdesc) then
                Inr (error (exp_pos r) ''right expression type is not compatible'' ps2)
              else Inr ps2))))"

fun assign_values :: "ParserState \<Rightarrow> Position \<Rightarrow> Expr list \<Rightarrow> TypeDesc list \<Rightarrow> ParserState run" where
  "assign_values ps pos (l # ls) (d # ds) =
     bind_run (parser_visit_expr ps (storing l)) (\<lambda>(ps1, l1).
       if \<not> TypeDesc_Equal (exp_desc l1) (Some d) then Inr (error pos ''right expression type is not compatible'' ps1)
       else assign_values ps1 pos ls ds)"
| "assign_values ps pos _ _ = Inr ps"

definition parse_assignlist :: "ParserState \<Rightarrow> Expr list \<Rightarrow> Expr \<Rightarrow> ParserState run" where
  "parse_assignlist ps left rexp =
     (if \<not> is_call rexp then Inr (error (exp_pos rexp) ''right expression is not a multi-value'' ps)
      else bind_run (parser_visit_expr ps (loading rexp)) (\<lambda>(ps1, e).
        case exp_desc e of
          None \<Rightarrow> Inl Assert_Failed
        | Some d \<Rightarrow> bind_run (assert_proto (Some d)) (\<lambda>(arg, ret).
            if length ret \<noteq> length left then Inr (error (exp_pos e) ''assignment mismatch'' ps1)
            else assign_values ps1 (exp_pos e) left ret)))"

fun visit_list :: "ParserState \<Rightarrow> Expr list \<Rightarrow> (ParserState \<times> Expr list) run" where
  "visit_list ps [] = Inr (ps, [])"
| "visit_list ps (e # es) = bind_run (parser_visit_expr ps (loading e)) (\<lambda>(ps1, e1).
     bind_run (visit_list ps1 es) (\<lambda>(ps2, es1). Inr (ps2, e1 # es1)))"

text \<open>The function a statement is in; when there is none the variable is not set, which is taken as the failed assertion.\<close>

definition enclosing_function :: "ParserState \<Rightarrow> ParserUnit \<Rightarrow> SymRef option" where
  "enclosing_function ps u = (if pu_scope u = SCOPE_FUNCTION then pu_sym u
     else case find (\<lambda>uu. pu_scope uu = SCOPE_FUNCTION) (ps_ustack ps) of None \<Rightarrow> None | Some uu \<Rightarrow> pu_sym uu)"

fun set_ret :: "CodeBlock \<Rightarrow> CodeBlock" where
  "set_ret (CodeBlock bytes insts next ret) = CodeBlock bytes insts next 1"

definition parse_return :: "ParserState \<Rightarrow> Position \<Rightarrow> Expr list \<Rightarrow> ParserState run" where
  "parse_return ps pos exps = with_unit ps (\<lambda>u. case enclosing_function ps u of
     None \<Rightarrow> Inl Assert_Failed
   | Some r \<Rightarrow> (case ref_get (ps_module ps) r of
       None \<Rightarrow> Inl Null_Deref
     | Some s \<Rightarrow>
         if sym_kind s \<noteq> SYM_FUNC then Inl Assert_Failed
         else bind_run (visit_list ps exps) (\<lambda>(ps1, es).
           bind_run (assert_proto (sym_desc s)) (\<lambda>(arg, ret).
           bind_run (check_expr_types ret es) (\<lambda>ok.
             if \<not> ok then Inr (error pos ''returns are not matched'' ps1)
             else emit ps1 (\<lambda>b. bind_run (Inst_Append_NoArg b RETURN) (\<lambda>b1. Inr (set_ret b1))))))))"

subsection \<open>Functions, blocks and classes\<close>

definition with_own_table :: "ParserState \<Rightarrow> ParserState" where
  "with_own_table ps = ps\<lparr>ps_u := map_option (\<lambda>u. u\<lparr>pu_stbl := Own_Table STable_New\<rparr>) (ps_u ps)\<rparr>"

definition enter_function :: "ParserState \<Rightarrow> Ident \<Rightarrow> ParserState run" where
  "enter_function ps ident = (let ps1 = with_own_table (Parser_Enter_Scope ps SCOPE_FUNCTION) in
     case ps_ustack ps1 of
       [] \<Rightarrow> Inl Assert_Failed
     | uu # _ \<Rightarrow>
         if pu_scope uu \<notin> {SCOPE_MODULE, SCOPE_CLASS} then Inl Assert_Failed
         else if unit_get ps1 uu (id_name ident) = None then Inl Assert_Failed
         else Inr (ps1\<lparr>ps_u := map_option (\<lambda>u. u\<lparr>pu_sym := Some (unit_ref uu (id_name ident))\<rparr>) (ps_u ps1)\<rparr>))"

text \<open>The named results and the parameters of a function are variables.\<close>

fun parse_idtypes :: "bool \<Rightarrow> ParserState \<Rightarrow> IdType list \<Rightarrow> ParserState run" where
  "parse_idtypes optional ps [] = Inr ps"
| "parse_idtypes optional ps (it # rest) = bind_run (case it_id it of
     None \<Rightarrow> if optional then Inr ps else Inl Null_Deref
   | Some i \<Rightarrow> parse_variable ps i (tw_desc (it_type it)) None False) (\<lambda>ps1. parse_idtypes optional ps1 rest)"

definition enter_class :: "ParserState \<Rightarrow> Ident \<Rightarrow> ParserState run" where
  "enter_class ps ident = with_unit ps (\<lambda>u. case unit_get ps u (id_name ident) of
     None \<Rightarrow> Inl Assert_Failed
   | Some s \<Rightarrow> (let ps1 = Parser_Enter_Scope ps SCOPE_CLASS in
       Inr (ps1\<lparr>ps_u := map_option (\<lambda>u. u\<lparr>pu_sym := Some (None, id_name ident), pu_stbl := Class_Table (id_name ident)\<rparr>) (ps_u ps1)\<rparr>)))"

text \<open>
  The table of the functions of the kinds of statements has one for type aliases, which are not a kind of
  statement: a class gets the function for type aliases, which does nothing, and a trait that for classes.
\<close>

fun parse_statement :: "ParserState \<Rightarrow> Stmt \<Rightarrow> ParserState run"
and parse_statements :: "ParserState \<Rightarrow> Stmt list \<Rightarrow> ParserState run" where
  "parse_statement ps (VarDecl_Stmt ident type exp konst) =
     (if too_many ps then Inr ps else parse_variable ps ident (tw_desc type) exp konst)"
| "parse_statement ps (VarListDecl_Stmt ids type exp konst) =
     (if too_many ps then Inr ps else parse_varlistdecl ps ids (tw_desc type) exp konst)"
| "parse_statement ps (Assign_Stmt a left right) =
     (if too_many ps then Inr ps else parse_assign ps a left right)"
| "parse_statement ps (AssignList_Stmt left right) =
     (if too_many ps then Inr ps else parse_assignlist ps left right)"
| "parse_statement ps (FuncDecl_Stmt ident args rets body) =
     (if too_many ps then Inr ps
      else bind_run (enter_function ps ident) (\<lambda>ps1.
        bind_run (parse_idtypes True ps1 rets) (\<lambda>ps2.
        bind_run (parse_idtypes False ps2 args) (\<lambda>ps3.
        bind_run (parse_statements ps3 body) Parser_Exit_Scope))))"
| "parse_statement ps (ProtoDecl_Stmt native ident args rets) = Inr ps"
| "parse_statement ps (Expr_Stmt exp) =
     (if too_many ps then Inr ps else bind_run (parser_visit_expr ps (loading exp)) (\<lambda>(ps1, e1). Inr ps1))"
| "parse_statement ps (Return_Stmt pos exps) =
     (if too_many ps then Inr ps else parse_return ps pos exps)"
| "parse_statement ps (List_Stmt block vec) =
     (if too_many ps then Inr ps
      else if block then bind_run (parse_statements (with_own_table (Parser_Enter_Scope ps SCOPE_BLOCK)) vec) Parser_Exit_Scope
      else parse_statements ps vec)"
| "parse_statement ps (Klass_Stmt ident supers body) = Inr ps"
| "parse_statement ps (Trait_Stmt ident supers body) =
     (if too_many ps then Inr ps
      else bind_run (enter_class ps ident) (\<lambda>ps1. bind_run (parse_statements ps1 body) Parser_Exit_Scope))"
| "parse_statements ps [] = Inr ps"
| "parse_statements ps (s # ss) = bind_run (parse_statement ps s) (\<lambda>ps1. parse_statements ps1 ss)"

subsection \<open>Modules\<close>

definition enter_module :: "ParserState \<Rightarrow> ParserState" where
  "enter_module ps = (let ps1 = Parser_Enter_Scope ps SCOPE_MODULE in
     ps1\<lparr>ps_u := map_option (\<lambda>u. u\<lparr>pu_stbl := Pkg_Table\<rparr>) (ps_u ps1)\<rparr>)"

text \<open>\<open>Build_AST\<close>: \<open>yyparse\<close> is what the generated parser does to the state.\<close>

definition Build_AST :: "(ParserState \<Rightarrow> ParserState run) \<Rightarrow> ParserState \<Rightarrow> ParserState run" where
  "Build_AST yyparse ps = bind_run (yyparse (enter_module ps)) Parser_Exit_Scope"

definition Parse_AST :: "ParserState \<Rightarrow> ParserState run" where
  "Parse_AST ps = bind_run (Parse_Imports ps) (\<lambda>ps1.
     let ps2 = CheckConflictWithExternal ps1 in
     bind_run (parse_statements (enter_module ps2) (ps_stmts ps2)) Parser_Exit_Scope)"

subsection \<open>The scopes are restored\<close>

definition frames :: "ParserState \<Rightarrow> (ScopeKind \<times> SymRef option \<times> UnitTable \<times> bool) list" where
  "frames ps = map unit_frame ((case ps_u ps of None \<Rightarrow> [] | Some u \<Rightarrow> [u]) @ ps_ustack ps)"

text \<open>The same scopes, and no error forgotten.\<close>

definition balanced :: "ParserState \<Rightarrow> ParserState \<Rightarrow> bool" where
  "balanced ps ps' \<longleftrightarrow> ps_depth ps' = ps_depth ps \<and> (ps_u ps' = None \<longleftrightarrow> ps_u ps = None) \<and> frames ps' = frames ps \<and>
     er_num (ps_log ps) \<le> er_num (ps_log ps')"

lemma balanced_refl [simp]: "balanced ps ps" by (simp add: balanced_def)

lemma balanced_trans [trans]: "balanced a b \<Longrightarrow> balanced b c \<Longrightarrow> balanced a c"
  by (auto simp: balanced_def)

lemma balanced_errors: "only_errors ps ps' \<Longrightarrow> balanced ps ps'"
  by (auto simp: only_errors_def balanced_def frames_def)

lemma balanced_error [simp]: "balanced ps (error pos fmt ps)"
  by (rule balanced_errors) simp

lemma balanced_code: "only_code ps ps' \<Longrightarrow> balanced ps ps'"
  by (auto simp: only_code_def balanced_def frames_def unit_frame_def)

lemma balanced_scopes: "same_scopes ps ps' \<Longrightarrow> ps_log ps' = ps_log ps \<Longrightarrow> balanced ps ps'"
  by (cases "ps_u ps"; cases "ps_u ps'") (auto simp: same_scopes_def balanced_def frames_def)

lemma balanced_add: "unit_add ps add addm = Inr (Some ps') \<Longrightarrow> balanced ps ps'"
  using unit_add_frame balanced_scopes by blast

lemma balanced_module [simp]: "balanced ps (ps\<lparr>ps_module := m\<rparr>)"
  by (simp add: balanced_def frames_def)

lemma balanced_update: "ps_u ps = Some u \<Longrightarrow> balanced ps (unit_update ps u name f g)"
  by (cases "pu_stbl u") (auto simp: unit_update_def balanced_def frames_def unit_frame_def table_kind_def)

lemma balanced_visit:
  assumes "parser_visit_expr ps e = Inr (ps', e')"
  shows "balanced ps ps'"
proof -
  obtain ps1 where 1: "parse_expr ps e = Inr (ps1, e')" and 2: "ps' = ps1 \<or> code_expr ps1 e' = Inr ps'"
    using assms by (auto simp: parser_visit_expr_def bind_run_eq_Inr_iff split: if_splits)
  have "balanced ps ps1" using parse_errors(1) [OF 1] by (rule balanced_errors)
  moreover have "balanced ps1 ps'" using 2 code_errors balanced_code by auto
  ultimately show ?thesis by (rule balanced_trans)
qed

lemma balanced_locvec: "add_locvec ps sr v = Inr ps' \<Longrightarrow> balanced ps ps'"
  by (auto simp: add_locvec_def split: option.splits if_splits)

lemma balanced_update_variable:
  "update_variable ps u i d = Inr (ps', r) \<Longrightarrow> ps_u ps = Some u \<Longrightarrow> balanced ps ps'"
  by (auto simp: update_variable_def bind_run_eq_Inr_iff balanced_update split: option.splits if_splits)

lemma balanced_function_variable:
  assumes "function_variable ps i d = Inr (ps', r)"
  shows "balanced ps ps'"
proof -
  obtain q where q: "add_var ps i d = Inr q" using assms by (auto simp: function_variable_def bind_run_eq_Inr_iff)
  show ?thesis
  proof (cases q)
    case None
    with q assms show ?thesis by (auto simp: function_variable_def bind_run_eq_Inr_iff)
  next
    case (Some ps1)
    obtain u where u: "ps_u ps1 = Some u"
      using assms q Some by (auto simp: function_variable_def bind_run_eq_Inr_iff with_unit_Inr)
    obtain s where s: "unit_get ps1 u (id_name i) = Some s"
      using assms q Some u by (auto simp: function_variable_def bind_run_eq_Inr_iff with_unit_Inr split: option.splits)
    obtain ps2 where l: "add_locvec ps1 (pu_sym u) (local_var (id_name i) d (sym_index s)) = Inr ps2"
      and e: "ps' = unit_update ps2 u (id_name i) (\<lambda>s. s\<lparr>sym_refcnt := sym_refcnt s + 1\<rparr>) (\<lambda>s. s\<lparr>sym_refcnt := sym_refcnt s + 1\<rparr>)"
      using assms q Some u s by (auto simp: function_variable_def bind_run_eq_Inr_iff with_unit_def)
    have "balanced ps ps1" using q Some by (auto simp: add_var_def intro: balanced_add)
    also have "balanced ps1 ps2" by (rule balanced_locvec [OF l])
    also have "balanced ps2 ps'"
    proof -
      have "ps_u ps2 = Some u" using l u by (auto simp: add_locvec_def split: option.splits if_splits)
      then show ?thesis unfolding e by (rule balanced_update)
    qed
    finally show ?thesis .
  qed
qed

lemma parse_block_variable_nth:
  "parse_block_variable ps us k name = Inr (Some m) \<Longrightarrow>
     k \<le> m \<and> m < k + length us \<and> pu_scope (us ! (m - k)) \<in> {SCOPE_FUNCTION, SCOPE_CLOSURE} \<and>
     (\<forall>j < m - k. pu_scope (us ! j) \<notin> {SCOPE_FUNCTION, SCOPE_CLOSURE})"
proof (induction us arbitrary: k)
  case (Cons uu us)
  show ?case
  proof (cases "pu_scope uu \<in> {SCOPE_FUNCTION, SCOPE_CLOSURE}")
    case True
    with Cons.prems show ?thesis by (auto split: option.splits)
  next
    case False
    with Cons.prems have "parse_block_variable ps us (k + 1) name = Inr (Some m)" by (auto split: option.splits)
    note ih = Cons.IH [OF this]
    define n where "n = m - (k + 1)"
    have n: "m - (k + 1) = n" "m - k = Suc n" using ih by (auto simp: n_def Suc_diff_Suc)
    have "pu_scope ((uu # us) ! j) \<notin> {SCOPE_FUNCTION, SCOPE_CLOSURE}" if "j < Suc n" for j
      using that ih False n by (cases j) auto
    with ih n show ?thesis by simp
  qed
qed simp

lemma next_index_frame: "next_index t = Inr (i, t') \<Longrightarrow> table_kind t' = table_kind t"
  by (auto simp: next_index_def table_kind_def split: UnitTable.splits)

lemma same_frames_list: "k < length us \<Longrightarrow> unit_frame u' = unit_frame (us ! k) \<Longrightarrow> map unit_frame (us[k := u']) = map unit_frame us"
  by (simp add: map_update list_update_same_conv)

lemma balanced_block_variable:
  assumes "block_variable ps i d = Inr (ps', r)"
  shows "balanced ps ps'"
proof -
  let ?b = "parse_block_variable ps (ps_ustack ps) 0 (id_name i)"
  consider "\<exists>x. ?b = Inl x" | "?b = Inr None" | k where "?b = Inr (Some k)"
    by (metis old.sum.exhaust option.exhaust)
  then show ?thesis
  proof cases
    case 3
    obtain q where q: "add_var ps i d = Inr q" using assms 3 by (auto simp: block_variable_def bind_run_eq_Inr_iff)
    show ?thesis
    proof (cases q)
      case None
      with q assms 3 show ?thesis by (auto simp: block_variable_def bind_run_eq_Inr_iff)
    next
      case (Some ps1)
      let ?uu = "ps_ustack ps1 ! k"
      let ?f = "\<lambda>index s. s\<lparr>sym_index := index, sym_refcnt := sym_refcnt s + 1\<rparr>"
      obtain u where u: "ps_u ps1 = Some u"
        using assms 3 q Some by (auto simp: block_variable_def bind_run_eq_Inr_iff with_unit_Inr)
      obtain index t where n: "next_index (pu_stbl ?uu) = Inr (index, t)"
        using assms 3 q Some u by (auto simp: block_variable_def bind_run_eq_Inr_iff with_unit_Inr Let_def)
      obtain ps2 where l: "add_locvec ps1 (pu_sym ?uu) (local_var (id_name i) d index) = Inr ps2"
        using assms 3 q Some u n by (auto simp: block_variable_def bind_run_eq_Inr_iff with_unit_Inr Let_def)
      have e: "ps' = unit_update (ps2\<lparr>ps_ustack := (ps_ustack ps2)[k := ?uu\<lparr>pu_stbl := t\<rparr>]\<rparr>) u (id_name i) (?f index) (?f index)"
        using assms 3 q Some u n l by (auto simp: block_variable_def bind_run_eq_Inr_iff with_unit_Inr Let_def)
      have b1: "balanced ps ps1" using q Some by (auto simp: add_var_def intro: balanced_add)
      have st: "ps_ustack ps1 = ps_ustack ps" using q Some unit_add_frame [of ps _ _ ps1] by (auto simp: add_var_def same_scopes_def)
      have k: "k < length (ps_ustack ps1)" using parse_block_variable_nth [OF 3] st by simp
      have l2: "ps_u ps2 = Some u" "ps_ustack ps2 = ps_ustack ps1" using l u by (auto simp: add_locvec_def split: option.splits if_splits)
      let ?ps3 = "ps2\<lparr>ps_ustack := (ps_ustack ps2)[k := ?uu\<lparr>pu_stbl := t\<rparr>]\<rparr>"
      have "balanced ps1 ps2" by (rule balanced_locvec [OF l])
      also have "balanced ps2 ?ps3"
        using same_frames_list [OF k, of "?uu\<lparr>pu_stbl := t\<rparr>"] next_index_frame [OF n] l2
        by (auto simp: balanced_def frames_def unit_frame_def)
      also have "balanced ?ps3 ps'" unfolding e by (rule balanced_update) (simp add: l2)
      finally show ?thesis using b1 balanced_trans by blast
    qed
  qed (use assms in \<open>auto simp: block_variable_def\<close>)
qed

lemma balanced_update_add:
  "update_add_variable ps i d = Inr (ps', r) \<Longrightarrow> balanced ps ps'"
  by (auto simp: update_add_variable_def with_unit_Inr balanced_update_variable balanced_function_variable balanced_block_variable
      split: if_splits)

lemma with_unit_cases: "with_unit ps f = Inr r \<Longrightarrow> (\<And>u. ps_u ps = Some u \<Longrightarrow> f u = Inr r \<Longrightarrow> P) \<Longrightarrow> P"
  by (auto simp: with_unit_Inr)

lemma balanced_emit: "emit ps f = Inr ps' \<Longrightarrow> balanced ps ps'"
  using emit_code balanced_code by blast

lemma balanced_store: "store_variable ps s = Inr ps' \<Longrightarrow> balanced ps ps'"
  by (auto simp: store_variable_def with_unit_Inr balanced_emit split: if_splits)

lemma balanced_save: "save_const ps n e = Inr ps' \<Longrightarrow> balanced ps ps'"
  by (auto simp: save_const_def bind_run_eq_Inr_iff with_unit_Inr balanced_update split: option.splits)

lemma balanced_type:
  assumes "variable_type ps t e k = Inr (ps', d)"
  shows "balanced ps ps'"
proof (cases "exp_desc e")
  case None
  with assms show ?thesis by (auto simp: variable_type_def)
next
  case rd: (Some rdesc)
  show ?thesis
  proof (cases "k \<and> \<not> Expr_Is_Const e")
    case True
    with rd assms show ?thesis by (auto simp: variable_type_def)
  next
    case False
    then obtain r where r: "(if is_call e then
           bind_run (assert_proto (Some rdesc)) (\<lambda>(arg, ret). if length ret \<noteq> 1 then Inr None else Inr (Some (hd ret)))
         else Inr (Some rdesc)) = Inr r"
      using rd assms unfolding variable_type_def by (auto simp del: split_paired_Ex)
    have "variable_type ps t e k = (case r of
         None \<Rightarrow> Inr (error (exp_pos e) ''multiple-value in single-value context'' ps, None)
       | Some d \<Rightarrow> (case t of
           None \<Rightarrow> bind_run (show_type d) (\<lambda>_. Inr (ps, Some d))
         | Some t \<Rightarrow> if TypeDesc_Equal (Some t) (Some d) then Inr (ps, Some t)
             else Inr (error (exp_pos e) ''right expression type is not compatible'' ps, None)))"
      by (simp only: variable_type_def rd option.case False if_False r bind_run_simps)
    from this [symmetric, THEN trans, OF assms] show ?thesis by (cases r; cases t) (auto split: if_splits)
  qed
qed

lemma balanced_variable:
  assumes "parse_variable ps i t rexp k = Inr ps'"
  shows "balanced ps ps'"
proof -
  obtain ps1 e d ok where v: "(case rexp of
         None \<Rightarrow> Inr (ps, None, t, True)
       | Some e \<Rightarrow> bind_run (parser_visit_expr ps (loading e)) (\<lambda>(ps1, e1).
           bind_run (variable_type ps1 t e1 k) (\<lambda>(ps2, d). Inr (ps2, Some e1, d, d \<noteq> None)))) = Inr (ps1, e, d, ok)"
    using assms unfolding parse_variable_def bind_run_eq_Inr_iff by (metis prod_cases4)
  have 1: "balanced ps ps1"
  proof (cases rexp)
    case (Some x)
    then obtain ps0 e1 where "parser_visit_expr ps (loading x) = Inr (ps0, e1)" "\<exists>d. variable_type ps0 t e1 k = Inr (ps1, d)"
      using v by (auto simp: bind_run_eq_Inr_iff)
    then show ?thesis using balanced_visit balanced_type balanced_trans by blast
  qed (use v in simp)
  show ?thesis
  proof (cases ok)
    case False
    with v 1 assms show ?thesis by (auto simp: parse_variable_def bind_run_def)
  next
    case True
    have rest: "bind_run (update_add_variable ps1 i d) (\<lambda>(ps2, r). case r of
       None \<Rightarrow> Inr ps2
     | Some s \<Rightarrow> bind_run (if k then save_const ps2 (id_name i) e else Inr ps2) (\<lambda>ps3.
           if e = None then Inr ps3 else store_variable ps3 s)) = Inr ps'"
      using assms True unfolding parse_variable_def v by simp
    obtain ps2 r where u: "update_add_variable ps1 i d = Inr (ps2, r)" using rest by (auto simp: bind_run_eq_Inr_iff)
    have 2: "balanced ps1 ps2" by (rule balanced_update_add [OF u])
    show ?thesis
    proof (cases r)
      case None
      with rest u have "ps2 = ps'" by (simp add: bind_run_def)
      with 1 2 show ?thesis using balanced_trans by blast
    next
      case (Some s)
      obtain ps3 where 3: "(if k then save_const ps2 (id_name i) e else Inr ps2) = Inr ps3"
        and 4: "(if e = None then Inr ps3 else store_variable ps3 s) = Inr ps'"
        using rest u Some by (auto simp: bind_run_eq_Inr_iff)
      have "balanced ps2 ps3" using 3 by (auto split: if_splits dest: balanced_save)
      moreover have "balanced ps3 ps'" using 4 by (auto split: if_splits dest: balanced_store)
      ultimately show ?thesis using 1 2 balanced_trans by blast
    qed
  qed
qed

lemma balanced_update_adds: "update_add_variables ps is ds = Inr ps' \<Longrightarrow> balanced ps ps'"
proof (induction "is" arbitrary: ps ds)
  case (Cons i "is")
  show ?case
  proof (cases ds)
    case Nil
    with Cons.prems show ?thesis by simp
  next
  case ds: (Cons d ds')
  obtain ps1 r where u: "update_add_variable ps i (Some d) = Inr (ps1, r)" using Cons.prems ds by (auto simp: bind_run_eq_Inr_iff)
  have b: "balanced ps ps1" by (rule balanced_update_add [OF u])
  show ?thesis
  proof (cases r)
    case None
    with Cons.prems ds u b show ?thesis by (simp add: bind_run_def)
  next
    case (Some s)
    with Cons.prems ds u have "update_add_variables ps1 is ds' = Inr ps'" by (simp add: bind_run_def)
    from Cons.IH [OF this] b show ?thesis using balanced_trans by blast
  qed
  qed
qed simp

lemma balanced_varlistdecl:
  assumes "parse_varlistdecl ps ids t e k = Inr ps'"
  shows "balanced ps ps'"
proof (cases "is_call e")
  case False
  with assms show ?thesis by (auto simp: parse_varlistdecl_def split: if_splits)
next
  case True
  obtain ps1 e1 where v: "parser_visit_expr ps (loading e) = Inr (ps1, e1)"
    using assms True by (auto simp: parse_varlistdecl_def bind_run_eq_Inr_iff split: if_splits)
  have "balanced ps1 ps'"
    using assms True v by (auto simp: parse_varlistdecl_def bind_run_eq_Inr_iff with_unit_Inr balanced_update_adds split: if_splits)
  with balanced_visit [OF v] show ?thesis by (rule balanced_trans)
qed

lemma balanced_assign:
  assumes "parse_assign ps a l r = Inr ps'"
  shows "balanced ps ps'"
proof -
  obtain ps1 r1 where v: "parser_visit_expr ps (loading r) = Inr (ps1, r1)"
    using assms by (auto simp: parse_assign_def bind_run_eq_Inr_iff split: if_splits)
  obtain ps2 l1 where w: "parser_visit_expr ps1 (storing l) = Inr (ps2, l1)"
    using assms v by (auto simp: parse_assign_def bind_run_eq_Inr_iff split: if_splits)
  have "balanced ps2 ps'" using assms v w
    by (auto simp: parse_assign_def bind_run_def split: if_splits option.splits)
  with balanced_visit [OF v] balanced_visit [OF w] show ?thesis using balanced_trans by blast
qed

lemma balanced_assign_values: "assign_values ps pos ls ds = Inr ps' \<Longrightarrow> balanced ps ps'"
proof (induction ls arbitrary: ps ds)
  case (Cons l ls)
  show ?case
  proof (cases ds)
    case Nil
    with Cons.prems show ?thesis by simp
  next
  case ds: (Cons d ds')
  obtain ps1 l1 where v: "parser_visit_expr ps (storing l) = Inr (ps1, l1)" using Cons.prems ds by (auto simp: bind_run_eq_Inr_iff)
  have b: "balanced ps ps1" by (rule balanced_visit [OF v])
  show ?thesis
  proof (cases "TypeDesc_Equal (exp_desc l1) (Some d)")
    case False
    with Cons.prems ds v b show ?thesis by (auto simp: bind_run_def intro: balanced_trans)
  next
    case True
    with Cons.prems ds v have "assign_values ps1 pos ls ds' = Inr ps'" by (simp add: bind_run_def)
    from Cons.IH [OF this] b show ?thesis using balanced_trans by blast
  qed
  qed
qed simp

lemma balanced_assignlist:
  assumes "parse_assignlist ps ls e = Inr ps'"
  shows "balanced ps ps'"
proof (cases "is_call e")
  case False
  with assms show ?thesis by (auto simp: parse_assignlist_def)
next
  case True
  obtain ps1 e1 where v: "parser_visit_expr ps (loading e) = Inr (ps1, e1)"
    using assms True by (auto simp: parse_assignlist_def bind_run_eq_Inr_iff)
  have "balanced ps1 ps'" using assms True v
    by (auto simp: parse_assignlist_def bind_run_eq_Inr_iff balanced_assign_values split: option.splits if_splits)
  with balanced_visit [OF v] show ?thesis by (rule balanced_trans)
qed

lemma balanced_visit_list: "visit_list ps es = Inr (ps', es') \<Longrightarrow> balanced ps ps'"
proof (induction es arbitrary: ps es')
  case (Cons e es)
  obtain ps1 e1 es1 where "parser_visit_expr ps (loading e) = Inr (ps1, e1)" "visit_list ps1 es = Inr (ps', es1)"
    using Cons.prems by (auto simp: bind_run_eq_Inr_iff)
  with Cons.IH balanced_visit show ?case using balanced_trans by blast
qed simp

lemma balanced_return:
  assumes "parse_return ps pos es = Inr ps'"
  shows "balanced ps ps'"
proof -
  obtain u r where u: "ps_u ps = Some u" and r: "enclosing_function ps u = Some r"
    using assms by (cases "ps_u ps"; cases "enclosing_function ps (the (ps_u ps))") (auto simp: parse_return_def with_unit_def)
  obtain s where s: "ref_get (ps_module ps) r = Some s" "sym_kind s = SYM_FUNC"
    using assms u r unfolding parse_return_def with_unit_def by (auto split: option.splits if_splits)
  obtain ps1 es1 where v: "visit_list ps es = Inr (ps1, es1)"
    using assms u r s by (auto simp: parse_return_def with_unit_def bind_run_eq_Inr_iff)
  have "ps' = error pos ''returns are not matched'' ps1 \<or> (\<exists>f. emit ps1 f = Inr ps')"
    using assms u r s v by (auto simp: parse_return_def with_unit_def bind_run_eq_Inr_iff split: if_splits)
  then have "balanced ps1 ps'" using balanced_emit by auto
  with balanced_visit_list [OF v] show ?thesis by (rule balanced_trans)
qed

lemma balanced_idtypes: "parse_idtypes opt ps xs = Inr ps' \<Longrightarrow> balanced ps ps'"
proof (induction xs arbitrary: ps)
  case (Cons x rest)
  obtain ps1 where "(case it_id x of None \<Rightarrow> if opt then Inr ps else Inl Null_Deref
     | Some i \<Rightarrow> parse_variable ps i (tw_desc (it_type x)) None False) = Inr ps1" "parse_idtypes opt ps1 rest = Inr ps'"
    using Cons.prems by (auto simp: bind_run_eq_Inr_iff)
  moreover from this have "balanced ps ps1" by (auto split: option.splits if_splits dest: balanced_variable)
  ultimately show ?case using Cons.IH balanced_trans by blast
qed simp

text \<open>Entering a scope pushes one, leaving it pops one.\<close>

lemma frames_enter:
  "frames (Parser_Enter_Scope ps scope) = unit_frame (new_parser_unit scope) # frames ps"
  "ps_depth (Parser_Enter_Scope ps scope) = ps_depth ps + 1" "ps_log (Parser_Enter_Scope ps scope) = ps_log ps"
  "ps_u (Parser_Enter_Scope ps scope) = Some (new_parser_unit scope)"
  by (simp_all add: Parser_Enter_Scope_def frames_def split: option.split)

lemma merge_frames:
  assumes "merge_parser_unit ps = Inr ps'"
  shows "ps_depth ps' = ps_depth ps" "map unit_frame (ps_ustack ps') = map unit_frame (ps_ustack ps)" "ps_log ps' = ps_log ps"
proof -
  obtain u where u: "ps_u ps = Some u" using assms by (auto simp: merge_parser_unit_def with_unit_Inr)
  have m: "merge_module ps u = Inr ps' \<Longrightarrow> ps_depth ps' = ps_depth ps \<and> ps_ustack ps' = ps_ustack ps \<and> ps_log ps' = ps_log ps"
  proof -
    assume a: "merge_module ps u = Inr ps'"
    show ?thesis
    proof (cases "unit_get ps u init_name")
      case (Some s)
      with a show ?thesis by (auto simp: merge_module_def)
    next
      case None
      obtain proto types where p: "TypeDesc_Get_Proto [] [] (ps_types ps) = (proto, types)" by (cases "TypeDesc_Get_Proto [] [] (ps_types ps)")
      obtain ps1 where 1: "unit_add (ps\<lparr>ps_types := types\<rparr>) (\<lambda>t. STable_Add_Func t init_name (Some proto))
           (\<lambda>t. STable_Add_Func t init_name (Some proto)) = Inr (Some ps1)"
        using a None p by (auto simp: merge_module_def split: option.splits)
      obtain u1 where "ps_u ps1 = Some u1" "ps' = (unit_update ps1 u1 init_name (\<lambda>s. s\<lparr>sym_code := pu_block u\<rparr>)
          (\<lambda>s. s\<lparr>sym_code := pu_block u\<rparr>))\<lparr>ps_u := Some (u\<lparr>pu_block := None, pu_stbl := No_Table\<rparr>)\<rparr>"
        using a None p 1 by (auto simp: merge_module_def with_unit_Inr Let_def)
      moreover from unit_add_frame [OF 1] have "ps_depth ps1 = ps_depth ps" "ps_ustack ps1 = ps_ustack ps" "ps_log ps1 = ps_log ps"
        by (simp_all add: same_scopes_def)
      ultimately show ?thesis by (cases "pu_stbl u1") (auto simp: unit_update_def)
    qed
  qed
  have c: "merge_class ps u = Inr ps' \<Longrightarrow> ps_depth ps' = ps_depth ps \<and> ps_ustack ps' = ps_ustack ps \<and> ps_log ps' = ps_log ps"
    by (auto simp: merge_class_def split: option.splits if_splits)
  have f: "merge_function ps u = Inr ps' \<Longrightarrow> ps_depth ps' = ps_depth ps \<and> ps_ustack ps' = ps_ustack ps \<and> ps_log ps' = ps_log ps"
    by (auto simp: merge_function_def split: option.splits if_splits)
  have b: "merge_block ps u = Inr ps' \<Longrightarrow> ps_depth ps' = ps_depth ps \<and> map unit_frame (ps_ustack ps') = map unit_frame (ps_ustack ps) \<and>
      ps_log ps' = ps_log ps"
    by (auto simp: merge_block_def unit_frame_def the_block_def split: list.splits option.splits)
  have "ps_depth ps' = ps_depth ps \<and> map unit_frame (ps_ustack ps') = map unit_frame (ps_ustack ps) \<and> ps_log ps' = ps_log ps"
    using assms u m c f b by (cases "pu_scope u") (auto simp: merge_parser_unit_def with_unit_def)
  then show "ps_depth ps' = ps_depth ps" "map unit_frame (ps_ustack ps') = map unit_frame (ps_ustack ps)" "ps_log ps' = ps_log ps"
    by simp_all
qed

lemma exit_frames:
  assumes "Parser_Exit_Scope ps = Inr ps'"
  shows "ps_depth ps' = ps_depth ps - 1" "frames ps' = tl (frames ps)" "ps_log ps' = ps_log ps" "ps_u ps \<noteq> None"
    "ps_u ps' = None \<longleftrightarrow> ps_ustack ps = []"
proof -
  obtain ps1 where m: "merge_parser_unit ps = Inr ps1" and
    e: "ps' = ps1\<lparr>ps_u := (case ps_ustack ps1 of [] \<Rightarrow> None | uu # _ \<Rightarrow> Some uu), ps_ustack := tl (ps_ustack ps1), ps_depth := ps_depth ps1 - 1\<rparr>"
    using assms by (auto simp: Parser_Exit_Scope_def)
  obtain u where u: "ps_u ps = Some u" using m by (auto simp: merge_parser_unit_def with_unit_Inr)
  note f = merge_frames [OF m]
  show "ps_depth ps' = ps_depth ps - 1" "ps_log ps' = ps_log ps" "ps_u ps \<noteq> None" using f e u by simp_all
  show "ps_u ps' = None \<longleftrightarrow> ps_ustack ps = []" using f(2) e by (cases "ps_ustack ps1") auto
  have "frames ps' = map unit_frame (ps_ustack ps1)" unfolding e frames_def by (cases "ps_ustack ps1") auto
  with f(2) u show "frames ps' = tl (frames ps)" by (simp add: frames_def)
qed

text \<open>A scope that is entered, used and left.\<close>

lemma balanced_scope:
  assumes "frames ps1 = f # frames ps" "ps_depth ps1 = ps_depth ps + 1" "ps_log ps1 = ps_log ps"
    "ps_u ps1 \<noteq> None" "ps_u ps \<noteq> None" "balanced ps1 ps2" "Parser_Exit_Scope ps2 = Inr ps'"
  shows "balanced ps ps'"
proof -
  have "frames ps2 = f # frames ps" using assms(1,6) by (simp add: balanced_def)
  moreover have "frames ps \<noteq> []" using assms(5) by (auto simp: frames_def)
  ultimately have "ps_ustack ps2 \<noteq> []" using exit_frames(4) [OF assms(7)] by (auto simp: frames_def)
  with exit_frames [OF assms(7)] assms \<open>frames ps2 = f # frames ps\<close> show ?thesis by (auto simp: balanced_def)
qed

lemma frames_own: "ps_u ps = Some u \<Longrightarrow> frames (with_own_table ps) = unit_frame (u\<lparr>pu_stbl := Own_Table STable_New\<rparr>) # tl (frames ps)"
  by (simp add: with_own_table_def frames_def)

lemma enter_function_frames:
  assumes "enter_function ps i = Inr ps'"
  shows "\<exists>f. frames ps' = f # frames ps" "ps_depth ps' = ps_depth ps + 1" "ps_log ps' = ps_log ps" "ps_u ps' \<noteq> None"
    "ps_u ps \<noteq> None \<or> ps_ustack ps \<noteq> []"
proof -
  let ?ps = "with_own_table (Parser_Enter_Scope ps SCOPE_FUNCTION)"
  obtain uu us where us: "ps_ustack ?ps = uu # us" and
    e: "ps' = ?ps\<lparr>ps_u := map_option (\<lambda>u. u\<lparr>pu_sym := Some (unit_ref uu (id_name i))\<rparr>) (ps_u ?ps)\<rparr>"
    using assms by (auto simp: enter_function_def Let_def split: list.splits if_splits)
  show "\<exists>f. frames ps' = f # frames ps" "ps_depth ps' = ps_depth ps + 1" "ps_log ps' = ps_log ps" "ps_u ps' \<noteq> None"
    using us unfolding e
    by (auto simp: frames_def with_own_table_def Parser_Enter_Scope_def simp del: split_paired_Ex split: option.splits)
  show "ps_u ps \<noteq> None \<or> ps_ustack ps \<noteq> []" using us by (auto simp: with_own_table_def Parser_Enter_Scope_def split: option.splits)
qed

lemma balanced_u: "balanced ps ps' \<Longrightarrow> ps_u ps' \<noteq> None \<longleftrightarrow> ps_u ps \<noteq> None"
  by (auto simp: balanced_def)

lemma balanced_statement:
  "parse_statement ps s = Inr ps' \<Longrightarrow> ps_u ps \<noteq> None \<Longrightarrow> balanced ps ps'"
  "parse_statements ps ss = Inr ps' \<Longrightarrow> ps_u ps \<noteq> None \<Longrightarrow> balanced ps ps'"
proof (induction ps s and ps ss arbitrary: ps' and ps' rule: parse_statement_parse_statements.induct)
  case (1 ps i t e k)
  then show ?case by (auto split: if_splits dest: balanced_variable)
next
  case (2 ps ids t e k)
  then show ?case by (auto split: if_splits dest: balanced_varlistdecl)
next
  case (3 ps a l r)
  then show ?case by (auto split: if_splits dest: balanced_assign)
next
  case (4 ps ls r)
  then show ?case by (auto split: if_splits dest: balanced_assignlist)
next
  case (5 ps i args rets body)
  show ?case
  proof (cases "too_many ps")
    case True
    with "5.prems" show ?thesis by simp
  next
    case False
    obtain ps1 ps2 ps3 ps4 where s: "enter_function ps i = Inr ps1" "parse_idtypes True ps1 rets = Inr ps2"
      "parse_idtypes False ps2 args = Inr ps3" "parse_statements ps3 body = Inr ps4" "Parser_Exit_Scope ps4 = Inr ps'"
      using False "5.prems" by auto
    note enter = enter_function_frames [OF s(1)]
    have b: "balanced ps1 ps3" using balanced_idtypes [OF s(2)] balanced_idtypes [OF s(3)] by (rule balanced_trans)
    have "ps_u ps3 \<noteq> None" using balanced_u [OF b] enter(4) by simp
    then have "balanced ps3 ps4" by (rule "5.IH" [OF False s(4)])
    with b have "balanced ps1 ps4" by (rule balanced_trans)
    with enter "5.prems"(2) s(5) balanced_scope show ?thesis by blast
  qed
next
  case (7 ps e)
  then show ?case by (auto split: if_splits dest: balanced_visit)
next
  case (8 ps p es)
  then show ?case by (auto split: if_splits dest: balanced_return)
next
  case (9 ps block vec)
  show ?case
  proof (cases "too_many ps")
    case True
    with "9.prems" show ?thesis by simp
  next
    case False
    show ?thesis
    proof (cases block)
      case True
      let ?ps1 = "with_own_table (Parser_Enter_Scope ps SCOPE_BLOCK)"
      obtain ps2 where s: "parse_statements ?ps1 vec = Inr ps2" "Parser_Exit_Scope ps2 = Inr ps'"
        using False True "9.prems" by auto
      have f: "\<exists>f. frames ?ps1 = f # frames ps" "ps_depth ?ps1 = ps_depth ps + 1" "ps_log ?ps1 = ps_log ps" "ps_u ?ps1 \<noteq> None"
        by (auto simp: with_own_table_def Parser_Enter_Scope_def frames_def simp del: split_paired_Ex split: option.splits)
      have "balanced ?ps1 ps2" by (rule "9.IH"(1) [OF False True s(1) f(4)])
      with f "9.prems"(2) s(2) balanced_scope show ?thesis by blast
    next
      case f: False
      with False "9.prems" "9.IH"(2) show ?thesis by auto
    qed
  qed
next
  case (11 ps i supers body)
  show ?case
  proof (cases "too_many ps")
    case True
    with "11.prems" show ?thesis by simp
  next
    case False
    obtain ps1 ps2 where s: "enter_class ps i = Inr ps1" "parse_statements ps1 body = Inr ps2" "Parser_Exit_Scope ps2 = Inr ps'"
      using False "11.prems" by auto
    have f: "\<exists>f. frames ps1 = f # frames ps" "ps_depth ps1 = ps_depth ps + 1" "ps_log ps1 = ps_log ps" "ps_u ps1 \<noteq> None"
      using s(1) by (auto simp: enter_class_def with_unit_Inr Let_def Parser_Enter_Scope_def frames_def simp del: split_paired_Ex
          split: option.splits)
    have "balanced ps1 ps2" by (rule "11.IH" [OF False s(2) f(4)])
    with f "11.prems"(2) s(3) balanced_scope show ?thesis by blast
  qed
next
  case (13 ps s ss)
  obtain ps1 where s: "parse_statement ps s = Inr ps1" "parse_statements ps1 ss = Inr ps'" using "13.prems" by auto
  have b: "balanced ps ps1" by (rule "13.IH"(1) [OF s(1) "13.prems"(2)])
  then have "ps_u ps1 \<noteq> None" using "13.prems"(2) balanced_u by blast
  then have "balanced ps1 ps'" by (rule "13.IH"(2) [OF s(2)])
  with b show ?case by (rule balanced_trans)
qed simp_all



lemma show_new_table [simp]: "STable_Show (Some STable_New) = Inr ()"
  by (simp add: STable_Show_def STable_Visit_def STable_New_def nt_visit_members)

lemma empty_block:
  assumes "ps_u ps = Some u" "pu_block u = Some b" "\<not> too_many ps" "ps_depth ps \<noteq> 0"
  shows "parse_statement ps (List_Stmt True []) = Inr ps"
proof -
  have "CodeBlock_Merge CodeBlock_New b = Inr (CodeBlock_New, b)"
    by (cases b) (simp add: CodeBlock_Merge_def CodeBlock_New_def)
  moreover have "CodeBlock_Show (ps_env ps) (Some CodeBlock_New) = Inr ()" by (simp add: CodeBlock_Show_def CodeBlock_New_def)
  ultimately show ?thesis
    using assms by (simp add: too_many_def Parser_Enter_Scope_def new_parser_unit_def with_own_table_def Parser_Exit_Scope_def
      show_parser_unit_def with_unit_def merge_parser_unit_def merge_block_def the_block_def free_parser_unit_def)
qed

lemma block_same:
  "parse_statements (with_own_table (Parser_Enter_Scope ps SCOPE_BLOCK)) ss = parse_statements (with_own_table (Parser_Enter_Scope ps SCOPE_BLOCK)) ts
    \<Longrightarrow> parse_statement ps (List_Stmt True ss) = parse_statement ps (List_Stmt True ts)"
  by simp


subsection \<open>What the analysis of statements does not do\<close>

text \<open>
  A constant that is declared with a folded expression, \<open>const a = 1 + 2\<close>, is one for \<open>Expr_Is_Const\<close>, but the
  parser stops when it saves its value: a binary expression has its folded value beside it.
\<close>

lemma folded_constant_aborts:
  assumes "exp_node e = Binary_Expr op l r v"
  shows "save_const ps name (Some e) = Inl Assert_Failed"
  by (simp add: save_const_def const_of_def assms bind_run_def)

text \<open>
  Once the module has an \<open>__init__\<close>, which the scope that built the syntax tree adds when it is left, the code
  that initialises its variables is dropped.
\<close>

lemma initialiser_dropped:
  assumes "unit_get ps u init_name = Some s" "merge_module ps u = Inr ps'"
  shows "ps_module ps' = ps_module ps"
  using assms by (auto simp: merge_module_def)

end
