(* ===== verification/VmObjects.thy ===== *)
theory VmObjects
  imports ObjectModel StringEx
begin

text \<open>
  The objects of the standard library (\<^verbatim>\<open>src/objects\<close>): integers, strings, tuples and code, and the
  package objects of \<^verbatim>\<open>package.c\<close>, on the heap of the virtual machine, with the cache that makes equal
  strings one object. Dropping references (\<open>OB_DECREF\<close> of \<^verbatim>\<open>include/object.h\<close>) calls the \<open>ob_free\<close> of
  the class. Instances of classes of a program, which the interpreter cannot make, are in ObjectRefs.
\<close>

subsection \<open>Data\<close>

text \<open>The code of a function: the constant pool is a tuple; \<open>cfunc\<close> is the address of a C function.\<close>

record CodeInfo =
  ci_consts :: "nat option"
  ci_locvec :: "MNode list"
  ci_size :: int
  ci_codes :: "uint8 list option"

datatype CodeKind = KCODE_KIND CodeInfo | CFUNC_KIND addr

record VmCode =
  vc_name :: string
  vc_proto :: "TypeDesc option"
  vc_kind :: CodeKind

record StringObject =
  so_hnode :: "string HashNode"
  so_len :: int
  so_str :: string

text \<open>
  A package. The pointer of the union of a member (the value of a constant, the code of a function, the
  class) is \<open>mn_code\<close>.
\<close>

record PkgObject =
  pk_name :: string
  pk_mtbl :: "MNode NameTable"
  pk_consts :: "nat option"
  pk_index :: int
  pk_nrvars :: nat

datatype ObData = IntObject uint64 | StrObject StringObject | TupleObject nat "nat option list" | CodeOb VmCode | PkgOb PkgObject

record VmObject =
  vo_refcnt :: int
  vo_data :: ObData

text \<open>
  An object is its index in the heap, freed objects are \<open>None\<close> there: freed memory is not given to
  another object (that the cache of integers does not hand out an object twice is what Cache shows).
\<close>

record Vm =
  vm_objs :: "VmObject option list"
  vm_strs :: "string HashTable"

definition vm_at :: "Vm \<Rightarrow> nat \<Rightarrow> VmObject option" where
  "vm_at vm a = (if a < length (vm_objs vm) then vm_objs vm ! a else None)"

text \<open>Following a pointer to an object, which may be null or freed.\<close>

definition ob_deref :: "Vm \<Rightarrow> nat option \<Rightarrow> (nat \<times> VmObject) run" where
  "ob_deref vm ob = (case ob of None \<Rightarrow> Inl Null_Deref
     | Some a \<Rightarrow> (case vm_at vm a of None \<Rightarrow> Inl Null_Deref | Some x \<Rightarrow> Inr (a, x)))"

definition put_ob :: "Vm \<Rightarrow> nat \<Rightarrow> VmObject option \<Rightarrow> Vm" where
  "put_ob vm a x = vm\<lparr>vm_objs := (vm_objs vm)[a := x]\<rparr>"

text \<open>Allocation and \<open>Init_Object_Head\<close>.\<close>

definition new_ob :: "Vm \<Rightarrow> ObData \<Rightarrow> nat \<times> Vm" where
  "new_ob vm d = (length (vm_objs vm), vm\<lparr>vm_objs := vm_objs vm @ [Some \<lparr>vo_refcnt = 1, vo_data = d\<rparr>]\<rparr>)"

definition vm_incref :: "Vm \<Rightarrow> nat option \<Rightarrow> Vm run" where
  "vm_incref vm ob = bind_run (ob_deref vm ob) (\<lambda>(a, x). Inr (put_ob vm a (Some (x\<lparr>vo_refcnt := vo_refcnt x + 1\<rparr>))))"

text \<open>The object behind a pointer, after \<open>OB_ASSERT_KLASS\<close>.\<close>

definition int_ob :: "Vm \<Rightarrow> nat option \<Rightarrow> uint64 run" where
  "int_ob vm ob = bind_run (ob_deref vm ob) (\<lambda>(a, x). case vo_data x of IntObject n \<Rightarrow> Inr n | _ \<Rightarrow> Inl Assert_Failed)"

definition string_ob :: "Vm \<Rightarrow> nat option \<Rightarrow> StringObject run" where
  "string_ob vm ob = bind_run (ob_deref vm ob) (\<lambda>(a, x). case vo_data x of StrObject s \<Rightarrow> Inr s | _ \<Rightarrow> Inl Assert_Failed)"

definition tuple_ob :: "Vm \<Rightarrow> nat option \<Rightarrow> (nat \<times> nat \<times> nat option list) run" where
  "tuple_ob vm ob = bind_run (ob_deref vm ob) (\<lambda>(a, x). case vo_data x of TupleObject avail vs \<Rightarrow> Inr (a, avail, vs) | _ \<Rightarrow> Inl Assert_Failed)"

definition code_ob :: "Vm \<Rightarrow> nat option \<Rightarrow> (nat \<times> VmCode) run" where
  "code_ob vm ob = bind_run (ob_deref vm ob) (\<lambda>(a, x). case vo_data x of CodeOb c \<Rightarrow> Inr (a, c) | _ \<Rightarrow> Inl Assert_Failed)"

definition pkg_ob :: "Vm \<Rightarrow> nat option \<Rightarrow> (nat \<times> PkgObject) run" where
  "pkg_ob vm ob = bind_run (ob_deref vm ob) (\<lambda>(a, x). case vo_data x of PkgOb p \<Rightarrow> Inr (a, p) | _ \<Rightarrow> Inl Assert_Failed)"

text \<open>Storing into an object that is still there.\<close>

definition set_data :: "Vm \<Rightarrow> nat \<Rightarrow> ObData \<Rightarrow> Vm run" where
  "set_data vm a d = bind_run (ob_deref vm (Some a)) (\<lambda>(_, x). Inr (put_ob vm a (Some (x\<lparr>vo_data := d\<rparr>))))"

subsection \<open>Strings and integers\<close>

text \<open>
  The cache holds the nodes that are embedded in the string objects; a lookup uses a key on the stack.
  The characters are those of the string pool or a copy, which is the same to the reader.
\<close>

definition find_strobj :: "Vm \<Rightarrow> string \<Rightarrow> nat option" where
  "find_strobj vm str = map_option hn_addr (HashTable_Find (vm_strs vm) str)"

definition String_New :: "Vm \<Rightarrow> string \<Rightarrow> (nat \<times> Vm) run" where
  "String_New vm str = (case find_strobj vm str of
     Some sob \<Rightarrow> bind_run (vm_incref vm (Some sob)) (\<lambda>vm1. Inr (sob, vm1))
   | None \<Rightarrow>
       let sob = length (vm_objs vm);
           (res, strs, hnode) = HashTable_Insert True (vm_strs vm) (Init_HashNode sob (cstr str))
       in Inr (new_ob (vm\<lparr>vm_strs := strs\<rparr>) (StrObject \<lparr>so_hnode = hnode, so_len = strlen str, so_str = cstr str\<rparr>)))"

definition remove_strobj :: "Vm \<Rightarrow> StringObject \<Rightarrow> Vm" where
  "remove_strobj vm sob = vm\<lparr>vm_strs := fst (snd (HashTable_Remove (vm_strs vm) (so_hnode sob)))\<rparr>"

definition String_RawString :: "Vm \<Rightarrow> nat option \<Rightarrow> string run" where
  "String_RawString vm ob = bind_run (string_ob vm ob) (\<lambda>s. Inr (so_str s))"

definition Integer_New :: "Vm \<Rightarrow> uint64 \<Rightarrow> nat \<times> Vm" where
  "Integer_New vm val = new_ob vm (IntObject val)"

definition Integer_ToCInt :: "Vm \<Rightarrow> nat option \<Rightarrow> int run" where
  "Integer_ToCInt vm ob = bind_run (int_ob vm ob) (\<lambda>n. Inr (sint n))"

definition integer_equal :: "Vm \<Rightarrow> nat option \<Rightarrow> nat option \<Rightarrow> bool run" where
  "integer_equal vm v1 v2 = bind_run (int_ob vm v1) (\<lambda>n1. bind_run (int_ob vm v2) (\<lambda>n2. Inr (n1 = n2)))"

definition integer_hash :: "Vm \<Rightarrow> nat option \<Rightarrow> uint32 run" where
  "integer_hash vm v = bind_run (int_ob vm v) (\<lambda>n. Inr (hash_uint32 (ucast n) 32))"

text \<open>What \<open>%lld\<close> prints.\<close>

definition lld :: "int \<Rightarrow> string" where
  "lld n = (if n < 0 then ''-'' @ numeral_of (nat (- n)) else numeral_of (nat n))"

definition integer_tostring :: "Vm \<Rightarrow> nat option \<Rightarrow> (nat \<times> Vm) run" where
  "integer_tostring vm v = bind_run (int_ob vm v) (\<lambda>n. String_New vm (lld (sint n)))"

definition integer_numop_add :: "Vm \<Rightarrow> nat option \<Rightarrow> nat option \<Rightarrow> (nat \<times> Vm) run" where
  "integer_numop_add vm v1 v2 =
     bind_run (int_ob vm v1) (\<lambda>n1. bind_run (int_ob vm v2) (\<lambda>n2. Inr (Integer_New vm (n1 + n2))))"

definition string_concat :: "Vm \<Rightarrow> nat option \<Rightarrow> nat option \<Rightarrow> (nat \<times> Vm) run" where
  "string_concat vm ob args =
     bind_run (string_ob vm ob) (\<lambda>s1. bind_run (string_ob vm args) (\<lambda>s2. String_New vm (so_str s1 @ so_str s2)))"

definition string_length :: "Vm \<Rightarrow> nat option \<Rightarrow> nat option \<Rightarrow> (nat \<times> Vm) run" where
  "string_length vm ob args = bind_run (string_ob vm ob) (\<lambda>s.
     if args \<noteq> None then Inl Assert_Failed else Inr (Integer_New vm (word_of_int (so_len s))))"

definition string_equal :: "Vm \<Rightarrow> nat option \<Rightarrow> nat option \<Rightarrow> bool run" where
  "string_equal vm v1 v2 =
     bind_run (string_ob vm v1) (\<lambda>s1. bind_run (string_ob vm v2) (\<lambda>s2. Inr (str_eq (so_str s1) (so_str s2))))"

definition string_hash :: "Vm \<Rightarrow> nat option \<Rightarrow> uint32 run" where
  "string_hash vm v = bind_run (string_ob vm v) (\<lambda>s. Inr (hash_string (so_str s)))"

definition string_tostring :: "Vm \<Rightarrow> nat option \<Rightarrow> (nat \<times> Vm) run" where
  "string_tostring vm v = bind_run (string_ob vm v) (\<lambda>_. bind_run (vm_incref vm v) (\<lambda>vm1. Inr (the v, vm1)))"

text \<open>The buffer of two empty strings has no data, and hashing a null pointer stops the program.\<close>

definition string_numop_add :: "Vm \<Rightarrow> nat option \<Rightarrow> nat option \<Rightarrow> (nat \<times> Vm) run" where
  "string_numop_add vm v1 v2 = bind_run (string_ob vm v1) (\<lambda>s1. bind_run (string_ob vm v2) (\<lambda>s2.
     case StringBuf_Format (\<lambda>_. True) DeclareStringBuf ''##'' [Some (so_str s1), Some (so_str s2)] of
       None \<Rightarrow> Inl Out_Of_Bounds
     | Some buf \<Rightarrow> (case sb_data buf of None \<Rightarrow> Inl Null_Deref | Some d \<Rightarrow> String_New vm d)))"

subsection \<open>Dropping references\<close>

text \<open>
  The calls that are still to be made, in their order: dropping a reference, \<open>Tuple_Free\<close>, \<open>Code_Free\<close>,
  and freeing the memory of an object when its members are done. The class of code objects has no
  \<open>ob_free\<close>, so that dropping the last reference to one calls a null pointer.
\<close>

datatype vm_work = Decref "nat option" | Free_Tuple "nat option" | Free_Code "nat option" | Mfree nat

text \<open>\<open>free_mnode_func\<close>, in the order in which \<open>HashTable_Fini\<close> visits the nodes, and \<open>Pkg_Free_Func\<close>.\<close>

definition free_mnode_func :: "MNode \<Rightarrow> vm_work list" where
  "free_mnode_func m = (case mn_kind m of
     CONST_KIND \<Rightarrow> [Decref (mn_code m)]
   | FUNC_KIND \<Rightarrow> [Free_Code (mn_code m)]
   | _ \<Rightarrow> [])"

definition Pkg_Free_Func :: "nat \<Rightarrow> PkgObject \<Rightarrow> vm_work list" where
  "Pkg_Free_Func a pkg = concat (map free_mnode_func (nt_visit (pk_mtbl pkg))) @ [Free_Tuple (pk_consts pkg), Mfree a]"

definition ref_sum :: "Vm \<Rightarrow> nat" where
  "ref_sum vm = sum_list (map (\<lambda>x. case x of None \<Rightarrow> 0 | Some ob \<Rightarrow> nat (vo_refcnt ob)) (vm_objs vm))"

lemma vm_at_length: "vm_at vm a = Some x \<Longrightarrow> a < length (vm_objs vm) \<and> vm_objs vm ! a = Some x"
  by (auto simp: vm_at_def split: if_splits)

lemma ref_sum_put:
  assumes "vm_at vm a = Some x"
  shows "ref_sum (put_ob vm a y) + nat (vo_refcnt x) = ref_sum vm + (case y of None \<Rightarrow> 0 | Some ob \<Rightarrow> nat (vo_refcnt ob))"
proof -
  let ?f = "\<lambda>x. case x of None \<Rightarrow> 0 | Some ob \<Rightarrow> nat (vo_refcnt ob)"
  have a: "a < length (vm_objs vm)" "vm_objs vm ! a = Some x" using vm_at_length [OF assms] by auto
  have "?f (Some x) \<le> sum_list (map ?f (vm_objs vm))"
    using elem_le_sum_list [of a "map ?f (vm_objs vm)"] a by simp
  moreover have "sum_list (map ?f ((vm_objs vm)[a := y])) = sum_list (map ?f (vm_objs vm)) + ?f y - ?f (Some x)"
    unfolding map_update using sum_list_update [of a "map ?f (vm_objs vm)" "?f y"] a by simp
  ultimately show ?thesis by (simp add: ref_sum_def put_ob_def)
qed

lemma ref_sum_free: "ref_sum (put_ob vm a None) \<le> ref_sum vm"
proof (cases "vm_at vm a")
  case None
  then have "put_ob vm a None = vm" by (auto simp: vm_at_def put_ob_def list_update_beyond split: if_splits) (metis list_update_id Vm.surjective Vm.update_convs(1))
  then show ?thesis by simp
next
  case (Some x)
  from ref_sum_put [OF this, of None] show ?thesis by simp
qed

lemma ref_sum_dec:
  assumes "vm_at vm a = Some x" "vo_refcnt x - 1 \<ge> 0"
  shows "ref_sum (put_ob vm a (Some (x\<lparr>vo_refcnt := vo_refcnt x - 1\<rparr>))) < ref_sum vm"
  using ref_sum_put [OF assms(1), of "Some (x\<lparr>vo_refcnt := vo_refcnt x - 1\<rparr>)"] assms(2) by simp

lemma ref_sum_last: "vm_at vm a = Some x \<Longrightarrow> vo_refcnt x = 1 \<Longrightarrow> ref_sum (put_ob vm a (Some (x\<lparr>vo_refcnt := 0\<rparr>))) < ref_sum vm"
  using ref_sum_dec [of vm a x] by simp

lemma ref_sum_strs [simp]: "ref_sum (remove_strobj vm s) = ref_sum vm"
  by (simp add: ref_sum_def remove_strobj_def)

definition Integer_Free :: "Vm \<Rightarrow> nat option \<Rightarrow> Vm run" where
  "Integer_Free vm ob = bind_run (int_ob vm ob) (\<lambda>_. Inr (put_ob vm (the ob) None))"

definition String_Free :: "Vm \<Rightarrow> nat option \<Rightarrow> Vm run" where
  "String_Free vm ob = bind_run (string_ob vm ob) (\<lambda>s. Inr (put_ob (remove_strobj vm s) (the ob) None))"

text \<open>The call of \<open>ob_free\<close>: the heap after it, and the calls it makes.\<close>

definition ob_free :: "Vm \<Rightarrow> nat \<Rightarrow> ObData \<Rightarrow> (Vm \<times> vm_work list) run" where
  "ob_free vm a d = (case d of
     IntObject n \<Rightarrow> bind_run (Integer_Free vm (Some a)) (\<lambda>vm1. Inr (vm1, []))
   | StrObject s \<Rightarrow> bind_run (String_Free vm (Some a)) (\<lambda>vm1. Inr (vm1, []))
   | TupleObject avail vs \<Rightarrow> Inr (vm, [Free_Tuple (Some a)])
   | CodeOb c \<Rightarrow> Inl Null_Deref
   | PkgOb p \<Rightarrow> Inr (vm, Pkg_Free_Func a p))"

definition vm_work_step :: "Vm \<Rightarrow> vm_work \<Rightarrow> (Vm \<times> vm_work list) run" where
  "vm_work_step vm w = (case w of
     Mfree a \<Rightarrow> Inr (put_ob vm a None, [])
   | Decref None \<Rightarrow> Inr (vm, [])
   | Decref (Some a) \<Rightarrow> bind_run (ob_deref vm (Some a)) (\<lambda>(_, x).
       let vm1 = put_ob vm a (Some (x\<lparr>vo_refcnt := vo_refcnt x - 1\<rparr>)) in
       if vo_refcnt x - 1 \<noteq> 0 then (if 0 < vo_refcnt x - 1 then Inr (vm1, []) else Inl Assert_Failed)
       else ob_free vm1 a (vo_data x))
   | Free_Tuple None \<Rightarrow> Inr (vm, [])
   | Free_Tuple (Some a) \<Rightarrow> bind_run (tuple_ob vm (Some a)) (\<lambda>(_, _, vs). Inr (vm, map Decref vs @ [Mfree a]))
   | Free_Code ob \<Rightarrow> bind_run (code_ob vm ob) (\<lambda>(a, _). Inr (vm, [Mfree a])))"

definition is_free_tuple :: "vm_work \<Rightarrow> bool" where
  "is_free_tuple w \<longleftrightarrow> (case w of Free_Tuple ob \<Rightarrow> True | _ \<Rightarrow> False)"

definition is_mfree :: "vm_work \<Rightarrow> bool" where
  "is_mfree w \<longleftrightarrow> (case w of Mfree a \<Rightarrow> True | _ \<Rightarrow> False)"

text \<open>The cases of a step that goes on.\<close>

lemma ob_deref_Inr: "ob_deref vm ob = Inr (a, x) \<longleftrightarrow> ob = Some a \<and> vm_at vm a = Some x"
  by (auto simp: ob_deref_def split: option.splits)

lemma klass_ob_Inr:
  "int_ob vm ob = Inr n \<longleftrightarrow> (\<exists>a x. ob = Some a \<and> vm_at vm a = Some x \<and> vo_data x = IntObject n)"
  "string_ob vm ob = Inr s \<longleftrightarrow> (\<exists>a x. ob = Some a \<and> vm_at vm a = Some x \<and> vo_data x = StrObject s)"
  "tuple_ob vm ob = Inr (a, avail, vs) \<longleftrightarrow> (\<exists>x. ob = Some a \<and> vm_at vm a = Some x \<and> vo_data x = TupleObject avail vs)"
  "code_ob vm ob = Inr (a, c) \<longleftrightarrow> (\<exists>x. ob = Some a \<and> vm_at vm a = Some x \<and> vo_data x = CodeOb c)"
  "pkg_ob vm ob = Inr (a, p) \<longleftrightarrow> (\<exists>x. ob = Some a \<and> vm_at vm a = Some x \<and> vo_data x = PkgOb p)"
proof -
  note defs = int_ob_def string_ob_def tuple_ob_def code_ob_def pkg_ob_def ob_deref_def
  show "int_ob vm ob = Inr n \<longleftrightarrow> (\<exists>a x. ob = Some a \<and> vm_at vm a = Some x \<and> vo_data x = IntObject n)"
    "string_ob vm ob = Inr s \<longleftrightarrow> (\<exists>a x. ob = Some a \<and> vm_at vm a = Some x \<and> vo_data x = StrObject s)"
    "tuple_ob vm ob = Inr (a, avail, vs) \<longleftrightarrow> (\<exists>x. ob = Some a \<and> vm_at vm a = Some x \<and> vo_data x = TupleObject avail vs)"
    "code_ob vm ob = Inr (a, c) \<longleftrightarrow> (\<exists>x. ob = Some a \<and> vm_at vm a = Some x \<and> vo_data x = CodeOb c)"
    "pkg_ob vm ob = Inr (a, p) \<longleftrightarrow> (\<exists>x. ob = Some a \<and> vm_at vm a = Some x \<and> vo_data x = PkgOb p)"
    unfolding defs by (cases ob; cases "vm_at vm (the ob)"; cases "vo_data (the (vm_at vm (the ob)))"; auto)+
qed

lemma vm_work_step_cases:
  assumes "vm_work_step vm w = Inr (vm1, calls)"
  obtains (mfree) a where "w = Mfree a" "vm1 = put_ob vm a None" "calls = []"
  | (null) "w = Decref None \<or> w = Free_Tuple None" "vm1 = vm" "calls = []"
  | (held) a x where "w = Decref (Some a)" "vm_at vm a = Some x" "1 < vo_refcnt x"
      "vm1 = put_ob vm a (Some (x\<lparr>vo_refcnt := vo_refcnt x - 1\<rparr>))" "calls = []"
  | (last) a x where "w = Decref (Some a)" "vm_at vm a = Some x" "vo_refcnt x = 1"
      "ob_free (put_ob vm a (Some (x\<lparr>vo_refcnt := 0\<rparr>))) a (vo_data x) = Inr (vm1, calls)"
  | (tuple) a x avail vs where "w = Free_Tuple (Some a)" "vm_at vm a = Some x" "vo_data x = TupleObject avail vs"
      "vm1 = vm" "calls = map Decref vs @ [Mfree a]"
  | (code) a x c where "w = Free_Code (Some a)" "vm_at vm a = Some x" "vo_data x = CodeOb c" "vm1 = vm" "calls = [Mfree a]"
proof (cases w)
  case (Decref ob)
  show ?thesis
  proof (cases ob)
    case None
    with Decref assms null show ?thesis by (simp add: vm_work_step_def)
  next
    case (Some a)
    from assms obtain x where x: "vm_at vm a = Some x" by (auto simp: vm_work_step_def Decref Some ob_deref_Inr)
    show ?thesis
    proof (cases "vo_refcnt x = 1")
      case True
      with assms x Decref Some last show ?thesis by (simp add: vm_work_step_def ob_deref_def)
    next
      case False
      with assms x Decref Some held show ?thesis by (simp add: vm_work_step_def ob_deref_def split: if_splits)
    qed
  qed
next
  case (Free_Tuple ob)
  show ?thesis
  proof (cases ob)
    case None
    with Free_Tuple assms null show ?thesis by (simp add: vm_work_step_def)
  next
    case (Some a)
    with Free_Tuple assms have "\<exists>b avail vs. tuple_ob vm (Some a) = Inr (b, avail, vs) \<and> vm1 = vm \<and> calls = map Decref vs @ [Mfree a]"
      by (auto simp: vm_work_step_def)
    with Free_Tuple Some tuple show ?thesis by (auto simp only: klass_ob_Inr)
  qed
qed (use assms mfree code in \<open>auto simp: vm_work_step_def klass_ob_Inr\<close>)

lemma ob_free_cases:
  assumes "ob_free vm a d = Inr (vm1, calls)"
  obtains (int) n where "d = IntObject n" "vm1 = put_ob vm a None" "calls = []"
  | (str) s t where "d = StrObject s" "string_ob vm (Some a) = Inr t" "vm1 = put_ob (remove_strobj vm t) a None" "calls = []"
  | (tuple) avail vs where "d = TupleObject avail vs" "vm1 = vm" "calls = [Free_Tuple (Some a)]"
  | (pkg) p where "d = PkgOb p" "vm1 = vm" "calls = Pkg_Free_Func a p"
  using assms by (cases d) (auto simp: ob_free_def Integer_Free_def String_Free_def)

lemma vm_work_step_less:
  assumes "vm_work_step vm w = Inr (vm1, calls)"
  shows "((vm1, calls @ ws), (vm, w # ws)) \<in> measures [\<lambda>st. ref_sum (fst st), \<lambda>st. length (filter is_free_tuple (snd st)),
    \<lambda>st. length (filter (\<lambda>w. \<not> is_mfree w) (snd st)), \<lambda>st. length (snd st)]"
proof -
  have "ref_sum vm1 \<le> ref_sum vm \<and> (ref_sum vm1 < ref_sum vm \<or>
      length (filter is_free_tuple calls) \<le> length (filter is_free_tuple [w]) \<and>
      (length (filter is_free_tuple calls) < length (filter is_free_tuple [w]) \<or>
        length (filter (\<lambda>w. \<not> is_mfree w) calls) \<le> length (filter (\<lambda>w. \<not> is_mfree w) [w]) \<and>
        (length (filter (\<lambda>w. \<not> is_mfree w) calls) < length (filter (\<lambda>w. \<not> is_mfree w) [w]) \<or> length calls = 0)))"
    using assms
  proof (cases rule: vm_work_step_cases)
    case (mfree a)
    then show ?thesis using ref_sum_free [of vm a] by (simp add: is_free_tuple_def is_mfree_def)
  next
    case (held a x)
    then show ?thesis using ref_sum_dec [of vm a x] by simp
  next
    case (last a x)
    note less = ref_sum_last [OF last(2,3)]
    from last(4) show ?thesis
    proof (cases rule: ob_free_cases)
      case (int n)
      then show ?thesis using less ref_sum_free [of "put_ob vm a (Some (x\<lparr>vo_refcnt := 0\<rparr>))" a] by simp
    next
      case (str s t)
      then show ?thesis using less ref_sum_free [of "remove_strobj (put_ob vm a (Some (x\<lparr>vo_refcnt := 0\<rparr>))) t" a] by simp
    qed (use less in simp_all)
  next
    case (tuple a x avail vs)
    have "filter is_free_tuple (map Decref vs) = []" by (induction vs) (auto simp: is_free_tuple_def)
    with tuple show ?thesis by (simp add: is_free_tuple_def)
  next
    case (code a x c)
    then show ?thesis by (simp add: is_free_tuple_def is_mfree_def)
  qed auto
  moreover have "length (filter P (w # ws)) = length (filter P [w]) + length (filter P ws)" for P by simp
  ultimately show ?thesis
    unfolding in_measures fst_conv snd_conv filter_append length_append list.size by presburger
qed

function vm_release :: "Vm \<Rightarrow> vm_work list \<Rightarrow> Vm run" where
  "vm_release vm [] = Inr vm"
| "vm_release vm (w # ws) = (case vm_work_step vm w of Inl e \<Rightarrow> Inl e | Inr (vm1, calls) \<Rightarrow> vm_release vm1 (calls @ ws))"
  by pat_completeness auto
termination
  by (relation "measures [\<lambda>st. ref_sum (fst st), \<lambda>st. length (filter is_free_tuple (snd st)),
      \<lambda>st. length (filter (\<lambda>w. \<not> is_mfree w) (snd st)), \<lambda>st. length (snd st)]") (blast intro: vm_work_step_less wf_measures)+

definition vm_decref :: "Vm \<Rightarrow> nat option \<Rightarrow> Vm run" where
  "vm_decref vm ob = vm_release vm [Decref ob]"

definition Tuple_Free :: "Vm \<Rightarrow> nat option \<Rightarrow> Vm run" where
  "Tuple_Free vm ob = vm_release vm [Free_Tuple ob]"

definition Code_Free :: "Vm \<Rightarrow> nat option \<Rightarrow> Vm run" where
  "Code_Free vm ob = vm_release vm [Free_Code ob]"

subsection \<open>Tuples\<close>

definition Tuple_New :: "Vm \<Rightarrow> nat \<Rightarrow> nat \<times> Vm" where
  "Tuple_New vm sz = new_ob vm (TupleObject 0 (replicate sz None))"

definition Tuple_Size :: "Vm \<Rightarrow> nat option \<Rightarrow> int run" where
  "Tuple_Size vm ob = (if ob = None then Inr 0 else bind_run (tuple_ob vm ob) (\<lambda>(a, avail, vs). Inr (int (length vs))))"

definition Tuple_Get :: "Vm \<Rightarrow> nat option \<Rightarrow> int \<Rightarrow> nat option run" where
  "Tuple_Get vm ob index = bind_run (tuple_ob vm ob) (\<lambda>(a, avail, vs).
     if index < 0 \<or> int (length vs) \<le> index then Inr None else Inr (vs ! nat index))"

text \<open>The old value is dropped before the new one is held; the tuple may be freed in between.\<close>

definition Tuple_Set :: "Vm \<Rightarrow> nat option \<Rightarrow> int \<Rightarrow> nat option \<Rightarrow> (int \<times> Vm) run" where
  "Tuple_Set vm ob index val = bind_run (tuple_ob vm ob) (\<lambda>(a, avail, vs).
     if index < 0 \<or> int (length vs) \<le> index then Inr (-1, vm)
     else
       bind_run (vm_decref vm (vs ! nat index)) (\<lambda>vm1.
       bind_run (vm_incref vm1 val) (\<lambda>vm2.
       bind_run (set_data vm2 a (TupleObject avail (vs[nat index := val]))) (\<lambda>vm3. Inr (0, vm3)))))"

definition Tuple_Append :: "Vm \<Rightarrow> nat option \<Rightarrow> nat option \<Rightarrow> (int \<times> Vm) run" where
  "Tuple_Append vm ob val = bind_run (tuple_ob vm ob) (\<lambda>(a, avail, vs).
     bind_run (set_data vm a (TupleObject (avail + 1) vs)) (\<lambda>vm1. Tuple_Set vm1 ob (int avail) val))"

text \<open>The loop of \<open>Tuple_Get_Slice\<close>, over the places of the slice.\<close>

fun slice_loop :: "Vm \<Rightarrow> nat \<Rightarrow> nat option \<Rightarrow> int \<Rightarrow> nat list \<Rightarrow> Vm run" where
  "slice_loop vm tuple ob mn [] = Inr vm"
| "slice_loop vm tuple ob mn (i # is) =
     bind_run (Tuple_Get vm ob (mn + int i)) (\<lambda>val.
     bind_run (Tuple_Set vm (Some tuple) (int i) val) (\<lambda>(_, vm1). slice_loop vm1 tuple ob mn is))"

definition Tuple_Get_Slice :: "Vm \<Rightarrow> nat option \<Rightarrow> int \<Rightarrow> int \<Rightarrow> (nat option \<times> Vm) run" where
  "Tuple_Get_Slice vm ob mn mx = (if mn > mx then Inr (None, vm)
     else case Tuple_New vm (nat (mx - mn + 1)) of (tuple, vm1) \<Rightarrow>
       bind_run (slice_loop vm1 tuple ob mn [0 ..< nat (mx - mn + 1)]) (\<lambda>vm2. Inr (Some tuple, vm2)))"

definition tuple_get :: "Vm \<Rightarrow> nat option \<Rightarrow> nat option \<Rightarrow> nat option run" where
  "tuple_get vm ob args = bind_run (Integer_ToCInt vm args) (\<lambda>n. Tuple_Get vm ob (sint (word_of_int n :: uint32)))"

definition tuple_size :: "Vm \<Rightarrow> nat option \<Rightarrow> nat option \<Rightarrow> (nat \<times> Vm) run" where
  "tuple_size vm ob args = bind_run (Tuple_Size vm ob) (\<lambda>n. Inr (Integer_New vm (word_of_int n)))"

subsection \<open>Code\<close>

definition Code_New :: "Vm \<Rightarrow> string \<Rightarrow> TypeDesc option \<Rightarrow> uint8 list option \<Rightarrow> int \<Rightarrow> nat \<times> Vm" where
  "Code_New vm name proto codes sz = new_ob vm (CodeOb \<lparr>vc_name = name, vc_proto = proto,
     vc_kind = KCODE_KIND \<lparr>ci_consts = None, ci_locvec = [], ci_size = sz, ci_codes = codes\<rparr>\<rparr>)"

definition cfunc_new :: "Vm \<Rightarrow> string \<Rightarrow> TypeDesc option \<Rightarrow> addr \<Rightarrow> nat \<times> Vm" where
  "cfunc_new vm name proto func = new_ob vm (CodeOb \<lparr>vc_name = name, vc_proto = proto, vc_kind = CFUNC_KIND func\<rparr>)"

record CFunctionDef =
  fd_name :: string
  fd_rdesc :: "string option"
  fd_pdesc :: "string option"
  fd_func :: addr

text \<open>The texts of the types are parsed; a null text is no list of types.\<close>

definition type_list :: "DescTable \<Rightarrow> string option \<Rightarrow> (TypeDesc list \<times> DescTable) run" where
  "type_list tbl s = (case String_ToTypeList tbl s of None \<Rightarrow> Inr ([], tbl) | Some r \<Rightarrow> r)"

definition Code_From_CFunction :: "DescTable \<Rightarrow> Vm \<Rightarrow> CFunctionDef \<Rightarrow> (nat \<times> DescTable \<times> Vm) run" where
  "Code_From_CFunction tbl vm f =
     bind_run (type_list tbl (fd_rdesc f)) (\<lambda>(rdesc, tbl1).
     bind_run (type_list tbl1 (fd_pdesc f)) (\<lambda>(pdesc, tbl2).
       let (proto, tbl3) = TypeDesc_Get_Proto pdesc rdesc tbl2;
           (code, vm1) = cfunc_new vm (fd_name f) (Some proto) (fd_func f)
       in Inr (code, tbl3, vm1)))"

text \<open>The place of a member is not negative: a position below 0 is taken for 0. Nothing reads the places of local variables.\<close>

definition Code_Add_LocVar :: "Vm \<Rightarrow> nat option \<Rightarrow> string \<Rightarrow> TypeDesc option \<Rightarrow> int \<Rightarrow> Vm run" where
  "Code_Add_LocVar vm ob name desc index = bind_run (code_ob vm ob) (\<lambda>(a, code). case vc_kind code of
     CFUNC_KIND f \<Rightarrow> Inl Assert_Failed
   | KCODE_KIND ci \<Rightarrow>
       let m = (MNode_New VAR_KIND name desc)\<lparr>mn_offset := nat index\<rparr> in
       set_data vm a (CodeOb (code\<lparr>vc_kind := KCODE_KIND (ci\<lparr>ci_locvec := ci_locvec ci @ [m]\<rparr>)\<rparr>)))"

text \<open>The descriptor is taken for a prototype without a test.\<close>

definition Code_Get_Argc :: "Vm \<Rightarrow> nat option \<Rightarrow> int run" where
  "Code_Get_Argc vm ob = bind_run (code_ob vm ob) (\<lambda>(a, code). case vc_proto code of
     None \<Rightarrow> Inl Null_Deref
   | Some (TD_Proto args rets) \<Rightarrow> Inr (int (length args))
   | Some _ \<Rightarrow> Inl Out_Of_Bounds)"

subsection \<open>What releasing keeps\<close>

lemma vm_at_put: "vm_at (put_ob vm a y) b = (if b = a \<and> a < length (vm_objs vm) then y else vm_at vm b)"
  by (auto simp: vm_at_def put_ob_def)

lemma vm_at_free: "vm_at (put_ob vm a None) b = (if b = a then None else vm_at vm b)"
  by (simp add: vm_at_put) (simp add: vm_at_def)

lemma vm_at_strs [simp]: "vm_at (vm\<lparr>vm_strs := t\<rparr>) a = vm_at vm a" "vm_at (remove_strobj vm s) a = vm_at vm a"
  by (simp_all add: vm_at_def remove_strobj_def)

lemma put_ob_same [simp]: "vm_strs (put_ob vm a y) = vm_strs vm" "length (vm_objs (put_ob vm a y)) = length (vm_objs vm)"
  "length (vm_objs (remove_strobj vm s)) = length (vm_objs vm)"
  by (simp_all add: put_ob_def remove_strobj_def)

text \<open>Objects are freed or keep their data; none are made.\<close>

definition data_kept :: "Vm \<Rightarrow> Vm \<Rightarrow> bool" where
  "data_kept vm vm' \<longleftrightarrow> length (vm_objs vm') = length (vm_objs vm) \<and>
     (\<forall>a x'. vm_at vm' a = Some x' \<longrightarrow> (\<exists>x. vm_at vm a = Some x \<and> vo_data x = vo_data x'))"

lemma data_kept_refl [simp]: "data_kept vm vm"
  by (simp add: data_kept_def)

lemma data_kept_trans: "data_kept vm vm1 \<Longrightarrow> data_kept vm1 vm2 \<Longrightarrow> data_kept vm vm2"
  unfolding data_kept_def by metis

lemma data_kept_free: "data_kept vm (put_ob vm a None)"
  by (auto simp: data_kept_def vm_at_put split: if_splits)

lemma data_kept_count: "vm_at vm a = Some x \<Longrightarrow> data_kept vm (put_ob vm a (Some (x\<lparr>vo_refcnt := n\<rparr>)))"
  by (auto simp: data_kept_def vm_at_put split: if_splits)

lemma data_kept_strs: "data_kept vm vm' \<Longrightarrow> data_kept vm (remove_strobj vm' s)"
  by (simp add: data_kept_def)

lemma work_step_kept:
  assumes "vm_work_step vm w = Inr (vm1, calls)"
  shows "data_kept vm vm1"
  using assms
proof (cases rule: vm_work_step_cases)
  case (mfree a)
  then show ?thesis by (simp add: data_kept_free)
next
  case (held a x)
  then show ?thesis by (simp add: data_kept_count)
next
  case (last a x)
  note less = data_kept_count [OF last(2), of 0]
  from last(4) show ?thesis
  proof (cases rule: ob_free_cases)
    case (int n)
    then show ?thesis using data_kept_trans [OF less data_kept_free] by simp
  next
    case (str s t)
    then show ?thesis using data_kept_trans [OF data_kept_strs [OF less] data_kept_free] by simp
  qed (use less in simp_all)
qed auto

lemma release_kept: "vm_release vm ws = Inr vm' \<Longrightarrow> data_kept vm vm'"
proof (induction vm ws rule: vm_release.induct)
  case (2 vm w ws)
  then show ?case by (auto split: sum.splits intro: data_kept_trans [OF work_step_kept])
qed simp

subsection \<open>Equal strings are one object\<close>

definition string_in :: "Vm \<Rightarrow> nat \<Rightarrow> StringObject \<Rightarrow> bool" where
  "string_in vm a s \<longleftrightarrow> map_option vo_data (vm_at vm a) = Some (StrObject s)"

text \<open>The nodes in the cache are those of the string objects.\<close>

definition strs_ok :: "Vm \<Rightarrow> bool" where
  "strs_ok vm \<longleftrightarrow> ht_ok hash_string str_eq (\<lambda>_. True) (vm_strs vm) \<and>
     (\<forall>n \<in> set (ht_head (vm_strs vm)). \<exists>s. string_in vm (hn_addr n) s) \<and>
     (\<forall>a s. string_in vm a s \<longrightarrow> so_hnode s \<in> set (ht_head (vm_strs vm)) \<and> hn_addr (so_hnode s) = a \<and>
       hn_key (so_hnode s) = so_str s \<and> no_nul (so_str s) \<and> so_len s = int (length (so_str s)))"

lemma string_in_fun: "string_in vm a s \<Longrightarrow> string_in vm a t \<Longrightarrow> s = t"
  by (auto simp: string_in_def)

lemma strs_ok_cong: "vm_strs vm' = vm_strs vm \<Longrightarrow> \<forall>a s. string_in vm' a s = string_in vm a s \<Longrightarrow> strs_ok vm' = strs_ok vm"
  by (simp add: strs_ok_def)

lemma string_in_count: "vm_at vm a = Some x \<Longrightarrow> string_in (put_ob vm a (Some (x\<lparr>vo_refcnt := n\<rparr>))) b s = string_in vm b s"
  by (auto simp: string_in_def vm_at_put)

lemma strs_ok_count [simp]: "vm_at vm a = Some x \<Longrightarrow> strs_ok (put_ob vm a (Some (x\<lparr>vo_refcnt := n\<rparr>))) = strs_ok vm"
  by (rule strs_ok_cong) (simp_all add: string_in_count)

lemma strs_ok_free: "\<nexists>s. string_in vm a s \<Longrightarrow> strs_ok (put_ob vm a None) = strs_ok vm"
  by (rule strs_ok_cong) (auto simp: string_in_def vm_at_free split: if_splits)

lemma strs_okD:
  assumes "strs_ok vm" "string_in vm a s"
  shows "so_hnode s \<in> set (ht_head (vm_strs vm))" "hn_addr (so_hnode s) = a" "hn_key (so_hnode s) = so_str s" "no_nul (so_str s)"
    "so_len s = int (length (so_str s))"
  using assms unfolding strs_ok_def by blast+

lemma strs_ok_nodes: "strs_ok vm \<Longrightarrow> n \<in> set (ht_head (vm_strs vm)) \<Longrightarrow> \<exists>s. string_in vm (hn_addr n) s"
  unfolding strs_ok_def by blast

lemma strs_ok_distinct:
  "strs_ok vm \<Longrightarrow> n \<in> set (ht_head (vm_strs vm)) \<Longrightarrow> m \<in> set (ht_head (vm_strs vm)) \<Longrightarrow> str_eq (hn_key n) (hn_key m) \<Longrightarrow> n = m"
  unfolding strs_ok_def ht_ok_def by blast

lemma string_unique: "strs_ok vm \<Longrightarrow> string_in vm a s \<Longrightarrow> string_in vm b t \<Longrightarrow> so_str s = so_str t \<Longrightarrow> a = b"
  using strs_okD(1-3) [of vm a s] strs_okD(1-3) [of vm b t] strs_ok_distinct [of vm "so_hnode s" "so_hnode t"]
  by (auto simp: str_eq_def)

text \<open>Freeing a string.\<close>

lemma strs_ok_remove:
  assumes ok: "strs_ok vm" and s: "string_in vm a s"
  shows "strs_ok (put_ob (remove_strobj vm s) a None)"
proof -
  have g: "ht_ok hash_string str_eq (\<lambda>_. True) (vm_strs vm)" using ok by (simp add: strs_ok_def)
  have n: "so_hnode s \<in> set (ht_head (vm_strs vm))" "hn_addr (so_hnode s) = a" using strs_okD [OF ok s] by auto
  obtain t where t: "HashTable_Remove (vm_strs vm) (so_hnode s) = (0, t, (so_hnode s)\<lparr>hn_linked := False\<rparr>)"
    "ht_ok hash_string str_eq (\<lambda>_. True) t" "ht_head t = remove1 (so_hnode s) (ht_head (vm_strs vm))"
    using string_keys.Remove_spec [OF g n(1)] by blast
  have d: "distinct (map hn_addr (ht_head (vm_strs vm)))" using g by (simp add: ht_ok_def ht_inv_def)
  then have head: "set (ht_head t) = set (ht_head (vm_strs vm)) - {so_hnode s}" unfolding t(3) by (simp add: distinct_map)
  let ?vm = "put_ob (remove_strobj vm s) a None"
  have strs: "vm_strs ?vm = t" by (simp add: remove_strobj_def t(1))
  have at: "string_in ?vm b u \<longleftrightarrow> b \<noteq> a \<and> string_in vm b u" for b u
    by (auto simp: string_in_def vm_at_free)
  have "\<exists>u. string_in ?vm (hn_addr m) u" if "m \<in> set (ht_head t)" for m
  proof -
    have m: "m \<in> set (ht_head (vm_strs vm))" "m \<noteq> so_hnode s" using that head by auto
    with d n have "hn_addr m \<noteq> a" by (auto simp: distinct_map inj_on_def)
    with strs_ok_nodes [OF ok m(1)] at show ?thesis by blast
  qed
  moreover have "so_hnode u \<in> set (ht_head t) \<and> hn_addr (so_hnode u) = b \<and> hn_key (so_hnode u) = so_str u \<and> no_nul (so_str u) \<and>
      so_len u = int (length (so_str u))" if "string_in ?vm b u" for b u
  proof -
    have u: "b \<noteq> a" "string_in vm b u" using that at by auto
    have "so_hnode u \<noteq> so_hnode s" using strs_okD(2) [OF ok u(2)] n(2) u(1) by metis
    with strs_okD [OF ok u(2)] head show ?thesis by blast
  qed
  ultimately show ?thesis using t(2) unfolding strs_ok_def strs by blast
qed

text \<open>Memory that is freed without more ado does not hold a string.\<close>

definition frees_no_string :: "Vm \<Rightarrow> vm_work list \<Rightarrow> bool" where
  "frees_no_string vm ws \<longleftrightarrow> (\<forall>a s. Mfree a \<in> set ws \<longrightarrow> \<not> string_in vm a s)"

lemma frees_no_string_kept:
  assumes "data_kept vm vm'" "frees_no_string vm ws"
  shows "frees_no_string vm' ws"
  unfolding frees_no_string_def
proof (intro allI impI notI)
  fix a s assume "Mfree a \<in> set ws" "string_in vm' a s"
  moreover from this(2) assms(1) have "string_in vm a s" by (fastforce simp: data_kept_def string_in_def)
  ultimately show False using assms(2) by (auto simp: frees_no_string_def)
qed

lemma frees_no_string_append: "frees_no_string vm (xs @ ys) \<longleftrightarrow> frees_no_string vm xs \<and> frees_no_string vm ys"
  "frees_no_string vm (map Decref vs)" "frees_no_string vm (x # ws) \<longleftrightarrow> frees_no_string vm [x] \<and> frees_no_string vm ws"
  by (auto simp: frees_no_string_def)

lemma frees_no_string_pkg: "vm_at vm a = Some x \<Longrightarrow> vo_data x = PkgOb p \<Longrightarrow> frees_no_string vm (Pkg_Free_Func a p)"
proof -
  have "Mfree b \<notin> set (free_mnode_func m)" for b m by (cases "mn_kind m") (auto simp: free_mnode_func_def)
  then show "vm_at vm a = Some x \<Longrightarrow> vo_data x = PkgOb p \<Longrightarrow> frees_no_string vm (Pkg_Free_Func a p)"
    by (auto simp: frees_no_string_def Pkg_Free_Func_def string_in_def)
qed

lemma work_step_strs:
  assumes "vm_work_step vm w = Inr (vm1, calls)" "strs_ok vm" "frees_no_string vm [w]"
  shows "strs_ok vm1 \<and> frees_no_string vm1 calls"
  using assms(1)
proof (cases rule: vm_work_step_cases)
  case (mfree a)
  then show ?thesis using assms(2,3) by (simp add: strs_ok_free frees_no_string_def)
next
  case (held a x)
  then show ?thesis using assms(2) by (simp add: frees_no_string_def)
next
  case (last a x)
  let ?vm = "put_ob vm a (Some (x\<lparr>vo_refcnt := 0\<rparr>))"
  have ok: "strs_ok ?vm" using last(2) assms(2) by simp
  have at: "vm_at ?vm a = Some (x\<lparr>vo_refcnt := 0\<rparr>)" using vm_at_length [OF last(2)] by (simp add: vm_at_put)
  from last(4) show ?thesis
  proof (cases rule: ob_free_cases)
    case (int n)
    then have "\<nexists>s. string_in ?vm a s" using at by (simp add: string_in_def)
    with ok int show ?thesis by (simp add: strs_ok_free frees_no_string_def)
  next
    case (str s t)
    then have "string_in ?vm a t" by (auto simp: klass_ob_Inr string_in_def)
    from strs_ok_remove [OF ok this] str show ?thesis by (simp add: frees_no_string_def)
  next
    case (tuple avail vs)
    with ok show ?thesis by (simp add: frees_no_string_def)
  next
    case (pkg p)
    with ok at frees_no_string_pkg [OF at, of p] show ?thesis by simp
  qed
next
  case (tuple a x avail vs)
  then show ?thesis using assms(2) by (auto simp: frees_no_string_def string_in_def)
next
  case (code a x c)
  then show ?thesis using assms(2) by (auto simp: frees_no_string_def string_in_def)
qed (use assms(2) in \<open>simp_all add: frees_no_string_def\<close>)

lemma release_strs: "vm_release vm ws = Inr vm' \<Longrightarrow> strs_ok vm \<Longrightarrow> frees_no_string vm ws \<Longrightarrow> strs_ok vm'"
proof (induction vm ws rule: vm_release.induct)
  case (2 vm w ws)
  from 2(2) obtain vm1 calls where step: "vm_work_step vm w = Inr (vm1, calls)" and rest: "vm_release vm1 (calls @ ws) = Inr vm'"
    by (auto split: sum.splits)
  have w: "frees_no_string vm [w]" "frees_no_string vm ws" using 2(4) frees_no_string_append(3) by blast+
  note ok = work_step_strs [OF step 2(3) w(1)]
  have "frees_no_string vm1 ws" by (rule frees_no_string_kept [OF work_step_kept [OF step] w(2)])
  with ok show ?case using 2(1) [OF step refl rest] by (simp add: frees_no_string_append(1))
qed simp

lemma frees_no_string_Decref [simp]: "frees_no_string vm [Decref ob]"
  by (simp add: frees_no_string_def)

text \<open>Making a string.\<close>

lemma strs_ok_new:
  assumes ok: "strs_ok vm" and str: "\<nexists>s. d = StrObject s"
  shows "strs_ok (snd (new_ob vm d))"
proof -
  have "string_in (snd (new_ob vm d)) a s = string_in vm a s" for a s
    using str by (auto simp: string_in_def new_ob_def vm_at_def nth_append)
  then show ?thesis using ok strs_ok_cong [of "snd (new_ob vm d)" vm] by (simp add: new_ob_def)
qed

lemma find_strobj_Some:
  assumes "strs_ok vm"
  shows "find_strobj vm str = Some a \<longleftrightarrow> (\<exists>s. string_in vm a s \<and> so_str s = cstr str)"
proof -
  have g: "ht_ok hash_string str_eq (\<lambda>_. True) (vm_strs vm)" using assms by (simp add: strs_ok_def)
  note find = string_keys.Find_Some_iff [OF g TrueI]
  show ?thesis
  proof
    assume "find_strobj vm str = Some a"
    then obtain n where n: "HashTable_Find (vm_strs vm) str = Some n" "hn_addr n = a" by (auto simp: find_strobj_def)
    with find have m: "n \<in> set (ht_head (vm_strs vm))" "str_eq (hn_key n) str" by auto
    obtain s where s: "string_in vm a s" using strs_ok_nodes [OF assms m(1)] n(2) by blast
    have d: "distinct (map hn_addr (ht_head (vm_strs vm)))" using g by (simp add: ht_ok_def ht_inv_def)
    have "so_hnode s = n" using strs_okD(1,2) [OF assms s] m(1) n(2) d by (auto simp: distinct_map inj_on_def)
    with strs_okD(3,4) [OF assms s] m(2) have "so_str s = cstr str" by (simp add: str_eq_def)
    with s show "\<exists>s. string_in vm a s \<and> so_str s = cstr str" by blast
  next
    assume "\<exists>s. string_in vm a s \<and> so_str s = cstr str"
    then obtain s where s: "string_in vm a s" "so_str s = cstr str" by blast
    have "HashTable_Find (vm_strs vm) str = Some (so_hnode s)"
      using strs_okD [OF assms s(1)] s(2) find [of str "so_hnode s"] by (simp add: str_eq_def)
    then show "find_strobj vm str = Some a" using strs_okD(2) [OF assms s(1)] by (simp add: find_strobj_def)
  qed
qed

definition refcnt_of :: "Vm \<Rightarrow> nat \<Rightarrow> int" where
  "refcnt_of vm a = (case vm_at vm a of None \<Rightarrow> 0 | Some x \<Rightarrow> vo_refcnt x)"

lemma String_New_found:
  assumes "strs_ok vm" "find_strobj vm str = Some a"
  shows "\<exists>vm'. String_New vm str = Inr (a, vm') \<and> strs_ok vm' \<and> (\<forall>b s. string_in vm' b s = string_in vm b s) \<and>
    refcnt_of vm' a = refcnt_of vm a + 1"
proof -
  obtain x where x: "vm_at vm a = Some x"
    using find_strobj_Some [OF assms(1), of str a] assms(2) by (auto simp: string_in_def)
  then show ?thesis using assms vm_at_length [OF x]
    by (auto simp: String_New_def vm_incref_def ob_deref_def string_in_count refcnt_of_def vm_at_put)
qed

lemma String_New_made:
  assumes ok: "strs_ok vm" and none: "find_strobj vm str = None"
  defines "a \<equiv> length (vm_objs vm)"
  shows "\<exists>vm' s. String_New vm str = Inr (a, vm') \<and> strs_ok vm' \<and> so_str s = cstr str \<and>
    (\<forall>b t. string_in vm' b t = (if b = a then t = s else string_in vm b t)) \<and> refcnt_of vm' a = 1"
proof -
  let ?n = "Init_HashNode a (cstr str)"
  have g: "ht_ok hash_string str_eq (\<lambda>_. True) (vm_strs vm)" using ok by (simp add: strs_ok_def)
  have n: "\<not> hn_linked ?n" "hn_key ?n = cstr str" "hn_addr ?n = a" by (simp_all add: Init_HashNode_def)
  have fresh: "hn_addr m \<noteq> a" if "m \<in> set (ht_head (vm_strs vm))" for m
    using strs_ok_nodes [OF ok that] by (auto simp: string_in_def vm_at_def a_def)
  then have fr: "hn_addr ?n \<notin> hn_addr ` set (ht_head (vm_strs vm))" using n(3) by auto
  have eq: "str_eq k (cstr str) = str_eq k str" for k by (simp add: str_eq_def)
  have f: "HashTable_Find (vm_strs vm) (hn_key ?n) = None"
    using none string_keys.Find_None_iff [OF g TrueI, of "cstr str"] string_keys.Find_None_iff [OF g TrueI, of str]
    by (simp add: find_strobj_def n(2) eq)
  obtain res strs hnode where ins: "HashTable_Insert True (vm_strs vm) ?n = (res, strs, hnode)" by (metis prod_cases3)
  note spec = string_keys.Insert_spec [OF g n(1) TrueI fr ins]
  have hn: "hnode = ?n\<lparr>hn_hash := hash_string (cstr str), hn_linked := True\<rparr>"
    using ins f g by (auto simp: HashTable_Insert_def HashTable_Find_def Let_def ht_ok_def n(1,2) split: if_splits option.splits)
  have head: "ht_head strs = ht_head (vm_strs vm) @ [hnode]" using spec(3) f hn n(2) by simp
  let ?s = "\<lparr>so_hnode = hnode, so_len = strlen str, so_str = cstr str\<rparr>"
  let ?vm = "snd (new_ob (vm\<lparr>vm_strs := strs\<rparr>) (StrObject ?s))"
  have new: "String_New vm str = Inr (a, ?vm)"
    using none ins by (simp add: String_New_def a_def new_ob_def)
  have at: "string_in ?vm b t \<longleftrightarrow> (if b = a then t = ?s else string_in vm b t)" for b t
    by (auto simp: string_in_def new_ob_def vm_at_def nth_append a_def)
  have old: "b \<noteq> a" if "string_in vm b t" for b t using that by (auto simp: string_in_def vm_at_def a_def split: if_splits)
  have "strs_ok ?vm"
    unfolding strs_ok_def
  proof (intro conjI ballI allI impI)
    show "ht_ok hash_string str_eq (\<lambda>_. True) (vm_strs ?vm)" using spec(1) by (simp add: new_ob_def)
    show "\<exists>t. string_in ?vm (hn_addr m) t" if "m \<in> set (ht_head (vm_strs ?vm))" for m
    proof (cases "m = hnode")
      case True
      then have "string_in ?vm (hn_addr m) ?s" using n(3) hn at by simp
      then show ?thesis ..
    next
      case False
      with that have m: "m \<in> set (ht_head (vm_strs vm))" by (simp add: new_ob_def head)
      from strs_ok_nodes [OF ok m] fresh [OF m] at show ?thesis by simp
    qed
  next
    fix b t assume t: "string_in ?vm b t"
    have "so_hnode t \<in> set (ht_head strs) \<and> hn_addr (so_hnode t) = b \<and> hn_key (so_hnode t) = so_str t \<and> no_nul (so_str t) \<and>
      so_len t = int (length (so_str t))"
    proof (cases "b = a")
      case True
      with t at show ?thesis by (simp add: head hn n Init_HashNode_def strlen_def)
    next
      case False
      with t at have "string_in vm b t" by simp
      from strs_okD [OF ok this] show ?thesis by (simp add: head)
    qed
    then show "so_hnode t \<in> set (ht_head (vm_strs ?vm))" "hn_addr (so_hnode t) = b" "hn_key (so_hnode t) = so_str t"
      "no_nul (so_str t)" "so_len t = int (length (so_str t))" by (simp_all add: new_ob_def)
  qed
  moreover have "refcnt_of ?vm a = 1" by (simp add: refcnt_of_def vm_at_def new_ob_def a_def)
  ultimately show ?thesis using new at by (intro exI [of _ ?vm] exI [of _ ?s]) simp
qed

lemma String_New_spec:
  assumes "strs_ok vm"
  obtains a vm' s where "String_New vm str = Inr (a, vm')" "strs_ok vm'" "string_in vm' a s" "so_str s = cstr str"
    "\<forall>b t. b \<noteq> a \<longrightarrow> string_in vm' b t = string_in vm b t" "refcnt_of vm' a = refcnt_of vm a + 1"
proof (cases "find_strobj vm str")
  case None
  have "refcnt_of vm (length (vm_objs vm)) = 0" by (simp add: refcnt_of_def vm_at_def)
  with String_New_made [OF assms None] that show ?thesis by (metis add.left_neutral)
next
  case (Some a)
  with find_strobj_Some [OF assms] obtain s where "string_in vm a s" "so_str s = cstr str" by blast
  with String_New_found [OF assms Some] that show ?thesis by metis
qed

lemma String_RawString_Inr: "String_RawString vm (Some a) = Inr t \<longleftrightarrow> (\<exists>s. string_in vm a s \<and> so_str s = t)"
  by (auto simp: String_RawString_def klass_ob_Inr string_in_def)

text \<open>The cache before any string.\<close>

definition Vm_Init :: Vm where
  "Vm_Init = \<lparr>vm_objs = [], vm_strs = the (HashTable_Init True hash_string str_eq)\<rparr>"

lemma Vm_Init_ok: "strs_ok Vm_Init"
proof -
  have i: "HashTable_Init True hash_string str_eq = Some (vm_strs Vm_Init)"
    by (simp add: Vm_Init_def HashTable_Init_def new_entries_def)
  then show ?thesis
    using string_keys.good_Init [OF i] ht_Init_fields [OF i] by (simp add: strs_ok_def string_in_def vm_at_def) (simp add: Vm_Init_def)
qed

text \<open>
  C13: equal strings are one object. While the cache holds the nodes of the string objects, making a string
  succeeds and gives the only string object with these characters, with one more reference to it; the
  other strings stay what they are, and the cache still holds the nodes of the string objects, also after
  any reference is dropped, with all that this frees.
\<close>

theorem strings_interned:
  assumes "strs_ok vm"
  shows "\<exists>a vm'. String_New vm str = Inr (a, vm') \<and> refcnt_of vm' a = refcnt_of vm a + 1 \<and>
    String_RawString vm' (Some a) = Inr (cstr str) \<and>
    (\<forall>b t. String_RawString vm' (Some b) = Inr t \<longrightarrow> (b = a \<longleftrightarrow> str_eq t str)) \<and>
    (\<forall>b t. b \<noteq> a \<longrightarrow> (String_RawString vm' (Some b) = Inr t \<longleftrightarrow> String_RawString vm (Some b) = Inr t)) \<and>
    strs_ok vm' \<and> (\<forall>ob vm''. vm_decref vm' ob = Inr vm'' \<longrightarrow> strs_ok vm'')"
proof -
  obtain a vm' s where r: "String_New vm str = Inr (a, vm')" "strs_ok vm'" "string_in vm' a s" "so_str s = cstr str"
    "\<forall>b t. b \<noteq> a \<longrightarrow> string_in vm' b t = string_in vm b t" "refcnt_of vm' a = refcnt_of vm a + 1"
    using String_New_spec [OF assms] by blast
  have "b = a \<longleftrightarrow> str_eq (so_str t) str" if "string_in vm' b t" for b t
    using string_unique [OF r(2) that r(3)] strs_okD(4) [OF r(2) that] string_in_fun [OF that, of s] r(3,4)
    by (auto simp: str_eq_def)
  moreover have "strs_ok vm''" if "vm_decref vm' ob = Inr vm''" for ob vm''
    using release_strs [OF that [unfolded vm_decref_def] r(2)] by simp
  ultimately show ?thesis
    using r by (intro exI [of _ a] exI [of _ vm']) (auto simp: String_RawString_Inr)
qed

theorem strings_interned_witness:
  "\<exists>a vm b vm'. String_New Vm_Init ''lang'' = Inr (a, vm) \<and> String_New vm ''lang'' = Inr (b, vm') \<and> a = b \<and>
     refcnt_of vm' a = 2"
proof -
  obtain a vm where 1: "String_New Vm_Init ''lang'' = Inr (a, vm)" "refcnt_of vm a = refcnt_of Vm_Init a + 1"
    "String_RawString vm (Some a) = Inr (cstr ''lang'')" "strs_ok vm"
    using strings_interned [OF Vm_Init_ok, of "''lang''"] by blast
  obtain b vm' where 2: "String_New vm ''lang'' = Inr (b, vm')" "refcnt_of vm' b = refcnt_of vm b + 1"
    "\<forall>c t. String_RawString vm' (Some c) = Inr t \<longrightarrow> (c = b \<longleftrightarrow> str_eq t ''lang'')"
    "\<forall>c t. c \<noteq> b \<longrightarrow> (String_RawString vm' (Some c) = Inr t \<longleftrightarrow> String_RawString vm (Some c) = Inr t)"
    using strings_interned [OF 1(4), of "''lang''"] by blast
  have "a = b"
  proof (rule ccontr)
    assume "a \<noteq> b"
    with 2(4) 1(3) have "String_RawString vm' (Some a) = Inr (cstr ''lang'')" by blast
    with 2(3) \<open>a \<noteq> b\<close> show False by (simp add: str_eq_def)
  qed
  moreover have "refcnt_of Vm_Init a = 0" by (simp add: refcnt_of_def Vm_Init_def vm_at_def)
  ultimately show ?thesis using 1 2 by (intro exI [of _ a] exI [of _ vm] exI [of _ b] exI [of _ vm']) simp
qed

subsection \<open>Storing into a tuple\<close>

definition tuple_in :: "Vm \<Rightarrow> nat \<Rightarrow> nat option list \<Rightarrow> bool" where
  "tuple_in vm a vs \<longleftrightarrow> (\<exists>avail. map_option vo_data (vm_at vm a) = Some (TupleObject avail vs))"

lemma data_kept_incref: "vm_incref vm ob = Inr vm' \<Longrightarrow> data_kept vm vm'"
  by (auto simp: vm_incref_def ob_deref_Inr data_kept_count)

lemma Tuple_Set_spec:
  assumes "Tuple_Set vm ob index val = Inr (0, vm')"
  obtains a avail vs vm2 where "ob = Some a" "0 \<le> index" "index < int (length vs)"
    "map_option vo_data (vm_at vm a) = Some (TupleObject avail vs)"
    "map_option vo_data (vm_at vm' a) = Some (TupleObject avail (vs[nat index := val]))"
    "data_kept vm vm2" "\<forall>b. b \<noteq> a \<longrightarrow> vm_at vm' b = vm_at vm2 b"
proof -
  from assms obtain a avail vs vm1 vm2 where 1: "tuple_ob vm ob = Inr (a, avail, vs)" "0 \<le> index" "index < int (length vs)"
    "vm_decref vm (vs ! nat index) = Inr vm1" "vm_incref vm1 val = Inr vm2"
    "set_data vm2 a (TupleObject avail (vs[nat index := val])) = Inr vm'"
    by (auto simp: Tuple_Set_def split: if_splits)
  have k: "data_kept vm vm2"
    using data_kept_trans [OF release_kept data_kept_incref] 1(4,5) unfolding vm_decref_def by blast
  from 1(6) obtain x where x: "vm_at vm2 a = Some x" "vm' = put_ob vm2 a (Some (x\<lparr>vo_data := TupleObject avail (vs[nat index := val])\<rparr>))"
    by (auto simp: set_data_def ob_deref_Inr)
  show ?thesis
    using 1(1-3) k x vm_at_length [OF x(1)] by (intro that [of a vs avail vm2]) (auto simp: klass_ob_Inr vm_at_put)
qed

text \<open>
  The value of a place is dropped before the new one is held: storing the value that is already there,
  when the tuple has the only reference to it, frees it and then uses it.
\<close>

lemma tuple_set_same_fails:
  "Tuple_Set (Vm_Init\<lparr>vm_objs := [Some \<lparr>vo_refcnt = 1, vo_data = IntObject 7\<rparr>, Some \<lparr>vo_refcnt = 1, vo_data = TupleObject 0 [Some 0]\<rparr>]\<rparr>)
     (Some 1) 0 (Some 0) = Inl Null_Deref"
  by (simp add: Tuple_Set_def tuple_ob_def ob_deref_def vm_at_def vm_decref_def vm_work_step_def ob_free_def Integer_Free_def
      int_ob_def put_ob_def vm_incref_def)

text \<open>Adding two empty strings hashes a null pointer.\<close>

lemma empty_strings_not_added:
  assumes "string_in vm a s" "string_in vm b t" "so_str s = []" "so_str t = []"
  shows "string_numop_add vm (Some a) (Some b) = Inl Null_Deref"
proof -
  have "string_ob vm (Some a) = Inr s" "string_ob vm (Some b) = Inr t" using assms by (auto simp: klass_ob_Inr string_in_def)
  then show ?thesis
    using assms(3,4) by (simp add: string_numop_add_def StringBuf_Append_def AtomString_Length_def strlen_def DeclareStringBuf_def)
qed

subsection \<open>The heap as a map\<close>

definition data_at :: "Vm \<Rightarrow> nat \<Rightarrow> ObData option" where
  "data_at vm a = map_option vo_data (vm_at vm a)"

lemma data_at_iff: "data_at vm a = Some d \<longleftrightarrow> (\<exists>x. vm_at vm a = Some x \<and> vo_data x = d)"
  by (simp add: data_at_def)

lemma ob_data_at:
  "int_ob vm (Some a) = Inr n \<longleftrightarrow> data_at vm a = Some (IntObject n)"
  "tuple_ob vm (Some a) = Inr (b, avail, vs) \<longleftrightarrow> b = a \<and> data_at vm a = Some (TupleObject avail vs)"
  "code_ob vm (Some a) = Inr (b, c) \<longleftrightarrow> b = a \<and> data_at vm a = Some (CodeOb c)"
  "pkg_ob vm (Some a) = Inr (b, p) \<longleftrightarrow> b = a \<and> data_at vm a = Some (PkgOb p)"
  by (auto simp: klass_ob_Inr data_at_iff)

lemma data_at_new:
  "data_at (snd (new_ob vm d)) = (data_at vm)(length (vm_objs vm) \<mapsto> d)" "data_at vm (length (vm_objs vm)) = None"
  "fst (new_ob vm d) = length (vm_objs vm)" "vm_strs (snd (new_ob vm d)) = vm_strs vm"
  by (auto simp: data_at_def new_ob_def vm_at_def nth_append fun_eq_iff)

lemma strs_ok_data:
  assumes "strs_ok vm" "vm_strs vm' = vm_strs vm" "\<And>a s. data_at vm' a = Some (StrObject s) \<longleftrightarrow> data_at vm a = Some (StrObject s)"
  shows "strs_ok vm'"
  using strs_ok_cong [OF assms(2)] assms(1,3) by (simp add: string_in_def data_at_def)

lemma vm_incref_ok:
  assumes "data_at vm a \<noteq> None"
  shows "\<exists>vm'. vm_incref vm (Some a) = Inr vm' \<and> data_at vm' = data_at vm \<and> vm_strs vm' = vm_strs vm"
proof -
  obtain x where x: "vm_at vm a = Some x" using assms by (auto simp: data_at_def)
  then have "data_at (put_ob vm a (Some (x\<lparr>vo_refcnt := n\<rparr>))) = data_at vm" for n
    using vm_at_length [OF x] by (auto simp: data_at_def vm_at_put fun_eq_iff)
  with x show ?thesis by (simp add: vm_incref_def ob_deref_def)
qed

lemma set_data_ok:
  assumes "data_at vm a \<noteq> None"
  shows "\<exists>vm'. set_data vm a d = Inr vm' \<and> data_at vm' = (data_at vm)(a \<mapsto> d) \<and> vm_strs vm' = vm_strs vm"
proof -
  obtain x where x: "vm_at vm a = Some x" using assms by (auto simp: data_at_def)
  then have "data_at (put_ob vm a (Some (x\<lparr>vo_data := d\<rparr>))) = (data_at vm)(a \<mapsto> d)"
    using vm_at_length [OF x] by (auto simp: data_at_def vm_at_put fun_eq_iff)
  with x show ?thesis by (simp add: set_data_def ob_deref_def)
qed

text \<open>Filling a place of a tuple that is still empty.\<close>

lemma Tuple_Set_empty:
  assumes "data_at vm t = Some (TupleObject avail vs)" "i < length vs" "vs ! i = None" "data_at vm v \<noteq> None"
  shows "\<exists>vm'. Tuple_Set vm (Some t) (int i) (Some v) = Inr (0, vm') \<and>
    data_at vm' = (data_at vm)(t \<mapsto> TupleObject avail (vs[i := Some v])) \<and> vm_strs vm' = vm_strs vm"
proof -
  obtain vm1 where 1: "vm_incref vm (Some v) = Inr vm1" "data_at vm1 = data_at vm" "vm_strs vm1 = vm_strs vm"
    using vm_incref_ok [OF assms(4)] by blast
  have t: "data_at vm1 t \<noteq> None" using assms(1) 1(2) by simp
  obtain vm2 where 2: "set_data vm1 t (TupleObject avail (vs[i := Some v])) = Inr vm2"
    "data_at vm2 = (data_at vm1)(t \<mapsto> TupleObject avail (vs[i := Some v]))" "vm_strs vm2 = vm_strs vm1"
    using set_data_ok [OF t] by blast
  have "tuple_ob vm (Some t) = Inr (t, avail, vs)" using assms(1) by (simp add: ob_data_at)
  with 1 2 assms(2,3) show ?thesis by (simp add: Tuple_Set_def vm_decref_def vm_work_step_def)
qed

text \<open>Making a string, seen on the map.\<close>

lemma String_New_data:
  assumes "strs_ok vm"
  shows "\<exists>a vm' s. String_New vm str = Inr (a, vm') \<and> strs_ok vm' \<and> data_at vm' a = Some (StrObject s) \<and> so_str s = cstr str \<and>
    (\<forall>b. data_at vm b \<noteq> None \<longrightarrow> data_at vm' b = data_at vm b)"
proof (cases "find_strobj vm str")
  case None
  then obtain vm' s where 1: "String_New vm str = Inr (length (vm_objs vm), vm')" "strs_ok vm'" "so_str s = cstr str"
    "string_in vm' (length (vm_objs vm)) s" using String_New_made [OF assms None] by auto
  have "data_at vm' b = data_at vm b" if "data_at vm b \<noteq> None" for b
    using 1(1) None that data_at_new(2) [of vm]
    by (auto simp: String_New_def new_ob_def data_at_def vm_at_def nth_append split: prod.splits if_splits)
  with 1 show ?thesis by (auto simp: string_in_def data_at_def intro!: exI [of _ s])
next
  case (Some a)
  obtain s where s: "data_at vm a = Some (StrObject s)" "so_str s = cstr str"
    using find_strobj_Some [OF assms, of str a] Some by (auto simp: string_in_def data_at_def)
  then obtain vm' where 1: "vm_incref vm (Some a) = Inr vm'" "data_at vm' = data_at vm" "vm_strs vm' = vm_strs vm"
    using vm_incref_ok [of vm a] by auto
  have "strs_ok vm'" by (rule strs_ok_data [OF assms 1(3)]) (simp add: 1(2))
  with 1 s Some show ?thesis by (auto simp: String_New_def)
qed

end
