(* ===== verification/VmPackage.thy ===== *)
theory VmPackage
  imports VmObjects ImageProps
begin

text \<open>
  Packages (\<^verbatim>\<open>src/package.c\<close>): a package is made by hand or from an image, and then holds the constants,
  the variables and the functions of the image.
\<close>

subsection \<open>Making packages\<close>

text \<open>A pointer to a package is one: the casts are not checked.\<close>

definition Pkg_New :: "Vm \<Rightarrow> string \<Rightarrow> nat \<times> Vm" where
  "Pkg_New vm name = new_ob vm (PkgOb \<lparr>pk_name = cstr name, pk_mtbl = NameTable_Init, pk_consts = None, pk_index = 0, pk_nrvars = 0\<rparr>)"

definition Pkg_Add_Const :: "Vm \<Rightarrow> nat \<Rightarrow> string \<Rightarrow> TypeDesc option \<Rightarrow> nat option \<Rightarrow> Vm run" where
  "Pkg_Add_Const vm pkg name desc val = bind_run (pkg_ob vm (Some pkg)) (\<lambda>(_, p).
     let m = (MNode_New CONST_KIND name desc)\<lparr>mn_code := val\<rparr> in
     bind_run (vm_incref vm val) (\<lambda>vm1. set_data vm1 pkg (PkgOb (p\<lparr>pk_mtbl := insert_m (pk_mtbl p) m\<rparr>))))"

text \<open>The place of a variable is counted whether or not its name is taken.\<close>

definition Pkg_Add_Var :: "Vm \<Rightarrow> nat \<Rightarrow> string \<Rightarrow> TypeDesc option \<Rightarrow> Vm run" where
  "Pkg_Add_Var vm pkg name desc = bind_run (pkg_ob vm (Some pkg)) (\<lambda>(_, p).
     let m = (MNode_New VAR_KIND name desc)\<lparr>mn_offset := pk_nrvars p\<rparr> in
     set_data vm pkg (PkgOb (p\<lparr>pk_mtbl := insert_m (pk_mtbl p) m, pk_nrvars := pk_nrvars p + 1\<rparr>)))"

definition Pkg_Add_Func :: "Vm \<Rightarrow> nat \<Rightarrow> nat \<Rightarrow> Vm run" where
  "Pkg_Add_Func vm pkg code = bind_run (pkg_ob vm (Some pkg)) (\<lambda>(_, p). bind_run (code_ob vm (Some code)) (\<lambda>(_, co).
     let m = (MNode_New FUNC_KIND (vc_name co) (vc_proto co))\<lparr>mn_code := Some code\<rparr> in
     bind_run (set_data vm pkg (PkgOb (p\<lparr>pk_mtbl := insert_m (pk_mtbl p) m\<rparr>))) (\<lambda>vm1.
     bind_run (vm_incref vm1 (Some code)) (\<lambda>vm2.
       case vc_kind co of
         CFUNC_KIND f \<Rightarrow> Inr vm2
       | KCODE_KIND ci \<Rightarrow>
           bind_run (vm_incref vm2 (pk_consts p)) (\<lambda>vm3.
             set_data vm3 code (CodeOb (co\<lparr>vc_kind := KCODE_KIND (ci\<lparr>ci_consts := pk_consts p\<rparr>)\<rparr>)))))))"

text \<open>The member \<open>owner\<close> of a class is set here and never read; it is left out.\<close>

definition Pkg_Add_Klass :: "klasses \<Rightarrow> Vm \<Rightarrow> nat \<Rightarrow> addr \<Rightarrow> bool \<Rightarrow> (klasses \<times> Vm) run" where
  "Pkg_Add_Klass kls vm pkg klazz trait = bind_run (pkg_ob vm (Some pkg)) (\<lambda>(_, p).
     let kind = (if trait then TRAIT_KIND else CLASS_KIND);
         m = (MNode_New kind (kl_name (kls klazz)) None)\<lparr>mn_code := Some klazz\<rparr> in
     bind_run (set_data vm pkg (PkgOb (p\<lparr>pk_mtbl := insert_m (pk_mtbl p) m\<rparr>))) (\<lambda>vm1.
       Inr (kls(klazz := (kls klazz)\<lparr>kl_consts := pk_consts p\<rparr>), vm1)))"

primrec Pkg_Add_CFunctions :: "DescTable \<Rightarrow> Vm \<Rightarrow> nat \<Rightarrow> CFunctionDef list \<Rightarrow> (DescTable \<times> Vm) run" where
  "Pkg_Add_CFunctions tbl vm pkg [] = Inr (tbl, vm)"
| "Pkg_Add_CFunctions tbl vm pkg (f # fs) =
     bind_run (Code_From_CFunction tbl vm f) (\<lambda>(code, tbl1, vm1).
     bind_run (Pkg_Add_Func vm1 pkg code) (\<lambda>vm2. Pkg_Add_CFunctions tbl1 vm2 pkg fs))"

subsection \<open>From an image\<close>

text \<open>
  The constant of an item. For floats and booleans the variable is not initialised, and the pointer in it
  is followed when it is stored.
\<close>

definition getconstfunc :: "Vm \<Rightarrow> nat \<Rightarrow> int \<times> ConstData \<times> int \<Rightarrow> Vm run" where
  "getconstfunc vm tuple call = (case call of (type, data, index) \<Rightarrow>
     bind_run (
       if type = CONST_INT then (case data of Union raw \<Rightarrow> Inr (Integer_New vm raw) | Chars s \<Rightarrow> Inl Out_Of_Bounds)
       else if type = CONST_FLOAT \<or> type = CONST_BOOL then Inl Null_Deref
       else if type = CONST_STRING then (case data of Chars s \<Rightarrow> String_New vm s | Union raw \<Rightarrow> Inl Out_Of_Bounds)
       else Inl Assert_Failed) (\<lambda>(ob, vm1).
     bind_run (Tuple_Set vm1 (Some tuple) index (Some ob)) (\<lambda>(_, vm2). Inr vm2)))"

fun run_calls :: "(Vm \<Rightarrow> 'c \<Rightarrow> Vm run) \<Rightarrow> Vm \<Rightarrow> 'c list \<Rightarrow> Vm run" where
  "run_calls f vm [] = Inr vm"
| "run_calls f vm (c # cs) = bind_run (f vm c) (\<lambda>vm1. run_calls f vm1 cs)"

definition set_consts :: "Vm \<Rightarrow> nat \<Rightarrow> nat option \<Rightarrow> Vm run" where
  "set_consts vm pkg tuple = bind_run (pkg_ob vm (Some pkg)) (\<lambda>(_, p). set_data vm pkg (PkgOb (p\<lparr>pk_consts := tuple\<rparr>)))"

definition load_consts :: "Vm \<Rightarrow> nat \<Rightarrow> KImage \<Rightarrow> Vm run" where
  "load_consts vm pkg img = bind_run (KImage_Count_Consts img) (\<lambda>sz.
     case Tuple_New vm (nat sz) of (tuple, vm1) \<Rightarrow>
       bind_run (KImage_Get_Consts img) (\<lambda>calls.
       bind_run (run_calls (\<lambda>v c. getconstfunc v tuple c) vm1 calls) (\<lambda>vm2. set_consts vm2 pkg (Some tuple))))"

definition getvarfunc :: "nat \<Rightarrow> Vm \<Rightarrow> string \<times> TypeDesc \<times> int \<Rightarrow> Vm run" where
  "getvarfunc pkg vm call = (case call of (name, desc, konst) \<Rightarrow>
     if konst \<noteq> 0 then Pkg_Add_Const vm pkg name (Some desc) None else Pkg_Add_Var vm pkg name (Some desc))"

definition load_variables :: "nat \<Rightarrow> Vm \<Rightarrow> DescTable \<Rightarrow> nat \<Rightarrow> KImage \<Rightarrow> (DescTable \<times> Vm) run" where
  "load_variables n vm tbl pkg img = bind_run (KImage_Get_Vars n img tbl) (\<lambda>(calls, tbl1).
     bind_run (run_calls (getvarfunc pkg) vm calls) (\<lambda>vm1. Inr (tbl1, vm1)))"

definition getlocvarfunc :: "nat \<Rightarrow> int \<Rightarrow> Vm \<Rightarrow> string \<times> TypeDesc \<times> int \<times> int \<Rightarrow> Vm run" where
  "getlocvarfunc code findex vm call = (case call of (name, desc, pos, index) \<Rightarrow>
     if index = findex then Code_Add_LocVar vm (Some code) name (Some desc) pos else Inr vm)"

fun load_funcs_loop :: "nat \<Rightarrow> KImage \<Rightarrow> nat \<Rightarrow> Vm \<Rightarrow> DescTable \<Rightarrow>
    (string \<times> TypeDesc \<times> int \<times> nat \<times> uint8 list option \<times> int) list \<Rightarrow> (DescTable \<times> Vm) run" where
  "load_funcs_loop n img pkg vm tbl [] = Inr (tbl, vm)"
| "load_funcs_loop n img pkg vm tbl ((name, desc, index, type, codes, sz) # calls) =
     (case Code_New vm name (Some desc) codes sz of (ob, vm1) \<Rightarrow>
       bind_run (Pkg_Add_Func vm1 pkg ob) (\<lambda>vm2.
       bind_run (KImage_Get_LocVars n img tbl) (\<lambda>(locvars, tbl1).
       bind_run (run_calls (getlocvarfunc ob index) vm2 locvars) (\<lambda>vm3.
         load_funcs_loop n img pkg vm3 tbl1 calls))))"

definition load_functions :: "nat \<Rightarrow> Vm \<Rightarrow> DescTable \<Rightarrow> nat \<Rightarrow> KImage \<Rightarrow> (DescTable \<times> Vm) run" where
  "load_functions n vm tbl pkg img = bind_run (KImage_Get_Funcs n img tbl) (\<lambda>(calls, tbl1).
     load_funcs_loop n img pkg vm tbl1 calls)"

text \<open>\<open>n\<close> is the fuel for reading types.\<close>

definition Pkg_From_Image :: "nat \<Rightarrow> Vm \<Rightarrow> DescTable \<Rightarrow> KImage \<Rightarrow> (nat \<times> DescTable \<times> Vm) run" where
  "Pkg_From_Image n vm tbl img = (case Pkg_New vm (ih_pkgname (im_header img)) of (pkg, vm1) \<Rightarrow>
     bind_run (load_consts vm1 pkg img) (\<lambda>vm2.
     bind_run (load_variables n vm2 tbl pkg img) (\<lambda>(tbl1, vm3).
     bind_run (load_functions n vm3 tbl1 pkg img) (\<lambda>(tbl2, vm4). Inr (pkg, tbl2, vm4)))))"

subsection \<open>Loading constants\<close>

definition kept_from :: "Vm \<Rightarrow> nat set \<Rightarrow> Vm \<Rightarrow> bool" where
  "kept_from vm A vm' \<longleftrightarrow> strs_ok vm' \<and> (\<forall>b. b \<notin> A \<longrightarrow> data_at vm b \<noteq> None \<longrightarrow> data_at vm' b = data_at vm b)"

lemma kept_from_refl [simp]: "kept_from vm A vm \<longleftrightarrow> strs_ok vm"
  by (simp add: kept_from_def)

lemma kept_from_trans: "kept_from vm A vm1 \<Longrightarrow> kept_from vm1 B vm2 \<Longrightarrow> A \<subseteq> C \<Longrightarrow> B \<subseteq> C \<Longrightarrow> kept_from vm C vm2"
  unfolding kept_from_def by (metis subsetD)

lemma kept_fromD: "kept_from vm A vm' \<Longrightarrow> data_at vm b = Some d \<Longrightarrow> b \<notin> A \<Longrightarrow> data_at vm' b = Some d"
  by (simp add: kept_from_def)

text \<open>Allocating, and changing data that is not a string for data that is not.\<close>

definition no_string :: "ObData option \<Rightarrow> bool" where
  "no_string d \<longleftrightarrow> (\<forall>s. d \<noteq> Some (StrObject s))"

lemma kept_from_set:
  assumes "strs_ok vm" "vm_strs vm' = vm_strs vm" "data_at vm' = (data_at vm)(a \<mapsto> d)" "no_string (data_at vm a)" "no_string (Some d)"
  shows "kept_from vm {a} vm'"
proof -
  have "strs_ok vm'" by (rule strs_ok_data [OF assms(1,2)]) (use assms(3-5) in \<open>auto simp: no_string_def split: if_splits\<close>)
  with assms(3) show ?thesis by (simp add: kept_from_def)
qed

lemma kept_from_new:
  assumes "strs_ok vm" "no_string (Some d)" "new_ob vm d = (a, vm')"
  shows "kept_from vm {} vm'" "data_at vm' = (data_at vm)(a \<mapsto> d)" "data_at vm a = None"
proof -
  have e: "vm' = snd (new_ob vm d)" "a = length (vm_objs vm)" using assms(3) data_at_new(3) [of vm d] by auto
  note n = data_at_new(1,2,4) [of vm, folded e(2)]
  show "data_at vm' = (data_at vm)(a \<mapsto> d)" "data_at vm a = None" using n(1,2) e(1) by simp_all
  have "no_string (data_at vm a)" using n(2) by (simp add: no_string_def)
  from kept_from_set [OF assms(1) _ _ this assms(2), of vm'] n e(1) show "kept_from vm {} vm'" by (auto simp: kept_from_def)
qed

text \<open>The constants that can be loaded, and the object of one.\<close>

definition const_loadable :: "int \<times> ConstData \<times> int \<Rightarrow> bool" where
  "const_loadable call \<longleftrightarrow> (case call of (ty, Union raw, i) \<Rightarrow> ty = CONST_INT | (ty, Chars s, i) \<Rightarrow> ty = CONST_STRING)"

definition const_ob :: "Vm \<Rightarrow> nat \<Rightarrow> int \<times> ConstData \<times> int \<Rightarrow> bool" where
  "const_ob vm a call \<longleftrightarrow> (case call of
     (ty, Union raw, i) \<Rightarrow> data_at vm a = Some (IntObject raw)
   | (ty, Chars s, i) \<Rightarrow> \<exists>so. data_at vm a = Some (StrObject so) \<and> so_str so = cstr s)"

lemma const_ob_kept:
  assumes "const_ob vm a c" "kept_from vm A vm'" "a \<notin> A"
  shows "const_ob vm' a c"
proof -
  have "data_at vm a \<noteq> None" using assms(1) by (auto simp: const_ob_def split: prod.splits ConstData.splits)
  then have "data_at vm' a = data_at vm a" using assms(2,3) by (simp add: kept_from_def)
  with assms(1) show ?thesis by (simp add: const_ob_def split: prod.splits ConstData.splits)
qed

lemma const_ob_not_tuple: "const_ob vm a c \<Longrightarrow> data_at vm a \<noteq> Some (TupleObject av vs)"
  by (auto simp: const_ob_def split: prod.splits ConstData.splits)

lemma getconstfunc_ok:
  assumes "strs_ok vm" "data_at vm t = Some (TupleObject av vs)" "i < length vs" "vs ! i = None" "const_loadable (ty, d, int i)"
  shows "\<exists>vm' a. getconstfunc vm t (ty, d, int i) = Inr vm' \<and> kept_from vm {t} vm' \<and>
    data_at vm' t = Some (TupleObject av (vs[i := Some a])) \<and> const_ob vm' a (ty, d, int i) \<and> a \<noteq> t"
proof -
  have "\<exists>a vm1. (if ty = CONST_INT then (case d of Union raw \<Rightarrow> Inr (Integer_New vm raw) | Chars s \<Rightarrow> Inl Out_Of_Bounds)
       else if ty = CONST_FLOAT \<or> ty = CONST_BOOL then Inl Null_Deref
       else if ty = CONST_STRING then (case d of Chars s \<Rightarrow> String_New vm s | Union raw \<Rightarrow> Inl Out_Of_Bounds)
       else Inl Assert_Failed) = Inr (a, vm1) \<and> kept_from vm {} vm1 \<and> const_ob vm1 a (ty, d, int i)"
  proof (cases d)
    case (Union raw)
    obtain a vm1 where n: "new_ob vm (IntObject raw) = (a, vm1)" by (cases "new_ob vm (IntObject raw)")
    with kept_from_new [OF assms(1) _ n] assms(5) Union show ?thesis
      by (auto simp: const_loadable_def Integer_New_def no_string_def const_ob_def)
  next
    case (Chars str)
    obtain a vm1 so where 1: "String_New vm str = Inr (a, vm1)" "strs_ok vm1" "data_at vm1 a = Some (StrObject so)" "so_str so = cstr str"
      "\<forall>b. data_at vm b \<noteq> None \<longrightarrow> data_at vm1 b = data_at vm b" using String_New_data [OF assms(1)] by blast
    moreover have "ty = CONST_STRING" using assms(5) Chars by (simp add: const_loadable_def)
    ultimately show ?thesis using Chars by (auto simp: const_types const_ob_def kept_from_def)
  qed
  then obtain a vm1 where 1: "(if ty = CONST_INT then (case d of Union raw \<Rightarrow> Inr (Integer_New vm raw) | Chars s \<Rightarrow> Inl Out_Of_Bounds)
       else if ty = CONST_FLOAT \<or> ty = CONST_BOOL then Inl Null_Deref
       else if ty = CONST_STRING then (case d of Chars s \<Rightarrow> String_New vm s | Union raw \<Rightarrow> Inl Out_Of_Bounds)
       else Inl Assert_Failed) = Inr (a, vm1)" "kept_from vm {} vm1" "const_ob vm1 a (ty, d, int i)" by blast
  have t: "data_at vm1 t = Some (TupleObject av vs)" using kept_fromD [OF 1(2) assms(2)] by simp
  have a: "data_at vm1 a \<noteq> None" using 1(3) by (auto simp: const_ob_def split: ConstData.splits)
  obtain vm2 where 2: "Tuple_Set vm1 (Some t) (int i) (Some a) = Inr (0, vm2)"
    "data_at vm2 = (data_at vm1)(t \<mapsto> TupleObject av (vs[i := Some a]))" "vm_strs vm2 = vm_strs vm1"
    using Tuple_Set_empty [OF t assms(3,4) a] by blast
  have k: "kept_from vm1 {t} vm2" by (rule kept_from_set [OF _ 2(3,2)]) (use 1(2) t in \<open>simp_all add: kept_from_def no_string_def\<close>)
  have at: "a \<noteq> t" using const_ob_not_tuple [OF 1(3)] t by blast
  show ?thesis
    using 1(1) 2(1,2) kept_from_trans [OF 1(2) k, of "{t}"] const_ob_kept [OF 1(3) k] at
    by (intro exI [of _ vm2] exI [of _ a]) (simp add: getconstfunc_def)
qed

lemma consts_loop:
  assumes "strs_ok vm" "data_at vm t = Some (TupleObject 0 (map Some ds @ replicate (length cs) None))"
    and "\<forall>k < length cs. const_loadable (cs ! k) \<and> snd (snd (cs ! k)) = int (length ds + k)"
  shows "\<exists>vm' obs. run_calls (\<lambda>v c. getconstfunc v t c) vm cs = Inr vm' \<and> kept_from vm {t} vm' \<and>
    data_at vm' t = Some (TupleObject 0 (map Some (ds @ obs))) \<and> list_all2 (const_ob vm') obs cs \<and> t \<notin> set obs"
  using assms
proof (induction cs arbitrary: vm ds)
  case (Cons c cs)
  obtain ty d i where c: "c = (ty, d, i)" by (cases c)
  have h: "const_loadable (ty, d, i)" "i = int (length ds)" using Cons.prems(3) c by force+
  let ?vs = "map Some ds @ replicate (length (c # cs)) None"
  obtain vm1 a where 1: "getconstfunc vm t (ty, d, int (length ds)) = Inr vm1" "kept_from vm {t} vm1"
    "data_at vm1 t = Some (TupleObject 0 (?vs[length ds := Some a]))" "const_ob vm1 a (ty, d, int (length ds))" "a \<noteq> t"
    using getconstfunc_ok [OF Cons.prems(1,2), of "length ds" ty d] h by (auto simp: nth_append)
  have vs: "?vs[length ds := Some a] = map Some (ds @ [a]) @ replicate (length cs) None"
    by (simp add: list_update_append)
  have nxt: "\<forall>k < length cs. const_loadable (cs ! k) \<and> snd (snd (cs ! k)) = int (length (ds @ [a]) + k)"
  proof (intro allI impI)
    fix k assume "k < length cs"
    then have "Suc k < length (c # cs)" by simp
    from Cons.prems(3) [rule_format, OF this] show "const_loadable (cs ! k) \<and> snd (snd (cs ! k)) = int (length (ds @ [a]) + k)" by simp
  qed
  have ok: "strs_ok vm1" using 1(2) by (simp add: kept_from_def)
  obtain vm2 obs where 2: "run_calls (\<lambda>v c. getconstfunc v t c) vm1 cs = Inr vm2" "kept_from vm1 {t} vm2"
    "data_at vm2 t = Some (TupleObject 0 (map Some ((ds @ [a]) @ obs)))" "list_all2 (const_ob vm2) obs cs" "t \<notin> set obs"
    using Cons.IH [OF ok 1(3)[unfolded vs] nxt] by blast
  have "const_ob vm2 a (ty, d, i)" using const_ob_kept [OF 1(4) 2(2)] 1(5) h(2) by simp
  then show ?case
    using 1(1,5) 2 c h(2) kept_from_trans [OF 1(2) 2(2), of "{t}"] by (intro exI [of _ vm2] exI [of _ "a # obs"]) simp
qed simp

text \<open>The constants of an image are numbered in order; those of two images with the same pools are the same.\<close>

lemma visit_run_Inr:
  "visit_run f xs tbl = Inr (ys, tbl') \<Longrightarrow> length ys = length xs \<and> (\<forall>k < length xs. \<exists>t t'. f (xs ! k) t = Inr (ys ! k, t'))"
proof (induction xs arbitrary: tbl ys)
  case (Cons x xs)
  then obtain y t1 zs where 1: "f x tbl = Inr (y, t1)" "visit_run f xs t1 = Inr (zs, tbl')" "ys = y # zs" by auto
  from Cons.IH [OF 1(2)] 1(1,3) show ?case by (auto simp: nth_Cons split: nat.split)
qed simp

lemma visit_run_cong: "(\<And>x t. x \<in> set xs \<Longrightarrow> f x t = g x t) \<Longrightarrow> visit_run f xs tbl = visit_run g xs tbl"
  by (induction xs arbitrary: tbl) (simp_all add: bind_run_def split: sum.split)

lemma same_const_value: "(a :: ConstItem)\<lparr>ci_addr := 0\<rparr> = b\<lparr>ci_addr := 0\<rparr> \<Longrightarrow> ci_type a = ci_type b \<and> ci_raw a = ci_raw b"
  by (cases a; cases b) simp

definition const_get :: "Item AtomTable \<Rightarrow> int \<Rightarrow> DescTable \<Rightarrow> ((int \<times> ConstData \<times> int) \<times> DescTable) run" where
  "const_get table i tbl = bind_run (item_get table ITEM_CONST i) (\<lambda>it. case it of
       ConstI item \<Rightarrow>
         if ci_type item = CONST_STRING then
           bind_run (string_get table (ci_index item)) (\<lambda>s. Inr ((ci_type item, Chars s, i), tbl))
         else Inr ((ci_type item, Union (ci_raw item), i), tbl)
     | _ \<Rightarrow> Inl Assert_Failed)"

lemma Get_Consts_eq:
  assumes "base_ok (im_store img)"
  shows "KImage_Count_Consts img = Inr (int (length (its (im_store img) ITEM_CONST)))"
    "KImage_Get_Consts img = bind_run (visit_run (const_get (is_table (im_store img))) [0 .. int (length (its (im_store img) ITEM_CONST)) - 1] Map.empty)
       (\<lambda>(calls, tbl). Inr calls)"
proof -
  have "ITEM_CONST < at_size (is_table (im_store img))" using assms by (simp add: base_ok_def item_types)
  from AtomTable_Size_spec [OF base_ok_inv [OF assms] this]
  have sz: "AtomTable_Size (is_table (im_store img)) ITEM_CONST = Inr (int (length (its (im_store img) ITEM_CONST)))" .
  then show "KImage_Count_Consts img = Inr (int (length (its (im_store img) ITEM_CONST)))" by (simp add: KImage_Count_Consts_def)
  show "KImage_Get_Consts img = bind_run (visit_run (const_get (is_table (im_store img))) [0 .. int (length (its (im_store img) ITEM_CONST)) - 1] Map.empty)
       (\<lambda>(calls, tbl). Inr calls)"
    using sz by (simp add: KImage_Get_Consts_def for_items_def const_get_def [abs_def] Let_def)
qed

lemma Get_Consts_nth:
  assumes "base_ok (im_store img)" "KImage_Get_Consts img = Inr cs"
  shows "length cs = length (its (im_store img) ITEM_CONST)"
    "k < length cs \<Longrightarrow> \<exists>t t'. const_get (is_table (im_store img)) (int k) t = Inr (cs ! k, t')"
proof -
  let ?n = "length (its (im_store img) ITEM_CONST)"
  from assms Get_Consts_eq(2) [OF assms(1)] obtain tbl where
    v: "visit_run (const_get (is_table (im_store img))) [0 .. int ?n - 1] Map.empty = Inr (cs, tbl)" by auto
  have xs: "[0 .. int ?n - 1] = map int [0 ..< ?n]" by (intro nth_equalityI) simp_all
  note r = visit_run_Inr [OF v]
  then show len: "length cs = ?n" by simp
  show "\<exists>t t'. const_get (is_table (im_store img)) (int k) t = Inr (cs ! k, t')" if "k < length cs"
    using r that len by (auto simp: xs)
qed

lemma Get_Consts_numbered:
  assumes "base_ok (im_store img)" "KImage_Get_Consts img = Inr cs"
  shows "KImage_Count_Consts img = Inr (int (length cs))" "\<forall>k < length cs. snd (snd (cs ! k)) = int k"
proof -
  note nth = Get_Consts_nth [OF assms]
  show "KImage_Count_Consts img = Inr (int (length cs))" using Get_Consts_eq(1) [OF assms(1)] nth(1) by simp
  have "snd (snd (fst y)) = i" if "const_get tb i t = Inr y" for tb i t y
  proof -
    from that obtain it where it: "item_get tb ITEM_CONST i = Inr it" by (auto simp: const_get_def)
    with that show ?thesis by (cases it) (auto simp: const_get_def split: if_splits)
  qed
  with nth(2) show "\<forall>k < length cs. snd (snd (cs ! k)) = int k" by (metis fst_conv)
qed

lemma Get_Consts_same:
  assumes "base_ok (im_store img)" "base_ok (im_store img2)" "its (im_store img2) ITEM_STRING = its (im_store img) ITEM_STRING"
    and "map item_value (its (im_store img2) ITEM_CONST) = map item_value (its (im_store img) ITEM_CONST)"
  shows "KImage_Get_Consts img2 = KImage_Get_Consts img"
proof -
  have str: "string_get (is_table (im_store img2)) j = string_get (is_table (im_store img)) j" for j
  proof -
    have "ITEM_STRING < at_size (is_table (im_store i))" if "base_ok (im_store i)" for i :: KImage using that by (simp add: base_ok_def item_types)
    then show ?thesis
      using AtomTable_Get_spec [OF base_ok_inv [OF assms(1)], of ITEM_STRING j] AtomTable_Get_spec [OF base_ok_inv [OF assms(2)], of ITEM_STRING j] assms(1-3)
      by (simp add: string_get_def item_get_def)
  qed
  have len: "length (its (im_store img2) ITEM_CONST) = length (its (im_store img) ITEM_CONST)" using assms(4) by (rule map_eq_imp_length_eq)
  have "const_get (is_table (im_store img2)) i t = const_get (is_table (im_store img)) i t"
    if i: "0 \<le> i" "i < int (length (its (im_store img) ITEM_CONST))" for i t
  proof -
    have C: "ITEM_CONST < ITEM_MAX" by (simp add: item_types)
    have v: "item_value (its (im_store img2) ITEM_CONST ! nat i) = item_value (its (im_store img) ITEM_CONST ! nat i)"
      using assms(4) i len by (metis nat_less_iff nth_map)
    note g = item_get_ok [OF assms(1) C i] item_get_ok [OF assms(2) C i(1), unfolded len, OF i(2)]
    show ?thesis
      unfolding const_get_def g bind_run_simps
      using v by (cases "its (im_store img2) ITEM_CONST ! nat i"; cases "its (im_store img) ITEM_CONST ! nat i")
        (auto simp: str ci_index_def dest: same_const_value)
  qed
  then have "visit_run (const_get (is_table (im_store img2))) [0 .. int (length (its (im_store img) ITEM_CONST)) - 1] Map.empty =
      visit_run (const_get (is_table (im_store img))) [0 .. int (length (its (im_store img) ITEM_CONST)) - 1] Map.empty"
    by (intro visit_run_cong) simp
  then show ?thesis by (simp only: Get_Consts_eq(2) [OF assms(1)] Get_Consts_eq(2) [OF assms(2)] len)
qed

lemma set_pkg_ok:
  assumes "strs_ok vm" "data_at vm pkg = Some (PkgOb p)"
  shows "\<exists>vm'. set_data vm pkg (PkgOb p') = Inr vm' \<and> kept_from vm {pkg} vm' \<and> data_at vm' pkg = Some (PkgOb p')"
proof -
  obtain vm' where 1: "set_data vm pkg (PkgOb p') = Inr vm'" "data_at vm' = (data_at vm)(pkg \<mapsto> PkgOb p')" "vm_strs vm' = vm_strs vm"
    using set_data_ok [of vm pkg] assms(2) by auto
  from kept_from_set [OF assms(1) 1(3,2)] assms(2) have "kept_from vm {pkg} vm'" by (simp add: no_string_def)
  with 1 show ?thesis by simp
qed

lemma load_consts_ok:
  assumes "strs_ok vm" "data_at vm pkg = Some (PkgOb p)" "base_ok (im_store img)" "KImage_Get_Consts img = Inr cs"
    and "\<forall>c \<in> set cs. const_loadable c"
  shows "\<exists>vm' t obs. load_consts vm pkg img = Inr vm' \<and> kept_from vm {pkg} vm' \<and>
    data_at vm' pkg = Some (PkgOb (p\<lparr>pk_consts := Some t\<rparr>)) \<and> data_at vm t = None \<and>
    data_at vm' t = Some (TupleObject 0 (map Some obs)) \<and> list_all2 (const_ob vm') obs cs"
proof -
  note num = Get_Consts_numbered [OF assms(3,4)]
  obtain t vm1 where n: "new_ob vm (TupleObject 0 (replicate (length cs) None)) = (t, vm1)"
    by (cases "new_ob vm (TupleObject 0 (replicate (length cs) None))")
  note new = kept_from_new [OF assms(1) _ n]
  have k1: "kept_from vm {} vm1" "strs_ok vm1" using new(1) by (simp_all add: no_string_def kept_from_def)
  have t: "data_at vm1 t = Some (TupleObject 0 (map Some [] @ replicate (length cs) None))" using new(2) by (simp add: no_string_def)
  have idx: "\<forall>k < length cs. const_loadable (cs ! k) \<and> snd (snd (cs ! k)) = int (length ([] :: nat list) + k)"
    using num(2) assms(5) by simp
  obtain vm2 obs where 2: "run_calls (\<lambda>v c. getconstfunc v t c) vm1 cs = Inr vm2" "kept_from vm1 {t} vm2"
    "data_at vm2 t = Some (TupleObject 0 (map Some obs))" "list_all2 (const_ob vm2) obs cs" "t \<notin> set obs"
    using consts_loop [OF k1(2) t idx] by auto
  have tp: "t \<noteq> pkg" "data_at vm t = None" using new(3) assms(2) by (auto simp: no_string_def)
  have p2: "data_at vm2 pkg = Some (PkgOb p)"
    using kept_fromD [OF 2(2) kept_fromD [OF k1(1) assms(2)]] tp(1) by simp
  have ok2: "strs_ok vm2" using 2(2) by (simp add: kept_from_def)
  obtain vm3 where 3: "set_data vm2 pkg (PkgOb (p\<lparr>pk_consts := Some t\<rparr>)) = Inr vm3" "kept_from vm2 {pkg} vm3"
    "data_at vm3 pkg = Some (PkgOb (p\<lparr>pk_consts := Some t\<rparr>))" using set_pkg_ok [OF ok2 p2] by blast
  have "list_all2 (const_ob vm3) obs cs"
  proof (rule list_all2_mono [OF 2(4)])
    fix a c assume "const_ob vm2 a c"
    moreover from this p2 have "a \<noteq> pkg" by (auto simp: const_ob_def split: prod.splits ConstData.splits)
    ultimately show "const_ob vm3 a c" using const_ob_kept [OF _ 3(2)] by simp
  qed
  moreover have "data_at vm3 t = Some (TupleObject 0 (map Some obs))" using kept_fromD [OF 3(2) 2(3)] tp(1) by simp
  moreover have "kept_from vm {pkg} vm3"
    unfolding kept_from_def
  proof (intro conjI allI impI)
    show "strs_ok vm3" using 3(2) by (simp add: kept_from_def)
    fix b assume b: "b \<notin> {pkg}" "data_at vm b \<noteq> None"
    then have "b \<noteq> t" using tp(2) by auto
    with b k1(1) 2(2) 3(2) show "data_at vm3 b = data_at vm b" by (simp add: kept_from_def)
  qed
  ultimately show ?thesis
    using n num(1) assms(4) 2(1) 3(1,3) p2 tp(2)
    by (intro exI [of _ vm3] exI [of _ t] exI [of _ obs]) (simp add: load_consts_def Tuple_New_def set_consts_def ob_data_at)
qed

subsection \<open>Loading variables\<close>

fun var_members :: "nat \<Rightarrow> (string \<times> TypeDesc \<times> int) list \<Rightarrow> (string \<times> MNode) list" where
  "var_members k [] = []"
| "var_members k ((name, desc, konst) # cs) =
     (name, (MNode_New VAR_KIND name (Some desc))\<lparr>mn_offset := k\<rparr>) # var_members (Suc k) cs"

lemma MNode_New_name [simp]: "mn_name (MNode_New kind name desc) = name" "mn_kind (MNode_New kind name desc) = kind"
  by (simp_all add: MNode_New_def)

lemma insert_m_new:
  assumes "nt_ok t" "nt_get t (mn_name m) = None"
  shows "nt_ok (insert_m t m)" "nt_members (insert_m t m) = nt_members t @ [(mn_name m, m)]"
proof -
  obtain t' where "nt_add t (mn_name m) m = Some t'" "nt_ok t'" "nt_members t' = nt_members t @ [(mn_name m, m)]"
    using nt.add_new [OF assms] by blast
  then show "nt_ok (insert_m t m)" "nt_members (insert_m t m) = nt_members t @ [(mn_name m, m)]" by (simp_all add: insert_m_def)
qed

text \<open>None of the names is taken.\<close>

definition names_free :: "MNode NameTable \<Rightarrow> string list \<Rightarrow> bool" where
  "names_free t ss \<longleftrightarrow> distinct (map cstr ss) \<and> cstr ` set ss \<inter> (cstr \<circ> fst) ` set (nt_members t) = {}"

lemma names_free_step:
  assumes "nt_ok t" "names_free t (s # ss)" "mn_name m = s"
  shows "nt_ok (insert_m t m)" "nt_members (insert_m t m) = nt_members t @ [(s, m)]" "names_free (insert_m t m) ss"
proof -
  have "cstr s \<noteq> cstr (fst q)" if "q \<in> set (nt_members t)" for q using that assms(2) by (auto simp: names_free_def)
  then have "nt_get t (mn_name m) = None" using assms(3) nt.get_None [OF assms(1), of s] by (fastforce simp: str_eq_def)
  from insert_m_new [OF assms(1) this] assms(3)
  show m: "nt_ok (insert_m t m)" "nt_members (insert_m t m) = nt_members t @ [(s, m)]" by simp_all
  show "names_free (insert_m t m) ss" using assms(2) by (auto simp: names_free_def m(2))
qed

lemma vars_loop:
  assumes "strs_ok vm" "data_at vm pkg = Some (PkgOb p)" "nt_ok (pk_mtbl p)" "names_free (pk_mtbl p) (map fst cs)"
    and "\<forall>c \<in> set cs. snd (snd c) = 0"
  shows "\<exists>vm' t. run_calls (getvarfunc pkg) vm cs = Inr vm' \<and> kept_from vm {pkg} vm' \<and>
    data_at vm' pkg = Some (PkgOb (p\<lparr>pk_mtbl := t, pk_nrvars := pk_nrvars p + length cs\<rparr>)) \<and> nt_ok t \<and>
    nt_members t = nt_members (pk_mtbl p) @ var_members (pk_nrvars p) cs"
  using assms
proof (induction cs arbitrary: vm p)
  case (Cons c cs)
  obtain name desc konst where c: "c = (name, desc, konst)" by (cases c)
  let ?m = "(MNode_New VAR_KIND name (Some desc))\<lparr>mn_offset := pk_nrvars p\<rparr>"
  let ?p = "p\<lparr>pk_mtbl := insert_m (pk_mtbl p) ?m, pk_nrvars := pk_nrvars p + 1\<rparr>"
  have free: "names_free (pk_mtbl p) (name # map fst cs)" using Cons.prems(4) c by simp
  note step = names_free_step [OF Cons.prems(3) free, of ?m]
  obtain vm1 where 1: "set_data vm pkg (PkgOb ?p) = Inr vm1" "kept_from vm {pkg} vm1" "data_at vm1 pkg = Some (PkgOb ?p)"
    using set_pkg_ok [OF Cons.prems(1,2), of ?p] by blast
  have ok: "strs_ok vm1" using 1(2) by (simp add: kept_from_def)
  have nt: "nt_ok (pk_mtbl ?p)" "names_free (pk_mtbl ?p) (map fst cs)" using step by simp_all
  obtain vm2 t where 2: "run_calls (getvarfunc pkg) vm1 cs = Inr vm2" "kept_from vm1 {pkg} vm2"
    "data_at vm2 pkg = Some (PkgOb (?p\<lparr>pk_mtbl := t, pk_nrvars := pk_nrvars ?p + length cs\<rparr>))" "nt_ok t"
    "nt_members t = nt_members (pk_mtbl ?p) @ var_members (pk_nrvars ?p) cs"
    using Cons.IH [OF ok 1(3) nt] Cons.prems(5) by auto
  have "getvarfunc pkg vm c = Inr vm1"
    using Cons.prems(2,5) c 1(1) by (simp add: getvarfunc_def Pkg_Add_Var_def ob_data_at Let_def)
  with 2 kept_from_trans [OF 1(2) 2(2), of "{pkg}"] step c show ?case
    by (intro exI [of _ vm2] exI [of _ t]) simp
next
  case Nil
  then show ?case by (intro exI [of _ vm] exI [of _ "pk_mtbl p"]) simp
qed

lemma var_members_nth: "k < length cs \<Longrightarrow> var_members n cs ! k =
    (fst (cs ! k), (MNode_New VAR_KIND (fst (cs ! k)) (Some (fst (snd (cs ! k)))))\<lparr>mn_offset := n + k\<rparr>)"
  by (induction n cs arbitrary: k rule: var_members.induct) (auto simp: nth_Cons split: nat.split)

lemma length_var_members [simp]: "length (var_members n cs) = length cs"
  by (induction n cs rule: var_members.induct) auto

lemma map_fst_var_members [simp]: "map fst (var_members n cs) = map fst cs"
  by (induction n cs rule: var_members.induct) auto

subsection \<open>Loading functions\<close>

lemma set_code_ok:
  assumes "strs_ok vm" "data_at vm a = Some (CodeOb co)"
  shows "\<exists>vm'. set_data vm a (CodeOb co') = Inr vm' \<and> kept_from vm {a} vm' \<and> data_at vm' a = Some (CodeOb co')"
proof -
  obtain vm' where 1: "set_data vm a (CodeOb co') = Inr vm'" "data_at vm' = (data_at vm)(a \<mapsto> CodeOb co')" "vm_strs vm' = vm_strs vm"
    using set_data_ok [of vm a] assms(2) by auto
  from kept_from_set [OF assms(1) 1(3,2)] assms(2) have "kept_from vm {a} vm'" by (simp add: no_string_def)
  with 1 show ?thesis by simp
qed

lemma incref_kept:
  assumes "strs_ok vm" "data_at vm a = Some d"
  shows "\<exists>vm'. vm_incref vm (Some a) = Inr vm' \<and> kept_from vm {} vm' \<and> data_at vm' = data_at vm"
proof -
  obtain vm' where 1: "vm_incref vm (Some a) = Inr vm'" "data_at vm' = data_at vm" "vm_strs vm' = vm_strs vm"
    using vm_incref_ok [of vm a] assms(2) by auto
  have "strs_ok vm'" by (rule strs_ok_data [OF assms(1) 1(3)]) (simp add: 1(2))
  with 1 show ?thesis by (simp add: kept_from_def)
qed

lemma Pkg_Add_Func_ok:
  assumes "strs_ok vm" "data_at vm pkg = Some (PkgOb p)" "data_at vm a = Some (CodeOb co)" "vc_kind co = KCODE_KIND ci"
    and "pk_consts p = Some t" "data_at vm t = Some (TupleObject av vs)"
  defines "m \<equiv> (MNode_New FUNC_KIND (vc_name co) (vc_proto co))\<lparr>mn_code := Some a\<rparr>"
  shows "\<exists>vm'. Pkg_Add_Func vm pkg a = Inr vm' \<and> kept_from vm {pkg, a} vm' \<and>
    data_at vm' pkg = Some (PkgOb (p\<lparr>pk_mtbl := insert_m (pk_mtbl p) m\<rparr>)) \<and>
    data_at vm' a = Some (CodeOb (co\<lparr>vc_kind := KCODE_KIND (ci\<lparr>ci_consts := Some t\<rparr>)\<rparr>))"
proof -
  let ?p = "p\<lparr>pk_mtbl := insert_m (pk_mtbl p) m\<rparr>" and ?co = "co\<lparr>vc_kind := KCODE_KIND (ci\<lparr>ci_consts := Some t\<rparr>)\<rparr>"
  have ne: "pkg \<noteq> a" "pkg \<noteq> t" "a \<noteq> t" using assms(2,3,6) by auto
  obtain vm1 where 1: "set_data vm pkg (PkgOb ?p) = Inr vm1" "kept_from vm {pkg} vm1" "data_at vm1 pkg = Some (PkgOb ?p)"
    using set_pkg_ok [OF assms(1,2)] by blast
  have a1: "data_at vm1 a = Some (CodeOb co)" "data_at vm1 t = Some (TupleObject av vs)" "strs_ok vm1"
    using kept_fromD [OF 1(2) assms(3)] kept_fromD [OF 1(2) assms(6)] 1(2) ne by (simp_all add: kept_from_def)
  obtain vm2 where 2: "vm_incref vm1 (Some a) = Inr vm2" "kept_from vm1 {} vm2" "data_at vm2 = data_at vm1"
    using incref_kept [OF a1(3,1)] by blast
  have s2: "strs_ok vm2" "data_at vm2 t = Some (TupleObject av vs)" using 2 a1 by (simp_all add: kept_from_def)
  obtain vm3 where 3: "vm_incref vm2 (Some t) = Inr vm3" "kept_from vm2 {} vm3" "data_at vm3 = data_at vm2"
    using incref_kept [OF s2] by blast
  have s3: "strs_ok vm3" "data_at vm3 a = Some (CodeOb co)" using 3 2(3) a1 by (simp_all add: kept_from_def)
  obtain vm4 where 4: "set_data vm3 a (CodeOb ?co) = Inr vm4" "kept_from vm3 {a} vm4" "data_at vm4 a = Some (CodeOb ?co)"
    using set_code_ok [OF s3] by blast
  have "kept_from vm {pkg, a} vm4"
    using kept_from_trans [OF 1(2) kept_from_trans [OF 2(2) kept_from_trans [OF 3(2) 4(2), of "{a}"], of "{a}"], of "{pkg, a}"] by blast
  moreover have "data_at vm4 pkg = Some (PkgOb ?p)" using kept_fromD [OF 4(2)] 3(3) 2(3) 1(3) ne(1) by simp
  moreover have "Pkg_Add_Func vm pkg a = Inr vm4"
    using assms(2-5) 1(1) 2(1) 3(1) 4(1) by (simp add: Pkg_Add_Func_def ob_data_at m_def)
  ultimately show ?thesis using 4(3) by blast
qed

definition locvar_node :: "string \<times> TypeDesc \<times> int \<times> int \<Rightarrow> MNode" where
  "locvar_node call = (case call of (name, desc, pos, index) \<Rightarrow> (MNode_New VAR_KIND name (Some desc))\<lparr>mn_offset := nat pos\<rparr>)"

lemma locvars_loop:
  assumes "strs_ok vm" "data_at vm a = Some (CodeOb co)" "vc_kind co = KCODE_KIND ci"
  shows "\<exists>vm'. run_calls (getlocvarfunc a i) vm lcs = Inr vm' \<and> kept_from vm {a} vm' \<and>
    data_at vm' a = Some (CodeOb (co\<lparr>vc_kind := KCODE_KIND (ci\<lparr>ci_locvec := ci_locvec ci @
      map locvar_node (filter (\<lambda>c. snd (snd (snd c)) = i) lcs)\<rparr>)\<rparr>))"
  using assms
proof (induction lcs arbitrary: vm co ci)
  case Nil
  then show ?case by (intro exI [of _ vm]) simp
next
  case (Cons c lcs)
  obtain name desc pos index where c: "c = (name, desc, pos, index)" by (cases c)
  show ?case
  proof (cases "index = i")
    case True
    let ?ci = "ci\<lparr>ci_locvec := ci_locvec ci @ [locvar_node c]\<rparr>"
    let ?co = "co\<lparr>vc_kind := KCODE_KIND ?ci\<rparr>"
    obtain vm1 where 1: "set_data vm a (CodeOb ?co) = Inr vm1" "kept_from vm {a} vm1" "data_at vm1 a = Some (CodeOb ?co)"
      using set_code_ok [OF Cons.prems(1,2)] by blast
    have ok: "strs_ok vm1" using 1(2) by (simp add: kept_from_def)
    obtain vm2 where 2: "run_calls (getlocvarfunc a i) vm1 lcs = Inr vm2" "kept_from vm1 {a} vm2"
      "data_at vm2 a = Some (CodeOb (?co\<lparr>vc_kind := KCODE_KIND (?ci\<lparr>ci_locvec := ci_locvec ?ci @
        map locvar_node (filter (\<lambda>c. snd (snd (snd c)) = i) lcs)\<rparr>)\<rparr>))"
      using Cons.IH [OF ok 1(3), of ?ci] by auto
    have "getlocvarfunc a i vm c = Inr vm1"
      using Cons.prems(2,3) 1(1) c True by (simp add: getlocvarfunc_def Code_Add_LocVar_def ob_data_at locvar_node_def)
    with 2 c True kept_from_trans [OF 1(2) 2(2), of "{a}"] show ?thesis by (intro exI [of _ vm2]) simp
  next
    case False
    with Cons.IH [OF Cons.prems] c show ?thesis by (simp add: getlocvarfunc_def)
  qed
qed

text \<open>The local variables that the declarations give to the function number \<open>i\<close>.\<close>

definition locals_of :: "Decl list \<Rightarrow> int \<Rightarrow> Decl list" where
  "locals_of ds i = filter (\<lambda>d. case d of DLocVar name desc pos index \<Rightarrow> index = i | _ \<Rightarrow> False) ds"

definition local_matches :: "MNode \<Rightarrow> Decl \<Rightarrow> bool" where
  "local_matches m d \<longleftrightarrow> (case d of DLocVar name desc pos index \<Rightarrow> str_eq (mn_name m) name \<and> mn_offset m = nat pos | _ \<Rightarrow> False)"

lemma locals_match:
  assumes "calls_match locvar_call lcs (of_type ITEM_LOCVAR ds)"
  shows "list_all2 local_matches (map locvar_node (filter (\<lambda>c. snd (snd (snd c)) = i) lcs)) (locals_of ds i)"
proof -
  have same: "locvar_call k c d = locvar_call 0 c d" for k c d by (cases d; cases c) simp_all
  have all: "list_all2 (locvar_call 0) lcs (of_type ITEM_LOCVAR ds)"
    using assms same unfolding calls_match_def list_all2_conv_all_nth by metis
  have sub: "locals_of ds i = locals_of (of_type ITEM_LOCVAR ds) i"
  proof -
    have "(case d of DLocVar name desc pos index \<Rightarrow> index = i | _ \<Rightarrow> False) =
        (decl_type d = ITEM_LOCVAR \<and> (case d of DLocVar name desc pos index \<Rightarrow> index = i | _ \<Rightarrow> False))" for d
      by (cases d) simp_all
    then show ?thesis unfolding locals_of_def filter_filter by (intro filter_cong) simp_all
  qed
  from all show ?thesis
    unfolding sub
  proof (induction rule: list_all2_induct)
    case (Cons c lcs d ds)
    obtain name desc pos index where c: "c = (name, desc, pos, index)" by (cases c)
    with Cons show ?case by (cases d) (auto simp: locals_of_def local_matches_def locvar_node_def)
  qed (simp add: locals_of_def)
qed

definition func_loaded :: "Vm \<Rightarrow> nat \<Rightarrow> Decl list \<Rightarrow> string \<times> TypeDesc \<times> int \<times> nat \<times> uint8 list option \<times> int \<Rightarrow> nat \<Rightarrow> bool" where
  "func_loaded vm t ds call a \<longleftrightarrow> (case call of (name, desc, index, type, codes, sz) \<Rightarrow>
     \<exists>locs. data_at vm a = Some (CodeOb \<lparr>vc_name = name, vc_proto = Some desc,
         vc_kind = KCODE_KIND \<lparr>ci_consts = Some t, ci_locvec = locs, ci_size = sz, ci_codes = codes\<rparr>\<rparr>) \<and>
       list_all2 local_matches locs (locals_of ds index))"

definition func_member :: "string \<times> TypeDesc \<times> int \<times> nat \<times> uint8 list option \<times> int \<Rightarrow> nat \<Rightarrow> string \<times> MNode" where
  "func_member call a = (case call of (name, desc, rest) \<Rightarrow> (name, (MNode_New FUNC_KIND name (Some desc))\<lparr>mn_code := Some a\<rparr>))"

lemma func_loaded_kept:
  assumes "func_loaded vm t ds c a" "kept_from vm A vm'" "a \<notin> A"
  shows "func_loaded vm' t ds c a"
  using assms kept_fromD [OF assms(2) _ assms(3)] by (auto simp: func_loaded_def)

lemma kept_from_fresh: "kept_from vm {} vm1 \<Longrightarrow> data_at vm a = None \<Longrightarrow> kept_from vm1 {pkg, a} vm2 \<Longrightarrow> kept_from vm {pkg} vm2"
  by (fastforce simp: kept_from_def)

lemma funcs_loop:
  assumes "\<And>tbl. desc_ok tbl \<Longrightarrow> \<exists>lcs tbl'. KImage_Get_LocVars n img tbl = Inr (lcs, tbl') \<and>
      calls_match locvar_call lcs (of_type ITEM_LOCVAR ds) \<and> desc_ok tbl'"
    and "strs_ok vm" "desc_ok tbl" "data_at vm pkg = Some (PkgOb p)" "pk_consts p = Some t" "data_at vm t = Some (TupleObject av vs)"
    and "nt_ok (pk_mtbl p)" "names_free (pk_mtbl p) (map fst cs)"
  shows "\<exists>tbl' vm' m obs. load_funcs_loop n img pkg vm tbl cs = Inr (tbl', vm') \<and> desc_ok tbl' \<and> kept_from vm {pkg} vm' \<and>
    data_at vm' pkg = Some (PkgOb (p\<lparr>pk_mtbl := m\<rparr>)) \<and> nt_ok m \<and>
    nt_members m = nt_members (pk_mtbl p) @ map2 func_member cs obs \<and> list_all2 (func_loaded vm' t ds) cs obs"
  using assms(2-)
proof (induction cs arbitrary: vm tbl p)
  case Nil
  then show ?case by (intro exI [of _ tbl] exI [of _ vm] exI [of _ "pk_mtbl p"]) simp
next
  case (Cons c cs)
  obtain name desc index type codes sz where c: "c = (name, desc, index, type, codes, sz)" by (cases c) auto
  let ?ci = "\<lparr>ci_consts = None, ci_locvec = [], ci_size = sz, ci_codes = codes\<rparr>"
  let ?co = "\<lparr>vc_name = name, vc_proto = Some desc, vc_kind = KCODE_KIND ?ci\<rparr>"
  obtain a vm1 where n: "new_ob vm (CodeOb ?co) = (a, vm1)" by (cases "new_ob vm (CodeOb ?co)")
  have "no_string (Some (CodeOb ?co))" by (simp add: no_string_def)
  note new = kept_from_new [OF Cons.prems(1) this n]
  have ok1: "strs_ok vm1" using new(1) by (simp add: kept_from_def)
  have p1: "data_at vm1 pkg = Some (PkgOb p)" "data_at vm1 a = Some (CodeOb ?co)" "data_at vm1 t = Some (TupleObject av vs)"
    using kept_fromD [OF new(1) Cons.prems(3)] kept_fromD [OF new(1) Cons.prems(5)] new(2) by auto
  have ne: "a \<noteq> pkg" "a \<noteq> t" "pkg \<noteq> t" using p1 by auto
  let ?m = "(MNode_New FUNC_KIND name (Some desc))\<lparr>mn_code := Some a\<rparr>"
  let ?p = "p\<lparr>pk_mtbl := insert_m (pk_mtbl p) ?m\<rparr>"
  obtain vm2 where 2: "Pkg_Add_Func vm1 pkg a = Inr vm2" "kept_from vm1 {pkg, a} vm2" "data_at vm2 pkg = Some (PkgOb ?p)"
    "data_at vm2 a = Some (CodeOb (?co\<lparr>vc_kind := KCODE_KIND (?ci\<lparr>ci_consts := Some t\<rparr>)\<rparr>))"
    using Pkg_Add_Func_ok [OF ok1 p1(1,2) _ Cons.prems(4) p1(3), of ?ci] by auto
  obtain lcs tbl1 where l: "KImage_Get_LocVars n img tbl = Inr (lcs, tbl1)" "calls_match locvar_call lcs (of_type ITEM_LOCVAR ds)" "desc_ok tbl1"
    using assms(1) [OF Cons.prems(2)] by blast
  let ?locs = "map locvar_node (filter (\<lambda>c. snd (snd (snd c)) = index) lcs)"
  have ok2: "strs_ok vm2" using 2(2) by (simp add: kept_from_def)
  obtain vm3 where 3: "run_calls (getlocvarfunc a index) vm2 lcs = Inr vm3" "kept_from vm2 {a} vm3"
    "data_at vm3 a = Some (CodeOb \<lparr>vc_name = name, vc_proto = Some desc,
         vc_kind = KCODE_KIND \<lparr>ci_consts = Some t, ci_locvec = ?locs, ci_size = sz, ci_codes = codes\<rparr>\<rparr>)"
    using locvars_loop [OF ok2 2(4), of "?ci\<lparr>ci_consts := Some t\<rparr>" index lcs] by auto
  have k3: "kept_from vm {pkg} vm3" by (rule kept_from_fresh [OF new(1,3) kept_from_trans [OF 2(2) 3(2)]]) auto
  have ok3: "strs_ok vm3" using 3(2) by (simp add: kept_from_def)
  have p3: "data_at vm3 pkg = Some (PkgOb ?p)" "data_at vm3 t = Some (TupleObject av vs)"
    using kept_fromD [OF 3(2) 2(3)] kept_fromD [OF k3 Cons.prems(5)] ne by simp_all
  have free: "names_free (pk_mtbl p) (name # map fst cs)" using Cons.prems(7) c by simp
  note step = names_free_step [OF Cons.prems(6) free, of ?m]
  have rest: "pk_consts ?p = Some t" "nt_ok (pk_mtbl ?p)" "names_free (pk_mtbl ?p) (map fst cs)" using step Cons.prems(4) by simp_all
  obtain tbl' vm' m obs where 4: "load_funcs_loop n img pkg vm3 tbl1 cs = Inr (tbl', vm')" "desc_ok tbl'" "kept_from vm3 {pkg} vm'"
    "data_at vm' pkg = Some (PkgOb (?p\<lparr>pk_mtbl := m\<rparr>))" "nt_ok m"
    "nt_members m = nt_members (pk_mtbl ?p) @ map2 func_member cs obs" "list_all2 (func_loaded vm' t ds) cs obs"
    using Cons.IH [OF ok3 l(3) p3(1) rest(1) p3(2) rest(2,3)] by blast
  have "func_loaded vm3 t ds c a" using 3(3) locals_match [OF l(2)] c by (simp add: func_loaded_def)
  then have "func_loaded vm' t ds c a" using func_loaded_kept [OF _ 4(3)] ne(1) by simp
  moreover have "load_funcs_loop n img pkg vm tbl (c # cs) = Inr (tbl', vm')"
    using c n 2(1) l(1) 3(1) 4(1) by (simp add: Code_New_def)
  moreover have "nt_members m = nt_members (pk_mtbl p) @ map2 func_member (c # cs) (a # obs)"
    using 4(6) step c by (simp add: func_member_def)
  ultimately show ?case
    using 4 kept_from_trans [OF k3 4(3), of "{pkg}"]
    by (intro exI [of _ tbl'] exI [of _ vm'] exI [of _ m] exI [of _ "a # obs"]) simp
qed

subsection \<open>A package holds the declarations of an image\<close>

fun decl_name :: "Decl \<Rightarrow> string" where
  "decl_name (DVar name desc konst) = name"
| "decl_name (DFunc name arg ret codes) = name"
| "decl_name d = []"

text \<open>
  The constants are in the tuple of the package, the variables are numbered in the order of their
  declarations, and every function has its code, its local variables and the constants of the package.
\<close>

definition package_holds :: "Vm \<Rightarrow> PkgObject \<Rightarrow> (int \<times> ConstData \<times> int) list \<Rightarrow> Decl list \<Rightarrow> bool" where
  "package_holds vm p cs ds \<longleftrightarrow> (\<exists>t obs.
     pk_consts p = Some t \<and> data_at vm t = Some (TupleObject 0 (map Some obs)) \<and> list_all2 (const_ob vm) obs cs \<and>
     pk_nrvars p = length (of_type ITEM_VAR ds) \<and>
     (\<forall>k < length (of_type ITEM_VAR ds). \<exists>m. Find_MNode (pk_mtbl p) (decl_name (of_type ITEM_VAR ds ! k)) = Some m \<and>
        mn_kind m = VAR_KIND \<and> mn_offset m = k) \<and>
     (\<forall>k < length (of_type ITEM_FUNC ds). \<exists>name arg ret codes m a proto locs.
        of_type ITEM_FUNC ds ! k = DFunc name arg ret codes \<and> Find_MNode (pk_mtbl p) name = Some m \<and>
        mn_kind m = FUNC_KIND \<and> mn_code m = Some a \<and> same_desc proto (TD_Proto arg ret) \<and>
        list_all2 local_matches locs (locals_of ds (int k)) \<and>
        (\<exists>s. str_eq s name \<and> data_at vm a = Some (CodeOb \<lparr>vc_name = s, vc_proto = Some proto,
          vc_kind = KCODE_KIND \<lparr>ci_consts = Some t, ci_locvec = locs, ci_size = int (length codes), ci_codes = Some codes\<rparr>\<rparr>))))"

text \<open>What is required: integer and string constants, no constants among the variables, different names.\<close>

definition package_loadable :: "(int \<times> ConstData \<times> int) list \<Rightarrow> Decl list \<Rightarrow> bool" where
  "package_loadable cs ds \<longleftrightarrow> (\<forall>c \<in> set cs. const_loadable c) \<and>
     (\<forall>d \<in> set ds. case d of DVar name desc konst \<Rightarrow> konst = 0 | _ \<Rightarrow> True) \<and>
     distinct (map (cstr \<circ> decl_name) (of_type ITEM_VAR ds @ of_type ITEM_FUNC ds))"

lemma var_calls:
  assumes "calls_match var_call vs (of_type ITEM_VAR ds)"
  shows "map (cstr \<circ> fst) vs = map (cstr \<circ> decl_name) (of_type ITEM_VAR ds)"
    "\<forall>d \<in> set ds. case d of DVar name desc konst \<Rightarrow> konst = 0 | _ \<Rightarrow> True \<Longrightarrow> \<forall>c \<in> set vs. snd (snd c) = 0"
proof -
  have len: "length vs = length (of_type ITEM_VAR ds)" using assms by (simp add: calls_match_def)
  have nth: "cstr (fst (vs ! k)) = cstr (decl_name (of_type ITEM_VAR ds ! k)) \<and>
      (\<exists>name desc. of_type ITEM_VAR ds ! k = DVar name desc (snd (snd (vs ! k))))" if "k < length vs" for k
  proof -
    have "var_call k (vs ! k) (of_type ITEM_VAR ds ! k)" using assms that len by (simp add: calls_match_def)
    then show ?thesis by (cases "vs ! k"; cases "of_type ITEM_VAR ds ! k") (auto simp: str_eq_def)
  qed
  then show "map (cstr \<circ> fst) vs = map (cstr \<circ> decl_name) (of_type ITEM_VAR ds)" using len by (intro nth_equalityI) simp_all
  assume zero: "\<forall>d \<in> set ds. case d of DVar name desc konst \<Rightarrow> konst = 0 | _ \<Rightarrow> True"
  show "\<forall>c \<in> set vs. snd (snd c) = 0"
  proof
    fix c assume "c \<in> set vs"
    then obtain k where k: "k < length vs" "c = vs ! k" by (metis in_set_conv_nth)
    with nth obtain name desc where d: "of_type ITEM_VAR ds ! k = DVar name desc (snd (snd c))" by blast
    have "of_type ITEM_VAR ds ! k \<in> set ds" using of_type_nth k(1) len by simp
    with zero d show "snd (snd c) = 0" by force
  qed
qed

lemma func_calls:
  assumes "calls_match func_call fs (of_type ITEM_FUNC ds)" "k < length fs"
  obtains s name arg ret codes proto where "of_type ITEM_FUNC ds ! k = DFunc name arg ret codes" "str_eq s name"
    "same_desc proto (TD_Proto arg ret)" "fs ! k = (s, proto, int k, ITEM_FUNC, Some codes, int (length codes))"
proof -
  have "length fs = length (of_type ITEM_FUNC ds)" using assms(1) by (simp add: calls_match_def)
  then have "func_call k (fs ! k) (of_type ITEM_FUNC ds ! k)" "decl_type (of_type ITEM_FUNC ds ! k) = ITEM_FUNC"
    using assms of_type_nth by (auto simp: calls_match_def)
  then show ?thesis using that by (cases "fs ! k"; cases "of_type ITEM_FUNC ds ! k") (auto simp: item_types)
qed

lemma func_calls_names:
  assumes "calls_match func_call fs (of_type ITEM_FUNC ds)"
  shows "map (cstr \<circ> fst) fs = map (cstr \<circ> decl_name) (of_type ITEM_FUNC ds)"
proof (rule nth_equalityI)
  show "length (map (cstr \<circ> fst) fs) = length (map (cstr \<circ> decl_name) (of_type ITEM_FUNC ds))"
    using assms by (simp add: calls_match_def)
  fix k assume "k < length (map (cstr \<circ> fst) fs)"
  then have k: "k < length fs" by simp
  obtain s name arg ret codes proto where "of_type ITEM_FUNC ds ! k = DFunc name arg ret codes" "str_eq s name"
    "fs ! k = (s, proto, int k, ITEM_FUNC, Some codes, int (length codes))" using func_calls [OF assms k] by metis
  then show "map (cstr \<circ> fst) fs ! k = map (cstr \<circ> decl_name) (of_type ITEM_FUNC ds) ! k"
    using k assms by (simp add: calls_match_def str_eq_def)
qed

lemma From_Image_holds:
  assumes "strs_ok vm" "desc_ok tbl" "image_rel img ds" "list_all decl_known ds" "length (its (im_store img) ITEM_TYPE) \<le> n"
    and "KImage_Get_Consts img = Inr cs" "package_loadable cs ds"
  shows "\<exists>pkg tbl' vm' p. Pkg_From_Image n vm tbl img = Inr (pkg, tbl', vm') \<and> desc_ok tbl' \<and> kept_from vm {} vm' \<and>
    data_at vm pkg = None \<and> data_at vm' pkg = Some (PkgOb p) \<and> package_holds vm' p cs ds"
proof -
  have known: "\<forall>d \<in> set ds. decl_known d" using assms(4) by (simp add: list_all_iff)
  have kind: "kind_rel decl_at ITEM_VAR img ds" "kind_rel decl_at ITEM_LOCVAR img ds" "kind_rel decl_at ITEM_FUNC img ds"
    using image_rel_kind [OF assms(3)] by (simp_all add: decl_types_def)
  have base: "base_ok (im_store img)" using assms(3) store_ok_base by (simp add: image_rel_def)
  let ?vs = "of_type ITEM_VAR ds" and ?fs = "of_type ITEM_FUNC ds"
  let ?p0 = "\<lparr>pk_name = cstr (ih_pkgname (im_header img)), pk_mtbl = NameTable_Init, pk_consts = None, pk_index = 0, pk_nrvars = 0\<rparr> :: PkgObject"
  obtain pkg vm1 where n: "new_ob vm (PkgOb ?p0) = (pkg, vm1)" by (cases "new_ob vm (PkgOb ?p0)")
  have "no_string (Some (PkgOb ?p0))" by (simp add: no_string_def)
  note new = kept_from_new [OF assms(1) this n]
  have s1: "strs_ok vm1" "data_at vm1 pkg = Some (PkgOb ?p0)" using new by (simp_all add: kept_from_def)
  have load: "\<forall>c \<in> set cs. const_loadable c" using assms(7) by (simp add: package_loadable_def)
  obtain vm2 t obs where 2: "load_consts vm1 pkg img = Inr vm2" "kept_from vm1 {pkg} vm2"
    "data_at vm2 pkg = Some (PkgOb (?p0\<lparr>pk_consts := Some t\<rparr>))" "data_at vm2 t = Some (TupleObject 0 (map Some obs))"
    "list_all2 (const_ob vm2) obs cs"
    using load_consts_ok [OF s1 base assms(6) load] by blast
  let ?p2 = "?p0\<lparr>pk_consts := Some t\<rparr>"
  have s2: "strs_ok vm2" using 2(2) by (simp add: kept_from_def)
  obtain vcs tbl1 where v: "KImage_Get_Vars n img tbl = Inr (vcs, tbl1)" "calls_match var_call vcs ?vs" "desc_ok tbl1"
    using Get_Vars_reads [OF kind(1) known assms(2,5)] by blast
  have names: "distinct (map (cstr \<circ> fst) vcs @ map (cstr \<circ> decl_name) ?fs)"
    using assms(7) var_calls(1) [OF v(2)] by (simp add: package_loadable_def)
  have free: "names_free (pk_mtbl ?p2) (map fst vcs)" using names by (simp add: names_free_def comp_def)
  have zero: "\<forall>c \<in> set vcs. snd (snd c) = 0" by (rule var_calls(2) [OF v(2)]) (use assms(7) in \<open>simp add: package_loadable_def\<close>)
  have nt2: "nt_ok (pk_mtbl ?p2)" by simp
  obtain vm3 m3 where 3: "run_calls (getvarfunc pkg) vm2 vcs = Inr vm3" "kept_from vm2 {pkg} vm3"
    "data_at vm3 pkg = Some (PkgOb (?p2\<lparr>pk_mtbl := m3, pk_nrvars := pk_nrvars ?p2 + length vcs\<rparr>))" "nt_ok m3"
    "nt_members m3 = nt_members (pk_mtbl ?p2) @ var_members (pk_nrvars ?p2) vcs"
    using vars_loop [OF s2 2(3) nt2 free zero] by blast
  let ?p3 = "?p2\<lparr>pk_mtbl := m3, pk_nrvars := length vcs\<rparr>"
  have p3: "data_at vm3 pkg = Some (PkgOb ?p3)" "nt_members m3 = var_members 0 vcs" using 3(3,5) by simp_all
  have s3: "strs_ok vm3" using 3(2) by (simp add: kept_from_def)
  obtain fcs tbl2 where f: "KImage_Get_Funcs n img tbl1 = Inr (fcs, tbl2)" "calls_match func_call fcs ?fs" "desc_ok tbl2"
    using Get_Funcs_reads [OF kind(3) known v(3) assms(5)] by blast
  have tp: "t \<noteq> pkg" using 2(3,4) by auto
  have t3: "data_at vm3 t = Some (TupleObject 0 (map Some obs))" using kept_fromD [OF 3(2) 2(4)] tp by simp
  have "(cstr \<circ> fst) ` set (var_members 0 vcs) = cstr ` fst ` set (var_members 0 vcs)" by (simp add: image_comp)
  also have "fst ` set (var_members 0 vcs) = fst ` set vcs" using map_fst_var_members [of 0 vcs] by (metis set_map)
  finally have vnames: "(cstr \<circ> fst) ` set (var_members 0 vcs) = (cstr \<circ> fst) ` set vcs" by (simp add: image_comp)
  have "distinct (map (cstr \<circ> fst) vcs @ map (cstr \<circ> fst) fcs)" using names unfolding func_calls_names [OF f(2)] .
  then have free3: "names_free m3 (map fst fcs)"
    unfolding names_free_def p3(2) vnames by (simp add: image_comp Int_commute)
  have lr: "\<exists>lcs tbl'. KImage_Get_LocVars n img tb = Inr (lcs, tbl') \<and> calls_match locvar_call lcs (of_type ITEM_LOCVAR ds) \<and> desc_ok tbl'"
    if "desc_ok tb" for tb using Get_LocVars_reads [OF kind(2) known that assms(5)] by blast
  have p3': "pk_consts ?p3 = Some t" "nt_ok (pk_mtbl ?p3)" "names_free (pk_mtbl ?p3) (map fst fcs)" using 3(4) free3 by simp_all
  obtain tbl3 vm4 m4 fobs where 4: "load_funcs_loop n img pkg vm3 tbl2 fcs = Inr (tbl3, vm4)" "desc_ok tbl3" "kept_from vm3 {pkg} vm4"
    "data_at vm4 pkg = Some (PkgOb (?p3\<lparr>pk_mtbl := m4\<rparr>))" "nt_ok m4"
    "nt_members m4 = nt_members (pk_mtbl ?p3) @ map2 func_member fcs fobs" "list_all2 (func_loaded vm4 t ds) fcs fobs"
    using funcs_loop [OF lr s3 f(3) p3(1) p3'(1) t3 p3'(2,3)] by blast
  let ?p = "?p3\<lparr>pk_mtbl := m4\<rparr>"
  have mem: "nt_members m4 = var_members 0 vcs @ map2 func_member fcs fobs" using 4(6) p3(2) by simp
  have run: "Pkg_From_Image n vm tbl img = Inr (pkg, tbl3, vm4)"
    using n 2(1) v(1) 3(1) f(1) 4(1) by (simp add: Pkg_From_Image_def Pkg_New_def load_variables_def load_functions_def)
  have kept: "kept_from vm {} vm4"
  proof -
    have "kept_from vm1 {pkg} vm4" using kept_from_trans [OF 2(2) kept_from_trans [OF 3(2) 4(3)]] by blast
    then show ?thesis using new(1,3) unfolding kept_from_def by (metis empty_iff singletonD)
  qed
  have get: "Find_MNode m4 s = Some m" if "(k, m) \<in> set (nt_members m4)" "str_eq k s" for k m s
    using that nt.get_Some [OF 4(5), of s m] by (auto simp: Find_MNode_def)
  have holds: "package_holds vm4 ?p cs ds"
    unfolding package_holds_def
  proof (rule exI [of _ t], rule exI [of _ obs], intro conjI allI impI)
    show "data_at vm4 t = Some (TupleObject 0 (map Some obs))" using kept_fromD [OF 4(3) t3] tp by simp
    show "list_all2 (const_ob vm4) obs cs"
    proof (rule list_all2_mono [OF 2(5)])
      fix a c assume a: "const_ob vm2 a c"
      with 2(3) have "a \<noteq> pkg" by (auto simp: const_ob_def split: prod.splits ConstData.splits)
      with const_ob_kept [OF const_ob_kept [OF a 3(2)] 4(3)] show "const_ob vm4 a c" by simp
    qed
    show "pk_nrvars ?p = length ?vs" using v(2) by (simp add: calls_match_def)
  next
    fix k assume k: "k < length ?vs"
    then have kv: "k < length vcs" using v(2) by (simp add: calls_match_def)
    let ?m = "(MNode_New VAR_KIND (fst (vcs ! k)) (Some (fst (snd (vcs ! k)))))\<lparr>mn_offset := 0 + k\<rparr>"
    have "(fst (vcs ! k), ?m) \<in> set (nt_members m4)"
      unfolding mem var_members_nth [OF kv, symmetric] using kv nth_mem [of k "var_members 0 vcs"] by simp
    moreover have "map (cstr \<circ> fst) vcs ! k = map (cstr \<circ> decl_name) ?vs ! k" by (simp only: var_calls(1) [OF v(2)])
    then have "str_eq (fst (vcs ! k)) (decl_name (?vs ! k))" using k kv by (simp add: str_eq_def)
    ultimately have "Find_MNode m4 (decl_name (?vs ! k)) = Some ?m" by (rule get)
    then show "\<exists>m. Find_MNode (pk_mtbl ?p) (decl_name (?vs ! k)) = Some m \<and> mn_kind m = VAR_KIND \<and> mn_offset m = k" by simp
  next
    fix k assume k: "k < length ?fs"
    then have kf: "k < length fcs" using f(2) by (simp add: calls_match_def)
    have lf: "length fobs = length fcs" using 4(7) by (simp add: list_all2_lengthD)
    obtain s name arg ret codes proto where d: "?fs ! k = DFunc name arg ret codes" "str_eq s name"
      "same_desc proto (TD_Proto arg ret)" "fcs ! k = (s, proto, int k, ITEM_FUNC, Some codes, int (length codes))"
      using func_calls [OF f(2) kf] by metis
    let ?m = "(MNode_New FUNC_KIND s (Some proto))\<lparr>mn_code := Some (fobs ! k)\<rparr>"
    have "func_member (fcs ! k) (fobs ! k) \<in> set (map2 func_member fcs fobs)"
      using kf lf by (auto simp: set_zip in_set_conv_nth intro!: exI [of _ k])
    moreover have "func_member (fcs ! k) (fobs ! k) = (s, ?m)" by (simp add: d(4) func_member_def)
    ultimately have "(s, ?m) \<in> set (nt_members m4)" unfolding mem by simp
    then have m: "Find_MNode m4 name = Some ?m" using d(2) by (rule get)
    have "func_loaded vm4 t ds (fcs ! k) (fobs ! k)" using 4(7) kf by (simp add: list_all2_conv_all_nth)
    with m d show "\<exists>name arg ret codes m a proto locs.
        ?fs ! k = DFunc name arg ret codes \<and> Find_MNode (pk_mtbl ?p) name = Some m \<and>
        mn_kind m = FUNC_KIND \<and> mn_code m = Some a \<and> same_desc proto (TD_Proto arg ret) \<and>
        list_all2 local_matches locs (locals_of ds (int k)) \<and>
        (\<exists>s. str_eq s name \<and> data_at vm4 a = Some (CodeOb \<lparr>vc_name = s, vc_proto = Some proto,
          vc_kind = KCODE_KIND \<lparr>ci_consts = Some t, ci_locvec = locs, ci_size = int (length codes), ci_codes = Some codes\<rparr>\<rparr>))"
      by (auto simp: func_loaded_def)
  qed simp
  show ?thesis using run 4(2,4) kept new(3) holds by blast
qed

text \<open>A variable that is a constant has no value to give, but a reference to it is taken.\<close>

lemma constant_variable_fails:
  assumes "data_at vm pkg = Some (PkgOb p)" "konst \<noteq> 0"
  shows "getvarfunc pkg vm (name, desc, konst) = Inl Null_Deref"
proof -
  have "pkg_ob vm (Some pkg) = Inr (pkg, p)" using assms(1) by (simp add: ob_data_at)
  with assms(2) show ?thesis by (simp add: getvarfunc_def Pkg_Add_Const_def vm_incref_def ob_deref_def Let_def)
qed

end
