(* ===== verification/VmState.thy ===== *)
theory VmState
  imports VmPackage PkgTree Properties
begin

text \<open>
  The global state of the virtual machine (\<^verbatim>\<open>src/state.c\<close>): packages are put into the tree of packages,
  found there or loaded from a file, and their variables, constants and functions are looked up by name.
\<close>

subsection \<open>The state\<close>

text \<open>The pool of the variables of all packages is a vector of tuples.\<close>

record Koala =
  ko_vm :: Vm
  ko_types :: DescTable
  ko_props :: Properties
  ko_tree :: "nat PkgState"
  ko_vars :: "nat list"

definition KOALA_PATH :: string where
  "KOALA_PATH = ''koala.path''"

definition set_pk_index :: "Vm \<Rightarrow> nat \<Rightarrow> int \<Rightarrow> Vm run" where
  "set_pk_index vm pkg index = bind_run (pkg_ob vm (Some pkg)) (\<lambda>(_, p). set_data vm pkg (PkgOb (p\<lparr>pk_index := index\<rparr>)))"

definition Koala_Add_Package :: "Koala \<Rightarrow> string \<Rightarrow> nat \<Rightarrow> (int \<times> Koala) run" where
  "Koala_Add_Package ko path pkg = bind_run (Add_PkgNode (ko_tree ko) path pkg) (\<lambda>(node, tree).
     let ko1 = ko\<lparr>ko_tree := tree\<rparr> in
     bind_run (pkg_ob (ko_vm ko) (Some pkg)) (\<lambda>(_, p).
     if node = None then Inr (-1, ko1)
     else if pk_nrvars p = 0 then
       bind_run (set_pk_index (ko_vm ko) pkg (-1)) (\<lambda>vm1. Inr (0, ko1\<lparr>ko_vm := vm1\<rparr>))
     else
       bind_run (set_pk_index (ko_vm ko) pkg (int (length (ko_vars ko)))) (\<lambda>vm1.
         case Tuple_New vm1 (pk_nrvars p) of (tuple, vm2) \<Rightarrow>
           Inr (0, ko1\<lparr>ko_vm := vm2, ko_vars := ko_vars ko @ [tuple]\<rparr>))))"

text \<open>The name of the file of a package in a directory; the buffer is empty at the start of each round.\<close>

definition klc_name :: "string \<Rightarrow> string \<Rightarrow> string option" where
  "klc_name pre path = (case StringBuf_Format (\<lambda>_. True) DeclareStringBuf ''#/#.klc'' [Some pre, Some path] of
     None \<Rightarrow> None | Some buf \<Rightarrow> sb_data buf)"

text \<open>\<open>fs\<close> is the file system: the bytes of the file of a name.\<close>

fun search_image :: "(string \<Rightarrow> uint8 list option) \<Rightarrow> string \<Rightarrow> string list \<Rightarrow> KImage option run" where
  "search_image fs path [] = Inr None"
| "search_image fs path (pre # pres) = (case klc_name pre path of
     None \<Rightarrow> Inl Null_Deref
   | Some name \<Rightarrow> bind_run (KImage_Read_File (fs (cstr name)) 0) (\<lambda>r. case r of
       Some img \<Rightarrow> Inr (Some img)
     | None \<Rightarrow> search_image fs path pres))"

definition koala_pathes :: "Properties \<Rightarrow> string list" where
  "koala_pathes prop = (case Properties_Get prop KOALA_PATH of None \<Rightarrow> [] | Some vec \<Rightarrow> map the (vec_list vec))"

definition Koala_Get_Package :: "nat \<Rightarrow> (string \<Rightarrow> uint8 list option) \<Rightarrow> Koala \<Rightarrow> string \<Rightarrow> (nat option \<times> Koala) run" where
  "Koala_Get_Package n fs ko path = bind_run (Find_PkgNode (ko_tree ko) path) (\<lambda>node. case node of
     Some a \<Rightarrow>
       if \<not> pn_leaf (ps_nodes (ko_tree ko) a) then Inl Assert_Failed
       else (case pn_data (ps_nodes (ko_tree ko) a) of Payload pkg \<Rightarrow> Inr (Some pkg, ko) | _ \<Rightarrow> Inl Null_Deref)
   | None \<Rightarrow> bind_run (search_image fs path (koala_pathes (ko_props ko))) (\<lambda>r. case r of
       None \<Rightarrow> Inr (None, ko)
     | Some img \<Rightarrow>
         bind_run (Pkg_From_Image n (ko_vm ko) (ko_types ko) img) (\<lambda>(pkg, tbl, vm1).
         bind_run (Koala_Add_Package (ko\<lparr>ko_vm := vm1, ko_types := tbl\<rparr>) path pkg) (\<lambda>(_, ko1). Inr (Some pkg, ko1)))))"

text \<open>\<open>Vector_Get\<close> gives null for an index out of range.\<close>

definition var_tuple :: "Koala \<Rightarrow> int \<Rightarrow> nat option" where
  "var_tuple ko index = (if index < 0 \<or> int (length (ko_vars ko)) \<le> index then None else Some (ko_vars ko ! nat index))"

definition pkg_member :: "Vm \<Rightarrow> nat option \<Rightarrow> string \<Rightarrow> (int \<times> MNode) run" where
  "pkg_member vm pkg name = bind_run (pkg_ob vm pkg) (\<lambda>(_, p). case Find_MNode (pk_mtbl p) name of
     None \<Rightarrow> Inl Assert_Failed | Some m \<Rightarrow> Inr (pk_index p, m))"

definition Koala_Set_Value :: "Koala \<Rightarrow> nat option \<Rightarrow> string \<Rightarrow> nat option \<Rightarrow> (int \<times> Koala) run" where
  "Koala_Set_Value ko pkg name val = bind_run (pkg_member (ko_vm ko) pkg name) (\<lambda>(index, m).
     if mn_kind m \<noteq> VAR_KIND then Inl Assert_Failed
     else bind_run (Tuple_Set (ko_vm ko) (var_tuple ko index) (int (mn_offset m)) val) (\<lambda>(res, vm1). Inr (res, ko\<lparr>ko_vm := vm1\<rparr>)))"

definition Koala_Get_Value :: "Koala \<Rightarrow> nat option \<Rightarrow> string \<Rightarrow> nat option run" where
  "Koala_Get_Value ko pkg name = bind_run (pkg_member (ko_vm ko) pkg name) (\<lambda>(index, m).
     if mn_kind m = VAR_KIND then Tuple_Get (ko_vm ko) (var_tuple ko index) (int (mn_offset m))
     else if mn_kind m \<noteq> CONST_KIND then Inl Assert_Failed
     else Inr (mn_code m))"

definition Koala_Get_Function :: "Koala \<Rightarrow> nat option \<Rightarrow> string \<Rightarrow> nat option run" where
  "Koala_Get_Function ko pkg name = bind_run (pkg_member (ko_vm ko) pkg name) (\<lambda>(index, m).
     if mn_kind m \<noteq> FUNC_KIND then Inl Assert_Failed else Inr (mn_code m))"

text \<open>The entry is made by the first path; \<open>a\<close> is its address.\<close>

definition koala_set_pathes :: "addr \<Rightarrow> Properties \<Rightarrow> string list \<Rightarrow> Properties" where
  "koala_set_pathes a prop pathes =
     foldl (\<lambda>p path. Properties_Put a p KOALA_PATH path) (Properties_Put a prop KOALA_PATH ''.'') pathes"

subsection \<open>Variables hold what is stored\<close>

text \<open>The place of a variable: the tuple of its package and the index in it.\<close>

definition var_slot :: "Koala \<Rightarrow> nat option \<Rightarrow> string \<Rightarrow> (nat \<times> nat) option" where
  "var_slot ko pkg name = (case pkg_member (ko_vm ko) pkg name of
     Inl e \<Rightarrow> None
   | Inr (index, m) \<Rightarrow> if mn_kind m = VAR_KIND then map_option (\<lambda>t. (t, mn_offset m)) (var_tuple ko index) else None)"

lemma var_slot_values:
  assumes "var_slot ko pkg name = Some (t, k)"
  shows "Koala_Get_Value ko pkg name = Tuple_Get (ko_vm ko) (Some t) (int k)"
    "Koala_Set_Value ko pkg name val = bind_run (Tuple_Set (ko_vm ko) (Some t) (int k) val) (\<lambda>(res, vm1). Inr (res, ko\<lparr>ko_vm := vm1\<rparr>))"
  using assms by (auto simp: var_slot_def Koala_Get_Value_def Koala_Set_Value_def split: sum.splits prod.splits if_splits)

lemma Tuple_Get_data:
  "data_at vm t = Some (TupleObject av vs) \<Longrightarrow> Tuple_Get vm (Some t) (int k) = Inr (if k < length vs then vs ! k else None)"
proof -
  assume "data_at vm t = Some (TupleObject av vs)"
  then have "tuple_ob vm (Some t) = Inr (t, av, vs)" by (simp add: ob_data_at)
  then show ?thesis by (simp add: Tuple_Get_def)
qed

lemma refcnt_put: "a < length (vm_objs vm) \<Longrightarrow> refcnt_of (put_ob vm a (Some x)) b = (if b = a then vo_refcnt x else refcnt_of vm b)"
  by (simp add: refcnt_of_def vm_at_put)

text \<open>Dropping a reference to an object that has others frees nothing.\<close>

lemma decref_held:
  assumes "case w of None \<Rightarrow> True | Some a \<Rightarrow> 1 < refcnt_of vm a"
  shows "\<exists>vm'. vm_decref vm w = Inr vm' \<and> data_at vm' = data_at vm \<and>
    (\<forall>b. refcnt_of vm' b = (if w = Some b then refcnt_of vm b - 1 else refcnt_of vm b))"
proof (cases w)
  case None
  then show ?thesis by (simp add: vm_decref_def vm_work_step_def)
next
  case (Some a)
  with assms obtain x where x: "vm_at vm a = Some x" "1 < vo_refcnt x" by (auto simp: refcnt_of_def split: option.splits)
  note len = vm_at_length [OF x(1)]
  let ?vm = "put_ob vm a (Some (x\<lparr>vo_refcnt := vo_refcnt x - 1\<rparr>))"
  have "data_at ?vm = data_at vm" using x len by (auto simp: data_at_def vm_at_put fun_eq_iff)
  moreover have "refcnt_of ?vm b = (if b = a then refcnt_of vm b - 1 else refcnt_of vm b)" for b
    using len x(1) by (simp add: refcnt_put) (simp add: refcnt_of_def)
  ultimately show ?thesis using Some x by (auto simp: vm_decref_def vm_work_step_def ob_deref_def)
qed

lemma incref_counts:
  assumes "data_at vm a \<noteq> None"
  shows "\<exists>vm'. vm_incref vm (Some a) = Inr vm' \<and> data_at vm' = data_at vm \<and>
    (\<forall>b. refcnt_of vm' b = (if b = a then refcnt_of vm b + 1 else refcnt_of vm b))"
proof -
  obtain x where x: "vm_at vm a = Some x" using assms by (auto simp: data_at_def)
  note len = vm_at_length [OF x]
  let ?vm = "put_ob vm a (Some (x\<lparr>vo_refcnt := vo_refcnt x + 1\<rparr>))"
  have "data_at ?vm = data_at vm" using x len by (auto simp: data_at_def vm_at_put fun_eq_iff)
  moreover have "refcnt_of ?vm b = (if b = a then refcnt_of vm b + 1 else refcnt_of vm b)" for b
    using len x by (simp add: refcnt_put) (simp add: refcnt_of_def)
  ultimately show ?thesis using x by (simp add: vm_incref_def ob_deref_def)
qed

lemma set_data_counts:
  assumes "data_at vm a \<noteq> None"
  shows "\<exists>vm'. set_data vm a d = Inr vm' \<and> data_at vm' = (data_at vm)(a \<mapsto> d) \<and> (\<forall>b. refcnt_of vm' b = refcnt_of vm b)"
proof -
  obtain x where x: "vm_at vm a = Some x" using assms by (auto simp: data_at_def)
  note len = vm_at_length [OF x]
  let ?vm = "put_ob vm a (Some (x\<lparr>vo_data := d\<rparr>))"
  have "data_at ?vm = (data_at vm)(a \<mapsto> d)" using x len by (auto simp: data_at_def vm_at_put fun_eq_iff)
  moreover have "refcnt_of ?vm b = refcnt_of vm b" for b using len x by (simp add: refcnt_put) (simp add: refcnt_of_def)
  ultimately show ?thesis using x by (simp add: set_data_def ob_deref_def)
qed

lemma pkg_member_same: "data_at vm' = (data_at vm)(t \<mapsto> TupleObject av us) \<Longrightarrow> data_at vm t = Some (TupleObject av vs) \<Longrightarrow>
    pkg_member vm' pkg name = pkg_member vm pkg name"
proof -
  assume d: "data_at vm' = (data_at vm)(t \<mapsto> TupleObject av us)" "data_at vm t = Some (TupleObject av vs)"
  have ob: "pkg_ob v q = (case q of None \<Rightarrow> Inl Null_Deref | Some a \<Rightarrow> (case data_at v a of None \<Rightarrow> Inl Null_Deref
      | Some (PkgOb p) \<Rightarrow> Inr (a, p) | Some _ \<Rightarrow> Inl Assert_Failed))" for v q
    by (cases q; cases "vm_at v (the q)") (simp_all add: pkg_ob_def ob_deref_def data_at_def)
  show "pkg_member vm' pkg name = pkg_member vm pkg name"
    using d by (cases pkg) (simp_all add: pkg_member_def ob)
qed

text \<open>
  C23: a variable holds what is stored in it. When the package has the variable, in an existing place of
  its tuple, and its value is null or has another reference, \<open>Koala_Set_Value\<close> succeeds for every object;
  \<open>Koala_Get_Value\<close> then gives that object, which has one more reference unless it was the value before,
  and every other variable of every package has the value it had.
\<close>

theorem variable_holds_value:
  assumes "var_slot ko pkg name = Some (t, k)" "data_at (ko_vm ko) t = Some (TupleObject av vs)" "k < length vs"
    and "case vs ! k of None \<Rightarrow> True | Some w \<Rightarrow> 1 < refcnt_of (ko_vm ko) w" "data_at (ko_vm ko) v \<noteq> None"
  shows "\<exists>ko'. Koala_Set_Value ko pkg name (Some v) = Inr (0, ko') \<and> Koala_Get_Value ko' pkg name = Inr (Some v) \<and>
    (vs ! k \<noteq> Some v \<longrightarrow> refcnt_of (ko_vm ko') v = refcnt_of (ko_vm ko) v + 1) \<and>
    (\<forall>pkg' name' s. var_slot ko pkg' name' = Some s \<and> s \<noteq> (t, k) \<longrightarrow> var_slot ko' pkg' name' = Some s \<and>
      Koala_Get_Value ko' pkg' name' = Koala_Get_Value ko pkg' name')"
proof -
  let ?vm = "ko_vm ko"
  obtain vm1 where 1: "vm_decref ?vm (vs ! k) = Inr vm1" "data_at vm1 = data_at ?vm"
    "\<forall>b. refcnt_of vm1 b = (if vs ! k = Some b then refcnt_of ?vm b - 1 else refcnt_of ?vm b)" using decref_held [OF assms(4)] by blast
  obtain vm2 where 2: "vm_incref vm1 (Some v) = Inr vm2" "data_at vm2 = data_at vm1"
    "\<forall>b. refcnt_of vm2 b = (if b = v then refcnt_of vm1 b + 1 else refcnt_of vm1 b)" using incref_counts [of vm1 v] 1(2) assms(5) by auto
  obtain vm3 where 3: "set_data vm2 t (TupleObject av (vs[k := Some v])) = Inr vm3"
    "data_at vm3 = (data_at vm2)(t \<mapsto> TupleObject av (vs[k := Some v]))" "\<forall>b. refcnt_of vm3 b = refcnt_of vm2 b"
    using set_data_counts [of vm2 t] 1(2) 2(2) assms(2) by auto
  have d: "data_at vm3 = (data_at ?vm)(t \<mapsto> TupleObject av (vs[k := Some v]))" using 3(2) 2(2) 1(2) by simp
  have "tuple_ob ?vm (Some t) = Inr (t, av, vs)" using assms(2) by (simp add: ob_data_at)
  then have set: "Tuple_Set ?vm (Some t) (int k) (Some v) = Inr (0, vm3)"
    using 1(1) 2(1) 3(1) assms(3) by (simp add: Tuple_Set_def)
  let ?ko = "ko\<lparr>ko_vm := vm3\<rparr>"
  have slot: "var_slot ?ko q nm = var_slot ko q nm" for q nm
  proof -
    have "var_tuple ?ko = var_tuple ko" by (simp add: var_tuple_def fun_eq_iff)
    then show ?thesis using pkg_member_same [OF d assms(2)] by (simp add: var_slot_def split: sum.split)
  qed
  have get: "Koala_Get_Value ?ko q nm = Koala_Get_Value ko q nm" if s: "var_slot ko q nm = Some s" "s \<noteq> (t, k)" for q nm s
  proof -
    obtain u j where u: "s = (u, j)" by (cases s)
    have ne: "(u, j) \<noteq> (t, k)" using s(2) u by simp
    have "Tuple_Get vm3 (Some u) (int j) = Tuple_Get ?vm (Some u) (int j)"
    proof (cases "u = t")
      case True
      then show ?thesis
        using Tuple_Get_data [OF assms(2), of j] Tuple_Get_data [of vm3 t av "vs[k := Some v]" j] d ne by simp
    next
      case False
      then have "data_at vm3 u = data_at ?vm u" using d by simp
      then have "map_option vo_data (vm_at vm3 u) = map_option vo_data (vm_at ?vm u)" by (simp add: data_at_def)
      then show ?thesis
        by (cases "vm_at vm3 u"; cases "vm_at ?vm u") (auto simp: Tuple_Get_def tuple_ob_def ob_deref_def split: ObData.split)
    qed
    with var_slot_values(1) [of ?ko q nm u j] var_slot_values(1) [of ko q nm u j] s(1) slot [of q nm] u show ?thesis by simp
  qed
  have "Koala_Get_Value ?ko pkg name = Inr (Some v)"
    using var_slot_values(1) [of ?ko pkg name t k] slot [of pkg name] assms(1,3) Tuple_Get_data [of vm3 t av "vs[k := Some v]" k] d by simp
  moreover have "vs ! k \<noteq> Some v \<longrightarrow> refcnt_of vm3 v = refcnt_of ?vm v + 1" using 1(3) 2(3) 3(3) by simp
  ultimately show ?thesis
    using var_slot_values(2) [OF assms(1)] set slot get by (intro exI [of _ ?ko]) simp
qed

text \<open>A package with a variable \<open>count\<close>, and an integer.\<close>

definition count_pkg :: PkgObject where
  "count_pkg = \<lparr>pk_name = ''main'', pk_mtbl = insert_m NameTable_Init (MNode_New VAR_KIND ''count'' (Some (TD_Base (CHR ''i'')))),
     pk_consts = None, pk_index = 0, pk_nrvars = 1\<rparr>"

definition count_koala :: Koala where
  "count_koala = \<lparr>ko_vm = Vm_Init\<lparr>vm_objs := [Some \<lparr>vo_refcnt = 1, vo_data = PkgOb count_pkg\<rparr>,
       Some \<lparr>vo_refcnt = 1, vo_data = TupleObject 0 [None]\<rparr>, Some \<lparr>vo_refcnt = 1, vo_data = IntObject 7\<rparr>]\<rparr>,
     ko_types = Map.empty, ko_props = Properties_Init, ko_tree = Init_PkgState, ko_vars = [1]\<rparr>"

lemma count_slot: "var_slot count_koala (Some 0) ''count'' = Some (1, 0)"
proof -
  let ?m = "MNode_New VAR_KIND ''count'' (Some (TD_Base (CHR ''i'')))"
  have n: "nt_get (NameTable_Init :: MNode NameTable) (mn_name ?m) = None"
    using nt.get_None [OF nt_Init(1), of "''count''"] by simp
  note m = insert_m_new [OF nt_Init(1) n]
  have "nt_get (insert_m NameTable_Init ?m) ''count'' = Some ?m" using nt.get_Some [OF m(1), of "''count''" ?m] m(2) by (auto simp: str_eq_def)
  then have "pkg_member (ko_vm count_koala) (Some 0) ''count'' = Inr (0, ?m)"
    by (simp add: pkg_member_def pkg_ob_def ob_deref_def vm_at_def count_koala_def count_pkg_def Find_MNode_def)
  then show ?thesis by (simp add: var_slot_def var_tuple_def count_koala_def MNode_New_def)
qed

theorem variable_holds_value_witness:
  "\<exists>ko'. Koala_Set_Value count_koala (Some 0) ''count'' (Some 2) = Inr (0, ko') \<and>
     Koala_Get_Value ko' (Some 0) ''count'' = Inr (Some 2) \<and> refcnt_of (ko_vm ko') 2 = 2"
proof -
  have d: "data_at (ko_vm count_koala) 1 = Some (TupleObject 0 [None])" "data_at (ko_vm count_koala) 2 \<noteq> None"
    "refcnt_of (ko_vm count_koala) 2 = 1"
    by (simp_all add: data_at_def vm_at_def count_koala_def refcnt_of_def)
  from variable_holds_value [OF count_slot d(1) _ _ d(2)] d(3) show ?thesis by auto
qed

subsection \<open>Loading a package from its file\<close>

lemma package_holds_kept:
  assumes "package_holds vm p cs ds" "kept_from vm {pkg} vm'" "data_at vm pkg = Some (PkgOb q)"
  shows "package_holds vm' (p\<lparr>pk_index := i\<rparr>) cs ds"
proof -
  obtain t obs where h: "pk_consts p = Some t" "data_at vm t = Some (TupleObject 0 (map Some obs))" "list_all2 (const_ob vm) obs cs"
    "pk_nrvars p = length (of_type ITEM_VAR ds)"
    "\<forall>k < length (of_type ITEM_VAR ds). \<exists>m. Find_MNode (pk_mtbl p) (decl_name (of_type ITEM_VAR ds ! k)) = Some m \<and>
        mn_kind m = VAR_KIND \<and> mn_offset m = k"
    "\<forall>k < length (of_type ITEM_FUNC ds). \<exists>name arg ret codes m a proto locs.
        of_type ITEM_FUNC ds ! k = DFunc name arg ret codes \<and> Find_MNode (pk_mtbl p) name = Some m \<and>
        mn_kind m = FUNC_KIND \<and> mn_code m = Some a \<and> same_desc proto (TD_Proto arg ret) \<and>
        list_all2 local_matches locs (locals_of ds (int k)) \<and>
        (\<exists>s. str_eq s name \<and> data_at vm a = Some (CodeOb \<lparr>vc_name = s, vc_proto = Some proto,
          vc_kind = KCODE_KIND \<lparr>ci_consts = Some t, ci_locvec = locs, ci_size = int (length codes), ci_codes = Some codes\<rparr>\<rparr>))"
    using assms(1) unfolding package_holds_def by blast
  have t: "data_at vm' t = Some (TupleObject 0 (map Some obs))" using kept_fromD [OF assms(2) h(2)] h(2) assms(3) by (cases "t = pkg") simp_all
  have obs: "list_all2 (const_ob vm') obs cs"
  proof (rule list_all2_mono [OF h(3)])
    fix a c assume a: "const_ob vm a c"
    with assms(3) have "a \<noteq> pkg" by (auto simp: const_ob_def split: prod.splits ConstData.splits)
    with const_ob_kept [OF a assms(2)] show "const_ob vm' a c" by simp
  qed
  have code: "data_at vm' a = Some (CodeOb c)" if "data_at vm a = Some (CodeOb c)" for a c
    using kept_fromD [OF assms(2) that] that assms(3) by (cases "a = pkg") simp_all
  show ?thesis
    unfolding package_holds_def
    apply (intro exI [of _ t] exI [of _ obs] conjI)
         apply (simp add: h(1))
        apply (rule t)
       apply (rule obs)
      apply (simp add: h(4))
     apply (use h(5) in simp)
    apply (use h(6) code in fastforce)
    done
qed

lemma search_image_found:
  assumes "\<forall>q \<in> set pres. \<exists>nm. klc_name q path = Some nm \<and> fs (cstr nm) = None"
    and "klc_name pre path = Some nm" "KImage_Read_File (fs (cstr nm)) 0 = Inr (Some img)"
  shows "search_image fs path (pres @ pre # rest) = Inr (Some img)"
  using assms(1)
proof (induction pres)
  case (Cons q pres)
  then obtain qn where "klc_name q path = Some qn" "fs (cstr qn) = None" by auto
  with Cons show ?case by (auto simp: KImage_Read_File_def)
qed (simp add: assms(2,3))

lemma read_back:
  assumes "image_rel img ds" "fits_file img" "KImage_Finish img = Inr img1" "KImage_Write_File img1 = Inr fl"
  obtains img2 where "KImage_Read_File (Some fl) 0 = Inr (Some img2)" "image_rel img2 ds" "KImage_Get_Consts img2 = KImage_Get_Consts img"
    "length (its (im_store img2) ITEM_TYPE) = length (its (im_store img) ITEM_TYPE)"
proof -
  have st: "store_ok (im_store img)" using assms(1) by (simp add: image_rel_def)
  obtain img2 where f: "KImage_Read_File (Some fl) 0 = Inr (Some img2)" "base_ok (im_store img2)"
    "\<forall>ty. 0 < ty \<longrightarrow> ty < ITEM_MAX \<longrightarrow> map item_value (its (im_store img2) ty) = map item_value (its (im_store img) ty)"
    using roundtrip_pools [OF st assms(2), of 0] assms(3,4) by (auto simp: LOAD_def)
  have same: "its (im_store img2) ty = its (im_store img) ty" if "0 < ty" "ty < ITEM_MAX" "ty \<noteq> ITEM_CONST" for ty
    using same_values [OF store_ok_base [OF st] f(2)] f(3) that by blast
  then have "same_refs (im_store img) (im_store img2)" by (simp add: same_refs_def)
  then have "image_rel img2 ds"
    using assms(1) f(2) same_image [of "im_store img" "im_store img2" "im_header img" ds "im_header img2"] by (cases img; cases img2) simp
  moreover have "KImage_Get_Consts img2 = KImage_Get_Consts img"
    by (rule Get_Consts_same [OF store_ok_base [OF st] f(2)]) (use same [of ITEM_STRING] f(3) in \<open>simp_all add: item_types\<close>)
  moreover have "its (im_store img2) ITEM_TYPE = its (im_store img) ITEM_TYPE" by (rule same) (simp_all add: item_types)
  ultimately show ?thesis using f(1) that by simp
qed

lemma Add_Package_ok:
  assumes "strs_ok (ko_vm ko)" "data_at (ko_vm ko) pkg = Some (PkgOb p)" "Add_PkgNode (ko_tree ko) path pkg = Inr (Some node, tree)"
  shows "\<exists>i ko'. Koala_Add_Package ko path pkg = Inr (0, ko') \<and> ko_tree ko' = tree \<and> kept_from (ko_vm ko) {pkg} (ko_vm ko') \<and>
    data_at (ko_vm ko') pkg = Some (PkgOb (p\<lparr>pk_index := i\<rparr>)) \<and> ko_props ko' = ko_props ko \<and>
    (0 < pk_nrvars p \<longrightarrow> (\<exists>t. var_tuple ko' i = Some t \<and> data_at (ko_vm ko) t = None \<and>
       data_at (ko_vm ko') t = Some (TupleObject 0 (replicate (pk_nrvars p) None))))"
proof -
  let ?i = "if pk_nrvars p = 0 then -1 else int (length (ko_vars ko))"
  obtain vm1 where 1: "set_data (ko_vm ko) pkg (PkgOb (p\<lparr>pk_index := ?i\<rparr>)) = Inr vm1" "kept_from (ko_vm ko) {pkg} vm1"
    "data_at vm1 pkg = Some (PkgOb (p\<lparr>pk_index := ?i\<rparr>))" using set_pkg_ok [OF assms(1,2)] by blast
  have ix: "set_pk_index (ko_vm ko) pkg ?i = Inr vm1" using 1(1) assms(2) by (simp add: set_pk_index_def ob_data_at)
  show ?thesis
  proof (cases "pk_nrvars p = 0")
    case True
    with 1 ix assms(2,3) show ?thesis
      by (intro exI [of _ ?i] exI [of _ "ko\<lparr>ko_tree := tree, ko_vm := vm1\<rparr>"]) (simp add: Koala_Add_Package_def ob_data_at Let_def)
  next
    case False
    obtain t vm2 where n: "new_ob vm1 (TupleObject 0 (replicate (pk_nrvars p) None)) = (t, vm2)"
      by (cases "new_ob vm1 (TupleObject 0 (replicate (pk_nrvars p) None))")
    have ok: "strs_ok vm1" using 1(2) by (simp add: kept_from_def)
    have "no_string (Some (TupleObject 0 (replicate (pk_nrvars p) None)))" by (simp add: no_string_def)
    note new = kept_from_new [OF ok this n]
    have p2: "data_at vm2 pkg = Some (PkgOb (p\<lparr>pk_index := ?i\<rparr>))" using kept_fromD [OF new(1) 1(3)] by simp
    have t: "data_at (ko_vm ko) t = None"
    proof (rule ccontr)
      assume "data_at (ko_vm ko) t \<noteq> None"
      moreover have "t \<noteq> pkg" using new(3) 1(3) by auto
      ultimately show False using 1(2) new(3) by (simp add: kept_from_def)
    qed
    have k: "kept_from (ko_vm ko) {pkg} vm2" using kept_from_trans [OF 1(2) new(1)] by simp
    let ?ko = "ko\<lparr>ko_tree := tree, ko_vm := vm2, ko_vars := ko_vars ko @ [t]\<rparr>"
    have "Koala_Add_Package ko path pkg = Inr (0, ?ko)"
      using False ix n assms(2,3) by (simp add: Koala_Add_Package_def ob_data_at Tuple_New_def Let_def)
    with False p2 t k new(2) show ?thesis
      by (intro exI [of _ ?i] exI [of _ ?ko]) (simp add: var_tuple_def nth_append)
  qed
qed


lemma package_known:
  assumes "tree_ok ps" "path \<noteq> []" "Find_PkgNode ps path = Inr (Some node)" "abs_tree ps (components path) = Some (Pkg d)"
  shows "pn_leaf (ps_nodes ps node)" "pn_data (ps_nodes ps node) = Payload d"
proof -
  have w: "pkg.walk_down ps 0 (components path) = Some node"
    using assms(3) find_path_walk [OF assms(2), of ps 0] by (simp add: Find_PkgNode_def)
  with assms(4) have e: "entry_of (ps_nodes ps node) = Pkg d" by (simp add: abs_tree_def)
  then show "pn_leaf (ps_nodes ps node)" using entry_leaf [OF assms(1) walk_bound [OF assms(1) w]] by blast
  from e show "pn_data (ps_nodes ps node) = Payload d" by (simp add: entry_of_def split: node_data.splits)
qed

lemma var_unset:
  assumes "data_at (ko_vm ko) pkg = Some (PkgOb p)" "package_holds (ko_vm ko) p cs ds"
    and "0 < pk_nrvars p \<longrightarrow> (\<exists>t. var_tuple ko (pk_index p) = Some t \<and>
       data_at (ko_vm ko) t = Some (TupleObject 0 (replicate (pk_nrvars p) None)))"
    and "d \<in> set (of_type ITEM_VAR ds)"
  shows "Koala_Get_Value ko (Some pkg) (decl_name d) = Inr None"
proof -
  obtain k where k: "k < length (of_type ITEM_VAR ds)" "d = of_type ITEM_VAR ds ! k" using assms(4) by (metis in_set_conv_nth)
  with assms(2) obtain m where m: "pk_nrvars p = length (of_type ITEM_VAR ds)" "Find_MNode (pk_mtbl p) (decl_name d) = Some m"
    "mn_kind m = VAR_KIND" "mn_offset m = k" unfolding package_holds_def by blast
  with assms(3) k(1) obtain t where t: "var_tuple ko (pk_index p) = Some t"
    "data_at (ko_vm ko) t = Some (TupleObject 0 (replicate (pk_nrvars p) None))" by auto
  have "pkg_member (ko_vm ko) (Some pkg) (decl_name d) = Inr (pk_index p, m)"
    using assms(1) m(2) by (simp add: pkg_member_def ob_data_at)
  with m t Tuple_Get_data [OF t(2), of k] k(1) show ?thesis by (simp add: Koala_Get_Value_def)
qed

text \<open>
  The directories are searched in order: those before the first that has the file have no file of the
  name of the package.
\<close>

definition first_file :: "(string \<Rightarrow> uint8 list option) \<Rightarrow> string \<Rightarrow> string list \<Rightarrow> uint8 list \<Rightarrow> bool" where
  "first_file fs path dirs fl \<longleftrightarrow> (\<exists>pres pre rest nm. dirs = pres @ pre # rest \<and>
     (\<forall>q \<in> set pres. \<exists>qn. klc_name q path = Some qn \<and> fs (cstr qn) = None) \<and> klc_name pre path = Some nm \<and> fs (cstr nm) = Some fl)"

text \<open>
  C4: loading a package. When the path of a package is free in the tree, not below a package, and the
  first file of its name in the directories of \<open>koala.path\<close> was written from an image of the declarations
  \<open>ds\<close> and the constants \<open>cs\<close>, whose constants are integers and strings and whose names differ,
  \<open>Koala_Get_Package\<close> gives a new package. It has the constants, every variable, unset, and every
  function with its code and its local variables; the objects there were before have the data they had,
  and asking for the path again gives the same package without loading it.
\<close>

theorem package_loaded:
  assumes "strs_ok (ko_vm ko)" "desc_ok (ko_types ko)" "tree_ok (ko_tree ko)"
    and "path \<noteq> []" "Find_PkgNode (ko_tree ko) path = Inr None"
    and "\<nexists>qs d. proper_prefix qs (components path) \<and> abs_tree (ko_tree ko) qs = Some (Pkg d)"
    and "first_file fs path (koala_pathes (ko_props ko)) fl"
    and "image_rel img ds" "fits_file img" "KImage_Finish img = Inr img1" "KImage_Write_File img1 = Inr fl"
    and "list_all decl_known ds" "KImage_Get_Consts img = Inr cs" "package_loadable cs ds"
    and "length (its (im_store img) ITEM_TYPE) \<le> n"
  shows "\<exists>pkg p ko'. Koala_Get_Package n fs ko path = Inr (Some pkg, ko') \<and> data_at (ko_vm ko) pkg = None \<and>
    data_at (ko_vm ko') pkg = Some (PkgOb p) \<and> package_holds (ko_vm ko') p cs ds \<and>
    (\<forall>d \<in> set (of_type ITEM_VAR ds). Koala_Get_Value ko' (Some pkg) (decl_name d) = Inr None) \<and>
    kept_from (ko_vm ko) {} (ko_vm ko') \<and> Koala_Get_Package n fs ko' path = Inr (Some pkg, ko')"
proof -
  obtain img2 where img2: "KImage_Read_File (Some fl) 0 = Inr (Some img2)" "image_rel img2 ds"
    "KImage_Get_Consts img2 = KImage_Get_Consts img" "length (its (im_store img2) ITEM_TYPE) = length (its (im_store img) ITEM_TYPE)"
    using read_back [OF assms(8-11)] by blast
  obtain pres pre rest nm where dirs: "koala_pathes (ko_props ko) = pres @ pre # rest"
    "\<forall>q \<in> set pres. \<exists>qn. klc_name q path = Some qn \<and> fs (cstr qn) = None" "klc_name pre path = Some nm" "fs (cstr nm) = Some fl"
    using assms(7) unfolding first_file_def by blast
  have search: "search_image fs path (koala_pathes (ko_props ko)) = Inr (Some img2)"
    using search_image_found [OF dirs(2,3)] dirs(1,4) img2(1) by simp
  obtain pkg tbl vm1 p where load: "Pkg_From_Image n (ko_vm ko) (ko_types ko) img2 = Inr (pkg, tbl, vm1)" "kept_from (ko_vm ko) {} vm1"
    "data_at (ko_vm ko) pkg = None" "data_at vm1 pkg = Some (PkgOb p)" "package_holds vm1 p cs ds"
    using From_Image_holds [OF assms(1,2) img2(2) assms(12) _ _ assms(14), of n] img2(3,4) assms(13,15) by metis
  have free: "abs_tree (ko_tree ko) (components path) = None"
    using Add_PkgNode_cases(1) [OF assms(3,4)] assms(5) by simp
  obtain tree node where tree: "Add_PkgNode (ko_tree ko) path pkg = Inr (Some node, tree)" "tree_ok tree"
    "Find_PkgNode tree path = Inr (Some node)" "abs_tree tree (components path) = Some (Pkg pkg)"
    using Add_PkgNode_cases(4) [OF assms(3,4,6) free, of pkg] by auto
  let ?ko1 = "ko\<lparr>ko_vm := vm1, ko_types := tbl\<rparr>"
  have k1: "strs_ok (ko_vm ?ko1)" "data_at (ko_vm ?ko1) pkg = Some (PkgOb p)" "Add_PkgNode (ko_tree ?ko1) path pkg = Inr (Some node, tree)"
    using load(2,4) tree(1) by (simp_all add: kept_from_def)
  obtain i ko' where add: "Koala_Add_Package ?ko1 path pkg = Inr (0, ko')" "ko_tree ko' = tree" "kept_from vm1 {pkg} (ko_vm ko')"
    "data_at (ko_vm ko') pkg = Some (PkgOb (p\<lparr>pk_index := i\<rparr>))"
    "0 < pk_nrvars p \<longrightarrow> (\<exists>t. var_tuple ko' i = Some t \<and> data_at (ko_vm ko') t = Some (TupleObject 0 (replicate (pk_nrvars p) None)))"
    using Add_Package_ok [OF k1] by auto
  let ?p = "p\<lparr>pk_index := i\<rparr>"
  have holds: "package_holds (ko_vm ko') ?p cs ds" by (rule package_holds_kept [OF load(5) add(3) load(4)])
  have kept: "kept_from (ko_vm ko) {} (ko_vm ko')" using load(2,3) add(3) unfolding kept_from_def by (metis empty_iff singletonD)
  have first: "Koala_Get_Package n fs ko path = Inr (Some pkg, ko')"
    using assms(5) search load(1) add(1) by (simp add: Koala_Get_Package_def)
  note known = package_known [OF tree(2) assms(4) tree(3,4)]
  have again: "Koala_Get_Package n fs ko' path = Inr (Some pkg, ko')"
    using tree(3) known add(2) by (simp add: Koala_Get_Package_def)
  have unset: "Koala_Get_Value ko' (Some pkg) (decl_name d) = Inr None" if "d \<in> set (of_type ITEM_VAR ds)" for d
    using var_unset [OF add(4) holds _ that] add(5) by simp
  show ?thesis using first load(3) add(4) holds unset kept again by blast
qed


text \<open>An image of a variable and a function has no constants.\<close>

lemma Add_Var_consts:
  assumes "image_rel img ds" "plain_type desc" "KImage_Add img (DVar name desc konst) = Inr (i, img')"
  shows "its (im_store img') ITEM_CONST = its (im_store img) ITEM_CONST"
proof -
  have st: "store_ok (im_store img)" using assms(1) by (simp add: image_rel_def)
  obtain t st1 where 1: "TypeItem_Set (im_store img) desc = Inr (t, st1)" "type_added (im_store img) desc t st1"
    using TypeItem_Set_spec [OF assms(2) st] by blast
  have st1: "store_ok st1" "its st1 ITEM_CONST = its (im_store img) ITEM_CONST" using 1(2) by (simp_all add: type_added_def item_types)
  obtain k st2 where 2: "StringItem_Set st1 name = Inr (k, st2)" "base_ok st2" "extends st1 st2" "\<forall>ty. ty \<noteq> ITEM_STRING \<longrightarrow> its st2 ty = its st1 ty"
    using StringItem_Set_spec [OF store_ok_base [OF st1(1)]] by blast
  have st2: "store_ok st2" by (rule store_ok_strings [OF st1(1) 2(2,3,4)])
  obtain j st3 where 3: "append_item st2 ITEM_VAR (VarI (VarItem_New k t konst)) False = Inr (j, st3)" "\<forall>ty. ty \<noteq> ITEM_VAR \<longrightarrow> its st3 ty = its st2 ty"
    using append_decl_item [OF st2, of "VarI (VarItem_New k t konst)" ITEM_VAR] by (auto simp: item_types shared_types_def)
  have "its st2 ITEM_CONST = its (im_store img) ITEM_CONST" using st1(2) 2(4) by (simp add: item_types)
  moreover have "its st3 ITEM_CONST = its st2 ITEM_CONST" using 3(2) by (simp add: item_types)
  ultimately show ?thesis using assms(3) 1(1) 2(1) 3(1) by (auto simp: KImage_Add_Var_def put_store_def)
qed

lemma Add_Func_consts:
  assumes "image_rel img ds" "\<forall>d \<in> set arg \<union> set ret. plain_type d" "KImage_Add img (DFunc name arg ret codes) = Inr (i, img')"
  shows "its (im_store img') ITEM_CONST = its (im_store img) ITEM_CONST"
proof -
  have st: "store_ok (im_store img)" using assms(1) by (simp add: image_rel_def)
  obtain k st1 where 1: "StringItem_Set (im_store img) name = Inr (k, st1)" "base_ok st1" "extends (im_store img) st1"
    "\<forall>ty. ty \<noteq> ITEM_STRING \<longrightarrow> its st1 ty = its (im_store img) ty"
    using StringItem_Set_spec [OF store_ok_base [OF st]] by blast
  have st1: "store_ok st1" by (rule store_ok_strings [OF st 1(2,3,4)])
  obtain t st2 where 2: "ProtoItem_Set st1 arg ret = Inr (t, st2)" "store_ok st2"
    "\<forall>ty. ty \<notin> {ITEM_STRING, ITEM_TYPE, ITEM_TYPELIST, ITEM_PROTO} \<longrightarrow> its st2 ty = its st1 ty"
    using ProtoItem_Set_spec [OF assms(2) st1] by blast
  let ?c = "CodeI (CodeItem_New codes (int (length codes)))"
  obtain c st3 where 3: "append_item st2 ITEM_CODE ?c False = Inr (c, st3)" "store_ok st3" "\<forall>ty. ty \<noteq> ITEM_CODE \<longrightarrow> its st3 ty = its st2 ty"
    using append_decl_item [OF 2(2), of ?c ITEM_CODE] by (auto simp: item_types shared_types_def)
  let ?f = "FuncI (FuncItem_New k t c)"
  obtain j st4 where 4: "append_item st3 ITEM_FUNC ?f False = Inr (j, st4)" "\<forall>ty. ty \<noteq> ITEM_FUNC \<longrightarrow> its st4 ty = its st3 ty"
    using append_decl_item [OF 3(2), of ?f ITEM_FUNC] by (auto simp: item_types shared_types_def)
  have "its st4 ITEM_CONST = its (im_store img) ITEM_CONST" using 1(4) 2(3) 3(3) 4(2) by (simp add: item_types)
  then show ?thesis using assms(3) 1(1) 2(1) 3(1) 4(1) by (auto simp: KImage_Add_Func_def put_store_def codeitem_set_def)
qed

definition main_decls :: "Decl list" where
  "main_decls = [DVar ''count'' (TD_Base (CHR ''i'')) 0, DFunc ''main'' [] [] [25]]"

definition fresh_koala :: Koala where
  "fresh_koala = \<lparr>ko_vm = Vm_Init, ko_types = Map.empty, ko_props = koala_set_pathes 8 Properties_Init [],
     ko_tree = Init_PkgState, ko_vars = []\<rparr>"

lemma main_image:
  obtains img img1 fl where "image_rel img main_decls" "fits_file img" "KImage_Finish img = Inr img1" "KImage_Write_File img1 = Inr fl"
    "KImage_Get_Consts img = Inr []"
proof -
  have fit: "decls_fit main_decls"
    by (simp add: decls_fit_def main_decls_def int32_range_def types_cost_def FILE_MAX_def)
  obtain img where img: "KImage_Add_all (KImage_New None) main_decls = Inr img" "image_rel img main_decls" "fits_file img"
    using built_image [OF fit] by blast
  let ?v = "DVar ''count'' (TD_Base (CHR ''i'')) 0" and ?f = "DFunc ''main'' [] [] [25]"
  obtain i img0 where 1: "KImage_Add (KImage_New None) ?v = Inr (i, img0)" "image_rel img0 [?v]"
    using KImage_Add_rel [OF image_rel_New [of None], of ?v] by auto
  from img(1) 1(1) obtain j where 2: "KImage_Add img0 ?f = Inr (j, img)" by (auto simp: main_decls_def)
  have "its (im_store img) ITEM_CONST = its (im_store (KImage_New None)) ITEM_CONST"
    using Add_Var_consts [OF image_rel_New _ 1(1)] Add_Func_consts [OF 1(2) _ 2] by simp
  then have c: "its (im_store img) ITEM_CONST = []" by (simp add: KImage_New_def items_New)
  have st: "store_ok (im_store img)" using img(2) by (simp add: image_rel_def)
  have "KImage_Get_Consts img = Inr []" unfolding Get_Consts_eq(2) [OF store_ok_base [OF st]] by (simp add: c)
  moreover obtain img1 fl where "KImage_Finish img = Inr img1" "KImage_Write_File img1 = Inr fl"
    using roundtrip_pools [OF st img(3)] by blast
  ultimately show ?thesis using that img(2,3) by blast
qed

lemma fresh_pathes: "koala_pathes (ko_props fresh_koala) = [''.'']"
proof -
  have "prop_values (Properties_Put 8 Properties_Init KOALA_PATH ''.'') KOALA_PATH = [''.'']"
    using Properties_Put_spec [of Properties_Init 8 KOALA_PATH "''.''" KOALA_PATH] prop_inv_Init prop_addrs_Init prop_values_Init
    by (simp add: str_eq_def)
  then show ?thesis by (simp add: koala_pathes_def prop_values_def vec_vals_def fresh_koala_def koala_set_pathes_def split: option.splits)
qed

lemma main_klc: "klc_name ''.'' ''main'' \<noteq> None"
  by code_simp

theorem package_loaded_witness:
  "\<exists>n fl pkg p ko'. Koala_Get_Package n (\<lambda>_. Some fl) fresh_koala ''main'' = Inr (Some pkg, ko') \<and>
     data_at (ko_vm ko') pkg = Some (PkgOb p) \<and> package_holds (ko_vm ko') p [] main_decls \<and>
     Koala_Get_Value ko' (Some pkg) ''count'' = Inr None \<and>
     Koala_Get_Package n (\<lambda>_. Some fl) ko' ''main'' = Inr (Some pkg, ko')"
proof -
  obtain img img1 fl where img: "image_rel img main_decls" "fits_file img" "KImage_Finish img = Inr img1" "KImage_Write_File img1 = Inr fl"
    "KImage_Get_Consts img = Inr []" by (rule main_image)
  let ?n = "length (its (im_store img) ITEM_TYPE)"
  have 1: "strs_ok (ko_vm fresh_koala)" "desc_ok (ko_types fresh_koala)" "tree_ok (ko_tree fresh_koala)"
    using Vm_Init_ok Init_PkgState_ok by (simp_all add: fresh_koala_def desc_ok_def)
  have c: "components ''main'' = [''main'']" by (simp add: components_Cons)
  have none: "abs_tree (ko_tree fresh_koala) [''main''] = None" "abs_tree (ko_tree fresh_koala) [] = Some Dir"
    by (simp_all add: fresh_koala_def abs_tree_Init)
  have 2: "Find_PkgNode (ko_tree fresh_koala) ''main'' = Inr None"
    using none(1) find_path_walk [of "''main''" "ko_tree fresh_koala" 0] c by (simp add: Find_PkgNode_def abs_tree_def)
  have 3: "\<nexists>qs d. proper_prefix qs (components ''main'') \<and> abs_tree (ko_tree fresh_koala) qs = Some (Pkg d)"
    using none(2) by (auto simp: c proper_prefix_Cons)
  obtain nm where nm: "klc_name ''.'' ''main'' = Some nm" using main_klc by blast
  have 4: "first_file (\<lambda>_. Some fl) ''main'' (koala_pathes (ko_props fresh_koala)) fl"
    unfolding first_file_def fresh_pathes using nm
    by (intro exI [of _ "[]"] exI [of _ "''.''"] exI [of _ "[]"] exI [of _ nm]) simp
  have 5: "list_all decl_known main_decls" "package_loadable [] main_decls"
    by (simp_all add: main_decls_def package_loadable_def item_types get_basic_def basic_types_def)
  have v: "decl_name (DVar ''count'' (TD_Base (CHR ''i'')) 0) = ''count''" "DVar ''count'' (TD_Base (CHR ''i'')) 0 \<in> set (of_type ITEM_VAR main_decls)"
    by (simp_all add: main_decls_def item_types)
  from package_loaded [OF 1 _ 2 3 4 img(1-4) 5(1) img(5) 5(2) order_refl] v show ?thesis by (metis list.discI)
qed

end
