(* ===== verification/VmEval.thy ===== *)
theory VmEval
  imports VmState CodeGen
begin

text \<open>
  The interpreter (\<^verbatim>\<open>src/eval.c\<close>, with the stack of \<^verbatim>\<open>include/stack.h\<close> and the state of a task of
  \<^verbatim>\<open>include/state.h\<close>): call frames, the stack of operands, and the loop over the byte code of a function.
\<close>

subsection \<open>Frames and the stack\<close>

text \<open>
  \<open>cf_size\<close> is what the code stores in the member \<open>size\<close>: the size of the frame in bytes.
  \<open>cf_locvars\<close> is the array of the local variables that is allocated behind the frame.
\<close>

record CallFrame =
  cf_code :: "nat option"
  cf_ob :: "nat option"
  cf_args :: "nat option"
  cf_index :: int
  cf_size :: int
  cf_locvars :: "nat option list"

text \<open>The frames that are linked by \<open>back\<close>, and the objects on the stack; the top comes first.\<close>

record KoalaState =
  ks_frame :: "CallFrame list"
  ks_depth :: nat
  ks_stack :: "nat list"

definition MAX_STACK_SIZE :: nat where "MAX_STACK_SIZE = 8"
definition MAX_FRAME_DEPTH :: nat where "MAX_FRAME_DEPTH = 16"

definition SIZEOF_CallFrame :: nat where "SIZEOF_CallFrame = 48"

definition New_koalaState :: KoalaState where
  "New_koalaState = \<lparr>ks_frame = [], ks_depth = 0, ks_stack = []\<rparr>"

text \<open>The assertion of \<open>Stack_Push\<close> holds on a full stack, and the object is stored behind it.\<close>

definition Stack_Push :: "KoalaState \<Rightarrow> nat \<Rightarrow> KoalaState run" where
  "Stack_Push ks v = (if MAX_STACK_SIZE < length (ks_stack ks) then Inl Assert_Failed
     else if length (ks_stack ks) = MAX_STACK_SIZE then Inl Out_Of_Bounds
     else Inr (ks\<lparr>ks_stack := v # ks_stack ks\<rparr>))"

definition Stack_Pop :: "KoalaState \<Rightarrow> (nat option \<times> KoalaState) run" where
  "Stack_Pop ks = (if MAX_STACK_SIZE < length (ks_stack ks) then Inl Assert_Failed
     else case ks_stack ks of [] \<Rightarrow> Inr (None, ks) | v # vs \<Rightarrow> Inr (Some v, ks\<lparr>ks_stack := vs\<rparr>))"

text \<open>What several instructions do: \<open>OB_INCREF\<close> and \<open>PUSH\<close>.\<close>

definition push_held :: "Koala \<Rightarrow> KoalaState \<Rightarrow> nat option \<Rightarrow> (Koala \<times> KoalaState) run" where
  "push_held ko ks ob = bind_run (vm_incref (ko_vm ko) ob) (\<lambda>vm1.
     bind_run (Stack_Push ks (the ob)) (\<lambda>ks1. Inr (ko\<lparr>ko_vm := vm1\<rparr>, ks1)))"

subsection \<open>Reading the code\<close>

definition kcode_info :: "Vm \<Rightarrow> nat option \<Rightarrow> CodeInfo run" where
  "kcode_info vm code = bind_run (code_ob vm code) (\<lambda>(_, co). case vc_kind co of
     KCODE_KIND ci \<Rightarrow> Inr ci | CFUNC_KIND f \<Rightarrow> Inl Out_Of_Bounds)"

definition NEXT_CODE :: "CodeInfo \<Rightarrow> CallFrame \<Rightarrow> (uint8 \<times> CallFrame) run" where
  "NEXT_CODE ci cf = (let index = cf_index cf + 1 in case ci_codes ci of
     None \<Rightarrow> Inl Null_Deref
   | Some codes \<Rightarrow> if 0 \<le> index \<and> index < int (length codes) then Inr (codes ! nat index, cf\<lparr>cf_index := index\<rparr>) else Inl Out_Of_Bounds)"

definition fetch_byte :: "CodeInfo \<Rightarrow> CallFrame \<Rightarrow> (uint8 \<times> CallFrame) run" where
  "fetch_byte ci cf = (if cf_index cf < ci_size ci then NEXT_CODE ci cf else Inl Assert_Failed)"

definition fetch_2bytes :: "CodeInfo \<Rightarrow> CallFrame \<Rightarrow> (int \<times> CallFrame) run" where
  "fetch_2bytes ci cf = (if cf_index cf < ci_size ci then
       bind_run (NEXT_CODE ci cf) (\<lambda>(l, cf1). bind_run (NEXT_CODE ci cf1) (\<lambda>(h, cf2). Inr (256 * uint h + uint l, cf2)))
     else Inl Assert_Failed)"

definition load :: "CallFrame \<Rightarrow> int \<Rightarrow> nat option run" where
  "load cf index = (if cf_size cf \<le> index then Inl Assert_Failed
     else if 0 \<le> index \<and> index < int (length (cf_locvars cf)) then Inr (cf_locvars cf ! nat index) else Inl Out_Of_Bounds)"

definition set_locvar :: "CallFrame \<Rightarrow> nat \<Rightarrow> nat option \<Rightarrow> CallFrame run" where
  "set_locvar cf i val = (if i < length (cf_locvars cf) then Inr (cf\<lparr>cf_locvars := (cf_locvars cf)[i := val]\<rparr>) else Inl Out_Of_Bounds)"

definition store :: "Vm \<Rightarrow> CallFrame \<Rightarrow> int \<Rightarrow> nat option \<Rightarrow> (Vm \<times> CallFrame) run" where
  "store vm cf index val = (if val = None then Inl Assert_Failed
     else bind_run (load cf index) (\<lambda>v. bind_run (vm_decref vm v) (\<lambda>vm1.
       bind_run (set_locvar cf (nat index) val) (\<lambda>cf1. Inr (vm1, cf1)))))"

text \<open>
  The owner of a code object is never set, so that \<open>Get_Field\<close> looks in the class of the object; the
  classes of the library have no members that are variables, and it fails an assertion.
\<close>

definition load_field :: "Koala \<Rightarrow> nat option \<Rightarrow> nat option \<Rightarrow> nat option run" where
  "load_field ko ob so = bind_run (String_RawString (ko_vm ko) so) (\<lambda>name.
     bind_run (ob_deref (ko_vm ko) ob) (\<lambda>(_, x). case vo_data x of
       PkgOb p \<Rightarrow> Koala_Get_Value ko ob name
     | _ \<Rightarrow> Inl Assert_Failed))"

subsection \<open>Pushing and popping frames\<close>

definition push_frame :: "Koala \<Rightarrow> KoalaState \<Rightarrow> nat option \<Rightarrow> nat option \<Rightarrow> nat option \<Rightarrow> KoalaState run" where
  "push_frame ko ks code ob args = (if MAX_FRAME_DEPTH \<le> ks_depth ks then Inl Exited
     else bind_run (code_ob (ko_vm ko) code) (\<lambda>(_, co).
       let n = (case vc_kind co of KCODE_KIND ci \<Rightarrow> length (ci_locvec ci) | CFUNC_KIND f \<Rightarrow> 0);
           cf = \<lparr>cf_code = code, cf_ob = ob, cf_args = args, cf_index = -1, cf_size = int (SIZEOF_CallFrame + 8 * n),
                 cf_locvars = replicate n None\<rparr> in
       Inr (ks\<lparr>ks_frame := cf # ks_frame ks, ks_depth := ks_depth ks + 1\<rparr>)))"

fun free_locvars :: "Vm \<Rightarrow> nat option list \<Rightarrow> nat list \<Rightarrow> Vm run" where
  "free_locvars vm locs [] = Inr vm"
| "free_locvars vm locs (i # is) = (if i < length locs
     then bind_run (vm_decref vm (locs ! i)) (\<lambda>vm1. free_locvars vm1 locs is) else Inl Out_Of_Bounds)"

definition free_frame :: "Vm \<Rightarrow> CallFrame \<Rightarrow> Vm run" where
  "free_frame vm cf = free_locvars vm (cf_locvars cf) [0 ..< nat (cf_size cf)]"

definition pop_frame :: "Koala \<Rightarrow> KoalaState \<Rightarrow> CallFrame \<Rightarrow> (Koala \<times> KoalaState) run" where
  "pop_frame ko ks cf = bind_run (free_frame (ko_vm ko) cf) (\<lambda>vm1.
     Inr (ko\<lparr>ko_vm := vm1\<rparr>, ks\<lparr>ks_frame := tl (ks_frame ks)\<rparr>))"

subsection \<open>The loop\<close>

text \<open>
  One round: the frame, which is on top, is carried along; the last component is \<open>loopflag\<close>. Some of the
  instructions do nothing, and do not skip their operands.
\<close>

definition eval_step :: "nat option \<Rightarrow> Koala \<Rightarrow> KoalaState \<Rightarrow> CallFrame \<Rightarrow> (Koala \<times> KoalaState \<times> CallFrame \<times> bool) run" where
  "eval_step pool ko ks cf = bind_run (kcode_info (ko_vm ko) (cf_code cf)) (\<lambda>ci. bind_run (fetch_byte ci cf) (\<lambda>(op, cf1).
     if op \<in> {POP_TOP, POP_TOPN, STORE_FIELD, JMP, NEW} then Inr (ko, ks, cf1, True)
     else if op = LOAD_CONST then
       bind_run (fetch_2bytes ci cf1) (\<lambda>(index, cf2).
       bind_run (Tuple_Get (ko_vm ko) pool index) (\<lambda>ob.
       bind_run (push_held ko ks ob) (\<lambda>(ko1, ks1). Inr (ko1, ks1, cf2, True))))
     else if op = LOAD_op then
       bind_run (fetch_2bytes ci cf1) (\<lambda>(index, cf2).
       bind_run (load cf2 index) (\<lambda>ob.
       bind_run (push_held ko ks ob) (\<lambda>(ko1, ks1). Inr (ko1, ks1, cf2, True))))
     else if op = STORE then
       bind_run (fetch_2bytes ci cf1) (\<lambda>(index, cf2).
       bind_run (Stack_Pop ks) (\<lambda>(ob, ks1).
       bind_run (store (ko_vm ko) cf2 index ob) (\<lambda>(vm1, cf3). Inr (ko\<lparr>ko_vm := vm1\<rparr>, ks1, cf3, True))))
     else if op = LOAD_FIELD then
       bind_run (fetch_2bytes ci cf1) (\<lambda>(index, cf2).
       bind_run (Tuple_Get (ko_vm ko) pool index) (\<lambda>name.
       bind_run (Stack_Pop ks) (\<lambda>(ob, ks1).
       bind_run (load_field ko ob name) (\<lambda>ret.
       bind_run (vm_decref (ko_vm ko) ob) (\<lambda>vm1.
       bind_run (push_held (ko\<lparr>ko_vm := vm1\<rparr>) ks1 ret) (\<lambda>(ko1, ks2). Inr (ko1, ks2, cf2, True)))))))
     else if op = CALL then
       bind_run (fetch_byte ci cf1) (\<lambda>(argc, cf2).
       bind_run (fetch_2bytes ci cf2) (\<lambda>(index, cf3).
       bind_run (Tuple_Get (ko_vm ko) pool index) (\<lambda>name.
         Inr (ko\<lparr>ko_vm := snd (Tuple_New (ko_vm ko) (unat argc))\<rparr>, ks, cf3, True))))
     else if op = RETURN then
       bind_run (pop_frame ko ks cf1) (\<lambda>(ko1, ks1). Inr (ko1, ks1, cf1, False))
     else Inl Assert_Failed))"

text \<open>The code of the frame stays as it is until it is freed.\<close>

definition code_kept :: "Vm \<Rightarrow> Vm \<Rightarrow> bool" where
  "code_kept vm vm' \<longleftrightarrow> (\<forall>a ci. kcode_info vm a = Inr ci \<longrightarrow> kcode_info vm' a = Inr ci \<or> (\<exists>e. kcode_info vm' a = Inl e))"

lemma kcode_info_data: "kcode_info vm code = Inr ci \<longleftrightarrow>
    (\<exists>a co. code = Some a \<and> data_at vm a = Some (CodeOb co) \<and> vc_kind co = KCODE_KIND ci)"
proof (cases code)
  case None
  then show ?thesis by (simp add: kcode_info_def code_ob_def ob_deref_def)
next
  case (Some a)
  have "(case vc_kind b of KCODE_KIND ci \<Rightarrow> Inr ci | CFUNC_KIND f \<Rightarrow> Inl Out_Of_Bounds) = (Inr ci :: CodeInfo run) \<longleftrightarrow> vc_kind b = KCODE_KIND ci" for b
    by (cases "vc_kind b") simp_all
  with Some show ?thesis by (auto simp: kcode_info_def ob_data_at)
qed

lemma code_kept_refl [simp]: "code_kept vm vm"
  by (simp add: code_kept_def)

lemma data_kept_code: "data_kept vm vm' \<Longrightarrow> code_kept vm vm'"
  unfolding code_kept_def
proof (intro allI impI)
  fix a ci assume k: "data_kept vm vm'" and i: "kcode_info vm a = Inr ci"
  show "kcode_info vm' a = Inr ci \<or> (\<exists>e. kcode_info vm' a = Inl e)"
  proof (cases "kcode_info vm' a")
    case (Inr cj)
    then obtain b co where b: "a = Some b" "data_at vm' b = Some (CodeOb co)" "vc_kind co = KCODE_KIND cj"
      by (auto simp: kcode_info_data)
    then obtain x where x: "vm_at vm' b = Some x" "vo_data x = CodeOb co" by (auto simp: data_at_def)
    with k obtain y where "vm_at vm b = Some y" "vo_data y = vo_data x" unfolding data_kept_def by blast
    with x(2) have "data_at vm b = Some (CodeOb co)" by (simp add: data_at_def)
    with i b Inr show ?thesis by (auto simp: kcode_info_data)
  qed simp
qed

lemma incref_data_kept: "vm_incref vm ob = Inr vm' \<Longrightarrow> data_kept vm vm'"
  by (auto simp: vm_incref_def ob_deref_Inr data_kept_count)

lemma decref_data_kept: "vm_decref vm ob = Inr vm' \<Longrightarrow> data_kept vm vm'"
  unfolding vm_decref_def by (rule release_kept)

lemma push_held_kept: "push_held ko ks ob = Inr (ko1, ks1) \<Longrightarrow>
    data_kept (ko_vm ko) (ko_vm ko1) \<and> ks_frame ks1 = ks_frame ks"
  by (auto simp: push_held_def Stack_Push_def incref_data_kept split: if_splits)

lemma pop_frames: "Stack_Pop ks = Inr (ob, ks1) \<Longrightarrow> ks_frame ks1 = ks_frame ks"
  by (auto simp: Stack_Pop_def split: if_splits list.splits)

text \<open>The frame after a round: the same code, object and arguments, further on.\<close>

definition frame_on :: "CallFrame \<Rightarrow> CallFrame \<Rightarrow> bool" where
  "frame_on cf cf' \<longleftrightarrow> cf_code cf' = cf_code cf \<and> cf_size cf' = cf_size cf \<and> length (cf_locvars cf') = length (cf_locvars cf) \<and>
     cf_index cf < cf_index cf'"

lemma frame_on_trans: "frame_on a b \<Longrightarrow> frame_on b c \<Longrightarrow> frame_on a c"
  by (simp add: frame_on_def)

lemma fetch_on:
  "NEXT_CODE ci cf = Inr (b, cf') \<Longrightarrow> frame_on cf cf'"
  "fetch_byte ci cf = Inr (b, cf') \<Longrightarrow> frame_on cf cf' \<and> cf_index cf < ci_size ci"
  "fetch_2bytes ci cf = Inr (n, cf') \<Longrightarrow> frame_on cf cf'"
proof -
  show 1: "NEXT_CODE ci cf = Inr (b, cf') \<Longrightarrow> frame_on cf cf'" for cf cf' b
    by (auto simp: NEXT_CODE_def frame_on_def Let_def split: option.splits if_splits)
  show "fetch_byte ci cf = Inr (b, cf') \<Longrightarrow> frame_on cf cf' \<and> cf_index cf < ci_size ci"
    using 1 by (auto simp: fetch_byte_def split: if_splits)
  show "fetch_2bytes ci cf = Inr (n, cf') \<Longrightarrow> frame_on cf cf'"
    by (auto simp: fetch_2bytes_def split: if_splits dest!: 1 intro: frame_on_trans)
qed

lemma store_on: "store vm cf index val = Inr (vm1, cf1) \<Longrightarrow> data_kept vm vm1 \<and> (\<forall>cf0. frame_on cf0 cf1 \<longleftrightarrow> frame_on cf0 cf)"
  by (auto simp: store_def set_locvar_def decref_data_kept frame_on_def split: if_splits)

lemma new_tuple_code: "code_kept vm (snd (Tuple_New vm n))"
  unfolding code_kept_def
proof (intro allI impI)
  fix a ci assume "kcode_info vm a = Inr ci"
  then obtain b co where b: "a = Some b" "data_at vm b = Some (CodeOb co)" "vc_kind co = KCODE_KIND ci" by (auto simp: kcode_info_data)
  then have "b \<noteq> length (vm_objs vm)" using data_at_new(2) [of vm] by auto
  with b have "kcode_info (snd (Tuple_New vm n)) a = Inr ci" by (simp add: kcode_info_data Tuple_New_def data_at_new(1))
  then show "kcode_info (snd (Tuple_New vm n)) a = Inr ci \<or> (\<exists>e. kcode_info (snd (Tuple_New vm n)) a = Inl e)" by blast
qed

lemma eval_step_on:
  assumes "eval_step pool ko ks cf = Inr (ko1, ks1, cf1, loopflag)"
  shows "frame_on cf cf1 \<and> (\<exists>ci. kcode_info (ko_vm ko) (cf_code cf) = Inr ci \<and> cf_index cf < ci_size ci) \<and>
    (if loopflag then code_kept (ko_vm ko) (ko_vm ko1) \<and> ks_frame ks1 = ks_frame ks else pop_frame ko ks cf1 = Inr (ko1, ks1))"
proof -
  obtain ci op cf2 where 1: "kcode_info (ko_vm ko) (cf_code cf) = Inr ci" "fetch_byte ci cf = Inr (op, cf2)"
    using assms by (auto simp: eval_step_def)
  note on = fetch_on(2) [OF 1(2)]
  note ops = opcode_defs
  consider "op \<in> {POP_TOP, POP_TOPN, STORE_FIELD, JMP, NEW}" | "op = LOAD_CONST" | "op = LOAD_op" | "op = STORE" | "op = LOAD_FIELD"
    | "op = CALL" | "op = RETURN" | "op \<notin> {POP_TOP, POP_TOPN, STORE_FIELD, JMP, NEW, LOAD_CONST, LOAD_op, STORE, LOAD_FIELD, CALL, RETURN}"
    by blast
  then have "frame_on cf cf1 \<and>
    (if loopflag then code_kept (ko_vm ko) (ko_vm ko1) \<and> ks_frame ks1 = ks_frame ks else pop_frame ko ks cf1 = Inr (ko1, ks1))"
  proof cases
    case 1
    with assms \<open>fetch_byte ci cf = _\<close> \<open>kcode_info _ _ = _\<close> on show ?thesis by (simp add: eval_step_def ops)
  qed (use assms 1 on in \<open>auto simp: eval_step_def ops new_tuple_code intro: frame_on_trans data_kept_code [OF data_kept_trans] data_kept_code
      dest!: fetch_on(2,3) push_held_kept pop_frames store_on decref_data_kept\<close>)
  with 1 on show ?thesis by blast
qed


text \<open>Every round goes on in the code, so the loop ends.\<close>

definition code_left :: "Koala \<Rightarrow> CallFrame \<Rightarrow> nat" where
  "code_left ko cf = (case kcode_info (ko_vm ko) (cf_code cf) of Inl e \<Rightarrow> 0 | Inr ci \<Rightarrow> Suc (nat (ci_size ci - cf_index cf)))"

lemma eval_step_less:
  assumes "eval_step pool ko ks cf = Inr (ko1, ks1, cf1, True)"
  shows "code_left ko1 cf1 < code_left ko cf"
proof -
  note on = eval_step_on [OF assms, simplified]
  obtain ci where ci: "kcode_info (ko_vm ko) (cf_code cf) = Inr ci" "cf_index cf < ci_size ci" using on by blast
  then have "kcode_info (ko_vm ko1) (cf_code cf) = Inr ci \<or> (\<exists>e. kcode_info (ko_vm ko1) (cf_code cf) = Inl e)"
    using on by (simp add: code_kept_def)
  with on ci show ?thesis by (auto simp: code_left_def frame_on_def)
qed

function eval_frame :: "nat option \<Rightarrow> Koala \<Rightarrow> KoalaState \<Rightarrow> CallFrame \<Rightarrow> (Koala \<times> KoalaState) run" where
  "eval_frame pool ko ks cf = (case eval_step pool ko ks cf of
     Inl e \<Rightarrow> Inl e
   | Inr (ko1, ks1, cf1, loopflag) \<Rightarrow> if loopflag then eval_frame pool ko1 ks1 cf1 else Inr (ko1, ks1))"
  by pat_completeness auto
termination
  by (relation "measure (\<lambda>(pool, ko, ks, cf). code_left ko cf)") (auto intro: eval_step_less)

declare eval_frame.simps [simp del]

subsection \<open>Calls\<close>

definition check_arguments :: "Vm \<Rightarrow> CallFrame \<Rightarrow> unit run" where
  "check_arguments vm cf = bind_run (Tuple_Size vm (cf_args cf)) (\<lambda>sz. bind_run (Code_Get_Argc vm (cf_code cf)) (\<lambda>argc.
     if sz < argc then Inl Exited else Inr ()))"

fun store_kargs :: "Vm \<Rightarrow> CallFrame \<Rightarrow> nat list \<Rightarrow> (Vm \<times> CallFrame) run" where
  "store_kargs vm cf [] = Inr (vm, cf)"
| "store_kargs vm cf (i # is) =
     bind_run (Tuple_Get vm (cf_args cf) (int i)) (\<lambda>ob.
     bind_run (vm_incref vm ob) (\<lambda>vm1.
     bind_run (set_locvar cf (i + 1) ob) (\<lambda>cf1. store_kargs vm1 cf1 is)))"

definition prepare_kargs :: "Vm \<Rightarrow> CallFrame \<Rightarrow> (Vm \<times> CallFrame) run" where
  "prepare_kargs vm cf = bind_run (vm_incref vm (cf_ob cf)) (\<lambda>vm1. bind_run (set_locvar cf 0 (cf_ob cf)) (\<lambda>cf1.
     if cf_args cf = None then Inr (vm1, cf1)
     else bind_run (ob_deref vm1 (cf_args cf)) (\<lambda>(_, x). case vo_data x of
       TupleObject avail vs \<Rightarrow> store_kargs vm1 cf1 [0 ..< length vs]
     | _ \<Rightarrow> bind_run (vm_incref vm1 (cf_args cf)) (\<lambda>vm2. bind_run (set_locvar cf1 1 (cf_args cf)) (\<lambda>cf2. Inr (vm2, cf2))))))"

definition run_kfunction :: "Koala \<Rightarrow> KoalaState \<Rightarrow> CallFrame \<Rightarrow> (Koala \<times> KoalaState) run" where
  "run_kfunction ko ks cf = bind_run (
       if cf_index cf < 0 then bind_run (check_arguments (ko_vm ko) cf) (\<lambda>_. prepare_kargs (ko_vm ko) cf) else Inr (ko_vm ko, cf)) (\<lambda>(vm1, cf1).
     bind_run (kcode_info vm1 (cf_code cf1)) (\<lambda>ci. eval_frame (ci_consts ci) (ko\<lparr>ko_vm := vm1\<rparr>) ks cf1))"

text \<open>
  The C functions are a parameter, by their addresses: each is given the object and the arguments, and
  may change everything but the frames and the stack of the task.
\<close>

type_synonym natives = "addr \<Rightarrow> nat option \<Rightarrow> nat option \<Rightarrow> Koala \<Rightarrow> (nat option \<times> Koala) run"

fun push_results :: "Koala \<Rightarrow> KoalaState \<Rightarrow> nat option \<Rightarrow> nat list \<Rightarrow> (Koala \<times> KoalaState) run" where
  "push_results ko ks ret [] = Inr (ko, ks)"
| "push_results ko ks ret (i # is) = bind_run (Tuple_Get (ko_vm ko) ret (int i)) (\<lambda>ob.
     bind_run (push_held ko ks ob) (\<lambda>(ko1, ks1). push_results ko1 ks1 ret is))"

text \<open>A result that is not a tuple is given to \<open>Tuple_Free\<close> too.\<close>

definition save_result :: "Koala \<Rightarrow> KoalaState \<Rightarrow> nat option \<Rightarrow> (Koala \<times> KoalaState) run" where
  "save_result ko ks ret = (if ret = None then Inr (ko, ks)
     else bind_run (ob_deref (ko_vm ko) ret) (\<lambda>(_, x).
       bind_run (case vo_data x of TupleObject avail vs \<Rightarrow> push_results ko ks ret (rev [0 ..< length vs]) | _ \<Rightarrow> push_held ko ks ret) (\<lambda>(ko1, ks1).
       bind_run (Tuple_Free (ko_vm ko1) ret) (\<lambda>vm2. Inr (ko1\<lparr>ko_vm := vm2\<rparr>, ks1)))))"

definition run_cfunction :: "natives \<Rightarrow> Koala \<Rightarrow> KoalaState \<Rightarrow> CallFrame \<Rightarrow> addr \<Rightarrow> (Koala \<times> KoalaState) run" where
  "run_cfunction cfuncs ko ks cf cfunc = bind_run (check_arguments (ko_vm ko) cf) (\<lambda>_.
     bind_run (cfuncs cfunc (cf_ob cf) (cf_args cf) ko) (\<lambda>(ret, ko1).
     bind_run (save_result ko1 ks ret) (\<lambda>(ko2, ks2). pop_frame ko2 ks2 cf)))"

definition run_frame :: "natives \<Rightarrow> Koala \<Rightarrow> KoalaState \<Rightarrow> CallFrame \<Rightarrow> (Koala \<times> KoalaState) run" where
  "run_frame cfuncs ko ks cf = bind_run (code_ob (ko_vm ko) (cf_code cf)) (\<lambda>(_, co). case vc_kind co of
     KCODE_KIND ci \<Rightarrow> run_kfunction ko ks cf
   | CFUNC_KIND f \<Rightarrow> run_cfunction cfuncs ko ks cf f)"

text \<open>A call that returns has popped one frame.\<close>

lemma eval_frame_pops: "eval_frame pool ko ks cf = Inr (ko', ks') \<Longrightarrow> ks_frame ks' = tl (ks_frame ks)"
proof (induction pool ko ks cf rule: eval_frame.induct)
  case (1 pool ko ks cf)
  then obtain ko1 ks1 cf1 loopflag where 2: "eval_step pool ko ks cf = Inr (ko1, ks1, cf1, loopflag)"
    by (auto simp: eval_frame.simps [of pool ko ks cf] split: sum.splits)
  note on = eval_step_on [OF 2]
  show ?case
  proof (cases loopflag)
    case True
    with 1 2 on show ?thesis by (simp add: eval_frame.simps [of pool ko ks cf])
  next
    case False
    with 1(2) 2 on show ?thesis by (auto simp: eval_frame.simps [of pool ko ks cf] pop_frame_def)
  qed
qed

lemma push_results_frames: "push_results ko ks ret is = Inr (ko', ks') \<Longrightarrow> ks_frame ks' = ks_frame ks"
  by (induction ko ks ret "is" rule: push_results.induct) (auto dest!: push_held_kept)

lemma save_result_frames:
  assumes "save_result ko ks ret = Inr (ko', ks')"
  shows "ks_frame ks' = ks_frame ks"
proof (cases "ret = None")
  case False
  then obtain a x ko1 where "ob_deref (ko_vm ko) ret = Inr (a, x)"
    "(case vo_data x of TupleObject avail vs \<Rightarrow> push_results ko ks ret (rev [0 ..< length vs]) | _ \<Rightarrow> push_held ko ks ret) = Inr (ko1, ks')"
    using assms by (auto simp: save_result_def)
  then show ?thesis by (cases "vo_data x") (auto dest: push_results_frames push_held_kept)
qed (use assms in \<open>simp add: save_result_def\<close>)

lemma run_frame_pops:
  assumes "run_frame cfuncs ko ks cf = Inr (ko', ks')"
  shows "ks_frame ks' = tl (ks_frame ks)"
proof -
  obtain a co where "code_ob (ko_vm ko) (cf_code cf) = Inr (a, co)" using assms by (auto simp: run_frame_def)
  with assms show ?thesis
    by (cases "vc_kind co")
      (auto simp: run_frame_def run_kfunction_def run_cfunction_def pop_frame_def dest!: eval_frame_pops save_result_frames)
qed

function run_frames :: "natives \<Rightarrow> Koala \<Rightarrow> KoalaState \<Rightarrow> (Koala \<times> KoalaState) run" where
  "run_frames cfuncs ko ks = (case ks_frame ks of
     [] \<Rightarrow> Inr (ko, ks)
   | cf # cfs \<Rightarrow> (case run_frame cfuncs ko ks cf of Inl e \<Rightarrow> Inl e | Inr (ko1, ks1) \<Rightarrow> run_frames cfuncs ko1 ks1))"
  by pat_completeness auto
termination
  by (relation "measure (\<lambda>(cfuncs, ko, ks). length (ks_frame ks))") (auto dest: run_frame_pops)

declare run_frames.simps [simp del]

definition Koala_RunCode :: "natives \<Rightarrow> Koala \<Rightarrow> KoalaState \<Rightarrow> nat option \<Rightarrow> nat option \<Rightarrow> nat option \<Rightarrow> (Koala \<times> KoalaState) run" where
  "Koala_RunCode cfuncs ko ks code ob args = bind_run (push_frame ko ks code ob args) (\<lambda>ks1. run_frames cfuncs ko ks1)"


subsection \<open>Calls do not return\<close>

text \<open>The size of a frame counts bytes, and freeing it takes it for the number of the local variables.\<close>

definition frame_long :: "CallFrame \<Rightarrow> bool" where
  "frame_long cf \<longleftrightarrow> int (length (cf_locvars cf)) < cf_size cf"

lemma free_locvars_beyond: "i \<in> set is \<Longrightarrow> length locs \<le> i \<Longrightarrow> \<exists>e. free_locvars vm locs is = Inl e"
proof (induction vm locs "is" rule: free_locvars.induct)
  case (2 vm locs j js)
  then show ?case by (cases "vm_decref vm (locs ! j)") auto
qed simp

lemma pop_frame_fails:
  assumes "frame_long cf"
  shows "\<exists>e. pop_frame ko ks cf = Inl e"
proof -
  have "length (cf_locvars cf) \<in> set [0 ..< nat (cf_size cf)]" using assms by (simp add: frame_long_def)
  from free_locvars_beyond [OF this order_refl, of "ko_vm ko"] show ?thesis by (auto simp: pop_frame_def free_frame_def)
qed

lemma frame_long_on: "frame_on cf cf' \<Longrightarrow> frame_long cf' \<longleftrightarrow> frame_long cf"
  by (simp add: frame_on_def frame_long_def)

lemma eval_frame_fails: "frame_long cf \<Longrightarrow> \<exists>e. eval_frame pool ko ks cf = Inl e"
proof (induction pool ko ks cf rule: eval_frame.induct)
  case (1 pool ko ks cf)
  show ?case
  proof (cases "eval_step pool ko ks cf")
    case (Inl e)
    then show ?thesis by (simp add: eval_frame.simps [of pool ko ks cf])
  next
    case (Inr r)
    obtain ko1 ks1 cf1 loopflag where r: "r = (ko1, ks1, cf1, loopflag)" by (cases r)
    note step = Inr [unfolded r]
    note on = eval_step_on [OF step]
    have long: "frame_long cf1" using frame_long_on 1(2) on by blast
    have loopflag using on pop_frame_fails [OF long, of ko ks] by (cases loopflag) auto
    with 1(1) [OF step] long step show ?thesis by (simp add: eval_frame.simps [of pool ko ks cf])
  qed
qed

lemma set_locvar_long: "set_locvar cf i val = Inr cf' \<Longrightarrow> frame_long cf' \<longleftrightarrow> frame_long cf"
  by (auto simp: set_locvar_def frame_long_def split: if_splits)

lemma store_kargs_long: "store_kargs vm cf is = Inr (vm', cf') \<Longrightarrow> frame_long cf' \<longleftrightarrow> frame_long cf"
  by (induction vm cf "is" rule: store_kargs.induct) (auto dest!: set_locvar_long)

lemma prepare_kargs_long:
  assumes "prepare_kargs vm cf = Inr (vm', cf')"
  shows "frame_long cf' \<longleftrightarrow> frame_long cf"
proof -
  obtain vm1 cf1 where 1: "set_locvar cf 0 (cf_ob cf) = Inr cf1"
    "(if cf_args cf = None then Inr (vm1, cf1)
     else bind_run (ob_deref vm1 (cf_args cf)) (\<lambda>(_, x). case vo_data x of
       TupleObject avail vs \<Rightarrow> store_kargs vm1 cf1 [0 ..< length vs]
     | _ \<Rightarrow> bind_run (vm_incref vm1 (cf_args cf)) (\<lambda>vm2. bind_run (set_locvar cf1 1 (cf_args cf)) (\<lambda>cf2. Inr (vm2, cf2))))) = Inr (vm', cf')"
    using assms by (auto simp: prepare_kargs_def)
  have "frame_long cf' \<longleftrightarrow> frame_long cf1"
  proof (cases "cf_args cf = None")
    case False
    with 1(2) obtain a x where "ob_deref vm1 (cf_args cf) = Inr (a, x)" by (cases "ob_deref vm1 (cf_args cf)") auto
    with 1(2) False have "(case vo_data x of
       TupleObject avail vs \<Rightarrow> store_kargs vm1 cf1 [0 ..< length vs]
     | _ \<Rightarrow> bind_run (vm_incref vm1 (cf_args cf)) (\<lambda>vm2. bind_run (set_locvar cf1 1 (cf_args cf)) (\<lambda>cf2. Inr (vm2, cf2)))) = Inr (vm', cf')"
      by simp
    then show ?thesis by (cases "vo_data x") (auto dest: store_kargs_long set_locvar_long)
  qed (use 1 in simp)
  with set_locvar_long [OF 1(1)] show ?thesis by simp
qed

lemma run_frame_fails:
  assumes "frame_long cf"
  shows "\<exists>e. run_frame cfuncs ko ks cf = Inl e"
proof (rule ccontr)
  assume "\<not> ?thesis"
  then obtain ko' ks' where r: "run_frame cfuncs ko ks cf = Inr (ko', ks')" by (cases "run_frame cfuncs ko ks cf") auto
  then obtain a co where co: "code_ob (ko_vm ko) (cf_code cf) = Inr (a, co)" by (auto simp: run_frame_def)
  show False
  proof (cases "vc_kind co")
    case (KCODE_KIND ci)
    with r co have "run_kfunction ko ks cf = Inr (ko', ks')" by (simp add: run_frame_def)
    then obtain r where p: "(if cf_index cf < 0 then bind_run (check_arguments (ko_vm ko) cf) (\<lambda>_. prepare_kargs (ko_vm ko) cf)
        else Inr (ko_vm ko, cf)) = Inr r" and e: "(case r of (vm1, cf1) \<Rightarrow>
        bind_run (kcode_info vm1 (cf_code cf1)) (\<lambda>ci. eval_frame (ci_consts ci) (ko\<lparr>ko_vm := vm1\<rparr>) ks cf1)) = Inr (ko', ks')"
      unfolding run_kfunction_def bind_run_eq_Inr_iff by blast
    obtain vm1 cf1 where rr: "r = (vm1, cf1)" by (cases r)
    from e rr obtain pool where 1: "eval_frame pool (ko\<lparr>ko_vm := vm1\<rparr>) ks cf1 = Inr (ko', ks')" by auto
    from p rr have "cf1 = cf \<or> prepare_kargs (ko_vm ko) cf = Inr (vm1, cf1)" by (auto split: if_splits)
    then have "frame_long cf1" using assms prepare_kargs_long by blast
    with 1 eval_frame_fails [of cf1 pool "ko\<lparr>ko_vm := vm1\<rparr>" ks] show False by simp
  next
    case (CFUNC_KIND f)
    with r co obtain ko2 ks2 where "pop_frame ko2 ks2 cf = Inr (ko', ks')" by (auto simp: run_frame_def run_cfunction_def)
    with pop_frame_fails [OF assms, of ko2 ks2] show False by simp
  qed
qed



subsection \<open>Constants come from the pool\<close>

text \<open>Rounds of the loop.\<close>

inductive eval_reach :: "nat option \<Rightarrow> Koala \<times> KoalaState \<times> CallFrame \<Rightarrow> Koala \<times> KoalaState \<times> CallFrame \<Rightarrow> bool" for pool where
  here: "eval_reach pool st st"
| there: "eval_step pool ko ks cf = Inr (ko1, ks1, cf1, True) \<Longrightarrow> eval_reach pool (ko1, ks1, cf1) st \<Longrightarrow> eval_reach pool (ko, ks, cf) st"

lemma eval_reach_frame: "eval_reach pool s s' \<Longrightarrow>
    (case s of (ko, ks, cf) \<Rightarrow> eval_frame pool ko ks cf) = (case s' of (ko, ks, cf) \<Rightarrow> eval_frame pool ko ks cf)"
proof (induction rule: eval_reach.induct)
  case (there ko ks cf ko1 ks1 cf1 st)
  then show ?case by (simp add: eval_frame.simps [of pool ko ks cf])
qed simp

lemma NEXT_CODE_nth: "ci_codes ci = Some codes \<Longrightarrow> cf_index cf = int n - 1 \<Longrightarrow> n < length codes \<Longrightarrow>
    NEXT_CODE ci cf = Inr (codes ! n, cf\<lparr>cf_index := int n\<rparr>)"
  by (simp add: NEXT_CODE_def)

lemma load_const_step:
  assumes "kcode_info (ko_vm ko) (cf_code cf) = Inr ci" "ci_codes ci = Some (pre @ LOAD_CONST # le_bytes 2 ix @ post)"
    and "ci_size ci = int (length (pre @ LOAD_CONST # le_bytes 2 ix @ post))" "cf_index cf = int (length pre) - 1"
    and "data_at (ko_vm ko) t = Some (TupleObject av vs)" "0 \<le> ix" "ix < 65536" "nat ix < length vs" "vs ! nat ix = Some a"
    and "data_at (ko_vm ko) a \<noteq> None" "length (ks_stack ks) < MAX_STACK_SIZE"
  shows "\<exists>vm1. eval_step (Some t) ko ks cf = Inr (ko\<lparr>ko_vm := vm1\<rparr>, ks\<lparr>ks_stack := a # ks_stack ks\<rparr>, cf\<lparr>cf_index := cf_index cf + 3\<rparr>, True) \<and>
    data_at vm1 = data_at (ko_vm ko)"
proof -
  let ?codes = "pre @ LOAD_CONST # le_bytes 2 ix @ post" and ?n = "length pre"
  have nth: "?codes ! ?n = LOAD_CONST" "?codes ! Suc ?n = word_of_int ix" "?codes ! Suc (Suc ?n) = word_of_int (ix div 256)"
    by (simp_all add: nth_append numeral_2_eq_2)
  have len: "Suc (Suc ?n) < length ?codes" by simp
  have next0: "NEXT_CODE ci cf = Inr (LOAD_CONST, cf\<lparr>cf_index := int ?n\<rparr>)"
    using NEXT_CODE_nth [OF assms(2,4)] nth(1) by simp
  have next1: "NEXT_CODE ci (cf\<lparr>cf_index := int ?n\<rparr>) = Inr (word_of_int ix, cf\<lparr>cf_index := int (Suc ?n)\<rparr>)"
    using NEXT_CODE_nth [OF assms(2), of "cf\<lparr>cf_index := int ?n\<rparr>" "Suc ?n"] nth(2) by simp
  have next2: "NEXT_CODE ci (cf\<lparr>cf_index := int (Suc ?n)\<rparr>) = Inr (word_of_int (ix div 256), cf\<lparr>cf_index := int (Suc (Suc ?n))\<rparr>)"
    using NEXT_CODE_nth [OF assms(2), of "cf\<lparr>cf_index := int (Suc ?n)\<rparr>" "Suc (Suc ?n)"] nth(3) by simp
  have val: "256 * uint (word_of_int (ix div 256) :: uint8) + uint (word_of_int ix :: uint8) = ix"
    using le_uint_le_bytes [of 2 ix] assms(6,7) by (simp add: numeral_2_eq_2)
  have op: "fetch_byte ci cf = Inr (LOAD_CONST, cf\<lparr>cf_index := int ?n\<rparr>)"
    using next0 assms(3,4) by (simp add: fetch_byte_def)
  have args: "fetch_2bytes ci (cf\<lparr>cf_index := int ?n\<rparr>) = Inr (ix, cf\<lparr>cf_index := int (Suc (Suc ?n))\<rparr>)"
    using next1 next2 val assms(3) by (simp add: fetch_2bytes_def)
  have get: "Tuple_Get (ko_vm ko) (Some t) ix = Inr (Some a)"
    using Tuple_Get_data [OF assms(5), of "nat ix"] assms(6,8,9) by simp
  obtain vm1 where 1: "vm_incref (ko_vm ko) (Some a) = Inr vm1" "data_at vm1 = data_at (ko_vm ko)" using incref_counts [OF assms(10)] by blast
  have push: "push_held ko ks (Some a) = Inr (ko\<lparr>ko_vm := vm1\<rparr>, ks\<lparr>ks_stack := a # ks_stack ks\<rparr>)"
    using 1(1) assms(11) by (simp add: push_held_def Stack_Push_def)
  have "cf_index cf + 3 = int (Suc (Suc ?n))" using assms(4) by simp
  then show ?thesis using assms(1) op args get push 1(2) by (intro exI [of _ vm1]) (simp add: eval_step_def opcode_defs)
qed


text \<open>The object of a value that the compiler loads: an integer or a string.\<close>

definition loadable_value :: "ConstValue \<Rightarrow> bool" where
  "loadable_value v \<longleftrightarrow> cv_kind v = BASE_INT \<or> cv_kind v = BASE_STRING \<and> cv_str v \<noteq> None"

definition value_ob :: "Vm \<Rightarrow> nat \<Rightarrow> ConstValue \<Rightarrow> bool" where
  "value_ob vm a v \<longleftrightarrow> (if cv_kind v = BASE_INT then data_at vm a = Some (IntObject (cv_raw v))
     else \<exists>so. data_at vm a = Some (StrObject so) \<and> so_str so = cstr (the (cv_str v)))"

lemma base_kinds: "BASE_INT \<noteq> BASE_STRING" "BASE_INT \<noteq> BASE_CHAR" "BASE_CHAR \<noteq> BASE_STRING"
  by (simp_all add: BASE_INT_def BASE_STRING_def BASE_CHAR_def)

lemma ci_index_New:
  assumes "0 \<le> j" "j < 2147483648"
  shows "ci_index (ConstItem_String_New j) = j" "ci_type (ConstItem_String_New j) = CONST_STRING"
proof -
  have "(ucast (ucast w :: uint64) :: uint32) = w" for w :: uint32 by (rule bit_word_eqI) (simp add: bit_ucast_iff)
  moreover have "sint (word_of_int j :: uint32) = j" using assms by (simp add: signed_of_int signed_take_bit_int_eq_self)
  ultimately show "ci_index (ConstItem_String_New j) = j" by (simp add: ConstItem_String_New_def ConstItem_New_def ci_index_def)
qed (simp add: ConstItem_String_New_def ConstItem_New_def)

lemma value_const:
  assumes "base_ok (im_store img)" "int (length (its (im_store img) ITEM_STRING)) < 2147483648" "KImage_Get_Consts img = Inr cs"
    and "value_at (im_store img) ix v" "loadable_value v"
  shows "0 \<le> ix" "nat ix < length cs" "const_ob vm a (cs ! nat ix) \<Longrightarrow> value_ob vm a v"
proof -
  let ?st = "im_store img" and ?k = "nat ix"
  note nth = Get_Consts_nth [OF assms(1,3)]
  have "\<exists>c b. const_at ?st ix c \<and> its ?st ITEM_CONST ! ?k = ConstI b \<and> constitem_equal b c = Inr True \<and>
      (if cv_kind v = BASE_INT then c = ConstItem_Int_New (cv_ival v)
       else \<exists>j. string_at ?st j (the (cv_str v)) \<and> c = ConstItem_String_New j)"
  proof (cases "cv_kind v = BASE_INT")
    case True
    with assms(4) show ?thesis by (auto simp: value_at_def const_at_def)
  next
    case False
    with assms(4,5) base_kinds obtain j where "string_at ?st j (the (cv_str v))" "const_at ?st ix (ConstItem_String_New j)"
      by (auto simp: value_at_def name_at_def loadable_value_def)
    moreover from this obtain b where "its ?st ITEM_CONST ! ?k = ConstI b" "constitem_equal b (ConstItem_String_New j) = Inr True"
      by (auto simp: const_at_def)
    ultimately show ?thesis using False by (intro exI [of _ "ConstItem_String_New j"] exI [of _ b]) auto
  qed
  then obtain c b where c: "const_at ?st ix c" "its ?st ITEM_CONST ! ?k = ConstI b" "constitem_equal b c = Inr True"
    "if cv_kind v = BASE_INT then c = ConstItem_Int_New (cv_ival v) else \<exists>j. string_at ?st j (the (cv_str v)) \<and> c = ConstItem_String_New j" by blast
  show ix: "0 \<le> ix" "?k < length cs" using c(1) nth(1) by (auto simp: const_at_def)
  obtain t t' where get: "const_get (is_table ?st) ix t = Inr (cs ! ?k, t')" using nth(2) [OF ix(2)] ix(1) by auto
  have item: "item_get (is_table ?st) ITEM_CONST ix = Inr (ConstI b)"
    using item_get_ok [OF assms(1), of ITEM_CONST ix] ix nth(1) c(2) by (simp add: item_types)
  show "value_ob vm a v" if ob: "const_ob vm a (cs ! ?k)"
  proof (cases "cv_kind v = BASE_INT")
    case True
    with c(3,4) have "ci_type b = CONST_INT" "sint (ci_raw b) = sint (cv_raw v)"
      by (auto simp: constitem_equal_def ConstItem_Int_New_def ConstItem_New_def ci_ival_def cv_ival_def const_types split: if_splits)
    moreover from this have "ci_raw b = cv_raw v" using signed_word_eqI by blast
    ultimately have "ci_type b = CONST_INT" "ci_raw b = cv_raw v" by simp_all
    with get item have "cs ! ?k = (CONST_INT, Union (cv_raw v), ix)" by (simp add: const_get_def const_types)
    with ob True show ?thesis by (simp add: const_ob_def value_ob_def)
  next
    case False
    with c(4) obtain j where j: "string_at ?st j (the (cv_str v))" "c = ConstItem_String_New j" by auto
    have "0 \<le> j" "j < 2147483648" using j(1) assms(2) by (auto simp: string_at_def)
    note cj = ci_index_New [OF this, folded j(2)]
    from cj c(3) have "ci_type b = CONST_STRING" "ci_index b = j" by (auto simp: constitem_equal_def const_types split: if_splits)
    moreover obtain x where "string_get (is_table ?st) j = Inr x" "cstr x = cstr (the (cv_str v))"
      using string_get_at [OF assms(1) j(1)] by blast
    ultimately have "cs ! ?k = (CONST_STRING, Chars x, ix)" "cstr x = cstr (the (cv_str v))" using get item by (simp_all add: const_get_def)
    with ob False show ?thesis by (simp add: const_ob_def value_ob_def)
  qed
qed

text \<open>
  C5: the code of constants pushes them. Let the pool \<open>t\<close> of a function be the tuple of the constants \<open>cs\<close>
  of an image, of at most 65536 constants, and let its code, where the frame is, be what was generated for
  instructions that load integers and strings, no more than fit on the stack. Then the interpreter reaches
  the end of that code with the objects of these values on the stack, in order; every object keeps its data.
\<close>

theorem constants_run:
  assumes "base_ok (im_store img)" "int (length (its (im_store img) ITEM_STRING)) < 2147483648"
    and "KImage_Get_Consts img = Inr cs" "length cs \<le> 65536"
    and "list_all2 (inst_code (im_store img)) is bss" "\<forall>i \<in> set is. in_op i = LOAD_CONST \<and> loadable_value (in_arg i)"
    and "data_at (ko_vm ko) t = Some (TupleObject 0 (map Some obs))" "list_all2 (const_ob (ko_vm ko)) obs cs"
    and "kcode_info (ko_vm ko) (cf_code cf) = Inr ci" "ci_codes ci = Some (pre @ concat bss @ post)"
    and "ci_size ci = int (length (pre @ concat bss @ post))" "cf_index cf = int (length pre) - 1"
    and "length (ks_stack ks) + length is \<le> MAX_STACK_SIZE"
  shows "\<exists>vm' vals. eval_reach (Some t) (ko, ks, cf)
      (ko\<lparr>ko_vm := vm'\<rparr>, ks\<lparr>ks_stack := rev vals @ ks_stack ks\<rparr>, cf\<lparr>cf_index := cf_index cf + int (length (concat bss))\<rparr>) \<and>
    data_at vm' = data_at (ko_vm ko) \<and> list_all2 (\<lambda>a i. value_ob vm' a (in_arg i)) vals is"
  using assms(5-)
proof (induction "is" arbitrary: bss ko ks cf pre)
  case Nil
  then have "bss = []" by simp
  then show ?case by (intro exI [of _ "ko_vm ko"] exI [of _ "[]"]) (simp add: eval_reach.here)
next
  case (Cons i js)
  obtain bs bss' where b: "bss = bs # bss'" "inst_code (im_store img) i bs" "list_all2 (inst_code (im_store img)) js bss'"
    using Cons.prems(1) by (auto simp: list_all2_Cons1)
  have i: "in_op i = LOAD_CONST" "loadable_value (in_arg i)" using Cons.prems(2) by simp_all
  then obtain ix where ix: "bs = LOAD_CONST # le_bytes 2 ix" "value_at (im_store img) ix (in_arg i)" using b(2) by (auto simp: inst_code_def)
  note vc = value_const [OF assms(1-3) ix(2) i(2)]
  have len: "length obs = length cs" using Cons.prems(4) by (rule list_all2_lengthD)
  let ?a = "obs ! nat ix"
  have ob: "const_ob (ko_vm ko) ?a (cs ! nat ix)" using Cons.prems(4) vc(2) len by (simp add: list_all2_conv_all_nth)
  have a: "data_at (ko_vm ko) ?a \<noteq> None" using ob by (auto simp: const_ob_def split: prod.splits ConstData.splits)
  have code: "pre @ concat bss @ post = pre @ LOAD_CONST # le_bytes 2 ix @ (concat bss' @ post)" using b(1) ix(1) by simp
  have small: "ix < 65536" using vc(2) assms(4) by linarith
  obtain vm1 where 1: "eval_step (Some t) ko ks cf =
      Inr (ko\<lparr>ko_vm := vm1\<rparr>, ks\<lparr>ks_stack := ?a # ks_stack ks\<rparr>, cf\<lparr>cf_index := cf_index cf + 3\<rparr>, True)" "data_at vm1 = data_at (ko_vm ko)"
    using load_const_step [OF Cons.prems(5,6)[unfolded code] Cons.prems(7)[unfolded code] Cons.prems(8,3) vc(1) small, of ?a ks] vc(2) a len
      Cons.prems(9) by auto
  let ?ko = "ko\<lparr>ko_vm := vm1\<rparr>" and ?ks = "ks\<lparr>ks_stack := ?a # ks_stack ks\<rparr>" and ?cf = "cf\<lparr>cf_index := cf_index cf + 3\<rparr>"
  have same: "const_ob vm1 = const_ob (ko_vm ko)" unfolding const_ob_def 1(2) by (rule refl)
  have "kcode_info vm1 (cf_code cf) = Inr ci" using Cons.prems(5) 1(2) by (simp add: kcode_info_data)
  then have ih: "data_at (ko_vm ?ko) t = Some (TupleObject 0 (map Some obs))" "list_all2 (const_ob (ko_vm ?ko)) obs cs"
    "kcode_info (ko_vm ?ko) (cf_code ?cf) = Inr ci" "ci_codes ci = Some ((pre @ bs) @ concat bss' @ post)"
    "ci_size ci = int (length ((pre @ bs) @ concat bss' @ post))" "cf_index ?cf = int (length (pre @ bs)) - 1"
    "length (ks_stack ?ks) + length js \<le> MAX_STACK_SIZE" "\<forall>i \<in> set js. in_op i = LOAD_CONST \<and> loadable_value (in_arg i)"
    using Cons.prems b(1) ix(1) 1(2) same by simp_all
  obtain vm' vals where 2: "eval_reach (Some t) (?ko, ?ks, ?cf) (?ko\<lparr>ko_vm := vm'\<rparr>, ?ks\<lparr>ks_stack := rev vals @ ks_stack ?ks\<rparr>,
      ?cf\<lparr>cf_index := cf_index ?cf + int (length (concat bss'))\<rparr>)" "data_at vm' = data_at (ko_vm ?ko)"
    "list_all2 (\<lambda>a i. value_ob vm' a (in_arg i)) vals js"
    using Cons.IH [OF b(3) ih(8) ih(1-7)] by blast
  have "data_at vm' = data_at (ko_vm ko)" using 2(2) 1(2) by simp
  then have "const_ob vm' ?a (cs ! nat ix)" using ob unfolding const_ob_def by (simp only:)
  then have "value_ob vm' ?a (in_arg i)" by (rule vc(3))
  then show ?case
    using eval_reach.there [OF 1(1) 2(1)] 2(2,3) 1(2) b(1) ix(1)
    by (intro exI [of _ vm'] exI [of _ "?a # vals"]) (simp add: algebra_simps)
qed


text \<open>Code that loads the constant 7 twice, of an image that has just this constant.\<close>

definition seven_insts :: "Inst list" where
  "seven_insts = replicate 2 \<lparr>in_bytes = 1, in_argc = 0, in_op = LOAD_CONST, in_arg = int_const 7, in_upbytes = 1\<rparr>"

definition seven_info :: CodeInfo where
  "seven_info = \<lparr>ci_consts = Some 0, ci_locvec = [], ci_size = 7, ci_codes = Some [10, 0, 0, 10, 0, 0, 25]\<rparr>"

definition seven_koala :: Koala where
  "seven_koala = fresh_koala\<lparr>ko_vm := Vm_Init\<lparr>vm_objs := [Some \<lparr>vo_refcnt = 1, vo_data = TupleObject 0 [Some 1]\<rparr>,
     Some \<lparr>vo_refcnt = 1, vo_data = IntObject 7\<rparr>,
     Some \<lparr>vo_refcnt = 1, vo_data = CodeOb \<lparr>vc_name = ''main'', vc_proto = Some (TD_Proto [] []), vc_kind = KCODE_KIND seven_info\<rparr>\<rparr>]\<rparr>\<rparr>"

definition seven_frame :: CallFrame where
  "seven_frame = \<lparr>cf_code = Some 2, cf_ob = None, cf_args = None, cf_index = -1, cf_size = 48, cf_locvars = []\<rparr>"

lemma seven_image:
  obtains img where "base_ok (im_store img)" "its (im_store img) ITEM_STRING = []" "KImage_Get_Consts img = Inr [(CONST_INT, Union 7, 0)]"
    "list_all2 (inst_code (im_store img)) seven_insts [[10, 0, 0], [10, 0, 0]]"
proof -
  let ?st = "im_store (KImage_New None)" and ?c = "ConstItem_Int_New 7"
  have new: "store_ok ?st" "its ?st ITEM_CONST = []" "its ?st ITEM_STRING = []"
    using store_ok_New by (simp_all add: KImage_New_def items_New item_types)
  have "pooled_const ?c" by (simp add: pooled_const_def ConstItem_Int_New_def ConstItem_New_def)
  moreover have "\<not> const_at ?st j c" for j c using new(2) by (simp add: const_at_def)
  ultimately obtain i st where st: "store_ok st" "const_at st i ?c" "\<forall>ty. ty \<noteq> ITEM_CONST \<longrightarrow> its st ty = its ?st ty"
    "length (its st ITEM_CONST) = 1"
    using const_set_spec [OF new(1), of ?c 0] new(2) by auto
  let ?img = "(KImage_New None)\<lparr>im_store := st\<rparr>"
  have i: "i = 0" using st(2,4) by (simp add: const_at_def)
  then obtain b where b: "its st ITEM_CONST ! 0 = ConstI b" "constitem_equal b ?c = Inr True" using st(2) by (auto simp: const_at_def)
  then have "ci_type b = CONST_INT" "sint (ci_raw b) = sint (7 :: uint64)"
    by (auto simp: constitem_equal_def ConstItem_Int_New_def ConstItem_New_def ci_ival_def const_types split: if_splits)
  moreover from this have "ci_raw b = 7" using signed_word_eqI by blast
  moreover have "item_get (is_table st) ITEM_CONST 0 = Inr (ConstI b)"
    using item_get_ok [OF store_ok_base [OF st(1)], of ITEM_CONST 0] st(4) b(1) by (cases "its st ITEM_CONST") (auto simp: item_types)
  ultimately have "KImage_Get_Consts ?img = Inr [(CONST_INT, Union 7, 0)]"
    using Get_Consts_eq(2) [of ?img] store_ok_base [OF st(1)] st(4) by (simp add: const_get_def const_types)
  moreover have "inst_code st (hd seven_insts) [10, 0, 0]"
    using st(2) i by (auto simp: inst_code_def seven_insts_def value_at_def int_const_def cv_ival_def opcode_defs numeral_2_eq_2
      intro!: exI [of _ "0 :: int"])
  then have "list_all2 (inst_code (im_store ?img)) seven_insts [[10, 0, 0], [10, 0, 0]]" by (simp add: seven_insts_def numeral_2_eq_2)
  ultimately show ?thesis using that [of ?img] store_ok_base [OF st(1)] st(3) new(3) by (simp add: item_types)
qed

theorem constants_run_witness:
  "\<exists>vm' a b. eval_reach (Some 0) (seven_koala, New_koalaState, seven_frame)
      (seven_koala\<lparr>ko_vm := vm'\<rparr>, New_koalaState\<lparr>ks_stack := [b, a]\<rparr>, seven_frame\<lparr>cf_index := 5\<rparr>) \<and>
     data_at vm' a = Some (IntObject 7) \<and> data_at vm' b = Some (IntObject 7)"
proof -
  obtain img where img: "base_ok (im_store img)" "its (im_store img) ITEM_STRING = []" "KImage_Get_Consts img = Inr [(CONST_INT, Union 7, 0)]"
    "list_all2 (inst_code (im_store img)) seven_insts [[10, 0, 0], [10, 0, 0]]" by (rule seven_image)
  have d: "data_at (ko_vm seven_koala) 0 = Some (TupleObject 0 (map Some [1]))" "data_at (ko_vm seven_koala) 1 = Some (IntObject 7)"
    "kcode_info (ko_vm seven_koala) (cf_code seven_frame) = Inr seven_info"
    by (simp_all add: data_at_def vm_at_def seven_koala_def kcode_info_data seven_frame_def)
  have 1: "\<forall>i \<in> set seven_insts. in_op i = LOAD_CONST \<and> loadable_value (in_arg i)"
    by (simp add: seven_insts_def loadable_value_def int_const_def)
  have 2: "list_all2 (const_ob (ko_vm seven_koala)) [1] [(CONST_INT, Union 7, 0)]" using d(2) by (simp add: const_ob_def)
  have 3: "ci_codes seven_info = Some ([] @ concat [[10, 0, 0], [10, 0, 0]] @ [25])"
    "ci_size seven_info = int (length ([] @ concat [[10, 0, 0], [10, 0, 0]] @ [25 :: uint8]))" "cf_index seven_frame = int (length ([] :: uint8 list)) - 1"
    "length (ks_stack New_koalaState) + length seven_insts \<le> MAX_STACK_SIZE"
    by (simp_all add: seven_info_def seven_frame_def New_koalaState_def seven_insts_def MAX_STACK_SIZE_def)
  from constants_run [OF img(1) _ img(3) _ img(4) 1 d(1) 2 d(3) 3] img(2) obtain vm' vals where
    r: "eval_reach (Some 0) (seven_koala, New_koalaState, seven_frame) (seven_koala\<lparr>ko_vm := vm'\<rparr>,
      New_koalaState\<lparr>ks_stack := rev vals @ ks_stack New_koalaState\<rparr>, seven_frame\<lparr>cf_index := cf_index seven_frame + int (length (concat [[10, 0, 0], [10, 0, 0 :: uint8]]))\<rparr>)"
    "list_all2 (\<lambda>a i. value_ob vm' a (in_arg i)) vals seven_insts" by auto
  from r(2) obtain a b where v: "vals = [a, b]" "data_at vm' a = Some (IntObject 7)" "data_at vm' b = Some (IntObject 7)"
    by (auto simp: seven_insts_def numeral_2_eq_2 list_all2_Cons2 value_ob_def int_const_def)
  have "cf_index seven_frame + int (length (concat [[10, 0, 0], [10, 0, 0 :: uint8]])) = 5" "rev vals @ ks_stack New_koalaState = [b, a]"
    using v(1) by (simp_all add: seven_frame_def New_koalaState_def)
  from r(1)[unfolded this] v(2,3) show ?thesis by blast
qed

end
