(* ===== verification/Spec2Isabelle.thy ===== *)
theory Spec2Isabelle
  imports HashFunc CList AtomString Buffer Cache Properties StringEx ImageProps SymbolModule TaskQueue Task ObjectRefs PkgTree ParserStmt VmEval
begin

text \<open>
  A verification library for the Koala language (\<^verbatim>\<open>src/\<close>): the containers of its runtime, its type
  descriptors, the image that a package is compiled to, the generator of code, the symbol tables, syntax
  tree and semantic analysis of the compiler, the classes, objects, packages and interpreter of the virtual
  machine, the tree of packages, and the tasks, modelled from the C sources and proved correct.

  \<^bold>\<open>The program and how its parts interact.\<close> The generated grammar calls \<^verbatim>\<open>ast.c\<close>, which makes the
  syntax tree and declares the names of a module in its symbol table (\<^verbatim>\<open>symbol.c\<close>); then \<^verbatim>\<open>parser.c\<close> goes
  through the statements with a stack of scopes, finds what identifiers denote (\<^verbatim>\<open>parser_ident.c\<close>), folds
  constants (\<^verbatim>\<open>parser_operator.c\<close>) and fills code blocks (\<^verbatim>\<open>codegen.c\<close>). \<open>Gen_Image\<close> visits a table and adds what it finds to an
  image (\<^verbatim>\<open>image.c\<close>), whose pools of items are atom tables (\<^verbatim>\<open>atomtable.c\<close>: vectors and one hash table);
  the image is finished, written and read back, and \<open>STable_From_Image\<close> fills the table another module is
  compiled against. Types are descriptors (\<^verbatim>\<open>typedesc.c\<close>), interned by their text in a hash table; names
  are interned in a pool (\<^verbatim>\<open>atomstring.c\<close>); code is gathered in a byte buffer (\<^verbatim>\<open>buffer.c\<close>). At run time
  \<open>Koala_Get_Package\<close> (\<^verbatim>\<open>state.c\<close>) reads an image, makes a package of it (\<^verbatim>\<open>package.c\<close>) and puts it into the
  tree (\<^verbatim>\<open>pkgnode.c\<close>); \<^verbatim>\<open>eval.c\<close> runs the code of its functions on the objects of \<^verbatim>\<open>objects/\<close>.

  \<^bold>\<open>Theories.\<close>
  \<^item> Prelude: C strings, widths, little-endian numbers, runs that may stop at a fault.
  \<^item> HashFunc: \<^verbatim>\<open>hashfunc.c\<close> on 32 and 64 bit words; closed forms, bijectivity.
  \<^item> Vector: \<^verbatim>\<open>vector.c\<close>, on every branch and for every outcome of the allocator.
  \<^item> CList: \<^verbatim>\<open>list.h\<close>, the doubly linked list and the hash chain on explicit stores of pointers;
    both refine lists.
  \<^item> HashTable: \<^verbatim>\<open>hashtable.c\<close>, with its invariant, its growth, and its refinement of an association
    list in the order of insertion (a locale over the keys, interpreted on strings and on what the
    other components store). The chains are lists here; that the pointers of chains behave as lists is
    what CList shows.
  \<^item> StringBuf, StringEx, AtomString, Buffer, Cache, AtomTable, Properties: the files of these names.
  \<^item> TypeDesc: \<^verbatim>\<open>typedesc.c\<close>: constructors, interning, printing, parsing.
  \<^item> ImageItem, ImageTable, ImageStore, ImageSet, ImageType, KImage, ImageDecl, ImageRead, ImageFile,
    ImageSize, ImageProps: \<^verbatim>\<open>image.c\<close>, from single items (with their bytes) over the shared pools to whole
    images and files. \<open>image_rel\<close> relates an image to the list of declarations added to it; ImageSize
    bounds the size of a file by the declarations.
  \<^item> CodeGen: \<^verbatim>\<open>opcode.c\<close>, \<^verbatim>\<open>codegen.c\<close>: the table of opcodes, code blocks, merging, and the bytes of each
    instruction.
  \<^item> NameTable: structs that are hashed by their name; a locale states the contract (lookup, insertion,
    order, distinct names), and the hash table provides it.
  \<^item> Symbol, SymbolGen, SymbolLoad, SymbolModule: \<^verbatim>\<open>symbol.c\<close>: symbol tables, the declarations an image
    gets from a module, and the way back from the file into the table of an importing module.
  \<^item> Ast: \<^verbatim>\<open>ast.h\<close> and the first half of \<^verbatim>\<open>ast.c\<close>: expressions and statements, their constructors and
    their freeing, and the statements made of lists (\<open>var a, b = 1, 2\<close>; \<open>a, b = f()\<close>).
  \<^item> ParserState: the state of the parser, scopes and their units, imports, and the declarations of
    variables, functions and classes (\<^verbatim>\<open>parser.c\<close>, \<^verbatim>\<open>ast.c\<close>, \<^verbatim>\<open>koalac.c\<close>).
  \<^item> ParserExpr: the analysis and code of expressions (\<^verbatim>\<open>parser.c\<close>, \<^verbatim>\<open>parser_ident.c\<close>,
    \<^verbatim>\<open>parser_operator.c\<close>).
  \<^item> ParserStmt: the analysis and code of statements, and of a module (\<^verbatim>\<open>parser.c\<close>).
  \<^item> ObjectModel, ObjectRefs: \<^verbatim>\<open>object.c\<close>: classes, the order in which their bases are searched, members,
    and objects on a heap with counts of references.
  \<^item> PkgTree: \<^verbatim>\<open>pkgnode.c\<close>, a tree of nodes in one hash table; a locale states what the table gives.
  \<^item> TaskQueue, Task: \<^verbatim>\<open>libtask\<close>: the linked queues and their balancing, and the operations of tasks. A
    step is one operation of a queue, which is locked; the properties are about one processor, on which
    steps follow one another, and two processors have a counterexample.
  \<^item> VmObjects: \<^verbatim>\<open>objects/intobject.c\<close>, \<^verbatim>\<open>stringobject.c\<close>, \<^verbatim>\<open>tupleobject.c\<close> and \<^verbatim>\<open>codeobject.c\<close>: the objects of the
    library on the heap of the virtual machine, with the cache of strings, and what dropping the last
    reference to one frees.
  \<^item> VmPackage: \<^verbatim>\<open>package.c\<close>: packages, and making one from an image; \<open>package_holds\<close> relates a package to
    the declarations and the constants of an image.
  \<^item> VmState: \<^verbatim>\<open>state.c\<close>: finding and loading packages by their path, and their variables, constants and
    functions by name.
  \<^item> VmEval: \<^verbatim>\<open>eval.c\<close>, \<^verbatim>\<open>stack.h\<close>: frames, the stack of operands, and the interpreter. The C functions it
    calls are a parameter, and so is the file system of VmState.
  \<^bold>\<open>Correspondence.\<close> Every definition has the name of the C function, struct or macro it models, or its
  static name without leading underscores. A struct is a record, and a pointer to it that is never null is
  the record itself; a pointer that may be null is an option; an intrusive list is a list where only its
  order matters. Machine integers are words where they wrap around (hashes, bytes, characters) and
  integers with a stated range elsewhere. A failing assertion, a null pointer that is followed and an
  access out of bounds are the values of \<open>fault\<close>, the left values of \<open>run\<close>. Memory is never exhausted
  (except in Vector, where the allocator is an argument), and it is zeroed (\<^verbatim>\<open>Malloc\<close> is \<^verbatim>\<open>calloc\<close>).
  Assertions are enabled, as in the default build. The C library is modelled as the standard describes it
  (\<open>strtoll\<close>, \<open>strcmp\<close>, \<open>isupper\<close>). The machine is little-endian.

  \<^bold>\<open>Fuel.\<close> Reading a type item follows indices; the fuel is the number of nested items, and a bound of
  one more than the index (hence the size of the pool) is proved to be enough, since items only refer to
  items before them. Loops whose end is not obvious, such as the parser of descriptors or writing to a
  buffer, are partial functions with values in an option; they are proved to return.

  \<^bold>\<open>Main results.\<close> Those marked C1 to C40 are the properties; the others are lemmas. Descriptors are printed and
  parsed back; files of images are read back as they were written; adding to an image refines appending
  to a list; generated code encodes its block; the public symbols of a module reach its importers. The
  analysis of statements restores its scopes, identifiers denote their innermost declaration, sums of
  integers are folded. Tasks on one processor stay consistent, run in turn and deliver their results;
  classes stay well-formed; counting references never touches a freed object. A package that is loaded
  from its file holds what its image was given, equal strings are one object, variables hold what is
  stored in them, and code that was generated for constants pushes their objects.
  The containers keep their invariants and refine abstract lists and maps. Error results say where the
  code stops or answers wrongly: prototypes nested in types, empty code, texts of maps, instructions
  that the generator does not know, calls, which never return.

  \<^bold>\<open>Not modelled.\<close> Reference counts and the freeing of descriptors and tables (only the freeing of single
  symbols and of syntax trees is); functions that only print; logging; the lexer and the generated grammar
  (\<open>yyparse\<close> is a parameter of \<open>Build_AST\<close>); the compiler driver, which walks directories and reads the
  command line; the positions of symbols and the counts of their uses, which only messages read; saving and swapping the
  contexts of tasks, which is assembly; starting and ending the virtual machine and \<open>Koala_RunTask\<close>, which
  only put together what is modelled; the registration of the builtin packages and the texts of their
  objects, which print.
\<close>

end
